(* ===== verification/Prelude.thy ===== *)
theory Prelude
  imports Main "HOL-Library.Word"
begin

text \<open>
  Shared vocabulary of the development: the machine integer types of the 32-bit targets,
  the error codes the modelled code returns or throws, the result type of operations that can fail,
  and generic lemmas on lists and words that several components use.
\<close>

unbundle bit_operations_syntax

section \<open>Machine integers\<close>

text \<open>\<open>size_t\<close>, \<open>uint32_t\<close> and \<open>int\<close> are 32 bits wide on the ARM targets.\<close>

type_synonym u8 = "8 word"
type_synonym u16 = "16 word"
type_synonym u32 = "32 word"
type_synonym u64 = "64 word"

section \<open>Errors\<close>

text \<open>
  The names of \<open>PErrorCode\<close> that the modelled functions return, or throw with
  \<open>PERROR_THROW_CODE\<close>. \<open>Fault\<close> stands for a failed \<open>kassert\<close> or the null
  dereference behind it.
\<close>

datatype PErrorCode =
    Success | INVAL | NOMEM | IO | NOSPC | TIMEDOUT | AGAIN | BUSY | DEADLK
  | EOVERFLOW | RestartSyscall | INTR | SRCH | NOENT | WOULDBLOCK | PIPE
  | NAMETOOLONG | PERM | EXIST | Fault

text \<open>The values of \<open>ObjectWaitMode\<close> that the kernel uses; the header that declares the type is not part of the repository.\<close>

datatype ObjectWaitMode = ReadMode | WriteMode | ReadWriteMode

type_synonym 'a result = "PErrorCode + 'a"

lemma if_Inl_eq_Inr: "(if c then Inl e else x) = Inr y \<longleftrightarrow> \<not> c \<and> x = Inr y"
  by simp

named_theorems word_facts \<open>unfolding facts that turn word goals into goals on naturals\<close>

section \<open>Lists\<close>

lemma nth_upd_if:
  "i < length xs \<Longrightarrow> xs[i := v] ! j = (if i = j then v else xs ! j)"
  by simp

lemma drop_drop_overflow:
  "drop (length (drop (length ws - n) ws @ xs) - n) (drop (length ws - n) ws @ xs) =
   drop (length (ws @ xs) - n) (ws @ xs)"
proof (cases "length ws \<le> n")
  case True
  then show ?thesis by simp
next
  case False
  then show ?thesis by (simp add: add.commute drop_drop)
qed

section \<open>Words\<close>

lemma unat_of_nat_lt:
  "n < 2 ^ LENGTH('a) \<Longrightarrow> unat (of_nat n :: 'a::len word) = n"
  by (simp add: unat_of_nat take_bit_nat_eq_self)

lemma unat_u32: "unat (x :: u32) < 2 ^ 32"
  using unsigned_less [of x] by simp

lemma unat_and_pow2_mask:
  fixes x m :: "'a::len word"
  assumes "unat m = 2 ^ k - 1"
  shows "unat (x AND m) = unat x mod 2 ^ k"
proof -
  have "unat (x AND m) = unat x AND unat m"
    by (simp add: unsigned_and_eq)
  also have "\<dots> = unat x AND mask k"
    by (simp add: assms mask_eq_exp_minus_1)
  also have "\<dots> = unat x mod 2 ^ k"
    by (simp add: take_bit_eq_mask [symmetric] take_bit_eq_mod)
  finally show ?thesis .
qed

lemma unat_add_mod_pow2:
  fixes x y :: "'a::len word"
  assumes "k \<le> LENGTH('a)"
  shows "unat (x + y) mod 2 ^ k = (unat x + unat y) mod 2 ^ k"
proof -
  have "(2::nat) ^ k dvd 2 ^ LENGTH('a)"
    using assms by (simp add: le_imp_power_dvd)
  then show ?thesis
    by (simp add: unat_word_ariths mod_mod_cancel)
qed

section \<open>Step relations\<close>

text \<open>The states a step relation reaches.\<close>

inductive reaches :: "('s \<Rightarrow> bool) \<Rightarrow> ('s \<Rightarrow> 's \<Rightarrow> bool) \<Rightarrow> 's \<Rightarrow> bool" for start sys_step where
  init: "start S \<Longrightarrow> reaches start sys_step S"
| step: "reaches start sys_step S \<Longrightarrow> sys_step S S' \<Longrightarrow> reaches start sys_step S'"

lemma reaches_invariant:
  assumes "reaches start sys_step S" "\<And>S. start S \<Longrightarrow> I S"
    and "\<And>S S'. reaches start sys_step S \<Longrightarrow> I S \<Longrightarrow> sys_step S S' \<Longrightarrow> I S'"
  shows "I S"
  using assms(1) by induction (auto intro: assms(2,3))

end
