(* ===== verification/CircularBuffer.thy ===== *)
theory CircularBuffer
  imports Prelude
begin

text \<open>
  \<open>PCircularBuffer\<close> of \<open>Include/Utils/CircularBuffer.h\<close>: a ring of \<open>QUEUE_SIZE\<close> elements (a power
  of two) with two free-running \<open>size_t\<close> counters that wrap at \<open>2 ^ 32\<close> and are masked on access.
  A write that does not fit drops the oldest elements. The abstraction \<open>circ_items\<close> is the list
  of the elements still to be read; \<open>Write\<close> and \<open>Read\<close> are shown to implement a lossy queue on it.
\<close>

section \<open>State and operations\<close>

record 'a PCircularBuffer =
  m_Queue :: "'a list"
  m_QueueInPos :: u32
  m_QueueOutPos :: u32

definition QUEUE_SIZE :: "'a PCircularBuffer \<Rightarrow> u32" where
  "QUEUE_SIZE b = of_nat (length (m_Queue b))"

definition QUEUE_SIZE_MASK :: "'a PCircularBuffer \<Rightarrow> u32" where
  "QUEUE_SIZE_MASK b = QUEUE_SIZE b - 1"

definition circ_Clear :: "'a PCircularBuffer \<Rightarrow> 'a PCircularBuffer" where
  "circ_Clear b = b\<lparr>m_QueueInPos := 0, m_QueueOutPos := 0\<rparr>"

definition circ_IsEmpty :: "'a PCircularBuffer \<Rightarrow> bool" where
  "circ_IsEmpty b \<longleftrightarrow> m_QueueInPos b = m_QueueOutPos b"

definition circ_GetLength :: "'a PCircularBuffer \<Rightarrow> u32" where
  "circ_GetLength b = m_QueueInPos b - m_QueueOutPos b"

definition circ_GetRemainingSpace :: "'a PCircularBuffer \<Rightarrow> u32" where
  "circ_GetRemainingSpace b = QUEUE_SIZE b - circ_GetLength b"

text \<open>\<open>WriteElements dst d src s n\<close> is the loop with \<open>dst\<close> and \<open>src\<close> pointing at the given indexes.\<close>

fun WriteElements :: "'a list \<Rightarrow> nat \<Rightarrow> 'a list \<Rightarrow> nat \<Rightarrow> nat \<Rightarrow> 'a list" where
  "WriteElements dst d src s 0 = dst"
| "WriteElements dst d src s (Suc count) =
     WriteElements (dst[d := src ! s]) (Suc d) src (Suc s) count"

definition circ_Write :: "'a PCircularBuffer \<Rightarrow> 'a list \<Rightarrow> u32 \<Rightarrow> u32 \<times> 'a PCircularBuffer" where
  "circ_Write b data len0 =
     (let curSrc = (if len0 > QUEUE_SIZE b then len0 - QUEUE_SIZE b else 0);
          len = (if len0 > QUEUE_SIZE b then QUEUE_SIZE b else len0);
          curLength = circ_GetLength b;
          freeSpace = QUEUE_SIZE b - curLength;
          outPos = (if len > freeSpace then m_QueueOutPos b + (len - freeSpace) else m_QueueOutPos b);
          maskedInPos = m_QueueInPos b AND QUEUE_SIZE_MASK b;
          postSpace = QUEUE_SIZE b - maskedInPos;
          queue =
            (if postSpace \<ge> len
             then WriteElements (m_Queue b) (unat maskedInPos) data (unat curSrc) (unat len)
             else let preSpace = len - postSpace;
                      q1 = WriteElements (m_Queue b) (unat maskedInPos) data (unat curSrc) (unat postSpace)
                  in WriteElements q1 0 data (unat (curSrc + postSpace)) (unat preSpace))
      in (len, b\<lparr>m_Queue := queue, m_QueueInPos := m_QueueInPos b + len, m_QueueOutPos := outPos\<rparr>))"

definition circ_Read :: "'a PCircularBuffer \<Rightarrow> 'a list \<Rightarrow> u32 \<Rightarrow> (u32 \<times> 'a list) \<times> 'a PCircularBuffer" where
  "circ_Read b dst len0 =
     (let curLength = circ_GetLength b;
          len = (if len0 > curLength then curLength else len0);
          maskedOutPos = m_QueueOutPos b AND QUEUE_SIZE_MASK b;
          postSpace = QUEUE_SIZE b - maskedOutPos;
          dst' =
            (if postSpace \<ge> len
             then WriteElements dst 0 (m_Queue b) (unat maskedOutPos) (unat len)
             else let preSpace = len - postSpace;
                      d1 = WriteElements dst 0 (m_Queue b) (unat maskedOutPos) (unat postSpace)
                  in WriteElements d1 (unat postSpace) (m_Queue b) 0 (unat preSpace))
      in ((len, dst'), b\<lparr>m_QueueOutPos := m_QueueOutPos b + len\<rparr>))"

section \<open>Invariant and abstraction\<close>

definition circ_inv :: "'a PCircularBuffer \<Rightarrow> bool" where
  "circ_inv b \<longleftrightarrow> length (m_Queue b) \<in> set (map (\<lambda>k. 2 ^ k) [0..<32]) \<and>
     unat (circ_GetLength b) \<le> length (m_Queue b)"

definition circ_items :: "'a PCircularBuffer \<Rightarrow> 'a list" where
  "circ_items b = map (\<lambda>i. m_Queue b ! ((unat (m_QueueOutPos b) + i) mod length (m_Queue b)))
     [0..<unat (circ_GetLength b)]"

definition circ_capacity :: "'a PCircularBuffer \<Rightarrow> nat" where
  "circ_capacity b = length (m_Queue b)"

section \<open>The copy loop\<close>

lemma length_WriteElements [simp]: "length (WriteElements dst d src s n) = length dst"
  by (induction n arbitrary: dst d s) auto

lemma nth_WriteElements:
  "d + n \<le> length dst \<Longrightarrow> j < length dst \<Longrightarrow>
   WriteElements dst d src s n ! j = (if d \<le> j \<and> j < d + n then src ! (s + (j - d)) else dst ! j)"
proof (induction n arbitrary: dst d s)
  case 0
  then show ?case by auto
next
  case (Suc n)
  then have "WriteElements (dst[d := src ! s]) (Suc d) src (Suc s) n ! j =
      (if Suc d \<le> j \<and> j < Suc d + n then src ! (Suc s + (j - Suc d)) else dst[d := src ! s] ! j)"
    by simp
  with Suc.prems show ?case
    by (cases "j = d") (auto simp: Suc_diff_Suc not_less_eq_eq)
qed

text \<open>The two-part copy into the ring, position by position from the masked write index.\<close>

lemma ring_store_nth:
  assumes "p < length q" "n \<le> length q" "j < length q"
  shows "(if n \<le> length q - p then WriteElements q p data s n
          else WriteElements (WriteElements q p data s (length q - p)) 0 data (s + (length q - p))
                 (n - (length q - p))) ! ((p + j) mod length q) =
         (if j < n then data ! (s + j) else q ! ((p + j) mod length q))"
proof (cases "p + j < length q")
  case True
  then show ?thesis using assms by (auto simp: nth_WriteElements)
next
  case False
  then have m: "(p + j) mod length q = p + j - length q"
    using assms by (simp add: mod_if)
  have "p + j - length q < p" using assms False by linarith
  then show ?thesis
    unfolding m using assms False by (auto simp: nth_WriteElements)
qed

text \<open>The two-part copy out of the ring fills the destination with consecutive ring positions.\<close>

lemma ring_load_take:
  assumes "p < length q" "n \<le> length q" "n \<le> length dst"
  shows "take n (if n \<le> length q - p then WriteElements dst 0 q p n
          else WriteElements (WriteElements dst 0 q p (length q - p)) (length q - p) q 0
                 (n - (length q - p))) = map (\<lambda>i. q ! ((p + i) mod length q)) [0..<n]"
  using assms by (intro nth_equalityI) (auto simp: nth_WriteElements mod_if add.commute)

lemma circ_size_facts:
  assumes "circ_inv b"
  shows "unat (QUEUE_SIZE b) = length (m_Queue b)"
    and "unat (x AND QUEUE_SIZE_MASK b) = unat x mod length (m_Queue b)"
    and "0 < length (m_Queue b)"
    and "(unat (x + y) mod length (m_Queue b)) = (unat x + unat y) mod length (m_Queue b)"
proof -
  obtain k where k: "length (m_Queue b) = 2 ^ k" "k < 32"
    using assms by (auto simp: circ_inv_def)
  have lt: "(2::nat) ^ k < 2 ^ 32"
    using k(2) by (intro power_strict_increasing) auto
  show qs: "unat (QUEUE_SIZE b) = length (m_Queue b)"
    unfolding QUEUE_SIZE_def by (rule unat_of_nat_lt) (use lt k(1) in simp)
  show "0 < length (m_Queue b)"
    using k(1) by simp
  have "QUEUE_SIZE b \<noteq> 0"
    using qs k(1) by auto
  then have "unat (QUEUE_SIZE_MASK b) = 2 ^ k - 1"
    using qs k(1) by (simp add: QUEUE_SIZE_MASK_def unat_minus_one)
  then show "unat (x AND QUEUE_SIZE_MASK b) = unat x mod length (m_Queue b)"
    using k(1) by (simp add: unat_and_pow2_mask)
  show "(unat (x + y) mod length (m_Queue b)) = (unat x + unat y) mod length (m_Queue b)"
    unfolding k(1) by (rule unat_add_mod_pow2) (use k(2) in simp)
qed

lemma circ_in_pos:
  assumes "circ_inv b"
  shows "unat (m_QueueInPos b) mod length (m_Queue b) =
         (unat (m_QueueOutPos b) + unat (circ_GetLength b)) mod length (m_Queue b)"
  using circ_size_facts(4) [OF assms, of "m_QueueOutPos b" "circ_GetLength b"]
  by (simp add: circ_GetLength_def)

section \<open>Refinement to a lossy queue\<close>

lemma circ_Read_result:
  assumes "circ_inv b" "unat n \<le> length dst"
  shows "unat (fst (fst (circ_Read b dst n))) = min (unat n) (length (circ_items b))"
    and "take (min (unat n) (length (circ_items b))) (snd (fst (circ_Read b dst n))) =
         take (unat n) (circ_items b)"
    and "circ_items (snd (circ_Read b dst n)) = drop (unat n) (circ_items b)"
    and "circ_inv (snd (circ_Read b dst n))"
    and "circ_capacity (snd (circ_Read b dst n)) = circ_capacity b"
proof -
  note f = circ_size_facts [OF assms(1)]
  define len where "len = (if n > circ_GetLength b then circ_GetLength b else n)"
  define N where "N = length (m_Queue b)"
  define out where "out = unat (m_QueueOutPos b)"
  have len: "unat len = min (unat n) (unat (circ_GetLength b))"
    by (auto simp: len_def word_less_nat_alt)
  have L: "unat (circ_GetLength b) \<le> N"
    using assms(1) by (simp add: circ_inv_def N_def)
  have post: "unat (QUEUE_SIZE b - (m_QueueOutPos b AND QUEUE_SIZE_MASK b)) = N - out mod N"
    using f(1-3) by (simp add: unat_sub_if' N_def out_def less_imp_le)
  have pre: "unat (len - (QUEUE_SIZE b - (m_QueueOutPos b AND QUEUE_SIZE_MASK b))) =
      unat len - (N - out mod N)" if "\<not> len \<le> QUEUE_SIZE b - (m_QueueOutPos b AND QUEUE_SIZE_MASK b)"
    using that post by (simp add: unat_sub_if' word_le_nat_alt)
  show "unat (fst (fst (circ_Read b dst n))) = min (unat n) (length (circ_items b))"
    using len by (simp add: circ_Read_def Let_def len_def circ_items_def)
  have p: "unat (m_QueueOutPos b AND QUEUE_SIZE_MASK b) = out mod N"
    using f(2) by (simp add: N_def out_def)
  have "snd (fst (circ_Read b dst n)) =
      (if unat len \<le> N - out mod N then WriteElements dst 0 (m_Queue b) (out mod N) (unat len)
       else WriteElements (WriteElements dst 0 (m_Queue b) (out mod N) (N - out mod N)) (N - out mod N)
         (m_Queue b) 0 (unat len - (N - out mod N)))"
    unfolding circ_Read_def Let_def len_def [symmetric] word_le_nat_alt post p
    using pre by (simp add: word_le_nat_alt post)
  then have "take (unat len) (snd (fst (circ_Read b dst n))) =
      map (\<lambda>i. m_Queue b ! ((out mod N + i) mod N)) [0..<unat len]"
    using ring_load_take [of "out mod N" "m_Queue b" "unat len" dst] f(3) L len assms(2)
    unfolding N_def [symmetric] by simp
  then show "take (min (unat n) (length (circ_items b))) (snd (fst (circ_Read b dst n))) =
      take (unat n) (circ_items b)"
    using len by (simp add: circ_items_def take_map N_def out_def mod_add_left_eq min_def)
  have gl: "circ_GetLength (snd (circ_Read b dst n)) = circ_GetLength b - len"
    by (simp add: circ_Read_def Let_def len_def circ_GetLength_def)
  have ugl: "unat (circ_GetLength b - len) = unat (circ_GetLength b) - unat n"
    using len by (simp add: unat_sub_if')
  show "circ_inv (snd (circ_Read b dst n))"
    using assms(1) L unfolding circ_inv_def gl ugl by (auto simp: circ_Read_def Let_def N_def)
  show "circ_capacity (snd (circ_Read b dst n)) = circ_capacity b"
    by (simp add: circ_capacity_def circ_Read_def Let_def)
  have "circ_items (snd (circ_Read b dst n)) =
      map (\<lambda>i. m_Queue b ! ((unat (m_QueueOutPos b + len) + i) mod N)) [0..<unat (circ_GetLength b) - unat n]"
    using gl ugl by (simp add: circ_items_def circ_Read_def Let_def len_def N_def)
  also have "\<dots> = map (\<lambda>i. m_Queue b ! ((out + unat len + i) mod N)) [0..<unat (circ_GetLength b) - unat n]"
    using f(4) [of "m_QueueOutPos b" len]
    by (intro map_cong refl) (metis N_def out_def mod_add_left_eq)
  also have "\<dots> = drop (unat n) (circ_items b)"
    using len by (auto simp: circ_items_def N_def out_def add.assoc intro!: nth_equalityI)
  finally show "circ_items (snd (circ_Read b dst n)) = drop (unat n) (circ_items b)" .
qed

lemma circ_Write_result:
  assumes "circ_inv b" "unat n = length data"
  shows "unat (fst (circ_Write b data n)) = min (length data) (circ_capacity b)"
    and "circ_items (snd (circ_Write b data n)) =
         drop (length (circ_items b @ data) - circ_capacity b) (circ_items b @ data)"
    and "circ_inv (snd (circ_Write b data n))"
    and "circ_capacity (snd (circ_Write b data n)) = circ_capacity b"
proof -
  note f = circ_size_facts [OF assms(1)]
  define N where "N = length (m_Queue b)"
  define out where "out = unat (m_QueueOutPos b)"
  define L where "L = unat (circ_GetLength b)"
  define cur where "cur = (if n > QUEUE_SIZE b then n - QUEUE_SIZE b else 0)"
  define len where "len = (if n > QUEUE_SIZE b then QUEUE_SIZE b else n)"
  define p where "p = unat (m_QueueInPos b) mod N"
  define free where "free = QUEUE_SIZE b - circ_GetLength b"
  define drp where "drp = (if len > free then len - free else 0)"
  let ?b = "snd (circ_Write b data n)"
  have L: "L \<le> N" using assms(1) by (simp add: circ_inv_def N_def L_def)
  have N0: "0 < N" using f(3) by (simp add: N_def)
  have QS: "unat (QUEUE_SIZE b) = N" using f(1) by (simp add: N_def)
  have cur: "unat cur = length data - N" and len: "unat len = min (length data) N"
    using QS assms(2) by (auto simp: cur_def len_def word_less_nat_alt unat_sub_if')
  have free: "unat free = N - L" using QS L by (simp add: free_def unat_sub_if' L_def)
  have drp: "unat drp = unat len - (N - L)"
    using free by (auto simp: drp_def word_less_nat_alt unat_sub_if')
  have mp: "unat (m_QueueInPos b AND QUEUE_SIZE_MASK b) = p"
    using f(2) by (simp add: N_def p_def)
  have post: "unat (QUEUE_SIZE b - (m_QueueInPos b AND QUEUE_SIZE_MASK b)) = N - p"
    using QS mp N0 by (simp add: unat_sub_if' p_def less_imp_le)
  have pre: "unat (len - (QUEUE_SIZE b - (m_QueueInPos b AND QUEUE_SIZE_MASK b))) = unat len - (N - p)"
    if "\<not> unat len \<le> N - p" using that post by (simp add: unat_sub_if')
  have curp: "unat (cur + (QUEUE_SIZE b - (m_QueueInPos b AND QUEUE_SIZE_MASK b))) = unat cur + (N - p)"
    if "\<not> unat len \<le> N - p"
  proof -
    have "unat cur + (N - p) < 2 ^ 32"
      using that cur len assms(2) unat_u32 [of n] by auto
    then show ?thesis using post by (simp add: unat_word_ariths)
  qed
  have q: "m_Queue ?b = (if unat len \<le> N - p then WriteElements (m_Queue b) p data (unat cur) (unat len)
      else WriteElements (WriteElements (m_Queue b) p data (unat cur) (N - p)) 0 data
        (unat cur + (N - p)) (unat len - (N - p)))"
    unfolding circ_Write_def Let_def len_def [symmetric] cur_def [symmetric] word_le_nat_alt post mp
    using pre curp by (simp add: word_le_nat_alt post)
  have out': "m_QueueOutPos ?b = m_QueueOutPos b + drp"
    by (simp add: circ_Write_def Let_def len_def [symmetric] free_def drp_def)
  have in': "m_QueueInPos ?b = m_QueueInPos b + len"
    by (simp add: circ_Write_def Let_def len_def [symmetric])
  have gl: "circ_GetLength ?b = circ_GetLength b + len - drp"
    by (simp add: circ_GetLength_def in' out' algebra_simps)
  have bnd: "L + unat len - unat drp \<le> N"
    using L len drp by auto
  have L': "unat (circ_GetLength ?b) = L + unat len - unat drp"
  proof -
    have "circ_GetLength ?b = of_nat (L + unat len - unat drp)"
    proof -
      have "unat drp \<le> L + unat len" using drp L len by linarith
      then have "(of_nat (L + unat len - unat drp) :: u32) =
          of_nat L + of_nat (unat len) - of_nat (unat drp)"
        by (simp add: of_nat_diff)
      then show ?thesis by (simp add: gl L_def)
    qed
    moreover have "L + unat len - unat drp < 2 ^ 32"
      using bnd QS unat_u32 [of "QUEUE_SIZE b"] by simp
    ultimately show ?thesis by (simp add: unat_of_nat_lt)
  qed
  have nth: "m_Queue ?b ! ((p + j) mod N) =
      (if j < unat len then data ! (unat cur + j) else m_Queue b ! ((p + j) mod N))" if "j < N" for j
  proof -
    have "p < N" "unat len \<le> N" using N0 len by (simp_all add: p_def)
    then show ?thesis
      using that unfolding q N_def by (intro ring_store_nth)
  qed
  show "unat (fst (circ_Write b data n)) = min (length data) (circ_capacity b)"
    using len by (simp add: circ_Write_def Let_def len_def N_def circ_capacity_def)
  have lq: "length (m_Queue ?b) = N" unfolding q by (simp add: N_def)
  then show "circ_capacity ?b = circ_capacity b" by (simp add: circ_capacity_def N_def)
  show "circ_inv ?b"
    using assms(1) bnd unfolding circ_inv_def lq L' by (simp add: N_def)
  have p: "p = (out + L) mod N"
    using circ_in_pos [OF assms(1)] by (simp add: p_def N_def out_def L_def)
  show "circ_items ?b = drop (length (circ_items b @ data) - circ_capacity b) (circ_items b @ data)"
    (is "_ = drop ?d ?xs")
  proof (rule nth_equalityI)
    have li: "length (circ_items b) = L" by (simp add: circ_items_def L_def)
    show "length (circ_items ?b) = length (drop ?d ?xs)"
    proof -
      have "length (circ_items ?b) = L + unat len - unat drp" "length (circ_items b) = L"
        using L' by (simp_all add: circ_items_def L_def)
      then show ?thesis
        unfolding length_drop length_append circ_capacity_def N_def [symmetric]
        using drp len L by arith
    qed
    fix i assume "i < length (circ_items ?b)"
    then have i: "i < L + unat len - unat drp" using L' by (simp add: circ_items_def)
    have "circ_items ?b ! i = m_Queue ?b ! ((unat (m_QueueOutPos b + drp) + i) mod N)"
      using i L' lq by (simp add: circ_items_def out')
    also have "(unat (m_QueueOutPos b + drp) + i) mod N = (out + unat drp + i) mod N"
      using f(4) [of "m_QueueOutPos b" drp] by (metis N_def out_def mod_add_left_eq)
    also have "m_Queue ?b ! ((out + unat drp + i) mod N) = ?xs ! (?d + i)"
    proof (cases "unat drp + i < L")
      case True
      have "(out + unat drp + i) mod N = (p + (unat drp + i + N - L)) mod N"
      proof -
        have "(p + (unat drp + i + N - L)) mod N = (out + L + (unat drp + i + N - L)) mod N"
          unfolding p by (simp add: mod_add_left_eq)
        also have "out + L + (unat drp + i + N - L) = out + unat drp + i + N"
          using L by simp
        finally show ?thesis by simp
      qed
      moreover have "\<not> unat drp + i + N - L < unat len" "unat drp + i + N - L < N"
        using True drp L by auto
      moreover have "?d = unat drp" if "length data \<le> N"
        using that len drp L by (simp add: circ_items_def circ_capacity_def L_def N_def)
      moreover have "length data \<le> N" using True drp len L by (cases "length data \<le> N") auto
      moreover have "i < unat (circ_GetLength b) - unat drp" using True by (simp add: L_def)
      ultimately show ?thesis
        using nth [of "unat drp + i + N - L"] True L
        by (simp add: circ_items_def nth_append L_def N_def out_def add.assoc)
    next
      case False
      have "(out + unat drp + i) mod N = (p + (unat drp + i - L)) mod N"
      proof -
        have "(p + (unat drp + i - L)) mod N = (out + L + (unat drp + i - L)) mod N"
          unfolding p by (rule mod_add_left_eq)
        also have "out + L + (unat drp + i - L) = out + unat drp + i"
          using False by simp
        finally show ?thesis by simp
      qed
      moreover have "unat drp + i - L < unat len" "unat drp + i - L < N"
        using False i len L by auto
      moreover have "?d = L + length data - N"
        by (simp add: circ_items_def circ_capacity_def L_def N_def)
      then have "unat cur + (unat drp + i - L) = ?d + i - L" "\<not> ?d + i < L"
        using False cur len drp L by arith+
      ultimately show ?thesis
        using nth [of "unat drp + i - L"] by (simp add: nth_append li)
    qed
    also have "\<dots> = drop ?d ?xs ! i" by (rule nth_drop [symmetric]) (rule diff_le_self)
    finally show "circ_items ?b ! i = drop ?d ?xs ! i" .
  qed
qed

section \<open>The queue contract\<close>

text \<open>
  What a client of a bounded byte queue relies on: reads consume a prefix, and a write keeps the
  newest \<open>cap\<close> elements.
\<close>

locale lossy_queue =
  fixes inv :: "'s \<Rightarrow> bool"
    and items :: "'s \<Rightarrow> 'a list"
    and cap :: "'s \<Rightarrow> nat"
    and put :: "'s \<Rightarrow> 'a list \<Rightarrow> 's"
    and take_out :: "'s \<Rightarrow> nat \<Rightarrow> 'a list \<times> 's"
    and fits :: "'a list \<Rightarrow> bool"
  assumes put_inv: "inv s \<Longrightarrow> fits xs \<Longrightarrow> inv (put s xs)"
    and put_cap: "inv s \<Longrightarrow> fits xs \<Longrightarrow> cap (put s xs) = cap s"
    and put_items: "inv s \<Longrightarrow> fits xs \<Longrightarrow>
      items (put s xs) = drop (length (items s @ xs) - cap s) (items s @ xs)"
    and take_inv: "inv s \<Longrightarrow> n < 2 ^ 32 \<Longrightarrow> inv (snd (take_out s n))"
    and take_cap: "inv s \<Longrightarrow> n < 2 ^ 32 \<Longrightarrow> cap (snd (take_out s n)) = cap s"
    and take_items: "inv s \<Longrightarrow> n < 2 ^ 32 \<Longrightarrow>
      fst (take_out s n) = take n (items s) \<and> items (snd (take_out s n)) = drop n (items s)"
begin

lemma puts_inv_cap:
  "inv s \<Longrightarrow> list_all fits xss \<Longrightarrow>
   inv (fold (\<lambda>xs s. put s xs) xss s) \<and> cap (fold (\<lambda>xs s. put s xs) xss s) = cap s"
  by (induction xss arbitrary: s) (simp_all add: put_inv put_cap)

text \<open>A sequence of writes leaves the newest elements of everything written, in order.\<close>

lemma puts_items:
  "inv s \<Longrightarrow> list_all fits xss \<Longrightarrow> length (items s) \<le> cap s \<Longrightarrow>
   items (fold (\<lambda>xs s. put s xs) xss s) =
   drop (length (items s @ concat xss) - cap s) (items s @ concat xss)"
proof (induction xss arbitrary: s)
  case Nil
  then show ?case by simp
next
  case (Cons xs xss)
  then have i: "items (put s xs) = drop (length (items s @ xs) - cap s) (items s @ xs)"
    by (simp add: put_items)
  have "items (fold (\<lambda>xs s. put s xs) xss (put s xs)) =
      drop (length (items (put s xs) @ concat xss) - cap s) (items (put s xs) @ concat xss)"
  proof -
    have f: "fits xs" "list_all fits xss" using Cons.prems by simp_all
    have "length (items (put s xs)) \<le> cap (put s xs)"
      using Cons.prems(1) f by (simp add: i put_cap)
    from Cons.IH [OF put_inv [OF Cons.prems(1) f(1)] f(2) this] show ?thesis
      by (simp only: put_cap [OF Cons.prems(1) f(1)])
  qed
  then show ?case
    unfolding i using drop_drop_overflow [of "items s @ xs" "cap s" "concat xss"]
    by (simp only: fold_simps concat.simps append_assoc)
qed

text \<open>Two successive reads return what one larger read returns.\<close>

lemma take_split:
  "inv s \<Longrightarrow> m + n < 2 ^ 32 \<Longrightarrow>
   fst (take_out s m) @ fst (take_out (snd (take_out s m)) n) = fst (take_out s (m + n))"
  by (simp add: take_items take_inv take_add)

end

definition circ_put :: "'a PCircularBuffer \<Rightarrow> 'a list \<Rightarrow> 'a PCircularBuffer" where
  "circ_put b xs = snd (circ_Write b xs (of_nat (length xs)))"

text \<open>
  A read into a buffer of exactly the requested length; the first element of the buffer only fills it.
\<close>

definition circ_take :: "'a PCircularBuffer \<Rightarrow> nat \<Rightarrow> 'a list \<times> 'a PCircularBuffer" where
  "circ_take b n =
     (let r = circ_Read b (replicate n (m_Queue b ! 0)) (of_nat n)
      in (take (unat (fst (fst r))) (snd (fst r)), snd r))"

lemma circ_take_result:
  assumes "circ_inv b" "n < 2 ^ 32"
  shows "fst (circ_take b n) = take n (circ_items b)"
    and "circ_items (snd (circ_take b n)) = drop n (circ_items b)"
    and "circ_inv (snd (circ_take b n))"
    and "circ_capacity (snd (circ_take b n)) = circ_capacity b"
  using circ_Read_result [OF assms(1), of "of_nat n" "replicate n (m_Queue b ! 0)"] assms(2)
  by (simp_all add: circ_take_def Let_def unat_of_nat_lt)

interpretation cq: lossy_queue circ_inv circ_items circ_capacity circ_put circ_take
  "\<lambda>xs. length xs < 2 ^ 32"
  by unfold_locales
    (simp_all add: circ_put_def circ_take_result circ_Write_result unat_of_nat_lt)

section \<open>Properties\<close>

text \<open>
  C1. Any sequence of writes to an empty circular buffer leaves exactly the newest
  \<open>QUEUE_SIZE\<close> elements of everything written, in order, and a following read returns them in
  order, however often the 32-bit counters wrap.
\<close>

theorem circ_write_read_newest:
  assumes "circ_inv b" "circ_items b = []"
    and "list_all (\<lambda>xs. length xs < 2 ^ 32) xss" "n < 2 ^ 32"
  shows "fst (circ_take (fold (\<lambda>xs s. circ_put s xs) xss b) n) =
         take n (drop (length (concat xss) - circ_capacity b) (concat xss))"
  using cq.puts_items [OF assms(1,3)] cq.puts_inv_cap [OF assms(1,3)] assms(2,4)
  by (simp add: circ_take_result)

lemma circ_write_read_newest_witness:
  "fst (circ_take (fold (\<lambda>xs s. circ_put s xs) [[1, 2, 3], [4, 5], [6 :: nat]]
      \<lparr>m_Queue = [0, 0, 0, 0], m_QueueInPos = - 2, m_QueueOutPos = - 2\<rparr>) 3) = [3, 4, 5]"
  using circ_write_read_newest
    [of "\<lparr>m_Queue = [0, 0, 0, 0 :: nat], m_QueueInPos = - 2, m_QueueOutPos = - 2\<rparr>" "[[1, 2, 3], [4, 5], [6]]" 3]
  by (simp add: circ_inv_def circ_items_def circ_GetLength_def circ_capacity_def image_iff
      bexI [of _ 2])

end
