(* ===== verification/Base64.thy ===== *)
theory Base64
  imports Prelude
begin

text \<open>
  \<open>PBase64Codec\<close> of \<open>Include/Utils/Base64Codec.h\<close> and \<open>System/Utils/Base64Codec.cpp\<close>: the two
  alphabets, the six-bit selectors, \<open>Encode\<close> and \<open>Decode\<close>. Pointers into the source are list
  suffixes; the destination buffer is a zero-filled list written from index 0 upwards.
\<close>

section \<open>Alphabets\<close>

definition g_Base64EncodeAlphabet :: "u8 list" where
  "g_Base64EncodeAlphabet = map of_char
     ''ABCDEFGHIJKLMNOPQRSTUVWXYZabcdefghijklmnopqrstuvwxyz0123456789+/''"

definition g_Base64DecodeAlphabet :: "u8 list" where
  "g_Base64DecodeAlphabet =
    [ 0,  0,  0,  0,  0,  0,  0,  0,  0,  0,  0,  0,  0,  0,  0,  0,
      0,  0,  0,  0,  0,  0,  0,  0,  0,  0,  0,  0,  0,  0,  0,  0,
      0,  0,  0,  0,  0,  0,  0,  0,  0,  0,  0, 62, 63, 62,  0, 63,
     52, 53, 54, 55, 56, 57, 58, 59, 60, 61,  0,  0,  0,  0,  0,  0,
      0,  0,  1,  2,  3,  4,  5,  6,  7,  8,  9, 10, 11, 12, 13, 14,
     15, 16, 17, 18, 19, 20, 21, 22, 23, 24, 25,  0,  0,  0,  0, 63,
      0, 26, 27, 28, 29, 30, 31, 32, 33, 34, 35, 36, 37, 38, 39, 40,
     41, 42, 43, 44, 45, 46, 47, 48, 49, 50, 51,  0,  0,  0,  0,  0]"

section \<open>Six-bit selectors\<close>

definition EncodeBit00_05 :: "u8 list \<Rightarrow> u8" where
  "EncodeBit00_05 srcData = g_Base64EncodeAlphabet ! unat (drop_bit 2 (srcData ! 0))"

definition EncodeBit06_07 :: "u8 list \<Rightarrow> u8" where
  "EncodeBit06_07 srcData = g_Base64EncodeAlphabet ! unat (push_bit 4 (srcData ! 0 AND 0x03))"

definition EncodeBit06_11 :: "u8 list \<Rightarrow> u8" where
  "EncodeBit06_11 srcData =
     g_Base64EncodeAlphabet ! unat (push_bit 4 (srcData ! 0 AND 0x03) OR drop_bit 4 (srcData ! 1))"

definition EncodeBit12_15 :: "u8 list \<Rightarrow> u8" where
  "EncodeBit12_15 srcData = g_Base64EncodeAlphabet ! unat (push_bit 2 (srcData ! 1 AND 0x0f))"

definition EncodeBit12_17 :: "u8 list \<Rightarrow> u8" where
  "EncodeBit12_17 srcData =
     g_Base64EncodeAlphabet ! unat (push_bit 2 (srcData ! 1 AND 0x0f) OR drop_bit 6 (srcData ! 2))"

definition EncodeBit18_23 :: "u8 list \<Rightarrow> u8" where
  "EncodeBit18_23 srcData = g_Base64EncodeAlphabet ! unat (srcData ! 2 AND 0x3f)"

definition DecodeCharacter :: "u8 \<Rightarrow> u32" where
  "DecodeCharacter character = ucast (g_Base64DecodeAlphabet ! unat (character AND 0x7f))"

section \<open>Encode and Decode\<close>

text \<open>Writing consecutive bytes through an advancing destination pointer.\<close>

fun store_bytes :: "u8 list \<Rightarrow> nat \<Rightarrow> u8 list \<Rightarrow> u8 list" where
  "store_bytes buffer pos [] = buffer"
| "store_bytes buffer pos (x # xs) = store_bytes (buffer[pos := x]) (Suc pos) xs"

text \<open>The bytes the encoder stores, from the current source position on.\<close>

fun Encode_bytes :: "u8 list \<Rightarrow> u8 list" where
  "Encode_bytes src =
     (if length src \<ge> 3 then
        [EncodeBit00_05 src, EncodeBit06_11 src, EncodeBit12_17 src, EncodeBit18_23 src]
        @ Encode_bytes (drop 3 src)
      else if length src \<noteq> 0 then
        EncodeBit00_05 src #
        (if length src = 1 then [EncodeBit06_07 src, of_char CHR ''='']
         else [EncodeBit06_11 src, EncodeBit12_15 src])
        @ [of_char CHR ''='']
      else [])"

declare Encode_bytes.simps [simp del]

definition Base64_Encode :: "u8 list \<Rightarrow> u32 \<Rightarrow> u8 list" where
  "Base64_Encode data len =
     (let resultLength = ((len + 2) div 3) * 4
      in if resultLength < len then []
         else store_bytes (replicate (unat resultLength) 0) 0 (Encode_bytes (take (unat len) data)))"

text \<open>The bytes the main decoding loop stores for the first \<open>n\<close> quadruples.\<close>

fun Decode_quads :: "u8 list \<Rightarrow> nat \<Rightarrow> u8 list" where
  "Decode_quads src 0 = []"
| "Decode_quads src (Suc n) =
     (let value = push_bit 18 (DecodeCharacter (src ! 0)) OR push_bit 12 (DecodeCharacter (src ! 1))
                  OR push_bit 6 (DecodeCharacter (src ! 2)) OR DecodeCharacter (src ! 3)
      in [ucast (drop_bit 16 value), ucast (drop_bit 8 value), ucast value]
         @ Decode_quads (drop 4 src) n)"

definition Decode_tail :: "u8 list \<Rightarrow> nat \<Rightarrow> u8 list" where
  "Decode_tail src paddingBytes =
     (if paddingBytes = 2 then
        let value = push_bit 18 (DecodeCharacter (src ! 0)) OR push_bit 12 (DecodeCharacter (src ! 1))
        in [ucast (drop_bit 16 value)]
      else if paddingBytes = 1 then
        let value = push_bit 18 (DecodeCharacter (src ! 0)) OR push_bit 12 (DecodeCharacter (src ! 1))
                    OR push_bit 6 (DecodeCharacter (src ! 2))
        in [ucast (drop_bit 16 value), ucast (drop_bit 8 value)]
      else [])"

text \<open>The padding and the length of the part made of whole quadruples.\<close>

definition Decode_padding :: "u8 list \<Rightarrow> nat \<times> nat" where
  "Decode_padding src =
     (let len = length src; r = len mod 4
      in if r = 0 then
           let paddingBytes =
             (if len > 1 \<and> src ! (len - 2) = of_char CHR ''='' then 2
              else if len > 0 \<and> src ! (len - 1) = of_char CHR ''='' then 1 else 0)
           in (paddingBytes, if paddingBytes \<noteq> 0 then len - 4 else len)
         else (4 - r, len - r))"

definition Base64_Decode :: "u8 list \<Rightarrow> u8 list" where
  "Base64_Decode src =
     (let (paddingBytes, unpaddedLength) = Decode_padding src;
          resultLength = (length src + 3) div 4 * 3 - paddingBytes
      in store_bytes (replicate resultLength 0) 0
           (Decode_quads src (unpaddedLength div 4) @ Decode_tail (drop unpaddedLength src) paddingBytes))"

section \<open>Stored bytes\<close>

lemma length_store_bytes [simp]: "length (store_bytes buffer pos xs) = length buffer"
  by (induction xs arbitrary: buffer pos) auto

lemma store_bytes_eq:
  "pos + length xs \<le> length buffer \<Longrightarrow>
   store_bytes buffer pos xs = take pos buffer @ xs @ drop (pos + length xs) buffer"
proof (induction xs arbitrary: buffer pos)
  case Nil
  then show ?case by simp
next
  case (Cons x xs)
  then have "store_bytes (buffer[pos := x]) (Suc pos) xs =
      take (Suc pos) (buffer[pos := x]) @ xs @ drop (Suc pos + length xs) (buffer[pos := x])"
    by (intro Cons.IH) simp
  with Cons.prems show ?case
    by (simp add: take_Suc_conv_app_nth)
qed

lemma store_bytes_all [simp]: "length xs = n \<Longrightarrow> store_bytes (replicate n 0) 0 xs = xs"
  by (simp add: store_bytes_eq)

lemma length_Encode_bytes: "length (Encode_bytes src) = (length src + 2) div 3 * 4"
proof (induction src rule: Encode_bytes.induct)
  case (1 src)
  show ?case
  proof (cases "length src \<ge> 3")
    case True
    then have "length src + 2 = length (drop 3 src) + 2 + 3" by simp
    then have "(length src + 2) div 3 = (length (drop 3 src) + 2) div 3 + 1"
      by presburger
    with True "1" show ?thesis by (simp add: Encode_bytes.simps [of src])
  next
    case False
    then have "length src = 0 \<or> length src = 1 \<or> length src = 2" by arith
    then show ?thesis by (auto simp: Encode_bytes.simps [of src])
  qed
qed

lemma length_Decode_quads [simp]: "length (Decode_quads src n) = 3 * n"
  by (induction n arbitrary: src) (simp_all add: Let_def)

section \<open>Alphabet inversion\<close>

lemma alphabet_inverse_all:
  "list_all (\<lambda>i. DecodeCharacter (g_Base64EncodeAlphabet ! i) = of_nat i) [0..<64]"
  by code_simp

lemma alphabet_not_padding_all:
  "list_all (\<lambda>i. g_Base64EncodeAlphabet ! i \<noteq> of_char CHR ''='') [0..<64]"
  by code_simp

lemma DecodeCharacter_alphabet:
  "unat w < 64 \<Longrightarrow> DecodeCharacter (g_Base64EncodeAlphabet ! unat w) = ucast (w :: u8)"
  using alphabet_inverse_all by (simp add: list_all_iff)

lemma alphabet_not_padding:
  "unat (w :: u8) < 64 \<Longrightarrow> g_Base64EncodeAlphabet ! unat w \<noteq> of_char CHR ''=''"
  using alphabet_not_padding_all by (simp add: list_all_iff)

lemma six_bits: "take_bit 6 (w :: u8) = w \<Longrightarrow> unat w < 64"
proof -
  assume a: "take_bit 6 w = w"
  have "unat w = take_bit 6 (unat w)"
    using arg_cong [OF a, of unat] by (simp add: unsigned_take_bit_eq)
  also have "\<dots> < 2 ^ 6" by (rule take_bit_nat_less_exp)
  finally show ?thesis by simp
qed

lemma nat_less_8: "n < (8::nat) \<longleftrightarrow> n \<in> {0, 1, 2, 3, 4, 5, 6, 7}"
  by auto

lemma bit_u8_beyond: "8 \<le> n \<Longrightarrow> \<not> bit (w :: u8) n"
  using bit_imp_le_length [of w n] by auto

text \<open>Facts that decide the bits of concatenations of byte fragments.\<close>

lemmas byte_bits = bit_simps nat_less_8 bit_u8_beyond numeral_2_eq_2 [symmetric]

lemma small_masks:
  "(3 :: u8) = mask 2" "(0xf :: u8) = mask 4" "(0x3f :: u8) = mask 6"
  by (simp_all add: mask_eq_exp_minus_1)

lemma selector_bounds:
  "unat (drop_bit 2 (a :: u8)) < 64"
  "unat (push_bit 4 (a AND 3)) < 64"
  "unat (push_bit 4 (a AND 3) OR drop_bit 4 b) < 64"
  "unat (push_bit 2 (b AND 0xf)) < 64"
  "unat (push_bit 2 (b AND 0xf) OR drop_bit 6 c) < 64"
  "unat (c AND 0x3f) < 64"
  unfolding small_masks
  by - (rule six_bits, rule bit_word_eqI, force simp: byte_bits)+

text \<open>Three encoded bytes decode to themselves: the selectors and the shifts are inverse.\<close>

definition quad_value :: "u8 \<Rightarrow> u8 \<Rightarrow> u8 \<Rightarrow> u32" where
  "quad_value a b c =
     push_bit 18 (ucast (drop_bit 2 a)) OR
     push_bit 12 (ucast (push_bit 4 (a AND 3) OR drop_bit 4 b)) OR
     push_bit 6 (ucast (push_bit 2 (b AND 0xf) OR drop_bit 6 c)) OR ucast (c AND 0x3f)"

lemma quad_value_bytes:
  "(ucast (drop_bit 16 (quad_value a b c)) :: u8) = a"
  "(ucast (drop_bit 8 (quad_value a b c)) :: u8) = b"
  "(ucast (quad_value a b c) :: u8) = c"
  unfolding small_masks quad_value_def
  by - (rule bit_word_eqI, simp add: nat_less_8, elim disjE; simp add: bit_simps bit_u8_beyond)+

lemma Decode_quads_append:
  "length q = 4 \<Longrightarrow> Decode_quads (q @ src) (Suc n) = Decode_quads q 1 @ Decode_quads src n"
  by (simp add: Let_def nth_append)

text \<open>Each selector's character decodes to the six bits it selects.\<close>

lemma decode_selectors:
  "DecodeCharacter (EncodeBit00_05 s) = ucast (drop_bit 2 (s ! 0))"
  "DecodeCharacter (EncodeBit06_07 s) = ucast (push_bit 4 (s ! 0 AND 3))"
  "DecodeCharacter (EncodeBit06_11 s) = ucast (push_bit 4 (s ! 0 AND 3) OR drop_bit 4 (s ! 1))"
  "DecodeCharacter (EncodeBit12_15 s) = ucast (push_bit 2 (s ! 1 AND 0xf))"
  "DecodeCharacter (EncodeBit12_17 s) = ucast (push_bit 2 (s ! 1 AND 0xf) OR drop_bit 6 (s ! 2))"
  "DecodeCharacter (EncodeBit18_23 s) = ucast (s ! 2 AND 0x3f)"
  unfolding EncodeBit00_05_def EncodeBit06_07_def EncodeBit06_11_def EncodeBit12_15_def
    EncodeBit12_17_def EncodeBit18_23_def
  by (rule DecodeCharacter_alphabet, rule selector_bounds)+

lemma Decode_quad_of_encoded:
  assumes "s = [a, b, c]"
  shows "Decode_quads [EncodeBit00_05 s, EncodeBit06_11 s, EncodeBit12_17 s, EncodeBit18_23 s] 1 = s"
proof -
  have "Decode_quads [EncodeBit00_05 s, EncodeBit06_11 s, EncodeBit12_17 s, EncodeBit18_23 s] 1 =
      [ucast (drop_bit 16 (quad_value a b c)), ucast (drop_bit 8 (quad_value a b c)),
       ucast (quad_value a b c)]"
    by (simp add: Let_def decode_selectors quad_value_def assms)
  then show ?thesis by (simp only: quad_value_bytes assms)
qed

lemma Decode_tail_of_encoded_one:
  assumes "s = [a]"
  shows "Decode_tail [EncodeBit00_05 s, EncodeBit06_07 s, p, q] 2 = s"
proof -
  have "Decode_tail [EncodeBit00_05 s, EncodeBit06_07 s, p, q] 2 = [ucast (drop_bit 16 (quad_value a 0 0))]"
    by (simp add: Decode_tail_def Let_def decode_selectors quad_value_def assms)
  then show ?thesis by (simp only: quad_value_bytes assms)
qed

lemma Decode_tail_of_encoded_two:
  assumes "s = [a, b]"
  shows "Decode_tail [EncodeBit00_05 s, EncodeBit06_11 s, EncodeBit12_15 s, p] (Suc 0) = s"
proof -
  have "Decode_tail [EncodeBit00_05 s, EncodeBit06_11 s, EncodeBit12_15 s, p] (Suc 0) =
      [ucast (drop_bit 16 (quad_value a b 0)), ucast (drop_bit 8 (quad_value a b 0))]"
    by (simp add: Decode_tail_def Let_def decode_selectors quad_value_def assms)
  then show ?thesis by (simp only: quad_value_bytes assms)
qed

lemma Decode_tail_none: "Decode_tail s 0 = []"
  by (simp add: Decode_tail_def)

section \<open>Round trip\<close>

text \<open>The padding that \<open>Decode\<close> reads off an encoded text.\<close>

definition pad_of :: "nat \<Rightarrow> nat" where
  "pad_of n = (if n mod 3 = 1 then 2 else if n mod 3 = 2 then 1 else 0)"

lemma encoded_length: "((n + 2) div 3 * 4 + 3) div 4 * 3 - pad_of n = n"
proof -
  have q: "((n + 2) div 3 * 4 + 3) div 4 = (n + 2) div 3" by simp
  have "(n + 2) div 3 * 3 = n" if "n mod 3 = 0" using that by presburger
  moreover have "(n + 2) div 3 * 3 = n + 2" if "n mod 3 = 1" using that by presburger
  moreover have "(n + 2) div 3 * 3 = n + 1" if "n mod 3 = 2" using that by presburger
  moreover have "n mod 3 = 0 \<or> n mod 3 = 1 \<or> n mod 3 = 2" by presburger
  ultimately show ?thesis unfolding q pad_of_def by auto
qed

lemma list_mod3_cases:
  assumes "length (xs :: 'a list) < 3"
  obtains "xs = []" | a where "xs = [a]" | a b where "xs = [a, b]"
  using assms by (cases xs rule: list.exhaust; cases "tl xs"; cases "tl (tl xs)") auto

lemma three_cons: "length s \<ge> 3 \<Longrightarrow> \<exists>a b c r. s = a # b # c # r"
  by (auto simp: numeral_3_eq_3 Suc_le_length_iff)

definition quad :: "u8 list \<Rightarrow> u8 list" where
  "quad s = [EncodeBit00_05 s, EncodeBit06_11 s, EncodeBit12_17 s, EncodeBit18_23 s]"

lemma length_quad [simp]: "length (quad s) = 4"
  by (simp add: quad_def)

lemma quad_Cons: "quad (a # b # c # r) = quad [a, b, c]"
  by (simp add: quad_def EncodeBit00_05_def EncodeBit06_11_def EncodeBit12_17_def EncodeBit18_23_def)

lemma Encode_bytes_eqs:
  "Encode_bytes [] = []"
  "Encode_bytes [a] = [EncodeBit00_05 [a], EncodeBit06_07 [a], of_char CHR ''='', of_char CHR ''='']"
  "Encode_bytes [a, b] =
     [EncodeBit00_05 [a, b], EncodeBit06_11 [a, b], EncodeBit12_15 [a, b], of_char CHR ''='']"
  "Encode_bytes (a # b # c # r) = quad [a, b, c] @ Encode_bytes r"
  using quad_Cons [of a b c r]
  by (simp_all add: Encode_bytes.simps [of "[]"] Encode_bytes.simps [of "[a]"]
      Encode_bytes.simps [of "[a, b]"] Encode_bytes.simps [of "a # b # c # r"] quad_def)

text \<open>Induction over the triples of a source.\<close>

lemma triple_induct:
  "P [] \<Longrightarrow> (\<And>a. P [a]) \<Longrightarrow> (\<And>a b. P [a, b]) \<Longrightarrow> (\<And>a b c r. P r \<Longrightarrow> P (a # b # c # r)) \<Longrightarrow> P s"
  by (induction_schema, pat_completeness, lexicographic_order)

text \<open>Whole triples of the source and whole quadruples of the text correspond.\<close>

lemma take_drop_3:
  "take (3 + k) (a # b # c # r) = a # b # c # take k r" "drop (3 + k) (a # b # c # r) = drop k r"
  by (simp_all add: numeral_3_eq_3)

lemma div_mod_3_step: "(3 + n) div 3 = Suc (n div 3)" "(3 + n) mod 3 = n mod (3 :: nat)"
  by simp_all

lemma Decode_quads_Encode:
  "Decode_quads (Encode_bytes s) (length s div 3) = take (length s div 3 * 3) s"
proof (induction s rule: triple_induct)
  case (4 a b c r)
  have "Decode_quads (quad [a, b, c] @ Encode_bytes r) (Suc (length r div 3)) =
      [a, b, c] @ Decode_quads (Encode_bytes r) (length r div 3)"
    by (subst Decode_quads_append, rule length_quad)
      (simp only: quad_def Decode_quad_of_encoded)
  with 4 show ?case by (simp add: Encode_bytes_eqs div_mod_3_step take_drop_3 del: Decode_quads.simps)
qed simp_all

lemma Encode_bytes_drop:
  "drop (length s div 3 * 4) (Encode_bytes s) = Encode_bytes (drop (length s div 3 * 3) s)"
  by (induction s rule: triple_induct) (simp_all add: Encode_bytes_eqs div_mod_3_step take_drop_3)

lemma Decode_padding_append:
  assumes "length q = 4" "e \<noteq> []" "length e mod 4 = 0"
  shows "Decode_padding (q @ e) = (fst (Decode_padding e), 4 + snd (Decode_padding e))"
proof -
  have "4 \<le> length e" using assms(2,3) by (cases "length e < 4") auto
  then have "(q @ e) ! (length (q @ e) - 2) = e ! (length e - 2)"
    "(q @ e) ! (length (q @ e) - 1) = e ! (length e - 1)"
    using assms(1) by (auto simp: nth_append)
  then show ?thesis
    using assms \<open>4 \<le> length e\<close> unfolding Decode_padding_def Let_def by simp
qed

lemma selectors_not_padding:
  "EncodeBit06_11 s \<noteq> of_char CHR ''=''" "EncodeBit12_15 s \<noteq> of_char CHR ''=''"
  "EncodeBit12_17 s \<noteq> of_char CHR ''=''" "EncodeBit18_23 s \<noteq> of_char CHR ''=''"
  unfolding EncodeBit06_11_def EncodeBit12_15_def EncodeBit12_17_def EncodeBit18_23_def
  by (rule alphabet_not_padding, rule selector_bounds)+

lemma Encode_bytes_empty_iff: "Encode_bytes s = [] \<longleftrightarrow> s = []"
  by (simp add: Encode_bytes.simps [of s])

lemma Decode_padding_Encode:
  "Decode_padding (Encode_bytes s) = (pad_of (length s), length s div 3 * 4)"
proof (induction s rule: triple_induct)
  case (4 a b c r)
  show ?case
  proof (cases "r = []")
    case True
    then show ?thesis
      using selectors_not_padding [of "[a, b, c]"]
      by (simp add: Encode_bytes_eqs quad_def Decode_padding_def pad_of_def)
  next
    case False
    then have "Encode_bytes r \<noteq> []" by (simp only: Encode_bytes_empty_iff not_False_eq_True)
    moreover have "length (Encode_bytes r) mod 4 = 0" by (simp add: length_Encode_bytes)
    ultimately have "Decode_padding (quad [a, b, c] @ Encode_bytes r) =
        (pad_of (length r), 4 + length r div 3 * 4)"
      using Decode_padding_append [of "quad [a, b, c]" "Encode_bytes r"] 4 by simp
    then show ?thesis by (simp add: Encode_bytes_eqs pad_of_def div_mod_3_step)
  qed
qed (use selectors_not_padding in \<open>simp_all add: Encode_bytes_eqs Decode_padding_def pad_of_def\<close>)

text \<open>What the length check of \<open>Encode\<close> lets through fits a \<open>size_t\<close>.\<close>

lemma encode_result_length:
  fixes len :: u32
  assumes "unat len < 3221225470"
  shows "unat ((len + 2) div 3 * 4) = (unat len + 2) div 3 * 4" "\<not> (len + 2) div 3 * 4 < len"
proof -
  have "unat (len + 2) = unat len + 2" using assms by (simp add: unat_word_ariths)
  then have d: "unat ((len + 2) div 3) = (unat len + 2) div 3" by (simp add: unat_div)
  have "(unat len + 2) div 3 < 1073741824" using assms by (simp add: div_less_iff_less_mult)
  then show u: "unat ((len + 2) div 3 * 4) = (unat len + 2) div 3 * 4"
    using d by (simp add: unat_word_ariths)
  show "\<not> (len + 2) div 3 * 4 < len"
    unfolding word_less_nat_alt u by presburger
qed

lemma Encode_eq:
  assumes "length data < 3221225470"
  shows "Base64_Encode data (of_nat (length data)) = Encode_bytes data"
proof -
  have u: "unat (of_nat (length data) :: u32) = length data"
    using assms by (simp add: unat_of_nat_lt)
  show ?thesis
    using encode_result_length [of "of_nat (length data)"] assms
    by (simp add: Base64_Encode_def Let_def u length_Encode_bytes)
qed

text \<open>
  C2. Decoding the encoding of any byte buffer that \<open>Encode\<close> accepts gives the buffer back, with
  exactly the length computed up front (so the closing \<open>assert\<close>s of both routines hold).
\<close>

theorem base64_roundtrip:
  assumes "length data < 3221225470"
  shows "Base64_Decode (Base64_Encode data (of_nat (length data))) = data"
proof -
  define n where "n = length data div 3"
  define t where "t = drop (n * 3) data"
  have t: "length t < 3" "length t = length data mod 3"
    by (simp_all add: t_def n_def minus_div_mult_eq_mod)
  have len: "(length (Encode_bytes data) + 3) div 4 * 3 - pad_of (length data) = length data"
    unfolding length_Encode_bytes by (rule encoded_length)
  have tail: "Decode_tail (Encode_bytes t) (pad_of (length data)) = t"
    by (cases rule: list_mod3_cases [OF t(1)])
      (use t(2) in \<open>simp_all add: pad_of_def Encode_bytes_eqs Decode_tail_of_encoded_one
        Decode_tail_of_encoded_two Decode_tail_none\<close>)
  have "Decode_quads (Encode_bytes data) n @ Decode_tail (drop (n * 4) (Encode_bytes data))
      (pad_of (length data)) = data"
    using Decode_quads_Encode [of data] Encode_bytes_drop [of data] tail
    by (simp add: n_def t_def)
  then show ?thesis
    unfolding Encode_eq [OF assms] Base64_Decode_def Decode_padding_Encode Let_def prod.case len
    by (simp add: n_def)
qed

lemma base64_roundtrip_witness:
  "Base64_Decode (Base64_Encode [0x50, 0x61, 0x64, 0x4f] (of_nat 4)) = [0x50, 0x61, 0x64, 0x4f]"
  using base64_roundtrip [of "[0x50, 0x61, 0x64, 0x4f]"] by simp

end
