(* ===== verification/UTF8.thy ===== *)
theory UTF8
  imports Prelude
begin

text \<open>
  \<open>Include/Utils/UTF8Utils.h\<close>: classification of bytes and code points, decoding, validation,
  encoding, and the code point iterator. A \<open>const char*\<close> is the list of the bytes from that
  address on; code points are \<open>uint32_t\<close>.
\<close>

section \<open>Classification\<close>

definition UNICODE_REPLACEMENT_CHARACTER :: u32 where
  "UNICODE_REPLACEMENT_CHARACTER = 0xfffd"

definition UNICODE_MAX_CODE_POINT :: u32 where
  "UNICODE_MAX_CODE_POINT = 0x10ffff"

definition UTF8_MAX_CHARACTER_LENGTH :: nat where
  "UTF8_MAX_CHARACTER_LENGTH = 4"

definition is_first_utf8_byte :: "u8 \<Rightarrow> bool" where
  "is_first_utf8_byte byte \<longleftrightarrow> byte AND 0xc0 \<noteq> 0x80"

definition is_utf8_continuation_byte :: "u8 \<Rightarrow> bool" where
  "is_utf8_continuation_byte byte \<longleftrightarrow> byte AND 0xc0 = 0x80"

definition is_utf16_high_surrogate :: "u32 \<Rightarrow> bool" where
  "is_utf16_high_surrogate character \<longleftrightarrow> character \<ge> 0xd800 \<and> character \<le> 0xdbff"

definition is_utf16_low_surrogate :: "u32 \<Rightarrow> bool" where
  "is_utf16_low_surrogate character \<longleftrightarrow> character \<ge> 0xdc00 \<and> character \<le> 0xdfff"

definition is_unicode_scalar_value :: "u32 \<Rightarrow> bool" where
  "is_unicode_scalar_value character \<longleftrightarrow> character \<le> UNICODE_MAX_CODE_POINT \<and>
     \<not> is_utf16_high_surrogate character \<and> \<not> is_utf16_low_surrogate character"

definition utf8_char_length :: "u8 \<Rightarrow> nat" where
  "utf8_char_length firstByte =
     unat ((drop_bit (unat (drop_bit 3 firstByte AND 0x1e)) (0xe5000000 :: u32) AND 3) + 1)"

section \<open>Decoding, validation, encoding\<close>

text \<open>The result is the code point and \<open>outByteLength\<close>.\<close>

definition utf8_to_unicode :: "u8 list \<Rightarrow> nat \<Rightarrow> u32 \<times> nat" where
  "utf8_to_unicode source sourceLength =
     (let firstByte = ucast (source ! 0) :: u32 in
      if firstByte AND 0x80 = 0 then (firstByte, 1)
      else if firstByte AND 0x20 = 0 then
        (if sourceLength < 2 then (UNICODE_REPLACEMENT_CHARACTER, 1)
         else let secondByte = ucast (source ! 1) :: u32
              in (push_bit 6 (firstByte AND 0x1f) OR (secondByte AND 0x3f), 2))
      else if firstByte AND 0x10 = 0 then
        (if sourceLength < 3 then (UNICODE_REPLACEMENT_CHARACTER, 1)
         else let secondByte = ucast (source ! 1) :: u32; thirdByte = ucast (source ! 2) :: u32
              in (push_bit 12 (firstByte AND 0x0f) OR push_bit 6 (secondByte AND 0x3f)
                  OR (thirdByte AND 0x3f), 3))
      else
        (if sourceLength < 4 then (UNICODE_REPLACEMENT_CHARACTER, 1)
         else let secondByte = ucast (source ! 1) :: u32; thirdByte = ucast (source ! 2) :: u32;
                  fourthByte = ucast (source ! 3) :: u32
              in (push_bit 18 (firstByte AND 0x07) OR push_bit 12 (secondByte AND 0x3f)
                  OR push_bit 6 (thirdByte AND 0x3f) OR (fourthByte AND 0x3f), 4)))"

definition utf8_to_unicode_unbounded :: "u8 list \<Rightarrow> u32" where
  "utf8_to_unicode_unbounded source = fst (utf8_to_unicode source UTF8_MAX_CHARACTER_LENGTH)"

definition utf8_valid_sequence_length :: "u8 list \<Rightarrow> nat \<Rightarrow> nat" where
  "utf8_valid_sequence_length source sourceLength =
     (let firstByte = source ! 0 in
      if firstByte < 0x80 then 1
      else if firstByte < 0xc2 then 0
      else if firstByte < 0xe0 then
        (if sourceLength \<ge> 2 \<and> is_utf8_continuation_byte (source ! 1) then 2 else 0)
      else if firstByte < 0xf0 then
        (let validSequence = (sourceLength \<ge> 3 \<and> is_utf8_continuation_byte (source ! 1)
               \<and> is_utf8_continuation_byte (source ! 2)
               \<and> (firstByte \<noteq> 0xe0 \<or> source ! 1 \<ge> 0xa0) \<and> (firstByte \<noteq> 0xed \<or> source ! 1 < 0xa0))
         in if validSequence then 3 else 0)
      else if firstByte \<le> 0xf4 then
        (let validSequence = (sourceLength \<ge> 4 \<and> is_utf8_continuation_byte (source ! 1)
               \<and> is_utf8_continuation_byte (source ! 2) \<and> is_utf8_continuation_byte (source ! 3)
               \<and> (firstByte \<noteq> 0xf0 \<or> source ! 1 \<ge> 0x90) \<and> (firstByte \<noteq> 0xf4 \<or> source ! 1 < 0x90))
         in if validSequence then 4 else 0)
      else 0)"

text \<open>The bytes stored at \<open>destination\<close>; the returned length is the length of the list.\<close>

definition unicode_to_utf8 :: "u32 \<Rightarrow> u8 list" where
  "unicode_to_utf8 character =
     (if character < 0x80 then [ucast character]
      else if character < 0x800 then
        [ucast (0xc0 OR drop_bit 6 character), ucast (0x80 OR (character AND 0x3f))]
      else if character < 0x10000 then
        [ucast (0xe0 OR drop_bit 12 character), ucast (0x80 OR (drop_bit 6 character AND 0x3f)),
         ucast (0x80 OR (character AND 0x3f))]
      else
        [ucast (0xf0 OR drop_bit 18 character), ucast (0x80 OR (drop_bit 12 character AND 0x3f)),
         ucast (0x80 OR (drop_bit 6 character AND 0x3f)), ucast (0x80 OR (character AND 0x3f))])"

section \<open>The code point iterator\<close>

text \<open>\<open>[m_Position, m_End)\<close> as the list of the remaining bytes.\<close>

definition PUTF8CodePointIterator_deref :: "u8 list \<Rightarrow> u32" where
  "PUTF8CodePointIterator_deref it = fst (utf8_to_unicode it (length it))"

definition PUTF8CodePointIterator_increment :: "u8 list \<Rightarrow> u8 list" where
  "PUTF8CodePointIterator_increment it =
     (let remainingLength = length it; characterLength = utf8_char_length (it ! 0)
      in drop (if characterLength < remainingLength then characterLength else remainingLength) it)"

text \<open>A range-based loop over the iterator, to its end.\<close>

lemma drop_shorter: "it \<noteq> [] \<Longrightarrow> 0 < n \<Longrightarrow> length (drop (if n < length it then n else length it) it) < length it"
  by (cases it) auto

lemma utf8_char_length_pos: "0 < utf8_char_length b"
proof -
  have "unat ((x AND 3) :: u32) < 4" for x
    using unat_and_pow2_mask [of "3 :: u32" 2 x] by simp
  then have "unat ((x AND 3) + 1 :: u32) = unat (x AND 3) + 1" for x :: u32
    by (simp add: unat_word_ariths less_imp_le order_less_trans [of _ 4])
  then show ?thesis by (simp add: utf8_char_length_def)
qed

function code_points :: "u8 list \<Rightarrow> u32 list" where
  "code_points it =
     (if it = [] then []
      else PUTF8CodePointIterator_deref it # code_points (PUTF8CodePointIterator_increment it))"
  by pat_completeness auto
termination
  by (relation "measure length")
    (simp_all add: PUTF8CodePointIterator_increment_def Let_def drop_shorter utf8_char_length_pos del: length_drop)

declare code_points.simps [simp del]

section \<open>Numeric readings\<close>

lemma nat_or_push: "y < 2 ^ k \<Longrightarrow> push_bit k x OR y = x * 2 ^ k + (y :: nat)"
proof -
  assume "y < 2 ^ k"
  then have "take_bit k y = y" by (simp add: take_bit_nat_eq_self)
  then have "push_bit k x AND y = 0"
    by (metis (no_types, opaque_lifting) bit_0_eq bit_and_iff bit_eqI bit_push_bit_iff bit_take_bit_iff bot_apply bot_bool_def not_le)
  then have "push_bit k x + y = push_bit k x OR y" by (rule disjunctive_add_eq_or)
  then show ?thesis by (simp add: push_bit_eq_mult)
qed

lemma unat_push:
  fixes x :: "'a::len word"
  assumes "unat x * 2 ^ k < 2 ^ LENGTH('a)"
  shows "unat (push_bit k x) = unat x * 2 ^ k"
proof -
  have "unat (push_bit k x) = push_bit k (unat x)"
    unfolding unsigned_push_bit_eq
    by (rule take_bit_nat_eq_self) (use assms in \<open>simp add: push_bit_eq_mult\<close>)
  then show ?thesis by (simp only: push_bit_eq_mult)
qed

lemma unat_or_push:
  fixes x y :: "'a::len word"
  assumes "unat y < 2 ^ k" "unat x * 2 ^ k < 2 ^ LENGTH('a)"
  shows "unat (push_bit k x OR y) = unat x * 2 ^ k + unat y"
proof -
  have "unat (push_bit k x) = push_bit k (unat x)"
    using unat_push [OF assms(2)] by (simp only: push_bit_eq_mult)
  then show ?thesis by (simp only: unsigned_or_eq nat_or_push assms(1))
qed

lemma unat_drop: "unat (drop_bit k (x :: 'a::len word)) = unat x div 2 ^ k"
  using drop_bit_eq_div [of k "unat x"] by (simp only: unat_drop_bit_eq)

lemma unat_u8: "unat (b :: u8) < 256"
  using unsigned_less [of b] by simp

lemma unat_ucast_u8: "unat (ucast (b :: u8) :: u32) = unat b"
  using unat_u8 [of b] by (simp add: unsigned_ucast_eq take_bit_nat_eq_self)

definition char_length_spec :: "nat \<Rightarrow> nat" where
  "char_length_spec n = (if n < 192 then 1 else if n < 224 then 2 else if n < 240 then 3 else 4)"

lemma and_bit_zero: "m = 2 ^ k \<Longrightarrow> x AND m = 0 \<longleftrightarrow> even (unat x div 2 ^ k)" for x m :: "'a::len word"
proof -
  assume m: "m = 2 ^ k"
  have "bit x k = bit (unat x) k" by (simp add: bit_unsigned_iff)
  then show ?thesis unfolding m by (simp only: and_exp_eq_0_iff_not_bit bit_iff_odd [of "unat x"]) simp
qed

lemma even_div: "even (n div m) \<longleftrightarrow> n mod (m * 2) < m" if "0 < m" for n m :: nat
proof -
  have "n mod (m * 2) = m * (n div m mod 2) + n mod m" by (rule mod_mult2_eq)
  then show ?thesis using that by (cases "even (n div m)") (simp_all add: odd_iff_mod_2_eq_one)
qed

lemma even_div_facts:
  "n < 256 \<Longrightarrow> even (n div 128) \<longleftrightarrow> n < (128 :: nat)"
  "even (n div 32) \<longleftrightarrow> n mod 64 < (32 :: nat)"
  "even (n div 16) \<longleftrightarrow> n mod 32 < (16 :: nat)"
  using even_div [of 128 n] even_div [of 32 n] even_div [of 16 n] by simp_all

lemma byte_classes:
  "(ucast (b :: u8) :: u32) AND 0x80 = 0 \<longleftrightarrow> unat b < 128"
  "(ucast b :: u32) AND 0x20 = 0 \<longleftrightarrow> unat b mod 64 < 32"
  "(ucast b :: u32) AND 0x10 = 0 \<longleftrightarrow> unat b mod 32 < 16"
proof -
  have m: "(0x80 :: u32) = 2 ^ 7" "(0x20 :: u32) = 2 ^ 5" "(0x10 :: u32) = 2 ^ 4"
    and n: "(2 :: nat) ^ 7 = 128" "(2 :: nat) ^ 5 = 32" "(2 :: nat) ^ 4 = 16"
    by simp_all
  show "(ucast b :: u32) AND 0x80 = 0 \<longleftrightarrow> unat b < 128"
    "(ucast b :: u32) AND 0x20 = 0 \<longleftrightarrow> unat b mod 64 < 32"
    "(ucast b :: u32) AND 0x10 = 0 \<longleftrightarrow> unat b mod 32 < 16"
    by (simp_all only: and_bit_zero [OF m(1)] and_bit_zero [OF m(2)] and_bit_zero [OF m(3)]
        unat_ucast_u8 n even_div_facts unat_u8)
qed

lemma continuation_byte: "is_utf8_continuation_byte b \<longleftrightarrow> 128 \<le> unat b \<and> unat b < 192"
proof -
  have m: "(0xc0 :: u8) = NOT (mask 6)" by (simp add: mask_eq_exp_minus_1)
  have e: "b AND 0xc0 = push_bit 6 (drop_bit 6 b)"
    unfolding m by (rule bit_word_eqI) (auto simp: bit_simps)
  have "unat (drop_bit 6 b) * 2 ^ 6 < 2 ^ LENGTH(8)"
    using unat_u8 [of b] by (simp add: unat_drop)
  then have "unat (b AND 0xc0) = unat b div 64 * 64"
    unfolding e by (simp only: unat_push unat_drop) simp
  moreover have "is_utf8_continuation_byte b \<longleftrightarrow> unat (b AND 0xc0) = 128"
    unfolding is_utf8_continuation_byte_def by (simp add: word_unat_eq_iff)
  moreover have "n div 64 * 64 = 128 \<longleftrightarrow> 128 \<le> n \<and> n < 192" for n :: nat
  proof -
    have "n div 64 * 64 = 128 \<longleftrightarrow> 2 \<le> n div 64 \<and> n div 64 < 3" by auto
    then show ?thesis
      by (simp only: less_eq_div_iff_mult_less_eq div_less_iff_less_mult zero_less_numeral) simp
  qed
  ultimately show ?thesis by (simp only:)
qed

lemma mask_values:
  "unat (x AND 0x3f :: u32) = unat x mod 64" "unat (x AND 0x1f :: u32) = unat x mod 32"
  "unat (x AND 0x0f :: u32) = unat x mod 16" "unat (x AND 0x07 :: u32) = unat x mod 8"
  using unat_and_pow2_mask [of "0x3f :: u32" 6 x] unat_and_pow2_mask [of "0x1f :: u32" 5 x]
    unat_and_pow2_mask [of "0x0f :: u32" 4 x] unat_and_pow2_mask [of "0x07 :: u32" 3 x]
  by simp_all

lemma char_length_table:
  "k < 16 \<Longrightarrow> unat ((drop_bit (2 * k) (0xe5000000 :: u32) AND 3) + 1) = char_length_spec (16 * k)"
proof -
  assume "k < 16"
  then have "k = 0 \<or> k = 1 \<or> k = 2 \<or> k = 3 \<or> k = 4 \<or> k = 5 \<or> k = 6 \<or> k = 7 \<or>
      k = 8 \<or> k = 9 \<or> k = 10 \<or> k = 11 \<or> k = 12 \<or> k = 13 \<or> k = 14 \<or> k = 15"
    by presburger
  then show ?thesis by (elim disjE) (simp_all add: char_length_spec_def)
qed

lemma utf8_char_length_eq: "utf8_char_length b = char_length_spec (unat b)"
proof -
  have m: "(0x1e :: u8) = push_bit 1 (mask 4)" by (simp add: mask_eq_exp_minus_1)
  have e: "drop_bit 3 b AND 0x1e = push_bit 1 (drop_bit 4 b)"
  proof (rule bit_word_eqI)
    fix n assume n: "n < LENGTH(8)"
    show "bit (drop_bit 3 b AND 0x1e) n = bit (push_bit 1 (drop_bit 4 b)) n"
      unfolding m using n
      by (cases n) (auto simp: bit_drop_bit_eq bit_push_bit_iff bit_and_iff bit_mask_iff
          simp del: push_bit_Suc dest: bit_imp_le_length)
  qed
  have "unat (drop_bit 4 b) * 2 ^ 1 < 2 ^ LENGTH(8)"
    using unat_u8 [of b] by (simp add: unat_drop)
  then have i: "unat (drop_bit 3 b AND 0x1e) = 2 * (unat b div 16)"
    unfolding e by (simp only: unat_push unat_drop) simp
  have "unat b div 16 < 16" using unat_u8 [of b] by simp
  then have "utf8_char_length b = char_length_spec (16 * (unat b div 16))"
    unfolding utf8_char_length_def i by (rule char_length_table)
  also have "\<dots> = char_length_spec (unat b)"
  proof -
    have "16 * (n div 16) < 192 \<longleftrightarrow> n < 192" "16 * (n div 16) < 224 \<longleftrightarrow> n < 224"
      "16 * (n div 16) < 240 \<longleftrightarrow> n < 240" for n :: nat
      using div_less_iff_less_mult [of 16 n 12] div_less_iff_less_mult [of 16 n 14]
        div_less_iff_less_mult [of 16 n 15] by auto
    then show ?thesis unfolding char_length_spec_def by (simp only:)
  qed
  finally show ?thesis .
qed

section \<open>Encoded bytes as numbers\<close>

lemma unat_or_prefix:
  fixes y :: u32
  shows "unat y < 64 \<Longrightarrow> unat (0xc0 OR y) = 192 + unat y"
    and "unat y < 32 \<Longrightarrow> unat (0xe0 OR y) = 224 + unat y"
    and "unat y < 16 \<Longrightarrow> unat (0xf0 OR y) = 240 + unat y"
    and "unat y < 128 \<Longrightarrow> unat (0x80 OR y) = 128 + unat y"
  using unat_or_push [of y 6 3] unat_or_push [of y 5 7] unat_or_push [of y 4 15]
    unat_or_push [of y 7 1] by simp_all

lemma unat_ucast_u32: "unat (x :: u32) < 256 \<Longrightarrow> unat (ucast x :: u8) = unat x"
  by (simp add: unsigned_ucast_eq take_bit_nat_eq_self)

definition enc_nat :: "nat \<Rightarrow> nat list" where
  "enc_nat n =
     (if n < 128 then [n]
      else if n < 2048 then [192 + n div 64, 128 + n mod 64]
      else if n < 65536 then [224 + n div 4096, 128 + n div 64 mod 64, 128 + n mod 64]
      else [240 + n div 262144, 128 + n div 4096 mod 64, 128 + n div 64 mod 64, 128 + n mod 64])"

lemma unat_shift_mask: "unat (drop_bit k x AND 0x3f :: u32) = unat x div 2 ^ k mod 64"
  by (simp only: mask_values unat_drop)

lemma mod_64_less: "n mod 64 < (64 :: nat)" "n mod 64 < (128 :: nat)" "128 + n mod 64 < (256 :: nat)"
  using mod_less_divisor [of 64 n] by linarith+

lemma unat_continuation:
  "unat (ucast (0x80 OR (drop_bit k x AND 0x3f) :: u32) :: u8) = 128 + unat x div 2 ^ k mod 64"
  "unat (ucast (0x80 OR (x AND 0x3f) :: u32) :: u8) = 128 + unat x mod 64"
proof -
  have "unat (0x80 OR (drop_bit k x AND 0x3f)) = 128 + unat x div 2 ^ k mod 64"
    "unat (0x80 OR (x AND 0x3f)) = 128 + unat x mod 64"
    using unat_or_prefix(4) [of "drop_bit k x AND 0x3f"] unat_or_prefix(4) [of "x AND 0x3f"]
    by (simp_all only: unat_shift_mask mask_values unat_drop mod_64_less)
  then show "unat (ucast (0x80 OR (drop_bit k x AND 0x3f) :: u32) :: u8) = 128 + unat x div 2 ^ k mod 64"
    "unat (ucast (0x80 OR (x AND 0x3f) :: u32) :: u8) = 128 + unat x mod 64"
    by (simp_all only: unat_ucast_u32 mod_64_less)
qed

lemma unat_lead:
  "unat x < 2048 \<Longrightarrow> unat (ucast (0xc0 OR drop_bit 6 x :: u32) :: u8) = 192 + unat x div 64"
  "unat x < 65536 \<Longrightarrow> unat (ucast (0xe0 OR drop_bit 12 x :: u32) :: u8) = 224 + unat x div 4096"
  "unat x < 2097152 \<Longrightarrow> unat (ucast (0xf0 OR drop_bit 18 x :: u32) :: u8) = 240 + unat x div 262144"
proof -
  have p: "(2 :: nat) ^ 6 = 64" "(2 :: nat) ^ 12 = 4096" "(2 :: nat) ^ 18 = 262144" by simp_all
  { assume "unat x < 2048"
    then have q: "unat x div 64 < 32" by (simp add: div_less_iff_less_mult)
    have "unat (drop_bit 6 x) = unat x div 64" by (simp only: unat_drop p)
    with q have "unat (0xc0 OR drop_bit 6 x) = 192 + unat x div 64"
      using unat_or_prefix(1) [of "drop_bit 6 x"] by simp
    with q show "unat (ucast (0xc0 OR drop_bit 6 x :: u32) :: u8) = 192 + unat x div 64"
      by (subst unat_ucast_u32) simp_all }
  { assume "unat x < 65536"
    then have q: "unat x div 4096 < 16" by (simp add: div_less_iff_less_mult)
    have "unat (drop_bit 12 x) = unat x div 4096" by (simp only: unat_drop p)
    with q have "unat (0xe0 OR drop_bit 12 x) = 224 + unat x div 4096"
      using unat_or_prefix(2) [of "drop_bit 12 x"] by simp
    with q show "unat (ucast (0xe0 OR drop_bit 12 x :: u32) :: u8) = 224 + unat x div 4096"
      by (subst unat_ucast_u32) simp_all }
  { assume "unat x < 2097152"
    then have q: "unat x div 262144 < 8" by (simp add: div_less_iff_less_mult)
    have "unat (drop_bit 18 x) = unat x div 262144" by (simp only: unat_drop p)
    with q have "unat (0xf0 OR drop_bit 18 x) = 240 + unat x div 262144"
      using unat_or_prefix(3) [of "drop_bit 18 x"] by simp
    with q show "unat (ucast (0xf0 OR drop_bit 18 x :: u32) :: u8) = 240 + unat x div 262144"
      by (subst unat_ucast_u32) simp_all }
qed

lemma map_unat_unicode_to_utf8:
  assumes "unat c < 0x110000"
  shows "map unat (unicode_to_utf8 c) = enc_nat (unat c)"
proof -
  have p: "(2 :: nat) ^ 6 = 64" "(2 :: nat) ^ 12 = 4096" by simp_all
  have l: "c < 0x80 \<longleftrightarrow> unat c < 128" "c < 0x800 \<longleftrightarrow> unat c < 2048" "c < 0x10000 \<longleftrightarrow> unat c < 65536"
    by (simp_all add: word_less_nat_alt)
  have "unat c < 2097152" using assms by simp
  then show ?thesis
    unfolding unicode_to_utf8_def enc_nat_def l
    using unat_continuation(1) [of 6 c] unat_continuation(1) [of 12 c]
    by (auto simp only: p unat_continuation(2) unat_lead unat_ucast_u32 list.map split: if_splits)
qed

text \<open>Decoding, read on numbers.\<close>

lemma decode_values:
  shows "unat (push_bit 6 ((a :: u32) AND 0x1f) OR (b AND 0x3f)) = unat a mod 32 * 64 + unat b mod 64"
    and "unat (push_bit 12 (a AND 0x0f) OR push_bit 6 (b AND 0x3f) OR (c AND 0x3f)) =
      unat a mod 16 * 4096 + unat b mod 64 * 64 + unat c mod 64"
    and "unat (push_bit 18 (a AND 0x07) OR push_bit 12 (b AND 0x3f) OR push_bit 6 (c AND 0x3f) OR (d AND 0x3f)) =
      unat a mod 8 * 262144 + unat b mod 64 * 4096 + unat c mod 64 * 64 + unat d mod 64"
proof -
  have m: "unat y mod 64 < 64" "unat y mod 32 < 32" "unat y mod 16 < 16" "unat y mod 8 < 8" for y :: u32
    by simp_all
  have two: "unat (push_bit 6 x OR (y AND 0x3f)) = unat x * 64 + unat y mod 64" if "unat x < 64" for x y :: u32
    using unat_or_push [of "y AND 0x3f" 6 x] that m(1) [of y] by (simp add: mask_values)
  have three: "unat (push_bit 12 x OR push_bit 6 (y AND 0x3f) OR (z AND 0x3f)) =
      unat x * 4096 + unat y mod 64 * 64 + unat z mod 64" if "unat x < 64" for x y z :: u32
    using unat_or_push [of "push_bit 6 (y AND 0x3f) OR (z AND 0x3f)" 12 x] that m(1) [of y] m(1) [of z]
      two [of "y AND 0x3f" z] by (simp add: mask_values or.assoc)
  show "unat (push_bit 6 (a AND 0x1f) OR (b AND 0x3f)) = unat a mod 32 * 64 + unat b mod 64"
    using two [of "a AND 0x1f" b] m(2) [of a] by (simp add: mask_values)
  show "unat (push_bit 12 (a AND 0x0f) OR push_bit 6 (b AND 0x3f) OR (c AND 0x3f)) =
      unat a mod 16 * 4096 + unat b mod 64 * 64 + unat c mod 64"
    using three [of "a AND 0x0f" b c] m(3) [of a] by (simp add: mask_values)
  show "unat (push_bit 18 (a AND 0x07) OR push_bit 12 (b AND 0x3f) OR push_bit 6 (c AND 0x3f) OR (d AND 0x3f)) =
      unat a mod 8 * 262144 + unat b mod 64 * 4096 + unat c mod 64 * 64 + unat d mod 64"
    using unat_or_push [of "push_bit 12 (b AND 0x3f) OR push_bit 6 (c AND 0x3f) OR (d AND 0x3f)" 18 "a AND 0x07"]
      m(1) [of b] m(1) [of c] m(1) [of d] m(4) [of a] three [of "b AND 0x3f" c d]
    by (simp add: mask_values or.assoc)
qed

lemma decode_by_lead:
  "unat (s ! 0) < 128 \<Longrightarrow> utf8_to_unicode s n = (ucast (s ! 0), 1)"
  "192 \<le> unat (s ! 0) \<Longrightarrow> unat (s ! 0) < 224 \<Longrightarrow> 2 \<le> n \<Longrightarrow>
   unat (fst (utf8_to_unicode s n)) = unat (s ! 0) mod 32 * 64 + unat (s ! 1) mod 64 \<and>
   snd (utf8_to_unicode s n) = 2"
  "224 \<le> unat (s ! 0) \<Longrightarrow> unat (s ! 0) < 240 \<Longrightarrow> 3 \<le> n \<Longrightarrow>
   unat (fst (utf8_to_unicode s n)) =
     unat (s ! 0) mod 16 * 4096 + unat (s ! 1) mod 64 * 64 + unat (s ! 2) mod 64 \<and>
   snd (utf8_to_unicode s n) = 3"
  "240 \<le> unat (s ! 0) \<Longrightarrow> unat (s ! 0) < 248 \<Longrightarrow> 4 \<le> n \<Longrightarrow>
   unat (fst (utf8_to_unicode s n)) = unat (s ! 0) mod 8 * 262144 + unat (s ! 1) mod 64 * 4096
     + unat (s ! 2) mod 64 * 64 + unat (s ! 3) mod 64 \<and>
   snd (utf8_to_unicode s n) = 4"
proof -
  have r: "192 \<le> k \<Longrightarrow> k < 224 \<Longrightarrow> k mod 64 < 32" "224 \<le> k \<Longrightarrow> k < 256 \<Longrightarrow> \<not> k mod 64 < 32"
    "224 \<le> k \<Longrightarrow> k < 240 \<Longrightarrow> k mod 32 < 16" "240 \<le> k \<Longrightarrow> k < 248 \<Longrightarrow> \<not> k mod 32 < 16" for k :: nat
    by (simp_all add: le_mod_geq)
  show "unat (s ! 0) < 128 \<Longrightarrow> utf8_to_unicode s n = (ucast (s ! 0), 1)"
    unfolding utf8_to_unicode_def Let_def byte_classes by simp
  show "192 \<le> unat (s ! 0) \<Longrightarrow> unat (s ! 0) < 224 \<Longrightarrow> 2 \<le> n \<Longrightarrow>
   unat (fst (utf8_to_unicode s n)) = unat (s ! 0) mod 32 * 64 + unat (s ! 1) mod 64 \<and>
   snd (utf8_to_unicode s n) = 2"
    unfolding utf8_to_unicode_def Let_def byte_classes using r(1) [of "unat (s ! 0)"]
    by (simp add: decode_values unat_ucast_u8 del: push_bit_and One_nat_def)
  show "224 \<le> unat (s ! 0) \<Longrightarrow> unat (s ! 0) < 240 \<Longrightarrow> 3 \<le> n \<Longrightarrow>
   unat (fst (utf8_to_unicode s n)) =
     unat (s ! 0) mod 16 * 4096 + unat (s ! 1) mod 64 * 64 + unat (s ! 2) mod 64 \<and>
   snd (utf8_to_unicode s n) = 3"
    unfolding utf8_to_unicode_def Let_def byte_classes using r(2,3) [of "unat (s ! 0)"]
    by (simp add: decode_values unat_ucast_u8 del: push_bit_and One_nat_def)
  show "240 \<le> unat (s ! 0) \<Longrightarrow> unat (s ! 0) < 248 \<Longrightarrow> 4 \<le> n \<Longrightarrow>
   unat (fst (utf8_to_unicode s n)) = unat (s ! 0) mod 8 * 262144 + unat (s ! 1) mod 64 * 4096
     + unat (s ! 2) mod 64 * 64 + unat (s ! 3) mod 64 \<and>
   snd (utf8_to_unicode s n) = 4"
    unfolding utf8_to_unicode_def Let_def byte_classes using r(2,4) [of "unat (s ! 0)"]
    by (simp add: decode_values unat_ucast_u8 del: push_bit_and One_nat_def)
qed

section \<open>The validator and the codec agree\<close>

text \<open>Numeric conditions under which a sequence is accepted.\<close>

definition valid_nat :: "nat list \<Rightarrow> nat" where
  "valid_nat s =
     (let cont = (\<lambda>i. i < length s \<and> 128 \<le> s ! i \<and> s ! i < 192); b = s ! 0 in
      if b < 128 then 1 else if b < 194 then 0
      else if b < 224 then (if cont 1 then 2 else 0)
      else if b < 240 then
        (if cont 1 \<and> cont 2 \<and> (b = 224 \<longrightarrow> 160 \<le> s ! 1) \<and> (b = 237 \<longrightarrow> s ! 1 < 160) then 3 else 0)
      else if b \<le> 244 then
        (if cont 1 \<and> cont 2 \<and> cont 3 \<and> (b = 240 \<longrightarrow> 144 \<le> s ! 1) \<and> (b = 244 \<longrightarrow> s ! 1 < 144) then 4 else 0)
      else 0)"

lemma utf8_valid_sequence_length_nat:
  "s \<noteq> [] \<Longrightarrow> utf8_valid_sequence_length s (length s) = valid_nat (map unat s)"
  unfolding utf8_valid_sequence_length_def valid_nat_def Let_def continuation_byte
  by (auto simp: word_less_nat_alt word_le_nat_alt word_unat_eq_iff)

definition scalar_nat :: "nat \<Rightarrow> bool" where
  "scalar_nat n \<longleftrightarrow> n < 0x110000 \<and> \<not> (0xd800 \<le> n \<and> n < 0xe000)"

lemma is_unicode_scalar_value_nat: "is_unicode_scalar_value c \<longleftrightarrow> scalar_nat (unat c)"
  unfolding is_unicode_scalar_value_def is_utf16_high_surrogate_def is_utf16_low_surrogate_def
    UNICODE_MAX_CODE_POINT_def scalar_nat_def
  by (auto simp: word_le_nat_alt)

definition dec_nat :: "nat list \<Rightarrow> nat" where
  "dec_nat s =
     (let b = s ! 0 in
      if b < 128 then b
      else if b < 224 then b mod 32 * 64 + s ! 1 mod 64
      else if b < 240 then b mod 16 * 4096 + s ! 1 mod 64 * 64 + s ! 2 mod 64
      else b mod 8 * 262144 + s ! 1 mod 64 * 4096 + s ! 2 mod 64 * 64 + s ! 3 mod 64)"

lemma decode_valid:
  assumes "s \<noteq> []" "valid_nat (map unat s) \<noteq> 0" "valid_nat (map unat s) \<le> n"
  shows "unat (fst (utf8_to_unicode s n)) = dec_nat (map unat s) \<and>
    snd (utf8_to_unicode s n) = valid_nat (map unat s)"
proof -
  have b: "map unat s ! 0 = unat (s ! 0)" using assms(1) by simp
  have nz: "valid_nat (map unat s) \<noteq> 0" by (rule assms(2))
  have "unat (s ! 0) < 128 \<or> 194 \<le> unat (s ! 0) \<and> unat (s ! 0) < 224 \<or>
      224 \<le> unat (s ! 0) \<and> unat (s ! 0) < 240 \<or> 240 \<le> unat (s ! 0) \<and> unat (s ! 0) \<le> 244"
    using nz unfolding valid_nat_def Let_def b by (cases "unat (s ! 0) < 194") (auto split: if_splits)
  then consider (1) "unat (s ! 0) < 128" | (2) "194 \<le> unat (s ! 0)" "unat (s ! 0) < 224"
    | (3) "224 \<le> unat (s ! 0)" "unat (s ! 0) < 240" | (4) "240 \<le> unat (s ! 0)" "unat (s ! 0) \<le> 244"
    by blast
  then show ?thesis
  proof cases
    case 1
    then show ?thesis
      by (simp add: decode_by_lead(1) valid_nat_def dec_nat_def Let_def b unat_ucast_u8)
  next
    case 2
    then have v: "valid_nat (map unat s) = 2" "1 < length s"
      using nz unfolding valid_nat_def Let_def b by (simp_all split: if_splits)
    then show ?thesis
      using decode_by_lead(2) [of s n] 2 assms(3) by (simp add: dec_nat_def Let_def b)
  next
    case 3
    then have v: "valid_nat (map unat s) = 3" "2 < length s"
      using nz unfolding valid_nat_def Let_def b by (simp_all split: if_splits)
    then show ?thesis
      using decode_by_lead(3) [of s n] 3 assms(3) by (simp add: dec_nat_def Let_def b)
  next
    case 4
    then have v: "valid_nat (map unat s) = 4" "3 < length s"
      using nz unfolding valid_nat_def Let_def b by (simp_all split: if_splits)
    then show ?thesis
      using decode_by_lead(4) [of s n] 4 assms(3) by (simp add: dec_nat_def Let_def b)
  qed
qed

text \<open>Base 64 digits.\<close>

lemma digits:
  fixes p q y z :: nat
  assumes "y < 64" "z < 64"
  shows "(y * 64 + z) div 64 = y" "(y * 64 + z) mod 64 = z"
    and "(q * 4096 + y * 64 + z) div 4096 = q" "(q * 4096 + y * 64 + z) div 64 mod 64 = y"
      "(q * 4096 + y * 64 + z) mod 64 = z"
    and "q < 64 \<Longrightarrow> (p * 262144 + q * 4096 + y * 64 + z) div 262144 = p"
      "q < 64 \<Longrightarrow> (p * 262144 + q * 4096 + y * 64 + z) div 4096 mod 64 = q"
      "(p * 262144 + q * 4096 + y * 64 + z) div 64 mod 64 = y"
      "(p * 262144 + q * 4096 + y * 64 + z) mod 64 = z"
proof -
  show s: "(y' * 64 + z) div 64 = y'" "(y' * 64 + z) mod 64 = z" for y' using assms by simp_all
  have e: "q' * 4096 + y * 64 + z = (q' * 64 + y) * 64 + z" for q' by simp
  have d: "(q' * 4096 + y * 64 + z) div 64 = q' * 64 + y" for q' unfolding e by (rule s)
  show t: "(q' * 4096 + y * 64 + z) div 64 mod 64 = y" for q' unfolding d using assms by simp
  show u: "(q' * 4096 + y * 64 + z) mod 64 = z" for q' unfolding e by (rule s)
  show v: "(q' * 4096 + y * 64 + z) div 4096 = q'" for q'
    using div_mult2_eq [of "q' * 4096 + y * 64 + z" 64 64] d [of q'] assms by simp
  have f: "p * 262144 + q * 4096 + y * 64 + z = (p * 64 + q) * 4096 + y * 64 + z" by simp
  show "(p * 262144 + q * 4096 + y * 64 + z) div 64 mod 64 = y"
    "(p * 262144 + q * 4096 + y * 64 + z) mod 64 = z"
    unfolding f by (rule t, rule u)
  show "(p * 262144 + q * 4096 + y * 64 + z) div 4096 mod 64 = q" if "q < 64"
    unfolding f v using that by simp
  show "(p * 262144 + q * 4096 + y * 64 + z) div 262144 = p" if "q < 64"
    using div_mult2_eq [of "(p * 64 + q) * 4096 + y * 64 + z" 4096 64] v [of "p * 64 + q"] that
    by (simp add: f)
qed

lemma undigits:
  fixes n :: nat
  shows "n = n div 64 * 64 + n mod 64"
    and "n = n div 4096 * 4096 + n div 64 mod 64 * 64 + n mod 64"
    and "n = n div 262144 * 262144 + n div 4096 mod 64 * 4096 + n div 64 mod 64 * 64 + n mod 64"
proof -
  have a: "m = m div 64 * 64 + m mod 64" for m :: nat by simp
  show "n = n div 64 * 64 + n mod 64" by (rule a)
  have d: "n div 4096 = n div 64 div 64" "n div 262144 = n div 64 div 64 div 64"
    by (simp_all flip: div_mult2_eq)
  show "n = n div 4096 * 4096 + n div 64 mod 64 * 64 + n mod 64"
    using a [of n] a [of "n div 64"] unfolding d by linarith
  show "n = n div 262144 * 262144 + n div 4096 mod 64 * 4096 + n div 64 mod 64 * 64 + n mod 64"
    using a [of n] a [of "n div 64"] a [of "n div 64 div 64"] unfolding d by linarith
qed

lemma continuation_mod: "128 \<le> b \<Longrightarrow> b < 192 \<Longrightarrow> b mod 64 = b - (128 :: nat)"
  by (simp add: le_mod_geq)

lemma lead_mod:
  "192 \<le> b \<Longrightarrow> b < 224 \<Longrightarrow> b mod 32 = b - (192 :: nat)"
  "224 \<le> b \<Longrightarrow> b < 240 \<Longrightarrow> b mod 16 = b - (224 :: nat)"
  "240 \<le> b \<Longrightarrow> b < 248 \<Longrightarrow> b mod 8 = b - (240 :: nat)"
proof -
  have m: "(k * d + r) mod d = r" if "r < d" for k d r :: nat using that by simp
  show "192 \<le> b \<Longrightarrow> b < 224 \<Longrightarrow> b mod 32 = b - 192" using m [of "b - 192" 32 6] by simp
  show "224 \<le> b \<Longrightarrow> b < 240 \<Longrightarrow> b mod 16 = b - 224" using m [of "b - 224" 16 14] by simp
  show "240 \<le> b \<Longrightarrow> b < 248 \<Longrightarrow> b mod 8 = b - 240" using m [of "b - 240" 8 30] by simp
qed

text \<open>Encoding a scalar value gives an accepted sequence that decodes to it.\<close>

lemma enc_nat_accepted:
  assumes "scalar_nat n"
  shows "valid_nat (enc_nat n @ r) = length (enc_nat n) \<and> dec_nat (enc_nat n @ r) = n"
proof -
  define x y z w where "x = n div 262144" and "y = n div 4096 mod 64" and "z = n div 64 mod 64" and "w = n mod 64"
  have b: "y < 64" "z < 64" "w < 64" by (simp_all add: y_def z_def w_def)
  have u: "n = x * 262144 + y * 4096 + z * 64 + w"
    unfolding x_def y_def z_def w_def by (rule undigits(3))
  consider (1) "n < 128" | (2) "128 \<le> n" "n < 2048" | (3) "2048 \<le> n" "n < 65536" | (4) "65536 \<le> n"
    by linarith
  then show ?thesis
  proof cases
    case 1
    then show ?thesis by (simp add: enc_nat_def valid_nat_def dec_nat_def)
  next
    case 2
    then have x: "x = 0" "y = 0" using u b by linarith+
    then have nn: "n = z * 64 + w" using u by simp
    have d: "n div 64 = z" "z < 32" "2 \<le> z"
      using digits(1) [OF b(2,3)] nn 2 b by (simp, linarith, linarith)
    then have e: "enc_nat n = [192 + z, 128 + w]" using 2 by (simp add: enc_nat_def w_def)
    show ?thesis
      unfolding e using d x u b lead_mod(1) [of "192 + z"] continuation_mod [of "128 + w"]
      by (simp add: valid_nat_def dec_nat_def Let_def)
  next
    case 3
    then have x: "x = 0" "y < 16" using u b by linarith+
    then have "n div 4096 = y" using u digits(3) [of z w y] b by simp
    then have e: "enc_nat n = [224 + y, 128 + z, 128 + w]"
      using 3 by (simp add: enc_nat_def z_def w_def)
    have "y = 0 \<longrightarrow> 32 \<le> z" "y = 13 \<longrightarrow> z < 32"
      using u x 3 b assms by (auto simp: scalar_nat_def)
    then show ?thesis
      unfolding e using x u b lead_mod(2) [of "224 + y"] continuation_mod [of "128 + w"] continuation_mod [of "128 + z"]
      by (simp add: valid_nat_def dec_nat_def Let_def)
  next
    case 4
    have e: "enc_nat n = [240 + x, 128 + y, 128 + z, 128 + w]"
      using 4 by (simp add: enc_nat_def x_def y_def z_def w_def)
    have "x \<le> 4" "x = 0 \<longrightarrow> 16 \<le> y" "x = 4 \<longrightarrow> y < 16"
      using u b 4 assms by (auto simp: scalar_nat_def)
    then show ?thesis
      unfolding e using u b lead_mod(3) [of "240 + x"] continuation_mod [of "128 + w"]
        continuation_mod [of "128 + z"] continuation_mod [of "128 + y"]
      by (simp add: valid_nat_def dec_nat_def Let_def)
  qed
qed

text \<open>Conversely, an accepted sequence is the encoding of the scalar value it decodes to.\<close>

lemma accepted_is_enc_nat:
  assumes "s \<noteq> []" "valid_nat s \<noteq> 0"
  shows "scalar_nat (dec_nat s) \<and> enc_nat (dec_nat s) = take (valid_nat s) s"
proof -
  have "s ! 0 < 128 \<or> 194 \<le> s ! 0 \<and> s ! 0 < 224 \<or> 224 \<le> s ! 0 \<and> s ! 0 < 240 \<or> 240 \<le> s ! 0 \<and> s ! 0 \<le> 244"
    using assms(2) unfolding valid_nat_def Let_def by (cases "s ! 0 < 194") (auto split: if_splits)
  then consider (1) "s ! 0 < 128" | (2) "194 \<le> s ! 0" "s ! 0 < 224"
    | (3) "224 \<le> s ! 0" "s ! 0 < 240" | (4) "240 \<le> s ! 0" "s ! 0 \<le> 244"
    by blast
  then show ?thesis
  proof cases
    case 1
    then show ?thesis
      using assms(1) by (cases s) (simp_all add: valid_nat_def dec_nat_def enc_nat_def scalar_nat_def)
  next
    case 2
    then have v: "valid_nat s = 2" and c: "1 < length s" "128 \<le> s ! 1" "s ! 1 < 192"
      using assms(2) unfolding valid_nat_def Let_def by (simp_all split: if_splits)
    define y z where "y = s ! 0 - 192" and "z = s ! 1 - 128"
    have b: "y < 64" "z < 64" "2 \<le> y" "y < 32" using 2 c by (simp_all add: y_def z_def)
    have d: "dec_nat s = y * 64 + z"
      using 2 c lead_mod(1) [of "s ! 0"] continuation_mod [of "s ! 1"] by (simp add: dec_nat_def y_def z_def Let_def)
    have t: "take 2 s = [s ! 0, s ! 1]"
      using c(1) by (intro nth_equalityI) (auto simp: less_Suc_eq numeral_2_eq_2)
    have "192 + y = s ! 0" "128 + z = s ! 1" using 2 c by (simp_all add: y_def z_def)
    then show ?thesis
      unfolding v d t enc_nat_def digits(1,2) [OF b(1,2)] using b by (simp add: scalar_nat_def)
  next
    case 3
    then have v: "valid_nat s = 3" and c: "2 < length s" "128 \<le> s ! 1" "s ! 1 < 192" "128 \<le> s ! 2" "s ! 2 < 192"
      "s ! 0 = 224 \<longrightarrow> 160 \<le> s ! 1" "s ! 0 = 237 \<longrightarrow> s ! 1 < 160"
      using assms(2) unfolding valid_nat_def Let_def by (simp_all split: if_splits)
    define q y z where "q = s ! 0 - 224" and "y = s ! 1 - 128" and "z = s ! 2 - 128"
    have e: "224 + q = s ! 0" "128 + y = s ! 1" "128 + z = s ! 2" using 3 c by (simp_all add: q_def y_def z_def)
    have b: "y < 64" "z < 64" "q < 16" "q = 0 \<longrightarrow> 32 \<le> y" "q = 13 \<longrightarrow> y < 32" using 3 c e by linarith+
    have d: "dec_nat s = q * 4096 + y * 64 + z"
      using 3 c lead_mod(2) [of "s ! 0"] continuation_mod [of "s ! 1"] continuation_mod [of "s ! 2"]
      by (simp add: dec_nat_def q_def y_def z_def Let_def)
    have t: "take 3 s = [s ! 0, s ! 1, s ! 2]"
      using c(1) by (intro nth_equalityI) (auto simp: less_Suc_eq numeral_3_eq_3 numeral_2_eq_2)
    have r: "2048 \<le> q * 4096 + y * 64 + z" "q * 4096 + y * 64 + z < 65536"
      using b by linarith+
    have "q \<le> 12 \<or> q = 13 \<and> y < 32 \<or> 14 \<le> q" using b(5) by linarith
    then have "\<not> (0xd800 \<le> q * 4096 + y * 64 + z \<and> q * 4096 + y * 64 + z < 0xe000)"
      using b(1-3) by (elim disjE; linarith)
    with r show ?thesis
      unfolding v d t enc_nat_def digits(3,4,5) [OF b(1,2)] using e by (simp add: scalar_nat_def)
  next
    case 4
    then have v: "valid_nat s = 4" and c: "3 < length s" "128 \<le> s ! 1" "s ! 1 < 192" "128 \<le> s ! 2" "s ! 2 < 192"
      "128 \<le> s ! 3" "s ! 3 < 192" "s ! 0 = 240 \<longrightarrow> 144 \<le> s ! 1" "s ! 0 = 244 \<longrightarrow> s ! 1 < 144"
      using assms(2) unfolding valid_nat_def Let_def by (simp_all split: if_splits)
    define p q y z where "p = s ! 0 - 240" and "q = s ! 1 - 128" and "y = s ! 2 - 128" and "z = s ! 3 - 128"
    have e: "240 + p = s ! 0" "128 + q = s ! 1" "128 + y = s ! 2" "128 + z = s ! 3"
      using 4 c by (simp_all add: p_def q_def y_def z_def)
    have b: "y < 64" "z < 64" "q < 64" "p = 0 \<longrightarrow> 16 \<le> q" "p = 4 \<longrightarrow> q < 16" "p \<le> 4" using 4 c e by linarith+
    have d: "dec_nat s = p * 262144 + q * 4096 + y * 64 + z"
      using 4 c lead_mod(3) [of "s ! 0"] continuation_mod [of "s ! 1"] continuation_mod [of "s ! 2"] continuation_mod [of "s ! 3"]
      by (simp add: dec_nat_def p_def q_def y_def z_def Let_def)
    have t: "take 4 s = [s ! 0, s ! 1, s ! 2, s ! 3]"
      using c(1) by (intro nth_equalityI) (auto simp: less_Suc_eq eval_nat_numeral)
    have r: "65536 \<le> p * 262144 + q * 4096 + y * 64 + z" "p * 262144 + q * 4096 + y * 64 + z < 0x110000"
      using b by linarith+
    then show ?thesis
      unfolding v d t enc_nat_def digits(8,9) [OF b(1,2)] digits(6,7) [OF b(1,2,3)] using e
      by (simp add: scalar_nat_def)
  qed
qed

lemma map_unat_inj: "map unat xs = map unat (ys :: u8 list) \<Longrightarrow> xs = ys"
  by (metis (no_types, lifting) list.inj_map_strong word_unat_eq_iff)

lemma unicode_to_utf8_nonempty: "unicode_to_utf8 c \<noteq> []"
  by (simp add: unicode_to_utf8_def)

lemma valid_nat_le: "s \<noteq> [] \<Longrightarrow> valid_nat s \<le> length s"
  by (simp add: valid_nat_def Let_def Suc_le_eq)

lemma encoded_facts:
  assumes "is_unicode_scalar_value c"
  shows "map unat (unicode_to_utf8 c) = enc_nat (unat c)" "scalar_nat (unat c)"
    "length (unicode_to_utf8 c) = length (enc_nat (unat c))"
proof -
  show s: "scalar_nat (unat c)" using assms by (simp add: is_unicode_scalar_value_nat)
  then show m: "map unat (unicode_to_utf8 c) = enc_nat (unat c)"
    by (intro map_unat_unicode_to_utf8) (simp add: scalar_nat_def)
  show "length (unicode_to_utf8 c) = length (enc_nat (unat c))"
    using arg_cong [OF m, of length] by simp
qed

lemma utf8_decode_encoded:
  assumes "is_unicode_scalar_value c" "length (unicode_to_utf8 c) \<le> n"
  shows "utf8_to_unicode (unicode_to_utf8 c @ r) n = (c, length (unicode_to_utf8 c))"
proof -
  let ?s = "unicode_to_utf8 c @ r"
  have v: "valid_nat (map unat ?s) = length (unicode_to_utf8 c)" "dec_nat (map unat ?s) = unat c"
    using enc_nat_accepted [OF encoded_facts(2) [OF assms(1)], of "map unat r"]
    by (simp_all add: encoded_facts [OF assms(1)])
  have "unat (fst (utf8_to_unicode ?s n)) = dec_nat (map unat ?s) \<and> snd (utf8_to_unicode ?s n) = valid_nat (map unat ?s)"
    using v assms(2) unicode_to_utf8_nonempty [of c] by (intro decode_valid) simp_all
  then show ?thesis unfolding v by (simp add: prod_eq_iff word_unat_eq_iff)
qed

section \<open>Properties\<close>

text \<open>
  C3. \<open>utf8_valid_sequence_length\<close> accepts exactly the encodings that \<open>unicode_to_utf8\<close> produces for
  Unicode scalar values (no overlong forms, no surrogates, nothing above the last code point, no
  truncated sequence), with their length.
\<close>

theorem utf8_validator_exact:
  assumes "s \<noteq> []"
  shows "utf8_valid_sequence_length s (length s) = k \<and> 0 < k \<longleftrightarrow>
    (\<exists>c. is_unicode_scalar_value c \<and> k = length (unicode_to_utf8 c) \<and> take k s = unicode_to_utf8 c)"
proof -
  have v: "utf8_valid_sequence_length s (length s) = valid_nat (map unat s)"
    by (rule utf8_valid_sequence_length_nat [OF assms])
  show ?thesis
  proof
    assume a: "utf8_valid_sequence_length s (length s) = k \<and> 0 < k"
    define c where "c = fst (utf8_to_unicode s (length s))"
    have d: "unat c = dec_nat (map unat s)"
      using decode_valid [OF assms, of "length s"] valid_nat_le [of "map unat s"] assms a
      by (simp add: c_def v)
    have e: "scalar_nat (unat c)" "enc_nat (unat c) = take k (map unat s)"
      using accepted_is_enc_nat [of "map unat s"] a assms by (simp_all add: d v)
    then have c: "is_unicode_scalar_value c" by (simp add: is_unicode_scalar_value_nat)
    then have "map unat (unicode_to_utf8 c) = map unat (take k s)"
      using e(2) by (simp add: encoded_facts take_map)
    then have t: "unicode_to_utf8 c = take k s" by (rule map_unat_inj)
    moreover have "k \<le> length s" using valid_nat_le [of "map unat s"] a assms by (simp add: v)
    ultimately show "\<exists>c. is_unicode_scalar_value c \<and> k = length (unicode_to_utf8 c) \<and> take k s = unicode_to_utf8 c"
      using c by (intro exI [of _ c]) simp
  next
    assume "\<exists>c. is_unicode_scalar_value c \<and> k = length (unicode_to_utf8 c) \<and> take k s = unicode_to_utf8 c"
    then obtain c where c: "is_unicode_scalar_value c" "k = length (unicode_to_utf8 c)" "take k s = unicode_to_utf8 c"
      by blast
    have "map unat s = enc_nat (unat c) @ map unat (drop k s)"
      using encoded_facts(1) [OF c(1)] c(3) by (metis append_take_drop_id map_append)
    then have "valid_nat (map unat s) = k"
      using enc_nat_accepted [OF encoded_facts(2) [OF c(1)]] c by (simp add: encoded_facts)
    then show "utf8_valid_sequence_length s (length s) = k \<and> 0 < k"
      using unicode_to_utf8_nonempty [of c] c(2) by (simp add: v)
  qed
qed

lemma utf8_validator_exact_witness:
  "(utf8_valid_sequence_length [0xe2, 0x82, 0xac, 0x21] 4 = 3 \<and> (0::nat) < 3) \<longleftrightarrow>
   (\<exists>c. is_unicode_scalar_value c \<and> 3 = length (unicode_to_utf8 c) \<and>
      take 3 [0xe2, 0x82, 0xac, 0x21] = unicode_to_utf8 c)"
proof -
  have "length [0xe2, 0x82, 0xac, 0x21 :: u8] = 4" by simp
  then show ?thesis using utf8_validator_exact [of "[0xe2, 0x82, 0xac, 0x21]" 3] by (simp only: list.simps not_False_eq_True)
qed

text \<open>Iterating over the concatenated encodings of a list of scalar values yields the list: the
  iterator's dereference, its increment (which reads \<open>utf8_char_length\<close>) and the encoder agree.
\<close>

theorem utf8_iterate_encoded:
  assumes "list_all is_unicode_scalar_value cs"
  shows "code_points (concat (map unicode_to_utf8 cs)) = cs"
  using assms
proof (induction cs)
  case Nil
  then show ?case by (simp add: code_points.simps)
next
  case (Cons c cs)
  let ?s = "unicode_to_utf8 c @ concat (map unicode_to_utf8 cs)"
  have c: "is_unicode_scalar_value c" using Cons.prems by simp
  have "unat (?s ! 0) = enc_nat (unat c) ! 0"
    using encoded_facts(1) [OF c] unicode_to_utf8_nonempty [of c] by (metis length_greater_0_conv nth_append nth_map)
  then have l: "utf8_char_length (?s ! 0) = length (unicode_to_utf8 c)"
    using encoded_facts(2) [OF c]
    by (auto simp: utf8_char_length_eq encoded_facts(3) [OF c] enc_nat_def char_length_spec_def scalar_nat_def
        div_less_iff_less_mult)
  have "PUTF8CodePointIterator_deref ?s = c"
    using utf8_decode_encoded [OF c, of "length ?s"] by (simp add: PUTF8CodePointIterator_deref_def)
  moreover have "PUTF8CodePointIterator_increment ?s = concat (map unicode_to_utf8 cs)"
    unfolding PUTF8CodePointIterator_increment_def Let_def l by simp
  ultimately show ?case
    using Cons unicode_to_utf8_nonempty [of c] by (simp add: code_points.simps [of ?s])
qed

lemma utf8_iterate_encoded_witness:
  "code_points (concat (map unicode_to_utf8 [0x50, 0xe5, 0x20ac, 0x1f600])) = [0x50, 0xe5, 0x20ac, 0x1f600]"
  by (rule utf8_iterate_encoded)
    (simp add: is_unicode_scalar_value_def is_utf16_high_surrogate_def is_utf16_low_surrogate_def UNICODE_MAX_CODE_POINT_def)

end
