(* ===== verification/HashCalculator.thy ===== *)
theory HashCalculator
  imports Prelude
begin

text \<open>
  The checksums of \<open>Include/Utils/HashCalculator.h\<close> and \<open>System/Utils/HashCalculator.cpp\<close>: an 8-bit CRC computed bit by bit and the
  32-bit CRC of IEEE 802.3 computed with a table. The theory shows that the table-driven code computes the bitwise definition of the
  checksum, and that the
  32-bit checksum detects every corruption confined to four consecutive bytes.
\<close>

section \<open>Calculators\<close>

text \<open>The state of a calculator is its \<open>m_CRC\<close>.\<close>

definition CRC8_Start :: u8 where "CRC8_Start = 0"

definition CRC8_bit :: "u8 \<Rightarrow> u8 \<Rightarrow> u8" where
  "CRC8_bit crc currentByte =
     (if drop_bit 7 crc XOR (currentByte AND 1) \<noteq> 0 then push_bit 1 crc XOR 0x07 else push_bit 1 crc)"

fun CRC8_byte :: "nat \<Rightarrow> u8 \<Rightarrow> u8 \<Rightarrow> u8" where
  "CRC8_byte 0 currentByte crc = crc"
| "CRC8_byte (Suc n) currentByte crc = CRC8_byte n (drop_bit 1 currentByte) (CRC8_bit crc currentByte)"

fun CRC8_AddData :: "u8 list \<Rightarrow> u8 \<Rightarrow> u8" where
  "CRC8_AddData [] crc = crc"
| "CRC8_AddData (b # bs) crc = CRC8_AddData bs (CRC8_byte 8 b crc)"

definition CRC8_Finalize :: "u8 \<Rightarrow> u8" where "CRC8_Finalize crc = crc"

definition g_Poly8Lookup :: "u32 list" where
  "g_Poly8Lookup =
     [0x00000000, 0x77073096, 0xEE0E612C, 0x990951BA, 0x076DC419, 0x706AF48F, 0xE963A535, 0x9E6495A3,
      0x0EDB8832, 0x79DCB8A4, 0xE0D5E91E, 0x97D2D988, 0x09B64C2B, 0x7EB17CBD, 0xE7B82D07, 0x90BF1D91,
      0x1DB71064, 0x6AB020F2, 0xF3B97148, 0x84BE41DE, 0x1ADAD47D, 0x6DDDE4EB, 0xF4D4B551, 0x83D385C7,
      0x136C9856, 0x646BA8C0, 0xFD62F97A, 0x8A65C9EC, 0x14015C4F, 0x63066CD9, 0xFA0F3D63, 0x8D080DF5,
      0x3B6E20C8, 0x4C69105E, 0xD56041E4, 0xA2677172, 0x3C03E4D1, 0x4B04D447, 0xD20D85FD, 0xA50AB56B,
      0x35B5A8FA, 0x42B2986C, 0xDBBBC9D6, 0xACBCF940, 0x32D86CE3, 0x45DF5C75, 0xDCD60DCF, 0xABD13D59,
      0x26D930AC, 0x51DE003A, 0xC8D75180, 0xBFD06116, 0x21B4F4B5, 0x56B3C423, 0xCFBA9599, 0xB8BDA50F,
      0x2802B89E, 0x5F058808, 0xC60CD9B2, 0xB10BE924, 0x2F6F7C87, 0x58684C11, 0xC1611DAB, 0xB6662D3D,
      0x76DC4190, 0x01DB7106, 0x98D220BC, 0xEFD5102A, 0x71B18589, 0x06B6B51F, 0x9FBFE4A5, 0xE8B8D433,
      0x7807C9A2, 0x0F00F934, 0x9609A88E, 0xE10E9818, 0x7F6A0DBB, 0x086D3D2D, 0x91646C97, 0xE6635C01,
      0x6B6B51F4, 0x1C6C6162, 0x856530D8, 0xF262004E, 0x6C0695ED, 0x1B01A57B, 0x8208F4C1, 0xF50FC457,
      0x65B0D9C6, 0x12B7E950, 0x8BBEB8EA, 0xFCB9887C, 0x62DD1DDF, 0x15DA2D49, 0x8CD37CF3, 0xFBD44C65,
      0x4DB26158, 0x3AB551CE, 0xA3BC0074, 0xD4BB30E2, 0x4ADFA541, 0x3DD895D7, 0xA4D1C46D, 0xD3D6F4FB,
      0x4369E96A, 0x346ED9FC, 0xAD678846, 0xDA60B8D0, 0x44042D73, 0x33031DE5, 0xAA0A4C5F, 0xDD0D7CC9,
      0x5005713C, 0x270241AA, 0xBE0B1010, 0xC90C2086, 0x5768B525, 0x206F85B3, 0xB966D409, 0xCE61E49F,
      0x5EDEF90E, 0x29D9C998, 0xB0D09822, 0xC7D7A8B4, 0x59B33D17, 0x2EB40D81, 0xB7BD5C3B, 0xC0BA6CAD,
      0xEDB88320, 0x9ABFB3B6, 0x03B6E20C, 0x74B1D29A, 0xEAD54739, 0x9DD277AF, 0x04DB2615, 0x73DC1683,
      0xE3630B12, 0x94643B84, 0x0D6D6A3E, 0x7A6A5AA8, 0xE40ECF0B, 0x9309FF9D, 0x0A00AE27, 0x7D079EB1,
      0xF00F9344, 0x8708A3D2, 0x1E01F268, 0x6906C2FE, 0xF762575D, 0x806567CB, 0x196C3671, 0x6E6B06E7,
      0xFED41B76, 0x89D32BE0, 0x10DA7A5A, 0x67DD4ACC, 0xF9B9DF6F, 0x8EBEEFF9, 0x17B7BE43, 0x60B08ED5,
      0xD6D6A3E8, 0xA1D1937E, 0x38D8C2C4, 0x4FDFF252, 0xD1BB67F1, 0xA6BC5767, 0x3FB506DD, 0x48B2364B,
      0xD80D2BDA, 0xAF0A1B4C, 0x36034AF6, 0x41047A60, 0xDF60EFC3, 0xA867DF55, 0x316E8EEF, 0x4669BE79,
      0xCB61B38C, 0xBC66831A, 0x256FD2A0, 0x5268E236, 0xCC0C7795, 0xBB0B4703, 0x220216B9, 0x5505262F,
      0xC5BA3BBE, 0xB2BD0B28, 0x2BB45A92, 0x5CB36A04, 0xC2D7FFA7, 0xB5D0CF31, 0x2CD99E8B, 0x5BDEAE1D,
      0x9B64C2B0, 0xEC63F226, 0x756AA39C, 0x026D930A, 0x9C0906A9, 0xEB0E363F, 0x72076785, 0x05005713,
      0x95BF4A82, 0xE2B87A14, 0x7BB12BAE, 0x0CB61B38, 0x92D28E9B, 0xE5D5BE0D, 0x7CDCEFB7, 0x0BDBDF21,
      0x86D3D2D4, 0xF1D4E242, 0x68DDB3F8, 0x1FDA836E, 0x81BE16CD, 0xF6B9265B, 0x6FB077E1, 0x18B74777,
      0x88085AE6, 0xFF0F6A70, 0x66063BCA, 0x11010B5C, 0x8F659EFF, 0xF862AE69, 0x616BFFD3, 0x166CCF45,
      0xA00AE278, 0xD70DD2EE, 0x4E048354, 0x3903B3C2, 0xA7672661, 0xD06016F7, 0x4969474D, 0x3E6E77DB,
      0xAED16A4A, 0xD9D65ADC, 0x40DF0B66, 0x37D83BF0, 0xA9BCAE53, 0xDEBB9EC5, 0x47B2CF7F, 0x30B5FFE9,
      0xBDBDF21C, 0xCABAC28A, 0x53B39330, 0x24B4A3A6, 0xBAD03605, 0xCDD70693, 0x54DE5729, 0x23D967BF,
      0xB3667A2E, 0xC4614AB8, 0x5D681B02, 0x2A6F2B94, 0xB40BBE37, 0xC30C8EA1, 0x5A05DF1B, 0x2D02EF8D]"

definition CRC32_Start :: u32 where "CRC32_Start = 0xffffffff"

fun CRC32_AddData :: "u8 list \<Rightarrow> u32 \<Rightarrow> u32" where
  "CRC32_AddData [] crc = crc"
| "CRC32_AddData (b # bs) crc = CRC32_AddData bs (g_Poly8Lookup ! unat (ucast crc XOR b) XOR drop_bit 8 crc)"

definition CRC32_Finalize :: "u32 \<Rightarrow> u32" where "CRC32_Finalize crc = NOT crc"

section \<open>The bitwise definition\<close>

text \<open>Division by the generator polynomial, one bit at a time, least significant bit first.\<close>

definition crc32_bit :: "u32 \<Rightarrow> u32" where
  "crc32_bit c = (if bit c 0 then drop_bit 1 c XOR 0xedb88320 else drop_bit 1 c)"

definition crc32_byte :: "u8 \<Rightarrow> u32 \<Rightarrow> u32" where
  "crc32_byte b c = (crc32_bit ^^ 8) (c XOR ucast b)"

lemma crc32_bit_step: "crc32_bit 0 = 0"
  "crc32_bit (numeral (Num.Bit0 n)) = drop_bit 1 (numeral (Num.Bit0 n))"
  "crc32_bit (numeral (Num.Bit1 n)) = drop_bit 1 (numeral (Num.Bit1 n)) XOR 0xedb88320"
  "crc32_bit 1 = 0xedb88320"
  by (simp_all add: crc32_bit_def bit_0)
lemma funpow8: "(f ^^ 8) x = f (f (f (f (f (f (f (f x)))))))"
  by (simp add: numeral_eq_Suc)
lemma crc32_bit_xor: "crc32_bit (a XOR b) = crc32_bit a XOR crc32_bit b"
  by (rule bit_word_eqI) (auto simp: crc32_bit_def bit_simps)

lemma funpow_xor: "(crc32_bit ^^ n) (a XOR b) = (crc32_bit ^^ n) a XOR (crc32_bit ^^ n) b"
  by (induction n) (simp_all add: crc32_bit_xor)

text \<open>The table doubles: the entry of \<open>n + i\<close> is the one of \<open>n\<close> plus the one of \<open>i\<close>.\<close>

lemma table_double:
  assumes "n = 2 ^ k"
  shows "map (\<lambda>i. (crc32_bit ^^ 8) (of_nat i)) [0..<2 * n] =
    (let xs = map (\<lambda>i. (crc32_bit ^^ 8) (of_nat i)) [0..<n] in xs @ map (\<lambda>x. (crc32_bit ^^ 8) (of_nat n) XOR x) xs)"
proof -
  have add_xor: "of_nat (n + i) = (of_nat n XOR of_nat i :: u32)" if "i < n" for i
  proof -
    have "\<not> bit i k"
      using that by (simp add: assms bit_iff_odd)
    then have "(2 ^ k :: u32) AND of_nat i = 0"
      by (intro bit_word_eqI) (auto simp: bit_and_iff bit_exp_iff bit_of_nat_iff)
    then show ?thesis
      by (simp add: assms disjunctive_add_eq_xor)
  qed
  have "map (\<lambda>i. (crc32_bit ^^ 8) (of_nat (n + i))) [0..<n] =
      map (\<lambda>x. (crc32_bit ^^ 8) (of_nat n) XOR x) (map (\<lambda>i. (crc32_bit ^^ 8) (of_nat i)) [0..<n])"
    unfolding map_map comp_def
    by (rule map_cong [OF refl]) (simp only: add_xor funpow_xor set_upt atLeastLessThan_iff)
  moreover have "[0..<n + n] = [0..<n] @ map (\<lambda>i. n + i) [0..<n]"
  proof -
    have "map (\<lambda>i. n + i) [0..<n] = [n..<n + n]"
      by (rule nth_equalityI) simp_all
    then show ?thesis
      using upt_add_eq_append [of 0 n n] by (simp only: add_0 zero_le)
  qed
  ultimately show ?thesis
    by (simp only: Let_def mult_2 map_append map_map comp_def)
qed

lemma g_Poly8Lookup_bitwise: "g_Poly8Lookup = map (\<lambda>i. (crc32_bit ^^ 8) (of_nat i)) [0..<256]"
proof -
  define T where "T n = map (\<lambda>i. (crc32_bit ^^ 8) (of_nat i)) [0..<n]" for n
  define basis where "basis n = (crc32_bit ^^ 8) (of_nat n)" for n
  have double: "T (2 * 2 ^ k) = T (2 ^ k) @ map (\<lambda>x. basis (2 ^ k) XOR x) (T (2 ^ k))" for k
    using table_double [of "2 ^ k" k] by (simp add: T_def basis_def Let_def)
  have b: "basis 1 = 0x77073096" "basis 2 = 0xEE0E612C" "basis 4 = 0x076DC419" "basis 8 = 0x0EDB8832"
    "basis 16 = 0x1DB71064" "basis 32 = 0x3B6E20C8" "basis 64 = 0x76DC4190" "basis 128 = 0xEDB88320"
    by (simp_all add: basis_def funpow8 crc32_bit_step)
  have "T 1 = [0]"
    by (simp add: T_def funpow8 crc32_bit_step)
  then have "T 256 = g_Poly8Lookup"
    using double [of 0] double [of 1] double [of 2] double [of 3] double [of 4] double [of 5] double [of 6] double [of 7]
    by (simp add: b b(1) [unfolded One_nat_def] g_Poly8Lookup_def)
  then show ?thesis
    by (simp add: T_def)
qed

lemma funpow_high:
  assumes "\<And>i. i < n \<Longrightarrow> \<not> bit c i"
  shows "(crc32_bit ^^ n) c = drop_bit n c"
  using assms
proof (induction n arbitrary: c)
  case (Suc n)
  then have "crc32_bit c = drop_bit 1 c"
    by (simp add: crc32_bit_def)
  then show ?case
    using Suc.IH [of "drop_bit 1 c"] Suc.prems by (simp add: funpow_Suc_right bit_simps del: funpow.simps)
qed simp

lemma crc32_byte_table:
  "g_Poly8Lookup ! unat (ucast c XOR b :: u8) XOR drop_bit 8 c = crc32_byte b c"
proof -
  let ?low = "ucast (ucast c XOR b :: u8) :: u32"
  have "c XOR ucast b = ?low XOR push_bit 8 (drop_bit 8 c)"
    by (rule bit_word_eqI) (auto simp: bit_simps dest: bit_imp_le_length)
  moreover have "(crc32_bit ^^ 8) (push_bit 8 (drop_bit 8 c)) = drop_bit 8 (push_bit 8 (drop_bit 8 c))"
    by (rule funpow_high) (simp add: bit_simps)
  moreover have "drop_bit 8 (push_bit 8 (drop_bit 8 c)) = drop_bit 8 c"
    by (rule bit_word_eqI) (auto simp: bit_simps dest: bit_imp_le_length)
  moreover have "g_Poly8Lookup ! unat (ucast c XOR b :: u8) = (crc32_bit ^^ 8) ?low"
  proof -
    have "unat (ucast c XOR b :: u8) < 256"
      using unsigned_less [of "ucast c XOR b :: u8"] by simp
    then show ?thesis
      by (simp add: g_Poly8Lookup_bitwise)
  qed
  ultimately show ?thesis
    by (simp add: crc32_byte_def funpow_xor)
qed

text \<open>
  C5. The table-driven \<open>AddData\<close> computes the bitwise division by the generator polynomial, for all data and every start value.
\<close>

theorem crc32_table_bitwise: "CRC32_AddData bs crc = fold crc32_byte bs crc"
  by (induction bs arbitrary: crc) (simp_all add: crc32_byte_table)

section \<open>Error detection\<close>

text \<open>The transition function is linear and injective, so a difference between two messages never cancels outside the window it starts in.\<close>

lemma word_xor_zero: "a XOR b = 0 \<longleftrightarrow> a = b" for a b :: "'a :: len word"
proof
  assume "a XOR b = 0"
  then have "(a XOR b) XOR b = b"
    by simp
  then show "a = b"
    by (simp add: xor.assoc)
qed simp

lemma word_xor_cancel: "c XOR a = c XOR b \<longleftrightarrow> a = b" for a b :: "'a :: len word"
proof
  assume "c XOR a = c XOR b"
  then have "c XOR (c XOR a) = c XOR (c XOR b)"
    by simp
  then show "a = b"
    by (simp only: xor.assoc [symmetric] xor_self_eq xor.left_neutral)
qed simp

lemma crc32_bit_zero: "crc32_bit c = 0 \<longleftrightarrow> c = 0"
proof
  assume z: "crc32_bit c = 0"
  have poly: "bit (0xedb88320 :: u32) 31"
    by simp
  have "\<not> bit c 0"
  proof
    assume "bit c 0"
    with z have "drop_bit 1 c = 0xedb88320"
      by (simp add: crc32_bit_def word_xor_zero)
    then have "bit (drop_bit 1 c) 31"
      using poly by simp
    then show False
      using bit_imp_le_length [of c 32] by (simp add: bit_drop_bit_eq)
  qed
  moreover from this z have d: "drop_bit 1 c = 0"
    by (simp add: crc32_bit_def)
  have "\<not> bit c (Suc n)" for n
    using arg_cong [OF d, of "\<lambda>w. bit w n"] by (simp add: bit_drop_bit_eq)
  ultimately have "\<not> bit c n" for n
    by (cases n) simp_all
  then show "c = 0"
    by (simp add: bit_eq_iff)
qed (simp add: crc32_bit_def)

lemma crc32_bits_inj: "(crc32_bit ^^ n) a = (crc32_bit ^^ n) b \<longleftrightarrow> a = b"
proof -
  have "(crc32_bit ^^ n) c = 0 \<longleftrightarrow> c = 0" for c
    by (induction n) (simp_all add: crc32_bit_zero)
  from this [of "a XOR b"] show ?thesis
    by (simp add: funpow_xor word_xor_zero)
qed

lemma CRC32_AddData_inj: "CRC32_AddData bs a = CRC32_AddData bs b \<longleftrightarrow> a = b"
proof (induction bs arbitrary: a b)
  case (Cons x bs)
  have "a XOR ucast x = b XOR ucast x \<longleftrightarrow> a = b"
    using word_xor_cancel [of "ucast x" a b] by (simp only: xor.commute)
  then have "crc32_byte x a = crc32_byte x b \<longleftrightarrow> a = b"
    unfolding crc32_byte_def crc32_bits_inj .
  then show ?case
    by (simp add: Cons.IH crc32_byte_table)
qed simp

lemma CRC32_AddData_append: "CRC32_AddData (xs @ ys) c = CRC32_AddData ys (CRC32_AddData xs c)"
  by (induction xs arbitrary: c) simp_all

fun pack :: "u8 list \<Rightarrow> u32" where
  "pack [] = 0"
| "pack (b # bs) = ucast b OR push_bit 8 (pack bs)"

lemma bit_pack: "bit (pack bs) n \<Longrightarrow> n < 8 * length bs"
proof (induction bs arbitrary: n)
  case (Cons b bs)
  have "bit b n \<or> 8 \<le> n \<and> bit (pack bs) (n - 8)"
    using Cons.prems by (auto simp: bit_simps)
  then show ?case
    using Cons.IH [of "n - 8"] bit_imp_le_length [of b n] by auto
qed simp

lemma pack_shift: "length bs < 4 \<Longrightarrow> drop_bit 8 (push_bit 8 (pack bs)) = pack bs"
  by (rule bit_word_eqI) (auto simp: bit_simps dest: bit_pack)

lemma CRC32_AddData_pack:
  "length bs \<le> 4 \<Longrightarrow> CRC32_AddData bs c = (crc32_bit ^^ (8 * length bs)) (c XOR pack bs)"
proof (induction bs arbitrary: c)
  case (Cons b bs)
  have "(crc32_bit ^^ 8) (push_bit 8 (pack bs)) = drop_bit 8 (push_bit 8 (pack bs))"
    by (rule funpow_high) (simp add: bit_simps)
  then have shift: "(crc32_bit ^^ 8) (push_bit 8 (pack bs)) = pack bs"
    using Cons.prems by (simp add: pack_shift)
  have head: "ucast b XOR push_bit 8 (pack bs) = pack (b # bs)"
    by (rule bit_word_eqI) (auto simp: bit_simps dest: bit_imp_le_length)
  have "crc32_byte b c XOR pack bs = (crc32_bit ^^ 8) (c XOR pack (b # bs))"
    unfolding head [symmetric] crc32_byte_def xor.assoc [symmetric] by (subst (2) funpow_xor) (simp only: shift)
  moreover have "(crc32_bit ^^ (8 * length bs)) ((crc32_bit ^^ 8) x) = (crc32_bit ^^ (8 * length (b # bs))) x" for x
    using funpow_add [of "8 * length bs" 8 crc32_bit] by (simp add: add.commute comp_def del: funpow.simps)
  ultimately show ?case
    using Cons by (simp only: CRC32_AddData.simps crc32_byte_table length_Cons)
qed simp

lemma pack_inj: "length bs = length bs' \<Longrightarrow> length bs \<le> 4 \<Longrightarrow> pack bs = pack bs' \<Longrightarrow> bs = bs'"
proof (induction bs bs' rule: list_induct2)
  case (Cons b bs b' bs')
  have "b = b'"
  proof (rule bit_word_eqI)
    fix n :: nat
    assume "n < LENGTH(8)"
    then show "bit b n \<longleftrightarrow> bit b' n"
      using arg_cong [OF Cons.prems(2), of "\<lambda>w. bit w n"] by (simp add: bit_simps)
  qed
  moreover have "drop_bit 8 (pack (c # cs)) = pack cs" if "length cs < 4" for c cs
    by (subst pack_shift [OF that, symmetric], rule bit_word_eqI) (auto simp: bit_simps dest: bit_imp_le_length)
  then have "pack bs = pack bs'"
    using Cons.hyps Cons.prems(1) Cons.prems(2) by (metis Suc_le_eq length_Cons)
  ultimately show ?case
    using Cons by simp
qed simp

text \<open>
  C4. Two messages that differ only in a window of at most four bytes have different CRC-32 checksums, whatever surrounds the window.
\<close>

theorem crc32_detects_burst:
  assumes "length bs = length bs'" "length bs \<le> 4" "bs \<noteq> bs'"
  shows "CRC32_Finalize (CRC32_AddData (xs @ bs @ ys) CRC32_Start) \<noteq>
         CRC32_Finalize (CRC32_AddData (xs @ bs' @ ys) CRC32_Start)"
proof -
  have "CRC32_AddData bs c \<noteq> CRC32_AddData bs' c" for c
  proof
    assume "CRC32_AddData bs c = CRC32_AddData bs' c"
    then have "c XOR pack bs = c XOR pack bs'"
      using assms by (simp add: CRC32_AddData_pack crc32_bits_inj)
    then have "pack bs = pack bs'"
      by (simp only: word_xor_cancel)
    then show False
      using pack_inj assms by blast
  qed
  then show ?thesis
    by (simp add: CRC32_AddData_append CRC32_AddData_inj CRC32_Finalize_def)
qed

theorem crc32_detects_burst_witness:
  "CRC32_Finalize (CRC32_AddData ([1] @ [2, 5] @ [3]) CRC32_Start) \<noteq> CRC32_Finalize (CRC32_AddData ([1] @ [7, 5] @ [3]) CRC32_Start)"
  by (rule crc32_detects_burst) simp_all

end
