(* ===== verification/POSIXTokenizer.thy ===== *)
theory POSIXTokenizer
  imports Prelude
begin

text \<open>
  The command line tokenizer of \<open>Include/Utils/POSIXTokenizer.h\<close> and \<open>System/Utils/POSIXTokenizer.cpp\<close>. \<open>SetText\<close> splits
  a line into tokens at unquoted blanks and pipes, \<open>ParseToken\<close> removes the quotes of one token and hands its characters to a callback
  that may stop it, and the other operations are callbacks of it: \<open>GetTokenText\<close>, \<open>TokenToGlobalOffset\<close> and
  \<open>GetTokenByPosition\<close>. Positions are natural numbers: they are at most the length of the text, which fits a \<open>size_t\<close>.
\<close>

section \<open>Data\<close>

datatype QuoteMode = Unquoted | InSingle | InDouble

datatype Termination = Normal | OpenSingle | OpenDouble | TrailingSlash

definition INVALID_INDEX :: nat where "INVALID_INDEX = 2 ^ 32 - 1"

record Token =
  Start :: nat
  End :: nat
  HasFormatting :: bool

record POSIXTokenizer =
  m_Text :: string
  m_Tokens :: "Token list"
  m_Termination :: Termination

abbreviation (input) single_quote :: char where "single_quote \<equiv> CHR 0x27"
abbreviation (input) double_quote :: char where "double_quote \<equiv> CHR 0x22"
abbreviation (input) backslash :: char where "backslash \<equiv> CHR 0x5C"
abbreviation (input) newline :: char where "newline \<equiv> CHR 0x0A"

section \<open>SetText\<close>

definition is_space :: "char \<Rightarrow> bool" where
  "is_space c \<longleftrightarrow> c = CHR '' '' \<or> c = CHR 0x09 \<or> c = CHR 0x0A"

definition push_token :: "nat \<Rightarrow> Token \<Rightarrow> Token list \<Rightarrow> Token \<times> Token list" where
  "push_token newStart currentToken tokens =
    (let currentToken = currentToken\<lparr>End := newStart\<rparr>;
         size = int (End currentToken) - int (Start currentToken);
         tokens = (if HasFormatting currentToken \<or> size > 0 then tokens @ [currentToken] else tokens)
     in (\<lparr>Start = newStart + 1, End = INVALID_INDEX, HasFormatting = False\<rparr>, tokens))"

function SetText_loop :: "string \<Rightarrow> nat \<Rightarrow> QuoteMode \<Rightarrow> Token \<Rightarrow> Token list \<Rightarrow> Token list \<times> Termination" where
  "SetText_loop line i quouteMode currentToken tokens =
    (if i < length line then
       let character = line ! i in
       case quouteMode of
         Unquoted \<Rightarrow>
           if is_space character then
             let (currentToken, tokens) = push_token i currentToken tokens in
             SetText_loop line (i + 1) Unquoted currentToken tokens
           else if character = single_quote then
             SetText_loop line (i + 1) InSingle (currentToken\<lparr>HasFormatting := True\<rparr>) tokens
           else if character = double_quote then
             SetText_loop line (i + 1) InDouble (currentToken\<lparr>HasFormatting := True\<rparr>) tokens
           else if character = backslash then
             let currentToken = currentToken\<lparr>HasFormatting := True\<rparr> in
             if i + 1 \<ge> length line then (snd (push_token (length line) currentToken tokens), TrailingSlash)
             else SetText_loop line (i + 2) Unquoted currentToken tokens
           else if character = CHR ''|'' then
             let (currentToken, tokens) = push_token i currentToken tokens in
             SetText_loop line (i + 1) Unquoted currentToken
               (tokens @ [\<lparr>Start = i, End = i + 1, HasFormatting = False\<rparr>])
           else SetText_loop line (i + 1) Unquoted currentToken tokens
       | InSingle \<Rightarrow>
           if character = single_quote then SetText_loop line (i + 1) Unquoted currentToken tokens
           else SetText_loop line (i + 1) InSingle currentToken tokens
       | InDouble \<Rightarrow>
           if character = double_quote then SetText_loop line (i + 1) Unquoted currentToken tokens
           else if character = backslash then
             if i + 1 \<ge> length line then (snd (push_token (length line) currentToken tokens), TrailingSlash)
             else SetText_loop line (i + 2) InDouble currentToken tokens
           else SetText_loop line (i + 1) InDouble currentToken tokens
     else
       (snd (push_token (length line) currentToken tokens),
        case quouteMode of Unquoted \<Rightarrow> Normal | InSingle \<Rightarrow> OpenSingle | InDouble \<Rightarrow> OpenDouble))"
  by pat_completeness auto
termination
  by (relation "measure (\<lambda>(line, i, _). length line - i)") auto

declare SetText_loop.simps [simp del]

definition SetText :: "string \<Rightarrow> POSIXTokenizer" where
  "SetText line =
    (let (tokens, ending) =
       SetText_loop line 0 Unquoted \<lparr>Start = 0, End = INVALID_INDEX, HasFormatting = False\<rparr> []
     in \<lparr>m_Text = line, m_Tokens = tokens, m_Termination = ending\<rparr>)"

section \<open>ParseToken and its users\<close>

text \<open>The callback maps its captured variables to the flag that continues the scan and their new values.\<close>

type_synonym 's callback = "nat \<Rightarrow> char \<Rightarrow> bool \<Rightarrow> 's \<Rightarrow> bool \<times> 's"

function ParseToken_loop :: "'s callback \<Rightarrow> string \<Rightarrow> nat \<Rightarrow> QuoteMode \<Rightarrow> 's \<Rightarrow> 's" where
  "ParseToken_loop callback line i quouteMode s =
    (if i < length line then
       let character = line ! i in
       case quouteMode of
         Unquoted \<Rightarrow>
           if character = single_quote then ParseToken_loop callback line (i + 1) InSingle s
           else if character = double_quote then ParseToken_loop callback line (i + 1) InDouble s
           else if character = backslash then
             if i + 1 \<ge> length line then s
             else
               let nextChar = line ! (i + 1) in
               if nextChar = newline then ParseToken_loop callback line (i + 2) Unquoted s
               else
                 let (continue, s) = callback (i + 1) nextChar True s in
                 if \<not> continue then s else ParseToken_loop callback line (i + 2) Unquoted s
           else
             let (continue, s) = callback i character False s in
             if \<not> continue then s else ParseToken_loop callback line (i + 1) Unquoted s
       | InSingle \<Rightarrow>
           if character = single_quote then ParseToken_loop callback line (i + 1) Unquoted s
           else
             let (continue, s) = callback i character True s in
             if \<not> continue then s else ParseToken_loop callback line (i + 1) InSingle s
       | InDouble \<Rightarrow>
           if character = double_quote then ParseToken_loop callback line (i + 1) Unquoted s
           else if character = backslash then
             if i + 1 \<ge> length line then s
             else
               let nextChar = line ! (i + 1) in
               if nextChar = backslash \<or> nextChar = double_quote \<or> nextChar = CHR ''$'' \<or> nextChar = CHR 0x60 then
                 let (continue, s) = callback (i + 1) nextChar True s in
                 if \<not> continue then s else ParseToken_loop callback line (i + 2) InDouble s
               else if nextChar = newline then ParseToken_loop callback line (i + 2) InDouble s
               else
                 let (continue, s) = callback i character True s in
                 if \<not> continue then s else ParseToken_loop callback line (i + 1) InDouble s
           else
             let (continue, s) = callback i character True s in
             if \<not> continue then s else ParseToken_loop callback line (i + 1) InDouble s
     else s)"
  by pat_completeness auto
termination
  by (relation "measure (\<lambda>(_, line, i, _). length line - i)") auto

declare ParseToken_loop.simps [simp del]

definition token_view :: "POSIXTokenizer \<Rightarrow> Token \<Rightarrow> string" where
  "token_view tokenizer token = take (End token - Start token) (drop (Start token) (m_Text tokenizer))"

definition ParseToken :: "POSIXTokenizer \<Rightarrow> Token \<Rightarrow> 's callback \<Rightarrow> 's \<Rightarrow> 's" where
  "ParseToken tokenizer token callback s = ParseToken_loop callback (token_view tokenizer token) 0 Unquoted s"

definition GetTokenText :: "POSIXTokenizer \<Rightarrow> Token \<Rightarrow> string" where
  "GetTokenText tokenizer token =
    (if \<not> HasFormatting token then token_view tokenizer token
     else ParseToken tokenizer token (\<lambda>position character isQuoted tokenText. (True, tokenText @ [character])) [])"

definition TokenToGlobalOffset :: "POSIXTokenizer \<Rightarrow> Token \<Rightarrow> nat \<Rightarrow> nat" where
  "TokenToGlobalOffset tokenizer token tokenOffset =
    (if tokenOffset = End token - Start token then End token
     else fst (ParseToken tokenizer token
       (\<lambda>charPos character isQuoted (globalPos, tokenPos).
          if tokenPos = tokenOffset then (False, Start token + charPos, tokenPos)
          else (True, globalPos, tokenPos + 1)) (End token, 0)))"

text \<open>\<open>std::lower_bound\<close> returns the end of the prefix of tokens that start before the position.\<close>

definition lower_bound :: "Token list \<Rightarrow> nat \<Rightarrow> nat" where
  "lower_bound tokens position = length (takeWhile (\<lambda>lhs. Start lhs < position) tokens)"

definition GetTokenByPosition :: "POSIXTokenizer \<Rightarrow> nat \<Rightarrow> (nat \<times> nat) option" where
  "GetTokenByPosition tokenizer position =
    (let i = lower_bound (m_Tokens tokenizer) position in
     if i \<noteq> 0 then
       let i = i - 1; token = m_Tokens tokenizer ! i in
       if position \<le> End token then
         Some (i, ParseToken tokenizer token
           (\<lambda>charPos character isQuoted tokenPos.
              if Start token + charPos \<ge> position then (False, tokenPos) else (True, tokenPos + 1)) 0)
       else None
     else None)"

section \<open>The characters of a token\<close>

text \<open>
  A reference for \<open>ParseToken\<close>: the list of all its callbacks, by recursion on the characters. The operations are then functions
  of this list.
\<close>

fun token_chars :: "nat \<Rightarrow> QuoteMode \<Rightarrow> string \<Rightarrow> (nat \<times> char \<times> bool) list" where
  "token_chars i quouteMode [] = []"
| "token_chars i Unquoted (c # cs) =
    (if c = single_quote then token_chars (i + 1) InSingle cs
     else if c = double_quote then token_chars (i + 1) InDouble cs
     else if c = backslash then
       (case cs of [] \<Rightarrow> []
        | d # ds \<Rightarrow> (if d = newline then [] else [(i + 1, d, True)]) @ token_chars (i + 2) Unquoted ds)
     else (i, c, False) # token_chars (i + 1) Unquoted cs)"
| "token_chars i InSingle (c # cs) =
    (if c = single_quote then token_chars (i + 1) Unquoted cs
     else (i, c, True) # token_chars (i + 1) InSingle cs)"
| "token_chars i InDouble (c # cs) =
    (if c = double_quote then token_chars (i + 1) Unquoted cs
     else if c = backslash then
       (case cs of [] \<Rightarrow> []
        | d # ds \<Rightarrow>
            if d = backslash \<or> d = double_quote \<or> d = CHR ''$'' \<or> d = CHR 0x60 then
              (i + 1, d, True) # token_chars (i + 2) InDouble ds
            else if d = newline then token_chars (i + 2) InDouble ds
            else (i, c, True) # token_chars (i + 1) InDouble cs)
     else (i, c, True) # token_chars (i + 1) InDouble cs)"

fun call_each :: "'s callback \<Rightarrow> (nat \<times> char \<times> bool) list \<Rightarrow> 's \<Rightarrow> 's" where
  "call_each callback [] s = s"
| "call_each callback ((i, c, quoted) # es) s =
    (let (continue, s) = callback i c quoted s in if \<not> continue then s else call_each callback es s)"

lemma drop_eq_ConsD: "drop i xs = y # ys \<Longrightarrow> i < length xs \<and> xs ! i = y \<and> drop (Suc i) xs = ys"
  by (metis drop_eq_Nil Cons_nth_drop_Suc leI list.discI list.inject)

lemma ParseToken_loop_chars:
  "drop i line = cs \<Longrightarrow> ParseToken_loop callback line i quouteMode s = call_each callback (token_chars i quouteMode cs) s"
proof (induction i quouteMode cs arbitrary: s rule: token_chars.induct)
  case (1 i quouteMode)
  then show ?case
    by (simp add: ParseToken_loop.simps)
next
  case (2 i c cs)
  note at = drop_eq_ConsD [OF 2(5)]
  show ?case
  proof (cases "c = backslash")
    case True
    then show ?thesis
    proof (cases cs)
      case Nil
      with True at show ?thesis
        by (subst ParseToken_loop.simps) simp
    next
      case (Cons d ds)
      with at have at': "Suc i < length line" "line ! Suc i = d" "drop (i + 2) line = ds"
        using drop_eq_ConsD [of "Suc i" line d ds] by simp_all
      show ?thesis
        using 2(3) [OF _ _ True Cons at'(3)] True Cons at at'(1,2) by (subst ParseToken_loop.simps) (simp split: prod.split)
    qed
  next
    case False
    with 2(1,2,4) at show ?thesis
      by (subst ParseToken_loop.simps) (simp split: prod.split)
  qed
next
  case (3 i c cs)
  then show ?case
    using drop_eq_ConsD [OF 3(3)] by (subst ParseToken_loop.simps) (simp split: prod.split)
next
  case (4 i c cs)
  note at = drop_eq_ConsD [OF 4(6)]
  show ?case
  proof (cases "c = backslash")
    case True
    then show ?thesis
    proof (cases cs)
      case Nil
      with True at show ?thesis
        by (subst ParseToken_loop.simps) simp
    next
      case (Cons d ds)
      with at have at': "Suc i < length line" "line ! Suc i = d" "drop (i + 2) line = ds"
        using drop_eq_ConsD [of "Suc i" line d ds] by simp_all
      show ?thesis
        using 4(2-4) [OF _ True Cons] True Cons at at' by (subst ParseToken_loop.simps) (simp split: prod.split)
    qed
  next
    case False
    with 4(1,5) at show ?thesis
      by (subst ParseToken_loop.simps) (simp split: prod.split)
  qed
qed

lemma ParseToken_chars:
  "ParseToken tokenizer token callback s = call_each callback (token_chars 0 Unquoted (token_view tokenizer token)) s"
  unfolding ParseToken_def by (rule ParseToken_loop_chars) simp

definition in_window :: "nat \<Rightarrow> nat \<Rightarrow> (nat \<times> char \<times> bool) list \<Rightarrow> bool" where
  "in_window i j es \<longleftrightarrow> sorted_wrt (<) (map fst es) \<and> (\<forall>e \<in> set es. i \<le> fst e \<and> fst e < j)"

lemma in_window_simps [simp]:
  "in_window i j []"
  "in_window i j ((p, e) # es) \<longleftrightarrow> i \<le> p \<and> p < j \<and> in_window (Suc p) j es"
  by (fastforce simp: in_window_def)+

lemma in_window_mono: "in_window i j es \<Longrightarrow> i' \<le> i \<Longrightarrow> j \<le> j' \<Longrightarrow> in_window i' j' es"
  by (fastforce simp: in_window_def)

lemma window_nth: "in_window i j es \<Longrightarrow> n < length es \<Longrightarrow> i + n \<le> fst (es ! n) \<and> fst (es ! n) < j"
proof (induction es arbitrary: i n)
  case (Cons e es)
  then show ?case
    using Cons.IH [of "Suc (fst e)" "n - 1"] by (cases e; cases n) auto
qed simp

lemma window_length:
  assumes "in_window i j es"
  shows "length es \<le> j - i"
  using window_nth [OF assms, of "length es - 1"] by (cases es) auto

lemma window_count:
  assumes "in_window 0 j es" "n \<le> length es"
  shows "length (takeWhile (\<lambda>e. k + fst e < (if n < length es then k + fst (es ! n) else k + j)) es) = n"
proof (cases "n < length es")
  case True
  then have "takeWhile (\<lambda>e. k + fst e < k + fst (es ! n)) es = take n es"
    using assms by (intro takeWhile_eq_take_P_nth) (auto simp: in_window_def sorted_wrt_iff_nth_less)
  with True show ?thesis
    by simp
next
  case False
  have "takeWhile (\<lambda>e. fst e < j) es = es"
    using assms(1) by (simp add: in_window_def takeWhile_eq_all_conv)
  then have "length (takeWhile (\<lambda>e. fst e < j) es) = length es"
    by (rule arg_cong)
  with False assms show ?thesis
    by simp
qed

lemma token_chars_window:
  "k \<le> i \<Longrightarrow> i + length cs \<le> j \<Longrightarrow> in_window k j (token_chars i quouteMode cs)"
proof (induction i quouteMode cs arbitrary: k rule: token_chars.induct)
  case (2 i c cs)
  then show ?case
    by (cases cs) simp_all
next
  case (4 i c cs)
  then show ?case
    by (cases cs) (simp_all del: token_chars.simps add: token_chars.simps(1) token_chars.simps(4) [of i c])
qed simp_all

lemma call_each_collect: "call_each (\<lambda>i c quoted s. (True, s @ [c])) es s = s @ map (fst \<circ> snd) es"
  by (induction es arbitrary: s) auto

lemma call_each_offset:
  "n \<le> k \<Longrightarrow> call_each (\<lambda>i c quoted (g, n). if n = k then (False, f i, n) else (True, g, n + 1)) es (g, n) =
    (if k - n < length es then (f (fst (es ! (k - n))), k) else (g, n + length es))"
proof (induction es arbitrary: n)
  case (Cons e es)
  then show ?case
    by (cases e) (auto simp: nth_Cons' Suc_diff_Suc)
qed simp

lemma call_each_count:
  "call_each (\<lambda>i c quoted n. if f i \<ge> p then (False, n) else (True, n + 1)) es n =
    n + length (takeWhile (\<lambda>e. f (fst e) < p) es)"
  for f :: "nat \<Rightarrow> nat"
  by (induction es arbitrary: n) auto

definition unquoted_char :: "char \<Rightarrow> bool" where
  "unquoted_char c \<longleftrightarrow> c \<noteq> single_quote \<and> c \<noteq> double_quote \<and> c \<noteq> backslash"

lemma token_chars_unquoted:
  "\<forall>c \<in> set cs. unquoted_char c \<Longrightarrow> map (fst \<circ> snd) (token_chars i Unquoted cs) = cs"
  by (induction cs arbitrary: i) (auto simp: unquoted_char_def)

section \<open>Tokens partition the text\<close>

text \<open>
  What \<open>SetText\<close> keeps: the finished tokens are not empty, in order, separated by blanks only, and one without formatting has no quote
  character in it.
\<close>

definition tokens_ok :: "string \<Rightarrow> nat \<Rightarrow> Token list \<Rightarrow> bool" where
  "tokens_ok line n tokens \<longleftrightarrow>
    sorted_wrt (\<lambda>a b. End a \<le> Start b) tokens \<and>
    (\<forall>t \<in> set tokens. Start t < End t \<and> End t \<le> n \<and>
       (\<not> HasFormatting t \<longrightarrow> (\<forall>j \<in> {Start t..<End t}. unquoted_char (line ! j)))) \<and>
    (\<forall>j < n. is_space (line ! j) \<or> (\<exists>t \<in> set tokens. Start t \<le> j \<and> j < End t))"

definition scan_ok :: "string \<Rightarrow> nat \<Rightarrow> QuoteMode \<Rightarrow> Token \<Rightarrow> Token list \<Rightarrow> bool" where
  "scan_ok line i quouteMode cur tokens \<longleftrightarrow>
    Start cur \<le> i \<and> i \<le> length line \<and> (HasFormatting cur \<longrightarrow> Start cur < i) \<and>
    (quouteMode \<noteq> Unquoted \<longrightarrow> HasFormatting cur) \<and>
    (\<not> HasFormatting cur \<longrightarrow> (\<forall>j \<in> {Start cur..<i}. unquoted_char (line ! j))) \<and>
    tokens_ok line (Start cur) tokens"

lemma tokens_ok_extend:
  "tokens_ok line n tokens \<Longrightarrow> is_space (line ! n) \<Longrightarrow> tokens_ok line (Suc n) tokens"
  by (auto simp: tokens_ok_def less_Suc_eq)

lemma tokens_ok_snoc:
  assumes "tokens_ok line n tokens" "n \<le> Start t" "Start t = n" "Start t < End t"
    "\<not> HasFormatting t \<longrightarrow> (\<forall>j \<in> {Start t..<End t}. unquoted_char (line ! j))"
  shows "tokens_ok line (End t) (tokens @ [t])"
proof -
  have "is_space (line ! j) \<or> (\<exists>u \<in> set (tokens @ [t]). Start u \<le> j \<and> j < End u)" if "j < End t" for j
    using assms that by (cases "j < n") (auto simp: tokens_ok_def)
  moreover have "Start u < End u \<and> End u \<le> End t" if "u \<in> set (tokens @ [t])" for u
    using assms that by (fastforce simp: tokens_ok_def)
  ultimately show ?thesis
    using assms unfolding tokens_ok_def by (auto simp: sorted_wrt_append)
qed

lemma push_token_ok:
  assumes "scan_ok line i quouteMode cur tokens" "push_token i cur tokens = (cur', tokens')"
  shows "tokens_ok line i tokens' \<and> Start cur' = Suc i \<and> \<not> HasFormatting cur'"
proof -
  have "tokens_ok line (End (cur\<lparr>End := i\<rparr>)) (tokens @ [cur\<lparr>End := i\<rparr>])" if "Start cur < i"
    using assms that by (intro tokens_ok_snoc [of _ "Start cur"]) (auto simp: scan_ok_def)
  then show ?thesis
    using assms by (auto simp: push_token_def scan_ok_def split: if_splits)
qed

lemma push_token_final:
  "scan_ok line i quouteMode cur tokens \<Longrightarrow> i = length line \<Longrightarrow> tokens_ok line (length line) (snd (push_token (length line) cur tokens))"
  using push_token_ok [of line i quouteMode cur tokens] by (cases "push_token (length line) cur tokens") auto

lemma scan_ok_step:
  assumes "scan_ok line i quouteMode cur tokens" "i < j" "j \<le> length line"
  shows "HasFormatting cur \<Longrightarrow> scan_ok line j quouteMode' cur tokens"
    and "scan_ok line j quouteMode' (cur\<lparr>HasFormatting := True\<rparr>) tokens"
    and "j = Suc i \<Longrightarrow> unquoted_char (line ! i) \<Longrightarrow> scan_ok line j Unquoted cur tokens"
  using assms by (auto simp: scan_ok_def less_Suc_eq)

lemma scan_ok_space:
  assumes "scan_ok line i quouteMode cur tokens" "i < length line" "is_space (line ! i)" "push_token i cur tokens = (cur', tokens')"
  shows "scan_ok line (Suc i) Unquoted cur' tokens'"
  using push_token_ok [OF assms(1,4)] assms(2,3) tokens_ok_extend by (auto simp: scan_ok_def)

lemma scan_ok_pipe:
  assumes "scan_ok line i quouteMode cur tokens" "i < length line" "line ! i = CHR ''|''" "push_token i cur tokens = (cur', tokens')"
  shows "scan_ok line (Suc i) Unquoted cur' (tokens' @ [\<lparr>Start = i, End = Suc i, HasFormatting = False\<rparr>])"
proof -
  have "tokens_ok line (End \<lparr>Start = i, End = Suc i, HasFormatting = False\<rparr>) (tokens' @ [\<lparr>Start = i, End = Suc i, HasFormatting = False\<rparr>])"
    using push_token_ok [OF assms(1,4)] assms(2,3) by (intro tokens_ok_snoc [of _ i]) (auto simp: unquoted_char_def)
  then show ?thesis
    using push_token_ok [OF assms(1,4)] assms(2) by (simp add: scan_ok_def)
qed

lemma SetText_loop_ok:
  "scan_ok line i quouteMode cur tokens \<Longrightarrow> tokens_ok line (length line) (fst (SetText_loop line i quouteMode cur tokens))"
proof (induction "length line - i" arbitrary: i quouteMode cur tokens rule: less_induct)
  case less
  show ?case
  proof (cases "i < length line")
    case True
    have IH: "tokens_ok line (length line) (fst (SetText_loop line j q c ts))"
      if "scan_ok line j q c ts" "i < j" for j q c ts
      using less.hyps [of j q c ts] that True by simp
    note step = scan_ok_step [OF less.prems, of "Suc i"] scan_ok_step [OF less.prems, of "Suc (Suc i)"]
    have trailing: "tokens_ok line (length line) (snd (push_token (length line) c tokens))"
      if "scan_ok line (Suc i) q c tokens" "length line \<le> Suc i" for q c
      using push_token_final [OF that(1)] that True by simp
    show ?thesis
    proof (cases quouteMode)
      case Unquoted
      obtain cur' tokens' where push: "push_token i cur tokens = (cur', tokens')"
        by (cases "push_token i cur tokens")
      from Unquoted True step scan_ok_space [OF less.prems True _ push] scan_ok_pipe [OF less.prems True _ push] show ?thesis
        unfolding SetText_loop.simps [of line i] by (simp add: push IH trailing unquoted_char_def Let_def)
    next
      case InSingle
      then have "HasFormatting cur"
        using less.prems by (simp add: scan_ok_def)
      with InSingle True step show ?thesis
        unfolding SetText_loop.simps [of line i] by (simp add: IH)
    next
      case InDouble
      then have "HasFormatting cur"
        using less.prems by (simp add: scan_ok_def)
      with InDouble True step show ?thesis
        unfolding SetText_loop.simps [of line i] by (simp add: IH trailing Let_def)
    qed
  next
    case False
    then have "i = length line"
      using less.prems by (simp add: scan_ok_def)
    with push_token_final [OF less.prems this] show ?thesis
      unfolding SetText_loop.simps [of line i] by simp
  qed
qed

lemma SetText_tokens_ok: "tokens_ok line (length line) (m_Tokens (SetText line))"
proof -
  have "scan_ok line 0 Unquoted \<lparr>Start = 0, End = INVALID_INDEX, HasFormatting = False\<rparr> []"
    by (simp add: scan_ok_def tokens_ok_def)
  from SetText_loop_ok [OF this] show ?thesis
    by (simp add: SetText_def case_prod_beta)
qed

text \<open>
  C7. The tokens of any text are non-empty, in order and disjoint, lie within the text, and every character outside them is a blank: no
  character of a command line is lost or used twice.
\<close>

theorem tokens_partition_text:
  "let tokens = m_Tokens (SetText line) in
   sorted_wrt (\<lambda>a b. End a \<le> Start b) tokens \<and>
   (\<forall>t \<in> set tokens. Start t < End t \<and> End t \<le> length line) \<and>
   (\<forall>j < length line. is_space (line ! j) \<or> (\<exists>t \<in> set tokens. Start t \<le> j \<and> j < End t))"
  using SetText_tokens_ok [of line] unfolding tokens_ok_def by auto

lemma tokens_partition_text_witness:
  "\<exists>t \<in> set (m_Tokens (SetText ''ls wc'')). Start t \<le> 3 \<and> 3 < End t"
proof -
  have "\<forall>j < length ''ls wc''. is_space (''ls wc'' ! j) \<or> (\<exists>t \<in> set (m_Tokens (SetText ''ls wc'')). Start t \<le> j \<and> j < End t)"
    using tokens_partition_text [of "''ls wc''"] unfolding Let_def by (elim conjE)
  then have "is_space (''ls wc'' ! 3) \<or> (\<exists>t \<in> set (m_Tokens (SetText ''ls wc'')). Start t \<le> 3 \<and> 3 < End t)"
    by (rule allE [of _ 3]) simp
  moreover have "\<not> is_space (''ls wc'' ! 3)"
    by (simp add: is_space_def)
  ultimately show ?thesis
    by blast
qed

section \<open>Positions\<close>

lemma GetTokenText_chars:
  assumes "token \<in> set (m_Tokens (SetText line))"
  shows "GetTokenText (SetText line) token = map (fst \<circ> snd) (token_chars 0 Unquoted (token_view (SetText line) token))"
proof (cases "HasFormatting token")
  case True
  then show ?thesis
    by (simp add: GetTokenText_def ParseToken_chars call_each_collect)
next
  case False
  have "m_Text (SetText line) = line"
    by (simp add: SetText_def case_prod_beta)
  moreover have "\<forall>j \<in> {Start token..<End token}. unquoted_char (line ! j)" "End token \<le> length line"
    using SetText_tokens_ok [of line] assms False by (auto simp: tokens_ok_def)
  ultimately have "\<forall>c \<in> set (token_view (SetText line) token). unquoted_char c"
    by (auto simp: token_view_def in_set_conv_nth)
  then show ?thesis
    using False by (simp add: GetTokenText_def token_chars_unquoted)
qed

lemma lower_bound_in_token:
  assumes "tokens_ok line n tokens" "k < length tokens" "Start (tokens ! k) < position" "position \<le> End (tokens ! k)"
  shows "lower_bound tokens position = Suc k"
proof -
  have order: "End (tokens ! i) \<le> Start (tokens ! j)" if "i < j" "j < length tokens" for i j
    using assms(1) that by (auto simp: tokens_ok_def sorted_wrt_iff_nth_less)
  have "Start (tokens ! i) < position" if "i < Suc k" for i
  proof (cases "i = k")
    case False
    then have "End (tokens ! i) \<le> Start (tokens ! k)" "Start (tokens ! i) < End (tokens ! i)"
      using assms(1,2) that order [of i k] by (auto simp: tokens_ok_def)
    with assms(3) show ?thesis
      by simp
  qed (use assms(3) in simp)
  moreover have "\<not> Start (tokens ! Suc k) < position" if "Suc k < length tokens"
    using order [OF _ that, of k] assms(4) by simp
  ultimately have "takeWhile (\<lambda>t. Start t < position) tokens = take (Suc k) tokens"
    using assms(2) by (intro takeWhile_eq_take_P_nth) auto
  then show ?thesis
    using assms(2) by (simp add: lower_bound_def)
qed

text \<open>
  \<open>GetTokenByPosition\<close> inverts \<open>TokenToGlobalOffset\<close>: from any character of a token after its first, and from its end, the
  position in the text leads back to the same token and the same offset, through all quotes, escapes and line continuations.
\<close>

theorem token_position_roundtrip:
  assumes "k < length (m_Tokens (SetText line))"
    and "0 < n" "n \<le> length (GetTokenText (SetText line) (m_Tokens (SetText line) ! k))"
  shows "GetTokenByPosition (SetText line) (TokenToGlobalOffset (SetText line) (m_Tokens (SetText line) ! k) n) = Some (k, n)"
proof -
  define t where "t = m_Tokens (SetText line) ! k"
  define es where "es = token_chars 0 Unquoted (token_view (SetText line) t)"
  define p where "p = (if n < length es then Start t + fst (es ! n) else End t)"
  have t: "t \<in> set (m_Tokens (SetText line))"
    using assms(1) by (simp add: t_def)
  have span: "Start t < End t" "End t \<le> length (m_Text (SetText line))"
    using SetText_tokens_ok [of line] t by (auto simp: tokens_ok_def SetText_def case_prod_beta)
  then have window: "in_window 0 (End t - Start t) es"
    unfolding es_def by (intro token_chars_window) (simp_all add: token_view_def)
  have n: "n \<le> length es"
    using assms(3) GetTokenText_chars [OF t] by (simp add: t_def [symmetric] es_def)
  have "TokenToGlobalOffset (SetText line) t n = p"
    unfolding TokenToGlobalOffset_def ParseToken_chars es_def [symmetric]
    using window_length [OF window] n call_each_offset [of 0 n "\<lambda>i. Start t + i" es "End t"]
    by (cases "n = length es") (simp_all add: p_def)
  moreover have p: "Start t < p" "p \<le> End t" "length (takeWhile (\<lambda>e. Start t + fst e < p) es) = n"
    using window_nth [OF window, of n] window_count [OF window n, of "Start t"] assms(2) span
    by (auto simp: p_def)
  moreover have "lower_bound (m_Tokens (SetText line)) p = Suc k"
    using lower_bound_in_token [OF SetText_tokens_ok assms(1)] p by (simp add: t_def)
  ultimately show ?thesis
    using call_each_count [where f = "\<lambda>i. Start t + i" and p = p and es = es and n = 0]
    by (simp add: GetTokenByPosition_def ParseToken_chars t_def [symmetric] es_def [symmetric])
qed


text \<open>The shell's way to quote an argument, and a command line of quoted arguments.\<close>

fun quote_body :: "string \<Rightarrow> string" where
  "quote_body [] = [single_quote]"
| "quote_body (c # cs) =
    (if c = single_quote then [single_quote, backslash, single_quote, single_quote] else [c]) @ quote_body cs"

definition shell_quote :: "string \<Rightarrow> string" where
  "shell_quote arg = single_quote # quote_body arg"

fun command_line :: "string list \<Rightarrow> string" where
  "command_line [] = []"
| "command_line (arg # args) = shell_quote arg @ CHR '' '' # command_line args"

fun quoted_tokens :: "nat \<Rightarrow> string list \<Rightarrow> Token list" where
  "quoted_tokens i [] = []"
| "quoted_tokens i (arg # args) =
    \<lparr>Start = i, End = i + length (shell_quote arg), HasFormatting = True\<rparr> # quoted_tokens (i + length (shell_quote arg) + 1) args"

lemma SetText_loop_quote_body:
  assumes "HasFormatting cur"
  shows "drop i line = quote_body arg @ rest \<Longrightarrow>
    SetText_loop line i InSingle cur tokens = SetText_loop line (i + length (quote_body arg)) Unquoted cur tokens"
proof (induction arg arbitrary: i)
  case Nil
  then show ?case
    using drop_eq_ConsD [of i line single_quote rest] by (subst SetText_loop.simps) simp
next
  case (Cons c arg)
  have [simp]: "cur\<lparr>HasFormatting := True\<rparr> = cur"
    using assms by (cases cur) simp
  show ?case
  proof (cases "c = single_quote")
    case True
    with Cons.prems have "drop i line = single_quote # backslash # single_quote # single_quote # quote_body arg @ rest"
      by simp
    note at = drop_eq_ConsD [OF this]
    note at1 = drop_eq_ConsD [OF at [THEN conjunct2, THEN conjunct2]]
    note at2 = drop_eq_ConsD [OF at1 [THEN conjunct2, THEN conjunct2]]
    note at3 = drop_eq_ConsD [OF at2 [THEN conjunct2, THEN conjunct2]]
    have "SetText_loop line i InSingle cur tokens = SetText_loop line (Suc i) Unquoted cur tokens"
      using at by (subst SetText_loop.simps) simp
    also have "\<dots> = SetText_loop line (Suc (Suc (Suc i))) Unquoted cur tokens"
      using at1 at2 by (subst SetText_loop.simps) (simp add: is_space_def)
    also have "\<dots> = SetText_loop line (Suc (Suc (Suc (Suc i)))) InSingle cur tokens"
      using at3 by (subst SetText_loop.simps) (simp add: is_space_def)
    finally show ?thesis
      using Cons.IH [of "i + 4"] at3 True by (simp add: numeral_eq_Suc)
  next
    case False
    with Cons.prems have at: "i < length line \<and> line ! i = c \<and> drop (Suc i) line = quote_body arg @ rest"
      using drop_eq_ConsD [of i line c "quote_body arg @ rest"] by simp
    with False Cons.IH [of "Suc i"] show ?thesis
      by (subst SetText_loop.simps) simp
  qed
qed

lemma SetText_loop_shell_quote:
  assumes "drop i line = shell_quote arg @ CHR '' '' # rest"
  shows "SetText_loop line i Unquoted \<lparr>Start = i, End = e, HasFormatting = False\<rparr> tokens =
    SetText_loop line (i + length (shell_quote arg) + 1) Unquoted
      \<lparr>Start = i + length (shell_quote arg) + 1, End = INVALID_INDEX, HasFormatting = False\<rparr>
      (tokens @ [\<lparr>Start = i, End = i + length (shell_quote arg), HasFormatting = True\<rparr>])"
proof -
  let ?cur = "\<lparr>Start = i, End = e, HasFormatting = True\<rparr>"
  have body: "i < length line \<and> line ! i = single_quote \<and> drop (Suc i) line = quote_body arg @ CHR '' '' # rest"
    using drop_eq_ConsD [of i line single_quote] assms by (simp add: shell_quote_def)
  have "drop (Suc i + length (quote_body arg)) line = drop (length (quote_body arg)) (drop (Suc i) line)"
    by (simp add: add.commute)
  also have "\<dots> = CHR '' '' # rest"
    using body by (simp del: drop_drop)
  finally have blank: "Suc i + length (quote_body arg) < length line" "line ! (Suc i + length (quote_body arg)) = CHR '' ''"
    using drop_eq_ConsD [of "Suc i + length (quote_body arg)" line "CHR '' ''" rest] by simp_all
  have "SetText_loop line i Unquoted \<lparr>Start = i, End = e, HasFormatting = False\<rparr> tokens = SetText_loop line (Suc i) InSingle ?cur tokens"
    using body by (subst SetText_loop.simps) (simp add: is_space_def)
  also have "\<dots> = SetText_loop line (Suc i + length (quote_body arg)) Unquoted ?cur tokens"
    using body by (intro SetText_loop_quote_body [of _ _ _ _ "CHR '' '' # rest"]) simp_all
  also have "\<dots> = SetText_loop line (i + length (shell_quote arg) + 1) Unquoted
      \<lparr>Start = i + length (shell_quote arg) + 1, End = INVALID_INDEX, HasFormatting = False\<rparr>
      (tokens @ [\<lparr>Start = i, End = i + length (shell_quote arg), HasFormatting = True\<rparr>])"
    using blank by (subst SetText_loop.simps) (simp add: is_space_def push_token_def shell_quote_def)
  finally show ?thesis .
qed

lemma SetText_loop_command_line:
  "drop i line = command_line args \<Longrightarrow> i \<le> length line \<Longrightarrow>
    SetText_loop line i Unquoted \<lparr>Start = i, End = e, HasFormatting = False\<rparr> tokens = (tokens @ quoted_tokens i args, Normal)"
proof (induction args arbitrary: i e tokens)
  case Nil
  then show ?case
    by (subst SetText_loop.simps) (simp add: push_token_def)
next
  case (Cons arg args)
  have "drop (i + length (shell_quote arg) + 1) line = command_line args"
    using arg_cong [OF Cons.prems(1), of "drop (length (shell_quote arg) + 1)"] by (simp add: add.commute)
  moreover have "i + length (shell_quote arg) + 1 \<le> length line"
    using arg_cong [OF Cons.prems(1), of length] Cons.prems(2) by simp
  ultimately show ?case
    using Cons.IH [of "i + length (shell_quote arg) + 1"] SetText_loop_shell_quote [of i line arg "command_line args"] Cons.prems(1)
    by simp
qed

lemma token_chars_shell_quote: "map (fst \<circ> snd) (token_chars i Unquoted (shell_quote arg)) = arg"
proof -
  have "map (fst \<circ> snd) (token_chars j InSingle (quote_body arg)) = arg" for j
    by (induction arg arbitrary: j) simp_all
  then show ?thesis
    by (simp add: shell_quote_def)
qed

lemma quoted_tokens_text:
  "drop i (m_Text tokenizer) = command_line args \<Longrightarrow> map (GetTokenText tokenizer) (quoted_tokens i args) = args"
proof (induction args arbitrary: i)
  case (Cons arg args)
  have "drop (i + length (shell_quote arg) + 1) (m_Text tokenizer) = command_line args"
    using arg_cong [OF Cons.prems, of "drop (length (shell_quote arg) + 1)"] by (simp add: add.commute)
  then show ?case
    using Cons by (simp add: GetTokenText_def ParseToken_chars call_each_collect token_view_def token_chars_shell_quote)
qed simp

lemma SetText_command_line:
  "SetText (command_line args) = \<lparr>m_Text = command_line args, m_Tokens = quoted_tokens 0 args, m_Termination = Normal\<rparr>"
  using SetText_loop_command_line [of 0 "command_line args" args] by (simp add: SetText_def)

text \<open>
  C6. Tokenizing a command line of quoted arguments gives the arguments back, whatever blanks, quotes, backslashes, pipes or newlines
  they contain, and the line is complete.
\<close>

theorem shell_quote_roundtrip:
  "let tokenizer = SetText (command_line args) in
   map (GetTokenText tokenizer) (m_Tokens tokenizer) = args \<and> m_Termination tokenizer = Normal"
  using quoted_tokens_text [of 0 "SetText (command_line args)" args] by (simp add: SetText_command_line)


lemma token_position_roundtrip_witness:
  "GetTokenByPosition (SetText (command_line [''a'', ''b c'']))
    (TokenToGlobalOffset (SetText (command_line [''a'', ''b c''])) (m_Tokens (SetText (command_line [''a'', ''b c''])) ! 1) 2) = Some (1, 2)"
  by (rule token_position_roundtrip)
    (simp_all add: SetText_command_line shell_quote_def GetTokenText_def ParseToken_chars call_each_collect token_view_def del: command_line.simps,
      simp add: shell_quote_def)

lemma line_continuation_token:
  "map (GetTokenText (SetText (''a '' @ [CHR 0x5C, CHR 0x0A] @ '' b''))) (m_Tokens (SetText (''a '' @ [CHR 0x5C, CHR 0x0A] @ '' b'')))
    = [''a'', '''', ''b'']"
  by (simp add: SetText_def SetText_loop.simps Let_def is_space_def push_token_def GetTokenText_def ParseToken_chars call_each_collect token_view_def)

end
