(* ===== verification/IntrusiveList.thy ===== *)
theory IntrusiveList
  imports Prelude
begin

text \<open>
  \<open>PIntrusiveList\<close> of \<open>Include/Utils/IntrusiveList.h\<close>, the doubly linked list whose links live in
  its elements; the scheduler's queues, the block cache and the FAT driver are built on it.
  The heap maps a node address to its three fields, a list object holds \<open>m_First\<close>, \<open>m_Last\<close> and
  \<open>m_NodeCount\<close>. \<open>il_rep\<close> relates heap and list object to the abstract list of node addresses, and every
  operation is shown to implement its abstract counterpart and to leave other lists alone.
  The conversions between node and owner are the identity, as for lists without a \<open>NodeMember\<close>.
  A failed \<open>assert\<close> is the error \<open>Fault\<close>.
\<close>

section \<open>Nodes, lists and operations\<close>

record ('p, 'l) PIntrusiveListNode =
  m_Prev :: "'p option"
  m_Next :: "'p option"
  m_List :: "'l option"

record 'p PIntrusiveList =
  m_First :: "'p option"
  m_Last :: "'p option"
  m_NodeCount :: u32

type_synonym ('p, 'l) node_heap = "'p \<Rightarrow> ('p, 'l) PIntrusiveListNode"
type_synonym ('p, 'l) list_state = "('p, 'l) node_heap \<times> 'p PIntrusiveList"

definition new_node :: "('p, 'l) PIntrusiveListNode" where
  "new_node = \<lparr>m_Prev = None, m_Next = None, m_List = None\<rparr>"

definition new_list :: "'p PIntrusiveList" where
  "new_list = \<lparr>m_First = None, m_Last = None, m_NodeCount = 0\<rparr>"

definition IsListMember :: "('p, 'l) node_heap \<Rightarrow> 'p \<Rightarrow> bool" where
  "IsListMember h p \<longleftrightarrow> m_List (h p) \<noteq> None"

definition IsListMember_of :: "('p, 'l) node_heap \<Rightarrow> 'l \<Rightarrow> 'p \<Rightarrow> bool" where
  "IsListMember_of h list p \<longleftrightarrow> m_List (h p) = Some list"

text \<open>Assignments through a node pointer that the code has just compared with \<open>nullptr\<close>.\<close>

definition set_next :: "'p option \<Rightarrow> 'p option \<Rightarrow> ('p, 'l) node_heap \<Rightarrow> ('p, 'l) node_heap" where
  "set_next ptr v h = (case ptr of None \<Rightarrow> h | Some p \<Rightarrow> h(p := (h p)\<lparr>m_Next := v\<rparr>))"

definition set_prev :: "'p option \<Rightarrow> 'p option \<Rightarrow> ('p, 'l) node_heap \<Rightarrow> ('p, 'l) node_heap" where
  "set_prev ptr v h = (case ptr of None \<Rightarrow> h | Some p \<Rightarrow> h(p := (h p)\<lparr>m_Prev := v\<rparr>))"

definition il_Append :: "'l \<Rightarrow> 'p \<Rightarrow> ('p, 'l) list_state \<Rightarrow> ('p, 'l) list_state result" where
  "il_Append this node s =
     (let (h, l) = s in
      if IsListMember h node then Inl Fault
      else let h = h(node := (h node)\<lparr>m_List := Some this, m_Prev := m_Last l, m_Next := None\<rparr>);
               h = set_next (m_Last l) (Some node) h;
               l = l\<lparr>m_Last := Some node\<rparr>;
               l = (if m_First l = None then l\<lparr>m_First := Some node\<rparr> else l)
           in Inr (h, l\<lparr>m_NodeCount := m_NodeCount l + 1\<rparr>))"

definition il_Insert :: "'l \<Rightarrow> 'p option \<Rightarrow> 'p \<Rightarrow> ('p, 'l) list_state \<Rightarrow> ('p, 'l) list_state result" where
  "il_Insert this next node s =
     (let (h, l) = s in
      if IsListMember h node then Inl Fault
      else let h = h(node := (h node)\<lparr>m_List := Some this\<rparr>);
               (h, l) = (case next of
                  None \<Rightarrow>
                    let h = h(node := (h node)\<lparr>m_Next := m_First l, m_Prev := None\<rparr>);
                        h = set_prev (m_First l) (Some node) h;
                        l = l\<lparr>m_First := Some node\<rparr>
                    in (h, if m_Last l = None then l\<lparr>m_Last := Some node\<rparr> else l)
                | Some nextNode \<Rightarrow>
                    let h = h(node := (h node)\<lparr>m_Next := Some nextNode, m_Prev := m_Prev (h nextNode)\<rparr>);
                        h = h(nextNode := (h nextNode)\<lparr>m_Prev := Some node\<rparr>)
                    in if m_Prev (h node) \<noteq> None
                       then (set_next (m_Prev (h node)) (Some node) h, l)
                       else (h, l\<lparr>m_First := Some node\<rparr>))
           in Inr (h, l\<lparr>m_NodeCount := m_NodeCount l + 1\<rparr>))"

definition il_Remove :: "'l \<Rightarrow> 'p \<Rightarrow> ('p, 'l) list_state \<Rightarrow> ('p, 'l) list_state result" where
  "il_Remove this node s =
     (let (h, l) = s in
      if \<not> IsListMember_of h this node then Inl Fault
      else let h = h(node := (h node)\<lparr>m_List := None\<rparr>);
               (h, l) = (if m_Prev (h node) \<noteq> None
                         then (set_next (m_Prev (h node)) (m_Next (h node)) h, l)
                         else (h, l\<lparr>m_First := m_Next (h node)\<rparr>));
               (h, l) = (if m_Next (h node) \<noteq> None
                         then (set_prev (m_Next (h node)) (m_Prev (h node)) h, l)
                         else (h, l\<lparr>m_Last := m_Prev (h node)\<rparr>));
               h = h(node := (h node)\<lparr>m_Prev := None, m_Next := None\<rparr>)
           in Inr (h, l\<lparr>m_NodeCount := m_NodeCount l - 1\<rparr>))"

definition il_GetFirst :: "('p, 'l) list_state \<Rightarrow> 'p option" where
  "il_GetFirst s = m_First (snd s)"

definition il_GetLast :: "('p, 'l) list_state \<Rightarrow> 'p option" where
  "il_GetLast s = m_Last (snd s)"

definition il_IsEmpty :: "('p, 'l) list_state \<Rightarrow> bool" where
  "il_IsEmpty s \<longleftrightarrow> m_First (snd s) = None"

definition il_GetCount :: "('p, 'l) list_state \<Rightarrow> u32" where
  "il_GetCount s = m_NodeCount (snd s)"

text \<open>The iteration from \<open>begin()\<close> to \<open>end()\<close>, at most \<open>fuel\<close> increments.\<close>

fun il_iterate :: "('p, 'l) node_heap \<Rightarrow> nat \<Rightarrow> 'p option \<Rightarrow> 'p list option" where
  "il_iterate h fuel None = Some []"
| "il_iterate h 0 (Some p) = None"
| "il_iterate h (Suc fuel) (Some p) = map_option (Cons p) (il_iterate h fuel (m_Next (h p)))"

text \<open>\<open>KThreadWaitNode::Detatch\<close>: removes the node from the list it is on, if it is on one. The list
  objects are found through \<open>m_List\<close>, so this one takes the map of all lists.\<close>

definition Detatch :: "'p \<Rightarrow> ('p, 'l) node_heap \<times> ('l \<Rightarrow> 'p PIntrusiveList) \<Rightarrow>
    (bool \<times> ('p, 'l) node_heap \<times> ('l \<Rightarrow> 'p PIntrusiveList)) result" where
  "Detatch node s =
     (case m_List (fst s node) of
        None \<Rightarrow> Inr (False, s)
      | Some list \<Rightarrow>
          (case il_Remove list node (fst s, snd s list) of
             Inl e \<Rightarrow> Inl e
           | Inr (h, l) \<Rightarrow> Inr (True, h, (snd s)(list := l))))"

section \<open>Abstraction\<close>

definition first_of :: "'p list \<Rightarrow> 'p option \<Rightarrow> 'p option" where
  "first_of xs n = (case xs of [] \<Rightarrow> n | x # _ \<Rightarrow> Some x)"

definition last_of :: "'p list \<Rightarrow> 'p option \<Rightarrow> 'p option" where
  "last_of xs p = (if xs = [] then p else Some (last xs))"

fun linked :: "('p, 'l) node_heap \<Rightarrow> 'p option \<Rightarrow> 'p list \<Rightarrow> 'p option \<Rightarrow> bool" where
  "linked h p [] n = True"
| "linked h p (x # xs) n = (m_Prev (h x) = p \<and> m_Next (h x) = first_of xs n \<and> linked h (Some x) xs n)"

definition il_rep :: "'l \<Rightarrow> ('p, 'l) list_state \<Rightarrow> 'p list \<Rightarrow> bool" where
  "il_rep this s xs \<longleftrightarrow>
     distinct xs \<and> linked (fst s) None xs None \<and>
     m_First (snd s) = first_of xs None \<and> m_Last (snd s) = last_of xs None \<and>
     m_NodeCount (snd s) = of_nat (length xs) \<and>
     (\<forall>p. m_List (fst s p) = Some this \<longleftrightarrow> p \<in> set xs)"

text \<open>What \<open>Insert\<close> before an element means on the abstract list.\<close>

definition il_insert_before :: "'p \<Rightarrow> 'p \<Rightarrow> 'p list \<Rightarrow> 'p list" where
  "il_insert_before next x xs = takeWhile (\<lambda>y. y \<noteq> next) xs @ x # dropWhile (\<lambda>y. y \<noteq> next) xs"

lemma first_of_simps [simp]:
  "first_of [] n = n" "first_of (x # xs) n = Some x"
  by (simp_all add: first_of_def)

lemma first_of_append [simp]: "first_of (xs @ ys) n = first_of xs (first_of ys n)"
  by (simp add: first_of_def split: list.split)

lemma last_of_simps [simp]:
  "last_of [] p = p" "last_of (x # xs) p = last_of xs (Some x)" "last_of (xs @ ys) p = last_of ys (last_of xs p)"
  by (simp_all add: last_of_def)

lemma linked_append [simp]:
  "linked h p (xs @ ys) n \<longleftrightarrow> linked h p xs (first_of ys n) \<and> linked h (last_of xs p) ys n"
  by (induction xs arbitrary: p) auto

lemma linked_cong:
  "(\<And>x. x \<in> set xs \<Longrightarrow> m_Prev (h' x) = m_Prev (h x) \<and> m_Next (h' x) = m_Next (h x)) \<Longrightarrow>
   linked h' p xs n = linked h p xs n"
  by (induction xs arbitrary: p) auto

text \<open>Redirecting the link that enters a segment from the left, and the one that leaves it.\<close>

lemma linked_set_prev:
  assumes "linked h p xs n" "distinct xs"
  shows "linked (set_prev (first_of xs None) q h) (if xs = [] then p else q) xs n"
proof (cases xs)
  case Nil
  then show ?thesis by simp
next
  case (Cons x ys)
  have "linked (h(x := (h x)\<lparr>m_Prev := q\<rparr>)) (Some x) ys n = linked h (Some x) ys n"
    using assms Cons by (intro linked_cong) auto
  then show ?thesis using assms Cons by (simp add: set_prev_def)
qed

lemma linked_set_next:
  assumes "linked h p xs n" "distinct xs"
  shows "linked (set_next (last_of xs None) m h) p xs (if xs = [] then n else m)"
proof (cases xs rule: rev_cases)
  case Nil
  then show ?thesis by simp
next
  case (snoc ys x)
  have "linked (h(x := (h x)\<lparr>m_Next := m\<rparr>)) p ys (Some x) = linked h p ys (Some x)"
    using assms snoc by (intro linked_cong) auto
  then show ?thesis using assms snoc by (simp add: set_next_def)
qed

lemma set_links_other [simp]:
  "m_List (set_next q v h p) = m_List (h p)" "m_List (set_prev q v h p) = m_List (h p)"
  "m_Prev (set_next q v h p) = m_Prev (h p)" "m_Next (set_prev q v h p) = m_Next (h p)"
  by (simp_all add: set_next_def set_prev_def split: option.split)

lemma set_links_untouched:
  "q \<noteq> Some p \<Longrightarrow> set_next q v h p = h p" "q \<noteq> Some p \<Longrightarrow> set_prev q v h p = h p"
  by (auto simp: set_next_def set_prev_def split: option.split)

lemma last_of_in: "last_of xs None = Some p \<Longrightarrow> p \<in> set xs"
  by (auto simp: last_of_def split: if_splits)

lemma first_of_in: "first_of xs None = Some p \<Longrightarrow> p \<in> set xs"
  by (cases xs) auto

section \<open>Splicing and joining segments\<close>

lemma linked_both_ends:
  assumes "linked h None as n" "linked h p bs None" "distinct (as @ bs)"
    and "\<And>x. x \<in> set as \<union> set bs \<Longrightarrow>
      m_Prev (h' x) = m_Prev (set_prev (first_of bs None) q (set_next (last_of as None) m h) x) \<and>
      m_Next (h' x) = m_Next (set_prev (first_of bs None) q (set_next (last_of as None) m h) x)"
  shows "linked h' None as m" and "linked h' q bs None"
proof -
  let ?g = "set_prev (first_of bs None) q (set_next (last_of as None) m h)"
  have fb: "first_of bs None \<noteq> Some x" if "x \<in> set as" for x
    using assms(3) that by (cases bs) auto
  have la: "last_of as None \<noteq> Some x" if "x \<in> set bs" for x
    using assms(3) that by (auto dest: last_of_in)
  have "linked (set_next (last_of as None) m h) None as m"
    using linked_set_next [OF assms(1), of m] assms(3) by (cases as) auto
  moreover have "linked ?g None as m = linked (set_next (last_of as None) m h) None as m"
    by (rule linked_cong) (simp add: fb set_links_untouched)
  moreover have "linked h' None as m = linked ?g None as m"
    by (rule linked_cong) (simp add: assms(4))
  ultimately show "linked h' None as m" by simp
  have "linked (set_next (last_of as None) m h) p bs None = linked h p bs None"
    by (rule linked_cong) (simp add: la set_links_untouched)
  then have "linked ?g q bs None"
    using linked_set_prev [of "set_next (last_of as None) m h" p bs None q] assms(2,3) by (cases bs) auto
  moreover have "linked h' q bs None = linked ?g q bs None"
    by (rule linked_cong) (simp add: assms(4))
  ultimately show "linked h' q bs None" by simp
qed

lemma first_of_None_iff [simp]: "first_of xs None = None \<longleftrightarrow> xs = []" "None = first_of xs None \<longleftrightarrow> xs = []"
  by (cases xs; simp)+

lemma last_of_None_iff [simp]: "last_of xs None = None \<longleftrightarrow> xs = []" "None = last_of xs None \<longleftrightarrow> xs = []"
  by (auto simp: last_of_def)

section \<open>The operations on the abstract list\<close>

lemma il_rep_new: "(\<And>p. m_List (h p) \<noteq> Some this) \<Longrightarrow> il_rep this (h, new_list) []"
  by (simp add: il_rep_def new_list_def)

lemma il_Append_rep:
  assumes rep: "il_rep this (h, l) xs" and fresh: "\<not> IsListMember h node"
  obtains h' l' where "il_Append this node (h, l) = Inr (h', l')" "il_rep this (h', l') (xs @ [node])"
    and "\<And>p. p \<noteq> node \<Longrightarrow> p \<notin> set xs \<Longrightarrow> h' p = h p" and "\<And>p. p \<noteq> node \<Longrightarrow> m_List (h' p) = m_List (h p)"
proof -
  let ?h = "set_next (m_Last l) (Some node) (h(node := (h node)\<lparr>m_List := Some this, m_Prev := m_Last l, m_Next := None\<rparr>))"
  let ?l = "l\<lparr>m_Last := Some node, m_First := (if m_First l = None then Some node else m_First l),
       m_NodeCount := m_NodeCount l + 1\<rparr>"
  have r: "linked h None xs None" "distinct xs" "m_First l = first_of xs None" "m_Last l = last_of xs None"
    "m_NodeCount l = of_nat (length xs)" "\<And>p. m_List (h p) = Some this \<longleftrightarrow> p \<in> set xs"
    using rep by (auto simp: il_rep_def)
  have nin: "node \<notin> set xs" using r(6)[of node] fresh by (simp add: IsListMember_def)
  have last: "last_of xs None \<noteq> Some node" using nin by (auto dest: last_of_in)
  have "linked ?h None xs (Some node)"
    by (rule linked_both_ends(1) [of h xs None None "[]" _ None "Some node"])
       (use r nin in \<open>auto simp: set_next_def set_prev_def split: option.splits\<close>)
  then have "linked ?h None (xs @ [node]) None"
    using r last by (simp add: set_links_untouched)
  then have "il_rep this (?h, ?l) (xs @ [node])"
    using r nin by (cases xs) (auto simp: il_rep_def)
  moreover have "il_Append this node (h, l) = Inr (?h, ?l)"
    using fresh by (simp add: il_Append_def Let_def)
  moreover have "?h p = h p" if "p \<noteq> node" "p \<notin> set xs" for p
    using r that by (auto simp: set_next_def dest: last_of_in split: option.split)
  moreover have "m_List (?h p) = m_List (h p)" if "p \<noteq> node" for p using that by simp
  ultimately show thesis using that by blast
qed

lemma il_rep_split:
  assumes "il_rep this (h, l) (as @ node # bs)"
  shows "linked h None as (Some node)" "linked h (Some node) bs None" "m_Prev (h node) = last_of as None"
    "m_Next (h node) = first_of bs None" "distinct (as @ node # bs)" "m_First l = first_of as (Some node)"
    "m_Last l = last_of bs (Some node)" "m_NodeCount l = of_nat (Suc (length as + length bs))"
    "\<And>p. m_List (h p) = Some this \<longleftrightarrow> p \<in> set (as @ node # bs)"
  using assms by (auto simp: il_rep_def)

lemma il_Remove_rep:
  assumes rep: "il_rep this (h, l) (as @ node # bs)"
  obtains h' l' where "il_Remove this node (h, l) = Inr (h', l')" "il_rep this (h', l') (as @ bs)"
    and "\<And>p. p \<notin> set (as @ node # bs) \<Longrightarrow> h' p = h p" and "\<And>p. p \<noteq> node \<Longrightarrow> m_List (h' p) = m_List (h p)"
    and "h' node = (h node)\<lparr>m_List := None, m_Prev := None, m_Next := None\<rparr>"
proof -
  note r = il_rep_split [OF rep]
  let ?h = "(set_prev (first_of bs None) (last_of as None) (set_next (last_of as None) (first_of bs None)
      (h(node := (h node)\<lparr>m_List := None\<rparr>))))(node := (h node)\<lparr>m_List := None, m_Prev := None, m_Next := None\<rparr>)"
  let ?l = "l\<lparr>m_First := first_of (as @ bs) None, m_Last := last_of (as @ bs) None, m_NodeCount := m_NodeCount l - 1\<rparr>"
  have ln: "last_of as None \<noteq> Some node" and fn: "first_of bs None \<noteq> Some node"
    using r(5) by (auto dest: last_of_in first_of_in)
  have h: "linked ?h None as (first_of bs None)" "linked ?h (last_of as None) bs None"
    by (rule linked_both_ends [of h as "Some node" "Some node" bs _ "last_of as None" "first_of bs None"];
        use r in \<open>auto simp: set_next_def set_prev_def split: option.splits\<close>)+
  have "il_rep this (?h, ?l) (as @ bs)"
    using r h by (auto simp: il_rep_def)
  moreover have "il_Remove this node (h, l) = Inr (?h, ?l)"
    using r ln fn
    by (cases as rule: rev_cases; cases bs)
       (auto simp: il_Remove_def IsListMember_of_def Let_def set_links_untouched set_next_def set_prev_def
         last_of_def intro!: ext PIntrusiveList.equality)
  moreover have "?h p = h p" if "p \<notin> set (as @ node # bs)" for p
    using that by (auto simp: set_next_def set_prev_def dest: last_of_in first_of_in split: option.split)
  moreover have "m_List (?h p) = m_List (h p)" if "p \<noteq> node" for p using that by simp
  ultimately show thesis using that by simp
qed

lemma il_Insert_rep:
  assumes rep: "il_rep this (h, l) (as @ next # bs)" and fresh: "\<not> IsListMember h node"
  obtains h' l' where "il_Insert this (Some next) node (h, l) = Inr (h', l')"
    "il_rep this (h', l') (as @ node # next # bs)"
    and "\<And>p. p \<noteq> node \<Longrightarrow> p \<notin> set (as @ next # bs) \<Longrightarrow> h' p = h p" and "\<And>p. p \<noteq> node \<Longrightarrow> m_List (h' p) = m_List (h p)"
proof -
  note r = il_rep_split [OF rep]
  have nin: "node \<notin> set (as @ next # bs)"
    using r(9) [of node] fresh by (auto simp: IsListMember_def)
  then have nn: "next \<noteq> node" by auto
  let ?h = "set_next (last_of as None) (Some node) ((h(node := (h node)\<lparr>m_List := Some this, m_Next := Some next,
      m_Prev := last_of as None\<rparr>))(next := (h next)\<lparr>m_Prev := Some node\<rparr>))"
  let ?l = "l\<lparr>m_First := first_of as (Some node), m_NodeCount := m_NodeCount l + 1\<rparr>"
  have ln: "last_of as None \<noteq> Some node" "last_of as None \<noteq> Some next"
    using r(5) nin by (auto dest: last_of_in)
  have "linked h (last_of as None) (next # bs) None" using r by simp
  then have h: "linked ?h None as (Some node)" "linked ?h (Some node) (next # bs) None"
    by (rule linked_both_ends [OF r(1), of _ "next # bs" _ "Some node" "Some node"];
        use r nin nn in \<open>auto simp: set_next_def set_prev_def split: option.splits\<close>)+
  have "il_rep this (?h, ?l) (as @ node # next # bs)"
    using r h nin nn ln by (auto simp: il_rep_def set_links_untouched)
  moreover have "il_Insert this (Some next) node (h, l) = Inr (?h, ?l)"
    using r fresh nn ln
    by (cases as rule: rev_cases)
       (auto simp: il_Insert_def Let_def set_next_def fun_upd_twist last_of_def first_of_def
         intro!: ext PIntrusiveList.equality split: list.split)
  moreover have "?h p = h p" if "p \<noteq> node" "p \<notin> set (as @ next # bs)" for p
    using that by (auto simp: set_next_def dest: last_of_in split: option.split)
  moreover have "m_List (?h p) = m_List (h p)" if "p \<noteq> node" for p using that by simp
  ultimately show thesis using that by simp
qed

lemma il_Insert_front_rep:
  assumes rep: "il_rep this (h, l) xs" and fresh: "\<not> IsListMember h node"
  obtains h' l' where "il_Insert this None node (h, l) = Inr (h', l')" "il_rep this (h', l') (node # xs)"
    and "\<And>p. p \<noteq> node \<Longrightarrow> p \<notin> set xs \<Longrightarrow> h' p = h p" and "\<And>p. p \<noteq> node \<Longrightarrow> m_List (h' p) = m_List (h p)"
proof -
  let ?h = "set_prev (m_First l) (Some node) (h(node := (h node)\<lparr>m_List := Some this, m_Next := m_First l, m_Prev := None\<rparr>))"
  let ?l = "l\<lparr>m_First := Some node, m_Last := (if m_Last l = None then Some node else m_Last l),
       m_NodeCount := m_NodeCount l + 1\<rparr>"
  have r: "linked h None xs None" "distinct xs" "m_First l = first_of xs None" "m_Last l = last_of xs None"
    "m_NodeCount l = of_nat (length xs)" "\<And>p. m_List (h p) = Some this \<longleftrightarrow> p \<in> set xs"
    using rep by (auto simp: il_rep_def)
  have nin: "node \<notin> set xs" using r(6)[of node] fresh by (simp add: IsListMember_def)
  have first: "first_of xs None \<noteq> Some node" using nin by (auto dest: first_of_in)
  have "linked ?h (Some node) xs None"
    by (rule linked_both_ends(2) [of h "[]" None None xs _ "Some node" None])
       (use r nin in \<open>auto simp: set_next_def set_prev_def split: option.splits\<close>)
  then have "il_rep this (?h, ?l) (node # xs)"
    using r nin first by (cases xs) (auto simp: il_rep_def set_links_untouched last_of_def)
  moreover have "il_Insert this None node (h, l) = Inr (?h, ?l)"
    using fresh by (simp add: il_Insert_def Let_def)
  moreover have "?h p = h p" if "p \<noteq> node" "p \<notin> set xs" for p
    using r that by (auto simp: set_prev_def dest: first_of_in split: option.split)
  moreover have "m_List (?h p) = m_List (h p)" if "p \<noteq> node" for p using that by simp
  ultimately show thesis using that by blast
qed

lemma il_iterate_linked:
  "linked h p xs None \<Longrightarrow> length xs \<le> fuel \<Longrightarrow> il_iterate h fuel (first_of xs None) = Some xs"
proof (induction xs arbitrary: p fuel)
  case (Cons x xs)
  then show ?case by (cases fuel) auto
qed simp

lemma il_queries_rep:
  assumes "il_rep this s xs"
  shows "il_GetFirst s = first_of xs None" "il_GetLast s = last_of xs None" "il_IsEmpty s \<longleftrightarrow> xs = []"
    "il_GetCount s = of_nat (length xs)" "length xs \<le> fuel \<Longrightarrow> il_iterate (fst s) fuel (m_First (snd s)) = Some xs"
  using assms il_iterate_linked [of "fst s" None xs fuel]
  by (auto simp: il_rep_def il_GetFirst_def il_GetLast_def il_IsEmpty_def il_GetCount_def)

section \<open>All lists of a heap\<close>

text \<open>
  The intrusive lists that share a heap: the list objects are found by their address. Operations
  run on one of them; the abstract state maps every list address to the nodes on it.
\<close>

type_synonym ('p, 'l) lists_state = "('p, 'l) node_heap \<times> ('l \<Rightarrow> 'p PIntrusiveList)"

datatype ('p, 'l) list_op =
    OpAppend 'l 'p
  | OpInsert 'l "'p option" 'p
  | OpRemove 'l 'p
  | OpDetatch 'p

definition on_list :: "'l \<Rightarrow> (('p, 'l) list_state \<Rightarrow> ('p, 'l) list_state result) \<Rightarrow>
    ('p, 'l) lists_state \<Rightarrow> ('p, 'l) lists_state result" where
  "on_list i f s = (case f (fst s, snd s i) of Inl e \<Rightarrow> Inl e | Inr (h, l) \<Rightarrow> Inr (h, (snd s)(i := l)))"

fun list_op_step :: "('p, 'l) list_op \<Rightarrow> ('p, 'l) lists_state \<Rightarrow> ('p, 'l) lists_state result" where
  "list_op_step (OpAppend i p) s = on_list i (il_Append i p) s"
| "list_op_step (OpInsert i next p) s = on_list i (il_Insert i next p) s"
| "list_op_step (OpRemove i p) s = on_list i (il_Remove i p) s"
| "list_op_step (OpDetatch p) s = (case Detatch p s of Inl e \<Rightarrow> Inl e | Inr (_, s') \<Rightarrow> Inr s')"

fun list_ops_run :: "('p, 'l) list_op list \<Rightarrow> ('p, 'l) lists_state \<Rightarrow> ('p, 'l) lists_state result" where
  "list_ops_run [] s = Inr s"
| "list_ops_run (a # ops) s = (case list_op_step a s of Inl e \<Rightarrow> Inl e | Inr s' \<Rightarrow> list_ops_run ops s')"

definition lists_rep :: "('p, 'l) lists_state \<Rightarrow> ('l \<Rightarrow> 'p list) \<Rightarrow> bool" where
  "lists_rep s A \<longleftrightarrow> (\<forall>i. il_rep i (fst s, snd s i) (A i))"

text \<open>The abstract operations. Inserting before a node of another list is outside the contract.\<close>

fun abs_op :: "('p, 'l) list_op \<Rightarrow> ('l \<Rightarrow> 'p list) \<Rightarrow> ('l \<Rightarrow> 'p list) result" where
  "abs_op (OpAppend i p) A = (if \<exists>j. p \<in> set (A j) then Inl Fault else Inr (A(i := A i @ [p])))"
| "abs_op (OpInsert i None p) A = (if \<exists>j. p \<in> set (A j) then Inl Fault else Inr (A(i := p # A i)))"
| "abs_op (OpInsert i (Some n) p) A =
     (if \<exists>j. p \<in> set (A j) then Inl Fault else Inr (A(i := il_insert_before n p (A i))))"
| "abs_op (OpRemove i p) A = (if p \<in> set (A i) then Inr (A(i := remove1 p (A i))) else Inl Fault)"
| "abs_op (OpDetatch p) A = Inr (\<lambda>i. remove1 p (A i))"

fun op_valid :: "('p, 'l) list_op \<Rightarrow> ('l \<Rightarrow> 'p list) \<Rightarrow> bool" where
  "op_valid (OpInsert i (Some n) p) A = (n \<in> set (A i))"
| "op_valid _ A = True"

fun abs_run :: "('p, 'l) list_op list \<Rightarrow> ('l \<Rightarrow> 'p list) \<Rightarrow> ('l \<Rightarrow> 'p list) result" where
  "abs_run [] A = Inr A"
| "abs_run (a # ops) A = (case abs_op a A of Inl e \<Rightarrow> Inl e | Inr A' \<Rightarrow> abs_run ops A')"

fun ops_valid :: "('p, 'l) list_op list \<Rightarrow> ('l \<Rightarrow> 'p list) \<Rightarrow> bool" where
  "ops_valid [] A = True"
| "ops_valid (a # ops) A = (op_valid a A \<and> (case abs_op a A of Inl e \<Rightarrow> True | Inr A' \<Rightarrow> ops_valid ops A'))"

lemma lists_rep_member: "lists_rep (h, L) A \<Longrightarrow> m_List (h p) = Some i \<longleftrightarrow> p \<in> set (A i)"
  by (simp add: lists_rep_def il_rep_def)

lemma lists_rep_free: "lists_rep (h, L) A \<Longrightarrow> IsListMember h p \<longleftrightarrow> (\<exists>j. p \<in> set (A j))"
  by (auto simp: IsListMember_def lists_rep_member [symmetric])

text \<open>Lists other than the one operated on keep their nodes and links.\<close>

lemma lists_rep_update:
  assumes rep: "lists_rep (h, L) A" and new: "il_rep i (h', l') xs"
    and sub: "\<And>p. p \<notin> set xs \<union> set (A i) \<Longrightarrow> h' p = h p"
    and mem: "\<And>p j. j \<noteq> i \<Longrightarrow> p \<in> set (A j) \<Longrightarrow> p \<notin> set xs"
    and lst: "\<And>p j. j \<noteq> i \<Longrightarrow> m_List (h' p) = Some j \<Longrightarrow> m_List (h p) = Some j"
  shows "lists_rep (h', L(i := l')) (A(i := xs))"
proof -
  have "il_rep j (h', L j) (A j)" if j: "j \<noteq> i" for j
  proof -
    have r: "il_rep j (h, L j) (A j)" using rep by (simp add: lists_rep_def)
    have same: "h' p = h p" if "p \<in> set (A j)" for p
    proof (rule sub)
      have "p \<notin> set (A i)"
        using that j lists_rep_member [OF rep, of p i] lists_rep_member [OF rep, of p j] by auto
      then show "p \<notin> set xs \<union> set (A i)" using mem [OF j that] by simp
    qed
    have lk: "linked h' None (A j) None = linked h None (A j) None"
      by (rule linked_cong) (simp add: same)
    have ml: "m_List (h' p) = Some j \<longleftrightarrow> p \<in> set (A j)" for p
      using same [of p] lst [OF j, of p] lists_rep_member [OF rep, of p j] by metis
    show ?thesis using r unfolding il_rep_def by (simp add: lk ml)
  qed
  with new show ?thesis by (simp add: lists_rep_def)
qed

lemma lists_rep_other_list:
  assumes "lists_rep (h, L) A" "p \<in> set (A j)" "j \<noteq> i"
  shows "p \<notin> set (A i)"
  using assms lists_rep_member [OF assms(1), of p i] lists_rep_member [OF assms(1), of p j] by auto

lemma il_insert_before_split:
  "distinct (as @ n # bs) \<Longrightarrow> il_insert_before n x (as @ n # bs) = as @ x # n # bs"
  by (simp add: il_insert_before_def takeWhile_append dropWhile_append)

definition step_refines :: "('p, 'l) list_op \<Rightarrow> ('p, 'l) lists_state \<Rightarrow> ('l \<Rightarrow> 'p list) \<Rightarrow> bool" where
  "step_refines op s A \<longleftrightarrow>
     (case abs_op op A of
        Inl e \<Rightarrow> list_op_step op s = Inl e
      | Inr A' \<Rightarrow> \<exists>s'. list_op_step op s = Inr s' \<and> lists_rep s' A')"

lemma append_refines:
  assumes rep: "lists_rep (h, L) A"
  shows "step_refines (OpAppend i p) (h, L) A"
proof (cases "\<exists>j. p \<in> set (A j)")
  case True
  then show ?thesis
    using lists_rep_free [OF rep] by (simp add: step_refines_def on_list_def il_Append_def)
next
  case False
  with lists_rep_free [OF rep, of p] have fr: "\<not> IsListMember h p" by simp
  have "il_rep i (h, L i) (A i)" using rep by (simp add: lists_rep_def)
  from il_Append_rep [OF this fr] obtain h' l' where a: "il_Append i p (h, L i) = Inr (h', l')"
    "il_rep i (h', l') (A i @ [p])" "\<And>q. q \<noteq> p \<Longrightarrow> q \<notin> set (A i) \<Longrightarrow> h' q = h q"
    "\<And>q. q \<noteq> p \<Longrightarrow> m_List (h' q) = m_List (h q)" by blast
  have "m_List (h' p) = Some i" using a(2) by (simp add: il_rep_def)
  then have "lists_rep (h', L(i := l')) (A(i := A i @ [p]))"
    using a False by (intro lists_rep_update [OF rep a(2)])
      (auto dest: lists_rep_other_list [OF rep], metis option.inject)
  then show ?thesis using a False by (simp add: step_refines_def on_list_def)
qed

lemma insert_refines:
  assumes rep: "lists_rep (h, L) A" and val: "op_valid (OpInsert i n p) A"
  shows "step_refines (OpInsert i n p) (h, L) A"
proof (cases "\<exists>j. p \<in> set (A j)")
  case True
  then show ?thesis
    using lists_rep_free [OF rep] by (cases n) (simp_all add: step_refines_def on_list_def il_Insert_def)
next
  case False
  with lists_rep_free [OF rep, of p] have fr: "\<not> IsListMember h p" by simp
  have ri: "il_rep i (h, L i) (A i)" using rep by (simp add: lists_rep_def)
  obtain xs where xs: "abs_op (OpInsert i n p) A = Inr (A(i := xs))" "set xs = insert p (set (A i))"
    and "\<exists>h' l'. il_Insert i n p (h, L i) = Inr (h', l') \<and> il_rep i (h', l') xs \<and>
      (\<forall>q. q \<noteq> p \<longrightarrow> q \<notin> set (A i) \<longrightarrow> h' q = h q) \<and> (\<forall>q. q \<noteq> p \<longrightarrow> m_List (h' q) = m_List (h q))"
  proof (cases n)
    case None
    from il_Insert_front_rep [OF ri fr] show thesis
      using None False by (intro that [of "p # A i"]) (auto, metis)
  next
    case (Some nx)
    with val obtain as bs where sp: "A i = as @ nx # bs" by (auto dest: split_list)
    have "distinct (as @ nx # bs)" using ri sp by (simp add: il_rep_def)
    note ib = il_insert_before_split [OF this]
    from il_Insert_rep [OF ri [unfolded sp] fr] show thesis
      using Some False sp ib by (intro that [of "as @ p # nx # bs"]) (auto, metis)
  qed
  then obtain h' l' where a: "il_Insert i n p (h, L i) = Inr (h', l')" "il_rep i (h', l') xs"
    "\<And>q. q \<noteq> p \<Longrightarrow> q \<notin> set (A i) \<Longrightarrow> h' q = h q" "\<And>q. q \<noteq> p \<Longrightarrow> m_List (h' q) = m_List (h q)"
    by blast
  have "m_List (h' p) = Some i" using a(2) xs(2) by (simp add: il_rep_def)
  then have "lists_rep (h', L(i := l')) (A(i := xs))"
    using a xs(2) False by (intro lists_rep_update [OF rep a(2)])
      (auto dest: lists_rep_other_list [OF rep], metis option.inject)
  then show ?thesis using a xs(1) by (simp add: step_refines_def on_list_def)
qed

lemma remove_refines_some:
  assumes rep: "lists_rep (h, L) A" and mem: "p \<in> set (A i)"
  obtains h' l' where "il_Remove i p (h, L i) = Inr (h', l')" "lists_rep (h', L(i := l')) (A(i := remove1 p (A i)))"
proof -
  have ri: "il_rep i (h, L i) (A i)" using rep by (simp add: lists_rep_def)
  from mem obtain as bs where sp: "A i = as @ p # bs" "p \<notin> set as" by (auto dest: split_list_first)
  then have r1: "remove1 p (A i) = as @ bs" by (simp add: remove1_append)
  from il_Remove_rep [OF ri [unfolded sp(1)]] obtain h' l' where a: "il_Remove i p (h, L i) = Inr (h', l')"
    "il_rep i (h', l') (as @ bs)" "\<And>q. q \<notin> set (as @ p # bs) \<Longrightarrow> h' q = h q"
    "\<And>q. q \<noteq> p \<Longrightarrow> m_List (h' q) = m_List (h q)" "h' p = (h p)\<lparr>m_List := None, m_Prev := None, m_Next := None\<rparr>"
    by blast
  have gone: "m_List (h' p) = None" using a(5) by simp
  have "lists_rep (h', L(i := l')) (A(i := as @ bs))"
  proof (rule lists_rep_update [OF rep a(2)])
    show "h' q = h q" if "q \<notin> set (as @ bs) \<union> set (A i)" for q
      using that a(3) sp by simp
    show "q \<notin> set (as @ bs)" if "j \<noteq> i" "q \<in> set (A j)" for q j
      using lists_rep_other_list [OF rep that(2,1)] sp by auto
    show "m_List (h q) = Some j" if "j \<noteq> i" "m_List (h' q) = Some j" for q j
      using that gone a(4) by (cases "q = p") auto
  qed
  then show thesis using that [OF a(1)] r1 by simp
qed

lemma remove_refines:
  assumes rep: "lists_rep (h, L) A"
  shows "step_refines (OpRemove i p) (h, L) A"
proof (cases "p \<in> set (A i)")
  case True
  from remove_refines_some [OF rep True] obtain h' l' where
    "il_Remove i p (h, L i) = Inr (h', l')" "lists_rep (h', L(i := l')) (A(i := remove1 p (A i)))" .
  with True show ?thesis by (simp add: step_refines_def on_list_def)
next
  case False
  then show ?thesis
    using lists_rep_member [OF rep]
    by (simp add: step_refines_def on_list_def il_Remove_def IsListMember_of_def)
qed

lemma detatch_refines:
  assumes rep: "lists_rep (h, L) A"
  shows "step_refines (OpDetatch p) (h, L) A"
proof (cases "m_List (h p)")
  case None
  then have "p \<notin> set (A i)" for i using lists_rep_member [OF rep, of p i] by simp
  then have "(\<lambda>i. remove1 p (A i)) = A" by (simp add: remove1_idem)
  with None rep show ?thesis by (simp add: step_refines_def Detatch_def)
next
  case (Some i)
  then have mem: "p \<in> set (A i)" using lists_rep_member [OF rep] by simp
  have "(\<lambda>j. remove1 p (A j)) = A(i := remove1 p (A i))"
    using lists_rep_other_list [OF rep mem] by (auto simp: fun_eq_iff remove1_idem)
  moreover from remove_refines_some [OF rep mem] obtain h' l' where
    "il_Remove i p (h, L i) = Inr (h', l')" "lists_rep (h', L(i := l')) (A(i := remove1 p (A i)))" .
  ultimately show ?thesis using Some by (simp add: step_refines_def Detatch_def)
qed

lemma list_op_refines:
  assumes "lists_rep s A" "op_valid op A"
  shows "step_refines op s A"
  using assms
  by (cases s; cases op)
     (auto simp: append_refines insert_refines remove_refines detatch_refines)

section \<open>Clients of a list: draining it from the front\<close>

text \<open>
  The loop of the code that wakes the waiters of an object: take \<open>GetFirst()\<close>, \<open>Remove\<close> it, take the
  next \<open>GetFirst()\<close>, at most \<open>n\<close> times. It relies on the list only through the contract below.
\<close>

fun list_drain :: "('s \<Rightarrow> 'p option) \<Rightarrow> ('p \<Rightarrow> 's \<Rightarrow> 's result) \<Rightarrow> nat \<Rightarrow> 's \<Rightarrow> ('p list \<times> 's) result" where
  "list_drain get_first remove 0 s = Inr ([], s)"
| "list_drain get_first remove (Suc n) s =
     (case get_first s of
        None \<Rightarrow> Inr ([], s)
      | Some p \<Rightarrow>
          (case remove p s of
             Inl e \<Rightarrow> Inl e
           | Inr s' \<Rightarrow>
               (case list_drain get_first remove n s' of
                  Inl e \<Rightarrow> Inl e
                | Inr (ps, s'') \<Rightarrow> Inr (p # ps, s''))))"

locale list_provider =
  fixes rep :: "'s \<Rightarrow> 'p list \<Rightarrow> bool"
    and get_first :: "'s \<Rightarrow> 'p option"
    and append :: "'p \<Rightarrow> 's \<Rightarrow> 's result"
    and remove :: "'p \<Rightarrow> 's \<Rightarrow> 's result"
    and free :: "'p \<Rightarrow> 's \<Rightarrow> bool"
  assumes get_first: "rep s xs \<Longrightarrow> get_first s = (case xs of [] \<Rightarrow> None | x # _ \<Rightarrow> Some x)"
    and append: "rep s xs \<Longrightarrow> free p s \<Longrightarrow>
      \<exists>s'. append p s = Inr s' \<and> rep s' (xs @ [p]) \<and> (\<forall>q. free q s' \<longleftrightarrow> q \<noteq> p \<and> free q s)"
    and remove: "rep s (p # xs) \<Longrightarrow> \<exists>s'. remove p s = Inr s' \<and> rep s' xs"
begin

lemma drain:
  assumes "rep s xs"
  shows "\<exists>s'. list_drain get_first remove n s = Inr (take n xs, s') \<and> rep s' (drop n xs)"
  using assms
proof (induction n arbitrary: s xs)
  case (Suc n)
  show ?case
  proof (cases xs)
    case Nil
    then show ?thesis using Suc.prems get_first [OF Suc.prems] by auto
  next
    case (Cons p ps)
    with remove Suc.prems obtain s' where r: "remove p s = Inr s'" "rep s' ps" by blast
    with Suc.IH [OF r(2)] get_first [OF Suc.prems] Cons show ?thesis by auto
  qed
qed auto

lemma append_then_drain:
  assumes "rep s xs" "free p s"
  shows "\<exists>s' s''. append p s = Inr s' \<and>
    list_drain get_first remove (Suc (length xs)) s' = Inr (xs @ [p], s'') \<and> rep s'' []"
proof -
  from append [OF assms] obtain s' where "append p s = Inr s'" "rep s' (xs @ [p])" by blast
  with drain [of s' "xs @ [p]" "Suc (length xs)"] show ?thesis by auto
qed

end

definition lists_empty :: "('p, 'l) lists_state" where
  "lists_empty = ((\<lambda>_. new_node), (\<lambda>_. new_list))"

lemma lists_rep_empty: "lists_rep lists_empty (\<lambda>_. [])"
  by (simp add: lists_rep_def lists_empty_def il_rep_new new_node_def)

interpretation il: list_provider "\<lambda>s xs. \<exists>A. lists_rep s A \<and> A i = xs" "\<lambda>s. il_GetFirst (fst s, snd s i)"
  "\<lambda>p. list_op_step (OpAppend i p)" "\<lambda>p. list_op_step (OpRemove i p)" "\<lambda>p s. \<not> IsListMember (fst s) p"
  for i
proof
  fix s :: "('a, 'b) lists_state" and xs :: "'a list" and p
  assume "\<exists>A. lists_rep s A \<and> A i = xs"
  then obtain A where A: "lists_rep s A" "A i = xs" by blast
  then have "il_rep i (fst s, snd s i) xs" unfolding lists_rep_def by blast
  from il_queries_rep(1) [OF this]
  show "il_GetFirst (fst s, snd s i) = (case xs of [] \<Rightarrow> None | x # _ \<Rightarrow> Some x)"
    by (simp add: first_of_def)
  assume fr: "\<not> IsListMember (fst s) p"
  have no: "\<not> (\<exists>j. p \<in> set (A j))"
    using fr lists_rep_free [of "fst s" "snd s" A p] A(1) by simp
  have "step_refines (OpAppend i p) s A"
    by (rule list_op_refines [OF A(1)]) simp
  with no obtain s' where s': "list_op_step (OpAppend i p) s = Inr s'" "lists_rep s' (A(i := A i @ [p]))"
    by (auto simp: step_refines_def)
  have "(\<exists>j. q \<in> set ((A(i := A i @ [p])) j)) \<longleftrightarrow> q = p \<or> (\<exists>j. q \<in> set (A j))" for q
    by (auto simp: fun_upd_def)
  then have "IsListMember (fst s') q \<longleftrightarrow> q = p \<or> IsListMember (fst s) q" for q
    using lists_rep_free [of "fst s'" "snd s'" _ q] lists_rep_free [of "fst s" "snd s" A q] s'(2) A(1)
    by simp
  then show "\<exists>s'. list_op_step (OpAppend i p) s = Inr s' \<and> (\<exists>A. lists_rep s' A \<and> A i = xs @ [p]) \<and>
      (\<forall>q. (\<not> IsListMember (fst s') q) = (q \<noteq> p \<and> \<not> IsListMember (fst s) q))"
    using s' A(2) by (intro exI [of _ s']) (auto intro: exI [of _ "A(i := A i @ [p])"])
next
  fix s :: "('a, 'b) lists_state" and xs :: "'a list" and p
  assume "\<exists>A. lists_rep s A \<and> A i = p # xs"
  then obtain A where A: "lists_rep s A" "A i = p # xs" by blast
  have "step_refines (OpRemove i p) s A"
    by (rule list_op_refines [OF A(1)]) simp
  then show "\<exists>s'. list_op_step (OpRemove i p) s = Inr s' \<and> (\<exists>A. lists_rep s' A \<and> A i = xs)"
    using A by (auto simp: step_refines_def) (metis fun_upd_same)
qed

section \<open>The properties of the list\<close>

lemma list_ops_refine_from:
  assumes "lists_rep s A" "ops_valid ops A"
  shows "case abs_run ops A of
           Inl e \<Rightarrow> list_ops_run ops s = Inl e
         | Inr A' \<Rightarrow> \<exists>s'. list_ops_run ops s = Inr s' \<and> lists_rep s' A'"
  using assms
proof (induction ops arbitrary: s A)
  case (Cons a ops)
  have st: "step_refines a s A" using Cons.prems by (intro list_op_refines) simp_all
  show ?case
  proof (cases "abs_op a A")
    case (Inl e)
    then show ?thesis using st by (simp add: step_refines_def)
  next
    case (Inr A')
    with st obtain s' where "list_op_step a s = Inr s'" "lists_rep s' A'" by (auto simp: step_refines_def)
    with Cons.IH [of s' A'] Cons.prems Inr show ?thesis by (simp split: sum.splits)
  qed
qed simp

text \<open>
  C9. From empty lists, every sequence of \<open>Append\<close>, \<open>Insert\<close>, \<open>Remove\<close> and \<open>Detatch\<close> calls on any number of
  lists sharing their nodes does what the same calls do on plain lists: it fails an assertion exactly
  when a node is added twice or removed from a list it is not on, and otherwise iteration,
  \<open>GetLast\<close> and \<open>GetCount\<close> of each list give the elements of the plain list, its last one and its length.
\<close>

theorem list_ops_refine:
  assumes "ops_valid ops (\<lambda>_. [])"
  shows "case abs_run ops (\<lambda>_. []) of
           Inl e \<Rightarrow> list_ops_run ops lists_empty = Inl e
         | Inr A' \<Rightarrow> \<exists>h L. list_ops_run ops lists_empty = Inr (h, L) \<and>
             (\<forall>i. il_iterate h (length (A' i)) (il_GetFirst (h, L i)) = Some (A' i) \<and>
               il_GetLast (h, L i) = last_of (A' i) None \<and> il_GetCount (h, L i) = of_nat (length (A' i)))"
proof (cases "abs_run ops (\<lambda>_. [])")
  case (Inl e)
  then show ?thesis using list_ops_refine_from [OF lists_rep_empty assms] by simp
next
  case (Inr A')
  with list_ops_refine_from [OF lists_rep_empty assms] obtain h L where
    run: "list_ops_run ops lists_empty = Inr (h, L)" "lists_rep (h, L) A'" by auto
  have "il_rep i (h, L i) (A' i)" for i using run(2) by (simp add: lists_rep_def)
  from il_queries_rep [OF this] show ?thesis
    using Inr run(1) by (simp add: il_GetFirst_def)
qed

theorem list_ops_refine_witness:
  "\<exists>h L. list_ops_run [OpAppend False (1::nat), OpInsert False (Some 1) 2, OpAppend True 3, OpDetatch 1, OpAppend True 1]
      lists_empty = Inr (h, L) \<and> il_iterate h 2 (il_GetFirst (h, L True)) = Some [3, 1]"
proof -
  let ?ops = "[OpAppend False (1::nat), OpInsert False (Some 1) 2, OpAppend True 3, OpDetatch 1, OpAppend True 1]"
  have v: "ops_valid ?ops (\<lambda>_. [])"
    by (simp add: il_insert_before_def)
  have r: "\<exists>A'. abs_run ?ops (\<lambda>_. []) = Inr A' \<and> A' True = [3, 1]"
    by (simp add: il_insert_before_def)
  then obtain A' where A': "abs_run ?ops (\<lambda>_. []) = Inr A'" "A' True = [3, 1]" by blast
  from list_ops_refine [OF v] obtain h L where "list_ops_run ?ops lists_empty = Inr (h, L)"
    "\<forall>i. il_iterate h (length (A' i)) (il_GetFirst (h, L i)) = Some (A' i)" unfolding A'(1) by auto
  moreover from this have "il_iterate h 2 (il_GetFirst (h, L True)) = Some [3, 1]"
    using A'(2) by (elim allE [of _ True]) (simp add: numeral_2_eq_2)
  ultimately show ?thesis by blast
qed

text \<open>
  The loop that wakes waiters (take the first node, remove it, at most \<open>n\<close> times) removes exactly the first
  \<open>n\<close> nodes in the order they were appended and leaves the rest, on any reachable list.
\<close>

theorem list_drain_fifo:
  assumes "ops_valid ops (\<lambda>_. [])" "abs_run ops (\<lambda>_. []) = Inr A"
  shows "\<exists>s s'. list_ops_run ops lists_empty = Inr s \<and>
    list_drain (\<lambda>s. il_GetFirst (fst s, snd s i)) (\<lambda>p. list_op_step (OpRemove i p)) n s = Inr (take n (A i), s') \<and>
    il_IsEmpty (fst s', snd s' i) = (length (A i) \<le> n)"
proof -
  from list_ops_refine_from [OF lists_rep_empty assms(1)] assms(2) obtain s where
    s: "list_ops_run ops lists_empty = Inr s" "lists_rep s A" by auto
  from il.drain [of s i "A i" n] s(2) obtain s' A' where
    d: "list_drain (\<lambda>s. il_GetFirst (fst s, snd s i)) (\<lambda>p. list_op_step (OpRemove i p)) n s = Inr (take n (A i), s')"
    "lists_rep s' A'" "A' i = drop n (A i)" by auto
  have "il_IsEmpty (fst s', snd s' i) \<longleftrightarrow> A' i = []"
    using d(2) by (intro il_queries_rep(3) [of i]) (simp add: lists_rep_def)
  with s d show ?thesis by (intro exI [of _ s] exI [of _ s']) simp
qed

theorem list_drain_fifo_witness:
  "\<exists>s s'. list_ops_run [OpAppend () (1::nat), OpAppend () 2, OpAppend () 3] lists_empty = Inr s \<and>
    list_drain (\<lambda>s. il_GetFirst (fst s, snd s ())) (\<lambda>p. list_op_step (OpRemove () p)) 2 s = Inr ([1, 2], s')"
proof -
  let ?ops = "[OpAppend () (1::nat), OpAppend () 2, OpAppend () 3]"
  have "ops_valid ?ops (\<lambda>_. [])" "abs_run ?ops (\<lambda>_. []) = Inr ((\<lambda>_. [])(() := [1, 2, 3]))" by simp_all
  from list_drain_fifo [OF this, of "()" 2] show ?thesis by auto
qed

end
