(* ===== verification/TimeValue.thy ===== *)
theory TimeValue
  imports Prelude "HOL-Library.Signed_Division"
begin

text \<open>
  \<open>TimeValue<T, TICKS_PER_SECOND>\<close> of \<open>Include/System/TimeValue.h\<close> for \<open>T = bigtime_t\<close> (a signed
  64-bit integer): the comparisons and arithmetic between values of different resolutions, with the
  largest value standing for infinity. The template parameters are the arguments \<open>lt\<close> and \<open>rt\<close>
  (ticks per second of the left and right operand). \<open>TimeValNanos\<close>, the instance the kernel uses, is a
  linear order with these comparisons.
\<close>

type_synonym i64 = "64 word"

section \<open>Values of any resolution\<close>

definition infinit :: i64 where
  "infinit = word_of_int (2 ^ 63 - 1)"

definition IsInfinit :: "i64 \<Rightarrow> bool" where
  "IsInfinit v \<longleftrightarrow> v = infinit"

definition IsZero :: "i64 \<Rightarrow> bool" where
  "IsZero v \<longleftrightarrow> v = 0"

text \<open>C++ division of signed integers truncates towards zero; the divisors are positive constants.\<close>

definition i64_div :: "i64 \<Rightarrow> int \<Rightarrow> i64" where
  "i64_div v k = word_of_int (sint v sdiv k)"

definition tv_convert :: "int \<Rightarrow> int \<Rightarrow> i64 \<Rightarrow> i64" where
  "tv_convert vt t v =
     (if IsInfinit v then infinit
      else if vt > t then i64_div v (vt div t)
      else v * word_of_int (t div vt))"

definition tv_eq :: "int \<Rightarrow> int \<Rightarrow> i64 \<Rightarrow> i64 \<Rightarrow> bool" where
  "tv_eq lt rt a b =
     (if IsInfinit a \<or> IsInfinit b then IsInfinit a = IsInfinit b
      else if rt > lt then a * word_of_int (rt div lt) = b
      else a = b * word_of_int (lt div rt))"

definition tv_ne :: "int \<Rightarrow> int \<Rightarrow> i64 \<Rightarrow> i64 \<Rightarrow> bool" where
  "tv_ne lt rt a b =
     (if IsInfinit a \<or> IsInfinit b then IsInfinit a \<noteq> IsInfinit b
      else if rt > lt then a * word_of_int (rt div lt) \<noteq> b
      else a \<noteq> b * word_of_int (lt div rt))"

definition tv_greater :: "int \<Rightarrow> int \<Rightarrow> i64 \<Rightarrow> i64 \<Rightarrow> bool" where
  "tv_greater lt rt a b =
     (if IsInfinit a \<or> IsInfinit b then IsInfinit a > IsInfinit b
      else if rt > lt then b <s a * word_of_int (rt div lt)
      else b * word_of_int (lt div rt) <s a)"

definition tv_less :: "int \<Rightarrow> int \<Rightarrow> i64 \<Rightarrow> i64 \<Rightarrow> bool" where
  "tv_less lt rt a b =
     (if IsInfinit a \<or> IsInfinit b then IsInfinit a < IsInfinit b
      else if rt > lt then a * word_of_int (rt div lt) <s b
      else a <s b * word_of_int (lt div rt))"

definition tv_greater_eq :: "int \<Rightarrow> int \<Rightarrow> i64 \<Rightarrow> i64 \<Rightarrow> bool" where
  "tv_greater_eq lt rt a b =
     (if IsInfinit a \<or> IsInfinit b then IsInfinit a \<ge> IsInfinit b
      else if rt > lt then b \<le>s a * word_of_int (rt div lt)
      else b * word_of_int (lt div rt) \<le>s a)"

definition tv_less_eq :: "int \<Rightarrow> int \<Rightarrow> i64 \<Rightarrow> i64 \<Rightarrow> bool" where
  "tv_less_eq lt rt a b =
     (if IsInfinit a \<or> IsInfinit b then IsInfinit a \<le> IsInfinit b
      else if rt > lt then a * word_of_int (rt div lt) \<le>s b
      else a \<le>s b * word_of_int (lt div rt))"

definition tv_plus :: "int \<Rightarrow> int \<Rightarrow> i64 \<Rightarrow> i64 \<Rightarrow> i64" where
  "tv_plus lt rt a b =
     (if rt > lt then a + i64_div b (rt div lt) else a + b * word_of_int (lt div rt))"

definition tv_minus :: "int \<Rightarrow> int \<Rightarrow> i64 \<Rightarrow> i64 \<Rightarrow> i64" where
  "tv_minus lt rt a b =
     (if rt > lt then a - i64_div b (rt div lt) else a - b * word_of_int (lt div rt))"

definition FromNanoseconds :: "int \<Rightarrow> i64 \<Rightarrow> i64" where
  "FromNanoseconds t v =
     (if t div 1000 div 1000 div 1000 > 0 then v * word_of_int (t div 1000 div 1000 div 1000)
      else i64_div v (1000000000 div t))"

definition FromMicroseconds :: "int \<Rightarrow> i64 \<Rightarrow> i64" where
  "FromMicroseconds t v =
     (if t div 1000 div 1000 > 0 then v * word_of_int (t div 1000 div 1000)
      else i64_div v (1000000 div t))"

definition AsNanoseconds :: "int \<Rightarrow> i64 \<Rightarrow> i64" where
  "AsNanoseconds t v =
     (if t \<ge> 1000000000 then i64_div v (t div 1000000000)
      else v * word_of_int (1000000000 div t))"

definition AsMicroseconds :: "int \<Rightarrow> i64 \<Rightarrow> i64" where
  "AsMicroseconds t v =
     (if t \<ge> 1000000 then i64_div v (t div 1000000)
      else v * word_of_int (1000000 div t))"

text \<open>The three resolutions the system has: \<open>TimeValMillis\<close>, \<open>TimeValMicros\<close> and \<open>TimeValNanos\<close>.\<close>

definition resolutions :: "int set" where
  "resolutions = {1000, 1000000, 1000000000}"

section \<open>Signed arithmetic\<close>

lemma sint_infinit: "sint infinit = 2 ^ 63 - 1"
  by (simp add: infinit_def)

lemma sint_i64_range: "- (2 ^ 63) \<le> sint (v :: i64)" "sint (v :: i64) < 2 ^ 63"
  using sint_ge [of v] sint_lt [of v] by simp_all

lemma sint_le_infinit: "sint (v :: i64) \<le> sint infinit"
  using sint_i64_range(2) [of v] by (simp add: sint_infinit)

lemma IsInfinit_sint: "IsInfinit v \<longleftrightarrow> sint v = 2 ^ 63 - 1"
proof -
  have "IsInfinit v \<longleftrightarrow> sint v = sint infinit" unfolding IsInfinit_def by (rule word_eq_iff_signed)
  then show ?thesis by (simp only: sint_infinit)
qed

lemma sint_word_of_int_i64: "- (2 ^ 63) \<le> k \<Longrightarrow> k < 2 ^ 63 \<Longrightarrow> sint (word_of_int k :: i64) = k"
  by (simp add: signed_of_int signed_take_bit_int_eq_self)

lemma i64_eq_iff: "a = b \<longleftrightarrow> sint a = sint b" for a b :: i64
  by (rule word_eq_iff_signed)

lemma sint_add_i64:
  "\<bar>sint (a :: i64) + sint b\<bar> < 2 ^ 63 \<Longrightarrow> sint (a + b) = sint a + sint b"
  by (simp add: sint_word_add signed_take_bit_int_eq_self)

lemma sint_diff_i64:
  "\<bar>sint (a :: i64) - sint b\<bar> < 2 ^ 63 \<Longrightarrow> sint (a - b) = sint a - sint b"
  by (simp add: sint_word_diff signed_take_bit_int_eq_self)

lemma sint_mult_i64:
  assumes "\<bar>sint (a :: i64) * k\<bar> < 2 ^ 63"
  shows "sint (a * word_of_int k) = sint a * k"
proof -
  have "a * word_of_int k = word_of_int (sint a * k)"
    by (simp only: of_int_mult of_int_sint scast_id)
  moreover have "sint (word_of_int (sint a * k) :: i64) = sint a * k"
    using assms by (intro sint_word_of_int_i64) simp_all
  ultimately show ?thesis by (simp only:)
qed

section \<open>Comparisons are exact\<close>

text \<open>
  A value with \<open>t\<close> ticks per second is \<open>v / t\<close> seconds. \<open>exact_time\<close> puts it on a common scale
  with infinity on top.
\<close>

definition nanos :: "int \<Rightarrow> i64 \<Rightarrow> int" where
  "nanos t v = sint v * (1000000000 div t)"

definition time_key :: "int \<Rightarrow> i64 \<Rightarrow> int option" where
  "time_key t v = (if IsInfinit v then None else Some (nanos t v))"

fun key_less :: "int option \<Rightarrow> int option \<Rightarrow> bool" where
  "key_less (Some x) (Some y) = (x < y)"
| "key_less (Some x) None = True"
| "key_less None y = False"

definition comparable :: "int \<Rightarrow> int \<Rightarrow> i64 \<Rightarrow> i64 \<Rightarrow> bool" where
  "comparable lt rt a b \<longleftrightarrow>
     (if rt > lt then IsInfinit a \<or> \<bar>sint a * (rt div lt)\<bar> < 2 ^ 63 else IsInfinit b \<or> \<bar>sint b * (lt div rt)\<bar> < 2 ^ 63)"

lemma scaled_values:
  assumes "lt \<in> resolutions" "rt \<in> resolutions"
  shows "rt > lt \<Longrightarrow> 1000000000 div lt = (rt div lt) * (1000000000 div rt)"
    and "\<not> rt > lt \<Longrightarrow> 1000000000 div rt = (lt div rt) * (1000000000 div lt)"
    and "1000000000 div lt > 0" "1000000000 div rt > 0"
  using assms by (auto simp: resolutions_def)

lemma nanos_scaled:
  assumes "lt \<in> resolutions" "rt \<in> resolutions"
  shows "rt > lt \<Longrightarrow> nanos lt a = (sint a * (rt div lt)) * (1000000000 div rt)"
    and "\<not> rt > lt \<Longrightarrow> nanos rt b = (sint b * (lt div rt)) * (1000000000 div lt)"
  using scaled_values [OF assms] by (simp_all add: nanos_def mult.assoc)

lemma tv_cases:
  assumes "lt \<in> resolutions" "rt \<in> resolutions" "comparable lt rt a b" "\<not> IsInfinit a" "\<not> IsInfinit b"
  shows "tv_less lt rt a b \<longleftrightarrow> nanos lt a < nanos rt b"
    and "tv_greater lt rt a b \<longleftrightarrow> nanos rt b < nanos lt a"
    and "tv_less_eq lt rt a b \<longleftrightarrow> nanos lt a \<le> nanos rt b"
    and "tv_greater_eq lt rt a b \<longleftrightarrow> nanos rt b \<le> nanos lt a"
    and "tv_eq lt rt a b \<longleftrightarrow> nanos lt a = nanos rt b"
    and "tv_ne lt rt a b \<longleftrightarrow> nanos lt a \<noteq> nanos rt b"
proof -
  note sc = scaled_values(3,4) [OF assms(1,2)]
  have *: "tv_less lt rt a b = (nanos lt a < nanos rt b) \<and> tv_greater lt rt a b = (nanos rt b < nanos lt a) \<and>
    tv_less_eq lt rt a b = (nanos lt a \<le> nanos rt b) \<and> tv_greater_eq lt rt a b = (nanos rt b \<le> nanos lt a) \<and>
    tv_eq lt rt a b = (nanos lt a = nanos rt b) \<and> tv_ne lt rt a b = (nanos lt a \<noteq> nanos rt b)"
  proof (cases "rt > lt")
    case True
    then have m: "sint (a * word_of_int (rt div lt)) = sint a * (rt div lt)"
      using assms(3,4) by (intro sint_mult_i64) (simp add: comparable_def)
    have n: "nanos rt b = sint b * (1000000000 div rt)" by (simp add: nanos_def)
    have e: "a * word_of_int (rt div lt) = b \<longleftrightarrow> sint a * (rt div lt) = sint b"
      using i64_eq_iff [of "a * word_of_int (rt div lt)" b] m by simp
    show ?thesis
      using True assms(4,5) sc nanos_scaled(1) [OF assms(1,2) True, of a]
      by (simp add: tv_less_def tv_greater_def tv_less_eq_def tv_greater_eq_def tv_eq_def tv_ne_def n
        word_sless_alt word_sle_eq e m)
  next
    case False
    then have m: "sint (b * word_of_int (lt div rt)) = sint b * (lt div rt)"
      using assms(3,5) by (intro sint_mult_i64) (simp add: comparable_def)
    have n: "nanos lt a = sint a * (1000000000 div lt)" by (simp add: nanos_def)
    have e: "a = b * word_of_int (lt div rt) \<longleftrightarrow> sint a = sint b * (lt div rt)"
      using i64_eq_iff [of a "b * word_of_int (lt div rt)"] m by simp
    show ?thesis
      using False assms(4,5) sc nanos_scaled(2) [OF assms(1,2) False, of b]
      by (simp add: tv_less_def tv_greater_def tv_less_eq_def tv_greater_eq_def tv_eq_def tv_ne_def n
        word_sless_alt word_sle_eq e m)
  qed
  then show "tv_less lt rt a b \<longleftrightarrow> nanos lt a < nanos rt b"
    and "tv_greater lt rt a b \<longleftrightarrow> nanos rt b < nanos lt a"
    and "tv_less_eq lt rt a b \<longleftrightarrow> nanos lt a \<le> nanos rt b"
    and "tv_greater_eq lt rt a b \<longleftrightarrow> nanos rt b \<le> nanos lt a"
    and "tv_eq lt rt a b \<longleftrightarrow> nanos lt a = nanos rt b"
    and "tv_ne lt rt a b \<longleftrightarrow> nanos lt a \<noteq> nanos rt b" by blast+
qed


text \<open>
  C10. Comparing two time values of any two resolutions of the system orders them by the instants they
  stand for, with infinity above every finite time, as long as scaling the coarser one to the finer
  resolution does not overflow; all six comparison operators agree on it.
\<close>

theorem tv_compare_exact:
  assumes "lt \<in> resolutions" "rt \<in> resolutions" "comparable lt rt a b"
  shows "tv_less lt rt a b = key_less (time_key lt a) (time_key rt b) \<and>
    tv_greater lt rt a b = key_less (time_key rt b) (time_key lt a) \<and>
    tv_less_eq lt rt a b = (\<not> key_less (time_key rt b) (time_key lt a)) \<and>
    tv_greater_eq lt rt a b = (\<not> key_less (time_key lt a) (time_key rt b)) \<and>
    tv_eq lt rt a b = (time_key lt a = time_key rt b) \<and>
    tv_ne lt rt a b = (time_key lt a \<noteq> time_key rt b)"
proof -
  note c = tv_cases [OF assms]
  note d = tv_less_def tv_greater_def tv_less_eq_def tv_greater_eq_def tv_eq_def tv_ne_def time_key_def
  show ?thesis
    using c by (cases "IsInfinit a"; cases "IsInfinit b") (auto simp: d)
qed

theorem tv_compare_exact_witness:
  "tv_less 1000 1000000000 2 2000001 \<and> tv_less_eq 1000000000 1000 5 infinit"
proof -
  have "1000 \<in> resolutions" "1000000000 \<in> resolutions" by (simp_all add: resolutions_def)
  note e = tv_compare_exact [OF this]
  have "comparable 1000 1000000000 2 2000001" by (simp add: comparable_def)
  moreover have "\<not> IsInfinit 2" "\<not> IsInfinit 2000001" "\<not> IsInfinit 5" "IsInfinit infinit"
    by (simp_all add: IsInfinit_def infinit_def)
  moreover have "tv_less_eq 1000000000 1000 5 infinit"
    by (simp add: tv_less_eq_def IsInfinit_def)
  ultimately show ?thesis using e [of 2 2000001] by (simp add: time_key_def nanos_def)
qed

section \<open>\<open>TimeValNanos\<close>\<close>

datatype TimeValNanos = FromNative (AsNative: i64)

definition nanos_infinit :: TimeValNanos where
  "nanos_infinit = FromNative infinit"

definition nanos_IsInfinit :: "TimeValNanos \<Rightarrow> bool" where
  "nanos_IsInfinit t \<longleftrightarrow> IsInfinit (AsNative t)"

definition nanos_add :: "TimeValNanos \<Rightarrow> TimeValNanos \<Rightarrow> TimeValNanos" where
  "nanos_add a b = FromNative (tv_plus 1000000000 1000000000 (AsNative a) (AsNative b))"

definition nanos_sub :: "TimeValNanos \<Rightarrow> TimeValNanos \<Rightarrow> TimeValNanos" where
  "nanos_sub a b = FromNative (tv_minus 1000000000 1000000000 (AsNative a) (AsNative b))"

lemma same_resolution:
  "tv_less t t a b \<longleftrightarrow> sint a < sint b" "tv_less_eq t t a b \<longleftrightarrow> sint a \<le> sint b"
  if "t \<noteq> 0"
proof -
  have "sint a < sint b" if "IsInfinit b" "\<not> IsInfinit a"
    using that sint_i64_range(2) [of a] by (simp add: IsInfinit_sint)
  moreover have "sint a \<le> sint b" if "IsInfinit b"
    using that sint_i64_range(2) [of a] by (simp add: IsInfinit_sint)
  moreover have "sint b < sint a" if "IsInfinit a" "\<not> IsInfinit b"
    using that sint_i64_range(2) [of b] by (simp add: IsInfinit_sint)
  ultimately show "tv_less t t a b \<longleftrightarrow> sint a < sint b" "tv_less_eq t t a b \<longleftrightarrow> sint a \<le> sint b"
    using \<open>t \<noteq> 0\<close>
    by (auto simp: tv_less_def tv_less_eq_def word_sless_alt word_sle_eq)
       (auto simp: IsInfinit_sint less_imp_le)
qed

instantiation TimeValNanos :: linorder
begin

definition less_eq_TimeValNanos :: "TimeValNanos \<Rightarrow> TimeValNanos \<Rightarrow> bool" where
  "less_eq_TimeValNanos a b = tv_less_eq 1000000000 1000000000 (AsNative a) (AsNative b)"

definition less_TimeValNanos :: "TimeValNanos \<Rightarrow> TimeValNanos \<Rightarrow> bool" where
  "less_TimeValNanos a b = tv_less 1000000000 1000000000 (AsNative a) (AsNative b)"

instance
proof
  fix a b c :: TimeValNanos
  show "a < b \<longleftrightarrow> a \<le> b \<and> \<not> b \<le> a" "a \<le> a" "a \<le> b \<or> b \<le> a"
    by (auto simp: less_eq_TimeValNanos_def less_TimeValNanos_def same_resolution)
  show "a \<le> b \<Longrightarrow> b \<le> c \<Longrightarrow> a \<le> c"
    by (simp add: less_eq_TimeValNanos_def same_resolution)
  show "a \<le> b \<Longrightarrow> b \<le> a \<Longrightarrow> a = b"
    by (cases a; cases b) (simp add: less_eq_TimeValNanos_def same_resolution i64_eq_iff)
qed

end

lemma TimeValNanos_less_iff: "a < b \<longleftrightarrow> sint (AsNative a) < sint (AsNative b)" for a b :: TimeValNanos
  by (simp add: less_TimeValNanos_def same_resolution)

lemma TimeValNanos_le_iff: "a \<le> b \<longleftrightarrow> sint (AsNative a) \<le> sint (AsNative b)" for a b :: TimeValNanos
  by (simp add: less_eq_TimeValNanos_def same_resolution)

lemma nanos_infinit_top: "t \<le> nanos_infinit"
  by (simp add: TimeValNanos_le_iff nanos_infinit_def sint_le_infinit)

lemma nanos_sub_native: "AsNative (nanos_sub a b) = AsNative a - AsNative b"
  by (simp add: nanos_sub_def tv_minus_def)

lemma nanos_add_native: "AsNative (nanos_add a b) = AsNative a + AsNative b"
  by (simp add: nanos_add_def tv_plus_def)

end
