(* ===== verification/KTime.thy ===== *)
theory KTime
  imports TimeValue
begin

text \<open>
  The kernel clocks of \<open>Kernel/KTime.cpp\<close>: the offset of each clock from the monotonic clock and the
  conversion of a deadline on some clock to the monotonic deadline the sleep list works with.
  The globals the functions read are the fields of \<open>clock_state\<close>; the cycle-counter part of the
  high-resolution clock (\<open>SysTick\<close> registers, floating point) is not modelled.
\<close>

section \<open>State\<close>

datatype clockid_t =
    CLOCK_REALTIME_COARSE | CLOCK_REALTIME | CLOCK_REALTIME_ALARM
  | CLOCK_PROCESS_CPUTIME_ID | CLOCK_THREAD_CPUTIME_ID
  | CLOCK_MONOTONIC | CLOCK_MONOTONIC_RAW | CLOCK_MONOTONIC_COARSE
  | CLOCK_BOOTTIME | CLOCK_BOOTTIME_ALARM
  | CLOCK_OTHER int

record clock_state =
  s_SystemTimeNS :: i64
  s_RealTime :: TimeValNanos
  idle_RunTime :: TimeValNanos
  current_RunTime :: TimeValNanos

abbreviation NANOS :: int where
  "NANOS \<equiv> 1000000000"

section \<open>Operations\<close>

definition kget_monotonic_time_ns :: "clock_state \<Rightarrow> i64" where
  "kget_monotonic_time_ns c = s_SystemTimeNS c"

definition kget_monotonic_time :: "clock_state \<Rightarrow> TimeValNanos" where
  "kget_monotonic_time c = FromNative (FromNanoseconds NANOS (kget_monotonic_time_ns c))"

definition kget_real_time_ns :: "clock_state \<Rightarrow> i64" where
  "kget_real_time_ns c = kget_monotonic_time_ns c + AsNanoseconds NANOS (AsNative (s_RealTime c))"

definition kget_real_time :: "clock_state \<Rightarrow> TimeValNanos" where
  "kget_real_time c = FromNative (FromNanoseconds NANOS (kget_real_time_ns c))"

text \<open>The last component of the result is the time written to the hardware clock, if any.\<close>

definition kset_real_time :: "TimeValNanos \<Rightarrow> bool \<Rightarrow> clock_state \<Rightarrow> PErrorCode \<times> clock_state \<times> TimeValNanos option" where
  "kset_real_time time updateRTC c =
     (Success, c\<lparr>s_RealTime := nanos_sub time (kget_monotonic_time c)\<rparr>, if updateRTC then Some time else None)"

definition kget_idle_time_ns :: "clock_state \<Rightarrow> i64" where
  "kget_idle_time_ns c = AsNanoseconds NANOS (AsNative (idle_RunTime c))"

fun kget_clock_time_offset_ns :: "clock_state \<Rightarrow> clockid_t \<Rightarrow> i64 result" where
  "kget_clock_time_offset_ns c CLOCK_REALTIME_COARSE = Inr (AsNanoseconds NANOS (AsNative (s_RealTime c)))"
| "kget_clock_time_offset_ns c CLOCK_REALTIME = Inr (AsNanoseconds NANOS (AsNative (s_RealTime c)))"
| "kget_clock_time_offset_ns c CLOCK_REALTIME_ALARM = Inr (AsNanoseconds NANOS (AsNative (s_RealTime c)))"
| "kget_clock_time_offset_ns c CLOCK_PROCESS_CPUTIME_ID = Inr (- kget_idle_time_ns c)"
| "kget_clock_time_offset_ns c CLOCK_THREAD_CPUTIME_ID =
     Inr (AsNanoseconds NANOS (AsNative (nanos_sub (current_RunTime c) (kget_monotonic_time c))))"
| "kget_clock_time_offset_ns c CLOCK_MONOTONIC = Inr 0"
| "kget_clock_time_offset_ns c CLOCK_MONOTONIC_RAW = Inr 0"
| "kget_clock_time_offset_ns c CLOCK_MONOTONIC_COARSE = Inr 0"
| "kget_clock_time_offset_ns c CLOCK_BOOTTIME = Inr 0"
| "kget_clock_time_offset_ns c CLOCK_BOOTTIME_ALARM = Inr 0"
| "kget_clock_time_offset_ns c (CLOCK_OTHER _) = Inl INVAL"

definition kget_clock_time_ns :: "clock_state \<Rightarrow> clockid_t \<Rightarrow> i64 result" where
  "kget_clock_time_ns c clockID =
     (case kget_clock_time_offset_ns c clockID of
        Inl result \<Rightarrow> Inl result
      | Inr offset \<Rightarrow> Inr (kget_monotonic_time_ns c + offset))"

definition kget_clock_time :: "clock_state \<Rightarrow> clockid_t \<Rightarrow> TimeValNanos result" where
  "kget_clock_time c clockID =
     (case kget_clock_time_ns c clockID of
        Inl result \<Rightarrow> Inl result
      | Inr time \<Rightarrow> Inr (FromNative (FromNanoseconds NANOS time)))"

definition kget_clock_time_offset :: "clock_state \<Rightarrow> clockid_t \<Rightarrow> TimeValNanos result" where
  "kget_clock_time_offset c clockID =
     (case kget_clock_time_offset_ns c clockID of
        Inl result \<Rightarrow> Inl result
      | Inr offset \<Rightarrow> Inr (FromNative (FromNanoseconds NANOS offset)))"

definition kconvert_clock_to_monotonic_trw :: "clock_state \<Rightarrow> clockid_t \<Rightarrow> TimeValNanos \<Rightarrow> TimeValNanos result" where
  "kconvert_clock_to_monotonic_trw c clockID clockTime =
     (if \<not> nanos_IsInfinit clockTime
      then (case kget_clock_time_offset c clockID of
              Inl result \<Rightarrow> Inl result
            | Inr offset \<Rightarrow> Inr (nanos_sub clockTime offset))
      else Inr nanos_infinit)"

definition kconvert_clock_to_monotonic :: "clock_state \<Rightarrow> clockid_t \<Rightarrow> TimeValNanos \<Rightarrow> TimeValNanos result" where
  "kconvert_clock_to_monotonic c clockID clockTime =
     (case kget_clock_time_offset c clockID of
        Inl result \<Rightarrow> Inl result
      | Inr offset \<Rightarrow> Inr (nanos_sub clockTime offset))"

text \<open>The relative timeout of the \<open>...Timeout\<close> calls as a deadline.\<close>

definition timeout_deadline :: "clock_state \<Rightarrow> TimeValNanos \<Rightarrow> TimeValNanos" where
  "timeout_deadline c timeout =
     (if \<not> nanos_IsInfinit timeout then nanos_add (kget_monotonic_time c) timeout else nanos_infinit)"

section \<open>Lemmas\<close>

lemma sdiv_one [simp]: "k sdiv (1 :: int) = k"
  by (simp add: signed_divide_int_def sgn_mult_abs)

lemma i64_div_one [simp]: "i64_div v 1 = v"
  by (simp add: i64_div_def)

lemma nanos_identity [simp]: "FromNanoseconds NANOS v = v" "AsNanoseconds NANOS v = v"
  by (simp_all add: FromNanoseconds_def AsNanoseconds_def)

lemma kget_clock_time_as_offset:
  "kget_clock_time c k = map_sum id (\<lambda>off. nanos_add (kget_monotonic_time c) off) (kget_clock_time_offset c k)"
  by (simp add: kget_clock_time_def kget_clock_time_ns_def kget_clock_time_offset_def kget_monotonic_time_def
    nanos_add_def tv_plus_def split: sum.split)

definition monotonic_clock :: "clockid_t \<Rightarrow> bool" where
  "monotonic_clock k \<longleftrightarrow>
     k = CLOCK_MONOTONIC \<or> k = CLOCK_MONOTONIC_RAW \<or> k = CLOCK_MONOTONIC_COARSE \<or>
     k = CLOCK_BOOTTIME \<or> k = CLOCK_BOOTTIME_ALARM"

lemma kconvert_monotonic [simp]:
  "monotonic_clock k \<Longrightarrow> kconvert_clock_to_monotonic c k t = Inr t"
  by (cases t) (auto simp: monotonic_clock_def kconvert_clock_to_monotonic_def kget_clock_time_offset_def
    nanos_sub_def tv_minus_def)

lemma kget_real_time_after_set:
  "kget_real_time (fst (snd (kset_real_time t rtc c))) = t"
  by (cases t) (simp add: kset_real_time_def kget_real_time_def kget_real_time_ns_def kget_monotonic_time_ns_def
    kget_monotonic_time_def nanos_sub_def tv_minus_def)

text \<open>A deadline converted to the monotonic clock is reached by the monotonic clock exactly when the
  original deadline is reached by its own clock, as long as neither the shift of the deadline nor
  the reading of the clock overflows 63 bits.
\<close>

theorem kconvert_clock_deadline_agrees:
  assumes "kconvert_clock_to_monotonic c k t = Inr d" "kget_clock_time c k = Inr now"
    and "kget_clock_time_offset c k = Inr off"
    and "\<bar>sint (AsNative t) - sint (AsNative off)\<bar> < 2 ^ 63"
    and "\<bar>sint (s_SystemTimeNS c) + sint (AsNative off)\<bar> < 2 ^ 63"
  shows "(kget_monotonic_time c < d) = (now < t)"
proof -
  have d: "d = nanos_sub t off" using assms(1,3) by (simp add: kconvert_clock_to_monotonic_def)
  have now: "now = nanos_add (kget_monotonic_time c) off"
    using assms(2,3) by (simp add: kget_clock_time_as_offset)
  have m: "sint (AsNative (kget_monotonic_time c)) = sint (s_SystemTimeNS c)"
    by (simp add: kget_monotonic_time_def kget_monotonic_time_ns_def)
  have "AsNative (kget_monotonic_time c) = s_SystemTimeNS c"
    by (simp add: kget_monotonic_time_def kget_monotonic_time_ns_def)
  then have "sint (AsNative now) = sint (s_SystemTimeNS c) + sint (AsNative off)"
    unfolding now nanos_add_native using assms(5) by (simp only: sint_add_i64)
  moreover have "sint (AsNative d) = sint (AsNative t) - sint (AsNative off)"
    unfolding d nanos_sub_native using assms(4) by (rule sint_diff_i64)
  ultimately show ?thesis by (auto simp: TimeValNanos_less_iff m)
qed

theorem kconvert_clock_deadline_agrees_witness:
  "\<exists>c. \<exists>d. kconvert_clock_to_monotonic c CLOCK_REALTIME (FromNative 1005) = Inr d \<and>
     (kget_monotonic_time c < d) = (FromNative 1003 < FromNative 1005)"
proof -
  let ?c = "\<lparr>s_SystemTimeNS = 3, s_RealTime = FromNative 1000, idle_RunTime = FromNative 0, current_RunTime = FromNative 0\<rparr>"
  have "kconvert_clock_to_monotonic ?c CLOCK_REALTIME (FromNative 1005) = Inr (FromNative 5)"
    by (simp add: kconvert_clock_to_monotonic_def kget_clock_time_offset_def nanos_sub_def tv_minus_def)
  moreover have "kget_clock_time ?c CLOCK_REALTIME = Inr (FromNative 1003)"
    by (simp add: kget_clock_time_def kget_clock_time_ns_def kget_monotonic_time_ns_def)
  moreover have "kget_clock_time_offset ?c CLOCK_REALTIME = Inr (FromNative 1000)"
    by (simp add: kget_clock_time_offset_def)
  ultimately have "(kget_monotonic_time ?c < FromNative 5) = (FromNative 1003 < FromNative 1005)"
    by (rule kconvert_clock_deadline_agrees) simp_all
  then show ?thesis
    using \<open>kconvert_clock_to_monotonic ?c CLOCK_REALTIME (FromNative 1005) = Inr (FromNative 5)\<close> by blast
qed

text \<open>
  The variant that does not throw subtracts the offset from infinity too: on the CPU-time clocks, whose
  offset is negative, an infinite deadline becomes one in the distant past.
\<close>

theorem kconvert_infinit_overflows:
  "\<exists>c. \<exists>d. kconvert_clock_to_monotonic c CLOCK_PROCESS_CPUTIME_ID nanos_infinit = Inr d \<and>
    d < kget_monotonic_time c \<and> \<not> nanos_IsInfinit d \<and>
    kconvert_clock_to_monotonic_trw c CLOCK_PROCESS_CPUTIME_ID nanos_infinit = Inr nanos_infinit"
proof -
  let ?c = "\<lparr>s_SystemTimeNS = 3, s_RealTime = FromNative 0, idle_RunTime = FromNative 1, current_RunTime = FromNative 0\<rparr>"
  have "kconvert_clock_to_monotonic ?c CLOCK_PROCESS_CPUTIME_ID nanos_infinit = Inr (FromNative (infinit + 1))"
    by (simp add: kconvert_clock_to_monotonic_def kget_clock_time_offset_def nanos_sub_def tv_minus_def
      kget_idle_time_ns_def nanos_infinit_def)
  moreover have "infinit + 1 = (0x8000000000000000 :: i64)" by (simp add: infinit_def)
  then have "FromNative (infinit + 1) < kget_monotonic_time ?c"
    by (simp only:) (simp add: TimeValNanos_less_iff kget_monotonic_time_def kget_monotonic_time_ns_def)
  moreover have "\<not> nanos_IsInfinit (FromNative (infinit + 1))"
    by (simp add: nanos_IsInfinit_def IsInfinit_def)
  moreover have "kconvert_clock_to_monotonic_trw ?c CLOCK_PROCESS_CPUTIME_ID nanos_infinit = Inr nanos_infinit"
    by (simp add: kconvert_clock_to_monotonic_trw_def nanos_IsInfinit_def IsInfinit_def nanos_infinit_def)
  ultimately show ?thesis by blast
qed

end
