(* ===== verification/Scheduler.thy ===== *)
theory Scheduler
  imports KTime
begin

text \<open>
  The scheduler: \<open>Kernel/Scheduler.cpp\<close>, the scheduling fields of \<open>KThreadCB\<close>
  (\<open>Kernel/KThreadCB.cpp\<close>), wait nodes (\<open>Include/Kernel/KThreadWaitNode.h\<close>) and the waking of waiters in
  \<open>Kernel/KNamedObject.cpp\<close>.

  The kernel globals are the fields of the record \<open>kernel\<close>. Every definition is a stretch of code that
  runs with interrupts disabled, so it is atomic on the single core; \<open>m_PendSV\<close> is the pending bit of
  the context switch exception that \<open>KSWITCH_CONTEXT\<close> sets. Lists are the abstract lists that theory
  \<open>IntrusiveList\<close> shows the pointer code to implement; a node carries the list it is on, and the
  assertions of \<open>Append\<close> and \<open>Remove\<close> set \<open>m_Panicked\<close>, as \<open>kassert\<close> and \<open>panic\<close> do. Thread-local
  storage pointers, the process-wide counting of stopped threads in \<open>SetState\<close> and the
  debug tracker behind \<open>SetBlockingObject\<close> are left out.
\<close>

section \<open>State\<close>

type_synonym thread_id = nat

datatype ThreadState =
    ThreadState_Running | ThreadState_Ready | ThreadState_Sleeping | ThreadState_Waiting
  | ThreadState_Zombie | ThreadState_Deleted | ThreadState_Stopped

datatype KNamedObject = SyncObject nat | ThreadObject thread_id

datatype KThreadList = ReadyList nat | ZombieList

datatype KThreadWaitList = SleepingThreads | WaitQueue KNamedObject

text \<open>Wait nodes live on the stack of the waiting thread; the number is the depth of the blocking call.\<close>

datatype KThreadWaitNodeRef = WaitNode thread_id nat | SleepNode thread_id nat

record KThreadWaitNode =
  m_ResumeTime :: TimeValNanos
  m_Thread :: "thread_id option"
  m_TargetDeleted :: bool
  m_List :: "KThreadWaitList option"

record KThreadCB =
  m_ThreadState :: ThreadState
  m_PriorityLevel :: nat
  m_ThreadList :: "KThreadList option"
  m_BlockingObject :: "KNamedObject option"
  m_Detached :: bool
  m_StartTime :: TimeValNanos
  m_RunTime :: TimeValNanos
  m_CurrentStackAndPrivilege :: u32
  m_StackTop :: u32
  m_PendingSignals :: u64
  m_BlockedSignals :: u64

record kernel =
  threads :: "thread_id \<Rightarrow> KThreadCB"
  gk_CurrentThread :: thread_id
  gk_InitThread :: thread_id
  gk_IdleThread :: thread_id
  thread_lists :: "KThreadList \<Rightarrow> thread_id list"
  wait_nodes :: "KThreadWaitNodeRef \<Rightarrow> KThreadWaitNode"
  wait_lists :: "KThreadWaitList \<Rightarrow> KThreadWaitNodeRef list"
  g_SystemTimeNS :: i64
  g_RealTime :: TimeValNanos
  m_PendSV :: bool
  m_Panicked :: bool

definition KTHREAD_PRIORITY_MIN :: int where
  "KTHREAD_PRIORITY_MIN = -16"

definition KTHREAD_PRIORITY_LEVELS :: nat where
  "KTHREAD_PRIORITY_LEVELS = nat (15 - KTHREAD_PRIORITY_MIN + 1)"

abbreviation thread_state :: "kernel \<Rightarrow> thread_id \<Rightarrow> ThreadState" where
  "thread_state k t \<equiv> m_ThreadState (threads k t)"

abbreviation priority_level :: "kernel \<Rightarrow> thread_id \<Rightarrow> nat" where
  "priority_level k t \<equiv> m_PriorityLevel (threads k t)"

abbreviation gk_ReadyThreadLists :: "kernel \<Rightarrow> nat \<Rightarrow> thread_id list" where
  "gk_ReadyThreadLists k i \<equiv> thread_lists k (ReadyList i)"

abbreviation gk_SleepingThreads :: "kernel \<Rightarrow> KThreadWaitNodeRef list" where
  "gk_SleepingThreads k \<equiv> wait_lists k SleepingThreads"

abbreviation m_WaitQueue :: "kernel \<Rightarrow> KNamedObject \<Rightarrow> KThreadWaitNodeRef list" where
  "m_WaitQueue k obj \<equiv> wait_lists k (WaitQueue obj)"

text \<open>What the functions of \<open>KTime.cpp\<close> read of the globals.\<close>

definition kclock :: "kernel \<Rightarrow> clock_state" where
  "kclock k =
     \<lparr>s_SystemTimeNS = g_SystemTimeNS k, s_RealTime = g_RealTime k,
      idle_RunTime = m_RunTime (threads k (gk_IdleThread k)),
      current_RunTime = m_RunTime (threads k (gk_CurrentThread k))\<rparr>"

definition kassert :: "bool \<Rightarrow> kernel \<Rightarrow> kernel" where
  "kassert b k = (if b then k else k\<lparr>m_Panicked := True\<rparr>)"

definition KSWITCH_CONTEXT :: "kernel \<Rightarrow> kernel" where
  "KSWITCH_CONTEXT k = k\<lparr>m_PendSV := True\<rparr>"

section \<open>Lists of threads and of wait nodes\<close>

definition upd_thread :: "thread_id \<Rightarrow> (KThreadCB \<Rightarrow> KThreadCB) \<Rightarrow> kernel \<Rightarrow> kernel" where
  "upd_thread t f k = k\<lparr>threads := (threads k)(t := f (threads k t))\<rparr>"

definition upd_node :: "KThreadWaitNodeRef \<Rightarrow> (KThreadWaitNode \<Rightarrow> KThreadWaitNode) \<Rightarrow> kernel \<Rightarrow> kernel" where
  "upd_node n f k = k\<lparr>wait_nodes := (wait_nodes k)(n := f (wait_nodes k n))\<rparr>"

definition thread_list_Append :: "KThreadList \<Rightarrow> thread_id \<Rightarrow> kernel \<Rightarrow> kernel" where
  "thread_list_Append l t k =
     (let k = kassert (m_ThreadList (threads k t) = None) k;
          k = upd_thread t (\<lambda>c. c\<lparr>m_ThreadList := Some l\<rparr>) k
      in k\<lparr>thread_lists := (thread_lists k)(l := thread_lists k l @ [t])\<rparr>)"

definition thread_list_Remove :: "KThreadList \<Rightarrow> thread_id \<Rightarrow> kernel \<Rightarrow> kernel" where
  "thread_list_Remove l t k =
     (let k = kassert (m_ThreadList (threads k t) = Some l) k;
          k = upd_thread t (\<lambda>c. c\<lparr>m_ThreadList := None\<rparr>) k
      in k\<lparr>thread_lists := (thread_lists k)(l := remove1 t (thread_lists k l))\<rparr>)"

definition wait_list_Append :: "KThreadWaitList \<Rightarrow> KThreadWaitNodeRef \<Rightarrow> kernel \<Rightarrow> kernel" where
  "wait_list_Append l n k =
     (let k = kassert (m_List (wait_nodes k n) = None) k;
          k = upd_node n (\<lambda>c. c\<lparr>m_List := Some l\<rparr>) k
      in k\<lparr>wait_lists := (wait_lists k)(l := wait_lists k l @ [n])\<rparr>)"

definition wait_list_Insert :: "KThreadWaitList \<Rightarrow> KThreadWaitNodeRef \<Rightarrow> KThreadWaitNodeRef \<Rightarrow> kernel \<Rightarrow> kernel" where
  "wait_list_Insert l next n k =
     (let k = kassert (m_List (wait_nodes k n) = None) k;
          k = upd_node n (\<lambda>c. c\<lparr>m_List := Some l\<rparr>) k;
          xs = wait_lists k l
      in k\<lparr>wait_lists := (wait_lists k)(l := takeWhile (\<lambda>m. m \<noteq> next) xs @ n # dropWhile (\<lambda>m. m \<noteq> next) xs)\<rparr>)"

definition wait_list_Remove :: "KThreadWaitList \<Rightarrow> KThreadWaitNodeRef \<Rightarrow> kernel \<Rightarrow> kernel" where
  "wait_list_Remove l n k =
     (let k = kassert (m_List (wait_nodes k n) = Some l) k;
          k = upd_node n (\<lambda>c. c\<lparr>m_List := None\<rparr>) k
      in k\<lparr>wait_lists := (wait_lists k)(l := remove1 n (wait_lists k l))\<rparr>)"

definition new_wait_node :: KThreadWaitNode where
  "new_wait_node = \<lparr>m_ResumeTime = FromNative 0, m_Thread = None, m_TargetDeleted = False, m_List = None\<rparr>"

definition Detatch :: "KThreadWaitNodeRef \<Rightarrow> kernel \<Rightarrow> bool \<times> kernel" where
  "Detatch n k =
     (case m_List (wait_nodes k n) of
        Some l \<Rightarrow> (True, wait_list_Remove l n k)
      | None \<Rightarrow> (False, k))"

section \<open>Thread control block\<close>

definition PriToLevel :: "int \<Rightarrow> nat" where
  "PriToLevel priority =
     nat (let level = priority - KTHREAD_PRIORITY_MIN
          in max 0 (min level (int KTHREAD_PRIORITY_LEVELS - 1)))"

definition LevelToPri :: "nat \<Rightarrow> int" where
  "LevelToPri level = int level + KTHREAD_PRIORITY_MIN"

definition SetPriority :: "thread_id \<Rightarrow> int \<Rightarrow> kernel \<Rightarrow> kernel" where
  "SetPriority t priority k = upd_thread t (\<lambda>c. c\<lparr>m_PriorityLevel := PriToLevel priority\<rparr>) k"

definition IsZombie :: "kernel \<Rightarrow> thread_id \<Rightarrow> bool" where
  "IsZombie k t \<longleftrightarrow> thread_state k t = ThreadState_Zombie \<or> thread_state k t = ThreadState_Deleted"

definition SetState :: "thread_id \<Rightarrow> ThreadState \<Rightarrow> kernel \<Rightarrow> kernel" where
  "SetState t state k =
     (if state \<noteq> thread_state k t then upd_thread t (\<lambda>c. c\<lparr>m_ThreadState := state\<rparr>) k else k)"

definition SetBlockingObject :: "thread_id \<Rightarrow> KNamedObject option \<Rightarrow> kernel \<Rightarrow> kernel" where
  "SetBlockingObject t waitObject k = upd_thread t (\<lambda>c. c\<lparr>m_BlockingObject := waitObject\<rparr>) k"

section \<open>Making threads ready\<close>

definition add_thread_to_ready_list :: "thread_id \<Rightarrow> kernel \<Rightarrow> kernel" where
  "add_thread_to_ready_list t k =
     (let k = SetState t ThreadState_Ready k
      in thread_list_Append (ReadyList (priority_level k t)) t k)"

definition kwakeup_init_thread :: "kernel \<Rightarrow> kernel" where
  "kwakeup_init_thread k =
     (if thread_state k (gk_InitThread k) = ThreadState_Waiting
      then add_thread_to_ready_list (gk_InitThread k) k else k)"

definition add_thread_to_zombie_list :: "thread_id \<Rightarrow> kernel \<Rightarrow> kernel" where
  "add_thread_to_zombie_list t k = kwakeup_init_thread (thread_list_Append ZombieList t k)"

definition stop_thread :: "kernel \<Rightarrow> kernel" where
  "stop_thread k = KSWITCH_CONTEXT (SetState (gk_CurrentThread k) ThreadState_Stopped k)"

definition wakeup_thread :: "thread_id \<Rightarrow> bool \<Rightarrow> kernel \<Rightarrow> PErrorCode \<times> kernel" where
  "wakeup_thread t wakeupSuspended k =
     (if IsZombie k t then (SRCH, k)
      else let state = thread_state k t
           in if state = ThreadState_Sleeping \<or> state = ThreadState_Waiting \<or>
                 (wakeupSuspended \<and> state = ThreadState_Stopped)
              then (Success, add_thread_to_ready_list t k)
              else (INVAL, k))"

text \<open>
  The loops that empty a wait list take \<open>GetFirst()\<close> and then remove it, so they walk down the list; the
  recursion is on the list at the start. \<open>wake_node\<close> is the test they share.
\<close>

definition wake_node :: "nat \<Rightarrow> KThreadWaitNodeRef \<Rightarrow> kernel \<Rightarrow> bool \<times> kernel" where
  "wake_node ourPriLevel n k =
     (case m_Thread (wait_nodes k n) of
        None \<Rightarrow> (False, k)
      | Some t \<Rightarrow>
          if thread_state k t = ThreadState_Sleeping \<or> thread_state k t = ThreadState_Waiting
          then (priority_level k t > ourPriLevel, add_thread_to_ready_list t k)
          else (False, k))"

fun wakeup_loop :: "KNamedObject \<Rightarrow> nat \<Rightarrow> KThreadWaitNodeRef list \<Rightarrow> nat \<Rightarrow> bool \<times> kernel \<Rightarrow> bool \<times> kernel" where
  "wakeup_loop obj ourPriLevel [] maxCount s = s"
| "wakeup_loop obj ourPriLevel (n # ns) 0 s = s"
| "wakeup_loop obj ourPriLevel (n # ns) (Suc maxCount) (needSchedule, k) =
     (let (higher, k) = wake_node ourPriLevel n k;
          k = wait_list_Remove (WaitQueue obj) n k
      in wakeup_loop obj ourPriLevel ns maxCount (needSchedule \<or> higher, k))"

text \<open>A \<open>maxCount\<close> of 0 is replaced by the largest \<open>int\<close>; a negative one never reaches 0 before the list ends.\<close>

definition wakeup_wait_queue :: "KNamedObject \<Rightarrow> int \<Rightarrow> kernel \<Rightarrow> bool \<times> kernel" where
  "wakeup_wait_queue obj maxCount k =
     (let ourPriLevel = priority_level k (gk_CurrentThread k);
          maxCount = (if maxCount = 0 then 2 ^ 31 - 1 else maxCount);
          queue = m_WaitQueue k obj;
          count = (if maxCount < 0 then length queue else nat maxCount)
      in wakeup_loop obj ourPriLevel queue count (False, k))"

fun destroy_loop :: "KNamedObject \<Rightarrow> nat \<Rightarrow> KThreadWaitNodeRef list \<Rightarrow> bool \<times> kernel \<Rightarrow> bool \<times> kernel" where
  "destroy_loop obj ourPriLevel [] s = s"
| "destroy_loop obj ourPriLevel (n # ns) (needSchedule, k) =
     (let k = upd_node n (\<lambda>c. c\<lparr>m_TargetDeleted := True\<rparr>) k;
          (higher, k) = wake_node ourPriLevel n k;
          k = wait_list_Remove (WaitQueue obj) n k
      in destroy_loop obj ourPriLevel ns (needSchedule \<or> higher, k))"

definition destroy_KNamedObject :: "KNamedObject \<Rightarrow> kernel \<Rightarrow> kernel" where
  "destroy_KNamedObject obj k =
     (let (needSchedule, k) =
        destroy_loop obj (priority_level k (gk_CurrentThread k)) (m_WaitQueue k obj) (False, k)
      in if needSchedule then KSWITCH_CONTEXT k else k)"

section \<open>Sleeping\<close>

text \<open>The first node of the list that does not resume before the new one.\<close>

definition add_to_sleep_list :: "KThreadWaitNodeRef \<Rightarrow> kernel \<Rightarrow> kernel" where
  "add_to_sleep_list n k =
     (case find (\<lambda>i. m_ResumeTime (wait_nodes k n) \<le> m_ResumeTime (wait_nodes k i)) (gk_SleepingThreads k) of
        Some i \<Rightarrow> wait_list_Insert SleepingThreads i n k
      | None \<Rightarrow>
          if m_List (wait_nodes k n) = None then wait_list_Append SleepingThreads n k else k)"

definition remove_from_sleep_list :: "KThreadWaitNodeRef \<Rightarrow> kernel \<Rightarrow> kernel" where
  "remove_from_sleep_list n k = wait_list_Remove SleepingThreads n k"

fun wakeup_sleeping_loop :: "KThreadWaitNodeRef list \<Rightarrow> kernel \<Rightarrow> kernel" where
  "wakeup_sleeping_loop [] k = k"
| "wakeup_sleeping_loop (n # ns) k =
     (if m_ResumeTime (wait_nodes k n) \<le> FromNative (FromNanoseconds NANOS (g_SystemTimeNS k))
      then let k = (case m_Thread (wait_nodes k n) of
                      Some t \<Rightarrow> if thread_state k t = ThreadState_Sleeping
                                then add_thread_to_ready_list t k else k
                    | None \<Rightarrow> k);
               k = wait_list_Remove SleepingThreads n k
           in wakeup_sleeping_loop ns k
      else k)"

definition wakeup_sleeping_threads :: "kernel \<Rightarrow> kernel" where
  "wakeup_sleeping_threads k = wakeup_sleeping_loop (gk_SleepingThreads k) k"

text \<open>The watchdog and the cycle counter \<open>s_SystemTicks\<close> are left out.\<close>

definition SysTick_Handler :: "kernel \<Rightarrow> kernel" where
  "SysTick_Handler k =
     (let k = k\<lparr>g_SystemTimeNS := g_SystemTimeNS k + 1000000\<rparr>
      in KSWITCH_CONTEXT (wakeup_sleeping_threads k))"

section \<open>The context switch\<close>

fun select_loop :: "thread_id \<Rightarrow> nat \<Rightarrow> kernel \<Rightarrow> kernel" where
  "select_loop prevThread 0 k = k"
| "select_loop prevThread (Suc i) k =
     (case gk_ReadyThreadLists k i of
        [] \<Rightarrow> select_loop prevThread i k
      | nextThread # _ \<Rightarrow>
          if thread_state k prevThread \<noteq> ThreadState_Running \<or> i \<ge> priority_level k prevThread
          then let k = thread_list_Remove (ReadyList i) nextThread k;
                   k = (if thread_state k prevThread = ThreadState_Running
                        then add_thread_to_ready_list prevThread k else k);
                   k = SetState nextThread ThreadState_Running k
               in k\<lparr>gk_CurrentThread := nextThread\<rparr>
          else select_loop prevThread i k)"

definition select_core :: "kernel \<Rightarrow> kernel" where
  "select_core k =
     (let prevThread = gk_CurrentThread k;
          k = select_loop prevThread KTHREAD_PRIORITY_LEVELS k
      in if thread_state k prevThread = ThreadState_Zombie
         then if m_Detached (threads k prevThread) then add_thread_to_zombie_list prevThread k
              else snd (wakeup_wait_queue (ThreadObject prevThread) 0 k)
         else k)"

definition HasUnblockedPendingSignals :: "kernel \<Rightarrow> thread_id \<Rightarrow> bool" where
  "HasUnblockedPendingSignals k t \<longleftrightarrow>
     m_PendingSignals (threads k t) AND NOT (m_BlockedSignals (threads k t)) \<noteq> 0"

text \<open>
  \<open>curTime\<close> is the reading of the high resolution clock and \<open>process_signals\<close> stands for
  \<open>kprocess_pending_signals\<close>, which builds a signal frame below the stack pointer it gets and returns the
  new stack pointer. The result is the stack pointer and privilege bit to resume with.
\<close>

definition resume_selected ::
  "(kernel \<Rightarrow> u32 \<Rightarrow> u32) \<Rightarrow> TimeValNanos \<Rightarrow> thread_id \<Rightarrow> kernel \<Rightarrow> u32 \<times> kernel" where
  "resume_selected process_signals curTime prevThread k =
     (let k = upd_thread prevThread (\<lambda>c. c\<lparr>m_RunTime :=
                nanos_add (m_RunTime c) (nanos_sub curTime (m_StartTime c))\<rparr>) k;
          k = upd_thread (gk_CurrentThread k) (\<lambda>c. c\<lparr>m_StartTime := curTime\<rparr>) k;
          cur = gk_CurrentThread k;
          sp = m_CurrentStackAndPrivilege (threads k cur);
          k = (if sp AND 1 \<noteq> 0 \<and> HasUnblockedPendingSignals k cur
               then upd_thread cur (\<lambda>c. c\<lparr>m_CurrentStackAndPrivilege :=
                      (sp AND 1) OR process_signals k (sp AND NOT 1)\<rparr>) k
               else k)
      in (m_CurrentStackAndPrivilege (threads k cur), k))"

definition select_thread ::
  "(kernel \<Rightarrow> u32 \<Rightarrow> u32) \<Rightarrow> TimeValNanos \<Rightarrow> u32 \<Rightarrow> u32 \<Rightarrow> kernel \<Rightarrow> u32 \<times> kernel" where
  "select_thread process_signals curTime currentStack controlReg k =
     (let k = k\<lparr>m_PendSV := False\<rparr>;
          prevThread = gk_CurrentThread k;
          k = upd_thread prevThread (\<lambda>c. c\<lparr>m_CurrentStackAndPrivilege := currentStack OR (controlReg AND 1)\<rparr>) k
      in if currentStack \<le> m_StackTop (threads k prevThread)
         then (m_CurrentStackAndPrivilege (threads k prevThread), k\<lparr>m_Panicked := True\<rparr>)
         else resume_selected process_signals curTime prevThread (select_core k))"

text \<open>Leaving a thread: the end of \<open>kthread_exit\<close>, and \<open>kyield\<close>.\<close>

definition kthread_exit :: "kernel \<Rightarrow> kernel" where
  "kthread_exit k = KSWITCH_CONTEXT (SetState (gk_CurrentThread k) ThreadState_Zombie k)"

definition kyield :: "kernel \<Rightarrow> PErrorCode \<times> kernel" where
  "kyield k = (Success, KSWITCH_CONTEXT k)"

text \<open>
  \<open>ksnooze_until_ns\<close>: the part before the context switch and the part after it, at nesting depth \<open>d\<close>.
  The code pends the context switch right after its critical section; only interrupt handlers run in
  between, and they see the same lists.
\<close>

definition ksnooze_enter :: "bool \<Rightarrow> nat \<Rightarrow> i64 \<Rightarrow> kernel \<Rightarrow> PErrorCode option \<times> kernel" where
  "ksnooze_enter canceled d resumeTimeNanos k =
     (let thread = gk_CurrentThread k;
          resumeTime = FromNative (FromNanoseconds NANOS resumeTimeNanos);
          n = SleepNode thread d;
          k = upd_node n (\<lambda>_. new_wait_node\<lparr>m_Thread := Some thread,
                m_ResumeTime := nanos_add resumeTime (FromNative 1000000)\<rparr>) k
      in if canceled then (Some INTR, k)
         else (None, KSWITCH_CONTEXT (SetState thread ThreadState_Sleeping (add_to_sleep_list n k))))"

definition ksnooze_resume :: "thread_id \<Rightarrow> nat \<Rightarrow> kernel \<Rightarrow> PErrorCode \<times> kernel" where
  "ksnooze_resume thread d k =
     (let n = SleepNode thread d;
          k = snd (Detatch n k)
      in (if m_ResumeTime (wait_nodes k n) \<le> kget_monotonic_time (kclock k) then Success else INTR, k))"

section \<open>Creating threads and changing their priority\<close>

text \<open>
  The constructor of \<open>KThreadCB\<close>: \<open>stackBuffer\<close> is the buffer given in the attributes or the allocated
  one. A fresh thread is not linked into any list.
\<close>

record PThreadAttribs =
  a_Priority :: int
  a_Detached :: bool
  a_StackSize :: u32

definition KThreadCB_new :: "PThreadAttribs option \<Rightarrow> u32 \<Rightarrow> KThreadCB" where
  "KThreadCB_new attribs stackBuffer =
     (let priority = (case attribs of Some a \<Rightarrow> a_Priority a | None \<Rightarrow> 0);
          detached = (case attribs of Some a \<Rightarrow> a_Detached a | None \<Rightarrow> True);
          stackSize = (case attribs of
             Some a \<Rightarrow> if a_StackSize a \<noteq> 0 then a_StackSize a AND NOT 7 else 65536
           | None \<Rightarrow> 65536)
      in \<lparr>m_ThreadState = ThreadState_Ready, m_PriorityLevel = PriToLevel priority, m_ThreadList = None,
          m_BlockingObject = None, m_Detached = detached, m_StartTime = FromNative 0, m_RunTime = FromNative 0,
          m_CurrentStackAndPrivilege = (stackBuffer - 4 + stackSize) AND NOT 7, m_StackTop = stackBuffer,
          m_PendingSignals = 0, m_BlockedSignals = 0\<rparr>)"

definition spawn_thread :: "thread_id \<Rightarrow> KThreadCB \<Rightarrow> kernel \<Rightarrow> kernel" where
  "spawn_thread t cb k = add_thread_to_ready_list t (k\<lparr>threads := (threads k)(t := cb)\<rparr>)"

text \<open>The state in which \<open>start_scheduler\<close> lets the idle thread run, with the init thread made ready.\<close>

definition deleted_thread :: KThreadCB where
  "deleted_thread = (KThreadCB_new None 0)\<lparr>m_ThreadState := ThreadState_Deleted\<rparr>"

definition start_scheduler :: "thread_id \<Rightarrow> thread_id \<Rightarrow> u32 \<Rightarrow> u32 \<Rightarrow> u32 \<Rightarrow> kernel" where
  "start_scheduler idle init idleStack initStack initStackSize =
     (let k = \<lparr>threads = (\<lambda>_. deleted_thread)(idle := KThreadCB_new (Some \<lparr>a_Priority = KTHREAD_PRIORITY_MIN, a_Detached = True, a_StackSize = 256\<rparr>) idleStack),
               gk_CurrentThread = idle, gk_InitThread = init, gk_IdleThread = idle,
               thread_lists = (\<lambda>_. []), wait_nodes = (\<lambda>_. new_wait_node), wait_lists = (\<lambda>_. []),
               g_SystemTimeNS = 0, g_RealTime = FromNative 0, m_PendSV = False, m_Panicked = False\<rparr>;
          k = SetState idle ThreadState_Running k
      in spawn_thread init (KThreadCB_new (Some \<lparr>a_Priority = 0, a_Detached = True, a_StackSize = initStackSize\<rparr>) initStack) k)"

text \<open>\<open>GetState() != Deleted\<close> is what the code tests; a handle that names no thread is \<open>None\<close>.\<close>

definition kthread_set_priority :: "thread_id option \<Rightarrow> int \<Rightarrow> kernel \<Rightarrow> PErrorCode \<times> kernel" where
  "kthread_set_priority handle priority k =
     (case handle of
        None \<Rightarrow> (INVAL, k)
      | Some t \<Rightarrow>
          if thread_state k t \<noteq> ThreadState_Deleted
          then let prevPriorityLevel = priority_level k t;
                   k = SetPriority t priority k
               in (Success, if t \<noteq> gk_CurrentThread k \<and> priority_level k t > prevPriorityLevel
                            then KSWITCH_CONTEXT k else k)
          else (INVAL, k))"

section \<open>Invariants\<close>

text \<open>
  \<open>sched_core\<close>: no assertion has failed, a thread is on a ready list exactly when it is ready, and then
  on one only. \<open>wait_core\<close>: the list a wait node names is the one it is on, and the sleep list is in
  the order of the resume times.
\<close>

definition sched_core :: "kernel \<Rightarrow> bool" where
  "sched_core k \<longleftrightarrow>
     \<not> m_Panicked k \<and>
     (\<forall>l. distinct (thread_lists k l)) \<and>
     (\<forall>l t. t \<in> set (thread_lists k l) \<longleftrightarrow> m_ThreadList (threads k t) = Some l) \<and>
     (\<forall>t. priority_level k t < KTHREAD_PRIORITY_LEVELS) \<and>
     (\<forall>t i. m_ThreadList (threads k t) = Some (ReadyList i) \<longrightarrow> i < KTHREAD_PRIORITY_LEVELS) \<and>
     (\<forall>t. thread_state k t = ThreadState_Ready \<longleftrightarrow> (\<exists>i. m_ThreadList (threads k t) = Some (ReadyList i))) \<and>
     (\<forall>t. m_ThreadList (threads k t) = Some ZombieList \<longrightarrow> IsZombie k t)"

definition wait_core :: "kernel \<Rightarrow> bool" where
  "wait_core k \<longleftrightarrow>
     (\<forall>l. distinct (wait_lists k l)) \<and>
     (\<forall>l n. n \<in> set (wait_lists k l) \<longleftrightarrow> m_List (wait_nodes k n) = Some l) \<and>
     sorted (map (\<lambda>n. m_ResumeTime (wait_nodes k n)) (gk_SleepingThreads k))"

definition running_unique :: "kernel \<Rightarrow> bool" where
  "running_unique k \<longleftrightarrow> (\<forall>t. thread_state k t = ThreadState_Running \<longrightarrow> t = gk_CurrentThread k)"

text \<open>The parts of the state that waking threads does not change.\<close>

definition same_globals :: "kernel \<Rightarrow> kernel \<Rightarrow> bool" where
  "same_globals k k' \<longleftrightarrow>
     gk_CurrentThread k' = gk_CurrentThread k \<and> gk_InitThread k' = gk_InitThread k \<and>
     gk_IdleThread k' = gk_IdleThread k \<and> g_SystemTimeNS k' = g_SystemTimeNS k \<and>
     g_RealTime k' = g_RealTime k \<and> m_PendSV k' = m_PendSV k \<and>
     (\<forall>t. priority_level k' t = priority_level k t \<and> m_Detached (threads k' t) = m_Detached (threads k t))"

definition same_nodes :: "kernel \<Rightarrow> kernel \<Rightarrow> bool" where
  "same_nodes k k' \<longleftrightarrow>
     (\<forall>n. m_ResumeTime (wait_nodes k' n) = m_ResumeTime (wait_nodes k n) \<and>
          m_Thread (wait_nodes k' n) = m_Thread (wait_nodes k n) \<and>
          m_TargetDeleted (wait_nodes k' n) = m_TargetDeleted (wait_nodes k n))"

definition blocked :: "ThreadState \<Rightarrow> bool" where
  "blocked s \<longleftrightarrow> s = ThreadState_Sleeping \<or> s = ThreadState_Waiting"

lemma sched_core_cong:
  "sched_core k \<Longrightarrow> threads k' = threads k \<Longrightarrow> thread_lists k' = thread_lists k \<Longrightarrow> \<not> m_Panicked k' \<Longrightarrow>
   sched_core k'"
  by (simp add: sched_core_def IsZombie_def)

lemma wait_core_cong:
  "wait_core k \<Longrightarrow> wait_nodes k' = wait_nodes k \<Longrightarrow> wait_lists k' = wait_lists k \<Longrightarrow> wait_core k'"
  by (simp add: wait_core_def)

lemma same_refl [simp]: "same_globals k k" "same_nodes k k"
  by (simp_all add: same_globals_def same_nodes_def)

lemma same_trans:
  "same_globals k1 k2 \<Longrightarrow> same_globals k2 k3 \<Longrightarrow> same_globals k1 k3"
  "same_nodes k1 k2 \<Longrightarrow> same_nodes k2 k3 \<Longrightarrow> same_nodes k1 k3"
  by (simp_all add: same_globals_def same_nodes_def)

lemma PriToLevel_bound: "PriToLevel p < KTHREAD_PRIORITY_LEVELS"
  by (simp add: PriToLevel_def KTHREAD_PRIORITY_LEVELS_def KTHREAD_PRIORITY_MIN_def)

lemma priority_roundtrip:
  "-16 \<le> p \<Longrightarrow> p \<le> 15 \<Longrightarrow> LevelToPri (PriToLevel p) = p"
  by (simp add: PriToLevel_def LevelToPri_def KTHREAD_PRIORITY_LEVELS_def KTHREAD_PRIORITY_MIN_def)

lemma SetState_simps:
  "thread_state (SetState t s k) u = (if u = t then s else thread_state k u)"
  "m_ThreadList (threads (SetState t s k) u) = m_ThreadList (threads k u)"
  "priority_level (SetState t s k) u = priority_level k u"
  "m_Detached (threads (SetState t s k) u) = m_Detached (threads k u)"
  "thread_lists (SetState t s k) = thread_lists k" "wait_lists (SetState t s k) = wait_lists k"
  "wait_nodes (SetState t s k) = wait_nodes k" "m_Panicked (SetState t s k) = m_Panicked k"
  "gk_CurrentThread (SetState t s k) = gk_CurrentThread k" "m_PendSV (SetState t s k) = m_PendSV k"
  "gk_InitThread (SetState t s k) = gk_InitThread k" "gk_IdleThread (SetState t s k) = gk_IdleThread k"
  "g_SystemTimeNS (SetState t s k) = g_SystemTimeNS k" "g_RealTime (SetState t s k) = g_RealTime k"
  by (simp_all add: SetState_def upd_thread_def)

text \<open>
  During a context switch the next thread is off its list but still marked ready: \<open>sched_core_ex X\<close> is the
  invariant except for the threads in \<open>X\<close>.
\<close>

definition sched_core_ex :: "thread_id set \<Rightarrow> kernel \<Rightarrow> bool" where
  "sched_core_ex X k \<longleftrightarrow>
     \<not> m_Panicked k \<and>
     (\<forall>l. distinct (thread_lists k l)) \<and>
     (\<forall>l t. t \<in> set (thread_lists k l) \<longleftrightarrow> m_ThreadList (threads k t) = Some l) \<and>
     (\<forall>t. priority_level k t < KTHREAD_PRIORITY_LEVELS) \<and>
     (\<forall>t i. m_ThreadList (threads k t) = Some (ReadyList i) \<longrightarrow> i < KTHREAD_PRIORITY_LEVELS) \<and>
     (\<forall>t\<in>X. m_ThreadList (threads k t) = None) \<and>
     (\<forall>t. t \<notin> X \<longrightarrow> (thread_state k t = ThreadState_Ready \<longleftrightarrow> (\<exists>i. m_ThreadList (threads k t) = Some (ReadyList i)))) \<and>
     (\<forall>t. m_ThreadList (threads k t) = Some ZombieList \<longrightarrow> IsZombie k t)"

lemma sched_core_ex_empty: "sched_core_ex {} k \<longleftrightarrow> sched_core k"
  by (simp add: sched_core_ex_def sched_core_def)

lemma ready_facts_ex:
  assumes core: "sched_core_ex X k" and st: "thread_state k t \<noteq> ThreadState_Ready" "\<not> IsZombie k t" "t \<notin> X"
  defines "k' \<equiv> add_thread_to_ready_list t k"
  shows "sched_core_ex X k'" "thread_state k' = (thread_state k)(t := ThreadState_Ready)"
    "same_globals k k'" "wait_lists k' = wait_lists k" "wait_nodes k' = wait_nodes k"
    "thread_lists k' = (thread_lists k)(ReadyList (priority_level k t) := gk_ReadyThreadLists k (priority_level k t) @ [t])"
    "m_ThreadList (threads k' u) = (if u = t then Some (ReadyList (priority_level k t)) else m_ThreadList (threads k u))"
proof -
  have none: "m_ThreadList (threads k t) = None"
    using core st unfolding sched_core_ex_def by (metis KThreadList.exhaust option.exhaust)
  note d = k'_def add_thread_to_ready_list_def thread_list_Append_def Let_def kassert_def upd_thread_def SetState_simps
  show "thread_state k' = (thread_state k)(t := ThreadState_Ready)" "same_globals k k'" "wait_lists k' = wait_lists k"
    "wait_nodes k' = wait_nodes k"
    and l: "thread_lists k' = (thread_lists k)(ReadyList (priority_level k t) := gk_ReadyThreadLists k (priority_level k t) @ [t])"
    using none by (auto simp: d same_globals_def)
  show m: "m_ThreadList (threads k' u) = (if u = t then Some (ReadyList (priority_level k t)) else m_ThreadList (threads k u))" for u
    using none by (simp add: d)
  have nin: "t \<notin> set (thread_lists k x)" for x using core none by (simp add: sched_core_ex_def)
  have p: "\<not> m_Panicked k'" using none core by (simp add: d sched_core_ex_def)
  have s: "thread_state k' u = (if u = t then ThreadState_Ready else thread_state k u)" for u by (simp add: d)
  have pr: "priority_level k' u = priority_level k u" for u by (simp add: d)
  show "sched_core_ex X k'"
    unfolding sched_core_ex_def l m s pr IsZombie_def using core nin p st(3)
    by (auto simp: sched_core_ex_def IsZombie_def)
qed

lemma ready_facts:
  assumes core: "sched_core k" and st: "thread_state k t \<noteq> ThreadState_Ready" "\<not> IsZombie k t"
  defines "k' \<equiv> add_thread_to_ready_list t k"
  shows "sched_core k'" "thread_state k' = (thread_state k)(t := ThreadState_Ready)"
    "same_globals k k'" "wait_lists k' = wait_lists k" "wait_nodes k' = wait_nodes k"
    "thread_lists k' = (thread_lists k)(ReadyList (priority_level k t) := gk_ReadyThreadLists k (priority_level k t) @ [t])"
  using ready_facts_ex [of "{}" k t] core st by (simp_all add: k'_def sched_core_ex_empty)

lemma remove_thread_facts:
  assumes core: "sched_core k" and mem: "t \<in> set (gk_ReadyThreadLists k i)"
  defines "k' \<equiv> thread_list_Remove (ReadyList i) t k"
  shows "thread_lists k' = (thread_lists k)(ReadyList i := remove1 t (gk_ReadyThreadLists k i))"
    "m_ThreadList (threads k' u) = (if u = t then None else m_ThreadList (threads k u))"
    "thread_state k' = thread_state k" "same_globals k k'" "wait_lists k' = wait_lists k"
    "wait_nodes k' = wait_nodes k" "\<not> m_Panicked k'"
proof -
  have m: "m_ThreadList (threads k t) = Some (ReadyList i)" and np: "\<not> m_Panicked k"
    using core mem by (auto simp: sched_core_def)
  show "thread_lists k' = (thread_lists k)(ReadyList i := remove1 t (gk_ReadyThreadLists k i))"
    "m_ThreadList (threads k' u) = (if u = t then None else m_ThreadList (threads k u))"
    "thread_state k' = thread_state k" "same_globals k k'" "wait_lists k' = wait_lists k"
    "wait_nodes k' = wait_nodes k" "\<not> m_Panicked k'"
    using m np
    by (auto simp: k'_def thread_list_Remove_def Let_def kassert_def upd_thread_def same_globals_def)
qed

section \<open>Effects of the wait list operations\<close>

lemma wait_list_Remove_facts:
  assumes core: "wait_core k" and mem: "n \<in> set (wait_lists k l)" and np: "\<not> m_Panicked k"
  defines "k' \<equiv> wait_list_Remove l n k"
  shows "wait_core k'" "wait_lists k' = (wait_lists k)(l := remove1 n (wait_lists k l))"
    "threads k' = threads k" "thread_lists k' = thread_lists k" "same_globals k k'" "same_nodes k k'"
    "\<not> m_Panicked k'" "m_List (wait_nodes k' m) = (if m = n then None else m_List (wait_nodes k m))"
proof -
  have m: "m_List (wait_nodes k n) = Some l" using core mem by (simp add: wait_core_def)
  note d = k'_def wait_list_Remove_def Let_def kassert_def upd_node_def
  show l: "wait_lists k' = (wait_lists k)(l := remove1 n (wait_lists k l))"
    and "threads k' = threads k" "thread_lists k' = thread_lists k" "same_globals k k'"
    and sn: "same_nodes k k'" and "\<not> m_Panicked k'"
    and ml: "m_List (wait_nodes k' m) = (if m = n then None else m_List (wait_nodes k m))" for m
    using m np by (auto simp: d same_globals_def same_nodes_def)
  have t: "m_ResumeTime (wait_nodes k' x) = m_ResumeTime (wait_nodes k x)" for x
    using sn by (simp add: same_nodes_def)
  have "sorted (map f (remove1 n xs))" if "sorted (map f xs)" for f :: "_ \<Rightarrow> TimeValNanos" and xs
    using that by (simp add: sorted_map_remove1)
  then show "wait_core k'"
    unfolding wait_core_def l ml t using core mem by (auto simp: wait_core_def)
qed

lemma wait_list_Append_facts:
  fixes obj :: KNamedObject
  assumes core: "wait_core k" and fresh: "m_List (wait_nodes k n) = None" and np: "\<not> m_Panicked k"
  defines "k' \<equiv> wait_list_Append (WaitQueue obj) n k"
  shows "wait_core k'" "wait_lists k' = (wait_lists k)(WaitQueue obj := m_WaitQueue k obj @ [n])"
    "threads k' = threads k" "thread_lists k' = thread_lists k" "same_globals k k'" "same_nodes k k'"
    "\<not> m_Panicked k'" "m_List (wait_nodes k' m) = (if m = n then Some (WaitQueue obj) else m_List (wait_nodes k m))"
proof -
  note d = k'_def wait_list_Append_def Let_def kassert_def upd_node_def
  show l: "wait_lists k' = (wait_lists k)(WaitQueue obj := m_WaitQueue k obj @ [n])"
    and "threads k' = threads k" "thread_lists k' = thread_lists k" "same_globals k k'"
    and sn: "same_nodes k k'" and "\<not> m_Panicked k'"
    and ml: "m_List (wait_nodes k' m) = (if m = n then Some (WaitQueue obj) else m_List (wait_nodes k m))" for m
    using fresh np by (auto simp: d same_globals_def same_nodes_def)
  have t: "m_ResumeTime (wait_nodes k' x) = m_ResumeTime (wait_nodes k x)" for x
    using sn by (simp add: same_nodes_def)
  show "wait_core k'"
    unfolding wait_core_def l ml t using core fresh by (auto simp: wait_core_def)
qed

text \<open>Inserting before the first node that resumes no earlier keeps the list in order.\<close>

lemma sorted_insert_before:
  assumes "sorted (map f xs)" "find (\<lambda>i. f n \<le> f i) xs = Some i" "distinct xs"
  shows "sorted (map f (takeWhile (\<lambda>m. m \<noteq> i) xs @ n # dropWhile (\<lambda>m. m \<noteq> i) xs))"
  using assms
proof (induction xs)
  case (Cons x xs)
  show ?case
  proof (cases "f n \<le> f x")
    case True
    then show ?thesis using Cons.prems by auto
  next
    case False
    have i: "i \<in> set xs" "f n \<le> f i" using Cons.prems False by (auto simp: find_Some_iff)
    with Cons.prems False have "x \<noteq> i" by auto
    moreover have "sorted (map f (takeWhile (\<lambda>m. m \<noteq> i) xs @ n # dropWhile (\<lambda>m. m \<noteq> i) xs))"
      using Cons False by simp
    moreover have "f x \<le> f y" if "y \<in> set (takeWhile (\<lambda>m. m \<noteq> i) xs) \<union> set (dropWhile (\<lambda>m. m \<noteq> i) xs)" for y
      using that Cons.prems(1) by (auto dest: set_takeWhileD set_dropWhileD)
    ultimately show ?thesis using False by auto
  qed
qed simp

lemma set_takeWhile_dropWhile: "set (takeWhile P xs) \<union> set (dropWhile P xs) = set xs"
  by (metis set_append takeWhile_dropWhile_id)

lemma add_to_sleep_list_facts:
  assumes core: "wait_core k" and fresh: "m_List (wait_nodes k n) = None" and np: "\<not> m_Panicked k"
  defines "k' \<equiv> add_to_sleep_list n k"
  shows "wait_core k'" "set (gk_SleepingThreads k') = insert n (set (gk_SleepingThreads k))"
    "\<And>obj. m_WaitQueue k' obj = m_WaitQueue k obj"
    "threads k' = threads k" "thread_lists k' = thread_lists k" "same_globals k k'" "same_nodes k k'"
    "\<not> m_Panicked k'" "m_List (wait_nodes k' m) = (if m = n then Some SleepingThreads else m_List (wait_nodes k m))"
proof -
  let ?f = "\<lambda>i. m_ResumeTime (wait_nodes k i)" and ?xs = "gk_SleepingThreads k"
  note d = wait_list_Append_def wait_list_Insert_def Let_def kassert_def upd_node_def
  have srt: "sorted (map ?f ?xs)" and dst: "distinct ?xs" and nin: "n \<notin> set (wait_lists k l)" for l
    using core fresh by (auto simp: wait_core_def)
  obtain ys where ys: "wait_lists k' = (wait_lists k)(SleepingThreads := ys)"
    and st: "set ys = insert n (set ?xs)" and sr: "sorted (map ?f ys)" and di: "distinct ys"
    and rest: "threads k' = threads k" "thread_lists k' = thread_lists k" "same_globals k k'"
      "same_nodes k k'" "\<not> m_Panicked k'"
      "\<And>m. m_List (wait_nodes k' m) = (if m = n then Some SleepingThreads else m_List (wait_nodes k m))"
  proof (cases "find (\<lambda>i. ?f n \<le> ?f i) ?xs")
    case None
    then have "\<forall>i\<in>set ?xs. ?f i \<le> ?f n" by (auto simp: find_None_iff)
    then show thesis
      using None fresh np srt dst nin
      by (intro that [of "?xs @ [n]"])
        (auto simp: k'_def add_to_sleep_list_def d same_globals_def same_nodes_def sorted_append)
  next
    case (Some i)
    let ?ys = "takeWhile (\<lambda>m. m \<noteq> i) ?xs @ n # dropWhile (\<lambda>m. m \<noteq> i) ?xs"
    have "distinct (takeWhile (\<lambda>m. m \<noteq> i) ?xs @ dropWhile (\<lambda>m. m \<noteq> i) ?xs)"
      using dst by (simp only: takeWhile_dropWhile_id)
    then have "distinct ?ys"
      using nin [of SleepingThreads] by (auto dest: set_takeWhileD set_dropWhileD simp del: takeWhile_dropWhile_id)
    moreover have "set ?ys = insert n (set ?xs)"
      using set_takeWhile_dropWhile [of "\<lambda>m. m \<noteq> i" ?xs] by auto
    ultimately show thesis
      using Some fresh np sorted_insert_before [OF srt Some dst]
      by (intro that [of ?ys])
        (auto simp: k'_def add_to_sleep_list_def d same_globals_def same_nodes_def)
  qed
  have t: "m_ResumeTime (wait_nodes k' x) = ?f x" for x
    using rest(4) by (simp add: same_nodes_def)
  show "wait_core k'"
    unfolding wait_core_def ys rest(6) t using core st sr di nin
    by (auto simp: wait_core_def)
  show "set (gk_SleepingThreads k') = insert n (set ?xs)" "\<And>obj. m_WaitQueue k' obj = m_WaitQueue k obj"
    using ys st by simp_all
  show "threads k' = threads k" "thread_lists k' = thread_lists k" "same_globals k k'" "same_nodes k k'"
    "\<not> m_Panicked k'" "m_List (wait_nodes k' m) = (if m = n then Some SleepingThreads else m_List (wait_nodes k m))"
    using rest by blast+
qed

section \<open>Waking waiters\<close>

text \<open>
  The loops over a wait queue wake blocked threads, the loop over the sleep list only sleeping ones;
  \<open>P\<close> is the test on the state.
\<close>

definition wake_if :: "(ThreadState \<Rightarrow> bool) \<Rightarrow> KThreadWaitNodeRef \<Rightarrow> kernel \<Rightarrow> kernel" where
  "wake_if P n k =
     (case m_Thread (wait_nodes k n) of
        None \<Rightarrow> k
      | Some t \<Rightarrow> if P (thread_state k t) then add_thread_to_ready_list t k else k)"

definition wakes :: "(ThreadState \<Rightarrow> bool) \<Rightarrow> kernel \<Rightarrow> KThreadWaitNodeRef list \<Rightarrow> thread_id \<Rightarrow> bool" where
  "wakes P k ns t \<longleftrightarrow> (\<exists>n\<in>set ns. m_Thread (wait_nodes k n) = Some t) \<and> P (thread_state k t)"

definition woken_state :: "(ThreadState \<Rightarrow> bool) \<Rightarrow> kernel \<Rightarrow> KThreadWaitNodeRef list \<Rightarrow> thread_id \<Rightarrow> ThreadState" where
  "woken_state P k ns t = (if wakes P k ns t then ThreadState_Ready else thread_state k t)"

definition only_blocked :: "(ThreadState \<Rightarrow> bool) \<Rightarrow> bool" where
  "only_blocked P \<longleftrightarrow> (\<forall>s. P s \<longrightarrow> blocked s)"

lemma only_blocked_simps [simp]: "only_blocked blocked" "only_blocked (\<lambda>s. s = ThreadState_Sleeping)"
  by (simp_all add: only_blocked_def blocked_def)

lemma wake_node_wake_if: "snd (wake_node p n k) = wake_if blocked n k"
  by (simp add: wake_node_def wake_if_def blocked_def split: option.split)

lemma wake_if_facts:
  fixes n :: KThreadWaitNodeRef
  assumes "sched_core k" "only_blocked P"
  defines "k' \<equiv> wake_if P n k"
  shows "sched_core k'" "thread_state k' = woken_state P k [n]" "same_globals k k'"
    "wait_lists k' = wait_lists k" "wait_nodes k' = wait_nodes k"
proof -
  have *: "sched_core k' \<and> thread_state k' = woken_state P k [n] \<and> same_globals k k' \<and>
      wait_lists k' = wait_lists k \<and> wait_nodes k' = wait_nodes k"
  proof (cases "\<exists>t. m_Thread (wait_nodes k n) = Some t \<and> P (thread_state k t)")
    case True
    then obtain t where t: "m_Thread (wait_nodes k n) = Some t" "P (thread_state k t)" by blast
    then have st: "thread_state k t \<noteq> ThreadState_Ready" "\<not> IsZombie k t"
      using assms(2) by (force simp: only_blocked_def blocked_def IsZombie_def)+
    have k': "k' = add_thread_to_ready_list t k"
      using t by (simp add: k'_def wake_if_def)
    from ready_facts [OF assms(1) st] t show ?thesis
      by (auto simp: k' woken_state_def wakes_def)
  next
    case False
    then have "k' = k" by (auto simp: k'_def wake_if_def split: option.split)
    then show ?thesis using False assms by (auto simp: woken_state_def wakes_def fun_eq_iff)
  qed
  then show "sched_core k'" "thread_state k' = woken_state P k [n]" "same_globals k k'"
    "wait_lists k' = wait_lists k" "wait_nodes k' = wait_nodes k" by blast+
qed

text \<open>What the loops do to the state, after \<open>ns\<close> have been taken off the front of a list.\<close>

definition woken_up :: "(ThreadState \<Rightarrow> bool) \<Rightarrow> KThreadWaitList \<Rightarrow> KThreadWaitNodeRef list \<Rightarrow> kernel \<Rightarrow> kernel \<Rightarrow> bool" where
  "woken_up P l ns k k' \<longleftrightarrow>
     sched_core k' \<and> wait_core k' \<and> same_globals k k' \<and>
     wait_lists k' = (wait_lists k)(l := drop (length ns) (wait_lists k l)) \<and>
     thread_state k' = woken_state P k ns \<and>
     (\<forall>n. m_ResumeTime (wait_nodes k' n) = m_ResumeTime (wait_nodes k n) \<and>
          m_Thread (wait_nodes k' n) = m_Thread (wait_nodes k n))"

lemma woken_up_Nil: "sched_core k \<Longrightarrow> wait_core k \<Longrightarrow> woken_up P l [] k k"
  by (auto simp: woken_up_def woken_state_def wakes_def)

lemma woken_up_step:
  assumes "sched_core k" "wait_core k" "wait_lists k l = n # ns" "only_blocked P"
  shows "woken_up P l [n] k (wait_list_Remove l n (wake_if P n k))"
    and "same_nodes k (wait_list_Remove l n (wake_if P n k))"
proof -
  let ?k = "wake_if P n k"
  note w = wake_if_facts [OF assms(1,4), of n]
  have wc: "wait_core ?k" using assms(2) by (rule wait_core_cong) (simp_all add: w(4,5))
  have mem: "n \<in> set (wait_lists ?k l)" using assms(3) by (simp add: w(4))
  have np: "\<not> m_Panicked ?k" using w(1) by (simp add: sched_core_def)
  note r = wait_list_Remove_facts [OF wc mem np]
  have "sched_core (wait_list_Remove l n ?k)"
    by (rule sched_core_cong [OF w(1) r(3,4,7)])
  then show "woken_up P l [n] k (wait_list_Remove l n ?k)"
    using r same_trans(1) [OF w(3) r(5)] assms(3) unfolding woken_up_def
    by (simp add: w(2,4,5) same_nodes_def)
  show "same_nodes k (wait_list_Remove l n ?k)"
    using r(6) by (simp add: same_nodes_def w(5))
qed

lemma woken_up_trans:
  assumes "woken_up P l ms k k1" "woken_up P l ns k1 k2" "only_blocked P"
  shows "woken_up P l (ms @ ns) k k2"
proof -
  have "\<not> P ThreadState_Ready" using assms(3) by (auto simp: only_blocked_def blocked_def)
  then have "woken_state P k1 ns = woken_state P k (ms @ ns)"
    using assms(1) by (auto simp: woken_up_def woken_state_def wakes_def fun_eq_iff)
  then show ?thesis
    using assms by (auto simp: woken_up_def add.commute intro: same_trans)
qed

lemma woken_up_head:
  "woken_up P l [n] k k1 \<Longrightarrow> wait_lists k l = n # ns \<Longrightarrow> wait_lists k1 l = ns"
  by (simp add: woken_up_def)

lemma wakeup_loop_facts:
  assumes "sched_core k" "wait_core k" "m_WaitQueue k obj = ns"
  shows "woken_up blocked (WaitQueue obj) (take c ns) k (snd (wakeup_loop obj p ns c (b, k)))"
    and "same_nodes k (snd (wakeup_loop obj p ns c (b, k)))"
proof -
  have "woken_up blocked (WaitQueue obj) (take c ns) k (snd (wakeup_loop obj p ns c (b, k))) \<and>
    same_nodes k (snd (wakeup_loop obj p ns c (b, k)))"
    using assms
  proof (induction ns arbitrary: k b c)
    case Nil
    then show ?case by (simp add: woken_up_Nil)
  next
    case (Cons n ns)
    show ?case
    proof (cases c)
      case 0
      then show ?thesis using Cons.prems by (simp add: woken_up_Nil)
    next
      case (Suc c')
      let ?k = "wait_list_Remove (WaitQueue obj) n (wake_if blocked n k)"
      note st = woken_up_step [OF Cons.prems only_blocked_simps(1)]
      have "sched_core ?k" "wait_core ?k" using st(1) by (auto simp: woken_up_def)
      note ih = Cons.IH [OF this woken_up_head [OF st(1) Cons.prems(3)], where b = "b \<or> fst (wake_node p n k)" and c = c']
      have "wakeup_loop obj p (n # ns) c (b, k) = wakeup_loop obj p ns c' (b \<or> fst (wake_node p n k), ?k)"
        using Suc wake_node_wake_if [of p n k] by (cases "wake_node p n k") (simp add: Let_def)
      with ih woken_up_trans [OF st(1) ih [THEN conjunct1]] same_trans(2) [OF st(2)] show ?thesis
        using Suc by simp
    qed
  qed
  then show "woken_up blocked (WaitQueue obj) (take c ns) k (snd (wakeup_loop obj p ns c (b, k)))"
    "same_nodes k (snd (wakeup_loop obj p ns c (b, k)))" by blast+
qed

text \<open>The number of nodes \<open>wakeup_wait_queue\<close> takes off the queue.\<close>

definition wakeup_count :: "KNamedObject \<Rightarrow> int \<Rightarrow> kernel \<Rightarrow> nat" where
  "wakeup_count obj maxCount k =
     (if maxCount < 0 then length (m_WaitQueue k obj) else if maxCount = 0 then 2 ^ 31 - 1 else nat maxCount)"

lemma wakeup_wait_queue_facts:
  assumes "sched_core k" "wait_core k"
  shows "woken_up blocked (WaitQueue obj) (take (wakeup_count obj m k) (m_WaitQueue k obj)) k
      (snd (wakeup_wait_queue obj m k))"
    and "same_nodes k (snd (wakeup_wait_queue obj m k))"
  using wakeup_loop_facts [OF assms refl, where obj = obj and c = "wakeup_count obj m k" and
      p = "priority_level k (gk_CurrentThread k)" and b = False]
  by (auto simp: wakeup_wait_queue_def wakeup_count_def Let_def split: if_splits)

text \<open>The sleep list: everything at its front that is due, and nothing else, is woken.\<close>

definition due :: "kernel \<Rightarrow> KThreadWaitNodeRef \<Rightarrow> bool" where
  "due k n \<longleftrightarrow> m_ResumeTime (wait_nodes k n) \<le> kget_monotonic_time (kclock k)"

lemma due_same: "same_globals k k' \<Longrightarrow> m_ResumeTime (wait_nodes k' n) = m_ResumeTime (wait_nodes k n) \<Longrightarrow> due k' n = due k n"
  by (simp add: due_def same_globals_def kclock_def kget_monotonic_time_def kget_monotonic_time_ns_def)

lemma wakeup_sleeping_loop_facts:
  assumes "sched_core k" "wait_core k" "gk_SleepingThreads k = ns"
  shows "woken_up (\<lambda>s. s = ThreadState_Sleeping) SleepingThreads (takeWhile (due k) ns) k (wakeup_sleeping_loop ns k) \<and>
    same_nodes k (wakeup_sleeping_loop ns k)"
  using assms
proof (induction ns arbitrary: k)
  case Nil
  then show ?case by (simp add: woken_up_Nil)
next
  case (Cons n ns)
  show ?case
  proof (cases "due k n")
    case False
    then have "wakeup_sleeping_loop (n # ns) k = k"
      by (simp add: due_def kclock_def kget_monotonic_time_def kget_monotonic_time_ns_def)
    with False Cons.prems show ?thesis by (simp add: woken_up_Nil)
  next
    case True
    let ?P = "\<lambda>s. s = ThreadState_Sleeping"
    let ?k = "wait_list_Remove SleepingThreads n (wake_if ?P n k)"
    note st = woken_up_step [OF Cons.prems only_blocked_simps(2)]
    have c: "sched_core ?k" "wait_core ?k" using st(1) by (auto simp: woken_up_def)
    note ih = Cons.IH [OF c woken_up_head [OF st(1) Cons.prems(3)]]
    have "due ?k = due k"
      using st(1) by (auto simp: woken_up_def intro!: ext due_same)
    moreover have "wakeup_sleeping_loop (n # ns) k = wakeup_sleeping_loop ns ?k"
      using True by (simp add: due_def kclock_def kget_monotonic_time_def kget_monotonic_time_ns_def
          Let_def wake_if_def)
    ultimately show ?thesis
      using ih woken_up_trans [OF st(1) ih [THEN conjunct1]] same_trans(2) [OF st(2)] True by simp
  qed
qed

lemma takeWhile_sorted_due:
  "sorted (map f xs) \<Longrightarrow> set (takeWhile (\<lambda>x. f x \<le> (c :: 'b :: linorder)) xs) = {x \<in> set xs. f x \<le> c}"
  by (induction xs) force+

lemma SysTick_facts:
  fixes k :: kernel
  assumes "sched_core k" "wait_core k"
  defines "k1 \<equiv> k\<lparr>g_SystemTimeNS := g_SystemTimeNS k + 1000000\<rparr>" and "k' \<equiv> SysTick_Handler k"
  shows "woken_up (\<lambda>s. s = ThreadState_Sleeping) SleepingThreads (takeWhile (due k1) (gk_SleepingThreads k)) k1
      (k'\<lparr>m_PendSV := m_PendSV k\<rparr>)"
    and "same_nodes k k'" "m_PendSV k'"
proof -
  have c: "sched_core k1" "wait_core k1"
    using assms(1,2) by (auto simp: k1_def sched_core_def wait_core_def IsZombie_def)
  have k': "k' = KSWITCH_CONTEXT (wakeup_sleeping_loop (gk_SleepingThreads k1) k1)"
    by (simp add: k'_def SysTick_Handler_def wakeup_sleeping_threads_def k1_def)
  note f = wakeup_sleeping_loop_facts [OF c refl]
  have "m_PendSV k = m_PendSV (wakeup_sleeping_loop (gk_SleepingThreads k1) k1)"
    using f by (simp add: woken_up_def same_globals_def k1_def)
  then have "k'\<lparr>m_PendSV := m_PendSV k\<rparr> = wakeup_sleeping_loop (gk_SleepingThreads k1) k1"
    by (simp add: k' KSWITCH_CONTEXT_def)
  then show "woken_up (\<lambda>s. s = ThreadState_Sleeping) SleepingThreads (takeWhile (due k1) (gk_SleepingThreads k)) k1
      (k'\<lparr>m_PendSV := m_PendSV k\<rparr>)"
    using f by (simp add: k1_def)
  show "same_nodes k k'" "m_PendSV k'"
    using f by (simp_all add: k' KSWITCH_CONTEXT_def same_nodes_def k1_def)
qed

section \<open>Selecting the next thread\<close>

definition switch_to :: "thread_id \<Rightarrow> nat \<Rightarrow> thread_id \<Rightarrow> kernel \<Rightarrow> kernel" where
  "switch_to prevThread i nextThread k =
     (let k = thread_list_Remove (ReadyList i) nextThread k;
          k = (if thread_state k prevThread = ThreadState_Running then add_thread_to_ready_list prevThread k else k);
          k = SetState nextThread ThreadState_Running k
      in k\<lparr>gk_CurrentThread := nextThread\<rparr>)"

lemma select_loop_cases:
  obtains (keep) "select_loop p i k = k"
      "\<And>j. j < i \<Longrightarrow> gk_ReadyThreadLists k j \<noteq> [] \<Longrightarrow> thread_state k p = ThreadState_Running \<and> j < priority_level k p"
  | (switch) j nxt rest where "j < i" "gk_ReadyThreadLists k j = nxt # rest"
      "\<And>j'. j < j' \<Longrightarrow> j' < i \<Longrightarrow> gk_ReadyThreadLists k j' = []"
      "thread_state k p = ThreadState_Running \<Longrightarrow> priority_level k p \<le> j"
      "select_loop p i k = switch_to p j nxt k"
proof -
  have "(select_loop p i k = k \<and>
      (\<forall>j<i. gk_ReadyThreadLists k j \<noteq> [] \<longrightarrow> thread_state k p = ThreadState_Running \<and> j < priority_level k p)) \<or>
    (\<exists>j<i. \<exists>next rest. gk_ReadyThreadLists k j = next # rest \<and>
      (\<forall>j'. j < j' \<longrightarrow> j' < i \<longrightarrow> gk_ReadyThreadLists k j' = []) \<and>
      (thread_state k p = ThreadState_Running \<longrightarrow> priority_level k p \<le> j) \<and>
      select_loop p i k = switch_to p j next k)"
  proof (induction i)
    case (Suc i)
    show ?case
    proof (cases "gk_ReadyThreadLists k i")
      case Nil
      from Suc show ?thesis
      proof
        assume "select_loop p i k = k \<and> (\<forall>j<i. gk_ReadyThreadLists k j \<noteq> [] \<longrightarrow>
          thread_state k p = ThreadState_Running \<and> j < priority_level k p)"
        then show ?thesis using Nil by (auto simp: less_Suc_eq)
      next
        assume "\<exists>j<i. \<exists>next rest. gk_ReadyThreadLists k j = next # rest \<and>
          (\<forall>j'. j < j' \<longrightarrow> j' < i \<longrightarrow> gk_ReadyThreadLists k j' = []) \<and>
          (thread_state k p = ThreadState_Running \<longrightarrow> priority_level k p \<le> j) \<and>
          select_loop p i k = switch_to p j next k"
        then show ?thesis using Nil by (intro disjI2) (auto simp: less_Suc_eq)
      qed
    next
      case (Cons nx rest)
      show ?thesis
      proof (cases "thread_state k p \<noteq> ThreadState_Running \<or> i \<ge> priority_level k p")
        case True
        then have "select_loop p (Suc i) k = switch_to p i nx k" using Cons by (simp add: switch_to_def)
        then show ?thesis using True Cons by (intro disjI2) auto
      next
        case False
        then have "select_loop p (Suc i) k = select_loop p i k" using Cons by simp
        moreover have "\<not> (\<exists>j<i. thread_state k p = ThreadState_Running \<longrightarrow> priority_level k p \<le> j)"
          using False by auto
        ultimately show ?thesis using Suc False by (intro disjI1) (auto simp: less_Suc_eq)
      qed
    qed
  qed simp
  then show thesis using keep switch by blast
qed

lemma switch_facts:
  assumes core: "sched_core k" and ru: "running_unique k" and cur: "p = gk_CurrentThread k"
    and nx: "gk_ReadyThreadLists k j = next # rest"
  defines "k' \<equiv> switch_to p j next k"
  shows "sched_core k'" "running_unique k'" "gk_CurrentThread k' = next"
    "wait_lists k' = wait_lists k" "wait_nodes k' = wait_nodes k" "same_globals k (k'\<lparr>gk_CurrentThread := p\<rparr>)"
    "thread_state k' = (if thread_state k p = ThreadState_Running then (thread_state k)(p := ThreadState_Ready, next := ThreadState_Running)
       else (thread_state k)(next := ThreadState_Running))"
    "thread_lists k' = (if thread_state k p = ThreadState_Running
       then ((thread_lists k)(ReadyList j := rest))(ReadyList (priority_level k p) :=
              ((thread_lists k)(ReadyList j := rest)) (ReadyList (priority_level k p)) @ [p])
       else (thread_lists k)(ReadyList j := rest))"
proof -
  let ?k1 = "thread_list_Remove (ReadyList j) next k"
  have mem: "next \<in> set (gk_ReadyThreadLists k j)" by (simp add: nx)
  note r = remove_thread_facts [OF core mem]
  have rl: "thread_lists ?k1 = (thread_lists k)(ReadyList j := rest)" using r(1) nx by simp
  have nready: "thread_state k next = ThreadState_Ready" using core mem by (auto simp: sched_core_def)
  have dn: "distinct (next # rest)" using core unfolding nx [symmetric] sched_core_def by blast
  then have dist: "next \<notin> set rest" by simp
  have inl: "t \<in> set (next # rest) \<longleftrightarrow> m_ThreadList (threads k t) = Some (ReadyList j)" for t
    using core unfolding nx [symmetric] sched_core_def by blast
  then have inrest: "t \<in> set rest \<longleftrightarrow> t \<noteq> next \<and> m_ThreadList (threads k t) = Some (ReadyList j)" for t
    using dist by auto
  have ml: "m_ThreadList (threads k next) = Some (ReadyList j)" using core mem by (simp add: sched_core_def)
  have pr: "priority_level ?k1 u = priority_level k u" for u using r(4) by (simp add: same_globals_def)
  have st1: "thread_state ?k1 u = thread_state k u" for u using r(3) by metis
  have ex1: "sched_core_ex {next} ?k1"
    unfolding sched_core_ex_def rl r(2) pr IsZombie_def st1
    using core r(7) ml dn inrest unfolding sched_core_def IsZombie_def by auto
  let ?k2 = "if thread_state ?k1 p = ThreadState_Running then add_thread_to_ready_list p ?k1 else ?k1"
  have k2: "sched_core_ex {next} ?k2 \<and> wait_lists ?k2 = wait_lists k \<and> wait_nodes ?k2 = wait_nodes k \<and> same_globals k ?k2 \<and>
      thread_state ?k2 = (if thread_state k p = ThreadState_Running then (thread_state k)(p := ThreadState_Ready) else thread_state k) \<and>
      thread_lists ?k2 = (if thread_state k p = ThreadState_Running
       then ((thread_lists k)(ReadyList j := rest))(ReadyList (priority_level k p) :=
              ((thread_lists k)(ReadyList j := rest)) (ReadyList (priority_level k p)) @ [p])
       else (thread_lists k)(ReadyList j := rest))"
  proof (cases "thread_state k p = ThreadState_Running")
    case True
    then have "p \<noteq> next" "thread_state ?k1 p \<noteq> ThreadState_Ready" "\<not> IsZombie ?k1 p"
      using nready st1 by (auto simp: IsZombie_def)
    with ready_facts_ex [OF ex1, of p] True st1 r rl pr show ?thesis
      by (auto intro: same_trans)
  next
    case False
    then show ?thesis using ex1 r rl st1 by auto
  qed
  have k': "k' = (SetState next ThreadState_Running ?k2)\<lparr>gk_CurrentThread := next\<rparr>"
    by (simp add: k'_def switch_to_def Let_def)
  show ts: "thread_state k' = (if thread_state k p = ThreadState_Running then (thread_state k)(p := ThreadState_Ready, next := ThreadState_Running)
       else (thread_state k)(next := ThreadState_Running))"
    using k2 unfolding k' by (auto simp: SetState_simps fun_eq_iff)
  show cc: "gk_CurrentThread k' = next" and "wait_lists k' = wait_lists k" "wait_nodes k' = wait_nodes k"
    "same_globals k (k'\<lparr>gk_CurrentThread := p\<rparr>)"
    using k2 cur unfolding k' by (auto simp: SetState_simps same_globals_def)
  show "thread_lists k' = (if thread_state k p = ThreadState_Running
       then ((thread_lists k)(ReadyList j := rest))(ReadyList (priority_level k p) :=
              ((thread_lists k)(ReadyList j := rest)) (ReadyList (priority_level k p)) @ [p])
       else (thread_lists k)(ReadyList j := rest))"
    using k2 unfolding k' by (simp add: SetState_simps)
  show "running_unique k'"
    unfolding running_unique_def cc
  proof (intro allI impI)
    fix t assume t: "thread_state k' t = ThreadState_Running"
    show "t = next"
    proof (rule ccontr)
      assume ne: "t \<noteq> next"
      have "thread_state k t = ThreadState_Running" "t \<noteq> p"
        using t ne fun_cong [OF ts, of t]
        by (cases "thread_state k p = ThreadState_Running"; cases "t = p"; simp)+
      with ru cur show False unfolding running_unique_def by blast
    qed
  qed
  have "m_ThreadList (threads ?k2 next) = None" using k2 by (simp add: sched_core_ex_def)
  then show "sched_core k'"
    using k2 [THEN conjunct1] unfolding sched_core_def sched_core_ex_def k'
    by (auto simp: SetState_simps IsZombie_def)
qed


text \<open>The scheduling loop as a whole.\<close>

text \<open>
  The level at which the loop sees a thread: that of the ready list it stands on, and its priority if it is
  on none. The two are the same unless the priority was changed while the thread stood on a list.
\<close>

definition sched_level :: "kernel \<Rightarrow> thread_id \<Rightarrow> nat" where
  "sched_level k t = (case m_ThreadList (threads k t) of Some (ReadyList i) \<Rightarrow> i | _ \<Rightarrow> priority_level k t)"

definition levels_ok :: "kernel \<Rightarrow> bool" where
  "levels_ok k \<longleftrightarrow> (\<forall>t i. m_ThreadList (threads k t) = Some (ReadyList i) \<longrightarrow> i = priority_level k t)"

lemma sched_level_ok: "levels_ok k \<longleftrightarrow> (\<forall>t. sched_level k t = priority_level k t)"
  by (auto simp: levels_ok_def sched_level_def split: option.splits KThreadList.splits)

definition runnable :: "ThreadState \<Rightarrow> bool" where
  "runnable s \<longleftrightarrow> s = ThreadState_Ready \<or> s = ThreadState_Running"

lemma ready_member:
  "sched_core k \<Longrightarrow> thread_state k t = ThreadState_Ready \<longleftrightarrow>
   (\<exists>i < KTHREAD_PRIORITY_LEVELS. t \<in> set (gk_ReadyThreadLists k i))"
  unfolding sched_core_def by metis

lemma select_loop_facts:
  assumes core: "sched_core k" and ru: "running_unique k" and cur: "p = gk_CurrentThread k"
  defines "k' \<equiv> select_loop p KTHREAD_PRIORITY_LEVELS k"
  shows "sched_core k'" "running_unique k'" "wait_lists k' = wait_lists k" "wait_nodes k' = wait_nodes k"
    "same_globals k (k'\<lparr>gk_CurrentThread := p\<rparr>)"
    "runnable (thread_state k t) = runnable (thread_state k' t)"
    "\<not> runnable (thread_state k t) \<Longrightarrow> thread_state k' t = thread_state k t"
    "(\<exists>t. runnable (thread_state k t)) \<Longrightarrow> thread_state k' (gk_CurrentThread k') = ThreadState_Running"
proof -
  let ?N = KTHREAD_PRIORITY_LEVELS
  have "sched_core k' \<and> running_unique k' \<and> wait_lists k' = wait_lists k \<and> wait_nodes k' = wait_nodes k \<and>
    same_globals k (k'\<lparr>gk_CurrentThread := p\<rparr>) \<and> (\<forall>t. runnable (thread_state k t) = runnable (thread_state k' t)) \<and>
    (\<forall>t. \<not> runnable (thread_state k t) \<longrightarrow> thread_state k' t = thread_state k t) \<and>
    ((\<exists>t. runnable (thread_state k t)) \<longrightarrow> thread_state k' (gk_CurrentThread k') = ThreadState_Running)"
  proof (cases rule: select_loop_cases [of p ?N k])
    case keep
    have "thread_state k p = ThreadState_Running" if "runnable (thread_state k t)" for t
    proof (cases "thread_state k t = ThreadState_Ready")
      case True
      then obtain j where "j < ?N" "t \<in> set (gk_ReadyThreadLists k j)" using ready_member [OF core] by blast
      with keep(2) show ?thesis by force
    next
      case False
      with that have "thread_state k t = ThreadState_Running" by (simp add: runnable_def)
      with ru cur show ?thesis by (auto simp: running_unique_def)
    qed
    then show ?thesis using assms(1,2) keep(1) cur by (auto simp: k'_def same_globals_def)
  next
    case (switch j nxt rest)
    note f = switch_facts [OF core ru cur switch(2)]
    have nready: "thread_state k nxt = ThreadState_Ready"
      using ready_member [OF core] switch(1,2) by force
    have k': "k' = switch_to p j nxt k" by (simp add: k'_def switch(5))
    show ?thesis
      unfolding k' using f nready by (simp add: runnable_def fun_eq_iff)
  qed
  then show "sched_core k'" "running_unique k'" "wait_lists k' = wait_lists k" "wait_nodes k' = wait_nodes k"
    "same_globals k (k'\<lparr>gk_CurrentThread := p\<rparr>)"
    "runnable (thread_state k t) = runnable (thread_state k' t)"
    "\<not> runnable (thread_state k t) \<Longrightarrow> thread_state k' t = thread_state k t"
    "(\<exists>t. runnable (thread_state k t)) \<Longrightarrow> thread_state k' (gk_CurrentThread k') = ThreadState_Running"
    by blast+
qed

text \<open>No ready thread was seen at a higher level than the thread that runs after the switch.\<close>

lemma select_loop_highest:
  assumes core: "sched_core k" and ru: "running_unique k" and cur: "p = gk_CurrentThread k"
    and np: "\<And>i. m_ThreadList (threads k p) = Some (ReadyList i) \<Longrightarrow> thread_state k p \<noteq> ThreadState_Running"
  defines "k' \<equiv> select_loop p KTHREAD_PRIORITY_LEVELS k"
  assumes t: "thread_state k' t = ThreadState_Ready"
  shows "sched_level k t \<le> sched_level k (gk_CurrentThread k')"
proof -
  have lvl: "sched_level k u = i" if "u \<in> set (gk_ReadyThreadLists k i)" for u i
    using that core by (simp add: sched_core_def sched_level_def)
  have run: "sched_level k p = priority_level k p" if "thread_state k p = ThreadState_Running"
    using np that by (auto simp: sched_level_def split: option.splits KThreadList.splits)
  show ?thesis
  proof (cases rule: select_loop_cases [of p KTHREAD_PRIORITY_LEVELS k])
    case keep
    with t obtain j where j: "j < KTHREAD_PRIORITY_LEVELS" "t \<in> set (gk_ReadyThreadLists k j)"
      using ready_member [OF core] by (auto simp: k'_def)
    have "thread_state k p = ThreadState_Running" "j < priority_level k p"
      using keep(2) [OF j(1)] j(2) by (cases "gk_ReadyThreadLists k j"; auto)+
    then show ?thesis using keep(1) cur lvl [OF j(2)] run by (simp add: k'_def)
  next
    case (switch j nxt rest)
    note f = switch_facts [OF core ru cur switch(2)]
    have k': "k' = switch_to p j nxt k" by (simp add: k'_def switch(5))
    have tne: "t \<noteq> nxt" using t fun_cong [OF f(7), of nxt] by (auto simp: k' split: if_splits)
    have "sched_level k t \<le> j"
    proof (cases "t = p \<and> thread_state k p = ThreadState_Running")
      case True
      then show ?thesis using switch(4) run by simp
    next
      case False
      then have "thread_state k t = ThreadState_Ready"
        using t tne fun_cong [OF f(7), of t] by (auto simp: k' split: if_splits)
      then obtain i where i: "i < KTHREAD_PRIORITY_LEVELS" "t \<in> set (gk_ReadyThreadLists k i)"
        using ready_member [OF core] by blast
      then have "\<not> j < i" using switch(3) [of i] by auto
      then show ?thesis using lvl [OF i(2)] by simp
    qed
    moreover have "sched_level k nxt = j" using lvl [of nxt j] switch(2) by simp
    ultimately show ?thesis using f(3) by (simp add: k')
  qed
qed

lemma select_loop_priority:
  assumes "sched_core k" "running_unique k" "p = gk_CurrentThread k"
  shows "priority_level (select_loop p KTHREAD_PRIORITY_LEVELS k) t = priority_level k t"
  using select_loop_facts(5) [OF assms] assms(3) by (simp add: same_globals_def)

text \<open>A thread that is still running goes to the end of its list and the longest waiting one is taken.\<close>

lemma select_loop_round_robin:
  assumes core: "sched_core k" and ru: "running_unique k" and cur: "p = gk_CurrentThread k"
    and run: "thread_state k p = ThreadState_Running" "gk_ReadyThreadLists k (priority_level k p) = q # qs"
    and top: "\<And>j. priority_level k p < j \<Longrightarrow> gk_ReadyThreadLists k j = []"
  defines "k' \<equiv> select_loop p KTHREAD_PRIORITY_LEVELS k"
  shows "gk_CurrentThread k' = q" "gk_ReadyThreadLists k' (priority_level k p) = qs @ [p]"
proof -
  have b: "priority_level k p < KTHREAD_PRIORITY_LEVELS" using core by (simp add: sched_core_def)
  have "gk_CurrentThread k' = q \<and> gk_ReadyThreadLists k' (priority_level k p) = qs @ [p]"
  proof (cases rule: select_loop_cases [of p KTHREAD_PRIORITY_LEVELS k])
    case keep
    from keep(2) [OF b] run show ?thesis by simp
  next
    case (switch j nxt rest)
    have "j = priority_level k p"
      using switch(2,4) run(1) top [of j] by (cases "priority_level k p < j") auto
    with switch run switch_facts(3,8) [OF core ru cur switch(2)] show ?thesis by (simp add: k'_def)
  qed
  then show "gk_CurrentThread k' = q" "gk_ReadyThreadLists k' (priority_level k p) = qs @ [p]" by blast+
qed

section \<open>The state of the processor\<close>

text \<open>
  What holds between any two atomic steps. The idle thread never blocks, so there is always a thread
  to run.
\<close>

definition cpu_inv :: "kernel \<Rightarrow> bool" where
  "cpu_inv k \<longleftrightarrow>
     sched_core k \<and> wait_core k \<and> running_unique k \<and>
     m_ThreadList (threads k (gk_CurrentThread k)) \<noteq> Some ZombieList \<and>
     runnable (thread_state k (gk_IdleThread k))"

text \<open>No thread is blocked by a step that only wakes and schedules threads.\<close>

definition threads_advance :: "kernel \<Rightarrow> kernel \<Rightarrow> bool" where
  "threads_advance k k' \<longleftrightarrow>
     (\<forall>t. thread_state k' t = thread_state k t \<or>
          runnable (thread_state k' t) \<and> \<not> IsZombie k t)"

lemma runnable_not_zombie: "runnable (thread_state k t) \<Longrightarrow> \<not> IsZombie k t"
  by (auto simp: runnable_def IsZombie_def)

lemma threads_advance_refl [simp]: "threads_advance k k"
  by (simp add: threads_advance_def)

lemma threads_advance_trans: "threads_advance k k1 \<Longrightarrow> threads_advance k1 k2 \<Longrightarrow> threads_advance k k2"
  unfolding threads_advance_def IsZombie_def runnable_def by (metis ThreadState.distinct)

lemma threads_advance_runnable: "threads_advance k k' \<Longrightarrow> runnable (thread_state k t) \<Longrightarrow> runnable (thread_state k' t)"
  unfolding threads_advance_def by metis

lemma threads_advance_blocked: "threads_advance k k' \<Longrightarrow> \<not> blocked (thread_state k t) \<Longrightarrow> \<not> blocked (thread_state k' t)"
  unfolding threads_advance_def runnable_def blocked_def by (metis ThreadState.distinct)

lemma woken_advance:
  assumes "only_blocked P" "thread_state k' = woken_state P k ns"
  shows "threads_advance k k'"
  unfolding threads_advance_def
proof
  fix t
  from fun_cong [OF assms(2), of t] assms(1)
  show "thread_state k' t = thread_state k t \<or>
      runnable (thread_state k' t) \<and> \<not> IsZombie k t"
    by (auto simp: woken_state_def wakes_def only_blocked_def runnable_def blocked_def IsZombie_def)
qed

lemma woken_up_advance: "woken_up P l ns k k' \<Longrightarrow> only_blocked P \<Longrightarrow> threads_advance k k'"
  using woken_advance by (simp add: woken_up_def)

lemma woken_up_state: "woken_up P l ns k k' \<Longrightarrow> thread_state k' t = woken_state P k ns t"
  unfolding woken_up_def by metis

lemma woken_up_current: "woken_up P l ns k k' \<Longrightarrow> gk_CurrentThread k' = gk_CurrentThread k"
  by (simp add: woken_up_def same_globals_def)

lemma woken_up_not_blocked:
  "woken_up P l ns k k' \<Longrightarrow> only_blocked P \<Longrightarrow> \<not> blocked (thread_state k t) \<Longrightarrow> thread_state k' t = thread_state k t"
  by (auto simp: woken_up_state woken_state_def wakes_def only_blocked_def)

lemma running_unique_woken:
  assumes "running_unique k" "thread_state k' = woken_state P k ns" "gk_CurrentThread k' = gk_CurrentThread k"
  shows "running_unique k'"
  unfolding running_unique_def
proof (intro allI impI)
  fix t assume "thread_state k' t = ThreadState_Running"
  with fun_cong [OF assms(2), of t] have "thread_state k t = ThreadState_Running"
    by (simp add: woken_state_def split: if_splits)
  with assms(1,3) show "t = gk_CurrentThread k'" by (simp add: running_unique_def)
qed

text \<open>
  The thread lists change by making threads ready only, so the current thread stays off the zombie list.
\<close>

lemma zombie_member_state:
  "sched_core k \<Longrightarrow> m_ThreadList (threads k t) = Some ZombieList \<Longrightarrow> IsZombie k t"
  by (simp add: sched_core_def)

lemma add_ready_ThreadList:
  "m_ThreadList (threads (add_thread_to_ready_list t k) u) =
   (if u = t then Some (ReadyList (priority_level k t)) else m_ThreadList (threads k u))"
  by (simp add: add_thread_to_ready_list_def thread_list_Append_def Let_def kassert_def upd_thread_def SetState_simps)

lemma wake_if_ThreadList:
  "m_ThreadList (threads k u) \<noteq> Some ZombieList \<Longrightarrow>
   m_ThreadList (threads (wait_list_Remove l n (wake_if P n k)) u) \<noteq> Some ZombieList"
  by (auto simp: wake_if_def wait_list_Remove_def Let_def kassert_def upd_node_def add_ready_ThreadList split: option.split)

lemma wakeup_loop_ThreadList:
  "m_ThreadList (threads k u) \<noteq> Some ZombieList \<Longrightarrow>
   m_ThreadList (threads (snd (wakeup_loop obj p ns c (b, k))) u) \<noteq> Some ZombieList"
proof (induction ns arbitrary: k b c)
  case (Cons n ns)
  show ?case
  proof (cases c)
    case 0
    then show ?thesis using Cons.prems by simp
  next
    case (Suc c')
    have "wakeup_loop obj p (n # ns) c (b, k) =
        wakeup_loop obj p ns c' (b \<or> fst (wake_node p n k), wait_list_Remove (WaitQueue obj) n (wake_if blocked n k))"
      using Suc wake_node_wake_if [of p n k] by (cases "wake_node p n k") (simp add: Let_def)
    then show ?thesis
      by (simp only: Cons.IH wake_if_ThreadList [OF Cons.prems] not_False_eq_True)
  qed
qed simp

lemma wakeup_wait_queue_ThreadList:
  "m_ThreadList (threads k u) \<noteq> Some ZombieList \<Longrightarrow>
   m_ThreadList (threads (snd (wakeup_wait_queue obj m k)) u) \<noteq> Some ZombieList"
  by (simp add: wakeup_wait_queue_def Let_def wakeup_loop_ThreadList)

lemma wakeup_sleeping_loop_ThreadList:
  "m_ThreadList (threads k u) \<noteq> Some ZombieList \<Longrightarrow>
   m_ThreadList (threads (wakeup_sleeping_loop ns k) u) \<noteq> Some ZombieList"
proof (induction ns arbitrary: k)
  case (Cons n ns)
  have "wakeup_sleeping_loop (n # ns) k = k \<or>
      wakeup_sleeping_loop (n # ns) k =
        wakeup_sleeping_loop ns (wait_list_Remove SleepingThreads n (wake_if (\<lambda>s. s = ThreadState_Sleeping) n k))"
    by (simp add: Let_def wake_if_def)
  then show ?case using Cons wake_if_ThreadList by metis
qed simp

text \<open>Waking the waiters of an object, and the timer interrupt, keep the invariant.\<close>

lemma cpu_inv_wakeup:
  fixes obj :: KNamedObject and m :: int
  assumes "cpu_inv k"
  defines "k' \<equiv> snd (wakeup_wait_queue obj m k)"
  shows "cpu_inv k'" "threads_advance k k'"
proof -
  have c: "sched_core k" "wait_core k" using assms(1) by (auto simp: cpu_inv_def)
  note w = wakeup_wait_queue_facts [OF c, of obj m]
  show adv: "threads_advance k k'" using woken_up_advance [OF w(1)] by (simp add: k'_def)
  have "running_unique k'"
    using running_unique_woken [of k k' blocked] w(1) assms(1)
    by (auto simp: k'_def woken_up_def cpu_inv_def same_globals_def)
  then show "cpu_inv k'"
    using w(1) assms(1) threads_advance_runnable [OF adv] wakeup_wait_queue_ThreadList [of k "gk_CurrentThread k" obj m]
    by (simp add: cpu_inv_def woken_up_def k'_def same_globals_def)
qed

lemma cpu_inv_SysTick:
  assumes "cpu_inv k"
  shows "cpu_inv (SysTick_Handler k)" "threads_advance k (SysTick_Handler k)"
proof -
  let ?k1 = "k\<lparr>g_SystemTimeNS := g_SystemTimeNS k + 1000000\<rparr>"
  let ?k2 = "wakeup_sleeping_loop (gk_SleepingThreads ?k1) ?k1"
  have c: "sched_core ?k1" "wait_core ?k1"
    using assms by (auto simp: cpu_inv_def sched_core_def wait_core_def IsZombie_def)
  note w = wakeup_sleeping_loop_facts [OF c refl, THEN conjunct1]
  have k': "SysTick_Handler k = ?k2\<lparr>m_PendSV := True\<rparr>"
    by (simp add: SysTick_Handler_def wakeup_sleeping_threads_def KSWITCH_CONTEXT_def)
  have adv: "threads_advance k ?k2"
    using woken_up_advance [OF w] by (simp add: threads_advance_def IsZombie_def)
  then show "threads_advance k (SysTick_Handler k)" by (simp add: k' threads_advance_def)
  have "running_unique ?k2"
    using running_unique_woken [of ?k1 ?k2] w assms
    by (auto simp: woken_up_def cpu_inv_def same_globals_def running_unique_def)
  then have "cpu_inv ?k2"
    using w assms threads_advance_runnable [OF adv] wakeup_sleeping_loop_ThreadList [of ?k1 "gk_CurrentThread k"]
    by (simp add: cpu_inv_def woken_up_def same_globals_def)
  then show "cpu_inv (SysTick_Handler k)"
    by (simp add: k' cpu_inv_def sched_core_def wait_core_def running_unique_def IsZombie_def)
qed

section \<open>\<open>select_thread\<close> as a whole\<close>

text \<open>Equal up to the fields the invariants do not look at.\<close>

definition sched_eq :: "kernel \<Rightarrow> kernel \<Rightarrow> bool" where
  "sched_eq k k' \<longleftrightarrow>
     (\<forall>t. thread_state k' t = thread_state k t \<and> priority_level k' t = priority_level k t \<and>
          m_ThreadList (threads k' t) = m_ThreadList (threads k t) \<and> m_Detached (threads k' t) = m_Detached (threads k t)) \<and>
     gk_CurrentThread k' = gk_CurrentThread k \<and> gk_InitThread k' = gk_InitThread k \<and>
     gk_IdleThread k' = gk_IdleThread k \<and> thread_lists k' = thread_lists k \<and>
     wait_nodes k' = wait_nodes k \<and> wait_lists k' = wait_lists k \<and>
     g_SystemTimeNS k' = g_SystemTimeNS k \<and> g_RealTime k' = g_RealTime k \<and>
     m_PendSV k' = m_PendSV k \<and> m_Panicked k' = m_Panicked k"

lemma sched_eq_refl [simp]: "sched_eq k k"
  by (simp add: sched_eq_def)

lemma sched_eq_trans: "sched_eq k1 k2 \<Longrightarrow> sched_eq k2 k3 \<Longrightarrow> sched_eq k1 k3"
  by (simp add: sched_eq_def)

lemma sched_eq_upd:
  "(\<And>c. m_ThreadState (f c) = m_ThreadState c \<and> m_PriorityLevel (f c) = m_PriorityLevel c \<and>
     m_ThreadList (f c) = m_ThreadList c \<and> m_Detached (f c) = m_Detached c) \<Longrightarrow> sched_eq k (upd_thread t f k)"
  by (simp add: sched_eq_def upd_thread_def)

lemma sched_eq_cpu_inv: "sched_eq k k' \<Longrightarrow> cpu_inv k \<Longrightarrow> cpu_inv k'"
  unfolding cpu_inv_def sched_core_def wait_core_def running_unique_def sched_eq_def IsZombie_def
  by simp

lemma sched_eq_advance: "sched_eq k k' \<Longrightarrow> threads_advance k k'"
  by (simp add: sched_eq_def threads_advance_def)

lemma sched_eq_sym: "sched_eq k k' \<Longrightarrow> sched_eq k' k"
  by (simp add: sched_eq_def)

text \<open>The context switch keeps the invariant and runs a thread.\<close>

lemma zombie_append_facts:
  assumes core: "sched_core k" and st: "thread_state k t = ThreadState_Zombie" "m_ThreadList (threads k t) \<noteq> Some ZombieList"
  defines "k' \<equiv> thread_list_Append ZombieList t k"
  shows "sched_core k'" "thread_state k' = thread_state k" "same_globals k k'" "wait_lists k' = wait_lists k"
    "wait_nodes k' = wait_nodes k" "m_ThreadList (threads k' u) = (if u = t then Some ZombieList else m_ThreadList (threads k u))"
proof -
  have nr: "m_ThreadList (threads k t) \<noteq> Some (ReadyList i)" for i
    using core st(1) unfolding sched_core_def by force
  have none: "m_ThreadList (threads k t) = None"
  proof (cases "m_ThreadList (threads k t)")
    case (Some l)
    then show ?thesis using st(2) nr by (cases l) auto
  qed
  note d = k'_def thread_list_Append_def Let_def kassert_def upd_thread_def
  show "thread_state k' = thread_state k" "same_globals k k'" "wait_lists k' = wait_lists k" "wait_nodes k' = wait_nodes k"
    and m: "m_ThreadList (threads k' u) = (if u = t then Some ZombieList else m_ThreadList (threads k u))" for u
    using none by (auto simp: d same_globals_def fun_eq_iff)
  have l: "thread_lists k' = (thread_lists k)(ZombieList := thread_lists k ZombieList @ [t])"
    and p: "\<not> m_Panicked k'" and s: "thread_state k' u = thread_state k u" and pr: "priority_level k' u = priority_level k u" for u
    using none core by (simp_all add: d sched_core_def)
  have nin: "t \<notin> set (thread_lists k x)" for x using core none by (simp add: sched_core_def)
  show "sched_core k'"
    unfolding sched_core_def l m s pr IsZombie_def using core nin p nr st(1)
    by (auto simp: sched_core_def IsZombie_def)
qed

lemma wakeup_init_facts:
  assumes "sched_core k"
  defines "k' \<equiv> kwakeup_init_thread k"
  shows "sched_core k'" "same_globals k k'" "wait_lists k' = wait_lists k" "wait_nodes k' = wait_nodes k"
    "threads_advance k k'" "thread_state k u = ThreadState_Running \<longleftrightarrow> thread_state k' u = ThreadState_Running"
    "m_ThreadList (threads k v) \<noteq> Some ZombieList \<Longrightarrow> m_ThreadList (threads k' v) \<noteq> Some ZombieList"
proof -
  have "sched_core k' \<and> same_globals k k' \<and> wait_lists k' = wait_lists k \<and> wait_nodes k' = wait_nodes k \<and>
    threads_advance k k' \<and> (\<forall>u. thread_state k u = ThreadState_Running \<longleftrightarrow> thread_state k' u = ThreadState_Running) \<and>
    (\<forall>v. m_ThreadList (threads k v) \<noteq> Some ZombieList \<longrightarrow> m_ThreadList (threads k' v) \<noteq> Some ZombieList)"
  proof (cases "thread_state k (gk_InitThread k) = ThreadState_Waiting")
    case True
    then have nz: "\<not> IsZombie k (gk_InitThread k)" "thread_state k (gk_InitThread k) \<noteq> ThreadState_Ready"
      by (auto simp: IsZombie_def)
    note f = ready_facts [OF assms(1) nz(2,1)]
    have ts: "thread_state (add_thread_to_ready_list (gk_InitThread k) k) u =
        (if u = gk_InitThread k then ThreadState_Ready else thread_state k u)" for u
      using fun_cong [OF f(2), of u] by simp
    show ?thesis using True f ts
      by (auto simp: k'_def kwakeup_init_thread_def threads_advance_def runnable_def IsZombie_def add_ready_ThreadList)
  qed (use assms in \<open>simp add: k'_def kwakeup_init_thread_def\<close>)
  then show "sched_core k'" "same_globals k k'" "wait_lists k' = wait_lists k" "wait_nodes k' = wait_nodes k"
    "threads_advance k k'" "thread_state k u = ThreadState_Running \<longleftrightarrow> thread_state k' u = ThreadState_Running"
    "m_ThreadList (threads k v) \<noteq> Some ZombieList \<Longrightarrow> m_ThreadList (threads k' v) \<noteq> Some ZombieList"
    by blast+
qed

lemma select_core_facts:
  assumes inv: "cpu_inv k"
  defines "k' \<equiv> select_core k"
  shows "cpu_inv k'" "thread_state k' (gk_CurrentThread k') = ThreadState_Running" "threads_advance k k'"
    "m_WaitQueue k' (SyncObject o1) = m_WaitQueue k (SyncObject o1)" "same_nodes k k'"
    "g_SystemTimeNS k' = g_SystemTimeNS k" "set (wait_lists k' wl) \<subseteq> set (wait_lists k wl)"
    "gk_IdleThread k' = gk_IdleThread k"
proof -
  let ?p = "gk_CurrentThread k" and ?k1 = "select_loop (gk_CurrentThread k) KTHREAD_PRIORITY_LEVELS k"
  have c: "sched_core k" "wait_core k" "running_unique k" and idle: "runnable (thread_state k (gk_IdleThread k))"
    and nz: "m_ThreadList (threads k ?p) \<noteq> Some ZombieList"
    using inv by (auto simp: cpu_inv_def)
  note f = select_loop_facts [OF c(1,3) refl]
  have run1: "thread_state ?k1 (gk_CurrentThread ?k1) = ThreadState_Running" using f(8) idle by blast
  have wc1: "wait_core ?k1" by (rule wait_core_cong [OF c(2)]) (simp_all add: f(3,4))
  have adv1: "threads_advance k ?k1" unfolding threads_advance_def using f(6,7) runnable_not_zombie by blast
  have idle1: "runnable (thread_state ?k1 (gk_IdleThread ?k1))"
    using threads_advance_runnable [OF adv1 idle] f(5) by (simp add: same_globals_def)
  have cur1: "m_ThreadList (threads ?k1 (gk_CurrentThread ?k1)) \<noteq> Some ZombieList"
    using zombie_member_state [OF f(1), of "gk_CurrentThread ?k1"] run1 by (auto simp: IsZombie_def)
  have inv1: "cpu_inv ?k1" using f wc1 idle1 cur1 by (simp add: cpu_inv_def)
  show "cpu_inv k'" "thread_state k' (gk_CurrentThread k') = ThreadState_Running" "threads_advance k k'"
    "m_WaitQueue k' (SyncObject o1) = m_WaitQueue k (SyncObject o1)" "same_nodes k k'"
    "g_SystemTimeNS k' = g_SystemTimeNS k" "set (wait_lists k' wl) \<subseteq> set (wait_lists k wl)"
    "gk_IdleThread k' = gk_IdleThread k"
  proof -
    have *: "cpu_inv k' \<and> thread_state k' (gk_CurrentThread k') = ThreadState_Running \<and> threads_advance k k' \<and>
      m_WaitQueue k' (SyncObject o1) = m_WaitQueue k (SyncObject o1) \<and> same_nodes k k' \<and>
      g_SystemTimeNS k' = g_SystemTimeNS k \<and> set (wait_lists k' wl) \<subseteq> set (wait_lists k wl) \<and>
      gk_IdleThread k' = gk_IdleThread k" for o1 wl
    proof (cases "thread_state ?k1 ?p = ThreadState_Zombie")
      case False
      then have "k' = ?k1" by (simp add: k'_def select_core_def Let_def)
      with inv1 run1 adv1 f show ?thesis by (simp add: same_nodes_def same_globals_def)
    next
      case True
      then have kp: "thread_state k ?p = ThreadState_Zombie"
        using f(6,7) [of ?p] by (auto simp: runnable_def)
      show ?thesis
      proof (cases "m_Detached (threads ?k1 ?p)")
        case True
        have nzl: "m_ThreadList (threads ?k1 ?p) \<noteq> Some ZombieList"
          if "thread_state ?k1 ?p = ThreadState_Zombie"
        proof (cases rule: select_loop_cases [of ?p KTHREAD_PRIORITY_LEVELS k])
          case keep
          then show ?thesis using nz by simp
        next
          case (switch j nxt rest)
          have "?p \<noteq> nxt"
            using switch_facts(7) [OF c(1,3) refl switch(2)] that switch(5) by (auto simp: fun_eq_iff split: if_splits)
          then show ?thesis
            using switch(5) kp nz by (auto simp: switch_to_def Let_def thread_list_Remove_def kassert_def upd_thread_def SetState_simps)
        qed
        note z = zombie_append_facts [OF f(1) \<open>thread_state ?k1 ?p = ThreadState_Zombie\<close> nzl [OF \<open>thread_state ?k1 ?p = ThreadState_Zombie\<close>]]
        let ?k2 = "thread_list_Append ZombieList ?p ?k1"
        note i = wakeup_init_facts [OF z(1)]
        have k': "k' = kwakeup_init_thread ?k2"
          using True \<open>thread_state ?k1 ?p = ThreadState_Zombie\<close>
          by (simp add: k'_def select_core_def Let_def add_thread_to_zombie_list_def)
        have g: "same_globals ?k1 k'" using same_trans(1) [OF z(3) i(2)] by (simp add: k')
        then have cur: "gk_CurrentThread k' = gk_CurrentThread ?k1" by (simp add: same_globals_def)
        have st2: "thread_state ?k2 t = thread_state ?k1 t" for t using fun_cong [OF z(2)] by simp
        have adv2: "threads_advance ?k1 k'" using i(5) st2 unfolding k' threads_advance_def IsZombie_def by simp
        have run: "thread_state k' (gk_CurrentThread k') = ThreadState_Running"
          using run1 i(6) st2 unfolding cur by (simp add: k')
        have ru: "running_unique k'"
          using f(2) i(6) st2 cur unfolding running_unique_def by (simp add: k')
        have wc: "wait_core k'" by (rule wait_core_cong [OF wc1]) (simp_all add: k' i(3,4) z(4,5))
        have ne: "gk_CurrentThread ?k1 \<noteq> ?p" using run1 \<open>thread_state ?k1 ?p = ThreadState_Zombie\<close> by auto
        have "m_ThreadList (threads k' (gk_CurrentThread k')) \<noteq> Some ZombieList"
          using zombie_member_state [of k' "gk_CurrentThread k'"] i(1) run by (auto simp: k' IsZombie_def)
        then have "cpu_inv k'"
          using i(1) wc ru threads_advance_runnable [OF adv2 idle1] g
          by (simp add: cpu_inv_def k' same_globals_def)
        then show ?thesis
          using run threads_advance_trans [OF adv1 adv2] i(3,4) z(4,5) f(3,4,5) g
          by (simp add: k' same_nodes_def same_globals_def)
      next
        case False
        then have k': "k' = snd (wakeup_wait_queue (ThreadObject ?p) 0 ?k1)"
          using \<open>thread_state ?k1 ?p = ThreadState_Zombie\<close> by (simp add: k'_def select_core_def Let_def)
        note w = cpu_inv_wakeup [OF inv1, of "ThreadObject ?p" 0]
        note e = wakeup_wait_queue_facts [OF f(1) wc1, of "ThreadObject ?p" 0]
        have run: "thread_state k' (gk_CurrentThread k') = ThreadState_Running"
          using run1 woken_up_not_blocked [OF e(1)] woken_up_current [OF e(1)] by (simp add: k' blocked_def)
        show ?thesis
          using w run threads_advance_trans [OF adv1] e f(3,4,5)
          by (auto simp: k' woken_up_def same_nodes_def same_globals_def dest: in_set_dropD)
      qed
    qed
    from *[of o1 wl] show "cpu_inv k'" "thread_state k' (gk_CurrentThread k') = ThreadState_Running" "threads_advance k k'"
      "m_WaitQueue k' (SyncObject o1) = m_WaitQueue k (SyncObject o1)" "same_nodes k k'"
      "g_SystemTimeNS k' = g_SystemTimeNS k" "set (wait_lists k' wl) \<subseteq> set (wait_lists k wl)"
      "gk_IdleThread k' = gk_IdleThread k" by blast+
  qed
qed

lemma resume_selected_eq: "sched_eq k (snd (resume_selected sig now p k))"
proof -
  define k2 where "k2 = upd_thread p (\<lambda>c. c\<lparr>m_RunTime := nanos_add (m_RunTime c) (nanos_sub now (m_StartTime c))\<rparr>) k"
  define k3 where "k3 = upd_thread (gk_CurrentThread k2) (\<lambda>c. c\<lparr>m_StartTime := now\<rparr>) k2"
  define k4 where "k4 = (let cur = gk_CurrentThread k3; sp = m_CurrentStackAndPrivilege (threads k3 cur)
    in if sp AND 1 \<noteq> 0 \<and> HasUnblockedPendingSignals k3 cur
       then upd_thread cur (\<lambda>c. c\<lparr>m_CurrentStackAndPrivilege := (sp AND 1) OR sig k3 (sp AND NOT 1)\<rparr>) k3
       else k3)"
  have "sched_eq k k2" "sched_eq k2 k3"
    unfolding k2_def k3_def by - (rule sched_eq_upd, simp)+
  moreover have "sched_eq k3 k4"
    unfolding k4_def Let_def by (simp add: sched_eq_upd)
  moreover have "snd (resume_selected sig now p k) = k4"
    unfolding resume_selected_def k2_def [symmetric] Let_def snd_conv
    unfolding k3_def [symmetric] by (simp only: k4_def Let_def)
  ultimately show ?thesis by (metis sched_eq_trans)
qed

lemma select_thread_core:
  fixes ctrl :: u32
  assumes "m_StackTop (threads k (gk_CurrentThread k)) < stack"
  defines "k0 \<equiv> upd_thread (gk_CurrentThread k) (\<lambda>c. c\<lparr>m_CurrentStackAndPrivilege := stack OR (ctrl AND 1)\<rparr>) (k\<lparr>m_PendSV := False\<rparr>)"
  shows "sched_eq (select_core k0) (snd (select_thread sig now stack ctrl k))"
proof -
  have "m_StackTop (threads k0 (gk_CurrentThread k)) = m_StackTop (threads k (gk_CurrentThread k))"
    by (simp add: k0_def upd_thread_def)
  then have st: "\<not> stack \<le> m_StackTop (threads k0 (gk_CurrentThread k))" using assms(1) by simp
  have "select_thread sig now stack ctrl k = resume_selected sig now (gk_CurrentThread k) (select_core k0)"
    using st by (simp add: select_thread_def Let_def k0_def)
  then show ?thesis by (simp add: resume_selected_eq)
qed

lemma sched_eq_k0:
  "sched_eq (k\<lparr>m_PendSV := False\<rparr>) (upd_thread t (\<lambda>c. c\<lparr>m_CurrentStackAndPrivilege := v\<rparr>) (k\<lparr>m_PendSV := False\<rparr>))"
  by (rule sched_eq_upd) simp

lemma cpu_inv_PendSV [simp]: "cpu_inv (k\<lparr>m_PendSV := b\<rparr>) = cpu_inv k"
  by (simp add: cpu_inv_def sched_core_def wait_core_def running_unique_def IsZombie_def)

text \<open>What every context switch guarantees.\<close>

lemma select_core_PendSV: "m_PendSV (select_core k) = m_PendSV k" if "cpu_inv k"
proof -
  have c: "sched_core k" "wait_core k" "running_unique k" using that by (auto simp: cpu_inv_def)
  note f = select_loop_facts [OF c(1,3) refl]
  have g: "m_PendSV (select_loop (gk_CurrentThread k) KTHREAD_PRIORITY_LEVELS k) = m_PendSV k"
    using f(5) by (simp add: same_globals_def)
  have "m_PendSV (add_thread_to_zombie_list t k1) = m_PendSV k1" for t k1
    by (simp add: add_thread_to_zombie_list_def kwakeup_init_thread_def thread_list_Append_def Let_def kassert_def
      upd_thread_def add_thread_to_ready_list_def SetState_simps)
  moreover have wc1: "wait_core (select_loop (gk_CurrentThread k) KTHREAD_PRIORITY_LEVELS k)"
    by (rule wait_core_cong [OF c(2)]) (simp_all add: f(3,4))
  ultimately show ?thesis
    using g wakeup_wait_queue_facts(1) [OF f(1) wc1, of "ThreadObject (gk_CurrentThread k)" 0]
    by (simp add: select_core_def Let_def woken_up_def same_globals_def)
qed

lemma select_thread_facts:
  fixes ctrl :: u32 and sig :: "kernel \<Rightarrow> u32 \<Rightarrow> u32" and now :: TimeValNanos
  assumes inv: "cpu_inv k" and st: "m_StackTop (threads k (gk_CurrentThread k)) < stack"
  defines "k' \<equiv> snd (select_thread sig now stack ctrl k)"
  shows "cpu_inv k'" "thread_state k' (gk_CurrentThread k') = ThreadState_Running" "threads_advance k k'"
    "\<And>i. m_WaitQueue k' (SyncObject i) = m_WaitQueue k (SyncObject i)" "same_nodes k k'" "\<not> m_PendSV k'"
    "g_SystemTimeNS k' = g_SystemTimeNS k" "\<And>l. set (wait_lists k' l) \<subseteq> set (wait_lists k l)"
    "gk_IdleThread k' = gk_IdleThread k"
proof -
  define k0 where "k0 = upd_thread (gk_CurrentThread k) (\<lambda>c. c\<lparr>m_CurrentStackAndPrivilege := stack OR (ctrl AND 1)\<rparr>) (k\<lparr>m_PendSV := False\<rparr>)"
  have e0: "sched_eq (k\<lparr>m_PendSV := False\<rparr>) k0" unfolding k0_def by (rule sched_eq_k0)
  have inv0: "cpu_inv k0" using sched_eq_cpu_inv [OF e0] inv by simp
  have e1: "sched_eq (select_core k0) k'" unfolding k'_def k0_def by (rule select_thread_core [OF st])
  note f = select_core_facts [OF inv0]
  show "cpu_inv k'" by (rule sched_eq_cpu_inv [OF e1 f(1)])
  show "thread_state k' (gk_CurrentThread k') = ThreadState_Running" using f(2) e1 by (simp add: sched_eq_def)
  have "threads_advance k k0" using sched_eq_advance [OF e0] by (simp add: threads_advance_def IsZombie_def)
  then show "threads_advance k k'"
    using threads_advance_trans [OF _ threads_advance_trans [OF f(3) sched_eq_advance [OF e1]]] by blast
  show "m_WaitQueue k' (SyncObject i) = m_WaitQueue k (SyncObject i)" for i
    using f(4) e0 e1 by (simp add: sched_eq_def)
  show "same_nodes k k'" using f(5) e0 e1 by (simp add: sched_eq_def same_nodes_def)
  show "\<not> m_PendSV k'" using select_core_PendSV [OF inv0] e0 e1 by (simp add: sched_eq_def)
  show "g_SystemTimeNS k' = g_SystemTimeNS k" using f(6) e0 e1 by (simp add: sched_eq_def)
  show "set (wait_lists k' l) \<subseteq> set (wait_lists k l)" for l
    using f(7) e0 e1 by (simp add: sched_eq_def)
  show "gk_IdleThread k' = gk_IdleThread k" using f(8) e0 e1 by (simp add: sched_eq_def)
qed

section \<open>Everything that can happen to the scheduler\<close>

text \<open>
  The atomic steps of a running system: the timer interrupt, the context switch exception, waking
  (from threads or interrupt handlers), and what the running thread does to itself. Blocking is what
  \<open>KSemaphore\<close>, \<open>KMutex\<close> and \<open>KConditionVariable\<close> do in their first critical section: put a fresh
  node on the object's queue, and one on the sleep list if there is a deadline. The two
  sequences of statements they all use are \<open>suspend_waiting\<close> and \<open>suspend_clock\<close>; \<open>d\<close> is the depth of the
  blocking call on the thread's stack.
\<close>

definition suspend_waiting :: "KNamedObject \<Rightarrow> nat \<Rightarrow> kernel \<Rightarrow> kernel" where
  "suspend_waiting obj d k =
     (let thread = gk_CurrentThread k;
          waitNode = WaitNode thread d;
          k = upd_node waitNode (\<lambda>_. new_wait_node) k;
          k = upd_node waitNode (\<lambda>n. n\<lparr>m_Thread := Some thread\<rparr>) k;
          k = SetState thread ThreadState_Waiting k
      in wait_list_Append (WaitQueue obj) waitNode k)"

definition suspend_clock :: "KNamedObject \<Rightarrow> nat \<Rightarrow> TimeValNanos \<Rightarrow> kernel \<Rightarrow> kernel" where
  "suspend_clock obj d deadline k =
     (let thread = gk_CurrentThread k;
          waitNode = WaitNode thread d;
          sleepNode = SleepNode thread d;
          k = upd_node waitNode (\<lambda>_. new_wait_node) k;
          k = upd_node sleepNode (\<lambda>_. new_wait_node) k;
          k = upd_node waitNode (\<lambda>n. n\<lparr>m_Thread := Some thread\<rparr>) k;
          k = wait_list_Append (WaitQueue obj) waitNode k
      in if \<not> nanos_IsInfinit deadline
         then let k = SetState thread ThreadState_Sleeping k;
                  k = upd_node sleepNode (\<lambda>n. n\<lparr>m_Thread := Some thread\<rparr>) k;
                  k = upd_node sleepNode (\<lambda>n. n\<lparr>m_ResumeTime := deadline\<rparr>) k
              in add_to_sleep_list sleepNode k
         else SetState thread ThreadState_Waiting k)"

definition thread_runs :: "kernel \<Rightarrow> bool" where
  "thread_runs k \<longleftrightarrow> thread_state k (gk_CurrentThread k) = ThreadState_Running \<and> \<not> m_PendSV k"

definition node_free :: "KThreadWaitNodeRef \<Rightarrow> kernel \<Rightarrow> bool" where
  "node_free n k \<longleftrightarrow> m_List (wait_nodes k n) = None"

inductive kernel_step :: "kernel \<Rightarrow> kernel \<Rightarrow> bool" where
  tick: "kernel_step k (SysTick_Handler k)"
| switch: "m_StackTop (threads k (gk_CurrentThread k)) < stack \<Longrightarrow>
    kernel_step k (snd (select_thread sig now stack ctrl k))"
| wake_queue: "kernel_step k (snd (wakeup_wait_queue obj n k))"
| wake_thread: "kernel_step k (snd (wakeup_thread t b k))"
| pend: "kernel_step k (KSWITCH_CONTEXT k)"
| destroy: "kernel_step k (destroy_KNamedObject obj k)"
| block: "thread_runs k \<Longrightarrow> gk_CurrentThread k \<noteq> gk_IdleThread k \<Longrightarrow>
    node_free (WaitNode (gk_CurrentThread k) d) k \<Longrightarrow> node_free (SleepNode (gk_CurrentThread k) d) k \<Longrightarrow>
    kernel_step k (KSWITCH_CONTEXT (SetBlockingObject (gk_CurrentThread k) (Some obj) (suspend_clock obj d deadline k)))"
| block_untimed: "thread_runs k \<Longrightarrow> gk_CurrentThread k \<noteq> gk_IdleThread k \<Longrightarrow>
    node_free (WaitNode (gk_CurrentThread k) d) k \<Longrightarrow>
    kernel_step k (KSWITCH_CONTEXT (SetBlockingObject (gk_CurrentThread k) (Some obj) (suspend_waiting obj d k)))"
| snooze: "thread_runs k \<Longrightarrow> gk_CurrentThread k \<noteq> gk_IdleThread k \<Longrightarrow>
    node_free (SleepNode (gk_CurrentThread k) d) k \<Longrightarrow> kernel_step k (snd (ksnooze_enter c d r k))"
| detach: "thread_runs k \<Longrightarrow> kernel_step k (snd (Detatch n k))"
| stop: "thread_runs k \<Longrightarrow> gk_CurrentThread k \<noteq> gk_IdleThread k \<Longrightarrow> kernel_step k (stop_thread k)"
| exit: "thread_runs k \<Longrightarrow> gk_CurrentThread k \<noteq> gk_IdleThread k \<Longrightarrow> kernel_step k (kthread_exit k)"
| spawn: "thread_state k t = ThreadState_Deleted \<Longrightarrow> m_ThreadList (threads k t) = None \<Longrightarrow> t \<noteq> gk_CurrentThread k \<Longrightarrow>
    kernel_step k (spawn_thread t (KThreadCB_new attribs stack) k)"
| set_priority: "kernel_step k (snd (kthread_set_priority h p k))"

text \<open>The first context switch takes the processor from the boot code; until then nothing is pending.\<close>

inductive kernel_reachable :: "kernel \<Rightarrow> bool" where
  boot: "idle \<noteq> init \<Longrightarrow> kernel_reachable (start_scheduler idle init idleStack initStack initSize)"
| step: "kernel_reachable k \<Longrightarrow> kernel_step k k' \<Longrightarrow> kernel_reachable k'"

inductive_cases kernel_stepE: "kernel_step k k'"

section \<open>The remaining steps keep the invariant\<close>

lemma cpu_inv_parts:
  "cpu_inv k \<Longrightarrow> sched_core k" "cpu_inv k \<Longrightarrow> wait_core k" "cpu_inv k \<Longrightarrow> running_unique k"
  "cpu_inv k \<Longrightarrow> \<not> m_Panicked k" "cpu_inv k \<Longrightarrow> runnable (thread_state k (gk_IdleThread k))"
  by (auto simp: cpu_inv_def sched_core_def)

lemma cpu_inv_KSWITCH [simp]: "cpu_inv (KSWITCH_CONTEXT k) = cpu_inv k"
  by (simp add: KSWITCH_CONTEXT_def)

text \<open>Changing the state of a thread that is on no list, to one that is not ready.\<close>

lemma running_no_list:
  assumes "cpu_inv k" "thread_state k t = ThreadState_Running"
  shows "m_ThreadList (threads k t) = None"
proof (cases "m_ThreadList (threads k t)")
  case (Some l)
  have c: "sched_core k" using assms(1) by (simp add: cpu_inv_def)
  then show ?thesis
  proof (cases l)
    case (ReadyList i)
    then have "thread_state k t = ThreadState_Ready" using c Some unfolding sched_core_def by blast
    then show ?thesis using assms(2) by simp
  next
    case ZombieList
    then have "IsZombie k t" using zombie_member_state [OF c] Some by simp
    then show ?thesis using assms(2) by (simp add: IsZombie_def)
  qed
qed

lemma cpu_inv_SetState:
  assumes inv: "cpu_inv k" and run: "thread_state k t = ThreadState_Running" and ne: "t \<noteq> gk_IdleThread k"
    and s: "s \<noteq> ThreadState_Ready" "s \<noteq> ThreadState_Running"
  shows "cpu_inv (SetState t s k)"
proof -
  have none: "m_ThreadList (threads k t) = None" by (rule running_no_list [OF inv run])
  have c: "sched_core k" "wait_core k" and ru: "running_unique k"
    using inv by (auto simp: cpu_inv_def)
  have "sched_core (SetState t s k)"
    using c(1) none s unfolding sched_core_def IsZombie_def by (auto simp: SetState_simps)
  moreover have "wait_core (SetState t s k)"
    by (rule wait_core_cong [OF c(2)]) (simp_all add: SetState_simps)
  moreover have "running_unique (SetState t s k)"
    using ru s unfolding running_unique_def by (simp add: SetState_simps)
  ultimately show ?thesis
    using inv ne by (simp add: cpu_inv_def SetState_simps)
qed

lemma cpu_inv_threads_same:
  assumes "cpu_inv k" "threads k' = threads k" "thread_lists k' = thread_lists k" "same_globals k k'"
    "wait_core k'" "\<not> m_Panicked k'"
  shows "cpu_inv k'"
  using assms unfolding cpu_inv_def sched_core_def running_unique_def IsZombie_def same_globals_def by simp

lemma cpu_inv_Detatch:
  assumes "cpu_inv k"
  shows "cpu_inv (snd (Detatch n k))"
proof (cases "m_List (wait_nodes k n)")
  case (Some l)
  have "n \<in> set (wait_lists k l)" using assms Some by (simp add: cpu_inv_def wait_core_def)
  from wait_list_Remove_facts [OF cpu_inv_parts(2) [OF assms] this cpu_inv_parts(4) [OF assms]] Some show ?thesis
    by (auto simp: Detatch_def intro!: cpu_inv_threads_same [OF assms])
qed (simp add: Detatch_def assms)

lemma upd_node_free_facts:
  assumes "wait_core k" "m_List (wait_nodes k n) = None" "\<And>c. m_List (f c) = None \<or> m_List (f c) = m_List c"
  shows "wait_core (upd_node n f k)" "threads (upd_node n f k) = threads k"
    "thread_lists (upd_node n f k) = thread_lists k" "same_globals k (upd_node n f k)"
    "m_Panicked (upd_node n f k) = m_Panicked k" "wait_lists (upd_node n f k) = wait_lists k"
    "wait_nodes (upd_node n f k) = (wait_nodes k)(n := f (wait_nodes k n))"
proof -
  have nin: "n \<notin> set (wait_lists k l)" for l using assms(1,2) by (simp add: wait_core_def)
  have none: "m_List (f (wait_nodes k n)) = None" using assms(2) assms(3) [of "wait_nodes k n"] by auto
  have e: "map (\<lambda>m. m_ResumeTime (((wait_nodes k)(n := f (wait_nodes k n))) m)) (gk_SleepingThreads k) =
        map (\<lambda>m. m_ResumeTime (wait_nodes k m)) (gk_SleepingThreads k)"
    using nin by (auto intro!: map_cong)
  have "x \<in> set (wait_lists k l) \<longleftrightarrow> m_List (((wait_nodes k)(n := f (wait_nodes k n))) x) = Some l" for x l
  proof (cases "x = n")
    case True
    then show ?thesis using nin none by simp
  next
    case False
    then show ?thesis using assms(1) by (simp add: wait_core_def)
  qed
  moreover have "distinct (wait_lists k l)" for l using assms(1) by (simp add: wait_core_def)
  moreover have "sorted (map (\<lambda>m. m_ResumeTime (((wait_nodes k)(n := f (wait_nodes k n))) m)) (gk_SleepingThreads k))"
    unfolding e using assms(1) by (simp add: wait_core_def)
  ultimately show "wait_core (upd_node n f k)"
    unfolding wait_core_def upd_node_def by (simp del: fun_upd_apply)
  show "threads (upd_node n f k) = threads k" "thread_lists (upd_node n f k) = thread_lists k"
    "same_globals k (upd_node n f k)" "m_Panicked (upd_node n f k) = m_Panicked k"
    "wait_lists (upd_node n f k) = wait_lists k" "wait_nodes (upd_node n f k) = (wait_nodes k)(n := f (wait_nodes k n))"
    by (simp_all add: upd_node_def same_globals_def)
qed

section \<open>Blocking\<close>

text \<open>What a thread does to the state when it suspends itself on \<open>obj\<close>.\<close>

definition suspends :: "KNamedObject \<Rightarrow> nat \<Rightarrow> kernel \<Rightarrow> kernel \<Rightarrow> bool" where
  "suspends obj d k k' \<longleftrightarrow>
     (let t = gk_CurrentThread k in
      cpu_inv k' \<and> same_globals k k' \<and>
      (\<exists>s. blocked s \<and> thread_state k' = (thread_state k)(t := s)) \<and>
      (\<forall>o'. m_WaitQueue k' o' = (if o' = obj then m_WaitQueue k obj @ [WaitNode t d] else m_WaitQueue k o')) \<and>
      (\<forall>n. n \<noteq> WaitNode t d \<and> n \<noteq> SleepNode t d \<longrightarrow>
         m_Thread (wait_nodes k' n) = m_Thread (wait_nodes k n) \<and> m_TargetDeleted (wait_nodes k' n) = m_TargetDeleted (wait_nodes k n) \<and>
         m_List (wait_nodes k' n) = m_List (wait_nodes k n)) \<and>
      m_Thread (wait_nodes k' (WaitNode t d)) = Some t \<and> \<not> m_TargetDeleted (wait_nodes k' (WaitNode t d)))"

lemma suspend_waiting_facts:
  assumes inv: "cpu_inv k" and run: "thread_state k (gk_CurrentThread k) = ThreadState_Running"
    and ne: "gk_CurrentThread k \<noteq> gk_IdleThread k" and fr: "node_free (WaitNode (gk_CurrentThread k) d) k"
  shows "suspends obj d k (suspend_waiting obj d k)"
proof -
  let ?t = "gk_CurrentThread k" and ?n = "WaitNode (gk_CurrentThread k) d"
  define k1 where "k1 = upd_node ?n (\<lambda>_. new_wait_node) k"
  define k2 where "k2 = upd_node ?n (\<lambda>n. n\<lparr>m_Thread := Some ?t\<rparr>) k1"
  define k3 where "k3 = SetState ?t ThreadState_Waiting k2"
  have k': "suspend_waiting obj d k = wait_list_Append (WaitQueue obj) ?n k3"
    by (simp add: suspend_waiting_def k1_def k2_def k3_def Let_def)
  note u1 = upd_node_free_facts [OF cpu_inv_parts(2) [OF inv] fr [unfolded node_free_def], of "\<lambda>_. new_wait_node", folded k1_def]
  have l1: "m_List (wait_nodes k1 ?n) = None" using u1(7) by (simp add: new_wait_node_def)
  have w1: "wait_core k1" using u1(1) by (simp add: new_wait_node_def)
  note u2 = upd_node_free_facts [OF w1 l1, of "\<lambda>n. n\<lparr>m_Thread := Some ?t\<rparr>", folded k2_def]
  have i2: "cpu_inv k2"
    using u1 u2 same_trans(1) cpu_inv_parts(4) [OF inv]
    by (intro cpu_inv_threads_same [OF inv]) (auto simp: new_wait_node_def)
  have i3: "cpu_inv k3"
    unfolding k3_def using run ne u1 u2
    by (intro cpu_inv_SetState [OF i2]) (simp_all add: new_wait_node_def same_globals_def)
  have n3: "wait_nodes k3 = wait_nodes k2" "wait_lists k3 = wait_lists k2" by (simp_all add: k3_def SetState_simps)
  have l3: "m_List (wait_nodes k3 ?n) = None" using u2(7) l1 by (simp add: n3)
  note a = wait_list_Append_facts [OF cpu_inv_parts(2) [OF i3] l3 cpu_inv_parts(4) [OF i3], of obj]
  have i4: "cpu_inv (suspend_waiting obj d k)"
    unfolding k' using a by (intro cpu_inv_threads_same [OF i3]) auto
  have g: "same_globals k k3"
    using u1(4) u2(4) by (simp add: same_globals_def k3_def SetState_simps new_wait_node_def)
  have st: "thread_state (wait_list_Append (WaitQueue obj) ?n k3) = (thread_state k)(?t := ThreadState_Waiting)"
    unfolding a(3) using u1(2) u2(2) by (intro ext) (simp add: k3_def SetState_simps new_wait_node_def)
  show ?thesis
    unfolding suspends_def Let_def
    using i4 same_trans(1) [OF g a(5)] st a u1(6,7) u2(6,7) unfolding k'
    by (auto simp: n3 blocked_def same_nodes_def new_wait_node_def)
qed

lemma suspend_clock_facts:
  assumes inv: "cpu_inv k" and run: "thread_state k (gk_CurrentThread k) = ThreadState_Running"
    and ne: "gk_CurrentThread k \<noteq> gk_IdleThread k" and fr: "node_free (WaitNode (gk_CurrentThread k) d) k"
    and frs: "node_free (SleepNode (gk_CurrentThread k) d) k"
  shows "suspends obj d k (suspend_clock obj d deadline k)"
proof -
  let ?t = "gk_CurrentThread k" and ?n = "WaitNode (gk_CurrentThread k) d" and ?s = "SleepNode (gk_CurrentThread k) d"
  define k0 where "k0 = upd_node ?n (\<lambda>_. new_wait_node) k"
  define k1 where "k1 = upd_node ?s (\<lambda>_. new_wait_node) k0"
  define k2 where "k2 = upd_node ?n (\<lambda>n. n\<lparr>m_Thread := Some ?t\<rparr>) k1"
  define k3 where "k3 = wait_list_Append (WaitQueue obj) ?n k2"
  note u0 = upd_node_free_facts [OF cpu_inv_parts(2) [OF inv] fr [unfolded node_free_def], of "\<lambda>_. new_wait_node", folded k0_def]
  have w0: "wait_core k0" using u0(1) by (simp add: new_wait_node_def)
  have ls0: "m_List (wait_nodes k0 ?s) = None" using u0(7) frs by (simp add: new_wait_node_def node_free_def)
  note u1 = upd_node_free_facts [OF w0 ls0, of "\<lambda>_. new_wait_node", folded k1_def]
  have w1: "wait_core k1" using u1(1) by (simp add: new_wait_node_def)
  have l1: "m_List (wait_nodes k1 ?n) = None" using u1(7) u0(7) by (simp add: new_wait_node_def)
  note u2 = upd_node_free_facts [OF w1 l1, of "\<lambda>n. n\<lparr>m_Thread := Some ?t\<rparr>", folded k2_def]
  have g2: "same_globals k k2" using u0(4) u1(4) u2(4) by (simp add: new_wait_node_def same_globals_def)
  have i2: "cpu_inv k2"
    using u0 u1 u2 cpu_inv_parts(4) [OF inv]
    by (intro cpu_inv_threads_same [OF inv _ _ g2]) (auto simp: new_wait_node_def)
  have l2: "m_List (wait_nodes k2 ?n) = None" "m_List (wait_nodes k2 ?s) = None"
    using u2(7) u1(7) u0(7) by (simp_all add: new_wait_node_def)
  note a = wait_list_Append_facts [OF cpu_inv_parts(2) [OF i2] l2(1) cpu_inv_parts(4) [OF i2], of obj, folded k3_def]
  have i3: "cpu_inv k3" using a by (intro cpu_inv_threads_same [OF i2]) auto
  have g3: "same_globals k k3" by (rule same_trans(1) [OF g2 a(5)])
  have run3: "thread_state k3 ?t = ThreadState_Running" "?t \<noteq> gk_IdleThread k3"
    using run ne u0(2) u1(2) u2(2) a(3) g3 by (simp_all add: same_globals_def new_wait_node_def)
  have th3: "thread_state k3 = thread_state k" using u0(2) u1(2) u2(2) a(3) by (simp add: new_wait_node_def)
  have q3: "wait_lists k3 = (wait_lists k)(WaitQueue obj := m_WaitQueue k obj @ [?n])"
    using u0(6) u1(6) u2(6) a(2) by (simp add: new_wait_node_def)
  have nd3: "m_Thread (wait_nodes k3 ?n) = Some ?t" "\<not> m_TargetDeleted (wait_nodes k3 ?n)"
    "n \<noteq> ?n \<Longrightarrow> n \<noteq> ?s \<Longrightarrow> m_Thread (wait_nodes k3 n) = m_Thread (wait_nodes k n) \<and>
       m_TargetDeleted (wait_nodes k3 n) = m_TargetDeleted (wait_nodes k n) \<and> m_List (wait_nodes k3 n) = m_List (wait_nodes k n)" for n
    using a(6,8) u0(7) u1(7) u2(7) by (simp_all add: same_nodes_def new_wait_node_def)
  show ?thesis
  proof (cases "nanos_IsInfinit deadline")
    case True
    then have k': "suspend_clock obj d deadline k = SetState ?t ThreadState_Waiting k3"
      by (simp add: suspend_clock_def k0_def k1_def k2_def k3_def Let_def)
    have "cpu_inv (SetState ?t ThreadState_Waiting k3)"
      by (rule cpu_inv_SetState [OF i3 run3]) simp_all
    moreover have "thread_state (SetState ?t ThreadState_Waiting k3) = (thread_state k)(?t := ThreadState_Waiting)"
      using fun_cong [OF th3] by (simp add: SetState_simps fun_eq_iff)
    ultimately show ?thesis
      unfolding suspends_def Let_def k' using g3 nd3 q3
      by (auto simp: SetState_simps blocked_def same_globals_def)
  next
    case False
    define k4 where "k4 = SetState ?t ThreadState_Sleeping k3"
    define k5 where "k5 = upd_node ?s (\<lambda>n. n\<lparr>m_Thread := Some ?t\<rparr>) k4"
    define k6 where "k6 = upd_node ?s (\<lambda>n. n\<lparr>m_ResumeTime := deadline\<rparr>) k5"
    have k': "suspend_clock obj d deadline k = add_to_sleep_list ?s k6"
      using False by (simp add: suspend_clock_def k0_def k1_def k2_def k3_def k4_def k5_def k6_def Let_def)
    have i4: "cpu_inv k4" unfolding k4_def by (rule cpu_inv_SetState [OF i3 run3]) simp_all
    have l4: "m_List (wait_nodes k4 ?s) = None" using a(8) l2(2) by (simp add: k4_def SetState_simps)
    note u5 = upd_node_free_facts [OF cpu_inv_parts(2) [OF i4] l4, of "\<lambda>n. n\<lparr>m_Thread := Some ?t\<rparr>", folded k5_def]
    have w5: "wait_core k5" "m_List (wait_nodes k5 ?s) = None" using u5(1,7) l4 by simp_all
    note u6 = upd_node_free_facts [OF w5, of "\<lambda>n. n\<lparr>m_ResumeTime := deadline\<rparr>", folded k6_def]
    have l6: "m_List (wait_nodes k6 ?s) = None" using u6(7) w5 by simp
    have g46: "same_globals k4 k6" using u5(4) u6(4) by (simp add: same_globals_def)
    have i6: "cpu_inv k6"
      using u5 u6 cpu_inv_parts(4) [OF i4] by (intro cpu_inv_threads_same [OF i4 _ _ g46]) auto
    note b = add_to_sleep_list_facts [OF cpu_inv_parts(2) [OF i6] l6 cpu_inv_parts(4) [OF i6]]
    have i7: "cpu_inv (add_to_sleep_list ?s k6)"
      by (rule cpu_inv_threads_same [OF i6 b(4) b(5) b(6) b(1) b(8)])
    have "thread_state (add_to_sleep_list ?s k6) = thread_state k4"
      using b(4) u5(2) u6(2) by simp
    then have st: "thread_state (add_to_sleep_list ?s k6) = (thread_state k)(?t := ThreadState_Sleeping)"
      using fun_cong [OF th3] by (simp add: k4_def SetState_simps fun_eq_iff)
    have g: "same_globals k (add_to_sleep_list ?s k6)"
      using same_trans(1) [OF g46 b(6)] g3 by (simp add: k4_def SetState_simps same_globals_def)
    have q: "m_WaitQueue (add_to_sleep_list ?s k6) o' = m_WaitQueue k3 o'" for o'
      using b(3) u5(6) u6(6) by (simp add: k4_def SetState_simps)
    have nd: "m_Thread (wait_nodes (add_to_sleep_list ?s k6) n) = m_Thread (wait_nodes k3 n)"
      "m_TargetDeleted (wait_nodes (add_to_sleep_list ?s k6) n) = m_TargetDeleted (wait_nodes k3 n)"
      "m_List (wait_nodes (add_to_sleep_list ?s k6) n) = m_List (wait_nodes k3 n)" if "n \<noteq> ?s" for n
      using b(7) b(9) [of n] u5(7) u6(7) that by (simp_all add: same_nodes_def k4_def SetState_simps)
    show ?thesis
      unfolding suspends_def Let_def k' using i7 g st
      by (auto simp: q q3 nd nd3 blocked_def intro!: exI [of _ ThreadState_Sleeping])
  qed
qed

section \<open>Ready threads wait on the list of their priority\<close>

lemma levels_ok_threads: "threads k' = threads k \<Longrightarrow> levels_ok k' = levels_ok k"
  by (simp add: levels_ok_def)

lemma levels_ok_upd:
  "levels_ok k \<Longrightarrow> (\<And>c. m_ThreadList (f c) = m_ThreadList c \<and> m_PriorityLevel (f c) = m_PriorityLevel c) \<Longrightarrow>
   levels_ok (upd_thread t f k)"
  by (simp add: levels_ok_def upd_thread_def)

lemma add_ready_priority: "priority_level (add_thread_to_ready_list t k) u = priority_level k u"
  by (simp add: add_thread_to_ready_list_def thread_list_Append_def Let_def kassert_def upd_thread_def SetState_simps)

lemma levels_ok_add_ready: "levels_ok k \<Longrightarrow> levels_ok (add_thread_to_ready_list t k)"
  by (simp add: levels_ok_def add_ready_ThreadList add_ready_priority)

lemma levels_ok_SetState: "levels_ok k \<Longrightarrow> levels_ok (SetState t st k)"
  by (simp add: levels_ok_def SetState_simps)

lemma wait_list_ops_threads [simp]:
  "threads (wait_list_Remove l n k) = threads k" "threads (wait_list_Append l n k) = threads k"
  "threads (wait_list_Insert l i n k) = threads k" "threads (upd_node n f k) = threads k"
  "threads (kassert b k) = threads k" "threads (KSWITCH_CONTEXT k) = threads k"
  "threads (add_to_sleep_list n k) = threads k" "threads (snd (Detatch n k)) = threads k"
  by (simp_all add: wait_list_Remove_def wait_list_Append_def wait_list_Insert_def upd_node_def kassert_def
    KSWITCH_CONTEXT_def Let_def add_to_sleep_list_def Detatch_def split: option.split)

lemma levels_ok_wait_ops [simp]:
  "levels_ok (wait_list_Remove l n k) = levels_ok k" "levels_ok (wait_list_Append l n k) = levels_ok k"
  "levels_ok (upd_node n f k) = levels_ok k" "levels_ok (KSWITCH_CONTEXT k) = levels_ok k"
  "levels_ok (add_to_sleep_list n k) = levels_ok k" "levels_ok (snd (Detatch n k)) = levels_ok k"
  "levels_ok (k\<lparr>gk_CurrentThread := u\<rparr>) = levels_ok k" "levels_ok (k\<lparr>m_PendSV := b\<rparr>) = levels_ok k"
  "levels_ok (k\<lparr>g_SystemTimeNS := ns\<rparr>) = levels_ok k"
  by (rule levels_ok_threads, simp)+

lemma levels_ok_wake_if: "levels_ok k \<Longrightarrow> levels_ok (wait_list_Remove l n (wake_if P n k))"
  by (simp add: wake_if_def levels_ok_add_ready split: option.split)

lemma levels_ok_wakeup_loop: "levels_ok k \<Longrightarrow> levels_ok (snd (wakeup_loop obj p ns c (b, k)))"
proof (induction ns arbitrary: k b c)
  case (Cons n ns)
  show ?case
  proof (cases c)
    case (Suc c')
    have "wakeup_loop obj p (n # ns) c (b, k) =
        wakeup_loop obj p ns c' (b \<or> fst (wake_node p n k), wait_list_Remove (WaitQueue obj) n (wake_if blocked n k))"
      using Suc wake_node_wake_if [of p n k] by (cases "wake_node p n k") (simp add: Let_def)
    then show ?thesis by (simp only: Cons.IH [OF levels_ok_wake_if [OF Cons.prems]])
  qed (use Cons.prems in simp)
qed simp

lemma levels_ok_wakeup: "levels_ok k \<Longrightarrow> levels_ok (snd (wakeup_wait_queue obj m k))"
  by (simp add: wakeup_wait_queue_def Let_def levels_ok_wakeup_loop)

lemma levels_ok_sleeping_loop: "levels_ok k \<Longrightarrow> levels_ok (wakeup_sleeping_loop ns k)"
proof (induction ns arbitrary: k)
  case (Cons n ns)
  have "wakeup_sleeping_loop (n # ns) k = k \<or>
      wakeup_sleeping_loop (n # ns) k =
        wakeup_sleeping_loop ns (wait_list_Remove SleepingThreads n (wake_if (\<lambda>s. s = ThreadState_Sleeping) n k))"
    by (simp add: Let_def wake_if_def)
  then show ?case using Cons levels_ok_wake_if by metis
qed simp

lemma levels_ok_destroy_loop: "levels_ok k \<Longrightarrow> levels_ok (snd (destroy_loop obj p ns (b, k)))"
proof (induction ns arbitrary: k b)
  case (Cons n ns)
  let ?k = "upd_node n (\<lambda>c. c\<lparr>m_TargetDeleted := True\<rparr>) k"
  have "destroy_loop obj p (n # ns) (b, k) =
      destroy_loop obj p ns (b \<or> fst (wake_node p n ?k), wait_list_Remove (WaitQueue obj) n (wake_if blocked n ?k))"
    using wake_node_wake_if [of p n ?k] by (cases "wake_node p n ?k") (simp add: Let_def)
  moreover have "levels_ok ?k" using Cons.prems by simp
  ultimately show ?case by (simp only: Cons.IH [OF levels_ok_wake_if])
qed simp

lemma levels_ok_switch_to: "levels_ok k \<Longrightarrow> levels_ok (switch_to p i n k)"
proof -
  assume l: "levels_ok k"
  let ?k1 = "thread_list_Remove (ReadyList i) n k"
  have l1: "levels_ok ?k1"
    using l by (simp add: levels_ok_def thread_list_Remove_def Let_def kassert_def upd_thread_def)
  then have l2: "levels_ok (if thread_state ?k1 p = ThreadState_Running then add_thread_to_ready_list p ?k1 else ?k1)"
    by (simp add: levels_ok_add_ready)
  then show ?thesis by (simp add: switch_to_def Let_def levels_ok_SetState)
qed

lemma levels_ok_select_core: "levels_ok k \<Longrightarrow> levels_ok (select_core k)"
proof -
  assume l: "levels_ok k"
  let ?k1 = "select_loop (gk_CurrentThread k) KTHREAD_PRIORITY_LEVELS k"
  have l1: "levels_ok ?k1"
    by (rule select_loop_cases [of "gk_CurrentThread k" KTHREAD_PRIORITY_LEVELS k]) (simp_all add: l levels_ok_switch_to)
  have "levels_ok (thread_list_Append ZombieList t ?k1)" for t
    using l1 by (simp add: levels_ok_def thread_list_Append_def Let_def kassert_def upd_thread_def)
  then have "levels_ok (add_thread_to_zombie_list t ?k1)" for t
    by (simp add: add_thread_to_zombie_list_def kwakeup_init_thread_def levels_ok_add_ready)
  then show ?thesis using l1 by (simp add: select_core_def Let_def levels_ok_wakeup)
qed

lemma levels_ok_select_thread:
  assumes "levels_ok k" "m_StackTop (threads k (gk_CurrentThread k)) < stack"
  shows "levels_ok (snd (select_thread sig now stack ctrl k))"
proof -
  let ?k0 = "upd_thread (gk_CurrentThread k) (\<lambda>c. c\<lparr>m_CurrentStackAndPrivilege := stack OR (ctrl AND 1)\<rparr>) (k\<lparr>m_PendSV := False\<rparr>)"
  have "levels_ok ?k0" using assms(1) by (intro levels_ok_upd) (simp_all add: levels_ok_def)
  then have "levels_ok (select_core ?k0)" by (rule levels_ok_select_core)
  with select_thread_core [OF assms(2), of ctrl sig now] show ?thesis by (simp add: levels_ok_def sched_eq_def)
qed

lemma suspend_waiting_levels: "levels_ok k \<Longrightarrow> levels_ok (suspend_waiting obj d k)"
  by (simp add: suspend_waiting_def Let_def levels_ok_SetState)

lemma suspend_clock_levels: "levels_ok k \<Longrightarrow> levels_ok (suspend_clock obj d deadline k)"
  by (simp add: suspend_clock_def Let_def levels_ok_SetState)

section \<open>Invariant of every reachable state\<close>

lemma mark_deleted_facts:
  fixes P :: "ThreadState \<Rightarrow> bool" and l :: KThreadWaitList and n :: KThreadWaitNodeRef
  assumes "sched_core k" "wait_core k"
  defines "k' \<equiv> upd_node n (\<lambda>c. c\<lparr>m_TargetDeleted := True\<rparr>) k"
  shows "woken_up P l [] k k' \<and> wait_lists k' = wait_lists k"
proof -
  have s: "sched_core k'"
    by (rule sched_core_cong [OF assms(1)]) (use assms(1) in \<open>simp_all add: k'_def upd_node_def sched_core_def\<close>)
  have m: "m_ResumeTime (wait_nodes k' x) = m_ResumeTime (wait_nodes k x)" "m_List (wait_nodes k' x) = m_List (wait_nodes k x)"
    "m_Thread (wait_nodes k' x) = m_Thread (wait_nodes k x)" for x by (simp_all add: k'_def upd_node_def)
  have l: "wait_lists k' = wait_lists k" by (simp add: k'_def upd_node_def)
  have "wait_core k'" using assms(2) unfolding wait_core_def l m .
  moreover have "thread_state k' = woken_state P k []"
    by (simp add: k'_def upd_node_def woken_state_def wakes_def fun_eq_iff)
  ultimately show ?thesis
    using s l m by (auto simp: woken_up_def k'_def upd_node_def same_globals_def)
qed

lemma destroy_loop_facts:
  assumes "sched_core k" "wait_core k" "m_WaitQueue k obj = ns"
  shows "woken_up blocked (WaitQueue obj) ns k (snd (destroy_loop obj p ns (b, k)))"
  using assms
proof (induction ns arbitrary: k b)
  case Nil
  then show ?case by (simp add: woken_up_Nil)
next
  case (Cons n ns)
  let ?marked = "upd_node n (\<lambda>c. c\<lparr>m_TargetDeleted := True\<rparr>) k"
  note m = mark_deleted_facts [OF Cons.prems(1,2), of blocked "WaitQueue obj" n]
  have c0: "sched_core ?marked" "wait_core ?marked" "m_WaitQueue ?marked obj = n # ns"
    using m Cons.prems(3) by (auto simp: woken_up_def)
  let ?k = "wait_list_Remove (WaitQueue obj) n (wake_if blocked n ?marked)"
  note st = woken_up_step(1) [OF c0 only_blocked_simps(1)]
  have "sched_core ?k" "wait_core ?k" using st by (auto simp: woken_up_def)
  note ih = Cons.IH [OF this woken_up_head [OF st c0(3)], where b = "b \<or> fst (wake_node p n ?marked)"]
  have "destroy_loop obj p (n # ns) (b, k) = destroy_loop obj p ns (b \<or> fst (wake_node p n ?marked), ?k)"
    using wake_node_wake_if [of p n ?marked] by (cases "wake_node p n ?marked") (simp add: Let_def)
  moreover have "woken_up blocked (WaitQueue obj) ([] @ [n] @ ns) k (snd (destroy_loop obj p ns (b \<or> fst (wake_node p n ?marked), ?k)))"
    by (rule woken_up_trans [OF m [THEN conjunct1] woken_up_trans [OF st ih only_blocked_simps(1)] only_blocked_simps(1)])
  ultimately show ?case by simp
qed

lemma destroy_loop_ThreadList:
  "m_ThreadList (threads k u) \<noteq> Some ZombieList \<Longrightarrow>
   m_ThreadList (threads (snd (destroy_loop obj p ns (b, k))) u) \<noteq> Some ZombieList"
proof (induction ns arbitrary: k b)
  case (Cons n ns)
  let ?k = "upd_node n (\<lambda>c. c\<lparr>m_TargetDeleted := True\<rparr>) k"
  have "destroy_loop obj p (n # ns) (b, k) =
      destroy_loop obj p ns (b \<or> fst (wake_node p n ?k), wait_list_Remove (WaitQueue obj) n (wake_if blocked n ?k))"
    using wake_node_wake_if [of p n ?k] by (cases "wake_node p n ?k") (simp add: Let_def)
  moreover have "m_ThreadList (threads ?k u) \<noteq> Some ZombieList" using Cons.prems by simp
  ultimately show ?case by (simp only: Cons.IH wake_if_ThreadList not_False_eq_True)
qed simp

lemma cpu_inv_woken:
  assumes inv: "cpu_inv k" and w: "woken_up P l ns k k'" "only_blocked P"
    and z: "m_ThreadList (threads k' (gk_CurrentThread k)) \<noteq> Some ZombieList"
  shows "cpu_inv k'" "threads_advance k k'"
proof -
  show adv: "threads_advance k k'" by (rule woken_up_advance [OF w])
  have "running_unique k'"
    using w(1) inv by (intro running_unique_woken [of k k' P ns]) (auto simp: woken_up_def cpu_inv_def same_globals_def)
  then show "cpu_inv k'"
    using w(1) inv z threads_advance_runnable [OF adv] by (simp add: cpu_inv_def woken_up_def same_globals_def)
qed

lemma cpu_inv_destroy:
  assumes inv: "cpu_inv k"
  shows "cpu_inv (destroy_KNamedObject obj k)" "threads_advance k (destroy_KNamedObject obj k)"
proof -
  let ?l = "destroy_loop obj (priority_level k (gk_CurrentThread k)) (m_WaitQueue k obj) (False, k)"
  have z: "m_ThreadList (threads (snd ?l) (gk_CurrentThread k)) \<noteq> Some ZombieList"
    using inv by (intro destroy_loop_ThreadList) (simp add: cpu_inv_def)
  note w = cpu_inv_woken [OF inv destroy_loop_facts [OF cpu_inv_parts(1) [OF inv] cpu_inv_parts(2) [OF inv] refl] only_blocked_simps(1) z]
  then show "cpu_inv (destroy_KNamedObject obj k)" "threads_advance k (destroy_KNamedObject obj k)"
    by (auto simp: destroy_KNamedObject_def KSWITCH_CONTEXT_def threads_advance_def split: prod.split)
qed

lemma cpu_inv_wakeup_thread:
  assumes inv: "cpu_inv k"
  shows "cpu_inv (snd (wakeup_thread t b k))" "threads_advance k (snd (wakeup_thread t b k))"
    "wait_lists (snd (wakeup_thread t b k)) = wait_lists k" "wait_nodes (snd (wakeup_thread t b k)) = wait_nodes k"
    "same_globals k (snd (wakeup_thread t b k))"
proof -
  let ?k = "snd (wakeup_thread t b k)"
  have "cpu_inv ?k \<and> threads_advance k ?k \<and> wait_lists ?k = wait_lists k \<and> wait_nodes ?k = wait_nodes k \<and> same_globals k ?k"
  proof (cases "?k = k")
    case False
    then have st: "\<not> IsZombie k t" "thread_state k t = ThreadState_Sleeping \<or> thread_state k t = ThreadState_Waiting \<or>
        thread_state k t = ThreadState_Stopped" and k': "?k = add_thread_to_ready_list t k"
      by (auto simp: wakeup_thread_def Let_def split: if_splits)
    then have nr: "thread_state k t \<noteq> ThreadState_Ready" by auto
    note f = ready_facts [OF cpu_inv_parts(1) [OF inv] nr st(1)]
    have ts: "thread_state ?k u = (if u = t then ThreadState_Ready else thread_state k u)" for u
      using fun_cong [OF f(2), of u] by (simp add: k')
    have adv: "threads_advance k ?k" using st(1) by (auto simp: threads_advance_def ts runnable_def)
    have "wait_core ?k" using cpu_inv_parts(2) [OF inv] f(4,5) by (simp add: k' wait_core_cong)
    moreover have "running_unique ?k"
      unfolding running_unique_def ts using inv f(3) by (simp add: cpu_inv_def running_unique_def k' same_globals_def)
    moreover have "gk_CurrentThread ?k = gk_CurrentThread k" "gk_IdleThread ?k = gk_IdleThread k"
      using f(3) by (simp_all add: k' same_globals_def)
    moreover have "m_ThreadList (threads ?k (gk_CurrentThread k)) \<noteq> Some ZombieList"
      using inv by (simp add: k' add_ready_ThreadList cpu_inv_def)
    ultimately show ?thesis
      using f inv adv threads_advance_runnable [OF adv cpu_inv_parts(5) [OF inv]] by (simp add: cpu_inv_def k')
  qed (use inv in simp)
  then show "cpu_inv ?k" "threads_advance k ?k" "wait_lists ?k = wait_lists k" "wait_nodes ?k = wait_nodes k"
    "same_globals k ?k" by blast+
qed

lemma SetBlockingObject_eq: "sched_eq k (SetBlockingObject t o' k)"
  unfolding SetBlockingObject_def by (rule sched_eq_upd) simp

lemma cpu_inv_SetBlockingObject: "cpu_inv k \<Longrightarrow> cpu_inv (SetBlockingObject t o' k)"
  by (rule sched_eq_cpu_inv [OF SetBlockingObject_eq])

lemma levels_ok_SetBlockingObject [simp]: "levels_ok (SetBlockingObject t o' k) = levels_ok k"
  by (auto simp: SetBlockingObject_def levels_ok_def upd_thread_def)

lemma cpu_inv_snooze:
  assumes inv: "cpu_inv k" and run: "thread_runs k" and ne: "gk_CurrentThread k \<noteq> gk_IdleThread k"
    and fr: "node_free (SleepNode (gk_CurrentThread k) d) k"
  shows "cpu_inv (snd (ksnooze_enter c d r k))"
proof -
  let ?f = "\<lambda>_. new_wait_node\<lparr>m_Thread := Some (gk_CurrentThread k),
      m_ResumeTime := nanos_add (FromNative (FromNanoseconds NANOS r)) (FromNative 1000000)\<rparr>"
  let ?k1 = "upd_node (SleepNode (gk_CurrentThread k) d) ?f k"
  note u = upd_node_free_facts [OF cpu_inv_parts(2) [OF inv] fr [unfolded node_free_def], of ?f]
  have i1: "cpu_inv ?k1"
    using u cpu_inv_parts(4) [OF inv] by (intro cpu_inv_threads_same [OF inv]) (auto simp: new_wait_node_def)
  have l1: "m_List (wait_nodes ?k1 (SleepNode (gk_CurrentThread k) d)) = None"
    by (simp add: upd_node_def new_wait_node_def)
  note a = add_to_sleep_list_facts [OF cpu_inv_parts(2) [OF i1] l1 cpu_inv_parts(4) [OF i1]]
  have i2: "cpu_inv (add_to_sleep_list (SleepNode (gk_CurrentThread k) d) ?k1)"
    by (rule cpu_inv_threads_same [OF i1 a(4) a(5) a(6) a(1) a(8)])
  have "cpu_inv (SetState (gk_CurrentThread k) ThreadState_Sleeping (add_to_sleep_list (SleepNode (gk_CurrentThread k) d) ?k1))"
    using run ne a(4,6) u(2,4) by (intro cpu_inv_SetState [OF i2]) (simp_all add: thread_runs_def same_globals_def new_wait_node_def)
  then show ?thesis using i1 by (simp add: ksnooze_enter_def Let_def)
qed

lemma cpu_inv_spawn:
  assumes inv: "cpu_inv k" and t: "thread_state k t = ThreadState_Deleted" "m_ThreadList (threads k t) = None" "t \<noteq> gk_CurrentThread k"
    and cb: "m_PriorityLevel cb < KTHREAD_PRIORITY_LEVELS" "m_ThreadList cb = None"
  shows "cpu_inv (spawn_thread t cb k)"
proof -
  have tid: "t \<noteq> gk_IdleThread k" using cpu_inv_parts(5) [OF inv] t(1) by (auto simp: runnable_def)
  let ?fresh = "k\<lparr>threads := (threads k)(t := cb\<lparr>m_ThreadState := ThreadState_Stopped\<rparr>)\<rparr>"
  have c: "sched_core k" using inv by (simp add: cpu_inv_def)
  have c0: "sched_core ?fresh"
    using c t cb unfolding sched_core_def IsZombie_def by auto
  have "spawn_thread t cb k = add_thread_to_ready_list t ?fresh"
    using cb(2) by (cases cb) (auto simp: spawn_thread_def add_thread_to_ready_list_def SetState_def
      thread_list_Append_def upd_thread_def Let_def kassert_def)
  moreover have "thread_state ?fresh t \<noteq> ThreadState_Ready" "\<not> IsZombie ?fresh t" by (simp_all add: IsZombie_def)
  note f = ready_facts [OF c0 this]
  moreover have ts: "thread_state (add_thread_to_ready_list t ?fresh) u = (if u = t then ThreadState_Ready else thread_state k u)" for u
    using fun_cong [OF f(2), of u] by simp
  moreover have "wait_core (add_thread_to_ready_list t ?fresh)"
    by (rule wait_core_cong [OF cpu_inv_parts(2) [OF inv]]) (simp_all add: f(4,5))
  moreover have "gk_CurrentThread (add_thread_to_ready_list t ?fresh) = gk_CurrentThread k"
    "gk_IdleThread (add_thread_to_ready_list t ?fresh) = gk_IdleThread k"
    using f(3) by (simp_all add: same_globals_def)
  moreover have "running_unique (add_thread_to_ready_list t ?fresh)"
    unfolding running_unique_def
  proof (intro allI impI)
    fix u assume "thread_state (add_thread_to_ready_list t ?fresh) u = ThreadState_Running"
    then have "thread_state k u = ThreadState_Running" by (simp add: ts split: if_splits)
    then have "u = gk_CurrentThread k" using inv unfolding cpu_inv_def running_unique_def by blast
    then show "u = gk_CurrentThread (add_thread_to_ready_list t ?fresh)" using f(3) by (simp add: same_globals_def)
  qed
  moreover have "m_ThreadList (threads (add_thread_to_ready_list t ?fresh) (gk_CurrentThread k)) \<noteq> Some ZombieList"
    using inv t(3) by (auto simp: add_ready_ThreadList cpu_inv_def)
  ultimately show ?thesis using cpu_inv_parts(5) [OF inv] tid by (simp add: cpu_inv_def)
qed

lemma cpu_inv_self_block:
  assumes "cpu_inv k" "thread_runs k" "gk_CurrentThread k \<noteq> gk_IdleThread k" "s \<noteq> ThreadState_Ready" "s \<noteq> ThreadState_Running"
  shows "cpu_inv (SetState (gk_CurrentThread k) s k)"
  using assms by (intro cpu_inv_SetState) (simp_all add: thread_runs_def)

lemma SetPriority_simps:
  "thread_state (SetPriority t p k) u = thread_state k u"
  "m_ThreadList (threads (SetPriority t p k) u) = m_ThreadList (threads k u)"
  "priority_level (SetPriority t p k) u = (if u = t then PriToLevel p else priority_level k u)"
  "thread_lists (SetPriority t p k) = thread_lists k" "wait_lists (SetPriority t p k) = wait_lists k"
  "wait_nodes (SetPriority t p k) = wait_nodes k" "m_Panicked (SetPriority t p k) = m_Panicked k"
  "gk_CurrentThread (SetPriority t p k) = gk_CurrentThread k" "gk_IdleThread (SetPriority t p k) = gk_IdleThread k"
  by (simp_all add: SetPriority_def upd_thread_def)

lemma cpu_inv_set_priority:
  assumes "cpu_inv k"
  shows "cpu_inv (SetPriority t p k)"
proof -
  have "sched_core (SetPriority t p k)"
    using cpu_inv_parts(1) [OF assms] PriToLevel_bound [of p]
    unfolding sched_core_def IsZombie_def SetPriority_simps by simp
  moreover have "wait_core (SetPriority t p k)"
    by (rule wait_core_cong [OF cpu_inv_parts(2) [OF assms]]) (simp_all add: SetPriority_simps)
  moreover have "running_unique (SetPriority t p k)"
    using cpu_inv_parts(3) [OF assms] unfolding running_unique_def SetPriority_simps .
  ultimately show ?thesis using assms by (simp add: cpu_inv_def SetPriority_simps)
qed

lemma levels_ok_set_priority:
  "cpu_inv k \<Longrightarrow> levels_ok k \<Longrightarrow> thread_state k t \<noteq> ThreadState_Ready \<Longrightarrow> levels_ok (SetPriority t p k)"
  unfolding cpu_inv_def sched_core_def levels_ok_def SetPriority_simps by auto

lemma cpu_inv_step:
  assumes "kernel_step k k'" "cpu_inv k"
  shows "cpu_inv k'"
  using assms(1)
proof cases
  case tick
  then show ?thesis using cpu_inv_SysTick(1) [OF assms(2)] by simp
next
  case (switch stack sig now ctrl)
  then show ?thesis using select_thread_facts(1) [OF assms(2)] by simp
next
  case (wake_queue obj n)
  then show ?thesis using cpu_inv_wakeup(1) [OF assms(2)] by simp
next
  case (wake_thread t b)
  then show ?thesis using cpu_inv_wakeup_thread(1) [OF assms(2)] by simp
next
  case pend
  then show ?thesis using assms(2) by simp
next
  case (destroy obj)
  then show ?thesis using cpu_inv_destroy(1) [OF assms(2)] by simp
next
  case (block d obj deadline)
  then have "suspends obj d k (suspend_clock obj d deadline k)"
    using assms(2) by (intro suspend_clock_facts) (simp_all add: thread_runs_def)
  then show ?thesis using block by (simp add: suspends_def Let_def cpu_inv_SetBlockingObject)
next
  case (block_untimed d obj)
  then have "suspends obj d k (suspend_waiting obj d k)"
    using assms(2) by (intro suspend_waiting_facts) (simp_all add: thread_runs_def)
  then show ?thesis using block_untimed by (simp add: suspends_def Let_def cpu_inv_SetBlockingObject)
next
  case (snooze d c r)
  then show ?thesis using cpu_inv_snooze [OF assms(2)] by simp
next
  case (detach n)
  then show ?thesis using cpu_inv_Detatch [OF assms(2)] by simp
next
  case stop
  then show ?thesis using cpu_inv_self_block [OF assms(2)] by (simp add: stop_thread_def)
next
  case exit
  then show ?thesis using cpu_inv_self_block [OF assms(2)] by (simp add: kthread_exit_def)
next
  case (spawn t attribs stack)
  then show ?thesis
    using cpu_inv_spawn [OF assms(2), of t "KThreadCB_new attribs stack"]
    by (simp add: KThreadCB_new_def Let_def PriToLevel_bound)
next
  case (set_priority h p)
  then show ?thesis
    using assms(2) cpu_inv_set_priority [OF assms(2)] by (cases h) (simp_all add: kthread_set_priority_def Let_def)
qed

text \<open>
  Only a change of the priority of a ready thread, which \<open>kthread_set_priority\<close> leaves on its list, puts a
  thread on a list that is not that of its priority.
\<close>

lemma levels_ok_step:
  assumes "kernel_step k k'" and inv: "cpu_inv k" and lev: "levels_ok k"
    and "\<And>t p. thread_state k t = ThreadState_Ready \<Longrightarrow> k' \<noteq> snd (kthread_set_priority (Some t) p k)"
  shows "levels_ok k'"
  using assms(1)
proof cases
  case tick
  then show ?thesis using lev by (simp add: SysTick_Handler_def wakeup_sleeping_threads_def levels_ok_sleeping_loop)
next
  case (switch stack sig now ctrl)
  then show ?thesis using levels_ok_select_thread [OF lev] by simp
next
  case (wake_queue obj n)
  then show ?thesis using levels_ok_wakeup [OF lev] by simp
next
  case (wake_thread t b)
  then show ?thesis using lev by (simp add: wakeup_thread_def Let_def levels_ok_add_ready)
next
  case pend
  then show ?thesis using lev by simp
next
  case (destroy obj)
  then show ?thesis using levels_ok_destroy_loop [OF lev]
    by (auto simp: destroy_KNamedObject_def split: prod.splits) (metis snd_conv)+
next
  case (block d obj deadline)
  then show ?thesis using suspend_clock_levels [OF lev] by (simp add: levels_ok_SetBlockingObject)
next
  case (block_untimed d obj)
  then show ?thesis using suspend_waiting_levels [OF lev] by (simp add: levels_ok_SetBlockingObject)
next
  case (snooze d c r)
  then show ?thesis using lev by (simp add: ksnooze_enter_def Let_def levels_ok_SetState)
next
  case (detach n)
  then show ?thesis using lev by simp
next
  case stop
  then show ?thesis using lev by (simp add: stop_thread_def levels_ok_SetState)
next
  case exit
  then show ?thesis using lev by (simp add: kthread_exit_def levels_ok_SetState)
next
  case (spawn t attribs stack)
  then show ?thesis
    using lev by (auto simp: KThreadCB_new_def Let_def spawn_thread_def levels_ok_def add_ready_ThreadList add_ready_priority)
next
  case (set_priority h p)
  show ?thesis
  proof (cases h)
    case (Some t)
    then have "thread_state k t \<noteq> ThreadState_Ready" using assms(4) [of t p] set_priority by auto
    then show ?thesis using set_priority Some lev levels_ok_set_priority [OF inv lev]
      by (simp add: kthread_set_priority_def Let_def)
  qed (use set_priority lev in \<open>simp add: kthread_set_priority_def Let_def\<close>)
qed

lemma kernel_boot:
  assumes "idle \<noteq> init"
  shows "cpu_inv (start_scheduler idle init idleStack initStack initSize)"
    "levels_ok (start_scheduler idle init idleStack initStack initSize)"
proof -
  define k where "k = SetState idle ThreadState_Running
     \<lparr>threads = (\<lambda>_. deleted_thread)(idle := KThreadCB_new (Some \<lparr>a_Priority = KTHREAD_PRIORITY_MIN, a_Detached = True, a_StackSize = 256\<rparr>) idleStack),
      gk_CurrentThread = idle, gk_InitThread = init, gk_IdleThread = idle,
      thread_lists = (\<lambda>_. []), wait_nodes = (\<lambda>_. new_wait_node), wait_lists = (\<lambda>_. []),
      g_SystemTimeNS = 0, g_RealTime = FromNative 0, m_PendSV = False, m_Panicked = False\<rparr>"
  have st: "thread_state k t = (if t = idle then ThreadState_Running else ThreadState_Deleted)" for t
    by (simp add: k_def SetState_simps deleted_thread_def)
  have ml: "m_ThreadList (threads k t) = None" for t
    by (simp add: k_def SetState_simps deleted_thread_def KThreadCB_new_def Let_def)
  have pl: "priority_level k t < KTHREAD_PRIORITY_LEVELS" for t
    by (simp add: k_def SetState_simps deleted_thread_def KThreadCB_new_def Let_def PriToLevel_bound)
  have "cpu_inv k"
    unfolding cpu_inv_def sched_core_def wait_core_def running_unique_def st ml
    using pl by (simp add: k_def SetState_simps runnable_def new_wait_node_def deleted_thread_def)
  moreover have "gk_CurrentThread k = idle" by (simp add: k_def SetState_simps)
  ultimately have "cpu_inv (spawn_thread init (KThreadCB_new a initStack) k)" for a
    using assms by (intro cpu_inv_spawn) (simp_all add: st ml KThreadCB_new_def Let_def PriToLevel_bound)
  moreover have "levels_ok (spawn_thread init (KThreadCB_new a initStack) k)" for a
    by (auto simp: levels_ok_def spawn_thread_def add_ready_ThreadList add_ready_priority ml KThreadCB_new_def)
  ultimately show "cpu_inv (start_scheduler idle init idleStack initStack initSize)"
    "levels_ok (start_scheduler idle init idleStack initStack initSize)"
    by (simp_all add: start_scheduler_def k_def Let_def)
qed

lemma kernel_reachable_ok: "kernel_reachable k \<Longrightarrow> cpu_inv k"
  by (induction rule: kernel_reachable.induct) (auto intro: kernel_boot cpu_inv_step)

section \<open>Properties of the scheduler\<close>

lemma sched_level_eq: "sched_eq k k' \<Longrightarrow> sched_level k' t = sched_level k t"
  by (auto simp: sched_eq_def sched_level_def split: option.split KThreadList.split)

lemma select_thread_highest:
  fixes ctrl :: u32 and sig :: "kernel \<Rightarrow> u32 \<Rightarrow> u32" and now :: TimeValNanos
  assumes inv: "cpu_inv k" and st: "m_StackTop (threads k (gk_CurrentThread k)) < stack"
    and nz: "thread_state k (gk_CurrentThread k) \<noteq> ThreadState_Zombie"
  defines "k' \<equiv> snd (select_thread sig now stack ctrl k)"
  shows "thread_state k' t = ThreadState_Ready \<Longrightarrow> sched_level k t \<le> sched_level k (gk_CurrentThread k')"
    "priority_level k' u = priority_level k u"
proof -
  define k0 where "k0 = upd_thread (gk_CurrentThread k) (\<lambda>c. c\<lparr>m_CurrentStackAndPrivilege := stack OR (ctrl AND 1)\<rparr>) (k\<lparr>m_PendSV := False\<rparr>)"
  have e0: "sched_eq (k\<lparr>m_PendSV := False\<rparr>) k0" unfolding k0_def by (rule sched_eq_k0)
  have inv0: "cpu_inv k0" using sched_eq_cpu_inv [OF e0] inv by simp
  have lev0: "sched_level k0 t = sched_level k t" "priority_level k0 t = priority_level k t" for t
    using e0 by (auto simp: sched_eq_def sched_level_def split: option.split KThreadList.split)
  have e1: "sched_eq (select_core k0) k'" unfolding k'_def k0_def by (rule select_thread_core [OF st])
  have cur0: "gk_CurrentThread k0 = gk_CurrentThread k" "thread_state k0 (gk_CurrentThread k) = thread_state k (gk_CurrentThread k)"
    using e0 by (simp_all add: sched_eq_def)
  note c0 = cpu_inv_parts(1) [OF inv0] cpu_inv_parts(3) [OF inv0] refl
  let ?l = "select_loop (gk_CurrentThread k0) KTHREAD_PRIORITY_LEVELS k0"
  note f = select_loop_facts(6,7) [OF c0, of "gk_CurrentThread k0"]
  have "thread_state ?l (gk_CurrentThread k0) \<noteq> ThreadState_Zombie"
    using f nz cur0 by (cases "runnable (thread_state k0 (gk_CurrentThread k0))") (auto simp: runnable_def)
  then have l: "select_core k0 = ?l" by (simp add: select_core_def Let_def)
  have np: "m_ThreadList (threads k0 (gk_CurrentThread k0)) = Some (ReadyList i) \<Longrightarrow>
      thread_state k0 (gk_CurrentThread k0) \<noteq> ThreadState_Running" for i
    using running_no_list [OF inv0, of "gk_CurrentThread k0"] by auto
  show "sched_level k t \<le> sched_level k (gk_CurrentThread k')" if "thread_state k' t = ThreadState_Ready"
    using select_loop_highest [OF c0 np, where t = t] that e1 l by (simp add: sched_eq_def lev0)
  show "priority_level k' u = priority_level k u"
    using select_loop_priority [OF c0, of u] e1 l by (simp add: sched_eq_def lev0)
qed

text \<open>
  C8. In every reachable state, a context switch leaves the processor with a running thread, the only
  one marked running, and no assertion of the list code has failed. The scheduler saw no thread that
  is ready afterwards at a higher level than the thread it chose, where a thread is seen at the
  level of the ready list it stands on and a running one at its priority. So no ready thread whose
  list was that of its priority has a higher priority than the running thread, if that one's
  list was that of its priority too; only \<open>kthread_set_priority\<close> of a ready thread, which is among the
  steps, makes a list differ from the priority (\<open>levels_ok_step\<close>). The thread left must not be exiting: the
  waiters of a dead thread are woken only after the next one has been chosen.
\<close>

theorem scheduler_runs_highest:
  assumes "kernel_reachable k" "m_StackTop (threads k (gk_CurrentThread k)) < stack"
    and "thread_state k (gk_CurrentThread k) \<noteq> ThreadState_Zombie"
    and "k' = snd (select_thread sig now stack ctrl k)"
  shows "thread_state k' (gk_CurrentThread k') = ThreadState_Running \<and>
    (\<forall>t. thread_state k' t = ThreadState_Running \<longrightarrow> t = gk_CurrentThread k') \<and>
    (\<forall>t. thread_state k' t = ThreadState_Ready \<longrightarrow> sched_level k t \<le> sched_level k (gk_CurrentThread k')) \<and>
    (\<forall>t. thread_state k' t = ThreadState_Ready \<and> sched_level k t = priority_level k t \<and>
         sched_level k (gk_CurrentThread k') = priority_level k (gk_CurrentThread k') \<longrightarrow>
       priority_level k' t \<le> priority_level k' (gk_CurrentThread k')) \<and>
    \<not> m_Panicked k'"
proof -
  have ok: "cpu_inv k" by (rule kernel_reachable_ok [OF assms(1)])
  note f = select_thread_facts [OF ok assms(2), where sig = sig and now = now and ctrl = ctrl]
  note h = select_thread_highest [OF ok assms(2,3), where sig = sig and now = now and ctrl = ctrl]
  have "(\<forall>t. thread_state k' t = ThreadState_Running \<longrightarrow> t = gk_CurrentThread k') \<and> \<not> m_Panicked k'"
    using cpu_inv_parts(3,4) [of k'] f(1) unfolding assms(4) running_unique_def by blast
  moreover have "thread_state k' (gk_CurrentThread k') = ThreadState_Running" using f(2) unfolding assms(4) .
  ultimately show ?thesis using h unfolding assms(4) by metis
qed

lemma select_loop_numeral:
  "select_loop p (numeral v) k =
     (case gk_ReadyThreadLists k (pred_numeral v) of
        [] \<Rightarrow> select_loop p (pred_numeral v) k
      | n # _ \<Rightarrow>
          if thread_state k p \<noteq> ThreadState_Running \<or> pred_numeral v \<ge> priority_level k p
          then switch_to p (pred_numeral v) n k else select_loop p (pred_numeral v) k)"
  by (simp add: numeral_eq_Suc switch_to_def split: list.split)

theorem scheduler_runs_highest_witness:
  "\<exists>k'. k' = snd (select_thread (\<lambda>_. id) (FromNative 5) 4096 1 (start_scheduler 0 1 64 512 256)) \<and>
     gk_CurrentThread k' = 1 \<and> thread_state k' 0 = ThreadState_Ready \<and> priority_level k' 0 \<le> priority_level k' 1"
proof -
  let ?k = "start_scheduler 0 1 64 512 256"
  let ?r = "snd (select_thread (\<lambda>_. id) (FromNative 5) 4096 1 ?k)"
  have r: "kernel_reachable ?k" by (rule kernel_reachable.boot) simp
  have b: "gk_CurrentThread ?k = 0" "m_StackTop (threads ?k 0) = 64" "thread_state ?k 0 = ThreadState_Running"
    by (simp_all add: start_scheduler_def spawn_thread_def add_thread_to_ready_list_def SetState_def upd_thread_def Let_def
      thread_list_Append_def kassert_def KThreadCB_new_def)
  have "gk_CurrentThread ?r = 1 \<and> thread_state ?r 0 = ThreadState_Ready"
    by (simp add: start_scheduler_def spawn_thread_def add_thread_to_ready_list_def SetState_def upd_thread_def Let_def
      thread_list_Append_def thread_list_Remove_def kassert_def KThreadCB_new_def deleted_thread_def PriToLevel_def
      KTHREAD_PRIORITY_LEVELS_def KTHREAD_PRIORITY_MIN_def select_thread_def select_core_def resume_selected_def
      HasUnblockedPendingSignals_def select_loop_numeral switch_to_def)
  moreover have "\<forall>t. thread_state ?r t = ThreadState_Ready \<longrightarrow> priority_level ?r t \<le> priority_level ?r (gk_CurrentThread ?r)"
    using scheduler_runs_highest [OF r, of 4096 ?r "\<lambda>_. id" "FromNative 5" 1] b kernel_boot(2) [of 0 1 64 512 256]
    by (simp add: sched_level_ok)
  ultimately show ?thesis by (intro exI [of _ ?r]) auto
qed

lemma drop_takeWhile_not:
  "drop (length (takeWhile P xs)) xs = dropWhile P xs"
  by (induction xs) auto

lemma sorted_dropWhile_not_due:
  assumes "sorted (map f xs)" "x \<in> set (dropWhile (\<lambda>x. f x \<le> (c :: 'b :: linorder)) xs)"
  shows "\<not> f x \<le> c"
  using assms by (induction xs) (auto split: if_splits)

text \<open>After every timer interrupt the sleep list is in the order of the resume times and holds no node
  that is due; a sleeping thread whose node was due has been made ready, and threads without a
  due node keep their state.
\<close>

theorem SysTick_wakes_due:
  assumes "kernel_reachable k" "k' = SysTick_Handler k"
  shows "sorted (map (\<lambda>n. m_ResumeTime (wait_nodes k' n)) (gk_SleepingThreads k')) \<and>
    (\<forall>n\<in>set (gk_SleepingThreads k'). \<not> m_ResumeTime (wait_nodes k' n) \<le> kget_monotonic_time (kclock k')) \<and>
    (\<forall>t. thread_state k' t =
       (if thread_state k t = ThreadState_Sleeping \<and>
           (\<exists>n\<in>set (gk_SleepingThreads k). m_Thread (wait_nodes k n) = Some t \<and>
              m_ResumeTime (wait_nodes k n) \<le> kget_monotonic_time (kclock k'))
        then ThreadState_Ready else thread_state k t))"
proof -
  have inv: "cpu_inv k" by (rule kernel_reachable_ok [OF assms(1)])
  let ?k1 = "k\<lparr>g_SystemTimeNS := g_SystemTimeNS k + 1000000\<rparr>" and ?P = "\<lambda>s. s = ThreadState_Sleeping"
  have c: "sched_core ?k1" "wait_core ?k1"
    using inv by (auto simp: cpu_inv_def sched_core_def wait_core_def IsZombie_def)
  let ?k2 = "wakeup_sleeping_loop (gk_SleepingThreads ?k1) ?k1" and ?ns = "gk_SleepingThreads k"
  have w: "woken_up ?P SleepingThreads (takeWhile (due ?k1) ?ns) ?k1 ?k2"
    using wakeup_sleeping_loop_facts [OF c refl] by simp
  have k': "k' = KSWITCH_CONTEXT ?k2"
    by (simp add: assms(2) SysTick_Handler_def wakeup_sleeping_threads_def)
  have tm: "kget_monotonic_time (kclock k') = kget_monotonic_time (kclock ?k1)"
    using w by (simp add: k' KSWITCH_CONTEXT_def kclock_def kget_monotonic_time_def kget_monotonic_time_ns_def
        woken_up_def same_globals_def)
  have nodes: "m_ResumeTime (wait_nodes k' n) = m_ResumeTime (wait_nodes k n)" for n
    using w by (simp add: k' KSWITCH_CONTEXT_def woken_up_def)
  have sl: "gk_SleepingThreads k' = dropWhile (due ?k1) ?ns"
    using w by (simp add: k' KSWITCH_CONTEXT_def woken_up_def drop_takeWhile_not)
  have srt: "sorted (map (\<lambda>n. m_ResumeTime (wait_nodes k n)) ?ns)"
    using cpu_inv_parts(2) [OF inv] by (simp add: wait_core_def)
  have dd: "due ?k1 = (\<lambda>n. m_ResumeTime (wait_nodes k n) \<le> kget_monotonic_time (kclock k'))"
    by (simp add: due_def tm fun_eq_iff)
  have "sorted (map (\<lambda>n. m_ResumeTime (wait_nodes k' n)) (gk_SleepingThreads k'))"
    unfolding nodes sl using srt by (metis dropWhile_eq_drop drop_map sorted_wrt_drop)
  moreover have "\<not> m_ResumeTime (wait_nodes k' n) \<le> kget_monotonic_time (kclock k')" if "n \<in> set (gk_SleepingThreads k')" for n
    using sorted_dropWhile_not_due [OF srt] that unfolding nodes sl dd by blast
  moreover have "thread_state k' t = woken_state ?P ?k1 (takeWhile (due ?k1) ?ns) t" for t
    using woken_up_state [OF w] by (simp add: k' KSWITCH_CONTEXT_def)
  moreover have "set (takeWhile (due ?k1) ?ns) = {n \<in> set ?ns. m_ResumeTime (wait_nodes k n) \<le> kget_monotonic_time (kclock k')}"
    unfolding dd by (rule takeWhile_sorted_due [OF srt])
  ultimately show ?thesis
    by (auto simp: woken_state_def wakes_def)
qed

theorem SysTick_wakes_due_witness:
  "\<exists>k'. k' = SysTick_Handler (start_scheduler 0 1 64 512 256) \<and> gk_SleepingThreads k' = [] \<and> thread_state k' 1 = ThreadState_Ready"
proof -
  let ?k = "start_scheduler 0 1 64 512 256"
  have r: "kernel_reachable ?k" by (rule kernel_reachable.boot) simp
  have s: "gk_SleepingThreads ?k = []" "thread_state ?k 1 = ThreadState_Ready"
    by (simp_all add: start_scheduler_def spawn_thread_def add_thread_to_ready_list_def SetState_def upd_thread_def Let_def
      thread_list_Append_def kassert_def KThreadCB_new_def deleted_thread_def)
  then have "gk_SleepingThreads (SysTick_Handler ?k) = []"
    by (simp add: SysTick_Handler_def wakeup_sleeping_threads_def KSWITCH_CONTEXT_def)
  with SysTick_wakes_due [OF r refl] s show ?thesis by simp
qed

lemma set_priority_keeps_list:
  "thread_lists (snd (kthread_set_priority (Some t) p k)) = thread_lists k"
  by (simp add: kthread_set_priority_def SetPriority_simps Let_def KSWITCH_CONTEXT_def)

text \<open>
  C37. \<open>kthread_set_priority\<close> pends a context switch when it raises the priority of another thread, but a
  ready thread stays on the list of its old priority, so the switch does not see it.
\<close>
theorem raised_ready_thread_not_run:
  "\<exists>k t k'. kernel_reachable k \<and> thread_state k t = ThreadState_Ready \<and>
     k' = snd (select_thread (\<lambda>_. id) (FromNative 5) 4096 1 (snd (kthread_set_priority (Some t) 15 k))) \<and>
     gk_CurrentThread k' \<noteq> t \<and> priority_level k' t > priority_level k' (gk_CurrentThread k')"
proof -
  let ?b = "start_scheduler 0 1 64 512 256"
  let ?k = "snd (select_thread (\<lambda>_. id) (FromNative 5) 4096 1 ?b)"
  have r: "kernel_reachable ?b" by (rule kernel_reachable.boot) simp
  have "m_StackTop (threads ?b (gk_CurrentThread ?b)) < 4096"
    by (simp add: start_scheduler_def spawn_thread_def add_thread_to_ready_list_def SetState_def upd_thread_def Let_def
      thread_list_Append_def kassert_def KThreadCB_new_def)
  then have rk: "kernel_reachable ?k" by (intro kernel_reachable.step [OF r] kernel_step.switch)
  let ?k' = "snd (select_thread (\<lambda>_. id) (FromNative 5) 4096 1 (snd (kthread_set_priority (Some 0) 15 ?k)))"
  have "thread_state ?k 0 = ThreadState_Ready \<and> gk_CurrentThread ?k' = 1 \<and> priority_level ?k' 0 = 31 \<and> priority_level ?k' 1 = 16"
    by (simp add: start_scheduler_def spawn_thread_def add_thread_to_ready_list_def SetState_def upd_thread_def Let_def
      thread_list_Append_def thread_list_Remove_def kassert_def KThreadCB_new_def deleted_thread_def PriToLevel_def
      KTHREAD_PRIORITY_LEVELS_def KTHREAD_PRIORITY_MIN_def select_thread_def select_core_def resume_selected_def
      HasUnblockedPendingSignals_def select_loop_numeral switch_to_def kthread_set_priority_def SetPriority_def
      KSWITCH_CONTEXT_def)
  then show ?thesis
    by - (rule exI [of _ ?k], rule exI [of _ 0], rule exI [of _ ?k'],
      simp only: rk HOL.simp_thms, simp)
qed

end
