(* ===== verification/WaitQueue.thy ===== *)
theory WaitQueue
  imports Scheduler
begin

text \<open>
  What semaphores, mutexes and condition variables have in common: threads suspend themselves on the
  wait queue of the object with a node on their own stack, are taken off it by wakeups,
  timeouts or their own \<open>Detatch\<close>, and everything else in the kernel leaves the queue alone.
  \<open>waitq_action\<close> lists the ways an object may use the kernel; the locale \<open>wait_object\<close> states that a step
  relation keeps to them, and gives the invariant that no waiter is lost.
\<close>

section \<open>The rest of the kernel\<close>

text \<open>
  Interrupts, context switches and wakeups that are not about the queue of \<open>self\<close>, and what a running
  thread that is not in a call of \<open>self\<close> does to itself.
\<close>

inductive kernel_env :: "KNamedObject \<Rightarrow> kernel \<Rightarrow> kernel \<Rightarrow> bool" for self where
  tick: "kernel_env self k (SysTick_Handler k)"
| switch: "m_StackTop (threads k (gk_CurrentThread k)) < stack \<Longrightarrow>
    kernel_env self k (snd (select_thread sig now stack ctrl k))"
| wake_queue: "obj \<noteq> self \<Longrightarrow> kernel_env self k (snd (wakeup_wait_queue obj n k))"
| wake_thread: "kernel_env self k (snd (wakeup_thread t b k))"
| pend: "kernel_env self k (KSWITCH_CONTEXT k)"

inductive kernel_self :: "KNamedObject \<Rightarrow> kernel \<Rightarrow> kernel \<Rightarrow> bool" for self where
  block: "obj \<noteq> self \<Longrightarrow> node_free (WaitNode (gk_CurrentThread k) d) k \<Longrightarrow> node_free (SleepNode (gk_CurrentThread k) d) k \<Longrightarrow>
    kernel_self self k (KSWITCH_CONTEXT (SetBlockingObject (gk_CurrentThread k) (Some obj) (suspend_clock obj d deadline k)))"
| snooze: "node_free (SleepNode (gk_CurrentThread k) d) k \<Longrightarrow> kernel_self self k (snd (ksnooze_enter c d r k))"
| detach_wait: "kernel_self self k (snd (Detatch (WaitNode (gk_CurrentThread k) d) k))"
| detach_sleep: "kernel_self self k (snd (Detatch (SleepNode (gk_CurrentThread k) d) k))"
| stop: "kernel_self self k (stop_thread k)"
| exit: "kernel_self self k (kthread_exit k)"

section \<open>The invariant of a wait queue\<close>

text \<open>
  \<open>B\<close> are the threads suspended in a call of the object and \<open>F\<close> nodes known not to be on any list, of
  threads that are about to try the object again. Every node on the queue belongs to a suspended thread, and a suspended thread that is not on the
  queue is not blocked any more: somebody has woken it.
\<close>

fun node_thread :: "KThreadWaitNodeRef \<Rightarrow> thread_id" where
  "node_thread (WaitNode t d) = t"
| "node_thread (SleepNode t d) = t"

definition waitq_inv :: "KNamedObject \<Rightarrow> thread_id set \<Rightarrow> KThreadWaitNodeRef set \<Rightarrow> kernel \<Rightarrow> bool" where
  "waitq_inv self B F k \<longleftrightarrow>
     cpu_inv k \<and>
     (\<forall>n \<in> set (m_WaitQueue k self). \<exists>t\<in>B. n = WaitNode t 0) \<and>
     (\<forall>t\<in>B. m_Thread (wait_nodes k (WaitNode t 0)) = Some t \<and> \<not> m_TargetDeleted (wait_nodes k (WaitNode t 0)) \<and>
        (WaitNode t 0 \<in> set (m_WaitQueue k self) \<or> node_free (WaitNode t 0) k \<and> \<not> blocked (thread_state k t))) \<and>
     (\<forall>n\<in>F. node_free n k \<and> node_thread n \<noteq> gk_IdleThread k \<and> \<not> blocked (thread_state k (node_thread n))) \<and>
     gk_IdleThread k \<notin> B"

lemma waitq_invD:
  assumes "waitq_inv self B F k"
  shows "cpu_inv k"
    and "n \<in> set (m_WaitQueue k self) \<Longrightarrow> \<exists>t\<in>B. n = WaitNode t 0"
    and "t \<in> B \<Longrightarrow> \<not> m_TargetDeleted (wait_nodes k (WaitNode t 0))"
    and "t \<in> B \<Longrightarrow> WaitNode t 0 \<in> set (m_WaitQueue k self) \<or> \<not> blocked (thread_state k t)"
    and "n \<in> F \<Longrightarrow> \<not> blocked (thread_state k (node_thread n))"
    and "n \<in> F \<Longrightarrow> node_free n k" and "n \<in> F \<Longrightarrow> node_thread n \<noteq> gk_IdleThread k"
    and "t \<in> B \<Longrightarrow> WaitNode t 0 \<notin> set (m_WaitQueue k self) \<Longrightarrow> node_free (WaitNode t 0) k"
  using assms by (auto simp: waitq_inv_def)

lemma node_free_iff: "wait_core k \<Longrightarrow> node_free n k \<longleftrightarrow> (\<forall>l. n \<notin> set (wait_lists k l))"
  by (auto simp: node_free_def wait_core_def)

text \<open>Steps that keep the queue and the data of its nodes and do not block anybody keep the invariant.\<close>

lemma waitq_inv_keep:
  assumes inv: "waitq_inv self B F k" and c: "cpu_inv k'" and q: "m_WaitQueue k' self = m_WaitQueue k self"
    and nd: "\<And>t. t \<in> B \<Longrightarrow> m_Thread (wait_nodes k' (WaitNode t 0)) = m_Thread (wait_nodes k (WaitNode t 0)) \<and>
        m_TargetDeleted (wait_nodes k' (WaitNode t 0)) = m_TargetDeleted (wait_nodes k (WaitNode t 0))"
    and fr: "\<And>n. n \<in> F \<or> (\<exists>t\<in>B. n = WaitNode t 0) \<Longrightarrow> node_free n k \<Longrightarrow> node_free n k'"
    and bl: "\<And>t. t \<in> B \<or> t \<in> node_thread ` F \<Longrightarrow> \<not> blocked (thread_state k t) \<Longrightarrow> \<not> blocked (thread_state k' t)"
    and idle: "gk_IdleThread k' = gk_IdleThread k"
  shows "waitq_inv self B F k'"
  using assms unfolding waitq_inv_def by (simp add: idle) blast

lemma free_shrink:
  assumes "wait_core k" "wait_core k'" "\<And>l. set (wait_lists k' l) \<subseteq> set (wait_lists k l)"
  shows "node_free n k \<Longrightarrow> node_free n k'"
  using assms(3) unfolding node_free_iff [OF assms(1)] node_free_iff [OF assms(2)] by blast

lemma woken_lists_subset: "woken_up P l ns k k' \<Longrightarrow> set (wait_lists k' l') \<subseteq> set (wait_lists k l')"
  by (auto simp: woken_up_def dest: in_set_dropD)

lemma kernel_env_facts:
  assumes env: "kernel_env self k k'" and inv: "cpu_inv k" and self: "\<exists>i. self = SyncObject i"
  shows "cpu_inv k'" "threads_advance k k'" "m_WaitQueue k' self = m_WaitQueue k self"
    "same_nodes k k'" "\<And>l. set (wait_lists k' l) \<subseteq> set (wait_lists k l)" "gk_IdleThread k' = gk_IdleThread k"
proof -
  have "cpu_inv k' \<and> threads_advance k k' \<and> m_WaitQueue k' self = m_WaitQueue k self \<and> same_nodes k k' \<and>
    (\<forall>l. set (wait_lists k' l) \<subseteq> set (wait_lists k l)) \<and> gk_IdleThread k' = gk_IdleThread k"
    using env
  proof cases
    case tick
    let ?k1 = "k\<lparr>g_SystemTimeNS := g_SystemTimeNS k + 1000000\<rparr>"
    have c: "sched_core ?k1" "wait_core ?k1"
      using inv by (auto simp: cpu_inv_def sched_core_def wait_core_def IsZombie_def)
    note w = wakeup_sleeping_loop_facts [OF c refl]
    show ?thesis
      using cpu_inv_SysTick [OF inv] w woken_lists_subset [OF w [THEN conjunct1]] tick
      by (auto simp: SysTick_Handler_def wakeup_sleeping_threads_def KSWITCH_CONTEXT_def woken_up_def same_nodes_def
        same_globals_def dest: in_set_dropD)
  next
    case (switch stack sig now ctrl)
    then show ?thesis using select_thread_facts [OF inv switch(2)] self by auto
  next
    case (wake_queue obj n)
    note w = wakeup_wait_queue_facts [OF cpu_inv_parts(1) [OF inv] cpu_inv_parts(2) [OF inv], of obj n]
    show ?thesis using wake_queue w cpu_inv_wakeup [OF inv, of obj n] woken_lists_subset [OF w(1)]
      by (auto simp: woken_up_def same_globals_def)
  next
    case (wake_thread t b)
    then show ?thesis using cpu_inv_wakeup_thread [OF inv, of t b] by (simp add: same_nodes_def same_globals_def)
  next
    case pend
    then show ?thesis using inv by (simp add: KSWITCH_CONTEXT_def same_nodes_def threads_advance_def)
  qed
  then show "cpu_inv k'" "threads_advance k k'" "m_WaitQueue k' self = m_WaitQueue k self"
    "same_nodes k k'" "\<And>l. set (wait_lists k' l) \<subseteq> set (wait_lists k l)" "gk_IdleThread k' = gk_IdleThread k"
    by blast+
qed

lemma waitq_env:
  assumes "waitq_inv (SyncObject i) B F k" "kernel_env (SyncObject i) k k'"
  shows "waitq_inv (SyncObject i) B F k'" "m_WaitQueue k' (SyncObject i) = m_WaitQueue k (SyncObject i)"
proof -
  have c: "cpu_inv k" using assms(1) by (simp add: waitq_inv_def)
  note f = kernel_env_facts [OF assms(2) c]
  show "m_WaitQueue k' (SyncObject i) = m_WaitQueue k (SyncObject i)" using f(3) by blast
  show "waitq_inv (SyncObject i) B F k'"
  proof (rule waitq_inv_keep [OF assms(1)])
    show "node_free n k'" if "node_free n k" for n
      using free_shrink [OF cpu_inv_parts(2) [OF c] cpu_inv_parts(2) [OF f(1)] f(5) that] by blast
  qed (use f threads_advance_blocked in \<open>auto simp: same_nodes_def\<close>)
qed

lemma Detatch_facts:
  fixes n :: KThreadWaitNodeRef
  assumes inv: "cpu_inv k"
  defines "k' \<equiv> snd (Detatch n k)"
  shows "cpu_inv k'" "wait_lists k' = (\<lambda>l. remove1 n (wait_lists k l))" "threads k' = threads k" "same_globals k k'"
    "same_nodes k k'" "m_List (wait_nodes k' m) = (if m = n then None else m_List (wait_nodes k m))"
    "fst (Detatch n k) = (m_List (wait_nodes k n) \<noteq> None)"
proof -
  have wc: "wait_core k" by (rule cpu_inv_parts(2) [OF inv])
  have "wait_lists k' = (\<lambda>l. remove1 n (wait_lists k l)) \<and> same_globals k k' \<and> same_nodes k k' \<and>
      m_List (wait_nodes k' m) = (if m = n then None else m_List (wait_nodes k m)) \<and>
      fst (Detatch n k) = (m_List (wait_nodes k n) \<noteq> None)" for m
  proof (cases "m_List (wait_nodes k n)")
    case None
    then have "n \<notin> set (wait_lists k l)" for l using wc by (simp add: wait_core_def)
    then show ?thesis using None by (auto simp: k'_def Detatch_def remove1_idem)
  next
    case (Some l)
    then have mem: "n \<in> set (wait_lists k l)" using wc by (simp add: wait_core_def)
    have "n \<notin> set (wait_lists k l')" if "l' \<noteq> l" for l' using wc Some that by (simp add: wait_core_def)
    then have "(wait_lists k)(l := remove1 n (wait_lists k l)) = (\<lambda>l. remove1 n (wait_lists k l))"
      by (auto simp: fun_eq_iff remove1_idem)
    with Some wait_list_Remove_facts [OF wc mem cpu_inv_parts(4) [OF inv]] show ?thesis
      by (simp add: k'_def Detatch_def)
  qed
  then show "wait_lists k' = (\<lambda>l. remove1 n (wait_lists k l))" "same_globals k k'" "same_nodes k k'"
    "m_List (wait_nodes k' m) = (if m = n then None else m_List (wait_nodes k m))"
    "fst (Detatch n k) = (m_List (wait_nodes k n) \<noteq> None)" by blast+
  show "cpu_inv k'" unfolding k'_def by (rule cpu_inv_Detatch [OF inv])
  show "threads k' = threads k" by (simp add: k'_def)
qed

lemma same_globals_idle: "same_globals k k' \<Longrightarrow> gk_IdleThread k' = gk_IdleThread k"
  by (simp add: same_globals_def)

lemma same_globals_current: "same_globals k k' \<Longrightarrow> gk_CurrentThread k' = gk_CurrentThread k"
  by (simp add: same_globals_def)

lemma waitq_detach_other:
  assumes inv: "waitq_inv self B F k" and n: "\<And>t. t \<in> B \<Longrightarrow> n \<noteq> WaitNode t 0"
  shows "waitq_inv self B F (snd (Detatch n k))" "m_WaitQueue (snd (Detatch n k)) self = m_WaitQueue k self"
proof -
  have c: "cpu_inv k" using inv by (simp add: waitq_inv_def)
  note f = Detatch_facts [OF c, of n]
  have nq: "n \<notin> set (m_WaitQueue k self)" using inv n unfolding waitq_inv_def by blast
  then show q: "m_WaitQueue (snd (Detatch n k)) self = m_WaitQueue k self"
    by (simp add: f(2) remove1_idem)
  show "waitq_inv self B F (snd (Detatch n k))"
    by (rule waitq_inv_keep [OF inv f(1) q])
       (use f(5,6) f(3) same_globals_idle [OF f(4)] in \<open>auto simp: same_nodes_def node_free_def\<close>)
qed

lemma waitq_eq:
  assumes inv: "waitq_inv self B F k" and e: "sched_eq k k'"
  shows "waitq_inv self B F k'" "m_WaitQueue k' self = m_WaitQueue k self"
proof -
  show q: "m_WaitQueue k' self = m_WaitQueue k self" using e by (simp add: sched_eq_def)
  have "cpu_inv k'" by (rule sched_eq_cpu_inv [OF e]) (use inv in \<open>simp add: waitq_inv_def\<close>)
  then show "waitq_inv self B F k'"
    by (rule waitq_inv_keep [OF inv _ q]) (use e in \<open>auto simp: sched_eq_def node_free_def\<close>)
qed

lemma waitq_pend: "waitq_inv self B F k \<Longrightarrow> waitq_inv self B F (KSWITCH_CONTEXT k)"
  by (simp add: waitq_inv_def KSWITCH_CONTEXT_def node_free_def)

text \<open>Another thread blocks, detaches its nodes, stops or exits.\<close>

lemma waitq_blocked_other:
  assumes inv: "waitq_inv self B F k" and s: "suspends obj d k k'" and o: "obj \<noteq> self"
    and cur: "gk_CurrentThread k \<notin> B" and F: "\<And>n. n \<in> F \<Longrightarrow> node_thread n \<noteq> gk_CurrentThread k"
  shows "waitq_inv self B F k'" "m_WaitQueue k' self = m_WaitQueue k self"
proof -
  have f: "cpu_inv k'" "same_globals k k'" "m_WaitQueue k' self = m_WaitQueue k self"
    "\<And>n. n \<noteq> WaitNode (gk_CurrentThread k) d \<Longrightarrow> n \<noteq> SleepNode (gk_CurrentThread k) d \<Longrightarrow>
       m_Thread (wait_nodes k' n) = m_Thread (wait_nodes k n) \<and> m_TargetDeleted (wait_nodes k' n) = m_TargetDeleted (wait_nodes k n) \<and>
       m_List (wait_nodes k' n) = m_List (wait_nodes k n)"
    using s o by (auto simp: suspends_def Let_def)
  obtain st where st: "thread_state k' = (thread_state k)(gk_CurrentThread k := st)"
    using s by (auto simp: suspends_def Let_def)
  show "m_WaitQueue k' self = m_WaitQueue k self" by (rule f(3))
  have sb: "thread_state k' t = thread_state k t" if "t \<in> B \<or> t \<in> node_thread ` F" for t
  proof -
    have "t \<noteq> gk_CurrentThread k"
      using that
    proof
      assume "t \<in> node_thread ` F"
      then obtain n where "n \<in> F" "t = node_thread n" by (rule imageE)
      then show ?thesis using F by simp
    qed (use cur in auto)
    then show ?thesis using fun_cong [OF st, of t] by simp
  qed
  have nt: "n \<noteq> WaitNode (gk_CurrentThread k) d \<and> n \<noteq> SleepNode (gk_CurrentThread k) d"
    if "node_thread n \<noteq> gk_CurrentThread k" for n using that by auto
  have fr: "node_free n k'" if "node_thread n \<noteq> gk_CurrentThread k" "node_free n k" for n
    using f(4) nt [OF that(1)] that(2) by (simp add: node_free_def)
  show "waitq_inv self B F k'"
  proof (rule waitq_inv_keep [OF inv f(1,3)])
    show "node_free n k'" if "n \<in> F \<or> (\<exists>t\<in>B. n = WaitNode t 0)" "node_free n k" for n
    proof (rule fr [OF _ that(2)])
      show "node_thread n \<noteq> gk_CurrentThread k" using that(1) F cur by auto
    qed
    show "m_Thread (wait_nodes k' (WaitNode t 0)) = m_Thread (wait_nodes k (WaitNode t 0)) \<and>
        m_TargetDeleted (wait_nodes k' (WaitNode t 0)) = m_TargetDeleted (wait_nodes k (WaitNode t 0))" if "t \<in> B" for t
      using f(4) [of "WaitNode t 0"] that cur by auto
    show "\<not> blocked (thread_state k' t)" if "t \<in> B \<or> t \<in> node_thread ` F" "\<not> blocked (thread_state k t)" for t
      using sb that by simp
  qed (use f(2) same_globals_idle in auto)
qed

lemma waitq_SetState_other:
  assumes inv: "waitq_inv self B F k" and t: "t \<notin> B" and c: "cpu_inv (SetState t st k)"
    and F: "\<And>n. n \<in> F \<Longrightarrow> node_thread n \<noteq> t"
  shows "waitq_inv self B F (SetState t st k)" "m_WaitQueue (SetState t st k) self = m_WaitQueue k self"
proof -
  show q: "m_WaitQueue (SetState t st k) self = m_WaitQueue k self" by (simp add: SetState_simps)
  show "waitq_inv self B F (SetState t st k)"
    by (rule waitq_inv_keep [OF inv c q]) (use t F in \<open>auto simp: SetState_simps node_free_def\<close>)
qed

lemma waitq_self:
  assumes inv: "waitq_inv self B F k" and s: "kernel_self self k k'" and run: "thread_runs k"
    and ne: "gk_CurrentThread k \<noteq> gk_IdleThread k" and cur: "gk_CurrentThread k \<notin> B"
    and F: "\<And>n. n \<in> F \<Longrightarrow> node_thread n \<noteq> gk_CurrentThread k"
  shows "waitq_inv self B F k' \<and> m_WaitQueue k' self = m_WaitQueue k self"
  using s
proof cases
  case (block obj d deadline)
  have "suspends obj d k (suspend_clock obj d deadline k)"
    using block run ne inv by (intro suspend_clock_facts) (auto simp: waitq_inv_def thread_runs_def)
  note w = waitq_blocked_other [OF inv this block(2) cur F]
  show ?thesis
    using waitq_eq [OF w(1) SetBlockingObject_eq, of "gk_CurrentThread k" "Some obj"] w(2) waitq_pend
    by (simp add: block(1)) (simp add: KSWITCH_CONTEXT_def)
next
  case (snooze d c r)
  let ?n = "SleepNode (gk_CurrentThread k) d"
  let ?f = "\<lambda>_. new_wait_node\<lparr>m_Thread := Some (gk_CurrentThread k),
      m_ResumeTime := nanos_add (FromNative (FromNanoseconds NANOS r)) (FromNative 1000000)\<rparr>"
  let ?k1 = "upd_node ?n ?f k"
  have ci: "cpu_inv k" using inv by (simp add: waitq_inv_def)
  note u = upd_node_free_facts [OF cpu_inv_parts(2) [OF ci] snooze(2) [unfolded node_free_def], of ?f]
  have i1: "cpu_inv ?k1"
    using u cpu_inv_parts(4) [OF ci] by (intro cpu_inv_threads_same [OF ci]) (auto simp: new_wait_node_def)
  have w1: "waitq_inv self B F ?k1"
  proof (rule waitq_inv_keep [OF inv i1])
    show "node_free n ?k1" if "node_free n k" for n
      using that by (simp add: upd_node_def node_free_def new_wait_node_def)
  qed (simp_all add: upd_node_def)
  show ?thesis
  proof (cases c)
    case True
    then show ?thesis using w1 by (simp add: snooze(1) ksnooze_enter_def Let_def upd_node_def)
  next
    case False
    have l1: "m_List (wait_nodes ?k1 ?n) = None" by (simp add: upd_node_def new_wait_node_def)
    note a = add_to_sleep_list_facts [OF cpu_inv_parts(2) [OF i1] l1 cpu_inv_parts(4) [OF i1]]
    let ?k2 = "add_to_sleep_list ?n ?k1"
    have i2: "cpu_inv ?k2" by (rule cpu_inv_threads_same [OF i1 a(4) a(5) a(6) a(1) a(8)])
    have q2: "m_WaitQueue ?k2 self = m_WaitQueue ?k1 self" by (rule a(3))
    have w2: "waitq_inv self B F ?k2"
    proof (rule waitq_inv_keep [OF w1 i2 q2])
      show "node_free n ?k2" if "n \<in> F \<or> (\<exists>t\<in>B. n = WaitNode t 0)" "node_free n ?k1" for n
      proof -
        have "n \<noteq> ?n" using that(1) F [of ?n] by auto
        then show ?thesis using that(2) a(9) [of n] by (simp add: node_free_def)
      qed
    qed (use a(4,6,7) in \<open>auto simp: same_nodes_def same_globals_def\<close>)
    have i3: "cpu_inv (SetState (gk_CurrentThread k) ThreadState_Sleeping ?k2)"
      using run ne a(4,6) u(2,4)
      by (intro cpu_inv_SetState [OF i2]) (simp_all add: thread_runs_def same_globals_def new_wait_node_def)
    note w3 = waitq_SetState_other [OF w2 cur i3 F]
    have "k' = KSWITCH_CONTEXT (SetState (gk_CurrentThread k) ThreadState_Sleeping ?k2)"
      using False by (simp add: snooze(1) ksnooze_enter_def Let_def)
    then show ?thesis using w3 waitq_pend q2 by (simp add: KSWITCH_CONTEXT_def upd_node_def)
  qed
next
  case (detach_wait d)
  then show ?thesis using waitq_detach_other [OF inv, of "WaitNode (gk_CurrentThread k) d"] cur by auto
next
  case (detach_sleep d)
  then show ?thesis using waitq_detach_other [OF inv, of "SleepNode (gk_CurrentThread k) d"] by auto
next
  case stop
  have "cpu_inv (SetState (gk_CurrentThread k) ThreadState_Stopped k)"
    using inv run ne by (intro cpu_inv_self_block) (auto simp: waitq_inv_def)
  from waitq_SetState_other [OF inv cur this F] show ?thesis
    using waitq_pend by (simp add: stop stop_thread_def KSWITCH_CONTEXT_def)
next
  case exit
  have "cpu_inv (SetState (gk_CurrentThread k) ThreadState_Zombie k)"
    using inv run ne by (intro cpu_inv_self_block) (auto simp: waitq_inv_def)
  from waitq_SetState_other [OF inv cur this F] show ?thesis
    using waitq_pend by (simp add: exit kthread_exit_def KSWITCH_CONTEXT_def)
qed

text \<open>A thread suspends itself on the object.\<close>

definition thread_nodes :: "thread_id \<Rightarrow> KThreadWaitNodeRef set" where
  "thread_nodes t = {n. node_thread n = t}"

lemma thread_nodes_iff [simp]: "n \<in> thread_nodes t \<longleftrightarrow> node_thread n = t"
  by (simp add: thread_nodes_def)

lemma waitq_suspend:
  assumes inv: "waitq_inv self B F k" and s: "suspends self 0 k k'"
    and cur: "gk_CurrentThread k \<notin> B" and ne: "gk_CurrentThread k \<noteq> gk_IdleThread k"
  shows "waitq_inv self (insert (gk_CurrentThread k) B) (F - thread_nodes (gk_CurrentThread k)) k'"
    "m_WaitQueue k' self = m_WaitQueue k self @ [WaitNode (gk_CurrentThread k) 0]"
proof -
  let ?t = "gk_CurrentThread k"
  have f: "cpu_inv k'" "same_globals k k'" "m_WaitQueue k' self = m_WaitQueue k self @ [WaitNode ?t 0]"
    "\<And>n. n \<noteq> WaitNode ?t 0 \<Longrightarrow> n \<noteq> SleepNode ?t 0 \<Longrightarrow>
       m_Thread (wait_nodes k' n) = m_Thread (wait_nodes k n) \<and> m_TargetDeleted (wait_nodes k' n) = m_TargetDeleted (wait_nodes k n) \<and>
       m_List (wait_nodes k' n) = m_List (wait_nodes k n)"
    "m_Thread (wait_nodes k' (WaitNode ?t 0)) = Some ?t" "\<not> m_TargetDeleted (wait_nodes k' (WaitNode ?t 0))"
    using s by (auto simp: suspends_def Let_def)
  obtain st where st: "thread_state k' = (thread_state k)(?t := st)"
    using s by (auto simp: suspends_def Let_def)
  show "m_WaitQueue k' self = m_WaitQueue k self @ [WaitNode ?t 0]" by (rule f(3))
  have i: "gk_IdleThread k' = gk_IdleThread k" using f(2) by (simp add: same_globals_def)
  have nb: "m_Thread (wait_nodes k' (WaitNode t 0)) = Some t \<and> \<not> m_TargetDeleted (wait_nodes k' (WaitNode t 0)) \<and>
      (WaitNode t 0 \<in> set (m_WaitQueue k' self) \<or> node_free (WaitNode t 0) k' \<and> \<not> blocked (thread_state k' t))" if "t \<in> B" for t
  proof -
    have "t \<noteq> ?t" using that cur by auto
    then show ?thesis
      using inv f(4) [of "WaitNode t 0"] that fun_cong [OF st, of t] by (auto simp: waitq_inv_def f(3) node_free_def)
  qed
  have ff: "node_free n k' \<and> node_thread n \<noteq> gk_IdleThread k' \<and> \<not> blocked (thread_state k' (node_thread n))" if "n \<in> F - thread_nodes ?t" for n
  proof -
    have "n \<noteq> WaitNode ?t 0" "n \<noteq> SleepNode ?t 0" "node_thread n \<noteq> ?t" using that by auto
    with f(4) [of n] that inv fun_cong [OF st, of "node_thread n"] show ?thesis by (auto simp: waitq_inv_def node_free_def i)
  qed
  show "waitq_inv self (insert ?t B) (F - thread_nodes ?t) k'"
    unfolding waitq_inv_def using f(1,3,5,6) nb ff inv ne by (auto simp: waitq_inv_def i)
qed

text \<open>After the switch it takes its own node off the queue, if nobody else has.\<close>

lemma waitq_detach_self:
  assumes inv: "waitq_inv self B F k" and cur: "gk_CurrentThread k \<in> B"
    and run: "thread_state k (gk_CurrentThread k) = ThreadState_Running"
  defines "n \<equiv> WaitNode (gk_CurrentThread k) 0"
  defines "k' \<equiv> snd (Detatch n k)"
  shows "waitq_inv self (B - {gk_CurrentThread k}) (insert n F) k'" "m_WaitQueue k' self = remove1 n (m_WaitQueue k self)"
    "\<not> m_TargetDeleted (wait_nodes k' n)"
proof -
  have c: "cpu_inv k" using inv by (simp add: waitq_inv_def)
  note f = Detatch_facts [OF c, of n, folded k'_def]
  show q: "m_WaitQueue k' self = remove1 n (m_WaitQueue k self)" by (simp add: f(2))
  have d: "distinct (m_WaitQueue k self)" using cpu_inv_parts(2) [OF c] by (simp add: wait_core_def)
  have idle: "gk_IdleThread k' = gk_IdleThread k" by (rule same_globals_idle [OF f(4)])
  have data: "m_Thread (wait_nodes k' m) = m_Thread (wait_nodes k m)" "m_TargetDeleted (wait_nodes k' m) = m_TargetDeleted (wait_nodes k m)" for m
    using f(5) by (simp_all add: same_nodes_def)
  show "\<not> m_TargetDeleted (wait_nodes k' n)" using inv cur by (simp add: data waitq_inv_def n_def)
  show "waitq_inv self (B - {gk_CurrentThread k}) (insert n F) k'"
    using inv cur run f(1,3,6) d unfolding waitq_inv_def idle data q
    by (auto simp: node_free_def n_def blocked_def)
qed

lemma waitq_detach_sleep:
  assumes inv: "waitq_inv self B F k" and ne: "t \<noteq> gk_IdleThread k" and run: "thread_state k t = ThreadState_Running"
  shows "waitq_inv self B (insert (SleepNode t 0) F) (snd (Detatch (SleepNode t 0) k))"
    "m_WaitQueue (snd (Detatch (SleepNode t 0) k)) self = m_WaitQueue k self"
proof -
  have c: "cpu_inv k" using inv by (simp add: waitq_inv_def)
  note w = waitq_detach_other [OF inv, of "SleepNode t 0"]
  show "m_WaitQueue (snd (Detatch (SleepNode t 0) k)) self = m_WaitQueue k self" using w(2) by simp
  show "waitq_inv self B (insert (SleepNode t 0) F) (snd (Detatch (SleepNode t 0) k))"
    using w(1) Detatch_facts(6) [OF c, of "SleepNode t 0" "SleepNode t 0"] ne run
      same_globals_idle [OF Detatch_facts(4) [OF c, of "SleepNode t 0"]]
    by (simp add: waitq_inv_def node_free_def blocked_def)
qed

text \<open>The object wakes its waiters, from the front of the queue.\<close>

lemma waitq_wake:
  fixes m :: int
  assumes inv: "waitq_inv self B F k"
  defines "k' \<equiv> snd (wakeup_wait_queue self m k)"
  shows "waitq_inv self B F k'" "m_WaitQueue k' self = drop (wakeup_count self m k) (m_WaitQueue k self)"
proof -
  have c: "cpu_inv k" using inv by (simp add: waitq_inv_def)
  let ?q = "m_WaitQueue k self" and ?c = "wakeup_count self m k"
  note w = wakeup_wait_queue_facts [OF cpu_inv_parts(1) [OF c] cpu_inv_parts(2) [OF c], of self m, folded k'_def]
  have c': "cpu_inv k'" and adv: "threads_advance k k'" unfolding k'_def by (rule cpu_inv_wakeup [OF c])+
  show q: "m_WaitQueue k' self = drop ?c ?q" using w(1) by (simp add: woken_up_def min_def)
  have fr: "node_free n k'" if "node_free n k" for n
    by (rule free_shrink [OF cpu_inv_parts(2) [OF c] cpu_inv_parts(2) [OF c'] woken_lists_subset [OF w(1)] that])
  have idle: "gk_IdleThread k' = gk_IdleThread k" using w(1) by (simp add: woken_up_def same_globals_def)
  have d: "distinct ?q" using cpu_inv_parts(2) [OF c] by (simp add: wait_core_def)
  have B: "m_Thread (wait_nodes k' (WaitNode t 0)) = Some t \<and> \<not> m_TargetDeleted (wait_nodes k' (WaitNode t 0)) \<and>
      (WaitNode t 0 \<in> set (drop ?c ?q) \<or> node_free (WaitNode t 0) k' \<and> \<not> blocked (thread_state k' t))" if t: "t \<in> B" for t
  proof (cases "WaitNode t 0 \<in> set ?q")
    case False
    then have "node_free (WaitNode t 0) k" "\<not> blocked (thread_state k t)" using inv t by (auto simp: waitq_inv_def)
    then have "node_free (WaitNode t 0) k'" "\<not> blocked (thread_state k' t)"
      using fr threads_advance_blocked [OF adv] by blast+
    then show ?thesis using inv t w(2) by (simp add: waitq_inv_def same_nodes_def)
  next
    case True
    show ?thesis
    proof (cases "WaitNode t 0 \<in> set (take ?c ?q)")
      case False
      then have "WaitNode t 0 \<in> set (drop ?c ?q)" using True by (metis Un_iff append_take_drop_id set_append)
      then show ?thesis using inv t w(2) by (simp add: waitq_inv_def same_nodes_def)
    next
      case tk: True
      have "WaitNode t 0 \<notin> set (wait_lists k' l)" for l
      proof (cases "l = WaitQueue self")
        case True
        have "set (take ?c ?q) \<inter> set (drop ?c ?q) = {}" by (rule set_take_disj_set_drop_if_distinct [OF d]) simp
        then show ?thesis using tk q True by auto
      next
        case False
        have "WaitNode t 0 \<notin> set (wait_lists k l)"
          using cpu_inv_parts(2) [OF c] True False by (auto simp: wait_core_def)
        then show ?thesis using woken_lists_subset [OF w(1), of l] by blast
      qed
      then have free: "node_free (WaitNode t 0) k'" by (simp add: node_free_iff [OF cpu_inv_parts(2) [OF c']])
      have mt: "m_Thread (wait_nodes k (WaitNode t 0)) = Some t" using inv t by (simp add: waitq_inv_def)
      have "\<not> blocked (thread_state k' t)"
        using woken_up_state [OF w(1), of t] tk mt by (auto simp: woken_state_def wakes_def blocked_def)
      with free inv t w(2) show ?thesis by (simp add: waitq_inv_def same_nodes_def)
    qed
  qed
  show "waitq_inv self B F k'"
    unfolding waitq_inv_def q idle using c' B inv fr threads_advance_blocked [OF adv] by (auto simp: waitq_inv_def dest: in_set_dropD)
qed

section \<open>Objects that threads wait for\<close>

text \<open>
  The ways an object may use the kernel. A state of the protocol is the kernel with the sets \<open>B\<close> and \<open>F\<close>.
\<close>

type_synonym waitq_state = "kernel \<times> thread_id set \<times> KThreadWaitNodeRef set"

inductive waitq_action :: "KNamedObject \<Rightarrow> waitq_state \<Rightarrow> waitq_state \<Rightarrow> bool" for self where
  env: "kernel_env self k k' \<Longrightarrow> waitq_action self (k, B, F) (k', B, F)"
| elsewhere: "kernel_self self k k' \<Longrightarrow> thread_runs k \<Longrightarrow> gk_CurrentThread k \<noteq> gk_IdleThread k \<Longrightarrow>
    gk_CurrentThread k \<notin> B \<Longrightarrow> (\<And>n. n \<in> F \<Longrightarrow> node_thread n \<noteq> gk_CurrentThread k) \<Longrightarrow>
    waitq_action self (k, B, F) (k', B, F)"
| enter: "(\<And>n. n \<in> N \<Longrightarrow> node_free n k \<and> node_thread n = gk_CurrentThread k) \<Longrightarrow>
    thread_runs k \<Longrightarrow> gk_CurrentThread k \<noteq> gk_IdleThread k \<Longrightarrow> waitq_action self (k, B, F) (k, B, F \<union> N)"
| leave: "F' \<subseteq> F \<Longrightarrow> waitq_action self (k, B, F) (k, B, F')"
| other: "sched_eq k k' \<Longrightarrow> waitq_action self (k, B, F) (k', B, F)"
| suspend: "thread_runs k \<Longrightarrow> gk_CurrentThread k \<notin> B \<Longrightarrow> WaitNode (gk_CurrentThread k) 0 \<in> F \<Longrightarrow>
    waitq_action self (k, B, F)
      (suspend_waiting self 0 k, insert (gk_CurrentThread k) B, F - thread_nodes (gk_CurrentThread k))"
| suspend_timed: "thread_runs k \<Longrightarrow> gk_CurrentThread k \<notin> B \<Longrightarrow> WaitNode (gk_CurrentThread k) 0 \<in> F \<Longrightarrow>
    SleepNode (gk_CurrentThread k) 0 \<in> F \<Longrightarrow>
    waitq_action self (k, B, F)
      (suspend_clock self 0 deadline k, insert (gk_CurrentThread k) B, F - thread_nodes (gk_CurrentThread k))"
| detach: "gk_CurrentThread k \<in> B \<Longrightarrow> thread_runs k \<Longrightarrow>
    waitq_action self (k, B, F)
      (snd (Detatch (WaitNode (gk_CurrentThread k) 0) k), B - {gk_CurrentThread k}, insert (WaitNode (gk_CurrentThread k) 0) F)"
| detach_sleep: "WaitNode (gk_CurrentThread k) 0 \<in> F \<Longrightarrow> thread_runs k \<Longrightarrow>
    waitq_action self (k, B, F)
      (snd (Detatch (SleepNode (gk_CurrentThread k) 0) k), B, insert (SleepNode (gk_CurrentThread k) 0) F)"
| detach_timer: "waitq_action self (k, B, F) (snd (Detatch (SleepNode (gk_CurrentThread k) d) k), B, F)"
| refresh: "WaitNode (gk_CurrentThread k) 0 \<in> F \<Longrightarrow> node_free n k \<Longrightarrow> node_thread n = gk_CurrentThread k \<Longrightarrow>
    waitq_action self (k, B, F) (k, B, insert n F)"
| wake: "waitq_action self (k, B, F) (snd (wakeup_wait_queue self m k), B, F)"

definition waitq_ok :: "KNamedObject \<Rightarrow> waitq_state \<Rightarrow> bool" where
  "waitq_ok self s \<longleftrightarrow> waitq_inv self (fst (snd s)) (snd (snd s)) (fst s)"

lemma waitq_action_ok:
  assumes "waitq_action self s s'" "waitq_ok self s" "\<exists>i. self = SyncObject i"
  shows "waitq_ok self s'"
  using assms(1)
proof cases
  case (env k k' B F)
  then show ?thesis using assms(2,3) waitq_env(1) by (auto simp: waitq_ok_def)
next
  case (elsewhere k k' B F)
  then show ?thesis using assms(2) waitq_self [of self B F k k'] by (simp add: waitq_ok_def)
next
  case (enter N k B F)
  then show ?thesis using assms(2) by (auto simp: waitq_ok_def waitq_inv_def thread_runs_def blocked_def)
next
  case (leave F' F k B)
  then show ?thesis using assms(2) by (auto simp: waitq_ok_def waitq_inv_def)
next
  case (other k k' B F)
  then show ?thesis using assms(2) waitq_eq(1) by (simp add: waitq_ok_def)
next
  case (suspend k B F)
  then have "waitq_inv self B F k" using assms(2) by (simp add: waitq_ok_def)
  moreover from this have "node_free (WaitNode (gk_CurrentThread k) 0) k" "gk_CurrentThread k \<noteq> gk_IdleThread k" "cpu_inv k"
    using suspend(5) by (auto simp: waitq_inv_def)
  moreover from this have "suspends self 0 k (suspend_waiting self 0 k)"
    using suspend(3) by (intro suspend_waiting_facts) (simp_all add: thread_runs_def)
  ultimately show ?thesis using waitq_suspend(1) suspend by (simp add: waitq_ok_def)
next
  case (suspend_timed k B F deadline)
  then have "waitq_inv self B F k" using assms(2) by (simp add: waitq_ok_def)
  moreover from this have "node_free (WaitNode (gk_CurrentThread k) 0) k" "node_free (SleepNode (gk_CurrentThread k) 0) k"
    "gk_CurrentThread k \<noteq> gk_IdleThread k" "cpu_inv k"
    using suspend_timed(5,6) by (auto simp: waitq_inv_def)
  moreover from this have "suspends self 0 k (suspend_clock self 0 deadline k)"
    using suspend_timed(3) by (intro suspend_clock_facts) (simp_all add: thread_runs_def)
  ultimately show ?thesis using waitq_suspend(1) suspend_timed by (simp add: waitq_ok_def)
next
  case (detach k B F)
  then show ?thesis using assms(2) waitq_detach_self(1) by (simp add: waitq_ok_def thread_runs_def)
next
  case (detach_sleep k F B)
  then have "waitq_inv self B F k" using assms(2) by (simp add: waitq_ok_def)
  moreover from this have "gk_CurrentThread k \<noteq> gk_IdleThread k"
    using detach_sleep(3) by (auto simp: waitq_inv_def)
  ultimately show ?thesis using detach_sleep waitq_detach_sleep(1) by (simp add: waitq_ok_def thread_runs_def)
next
  case (detach_timer k B F d)
  then show ?thesis using assms(2) waitq_detach_other(1) [of self B F k "SleepNode (gk_CurrentThread k) d"] by (simp add: waitq_ok_def)
next
  case (refresh k F n B)
  then have inv: "waitq_inv self B F k" using assms(2) by (simp add: waitq_ok_def)
  have "gk_CurrentThread k \<noteq> gk_IdleThread k \<and> \<not> blocked (thread_state k (gk_CurrentThread k))"
    using waitq_invD(5,7) [OF inv refresh(3)] by simp
  then show ?thesis using inv refresh by (auto simp: waitq_ok_def waitq_inv_def)
next
  case (wake k B F m)
  then show ?thesis using assms(2) waitq_wake(1) by (simp add: waitq_ok_def)
qed

lemma waitq_actions_ok:
  "(waitq_action self)\<^sup>*\<^sup>* s s' \<Longrightarrow> waitq_ok self s \<Longrightarrow> \<exists>i. self = SyncObject i \<Longrightarrow> waitq_ok self s'"
  by (induction rule: rtranclp_induct) (auto intro: waitq_action_ok)

section \<open>The sections of blocking calls as actions\<close>

abbreviation waitq_actions :: "KNamedObject \<Rightarrow> waitq_state \<Rightarrow> waitq_state \<Rightarrow> bool" where
  "waitq_actions self \<equiv> (waitq_action self)\<^sup>*\<^sup>*"

lemma act1: "waitq_action self s s' \<Longrightarrow> waitq_actions self s s'"
  by (rule r_into_rtranclp)

lemma act_snoc: "waitq_actions self s s' \<Longrightarrow> waitq_action self s' s'' \<Longrightarrow> waitq_actions self s s''"
  by (rule rtranclp.rtrancl_into_rtrancl)

lemma act_trans: "waitq_actions self s s' \<Longrightarrow> waitq_actions self s' s'' \<Longrightarrow> waitq_actions self s s''"
  by (rule rtranclp_trans)

lemma acts_leave:
  "waitq_actions self s (k, B, F) \<Longrightarrow> F' \<subseteq> F \<Longrightarrow> waitq_actions self s (k, B, F')"
  by (rule act_snoc [OF _ waitq_action.leave])

lemma acts_pend: "waitq_actions self s (k, B, F) \<Longrightarrow> waitq_actions self s (KSWITCH_CONTEXT k, B, F)"
  by (rule act_snoc [OF _ waitq_action.env [OF kernel_env.pend]])

lemma acts_eq: "waitq_actions self s (k, B, F) \<Longrightarrow> sched_eq k k' \<Longrightarrow> waitq_actions self s (k', B, F)"
  by (rule act_snoc [OF _ waitq_action.other])

lemma acts_suspend_waiting:
  assumes "thread_runs k" "gk_CurrentThread k \<notin> B" "WaitNode (gk_CurrentThread k) 0 \<in> F"
  shows "waitq_actions self (k, B, F)
    (KSWITCH_CONTEXT (SetBlockingObject t obj (suspend_waiting self 0 k)), insert (gk_CurrentThread k) B,
     F - thread_nodes (gk_CurrentThread k))"
  by (rule acts_pend [OF acts_eq [OF act1 [OF waitq_action.suspend [OF assms]] SetBlockingObject_eq]])

lemma acts_suspend_clock:
  assumes "thread_runs k" "gk_CurrentThread k \<notin> B" "WaitNode (gk_CurrentThread k) 0 \<in> F" "SleepNode (gk_CurrentThread k) 0 \<in> F"
  shows "waitq_actions self (k, B, F)
      (KSWITCH_CONTEXT (suspend_clock self 0 deadline k), insert (gk_CurrentThread k) B, F - thread_nodes (gk_CurrentThread k))"
    and "waitq_actions self (k, B, F)
      (KSWITCH_CONTEXT (SetBlockingObject t obj (suspend_clock self 0 deadline k)), insert (gk_CurrentThread k) B,
       F - thread_nodes (gk_CurrentThread k))"
  by (rule acts_pend [OF act1 [OF waitq_action.suspend_timed [OF assms]]])
     (rule acts_pend [OF acts_eq [OF act1 [OF waitq_action.suspend_timed [OF assms]] SetBlockingObject_eq]])

lemma SetBlockingObject_simps [simp]:
  "gk_CurrentThread (SetBlockingObject t obj k) = gk_CurrentThread k" "wait_nodes (SetBlockingObject t obj k) = wait_nodes k"
  "thread_state (SetBlockingObject t obj k) u = thread_state k u" "m_PendSV (SetBlockingObject t obj k) = m_PendSV k"
  "wait_lists (SetBlockingObject t obj k) = wait_lists k" "kclock (SetBlockingObject t obj k) = kclock k"
  "gk_IdleThread (SetBlockingObject t obj k) = gk_IdleThread k"
  by (simp_all add: SetBlockingObject_def upd_thread_def kclock_def)

lemma Detatch_current [simp]: "gk_CurrentThread (snd (Detatch n k)) = gk_CurrentThread k"
  "m_PendSV (snd (Detatch n k)) = m_PendSV k"
  by (auto simp: Detatch_def wait_list_Remove_def Let_def kassert_def upd_node_def split: option.split)

lemma thread_runs_Detatch [simp]: "thread_runs (snd (Detatch n k)) = thread_runs k"
  by (simp add: thread_runs_def)

lemma thread_runs_SetBlocking [simp]: "thread_runs (SetBlockingObject t obj k) = thread_runs k"
  by (simp add: thread_runs_def)

lemma Detatch_data [simp]:
  "m_TargetDeleted (wait_nodes (snd (Detatch n k)) m) = m_TargetDeleted (wait_nodes k m)"
  by (auto simp: Detatch_def wait_list_Remove_def Let_def kassert_def upd_node_def split: option.split)

lemma acts_resume:
  assumes "thread_runs k" "gk_CurrentThread k \<in> B"
  shows "waitq_actions self (k, B, F)
      (snd (Detatch (WaitNode (gk_CurrentThread k) 0) (SetBlockingObject t obj k)), B - {gk_CurrentThread k},
       insert (WaitNode (gk_CurrentThread k) 0) F)"
    and "waitq_actions self (k, B, F)
      (SetBlockingObject t obj (snd (Detatch (WaitNode (gk_CurrentThread k) 0) k)), B - {gk_CurrentThread k},
       insert (WaitNode (gk_CurrentThread k) 0) F)"
proof -
  have "waitq_action self (SetBlockingObject t obj k, B, F)
      (snd (Detatch (WaitNode (gk_CurrentThread k) 0) (SetBlockingObject t obj k)), B - {gk_CurrentThread k},
       insert (WaitNode (gk_CurrentThread k) 0) F)"
    using waitq_action.detach [of "SetBlockingObject t obj k" B self F] assms by simp
  then show "waitq_actions self (k, B, F)
      (snd (Detatch (WaitNode (gk_CurrentThread k) 0) (SetBlockingObject t obj k)), B - {gk_CurrentThread k},
       insert (WaitNode (gk_CurrentThread k) 0) F)"
    using act_trans [OF act1 [OF waitq_action.other [OF SetBlockingObject_eq]] act1] by blast
  show "waitq_actions self (k, B, F)
      (SetBlockingObject t obj (snd (Detatch (WaitNode (gk_CurrentThread k) 0) k)), B - {gk_CurrentThread k},
       insert (WaitNode (gk_CurrentThread k) 0) F)"
    by (rule acts_eq [OF act1 [OF waitq_action.detach [OF assms(2,1)]] SetBlockingObject_eq])
qed

lemma acts_detach_sleep:
  assumes "waitq_actions self s (k, B, F)" "thread_runs k" "WaitNode (gk_CurrentThread k) 0 \<in> F"
  shows "waitq_actions self s (snd (Detatch (SleepNode (gk_CurrentThread k) 0) k), B,
    insert (SleepNode (gk_CurrentThread k) 0) F)"
  by (rule act_snoc [OF assms(1) waitq_action.detach_sleep [OF assms(3,2)]])

lemma acts_wake:
  "waitq_actions self s (k, B, F) \<Longrightarrow> waitq_actions self s (snd (wakeup_wait_queue self m k), B, F)"
  by (rule act_snoc [OF _ waitq_action.wake])

section \<open>A kernel that has started its first thread\<close>

text \<open>A concrete reachable state: the kernel has booted with idle thread 0 and init thread 1, and init runs.\<close>

definition booted_kernel :: kernel where
  "booted_kernel = snd (select_thread (\<lambda>_. id) (FromNative 5) 4096 1 (start_scheduler 0 1 64 512 256))"

lemma booted_kernel_facts:
  "kernel_reachable booted_kernel" "gk_CurrentThread booted_kernel = 1" "gk_IdleThread booted_kernel = 0"
  "thread_runs booted_kernel" "node_free n booted_kernel" "m_WaitQueue booted_kernel obj = []"
proof -
  let ?k = "start_scheduler 0 1 64 512 256"
  have b: "gk_CurrentThread ?k = 0" "m_StackTop (threads ?k 0) = 64"
    by (simp_all add: start_scheduler_def spawn_thread_def add_thread_to_ready_list_def SetState_def upd_thread_def Let_def
      thread_list_Append_def kassert_def KThreadCB_new_def)
  show "kernel_reachable booted_kernel"
    unfolding booted_kernel_def
  proof (rule kernel_reachable.step)
    show "kernel_reachable ?k" by (rule kernel_reachable.boot) simp
  qed (rule kernel_step.switch, simp only: b, simp)
  show "gk_CurrentThread booted_kernel = 1" "gk_IdleThread booted_kernel = 0"
    "thread_runs booted_kernel" "node_free n booted_kernel" "m_WaitQueue booted_kernel obj = []"
    by (simp_all add: booted_kernel_def start_scheduler_def spawn_thread_def add_thread_to_ready_list_def SetState_def upd_thread_def Let_def
      thread_list_Append_def thread_list_Remove_def kassert_def KThreadCB_new_def deleted_thread_def PriToLevel_def
      KTHREAD_PRIORITY_LEVELS_def KTHREAD_PRIORITY_MIN_def select_thread_def select_core_def resume_selected_def
      HasUnblockedPendingSignals_def select_loop_numeral switch_to_def thread_runs_def node_free_def new_wait_node_def)
qed

section \<open>Where the threads are\<close>

text \<open>
  A thread is outside the calls of the object, about to try it, with nodes of its own that are on no list (the
  sleep node only in the calls with a time limit), or suspended.
\<close>

datatype call_phase = Outside | Trying bool | Suspended

type_synonym call_phases = "thread_id \<Rightarrow> call_phase"

fun phase_fresh :: "call_phase \<Rightarrow> KThreadWaitNodeRef \<Rightarrow> bool" where
  "phase_fresh (Trying timed) (WaitNode t d) = (d = 0)"
| "phase_fresh (Trying timed) (SleepNode t d) = (timed \<and> d = 0)"
| "phase_fresh Outside n = False"
| "phase_fresh Suspended n = False"

definition phase_B :: "call_phases \<Rightarrow> thread_id set" where
  "phase_B ph = {t. ph t = Suspended}"

definition phase_F :: "call_phases \<Rightarrow> KThreadWaitNodeRef set" where
  "phase_F ph = {n. phase_fresh (ph (node_thread n)) n}"

lemma phase_fresh_Trying: "phase_fresh (Trying timed) n \<longleftrightarrow> n = WaitNode (node_thread n) 0 \<or> timed \<and> n = SleepNode (node_thread n) 0"
  by (cases n) simp_all

lemma phase_B_iff [simp]: "t \<in> phase_B ph \<longleftrightarrow> ph t = Suspended"
  by (simp add: phase_B_def)

lemma phase_F_iff [simp]: "n \<in> phase_F ph \<longleftrightarrow> phase_fresh (ph (node_thread n)) n"
  by (simp add: phase_F_def)

lemma phase_B_upd: "phase_B (ph(t := p)) = (if p = Suspended then insert t (phase_B ph) else phase_B ph - {t})"
  by (auto split: if_splits)

lemma phase_F_upd: "phase_F (ph(t := p)) = (phase_F ph - thread_nodes t) \<union> {n \<in> thread_nodes t. phase_fresh p n}"
  by (auto split: if_splits)

definition call_actions :: "KNamedObject \<Rightarrow> kernel \<times> call_phases \<Rightarrow> kernel \<times> call_phases \<Rightarrow> bool" where
  "call_actions self s s' \<longleftrightarrow>
     waitq_actions self (fst s, phase_B (snd s), phase_F (snd s)) (fst s', phase_B (snd s'), phase_F (snd s'))"

lemma call_refl: "call_actions self s s"
  by (simp add: call_actions_def)

lemma call_trans: "call_actions self s s' \<Longrightarrow> call_actions self s' s'' \<Longrightarrow> call_actions self s s''"
  unfolding call_actions_def by (rule act_trans)

lemma call_env: "kernel_env self k k' \<Longrightarrow> call_actions self (k, ph) (k', ph)"
  by (simp add: call_actions_def act1 waitq_action.env)

lemma call_elsewhere:
  assumes "kernel_self self k k'" "thread_runs k" "gk_CurrentThread k \<noteq> gk_IdleThread k" "ph (gk_CurrentThread k) = Outside"
  shows "call_actions self (k, ph) (k', ph)"
proof -
  have "node_thread n \<noteq> gk_CurrentThread k" if "n \<in> phase_F ph" for n using that assms(4) by auto
  then show ?thesis using assms unfolding call_actions_def fst_conv snd_conv by (intro act1 waitq_action.elsewhere) auto
qed

lemma call_enter:
  assumes "t = gk_CurrentThread k" "thread_runs k" "t \<noteq> gk_IdleThread k" "ph t = Outside" "node_free (WaitNode t 0) k"
    and "timed \<Longrightarrow> node_free (SleepNode t 0) k"
  shows "call_actions self (k, ph) (k, ph(t := Trying timed))"
proof -
  let ?N = "{n \<in> thread_nodes t. phase_fresh (Trying timed) n}"
  have e: "phase_F (ph(t := Trying timed)) = phase_F ph \<union> ?N" "phase_B (ph(t := Trying timed)) = phase_B ph"
    using assms(4) by (auto split: if_splits)
  have "node_free n k \<and> node_thread n = gk_CurrentThread k" if "n \<in> ?N" for n
    using that assms by (auto simp: phase_fresh_Trying split: if_splits)
  then show ?thesis
    unfolding call_actions_def fst_conv snd_conv e using assms by (intro act1 waitq_action.enter) auto
qed

lemma call_return: "ph t = Trying timed \<Longrightarrow> p = Outside \<or> p = Trying False \<Longrightarrow> call_actions self (k, ph) (k, ph(t := p))"
proof -
  assume "ph t = Trying timed" and p: "p = Outside \<or> p = Trying False"
  then have "phase_B (ph(t := p)) = phase_B ph" "phase_F (ph(t := p)) \<subseteq> phase_F ph" by (auto simp: phase_fresh_Trying split: if_splits)
  then show ?thesis by (simp add: call_actions_def act1 waitq_action.leave)
qed

lemma call_leave:
  assumes "call_actions self s (k, ph(t := Trying timed))" "p = Outside \<or> p = Trying False \<or> p = Trying timed"
  shows "call_actions self s (k, ph(t := p))"
  using call_trans [OF assms(1) call_return [of "ph(t := Trying timed)" t timed p]] assms by auto

lemma call_eq: "sched_eq k k' \<Longrightarrow> call_actions self (k, ph) (k', ph)"
  by (simp add: call_actions_def act1 waitq_action.other)

lemma call_wake: "call_actions self (k, ph) (snd (wakeup_wait_queue self m k), ph)"
  by (simp add: call_actions_def act1 waitq_action.wake)

lemma call_suspend:
  assumes "t = gk_CurrentThread k" "thread_runs k" "ph t = Trying timed"
  shows "call_actions self (k, ph) (KSWITCH_CONTEXT (SetBlockingObject t obj (suspend_waiting self 0 k)), ph(t := Suspended))"
proof -
  have "phase_F (ph(t := Suspended)) = phase_F ph - thread_nodes t" by (auto split: if_splits)
  then show ?thesis
    using assms acts_suspend_waiting [of k "phase_B ph" "phase_F ph" self t obj]
    by (simp add: call_actions_def phase_B_upd)
qed

lemma call_suspend_clock:
  assumes "t = gk_CurrentThread k" "thread_runs k" "ph t = Trying True"
  shows "call_actions self (k, ph) (KSWITCH_CONTEXT (suspend_clock self 0 deadline k), ph(t := Suspended))"
    and "call_actions self (k, ph)
      (KSWITCH_CONTEXT (SetBlockingObject t obj (suspend_clock self 0 deadline k)), ph(t := Suspended))"
proof -
  have "phase_F (ph(t := Suspended)) = phase_F ph - thread_nodes t" by (auto split: if_splits)
  then show "call_actions self (k, ph) (KSWITCH_CONTEXT (suspend_clock self 0 deadline k), ph(t := Suspended))"
    "call_actions self (k, ph)
      (KSWITCH_CONTEXT (SetBlockingObject t obj (suspend_clock self 0 deadline k)), ph(t := Suspended))"
    using assms acts_suspend_clock [of k "phase_B ph" "phase_F ph" self] by (simp_all add: call_actions_def phase_B_upd)
qed

lemma phase_F_resume:
  "ph t = Suspended \<Longrightarrow> phase_F (ph(t := Trying False)) = insert (WaitNode t 0) (phase_F ph)"
  by (auto simp: phase_fresh_Trying split: if_splits)

lemma call_resume:
  assumes "t = gk_CurrentThread k" "thread_runs k" "ph t = Suspended"
  shows "call_actions self (k, ph) (snd (Detatch (WaitNode t 0) (SetBlockingObject t obj k)), ph(t := Trying False))"
    and "call_actions self (k, ph) (SetBlockingObject t obj (snd (Detatch (WaitNode t 0) k)), ph(t := Trying False))"
  using assms acts_resume [of k "phase_B ph" self "phase_F ph" t obj] phase_F_resume [of ph t]
  by (simp_all add: call_actions_def phase_B_upd)

lemma call_resume_plain:
  assumes "t = gk_CurrentThread k" "thread_runs k" "ph t = Suspended"
  shows "call_actions self (k, ph) (snd (Detatch (WaitNode t 0) k), ph(t := Trying False))"
proof -
  have "waitq_action self (k, phase_B ph, phase_F ph)
      (snd (Detatch (WaitNode t 0) k), phase_B ph - {t}, insert (WaitNode t 0) (phase_F ph))"
    using waitq_action.detach [of k "phase_B ph" self "phase_F ph"] assms by simp
  then show ?thesis using assms(3) by (simp add: call_actions_def phase_B_upd phase_F_resume [of ph t] act1)
qed

lemma call_detach_sleep:
  assumes "t = gk_CurrentThread k" "thread_runs k" "ph t = Trying timed"
  shows "call_actions self (k, ph) (snd (Detatch (SleepNode t 0) k), ph(t := Trying True))"
proof -
  have "phase_F (ph(t := Trying True)) = insert (SleepNode t 0) (phase_F ph)" "phase_B (ph(t := Trying True)) = phase_B ph"
    using assms(3) by (auto simp: phase_fresh_Trying split: if_splits)
  moreover have "waitq_action self (k, phase_B ph, phase_F ph)
      (snd (Detatch (SleepNode t 0) k), phase_B ph, insert (SleepNode t 0) (phase_F ph))"
    using waitq_action.detach_sleep [of k "phase_F ph" self "phase_B ph"] assms by simp
  ultimately show ?thesis by (simp add: call_actions_def act1)
qed

lemma call_resume_timed:
  assumes "t = gk_CurrentThread k" "thread_runs k" "ph t = Suspended"
  shows "call_actions self (k, ph)
      (snd (Detatch (SleepNode t 0) (snd (Detatch (WaitNode t 0) (SetBlockingObject t obj k)))), ph(t := Trying True))"
    and "call_actions self (k, ph)
      (snd (Detatch (SleepNode t 0) (snd (Detatch (WaitNode t 0) k))), ph(t := Trying True))"
proof -
  let ?ph = "ph(t := Trying False)"
  have d: "call_actions self (k', ?ph) (snd (Detatch (SleepNode t 0) k'), ph(t := Trying True))"
    if "t = gk_CurrentThread k'" "thread_runs k'" for k'
    using call_detach_sleep [OF that, of ?ph False] by simp
  show "call_actions self (k, ph)
      (snd (Detatch (SleepNode t 0) (snd (Detatch (WaitNode t 0) (SetBlockingObject t obj k)))), ph(t := Trying True))"
    by (rule call_trans [OF call_resume(1) [of t k ph self obj] d]) (use assms in simp_all)
  show "call_actions self (k, ph)
      (snd (Detatch (SleepNode t 0) (snd (Detatch (WaitNode t 0) k))), ph(t := Trying True))"
    by (rule call_trans [OF call_resume_plain [of t k ph self] d]) (use assms in simp_all)
qed

lemma node_free_Detatch: "node_free n (snd (Detatch n k))"
  by (auto simp: node_free_def Detatch_def wait_list_Remove_def upd_node_def kassert_def Let_def split: option.split)

lemma node_free_Detatch_other: "node_free m k \<Longrightarrow> node_free m (snd (Detatch n k))"
  by (auto simp: node_free_def Detatch_def wait_list_Remove_def upd_node_def kassert_def Let_def split: option.split)

text \<open>The same, with the sleep node taken off first.\<close>

lemma call_resume_sleep_first:
  assumes "t = gk_CurrentThread k" "thread_runs k" "ph t = Suspended"
  shows "call_actions self (k, ph)
      (snd (Detatch (WaitNode t 0) (snd (Detatch (SleepNode t 0) (SetBlockingObject t obj k)))), ph(t := Trying True))"
proof -
  let ?k1 = "snd (Detatch (SleepNode t 0) (SetBlockingObject t obj k))"
  let ?k2 = "snd (Detatch (WaitNode t 0) ?k1)" and ?F = "insert (WaitNode t 0) (phase_F ph)"
  have "call_actions self (k, ph) (SetBlockingObject t obj k, ph)" by (rule call_eq [OF SetBlockingObject_eq])
  moreover have "call_actions self (SetBlockingObject t obj k, ph) (?k1, ph)"
    using waitq_action.detach_timer [of self "SetBlockingObject t obj k" "phase_B ph" "phase_F ph" 0] assms(1)
    by (simp add: call_actions_def act1)
  moreover have "call_actions self (?k1, ph) (?k2, ph(t := Trying False))"
    using call_resume_plain [of t ?k1 ph self] assms by simp
  moreover have "call_actions self (?k2, ph(t := Trying False)) (?k2, ph(t := Trying True))"
  proof -
    have F: "phase_F (ph(t := Trying True)) = insert (SleepNode t 0) (phase_F (ph(t := Trying False)))"
      "phase_B (ph(t := Trying True)) = phase_B (ph(t := Trying False))"
      by (auto simp: phase_fresh_Trying split: if_splits)
    have "node_free (SleepNode t 0) ?k2" by (rule node_free_Detatch_other [OF node_free_Detatch])
    then show ?thesis
      unfolding call_actions_def fst_conv snd_conv F using assms(1)
      by (intro act1 waitq_action.refresh) auto
  qed
  ultimately show ?thesis by (meson call_trans)
qed

section \<open>The contract of wait objects\<close>

text \<open>
  The contract of an object: its steps are sequences of the actions above, and it is created with nobody in its
  calls and an empty queue, in a reachable state of the kernel.
\<close>

locale wait_object =
  fixes self :: KNamedObject
    and kern :: "'s \<Rightarrow> kernel"
    and phase :: "'s \<Rightarrow> call_phases"
    and start :: "'s \<Rightarrow> bool"
    and sys_step :: "'s \<Rightarrow> 's \<Rightarrow> bool"
  assumes sync: "\<exists>i. self = SyncObject i"
    and start: "start S \<Longrightarrow>
      kernel_reachable (kern S) \<and> m_WaitQueue (kern S) self = [] \<and> (\<forall>t. phase S t = Outside)"
    and steps: "sys_step S S' \<Longrightarrow> waitq_inv self (phase_B (phase S)) (phase_F (phase S)) (kern S) \<Longrightarrow>
      call_actions self (kern S, phase S) (kern S', phase S')"
begin

lemma reachable_ok:
  assumes "reaches start sys_step S"
  shows "waitq_inv self (phase_B (phase S)) (phase_F (phase S)) (kern S)"
  using assms
proof induction
  case (init S)
  have "cpu_inv (kern S)"
    using kernel_reachable_ok start [OF init] by simp
  then have "waitq_inv self {} {} (kern S)"
    using start [OF init] cpu_inv_parts(5) [of "kern S"] by (simp add: waitq_inv_def)
  moreover have "phase_B (phase S) = {}" "phase_F (phase S) = {}"
    using start [OF init] by (auto simp: phase_B_def phase_F_def)
  ultimately show ?case by simp
next
  case (step S S')
  then show ?case
    using waitq_actions_ok [OF steps [OF step.hyps(2) step.IH, unfolded call_actions_def] _ sync] by (simp add: waitq_ok_def)
qed

text \<open>
  No waiter is lost: a thread in a call of the object is on the queue, where a wakeup will find it, or it
  is not blocked; the queue holds suspended threads only.
\<close>

lemma waiter_not_lost:
  assumes r: "reaches start sys_step S" and c: "phase S t \<noteq> Outside"
  shows "WaitNode t 0 \<in> set (m_WaitQueue (kern S) self) \<or> \<not> blocked (thread_state (kern S) t)"
proof (cases "phase S t")
  case (Trying timed)
  then have "WaitNode t 0 \<in> phase_F (phase S)" by simp
  then show ?thesis using waitq_invD(5) [OF reachable_ok [OF r]] by fastforce
next
  case Suspended
  then have "t \<in> phase_B (phase S)" by simp
  then show ?thesis by (rule waitq_invD(4) [OF reachable_ok [OF r]])
qed (use c in simp)

lemma queue_suspended:
  assumes r: "reaches start sys_step S" and n: "n \<in> set (m_WaitQueue (kern S) self)"
  shows "\<exists>t. n = WaitNode t 0 \<and> phase S t = Suspended"
  using waitq_invD(2) [OF reachable_ok [OF r] n] by auto

lemma trying_not_queued:
  assumes "reaches start sys_step S" "phase S t = Trying timed"
  shows "WaitNode t 0 \<notin> set (m_WaitQueue (kern S) self)"
  using queue_suspended [OF assms(1), of "WaitNode t 0"] assms(2) by auto

lemma node_not_deleted:
  assumes r: "reaches start sys_step S" and p: "phase S t = Suspended"
  shows "\<not> m_TargetDeleted (wait_nodes (kern S) (WaitNode t 0))"
  by (rule waitq_invD(3) [OF reachable_ok [OF r]]) (use p in simp)

lemma cpu_ok: "reaches start sys_step S \<Longrightarrow> cpu_inv (kern S)"
  by (rule waitq_invD(1) [OF reachable_ok])

lemma env_queue:
  assumes r: "reaches start sys_step S" and e: "kernel_env self (kern S) k'"
  shows "m_WaitQueue k' self = m_WaitQueue (kern S) self"
  by (rule kernel_env_facts(3) [OF e cpu_ok [OF r] sync])

lemma elsewhere_queue:
  assumes r: "reaches start sys_step S" and e: "kernel_self self (kern S) k'"
    and cur: "thread_runs (kern S)" "gk_CurrentThread (kern S) \<noteq> gk_IdleThread (kern S)" "phase S (gk_CurrentThread (kern S)) = Outside"
  shows "m_WaitQueue k' self = m_WaitQueue (kern S) self"
proof -
  have "node_thread n \<noteq> gk_CurrentThread (kern S)" if "n \<in> phase_F (phase S)" for n
    using that cur(3) by auto
  with waitq_self [OF reachable_ok [OF r] e cur(1,2)] cur(3) show ?thesis by simp
qed

lemma suspend_queue:
  assumes r: "reaches start sys_step S" and run: "thread_runs (kern S)"
    and ph: "phase S (gk_CurrentThread (kern S)) = Trying timed"
  shows "m_WaitQueue (suspend_waiting self 0 (kern S)) self = m_WaitQueue (kern S) self @ [WaitNode (gk_CurrentThread (kern S)) 0]"
    and "timed \<Longrightarrow>
      m_WaitQueue (suspend_clock self 0 deadline (kern S)) self = m_WaitQueue (kern S) self @ [WaitNode (gk_CurrentThread (kern S)) 0]"
proof -
  let ?k = "kern S" and ?t = "gk_CurrentThread (kern S)"
  note inv = reachable_ok [OF r]
  have w: "WaitNode ?t 0 \<in> phase_F (phase S)" and s: "timed \<Longrightarrow> SleepNode ?t 0 \<in> phase_F (phase S)"
    using ph by simp_all
  have n: "node_free (WaitNode ?t 0) ?k" "?t \<noteq> gk_IdleThread ?k" "timed \<Longrightarrow> node_free (SleepNode ?t 0) ?k" "?t \<notin> phase_B (phase S)"
    using waitq_invD(6) [OF inv w] waitq_invD(7) [OF inv w] waitq_invD(6) [OF inv s] ph by simp_all
  have "suspends self 0 ?k (suspend_waiting self 0 ?k)"
    using n run cpu_ok [OF r] by (intro suspend_waiting_facts) (simp_all add: thread_runs_def)
  then show "m_WaitQueue (suspend_waiting self 0 ?k) self = m_WaitQueue ?k self @ [WaitNode ?t 0]"
    by (rule waitq_suspend(2) [OF inv _ n(4,2)])
  show "m_WaitQueue (suspend_clock self 0 deadline ?k) self = m_WaitQueue ?k self @ [WaitNode ?t 0]" if timed
  proof -
    have "suspends self 0 ?k (suspend_clock self 0 deadline ?k)"
      using n that run cpu_ok [OF r] by (intro suspend_clock_facts) (simp_all add: thread_runs_def)
    then show ?thesis by (rule waitq_suspend(2) [OF inv _ n(4,2)])
  qed
qed

lemma resume_queue:
  assumes r: "reaches start sys_step S"
  shows "m_WaitQueue (snd (Detatch m (snd (Detatch n (kern S))))) self = remove1 m (remove1 n (m_WaitQueue (kern S) self))"
    and "m_WaitQueue (snd (wakeup_wait_queue self c (snd (Detatch m (snd (Detatch n (kern S))))))) self =
      drop (wakeup_count self c (snd (Detatch m (snd (Detatch n (kern S)))))) (remove1 m (remove1 n (m_WaitQueue (kern S) self)))"
proof -
  let ?k1 = "snd (Detatch n (kern S))" and ?k2 = "snd (Detatch m (snd (Detatch n (kern S))))"
  note d1 = Detatch_facts [OF cpu_ok [OF r], of n]
  note d2 = Detatch_facts [OF d1(1), of m]
  show q: "m_WaitQueue ?k2 self = remove1 m (remove1 n (m_WaitQueue (kern S) self))"
    by (simp add: d1(2) d2(2))
  show "m_WaitQueue (snd (wakeup_wait_queue self c ?k2)) self =
      drop (wakeup_count self c ?k2) (remove1 m (remove1 n (m_WaitQueue (kern S) self)))"
    using wakeup_wait_queue_facts(1) [OF cpu_inv_parts(1,2) [OF d2(1)], of self c] q
    by (simp add: woken_up_def min_def)
qed

lemma detach_queue:
  assumes r: "reaches start sys_step S"
  shows "m_WaitQueue (snd (Detatch n (kern S))) self = remove1 n (m_WaitQueue (kern S) self)"
  by (simp add: Detatch_facts(2) [OF cpu_ok [OF r]])

lemma wake_queue:
  assumes r: "reaches start sys_step S"
  shows "m_WaitQueue (snd (wakeup_wait_queue self m (kern S))) self =
    drop (wakeup_count self m (kern S)) (m_WaitQueue (kern S) self)"
  by (rule waitq_wake(2) [OF reachable_ok [OF r]])

lemma no_panic: "reaches start sys_step S \<Longrightarrow> \<not> m_Panicked (kern S)"
  using waitq_invD(1) [OF reachable_ok] cpu_inv_parts(4) by blast

lemma queue_distinct: "reaches start sys_step S \<Longrightarrow> distinct (m_WaitQueue (kern S) self)"
  using cpu_inv_parts(2) [OF waitq_invD(1) [OF reachable_ok]] by (simp add: wait_core_def)

end

end
