(* ===== verification/KSemaphore.thy ===== *)
theory KSemaphore
  imports WaitQueue
begin

text \<open>
  \<open>KSemaphore\<close> (\<open>Kernel/KSemaphore.cpp\<close>, \<open>Include/Kernel/KSemaphore.h\<close>). Each blocking call is split at its
  critical sections: \<open>..._first\<close> is the section at the top of the loop, \<open>..._second\<close> the one after the
  context switch. A section returns the result of the call, or \<open>None\<close> when the thread goes on to the
  next section. \<open>sem_step\<close> interleaves the sections of any number of threads with interrupts, context
  switches and the rest of the kernel.
\<close>

section \<open>State\<close>

text \<open>A holder of \<open>-1\<close> is \<open>None\<close>. \<open>SEM_VALUE_MAX\<close> is the largest \<open>int\<close>.\<close>

record KSemaphore =
  s_Count :: int
  s_ClockID :: clockid_t
  s_Holder :: "thread_id option"

definition SEM_VALUE_MAX :: int where
  "SEM_VALUE_MAX = 2147483647"

definition KSemaphore_new :: "clockid_t \<Rightarrow> int \<Rightarrow> KSemaphore" where
  "KSemaphore_new clockID count = \<lparr>s_Count = count, s_ClockID = clockID, s_Holder = None\<rparr>"

text \<open>The panic of the destructor when threads are waiting; then the base class wakes the waiters.\<close>

definition KSemaphore_destroy :: "nat \<Rightarrow> kernel \<Rightarrow> kernel" where
  "KSemaphore_destroy self k =
     destroy_KNamedObject (SyncObject self)
       (if m_WaitQueue k (SyncObject self) \<noteq> [] then k\<lparr>m_Panicked := True\<rparr> else k)"

section \<open>Operations\<close>

type_synonym sem_state = "kernel \<times> KSemaphore"

definition Acquire_first :: "nat \<Rightarrow> sem_state \<Rightarrow> PErrorCode option \<times> sem_state" where
  "Acquire_first self s =
     (let (k, sem) = s; thread = gk_CurrentThread k in
      if s_Count sem > 0
      then (Some Success, k, sem\<lparr>s_Count := s_Count sem - 1, s_Holder := Some thread\<rparr>)
      else (None, KSWITCH_CONTEXT (SetBlockingObject thread (Some (SyncObject self)) (suspend_waiting (SyncObject self) 0 k)), sem))"

definition Acquire_second :: "sem_state \<Rightarrow> PErrorCode option \<times> sem_state" where
  "Acquire_second s =
     (let (k, sem) = s; thread = gk_CurrentThread k; waitNode = WaitNode thread 0;
          k = SetBlockingObject thread None k;
          k = snd (Detatch waitNode k) in
      if m_TargetDeleted (wait_nodes k waitNode) then (Some INVAL, k, sem)
      else if s_Count sem > 0
      then (Some Success, k, sem\<lparr>s_Count := s_Count sem - 1, s_Holder := Some thread\<rparr>)
      else (None, k, sem))"

definition AcquireClock_start :: "clockid_t \<Rightarrow> TimeValNanos \<Rightarrow> kernel \<Rightarrow> TimeValNanos result" where
  "AcquireClock_start clockID clockDeadline k = kconvert_clock_to_monotonic (kclock k) clockID clockDeadline"

definition AcquireDeadline_start :: "KSemaphore \<Rightarrow> TimeValNanos \<Rightarrow> kernel \<Rightarrow> TimeValNanos result" where
  "AcquireDeadline_start sem deadline k = AcquireClock_start (s_ClockID sem) deadline k"

definition AcquireTimeout_start :: "TimeValNanos \<Rightarrow> kernel \<Rightarrow> TimeValNanos result" where
  "AcquireTimeout_start timeout k = AcquireClock_start CLOCK_MONOTONIC_COARSE (timeout_deadline (kclock k) timeout) k"

definition AcquireClock_first :: "nat \<Rightarrow> TimeValNanos \<Rightarrow> sem_state \<Rightarrow> PErrorCode option \<times> sem_state" where
  "AcquireClock_first self deadline s =
     (let (k, sem) = s; thread = gk_CurrentThread k in
      if s_Count sem > 0
      then (Some Success, k, sem\<lparr>s_Count := s_Count sem - 1, s_Holder := Some thread\<rparr>)
      else if nanos_IsInfinit deadline \<or> kget_monotonic_time (kclock k) < deadline
      then (None, KSWITCH_CONTEXT (SetBlockingObject thread (Some (SyncObject self)) (suspend_clock (SyncObject self) 0 deadline k)), sem)
      else (Some TIMEDOUT, k, sem))"

definition AcquireClock_second :: "sem_state \<Rightarrow> PErrorCode option \<times> sem_state" where
  "AcquireClock_second s =
     (let (k, sem) = s; thread = gk_CurrentThread k; waitNode = WaitNode thread 0;
          k = SetBlockingObject thread None k;
          k = snd (Detatch waitNode k);
          k = snd (Detatch (SleepNode thread 0) k) in
      if m_TargetDeleted (wait_nodes k waitNode) then (Some INVAL, k, sem) else (None, k, sem))"

definition TryAcquire :: "sem_state \<Rightarrow> PErrorCode \<times> sem_state" where
  "TryAcquire s =
     (let (k, sem) = s in
      if s_Count sem > 0
      then (Success, k, sem\<lparr>s_Count := s_Count sem - 1, s_Holder := Some (gk_CurrentThread k)\<rparr>)
      else (AGAIN, k, sem))"

definition Release :: "nat \<Rightarrow> sem_state \<Rightarrow> PErrorCode \<times> sem_state" where
  "Release self s =
     (let (k, sem) = s in
      if s_Count sem = SEM_VALUE_MAX then (EOVERFLOW, k, sem)
      else let sem = sem\<lparr>s_Count := s_Count sem + 1\<rparr> in
           if s_Count sem > 0
           then let sem = sem\<lparr>s_Holder := None\<rparr>;
                    (needSchedule, k) = wakeup_wait_queue (SyncObject self) (s_Count sem) k
                in (Success, if needSchedule then KSWITCH_CONTEXT k else k, sem)
           else (Success, k, sem))"

definition SetCount :: "int \<Rightarrow> sem_state \<Rightarrow> PErrorCode \<times> sem_state" where
  "SetCount count s = (let (k, sem) = s in (Success, k, sem\<lparr>s_Count := count\<rparr>))"

section \<open>Threads using a semaphore\<close>

text \<open>
  Where a thread is: outside the semaphore's calls, at the top of the loop of \<open>Acquire\<close> or \<open>AcquireClock\<close>,
  or suspended in it. The counters record the successful acquires and releases so far.
\<close>

datatype sem_pc =
    SemOutside
  | AcquireTop | AcquireSuspended
  | ClockTop TimeValNanos | ClockSuspended TimeValNanos

record sem_sys =
  ss_kernel :: kernel
  ss_sem :: KSemaphore
  ss_pc :: "thread_id \<Rightarrow> sem_pc"
  ss_acquired :: nat
  ss_released :: nat

definition sem_put :: "sem_sys \<Rightarrow> thread_id \<Rightarrow> sem_pc \<Rightarrow> PErrorCode option \<times> sem_state \<Rightarrow> sem_sys" where
  "sem_put S t susp r =
     S\<lparr>ss_kernel := fst (snd r), ss_sem := snd (snd r),
       ss_pc := (ss_pc S)(t := (if fst r = None then susp else SemOutside)),
       ss_acquired := ss_acquired S + (if fst r = Some Success then 1 else 0)\<rparr>"

abbreviation sem_st :: "sem_sys \<Rightarrow> sem_state" where
  "sem_st S \<equiv> (ss_kernel S, ss_sem S)"

text \<open>Calls are made by running threads with fresh nodes; \<open>TryAcquire\<close> and \<open>Release\<close> also by interrupt handlers.\<close>

inductive sem_step :: "nat \<Rightarrow> sem_sys \<Rightarrow> sem_sys \<Rightarrow> bool" for self where
  env: "kernel_env (SyncObject self) (ss_kernel S) k' \<Longrightarrow> sem_step self S (S\<lparr>ss_kernel := k'\<rparr>)"
| elsewhere: "t = gk_CurrentThread (ss_kernel S) \<Longrightarrow> thread_runs (ss_kernel S) \<Longrightarrow> t \<noteq> gk_IdleThread (ss_kernel S) \<Longrightarrow>
    ss_pc S t = SemOutside \<Longrightarrow> kernel_self (SyncObject self) (ss_kernel S) k' \<Longrightarrow> sem_step self S (S\<lparr>ss_kernel := k'\<rparr>)"
| call_Acquire: "t = gk_CurrentThread (ss_kernel S) \<Longrightarrow> thread_runs (ss_kernel S) \<Longrightarrow> t \<noteq> gk_IdleThread (ss_kernel S) \<Longrightarrow>
    ss_pc S t = SemOutside \<Longrightarrow> node_free (WaitNode t 0) (ss_kernel S) \<Longrightarrow>
    sem_step self S (S\<lparr>ss_pc := (ss_pc S)(t := AcquireTop)\<rparr>)"
| call_AcquireClock: "t = gk_CurrentThread (ss_kernel S) \<Longrightarrow> thread_runs (ss_kernel S) \<Longrightarrow> t \<noteq> gk_IdleThread (ss_kernel S) \<Longrightarrow>
    ss_pc S t = SemOutside \<Longrightarrow> node_free (WaitNode t 0) (ss_kernel S) \<Longrightarrow> node_free (SleepNode t 0) (ss_kernel S) \<Longrightarrow>
    AcquireClock_start clk dl (ss_kernel S) = Inr deadline \<Longrightarrow>
    sem_step self S (S\<lparr>ss_pc := (ss_pc S)(t := ClockTop deadline)\<rparr>)"
| first: "t = gk_CurrentThread (ss_kernel S) \<Longrightarrow> thread_runs (ss_kernel S) \<Longrightarrow> ss_pc S t = AcquireTop \<Longrightarrow>
    sem_step self S (sem_put S t AcquireSuspended (Acquire_first self (sem_st S)))"
| second: "t = gk_CurrentThread (ss_kernel S) \<Longrightarrow> thread_runs (ss_kernel S) \<Longrightarrow> ss_pc S t = AcquireSuspended \<Longrightarrow>
    sem_step self S (sem_put S t AcquireTop (Acquire_second (sem_st S)))"
| clock_first: "t = gk_CurrentThread (ss_kernel S) \<Longrightarrow> thread_runs (ss_kernel S) \<Longrightarrow> ss_pc S t = ClockTop deadline \<Longrightarrow>
    sem_step self S (sem_put S t (ClockSuspended deadline) (AcquireClock_first self deadline (sem_st S)))"
| clock_second: "t = gk_CurrentThread (ss_kernel S) \<Longrightarrow> thread_runs (ss_kernel S) \<Longrightarrow> ss_pc S t = ClockSuspended deadline \<Longrightarrow>
    sem_step self S (sem_put S t (ClockTop deadline) (AcquireClock_second (sem_st S)))"
| try_acquire: "TryAcquire (sem_st S) = (r, k', sem') \<Longrightarrow>
    sem_step self S (S\<lparr>ss_kernel := k', ss_sem := sem', ss_acquired := ss_acquired S + (if r = Success then 1 else 0)\<rparr>)"
| release: "Release self (sem_st S) = (r, k', sem') \<Longrightarrow>
    sem_step self S (S\<lparr>ss_kernel := k', ss_sem := sem', ss_released := ss_released S + (if r = Success then 1 else 0)\<rparr>)"

text \<open>A semaphore is created, with a count that is not negative, in any state of the kernel.\<close>

definition sem_init :: "nat \<Rightarrow> kernel \<Rightarrow> clockid_t \<Rightarrow> int \<Rightarrow> sem_sys" where
  "sem_init self k clockID count =
     \<lparr>ss_kernel = k, ss_sem = KSemaphore_new clockID count, ss_pc = (\<lambda>_. SemOutside), ss_acquired = 0, ss_released = 0\<rparr>"

definition sem_start :: "nat \<Rightarrow> int \<Rightarrow> sem_sys \<Rightarrow> bool" where
  "sem_start self count S \<longleftrightarrow>
     (\<exists>k clockID. kernel_reachable k \<and> m_WaitQueue k (SyncObject self) = [] \<and> S = sem_init self k clockID count)"

definition sem_reachable :: "nat \<Rightarrow> int \<Rightarrow> sem_sys \<Rightarrow> bool" where
  "sem_reachable self count = reaches (sem_start self count) (sem_step self)"

section \<open>The semaphore keeps the contract of wait objects\<close>

fun sem_phase :: "sem_pc \<Rightarrow> call_phase" where
  "sem_phase SemOutside = Outside"
| "sem_phase AcquireTop = Trying False"
| "sem_phase AcquireSuspended = Suspended"
| "sem_phase (ClockTop deadline) = Trying True"
| "sem_phase (ClockSuspended deadline) = Suspended"

definition sem_phases :: "sem_sys \<Rightarrow> call_phases" where
  "sem_phases S t = sem_phase (ss_pc S t)"

lemma sem_phases_upd [simp]:
  "sem_phases (S\<lparr>ss_pc := (ss_pc S)(t := p)\<rparr>) = (sem_phases S)(t := sem_phase p)"
  "sem_phases (S\<lparr>ss_kernel := k\<rparr>) = sem_phases S" "sem_phases (S\<lparr>ss_sem := s\<rparr>) = sem_phases S"
  "sem_phases (S\<lparr>ss_acquired := a\<rparr>) = sem_phases S" "sem_phases (S\<lparr>ss_released := a\<rparr>) = sem_phases S"
  by (auto simp: sem_phases_def)

lemma sem_put_fields [simp]:
  "ss_kernel (sem_put S t p r) = fst (snd r)" "ss_sem (sem_put S t p r) = snd (snd r)"
  "ss_pc (sem_put S t p r) = (ss_pc S)(t := if fst r = None then p else SemOutside)"
  "ss_acquired (sem_put S t p r) = ss_acquired S + (if fst r = Some Success then 1 else 0)"
  "ss_released (sem_put S t p r) = ss_released S"
  "sem_phases (sem_put S t p r) = (sem_phases S)(t := if fst r = None then sem_phase p else Outside)"
  by (auto simp: sem_put_def sem_phases_def)

lemma sem_steps_actions:
  assumes "sem_step self S S'"
  shows "call_actions (SyncObject self) (ss_kernel S, sem_phases S) (ss_kernel S', sem_phases S')"
  using assms
proof cases
  case (env k')
  then show ?thesis by (simp add: call_env)
next
  case (elsewhere t k')
  then show ?thesis by (simp add: call_elsewhere sem_phases_def)
next
  case (call_Acquire t)
  then show ?thesis by (simp add: call_enter sem_phases_def)
next
  case (call_AcquireClock t clk dl deadline)
  then show ?thesis by (simp add: call_enter sem_phases_def)
next
  case (first t)
  then have "sem_phases S t = Trying False" by (simp add: sem_phases_def)
  then show ?thesis
    using first by (auto simp: Acquire_first_def Let_def intro: call_suspend call_return)
next
  case (second t)
  then have "sem_phases S t = Suspended" by (simp add: sem_phases_def)
  then show ?thesis
    using second by (auto simp: Acquire_second_def Let_def intro: call_leave call_resume(1))
next
  case (clock_first t deadline)
  then have "sem_phases S t = Trying True" by (simp add: sem_phases_def)
  then show ?thesis
    using clock_first by (auto simp: AcquireClock_first_def Let_def intro: call_suspend_clock(2) call_return)
next
  case (clock_second t deadline)
  then have "sem_phases S t = Suspended" by (simp add: sem_phases_def)
  then show ?thesis
    using clock_second by (auto simp: AcquireClock_second_def Let_def intro: call_leave call_resume_timed(1))
next
  case (try_acquire r k' sem')
  then show ?thesis by (auto simp: TryAcquire_def Let_def call_refl split: if_splits)
next
  case (release r k' sem')
  have w: "call_actions (SyncObject self) (ss_kernel S, sem_phases S) (KSWITCH_CONTEXT k1, sem_phases S)"
    if "k1 = snd (wakeup_wait_queue (SyncObject self) m (ss_kernel S))" for m k1
    unfolding that by (rule call_trans [OF call_wake call_env [OF kernel_env.pend]])
  show ?thesis using release w [OF refl]
    by (auto simp: Release_def Let_def call_refl call_wake case_prod_beta split: if_splits)
qed

lemma sem_start_facts:
  assumes "sem_start self count S"
  shows "kernel_reachable (ss_kernel S) \<and> m_WaitQueue (ss_kernel S) (SyncObject self) = [] \<and> (\<forall>t. sem_phases S t = Outside)"
    "s_Count (ss_sem S) = count" "ss_acquired S = 0" "ss_released S = 0" "ss_pc S t = SemOutside"
  using assms by (auto simp: sem_start_def sem_init_def sem_phases_def KSemaphore_new_def)

interpretation sem: wait_object "SyncObject self" ss_kernel sem_phases "sem_start self count" "sem_step self"
  for self count
  by unfold_locales (use sem_start_facts(1) sem_steps_actions in blast)+

section \<open>Counting, and no lost wakeup\<close>

abbreviation sem_queue :: "nat \<Rightarrow> sem_sys \<Rightarrow> KThreadWaitNodeRef list" where
  "sem_queue self S \<equiv> m_WaitQueue (ss_kernel S) (SyncObject self)"

text \<open>The threads in a call of the semaphore that are on their way to try it.\<close>

definition sem_awake :: "nat \<Rightarrow> sem_sys \<Rightarrow> thread_id set" where
  "sem_awake self S = {t. ss_pc S t \<noteq> SemOutside \<and> WaitNode t 0 \<notin> set (sem_queue self S)}"

definition sem_inv :: "nat \<Rightarrow> int \<Rightarrow> sem_sys \<Rightarrow> bool" where
  "sem_inv self count S \<longleftrightarrow>
     finite {t. ss_pc S t \<noteq> SemOutside} \<and>
     s_Count (ss_sem S) = count + int (ss_released S) - int (ss_acquired S) \<and>
     0 \<le> s_Count (ss_sem S) \<and> s_Count (ss_sem S) \<le> SEM_VALUE_MAX \<and>
     (sem_queue self S \<noteq> [] \<longrightarrow> s_Count (ss_sem S) \<le> int (card (sem_awake self S)))"

lemma card_take_one:
  assumes "finite A'" "A - {t} \<subseteq> A'" "(c::int) \<le> int (card A)"
  shows "c - 1 \<le> int (card A')"
proof -
  have "finite A" using assms(1,2) by (meson finite_Diff_insert finite_subset infinite_remove)
  then have "int (card A) \<le> int (card (A - {t})) + 1"
    using card.remove [of A t] by (cases "t \<in> A") simp_all
  moreover have "card (A - {t}) \<le> card A'" by (rule card_mono [OF assms(1,2)])
  ultimately show ?thesis using assms(3) by linarith
qed

lemma sem_awake_finite: "finite {t. ss_pc S t \<noteq> SemOutside} \<Longrightarrow> finite (sem_awake self S)"
  by (rule finite_subset [rotated]) (auto simp: sem_awake_def)

lemma finite_pc_upd: "finite {u. f u \<noteq> SemOutside} \<Longrightarrow> finite {u. (f(t := p)) u \<noteq> SemOutside}"
  by (rule finite_subset [of _ "insert t {u. f u \<noteq> SemOutside}"]) auto

text \<open>A step that takes one, with the thread \<open>t\<close> leaving, and a step that leaves the count alone.\<close>

lemma sem_inv_take:
  assumes inv: "sem_inv self count S" and pc: "ss_pc S' = (ss_pc S)(t := p)"
    and q: "sem_queue self S' = remove1 (WaitNode t 0) (sem_queue self S)"
    and c: "s_Count (ss_sem S) > 0" "s_Count (ss_sem S') = s_Count (ss_sem S) - 1"
    and g: "ss_acquired S' = ss_acquired S + 1" "ss_released S' = ss_released S"
  shows "sem_inv self count S'"
proof -
  have fin: "finite {t. ss_pc S' t \<noteq> SemOutside}"
    using inv unfolding pc by (intro finite_pc_upd) (simp add: sem_inv_def)
  have sub: "sem_awake self S - {t} \<subseteq> sem_awake self S'"
    unfolding sem_awake_def q pc by (auto dest: notin_set_remove1)
  have "s_Count (ss_sem S) - 1 \<le> int (card (sem_awake self S'))" if "sem_queue self S' \<noteq> []"
    by (rule card_take_one [OF sem_awake_finite [OF fin] sub]) (use inv that q in \<open>auto simp: sem_inv_def\<close>)
  then show ?thesis using inv fin c g by (auto simp: sem_inv_def)
qed

lemma sem_inv_keep:
  assumes inv: "sem_inv self count S" and pc: "ss_pc S' = (ss_pc S)(t := p)"
    and q: "s_Count (ss_sem S) = 0 \<or> set (sem_queue self S') \<subseteq> set (sem_queue self S) \<and> (p = SemOutside \<longrightarrow> ss_pc S t = SemOutside)"
    and c: "s_Count (ss_sem S') = s_Count (ss_sem S)"
    and g: "ss_acquired S' = ss_acquired S" "ss_released S' = ss_released S"
  shows "sem_inv self count S'"
proof -
  have fin: "finite {t. ss_pc S' t \<noteq> SemOutside}"
    using inv unfolding pc by (intro finite_pc_upd) (simp add: sem_inv_def)
  have "s_Count (ss_sem S) \<le> int (card (sem_awake self S'))" if "sem_queue self S' \<noteq> []" "s_Count (ss_sem S) \<noteq> 0"
  proof -
    have "sem_awake self S \<subseteq> sem_awake self S'" using q that(2) unfolding sem_awake_def pc by auto
    then have "card (sem_awake self S) \<le> card (sem_awake self S')"
      by (rule card_mono [OF sem_awake_finite [OF fin]])
    moreover have "sem_queue self S \<noteq> []" using q that by auto
    ultimately show ?thesis using inv by (simp add: sem_inv_def)
  qed
  then show ?thesis using inv fin c g by (cases "s_Count (ss_sem S) = 0") (simp_all add: sem_inv_def)
qed


lemma sem_inv_release:
  assumes inv: "sem_inv self count S" and r: "sem_reachable self count S"
    and rel: "Release self (sem_st S) = (r, k', sem')"
  shows "sem_inv self count (S\<lparr>ss_kernel := k', ss_sem := sem', ss_released := ss_released S + (if r = Success then 1 else 0)\<rparr>)"
    (is "sem_inv self count ?S'")
proof (cases "s_Count (ss_sem S) = SEM_VALUE_MAX")
  case True
  then show ?thesis using inv rel by (auto simp: Release_def sem_inv_def sem_awake_def)
next
  case False
  let ?c = "s_Count (ss_sem S) + 1" and ?q = "sem_queue self S"
  have c: "0 < ?c" "?c \<le> SEM_VALUE_MAX" using False inv by (auto simp: sem_inv_def)
  have k': "m_WaitQueue k' (SyncObject self) = drop (nat ?c) ?q" and s': "s_Count sem' = ?c" and r': "r = Success"
    using rel False c sem.wake_queue [OF r [unfolded sem_reachable_def], of ?c]
    by (auto simp: Release_def Let_def case_prod_beta wakeup_count_def KSWITCH_CONTEXT_def split: if_splits)
  have fin: "finite {t. ss_pc S t \<noteq> SemOutside}" using inv by (simp add: sem_inv_def)
  have "?c \<le> int (card (sem_awake self ?S'))" if ne: "drop (nat ?c) ?q \<noteq> []"
  proof -
    let ?w = "take (nat ?c) ?q" and ?T = "{t. WaitNode t 0 \<in> set (take (nat ?c) ?q)}"
    have d: "distinct ?q" by (rule sem.queue_distinct [OF r [unfolded sem_reachable_def]])
    have nodes: "\<exists>t. n = WaitNode t 0 \<and> sem_phases S t = Suspended" if "n \<in> set ?w" for n
      by (rule sem.queue_suspended [OF r [unfolded sem_reachable_def]]) (use that in \<open>auto dest: in_set_takeD\<close>)
    have "set ?w = (\<lambda>t. WaitNode t 0) ` ?T" using nodes by fastforce
    moreover have "inj_on (\<lambda>t. WaitNode t 0) ?T" by (auto simp: inj_on_def)
    ultimately have "card (set ?w) = card ?T" by (metis card_image)
    moreover have "card (set ?w) = length ?w" by (rule distinct_card [OF distinct_take [OF d]])
    ultimately have "card ?T = nat ?c" using ne by simp
    moreover have "?T \<subseteq> sem_awake self ?S'"
    proof
      fix t assume t: "t \<in> ?T"
      then have "ss_pc S t \<noteq> SemOutside" using nodes [of "WaitNode t 0"] by (auto simp: sem_phases_def)
      moreover have "WaitNode t 0 \<notin> set (drop (nat ?c) ?q)"
        using t set_take_disj_set_drop_if_distinct [OF d order_refl, of "nat ?c"] by auto
      ultimately show "t \<in> sem_awake self ?S'" by (simp add: sem_awake_def k')
    qed
    then have "card ?T \<le> card (sem_awake self ?S')"
      by (rule card_mono [rotated]) (rule sem_awake_finite, use fin in simp)
    ultimately show ?thesis using c by linarith
  qed
  then show ?thesis using inv c fin by (simp add: sem_inv_def k' s' r')
qed

lemma sem_put_queue:
  "sem_queue self (sem_put S t p r) = m_WaitQueue (fst (snd r)) (SyncObject self)"
  by simp

lemma detach_blocking_queue:
  assumes "sem_reachable self count S"
  shows "m_WaitQueue (snd (Detatch n (SetBlockingObject t b (ss_kernel S)))) (SyncObject self) = remove1 n (sem_queue self S)"
    and "m_WaitQueue (snd (Detatch m (snd (Detatch n (SetBlockingObject t b (ss_kernel S)))))) (SyncObject self) =
      remove1 m (remove1 n (sem_queue self S))"
proof -
  have c: "cpu_inv (SetBlockingObject t b (ss_kernel S))"
    by (rule cpu_inv_SetBlockingObject [OF sem.cpu_ok [OF assms [unfolded sem_reachable_def]]])
  then show "m_WaitQueue (snd (Detatch n (SetBlockingObject t b (ss_kernel S)))) (SyncObject self) = remove1 n (sem_queue self S)"
    by (simp add: Detatch_facts(2))
  then show "m_WaitQueue (snd (Detatch m (snd (Detatch n (SetBlockingObject t b (ss_kernel S)))))) (SyncObject self) =
      remove1 m (remove1 n (sem_queue self S))"
    by (simp add: Detatch_facts(2) [OF Detatch_facts(1) [OF c]])
qed

lemma sem_inv_step:
  assumes inv: "sem_inv self count S" and r: "sem_reachable self count S" and st: "sem_step self S S'"
  shows "sem_inv self count S'"
  using st
proof cases
  case (env k')
  then show ?thesis
    using inv sem.env_queue [OF r [unfolded sem_reachable_def] env(2)] by (auto simp: sem_inv_def sem_awake_def)
next
  case (elsewhere t k')
  then have "m_WaitQueue k' (SyncObject self) = sem_queue self S"
    by (intro sem.elsewhere_queue [OF r [unfolded sem_reachable_def]]) (simp_all add: sem_phases_def)
  then show ?thesis using inv elsewhere(1) by (auto simp: sem_inv_def sem_awake_def)
next
  case (call_Acquire t)
  then show ?thesis by (intro sem_inv_keep [OF inv, of _ t AcquireTop]) auto
next
  case (call_AcquireClock t clk dl deadline)
  then show ?thesis by (intro sem_inv_keep [OF inv, of _ t "ClockTop deadline"]) auto
next
  case (first t)
  have nq: "WaitNode t 0 \<notin> set (sem_queue self S)"
    using sem.trying_not_queued [OF r [unfolded sem_reachable_def], of t False] first by (simp add: sem_phases_def)
  show ?thesis
  proof (cases "s_Count (ss_sem S) > 0")
    case True
    then show ?thesis using first nq
      by (intro sem_inv_take [OF inv, of _ t SemOutside]) (auto simp: Acquire_first_def Let_def remove1_idem)
  next
    case False
    then have "s_Count (ss_sem S) = 0" using inv by (simp add: sem_inv_def)
    then show ?thesis using first
      by (intro sem_inv_keep [OF inv, of _ t AcquireSuspended]) (auto simp: Acquire_first_def Let_def)
  qed
next
  case (second t)
  have nd: "\<not> m_TargetDeleted (wait_nodes (ss_kernel S) (WaitNode t 0))"
    by (rule sem.node_not_deleted [OF r [unfolded sem_reachable_def]]) (use second in \<open>simp add: sem_phases_def\<close>)
  show ?thesis
  proof (cases "s_Count (ss_sem S) > 0")
    case True
    then show ?thesis using second nd
      by (intro sem_inv_take [OF inv, of _ t SemOutside])
         (auto simp: Acquire_second_def Let_def detach_blocking_queue [OF r])
  next
    case False
    then have "s_Count (ss_sem S) = 0" using inv by (simp add: sem_inv_def)
    then show ?thesis using second nd
      by (intro sem_inv_keep [OF inv, of _ t AcquireTop]) (auto simp: Acquire_second_def Let_def)
  qed
next
  case (clock_first t deadline)
  have nq: "WaitNode t 0 \<notin> set (sem_queue self S)"
    using sem.trying_not_queued [OF r [unfolded sem_reachable_def], of t True] clock_first by (simp add: sem_phases_def)
  show ?thesis
  proof (cases "s_Count (ss_sem S) > 0")
    case True
    then show ?thesis using clock_first nq
      by (intro sem_inv_take [OF inv, of _ t SemOutside]) (auto simp: AcquireClock_first_def Let_def remove1_idem)
  next
    case False
    then have "s_Count (ss_sem S) = 0" using inv by (simp add: sem_inv_def)
    then show ?thesis using clock_first
      by (intro sem_inv_keep [OF inv, of _ t "ss_pc S' t"]) (auto simp: AcquireClock_first_def Let_def)
  qed
next
  case (clock_second t deadline)
  have nd: "\<not> m_TargetDeleted (wait_nodes (ss_kernel S) (WaitNode t 0))"
    by (rule sem.node_not_deleted [OF r [unfolded sem_reachable_def]]) (use clock_second in \<open>simp add: sem_phases_def\<close>)
  show ?thesis using clock_second nd
    by (intro sem_inv_keep [OF inv, of _ t "ClockTop deadline"])
       (auto simp: AcquireClock_second_def Let_def detach_blocking_queue [OF r] dest!: subsetD [OF set_remove1_subset])
next
  case (try_acquire r k' sem')
  then show ?thesis
    using inv by (auto simp: TryAcquire_def sem_inv_def sem_awake_def split: if_splits)
next
  case (release r' k' sem')
  then show ?thesis using sem_inv_release [OF inv r] by simp
qed


lemma sem_reachable_inv:
  assumes "sem_reachable self count S" "0 \<le> count" "count \<le> SEM_VALUE_MAX"
  shows "sem_inv self count S"
  using assms(1) unfolding sem_reachable_def
proof (rule reaches_invariant)
  show "sem_inv self count S" if "sem_start self count S" for S
    using sem_start_facts [OF that] assms(2,3) by (simp add: sem_inv_def)
qed (use sem_inv_step in \<open>auto simp: sem_reachable_def\<close>)

text \<open>
  C12. A semaphore counts: in every state that threads, interrupt handlers and the rest of the kernel
  can bring about, its count is the initial count plus the successful releases minus the successful acquires,
  and stays between 0 and \<open>SEM_VALUE_MAX\<close>.
\<close>
theorem sem_counting:
  assumes "sem_reachable self count S" "0 \<le> count" "count \<le> SEM_VALUE_MAX"
  shows "s_Count (ss_sem S) = count + int (ss_released S) - int (ss_acquired S) \<and>
     0 \<le> s_Count (ss_sem S) \<and> s_Count (ss_sem S) \<le> SEM_VALUE_MAX \<and> \<not> m_Panicked (ss_kernel S)"
  using sem_reachable_inv [OF assms] sem.no_panic assms(1) by (auto simp: sem_inv_def sem_reachable_def)

text \<open>
  C11. No wakeup of a semaphore is lost: while threads wait on its queue, the count is at most the number
  of threads that are in one of its calls, not on the queue and not blocked, so every unit that a release has
  made available is matched by a thread that will still try to take it.
\<close>
theorem sem_no_lost_wakeup:
  assumes "sem_reachable self count S" "0 \<le> count" "count \<le> SEM_VALUE_MAX" "sem_queue self S \<noteq> []"
  shows "s_Count (ss_sem S) \<le>
    int (card {t. ss_pc S t \<noteq> SemOutside \<and> WaitNode t 0 \<notin> set (sem_queue self S) \<and> \<not> blocked (thread_state (ss_kernel S) t)})"
proof -
  have "sem_awake self S =
      {t. ss_pc S t \<noteq> SemOutside \<and> WaitNode t 0 \<notin> set (sem_queue self S) \<and> \<not> blocked (thread_state (ss_kernel S) t)}"
    using sem.waiter_not_lost [OF assms(1) [unfolded sem_reachable_def]]
    by (auto simp: sem_awake_def sem_phases_def elim!: sem_phase.elims)
  then show ?thesis using sem_reachable_inv [OF assms(1-3)] assms(4) by (simp add: sem_inv_def)
qed

text \<open>A thread acquires the semaphore, which is created with count 1, and waits for it the second time.\<close>

definition sem_example :: "nat \<Rightarrow> sem_sys" where
  "sem_example n =
     (let call = (\<lambda>S. S\<lparr>ss_pc := (ss_pc S)(1 := AcquireTop)\<rparr>);
          first = (\<lambda>S. sem_put S 1 AcquireSuspended (Acquire_first 7 (sem_st S)))
      in ((first \<circ> call) ^^ n) (sem_init 7 booted_kernel CLOCK_MONOTONIC 1))"

lemma sem_example_reachable:
  "sem_reachable 7 1 (sem_example 2)" "s_Count (ss_sem (sem_example 2)) = 0" "sem_queue 7 (sem_example 2) = [WaitNode 1 0]"
  "ss_acquired (sem_example 2) = 1" "ss_released (sem_example 2) = 0"
proof -
  note b = booted_kernel_facts
  let ?call = "\<lambda>S. S\<lparr>ss_pc := (ss_pc S)(1 := AcquireTop)\<rparr>"
  let ?first = "\<lambda>S. sem_put S 1 AcquireSuspended (Acquire_first 7 (sem_st S))"
  let ?S0 = "sem_init 7 booted_kernel CLOCK_MONOTONIC 1"
  have s0: "ss_kernel ?S0 = booted_kernel" "ss_pc ?S0 = (\<lambda>_. SemOutside)" "s_Count (ss_sem ?S0) = 1"
    "ss_acquired ?S0 = 0" "ss_released ?S0 = 0"
    by (simp_all add: sem_init_def KSemaphore_new_def)
  have e: "sem_example 2 = ?first (?call (?first (?call ?S0)))"
    by (simp add: sem_example_def Let_def eval_nat_numeral)
  have step: "sem_reachable 7 1 (?first (?call S))"
    if r: "sem_reachable 7 1 S" and k: "ss_kernel S = booted_kernel" and p: "ss_pc S 1 = SemOutside" for S
  proof -
    have "sem_step 7 S (?call S)" by (rule sem_step.call_Acquire) (use b k p in simp_all)
    moreover have "sem_step 7 (?call S) (?first (?call S))" by (rule sem_step.first) (use b k in simp_all)
    ultimately show ?thesis using r unfolding sem_reachable_def by (blast intro: reaches.step)
  qed
  have r0: "sem_reachable 7 1 ?S0"
    unfolding sem_reachable_def by (rule reaches.init) (use b in \<open>auto simp: sem_start_def\<close>)
  have f1: "ss_kernel (?first (?call ?S0)) = booted_kernel" "ss_pc (?first (?call ?S0)) 1 = SemOutside"
    "s_Count (ss_sem (?first (?call ?S0))) = 0" "ss_acquired (?first (?call ?S0)) = 1" "ss_released (?first (?call ?S0)) = 0"
    using s0 b by (simp_all add: Acquire_first_def Let_def)
  show "sem_reachable 7 1 (sem_example 2)"
    unfolding e by (rule step [OF step [OF r0]]) (use s0 f1 in simp_all)
  have "m_WaitQueue (suspend_waiting (SyncObject 7) 0 booted_kernel) (SyncObject 7) = [WaitNode 1 0]"
  proof -
    have ci: "cpu_inv booted_kernel" by (rule kernel_reachable_ok [OF b(1)])
    have "waitq_inv (SyncObject 7) {} {} booted_kernel"
      using ci b cpu_inv_parts(5) [OF ci] by (simp add: waitq_inv_def)
    moreover have "suspends (SyncObject 7) 0 booted_kernel (suspend_waiting (SyncObject 7) 0 booted_kernel)"
      using ci b by (intro suspend_waiting_facts) (simp_all add: thread_runs_def)
    ultimately show ?thesis using waitq_suspend(2) b by fastforce
  qed
  then show "s_Count (ss_sem (sem_example 2)) = 0" "sem_queue 7 (sem_example 2) = [WaitNode 1 0]"
    "ss_acquired (sem_example 2) = 1" "ss_released (sem_example 2) = 0"
    unfolding e using f1 by (simp_all add: Acquire_first_def Let_def KSWITCH_CONTEXT_def)
qed

theorem sem_counting_witness:
  "s_Count (ss_sem (sem_example 2)) = 1 + int (ss_released (sem_example 2)) - int (ss_acquired (sem_example 2)) \<and>
   ss_acquired (sem_example 2) = 1 \<and> s_Count (ss_sem (sem_example 2)) = 0"
  using sem_counting [OF sem_example_reachable(1)] sem_example_reachable by (simp add: SEM_VALUE_MAX_def)

theorem sem_no_lost_wakeup_witness:
  "sem_queue 7 (sem_example 2) = [WaitNode 1 0] \<and>
   s_Count (ss_sem (sem_example 2)) \<le>
    int (card {t. ss_pc (sem_example 2) t \<noteq> SemOutside \<and> WaitNode t 0 \<notin> set (sem_queue 7 (sem_example 2)) \<and>
      \<not> blocked (thread_state (ss_kernel (sem_example 2)) t)})"
  using sem_no_lost_wakeup [OF sem_example_reachable(1)] sem_example_reachable by (simp add: SEM_VALUE_MAX_def)

end
