(* ===== verification/KMutex.thy ===== *)
theory KMutex
  imports WaitQueue "HOL-Library.Multiset"
begin

text \<open>
  \<open>KMutex\<close> (\<open>Kernel/KMutex.cpp\<close>, \<open>Include/Kernel/KMutex.h\<close>): a recursive reader/writer lock. Its count is negative
  while it is locked exclusively, positive while it is shared, and \<open>m_Holder\<close> is the thread that has it
  exclusively. The blocking calls are split at their critical sections, as for semaphores. The multisets of the
  model record which threads hold the lock; \<open>mutex_exclusion\<close> shows what the count says about
  them, and \<open>mutex_no_lost_wakeup\<close> that nobody sleeps on a mutex it could take.
\<close>

section \<open>State\<close>

datatype PEMutexRecursionMode = PEMutexRecursionMode_Recurse | PEMutexRecursionMode_RaiseError

text \<open>An \<open>INVALID_HANDLE\<close> holder is \<open>None\<close>.\<close>

record KMutex =
  mx_Count :: int
  mx_RecursionMode :: PEMutexRecursionMode
  mx_ClockID :: clockid_t
  mx_Holder :: "thread_id option"

definition KMutex_new :: "PEMutexRecursionMode \<Rightarrow> clockid_t \<Rightarrow> KMutex" where
  "KMutex_new recursionMode clockID =
     \<lparr>mx_Count = 0, mx_RecursionMode = recursionMode, mx_ClockID = clockID, mx_Holder = None\<rparr>"

definition KMutex_destroy :: "nat \<Rightarrow> kernel \<Rightarrow> kernel" where
  "KMutex_destroy self k =
     destroy_KNamedObject (SyncObject self)
       (if m_WaitQueue k (SyncObject self) \<noteq> [] then k\<lparr>m_Panicked := True\<rparr> else k)"

section \<open>Operations\<close>

type_synonym mutex_state = "kernel \<times> KMutex"

text \<open>The test and the update that every exclusive lock makes, and the test for a lock held by the caller itself.\<close>

definition mutex_free_for :: "KMutex \<Rightarrow> thread_id \<Rightarrow> bool" where
  "mutex_free_for mx thread \<longleftrightarrow>
     mx_Count mx = 0 \<or> mx_RecursionMode mx = PEMutexRecursionMode_Recurse \<and> mx_Holder mx = Some thread"

definition mutex_take :: "thread_id \<Rightarrow> KMutex \<Rightarrow> KMutex" where
  "mutex_take thread mx = mx\<lparr>mx_Count := mx_Count mx - 1, mx_Holder := Some thread\<rparr>"

definition mutex_self_lock :: "KMutex \<Rightarrow> thread_id \<Rightarrow> bool" where
  "mutex_self_lock mx thread \<longleftrightarrow>
     mx_RecursionMode mx = PEMutexRecursionMode_RaiseError \<and> mx_Holder mx = Some thread"

definition Lock_first :: "nat \<Rightarrow> mutex_state \<Rightarrow> PErrorCode option \<times> mutex_state" where
  "Lock_first self s =
     (let (k, mx) = s; thread = gk_CurrentThread k in
      if mutex_free_for mx thread then (Some Success, k, mutex_take thread mx)
      else let k = kassert (\<not> mutex_self_lock mx thread) k in
           if mutex_self_lock mx thread then (Some DEADLK, k, mx)
           else (None, KSWITCH_CONTEXT (SetBlockingObject thread (Some (SyncObject self)) (suspend_waiting (SyncObject self) 0 k)), mx))"

definition Lock_second :: "bool \<Rightarrow> mutex_state \<Rightarrow> PErrorCode option \<times> mutex_state" where
  "Lock_second interruptible s =
     (let (k, mx) = s; thread = gk_CurrentThread k; waitNode = WaitNode thread 0;
          k = snd (Detatch waitNode k);
          k = SetBlockingObject thread None k in
      if m_TargetDeleted (wait_nodes k waitNode) then (Some INVAL, k, mx)
      else if mx_Count mx = 0 then (Some Success, k, mutex_take thread mx)
      else if interruptible then (Some RestartSyscall, k, mx) else (None, k, mx))"

definition LockClock_start :: "clockid_t \<Rightarrow> TimeValNanos \<Rightarrow> kernel \<Rightarrow> TimeValNanos result" where
  "LockClock_start clockID clockDeadline k = kconvert_clock_to_monotonic (kclock k) clockID clockDeadline"

definition LockDeadline_start :: "KMutex \<Rightarrow> TimeValNanos \<Rightarrow> kernel \<Rightarrow> TimeValNanos result" where
  "LockDeadline_start mx deadline k = LockClock_start (mx_ClockID mx) deadline k"

definition LockTimeout_start :: "TimeValNanos \<Rightarrow> kernel \<Rightarrow> TimeValNanos result" where
  "LockTimeout_start timeout k = LockClock_start CLOCK_MONOTONIC_COARSE (timeout_deadline (kclock k) timeout) k"

text \<open>\<open>first\<close> is the loop variable of the code: a second round of an interruptible call restarts the system call.\<close>

definition LockClock_first :: "nat \<Rightarrow> TimeValNanos \<Rightarrow> bool \<Rightarrow> bool \<Rightarrow> mutex_state \<Rightarrow> PErrorCode option \<times> mutex_state" where
  "LockClock_first self deadline first interruptible s =
     (let (k, mx) = s; thread = gk_CurrentThread k in
      if mutex_free_for mx thread then (Some Success, k, mutex_take thread mx)
      else let k = kassert (\<not> mutex_self_lock mx thread) k in
           if mutex_self_lock mx thread then (Some DEADLK, k, mx)
           else if nanos_IsInfinit deadline \<or> kget_monotonic_time (kclock k) < deadline
           then if \<not> first \<and> interruptible then (Some RestartSyscall, k, mx)
                else (None, KSWITCH_CONTEXT (suspend_clock (SyncObject self) 0 deadline k), mx)
           else (Some TIMEDOUT, k, mx))"

definition LockClock_second :: "mutex_state \<Rightarrow> PErrorCode option \<times> mutex_state" where
  "LockClock_second s =
     (let (k, mx) = s; thread = gk_CurrentThread k; waitNode = WaitNode thread 0;
          k = snd (Detatch waitNode k);
          k = snd (Detatch (SleepNode thread 0) k) in
      if m_TargetDeleted (wait_nodes k waitNode) then (Some INVAL, k, mx) else (None, k, mx))"

definition TryLock :: "mutex_state \<Rightarrow> PErrorCode \<times> mutex_state" where
  "TryLock s =
     (let (k, mx) = s; thread = gk_CurrentThread k in
      if mutex_free_for mx thread then (Success, k, mutex_take thread mx) else (BUSY, k, mx))"

definition Unlock :: "nat \<Rightarrow> mutex_state \<Rightarrow> PErrorCode \<times> mutex_state" where
  "Unlock self s =
     (let (k, mx) = s in
      if mx_Count mx = 0 then (INVAL, k, mx)
      else let mx = (if mx_Count mx < 0 then mx\<lparr>mx_Count := mx_Count mx + 1\<rparr> else mx\<lparr>mx_Count := mx_Count mx - 1\<rparr>) in
           if mx_Count mx = 0
           then let mx = mx\<lparr>mx_Holder := None\<rparr>;
                    (needSchedule, k) = wakeup_wait_queue (SyncObject self) 0 k
                in (Success, if needSchedule then KSWITCH_CONTEXT k else k, mx)
           else (Success, k, mx))"

definition LockShared_first :: "nat \<Rightarrow> mutex_state \<Rightarrow> PErrorCode option \<times> mutex_state" where
  "LockShared_first self s =
     (let (k, mx) = s; thread = gk_CurrentThread k in
      if mx_Count mx \<ge> 0 then (Some Success, k, mx\<lparr>mx_Count := mx_Count mx + 1\<rparr>)
      else (None, KSWITCH_CONTEXT (SetBlockingObject thread (Some (SyncObject self)) (suspend_waiting (SyncObject self) 0 k)), mx))"

definition LockShared_second :: "bool \<Rightarrow> mutex_state \<Rightarrow> PErrorCode option \<times> mutex_state" where
  "LockShared_second interruptible s =
     (let (k, mx) = s; thread = gk_CurrentThread k; waitNode = WaitNode thread 0;
          k = snd (Detatch waitNode k);
          k = SetBlockingObject thread None k in
      if m_TargetDeleted (wait_nodes k waitNode) then (Some INVAL, k, mx)
      else if mx_Count mx \<ge> 0 then (Some Success, k, mx\<lparr>mx_Count := mx_Count mx + 1\<rparr>)
      else if interruptible then (Some RestartSyscall, k, mx) else (None, k, mx))"

definition LockSharedClock_start :: "clockid_t \<Rightarrow> TimeValNanos \<Rightarrow> kernel \<Rightarrow> TimeValNanos result" where
  "LockSharedClock_start clockID clockDeadline k = kconvert_clock_to_monotonic (kclock k) clockID clockDeadline"

definition LockSharedDeadline_start :: "KMutex \<Rightarrow> TimeValNanos \<Rightarrow> kernel \<Rightarrow> TimeValNanos result" where
  "LockSharedDeadline_start mx deadline k = LockSharedClock_start (mx_ClockID mx) deadline k"

definition LockSharedTimeout_start :: "TimeValNanos \<Rightarrow> kernel \<Rightarrow> TimeValNanos result" where
  "LockSharedTimeout_start timeout k =
     LockSharedClock_start CLOCK_MONOTONIC_COARSE (timeout_deadline (kclock k) timeout) k"

definition LockSharedClock_first :: "nat \<Rightarrow> TimeValNanos \<Rightarrow> bool \<Rightarrow> bool \<Rightarrow> mutex_state \<Rightarrow> PErrorCode option \<times> mutex_state" where
  "LockSharedClock_first self deadline first interruptible s =
     (let (k, mx) = s; thread = gk_CurrentThread k in
      if mx_Count mx \<ge> 0 then (Some Success, k, mx\<lparr>mx_Count := mx_Count mx + 1\<rparr>)
      else if nanos_IsInfinit deadline \<or> kget_monotonic_time (kclock k) < deadline
      then if \<not> first \<and> interruptible then (Some RestartSyscall, k, mx)
           else (None, KSWITCH_CONTEXT (suspend_clock (SyncObject self) 0 deadline k), mx)
      else (Some TIMEDOUT, k, mx))"

definition LockSharedClock_second :: "nat \<Rightarrow> mutex_state \<Rightarrow> PErrorCode option \<times> mutex_state" where
  "LockSharedClock_second self s =
     (let (k, mx) = s; thread = gk_CurrentThread k; waitNode = WaitNode thread 0;
          k = snd (Detatch waitNode k);
          k = snd (Detatch (SleepNode thread 0) k) in
      if m_TargetDeleted (wait_nodes k waitNode) then (Some INVAL, k, mx)
      else let (needSchedule, k) = wakeup_wait_queue (SyncObject self) 0 k
           in (None, if needSchedule then KSWITCH_CONTEXT k else k, mx))"

definition TryLockShared :: "mutex_state \<Rightarrow> PErrorCode \<times> mutex_state" where
  "TryLockShared s =
     (let (k, mx) = s in
      if mx_Count mx \<ge> 0 then (Success, k, mx\<lparr>mx_Count := mx_Count mx + 1\<rparr>) else (BUSY, k, mx))"

definition IsLocked :: "mutex_state \<Rightarrow> bool" where
  "IsLocked s \<longleftrightarrow> (let (k, mx) = s in \<not> (mx_Count mx = 0 \<or> mx_Holder mx \<noteq> Some (gk_CurrentThread k)))"

section \<open>Threads using a mutex\<close>

text \<open>
  Where a thread is: outside, at the top of the loop of one of the four blocking calls, or suspended in it. The flags
  are \<open>interruptible\<close> and, for the calls with a time limit, \<open>first\<close>.
\<close>

datatype mutex_pc =
    MutexOutside
  | LockTop bool | LockSuspended bool
  | LockClockTop TimeValNanos bool bool | LockClockSuspended TimeValNanos bool
  | SharedTop bool | SharedSuspended bool
  | SharedClockTop TimeValNanos bool bool | SharedClockSuspended TimeValNanos bool

fun mutex_section :: "nat \<Rightarrow> mutex_pc \<Rightarrow> mutex_state \<Rightarrow> mutex_pc \<times> PErrorCode option \<times> mutex_state" where
  "mutex_section self (LockTop i) s = (LockSuspended i, Lock_first self s)"
| "mutex_section self (LockSuspended i) s = (LockTop i, Lock_second i s)"
| "mutex_section self (LockClockTop dl first i) s = (LockClockSuspended dl i, LockClock_first self dl first i s)"
| "mutex_section self (LockClockSuspended dl i) s = (LockClockTop dl False i, LockClock_second s)"
| "mutex_section self (SharedTop i) s = (SharedSuspended i, LockShared_first self s)"
| "mutex_section self (SharedSuspended i) s = (SharedTop i, LockShared_second i s)"
| "mutex_section self (SharedClockTop dl first i) s = (SharedClockSuspended dl i, LockSharedClock_first self dl first i s)"
| "mutex_section self (SharedClockSuspended dl i) s = (SharedClockTop dl False i, LockSharedClock_second self s)"
| "mutex_section self MutexOutside s = (MutexOutside, None, s)"

fun shared_pc :: "mutex_pc \<Rightarrow> bool" where
  "shared_pc (SharedTop i) = True"
| "shared_pc (SharedSuspended i) = True"
| "shared_pc (SharedClockTop dl first i) = True"
| "shared_pc (SharedClockSuspended dl i) = True"
| "shared_pc _ = False"

fun mutex_phase :: "mutex_pc \<Rightarrow> call_phase" where
  "mutex_phase MutexOutside = Outside"
| "mutex_phase (LockTop i) = Trying False"
| "mutex_phase (LockSuspended i) = Suspended"
| "mutex_phase (LockClockTop dl first i) = Trying True"
| "mutex_phase (LockClockSuspended dl i) = Suspended"
| "mutex_phase (SharedTop i) = Trying False"
| "mutex_phase (SharedSuspended i) = Suspended"
| "mutex_phase (SharedClockTop dl first i) = Trying True"
| "mutex_phase (SharedClockSuspended dl i) = Suspended"

record mutex_sys =
  ms_kernel :: kernel
  ms_mutex :: KMutex
  ms_pc :: "thread_id \<Rightarrow> mutex_pc"
  ms_writers :: "thread_id multiset"
  ms_readers :: "thread_id multiset"

abbreviation mutex_st :: "mutex_sys \<Rightarrow> mutex_state" where
  "mutex_st S \<equiv> (ms_kernel S, ms_mutex S)"

definition mutex_enter :: "mutex_sys \<Rightarrow> thread_id \<Rightarrow> bool \<Rightarrow> bool \<Rightarrow> mutex_sys" where
  "mutex_enter S t shared success =
     (if \<not> success then S
      else if shared then S\<lparr>ms_readers := add_mset t (ms_readers S)\<rparr> else S\<lparr>ms_writers := add_mset t (ms_writers S)\<rparr>)"

definition mutex_leave :: "mutex_sys \<Rightarrow> thread_id \<Rightarrow> mutex_sys" where
  "mutex_leave S t =
     (if t \<in># ms_writers S then S\<lparr>ms_writers := ms_writers S - {#t#}\<rparr> else S\<lparr>ms_readers := ms_readers S - {#t#}\<rparr>)"

text \<open>
  A thread makes its calls while it runs and with fresh nodes, unlocks what it has locked, and
  does not lock a \<open>RaiseError\<close> mutex that it holds, which would fail the assertion of \<open>Lock\<close>. Thread handles are below
  \<open>2 ^ 24\<close>, the capacity of the thread table.
\<close>

definition mutex_caller :: "mutex_sys \<Rightarrow> thread_id \<Rightarrow> bool" where
  "mutex_caller S t \<longleftrightarrow> t = gk_CurrentThread (ms_kernel S) \<and> thread_runs (ms_kernel S) \<and>
     t \<noteq> gk_IdleThread (ms_kernel S) \<and> ms_pc S t = MutexOutside \<and> t < 2 ^ 24"

inductive mutex_step :: "nat \<Rightarrow> mutex_sys \<Rightarrow> mutex_sys \<Rightarrow> bool" for self where
  env: "kernel_env (SyncObject self) (ms_kernel S) k' \<Longrightarrow> mutex_step self S (S\<lparr>ms_kernel := k'\<rparr>)"
| elsewhere: "mutex_caller S t \<Longrightarrow> kernel_self (SyncObject self) (ms_kernel S) k' \<Longrightarrow> mutex_step self S (S\<lparr>ms_kernel := k'\<rparr>)"
| call: "mutex_caller S t \<Longrightarrow> p \<in> {LockTop i, SharedTop i} \<Longrightarrow> node_free (WaitNode t 0) (ms_kernel S) \<Longrightarrow>
    mutex_step self S (S\<lparr>ms_pc := (ms_pc S)(t := p)\<rparr>)"
| call_timed: "mutex_caller S t \<Longrightarrow> p \<in> {LockClockTop deadline True i, SharedClockTop deadline True i} \<Longrightarrow>
    node_free (WaitNode t 0) (ms_kernel S) \<Longrightarrow> node_free (SleepNode t 0) (ms_kernel S) \<Longrightarrow>
    LockClock_start clk dl (ms_kernel S) = Inr deadline \<Longrightarrow> mutex_step self S (S\<lparr>ms_pc := (ms_pc S)(t := p)\<rparr>)"
| run: "t = gk_CurrentThread (ms_kernel S) \<Longrightarrow> thread_runs (ms_kernel S) \<Longrightarrow> ms_pc S t \<noteq> MutexOutside \<Longrightarrow>
    \<not> (\<not> shared_pc (ms_pc S t) \<and> mutex_self_lock (ms_mutex S) t) \<Longrightarrow>
    mutex_section self (ms_pc S t) (mutex_st S) = (p, r, k', mx') \<Longrightarrow>
    mutex_step self S (mutex_enter
      (S\<lparr>ms_kernel := k', ms_mutex := mx', ms_pc := (ms_pc S)(t := if r = None then p else MutexOutside)\<rparr>)
      t (shared_pc (ms_pc S t)) (r = Some Success))"
| try_lock: "mutex_caller S t \<Longrightarrow> TryLock (mutex_st S) = (r, k', mx') \<Longrightarrow>
    mutex_step self S (mutex_enter (S\<lparr>ms_kernel := k', ms_mutex := mx'\<rparr>) t False (r = Success))"
| try_shared: "mutex_caller S t \<Longrightarrow> TryLockShared (mutex_st S) = (r, k', mx') \<Longrightarrow>
    mutex_step self S (mutex_enter (S\<lparr>ms_kernel := k', ms_mutex := mx'\<rparr>) t True (r = Success))"
| unlock: "mutex_caller S t \<Longrightarrow> t \<in># ms_writers S + ms_readers S \<Longrightarrow> Unlock self (mutex_st S) = (r, k', mx') \<Longrightarrow>
    mutex_step self S (mutex_leave (S\<lparr>ms_kernel := k', ms_mutex := mx'\<rparr>) t)"

definition mutex_start :: "nat \<Rightarrow> PEMutexRecursionMode \<Rightarrow> mutex_sys \<Rightarrow> bool" where
  "mutex_start self mode S \<longleftrightarrow>
     (\<exists>k clockID. kernel_reachable k \<and> m_WaitQueue k (SyncObject self) = [] \<and>
        S = \<lparr>ms_kernel = k, ms_mutex = KMutex_new mode clockID, ms_pc = (\<lambda>_. MutexOutside), ms_writers = {#}, ms_readers = {#}\<rparr>)"

definition mutex_reachable :: "nat \<Rightarrow> PEMutexRecursionMode \<Rightarrow> mutex_sys \<Rightarrow> bool" where
  "mutex_reachable self mode = reaches (mutex_start self mode) (mutex_step self)"

section \<open>The mutex keeps the contract of wait objects\<close>

definition mutex_phases :: "mutex_sys \<Rightarrow> call_phases" where
  "mutex_phases S t = mutex_phase (ms_pc S t)"

lemma mutex_enter_fields [simp]:
  "ms_kernel (mutex_enter S t sh b) = ms_kernel S" "ms_mutex (mutex_enter S t sh b) = ms_mutex S"
  "ms_pc (mutex_enter S t sh b) = ms_pc S"
  "ms_kernel (mutex_leave S t) = ms_kernel S" "ms_mutex (mutex_leave S t) = ms_mutex S" "ms_pc (mutex_leave S t) = ms_pc S"
  by (simp_all add: mutex_enter_def mutex_leave_def)

lemma mutex_phases_upd [simp]:
  "mutex_phases (S\<lparr>ms_pc := (ms_pc S)(t := p)\<rparr>) = (mutex_phases S)(t := mutex_phase p)"
  "mutex_phases (S\<lparr>ms_kernel := k, ms_mutex := mx, ms_pc := (ms_pc S)(t := p)\<rparr>) = (mutex_phases S)(t := mutex_phase p)"
  "mutex_phases (S\<lparr>ms_kernel := k\<rparr>) = mutex_phases S" "mutex_phases (S\<lparr>ms_mutex := mx\<rparr>) = mutex_phases S"
  "mutex_phases (mutex_enter S t sh b) = mutex_phases S" "mutex_phases (mutex_leave S t) = mutex_phases S"
  by (auto simp: mutex_phases_def)

lemma call_wake_pend: "call_actions self (k, ph) (KSWITCH_CONTEXT (snd (wakeup_wait_queue self m k)), ph)"
  by (rule call_trans [OF call_wake call_env [OF kernel_env.pend]])

lemma mutex_section_actions:
  assumes "t = gk_CurrentThread k" "thread_runs k" "ph t = mutex_phase pc"
    and "\<not> (\<not> shared_pc pc \<and> mutex_self_lock mx t)" "mutex_section self pc (k, mx) = (p, r, k', mx')" "pc \<noteq> MutexOutside"
  shows "call_actions (SyncObject self) (k, ph) (k', ph(t := if r = None then mutex_phase p else Outside))"
proof -
  show ?thesis
  proof (cases pc)
    case MutexOutside
    then show ?thesis using assms by simp
  next
    case (LockTop i)
    then show ?thesis using assms
      by (auto simp: Lock_first_def Let_def kassert_def intro!: call_suspend call_return [where timed = False] split: if_splits)
  next
    case (LockSuspended i)
    then show ?thesis using assms
      by (auto simp: Lock_second_def Let_def intro!: call_leave [OF call_resume(2)] split: if_splits)
  next
    case (LockClockTop dl first i)
    then show ?thesis using assms
      by (auto simp: LockClock_first_def Let_def kassert_def intro!: call_suspend_clock(1) call_return [where timed = True] split: if_splits)
  next
    case (LockClockSuspended dl i)
    then show ?thesis using assms
      by (auto simp: LockClock_second_def Let_def intro!: call_leave [OF call_resume_timed(2)] split: if_splits)
  next
    case (SharedTop i)
    then show ?thesis using assms
      by (auto simp: LockShared_first_def Let_def intro!: call_suspend call_return [where timed = False] split: if_splits)
  next
    case (SharedSuspended i)
    then show ?thesis using assms
      by (auto simp: LockShared_second_def Let_def intro!: call_leave [OF call_resume(2)] split: if_splits)
  next
    case (SharedClockTop dl first i)
    then show ?thesis using assms
      by (auto simp: LockSharedClock_first_def Let_def intro!: call_suspend_clock(1) call_return [where timed = True] split: if_splits)
  next
    case (SharedClockSuspended dl i)
    then show ?thesis using assms call_resume_timed(2) [of t k ph "SyncObject self"]
      by (auto simp: LockSharedClock_second_def Let_def case_prod_beta
        intro!: call_leave [OF call_resume_timed(2)] call_trans [OF _ call_wake] call_trans [OF _ call_wake_pend] split: if_splits)
  qed
qed

lemma mutex_steps_actions:
  assumes "mutex_step self S S'"
  shows "call_actions (SyncObject self) (ms_kernel S, mutex_phases S) (ms_kernel S', mutex_phases S')"
  using assms
proof cases
  case (env k')
  then show ?thesis by (simp add: call_env)
next
  case (elsewhere t k')
  then show ?thesis by (auto simp: mutex_caller_def mutex_phases_def intro!: call_elsewhere)
next
  case (call t p i)
  then show ?thesis by (auto simp: mutex_caller_def mutex_phases_def intro!: call_enter)
next
  case (call_timed t p deadline i clk dl)
  then show ?thesis by (auto simp: mutex_caller_def mutex_phases_def intro!: call_enter)
next
  case (run t p r k' mx')
  from mutex_section_actions [OF run(2,3) _ run(5,6,4), of "mutex_phases S"] show ?thesis
    by (cases r) (simp_all add: run(1) mutex_phases_def [of S t])
next
  case (try_lock t r k' mx')
  then show ?thesis by (auto simp: TryLock_def Let_def call_refl split: if_splits)
next
  case (try_shared t r k' mx')
  then show ?thesis by (auto simp: TryLockShared_def call_refl split: if_splits)
next
  case (unlock t r k' mx')
  then show ?thesis
    by (auto simp: Unlock_def Let_def case_prod_beta call_refl call_wake call_wake_pend split: if_splits)
qed

lemma mutex_start_facts:
  assumes "mutex_start self mode S"
  shows "kernel_reachable (ms_kernel S) \<and> m_WaitQueue (ms_kernel S) (SyncObject self) = [] \<and> (\<forall>t. mutex_phases S t = Outside)"
    "mx_Count (ms_mutex S) = 0" "mx_Holder (ms_mutex S) = None" "ms_writers S = {#}" "ms_readers S = {#}" "ms_pc S t = MutexOutside"
  using assms by (auto simp: mutex_start_def mutex_phases_def KMutex_new_def)

interpretation mutex: wait_object "SyncObject self" ms_kernel mutex_phases "mutex_start self mode" "mutex_step self"
  for self mode
  by unfold_locales (use mutex_start_facts(1) mutex_steps_actions in blast)+

section \<open>Mutual exclusion, and no lost wakeup\<close>

text \<open>What the count and the holder say about the threads that hold the mutex.\<close>

definition mutex_owners_ok :: "KMutex \<Rightarrow> thread_id multiset \<Rightarrow> thread_id multiset \<Rightarrow> bool" where
  "mutex_owners_ok mx W R \<longleftrightarrow>
     (if mx_Count mx < 0
      then R = {#} \<and> mx_Count mx = - int (size W) \<and> (\<exists>t. mx_Holder mx = Some t \<and> set_mset W = {t})
      else W = {#} \<and> mx_Count mx = int (size R) \<and> mx_Holder mx = None)"

text \<open>Why a thread may be waiting.\<close>

definition mutex_taken :: "int \<Rightarrow> mutex_pc \<Rightarrow> bool" where
  "mutex_taken c pc \<longleftrightarrow> (if shared_pc pc then c < 0 else c \<noteq> 0)"

abbreviation mutex_queue :: "nat \<Rightarrow> mutex_sys \<Rightarrow> KThreadWaitNodeRef list" where
  "mutex_queue self S \<equiv> m_WaitQueue (ms_kernel S) (SyncObject self)"

definition mutex_inv :: "nat \<Rightarrow> mutex_sys \<Rightarrow> bool" where
  "mutex_inv self S \<longleftrightarrow>
     mutex_owners_ok (ms_mutex S) (ms_writers S) (ms_readers S) \<and>
     (\<forall>t. WaitNode t 0 \<in> set (mutex_queue self S) \<longrightarrow> mutex_taken (mx_Count (ms_mutex S)) (ms_pc S t)) \<and>
     (\<forall>t. ms_pc S t \<noteq> MutexOutside \<longrightarrow> t < 2 ^ 24)"

lemma owners_take:
  assumes "mutex_owners_ok mx W R" "mutex_free_for mx t"
  shows "mutex_owners_ok (mutex_take t mx) (add_mset t W) R"
    "mutex_taken (mx_Count mx) pc \<Longrightarrow> mutex_taken (mx_Count (mutex_take t mx)) pc"
  using assms by (auto simp: mutex_owners_ok_def mutex_free_for_def mutex_take_def mutex_taken_def split: if_splits)

lemma owners_share:
  assumes "mutex_owners_ok mx W R" "mx_Count mx \<ge> 0"
  shows "mutex_owners_ok (mx\<lparr>mx_Count := mx_Count mx + 1\<rparr>) W (add_mset t R)"
    "mutex_taken (mx_Count mx) pc \<Longrightarrow> mutex_taken (mx_Count mx + 1) pc"
  using assms by (auto simp: mutex_owners_ok_def mutex_taken_def split: if_splits)

lemma owners_unlock:
  assumes ok: "mutex_owners_ok mx W R" and t: "t \<in># W + R"
  defines "mx' \<equiv> (if mx_Count mx < 0 then mx\<lparr>mx_Count := mx_Count mx + 1\<rparr> else mx\<lparr>mx_Count := mx_Count mx - 1\<rparr>)"
  defines "mx'' \<equiv> (if mx_Count mx' = 0 then mx'\<lparr>mx_Holder := None\<rparr> else mx')"
  shows "mutex_owners_ok mx'' (if t \<in># W then W - {#t#} else W) (if t \<in># W then R else R - {#t#})" "mx_Count mx \<noteq> 0"
    "mx_Count mx'' \<noteq> 0 \<Longrightarrow> mutex_taken (mx_Count mx) pc \<Longrightarrow> mutex_taken (mx_Count mx'') pc"
proof -
  have "mutex_owners_ok mx'' (if t \<in># W then W - {#t#} else W) (if t \<in># W then R else R - {#t#}) \<and> mx_Count mx \<noteq> 0"
  proof (cases "mx_Count mx < 0")
    case True
    then obtain u where W: "R = {#}" "mx_Count mx = - int (size W)" "mx_Holder mx = Some u" "set_mset W = {u}"
      using ok by (auto simp: mutex_owners_ok_def)
    then obtain W' where W': "W = add_mset u W'" by (metis insert_DiffM insertI1)
    then have "t = u" using t W by auto
    moreover have "W' = {#} \<or> set_mset W' = {u}" using W(4) unfolding W' by auto
    ultimately show ?thesis using W by (auto simp: W' mx'_def mx''_def mutex_owners_ok_def)
  next
    case False
    then have R: "W = {#}" "mx_Count mx = int (size R)" "mx_Holder mx = None" "t \<in># R"
      using ok t by (auto simp: mutex_owners_ok_def)
    then obtain R' where "R = add_mset t R'" by (metis insert_DiffM)
    then show ?thesis using R False by (auto simp: mx'_def mx''_def mutex_owners_ok_def)
  qed
  then show "mutex_owners_ok mx'' (if t \<in># W then W - {#t#} else W) (if t \<in># W then R else R - {#t#})" "mx_Count mx \<noteq> 0"
    by blast+
  show "mutex_taken (mx_Count mx'') pc" if "mx_Count mx'' \<noteq> 0" "mutex_taken (mx_Count mx) pc"
    using that by (auto simp: mutex_taken_def mx'_def mx''_def split: if_splits)
qed

text \<open>The waiters fit into the count that \<open>wakeup_wait_queue\<close> is called with.\<close>

lemma mutex_wake_all:
  assumes r: "mutex_reachable self mode S" and inv: "mutex_inv self S"
  shows "m_WaitQueue (snd (wakeup_wait_queue (SyncObject self) 0 (ms_kernel S))) (SyncObject self) = []"
proof -
  let ?q = "mutex_queue self S"
  have "set ?q \<subseteq> (\<lambda>t. WaitNode t 0) ` {..<2 ^ 24}"
  proof
    fix n assume "n \<in> set ?q"
    from mutex.queue_suspended [OF r [unfolded mutex_reachable_def] this] obtain t where
      "n = WaitNode t 0" "mutex_phases S t = Suspended" by blast
    then have "ms_pc S t \<noteq> MutexOutside" by (auto simp: mutex_phases_def)
    then have "t \<in> {..<2 ^ 24}" using inv by (simp add: mutex_inv_def)
    then show "n \<in> (\<lambda>t. WaitNode t 0) ` {..<2 ^ 24}" unfolding \<open>n = WaitNode t 0\<close> by (rule imageI)
  qed
  then have "card (set ?q) \<le> card ((\<lambda>t. WaitNode t 0) ` {..<2 ^ 24 :: nat})" by (intro card_mono) auto
  also have "\<dots> \<le> 2 ^ 24" using card_image_le [of "{..<2 ^ 24 :: nat}"] by fastforce
  finally have "length ?q \<le> 2 ^ 24"
    using distinct_card [OF mutex.queue_distinct [OF r [unfolded mutex_reachable_def]]] by simp
  then show ?thesis
    using mutex.wake_queue [OF r [unfolded mutex_reachable_def], of 0] by (simp add: wakeup_count_def)
qed

lemma mutex_inv_upd:
  assumes inv: "mutex_inv self S" and pc: "ms_pc S' = (ms_pc S)(t := p)"
    and ok: "mutex_owners_ok (ms_mutex S') (ms_writers S') (ms_readers S')"
    and q: "\<And>n. n \<in> set (mutex_queue self S') \<Longrightarrow> n \<noteq> WaitNode t 0 \<Longrightarrow> n \<in> set (mutex_queue self S)"
    and tk: "\<And>pc'. mutex_taken (mx_Count (ms_mutex S)) pc' \<Longrightarrow> set (mutex_queue self S') \<noteq> {} \<Longrightarrow> mutex_taken (mx_Count (ms_mutex S')) pc'"
    and t: "WaitNode t 0 \<in> set (mutex_queue self S') \<Longrightarrow> mutex_taken (mx_Count (ms_mutex S')) p" "p \<noteq> MutexOutside \<Longrightarrow> t < 2 ^ 24"
  shows "mutex_inv self S'"
proof -
  have "mutex_taken (mx_Count (ms_mutex S')) (ms_pc S' u)" if m: "WaitNode u 0 \<in> set (mutex_queue self S')" for u
  proof (cases "u = t")
    case True
    then show ?thesis using t(1) m by (simp add: pc)
  next
    case False
    then have "WaitNode u 0 \<in> set (mutex_queue self S)" using q [OF m] by simp
    then have "mutex_taken (mx_Count (ms_mutex S)) (ms_pc S u)" using inv by (simp add: mutex_inv_def)
    moreover have "set (mutex_queue self S') \<noteq> {}" using m by force
    ultimately have "mutex_taken (mx_Count (ms_mutex S')) (ms_pc S u)" by (rule tk)
    then show ?thesis using False by (simp add: pc)
  qed
  then show ?thesis using inv ok t(2) by (auto simp: mutex_inv_def pc)
qed

lemma in_set_remove1D: "x \<in> set (remove1 y xs) \<Longrightarrow> x \<in> set xs"
  by (metis notin_set_remove1)

lemma mutex_sched_queue [simp]:
  "m_WaitQueue (KSWITCH_CONTEXT k) obj = m_WaitQueue k obj"
  by (simp add: KSWITCH_CONTEXT_def)

text \<open>What a section does to the queue and to the mutex.\<close>

lemma mutex_section_effect:
  assumes r: "mutex_reachable self mode S" and run: "thread_runs (ms_kernel S)"
    and t: "t = gk_CurrentThread (ms_kernel S)" "ms_pc S t = pc" "pc \<noteq> MutexOutside"
    and nd: "\<not> (\<not> shared_pc pc \<and> mutex_self_lock (ms_mutex S) t)"
    and sec: "mutex_section self pc (mutex_st S) = (p, r', k', mx')"
    and tk: "\<not> shared_pc pc \<Longrightarrow> mx_Count (ms_mutex S) = 0 \<Longrightarrow> mutex_free_for (ms_mutex S) t"
  defines "mx \<equiv> ms_mutex S"
  shows "(r' = Some Success \<longrightarrow>
      mx' = (if shared_pc pc then mx\<lparr>mx_Count := mx_Count mx + 1\<rparr> else mutex_take t mx) \<and>
      (if shared_pc pc then mx_Count mx \<ge> 0 else mutex_free_for mx t)) \<and>
    (r' \<noteq> Some Success \<longrightarrow> mx' = mx) \<and>
    (\<forall>n \<in> set (m_WaitQueue k' (SyncObject self)). n = WaitNode t 0 \<or> n \<in> set (mutex_queue self S)) \<and>
    (WaitNode t 0 \<in> set (m_WaitQueue k' (SyncObject self)) \<longrightarrow> r' = None \<and> mutex_taken (mx_Count mx) p)"
proof -
  note R = r [unfolded mutex_reachable_def]
  let ?k = "ms_kernel S"
  have ph: "mutex_phases S (gk_CurrentThread ?k) = mutex_phase pc" using t by (simp add: mutex_phases_def)
  have dist: "WaitNode t 0 \<notin> set (remove1 (WaitNode t 0) (mutex_queue self S))"
    using mutex.queue_distinct [OF R] by simp
  have tq: "mutex_phase pc = Trying b \<Longrightarrow> WaitNode t 0 \<notin> set (mutex_queue self S)" for b
    using mutex.trying_not_queued [OF R, of t b] ph t by simp
  have sq: "mutex_phase pc = Trying b \<Longrightarrow>
      m_WaitQueue (suspend_waiting (SyncObject self) 0 ?k) (SyncObject self) = mutex_queue self S @ [WaitNode t 0]"
    "mutex_phase pc = Trying True \<Longrightarrow>
      m_WaitQueue (suspend_clock (SyncObject self) 0 dl ?k) (SyncObject self) = mutex_queue self S @ [WaitNode t 0]" for b dl
    using mutex.suspend_queue [OF R run] ph t by auto
  have del: "mutex_phase pc = Suspended \<Longrightarrow> \<not> m_TargetDeleted (wait_nodes ?k (WaitNode t 0))"
    using mutex.node_not_deleted [OF R, of t] ph t by simp
  note qs = mutex.detach_queue [OF R] mutex.resume_queue [OF R]
  show ?thesis
  proof (cases pc)
    case (LockTop i)
    then have f: "m_WaitQueue (suspend_waiting (SyncObject self) 0 ?k) (SyncObject self) = mutex_queue self S @ [WaitNode t 0]"
      "WaitNode t 0 \<notin> set (mutex_queue self S)" using sq(1) [of False] tq [of False] by simp_all
    show ?thesis using LockTop sec nd f
      by (simp add: Lock_first_def Let_def kassert_def t(1) [symmetric] mx_def split: if_splits) (auto simp: mutex_taken_def mutex_free_for_def)
  next
    case (LockSuspended i)
    then show ?thesis using sec tk dist del
      by (simp add: Lock_second_def Let_def qs t(1) [symmetric] mx_def split: if_splits) (auto simp: qs dest: in_set_remove1D)
  next
    case (LockClockTop dl first i)
    then have f: "m_WaitQueue (suspend_clock (SyncObject self) 0 dl ?k) (SyncObject self) = mutex_queue self S @ [WaitNode t 0]"
      "WaitNode t 0 \<notin> set (mutex_queue self S)" using sq(2) tq [of True] by simp_all
    show ?thesis using LockClockTop sec nd f
      by (simp add: LockClock_first_def Let_def kassert_def t(1) [symmetric] mx_def split: if_splits) (auto simp: mutex_taken_def mutex_free_for_def)
  next
    case (LockClockSuspended dl i)
    then show ?thesis using sec dist del
      by (simp add: LockClock_second_def Let_def qs t(1) [symmetric] mx_def split: if_splits) (auto simp: qs dest: in_set_remove1D)
  next
    case (SharedTop i)
    then have f: "m_WaitQueue (suspend_waiting (SyncObject self) 0 ?k) (SyncObject self) = mutex_queue self S @ [WaitNode t 0]"
      "WaitNode t 0 \<notin> set (mutex_queue self S)" using sq(1) [of False] tq [of False] by simp_all
    show ?thesis using SharedTop sec f
      by (simp add: LockShared_first_def Let_def t(1) [symmetric] mx_def split: if_splits) (auto simp: mutex_taken_def)
  next
    case (SharedSuspended i)
    then show ?thesis using sec dist del
      by (simp add: LockShared_second_def Let_def qs t(1) [symmetric] mx_def split: if_splits) (auto simp: qs dest: in_set_remove1D)
  next
    case (SharedClockTop dl first i)
    then have f: "m_WaitQueue (suspend_clock (SyncObject self) 0 dl ?k) (SyncObject self) = mutex_queue self S @ [WaitNode t 0]"
      "WaitNode t 0 \<notin> set (mutex_queue self S)" using sq(2) tq [of True] by simp_all
    show ?thesis using SharedClockTop sec f
      by (simp add: LockSharedClock_first_def Let_def t(1) [symmetric] mx_def split: if_splits) (auto simp: mutex_taken_def)
  next
    case (SharedClockSuspended dl i)
    then show ?thesis using sec dist del
      by (simp add: LockSharedClock_second_def Let_def case_prod_beta qs t(1) [symmetric] mx_def split: if_splits)
         (auto simp: qs dest!: in_set_dropD dest: in_set_remove1D)
  qed (use t in simp)
qed

lemma mutex_not_queued:
  assumes "mutex_reachable self mode S" "ms_pc S t = MutexOutside"
  shows "WaitNode t 0 \<notin> set (mutex_queue self S)"
  using mutex.queue_suspended [OF assms(1) [unfolded mutex_reachable_def], of "WaitNode t 0"] assms(2)
  by (auto simp: mutex_phases_def)

text \<open>A step that takes the mutex, or leaves it alone.\<close>

lemma mutex_inv_enter:
  assumes inv: "mutex_inv self S"
    and mx: "success \<Longrightarrow> mx' = (if shared then ms_mutex S\<lparr>mx_Count := mx_Count (ms_mutex S) + 1\<rparr> else mutex_take t (ms_mutex S)) \<and>
        (if shared then mx_Count (ms_mutex S) \<ge> 0 else mutex_free_for (ms_mutex S) t)"
      "\<not> success \<Longrightarrow> mx' = ms_mutex S"
    and q: "\<And>n. n \<in> set (m_WaitQueue k' (SyncObject self)) \<Longrightarrow> n \<noteq> WaitNode t 0 \<Longrightarrow> n \<in> set (mutex_queue self S)"
      "WaitNode t 0 \<in> set (m_WaitQueue k' (SyncObject self)) \<Longrightarrow> \<not> success \<and> mutex_taken (mx_Count (ms_mutex S)) p"
    and t: "p \<noteq> MutexOutside \<Longrightarrow> t < 2 ^ 24"
  shows "mutex_inv self (mutex_enter (S\<lparr>ms_kernel := k', ms_mutex := mx', ms_pc := (ms_pc S)(t := p)\<rparr>) t shared success)"
proof -
  have ok: "mutex_owners_ok (ms_mutex S) (ms_writers S) (ms_readers S)" using inv by (simp add: mutex_inv_def)
  show ?thesis
  proof (cases success)
    case False
    then show ?thesis using mx(2) ok q t
      by (intro mutex_inv_upd [OF inv, of _ t p]) (auto simp: mutex_enter_def)
  next
    case True
    then show ?thesis
      using mx(1) owners_take [OF ok] owners_share [OF ok] q t
      by (intro mutex_inv_upd [OF inv, of _ t p]) (auto simp: mutex_enter_def split: if_splits)
  qed
qed

lemma mutex_inv_step:
  assumes inv: "mutex_inv self S" and r: "mutex_reachable self mode S" and st: "mutex_step self S S'"
  shows "mutex_inv self S'"
  using st
proof cases
  case (env k')
  then show ?thesis
    using inv mutex.env_queue [OF r [unfolded mutex_reachable_def] env(2)] by (auto simp: mutex_inv_def)
next
  case (elsewhere t k')
  then have "m_WaitQueue k' (SyncObject self) = mutex_queue self S"
    by (intro mutex.elsewhere_queue [OF r [unfolded mutex_reachable_def]]) (auto simp: mutex_phases_def mutex_caller_def)
  then show ?thesis using inv elsewhere(1) by (auto simp: mutex_inv_def)
next
  case (call t p i)
  then show ?thesis using mutex_not_queued [OF r, of t] inv
    by (intro mutex_inv_upd [OF inv, of _ t p]) (auto simp: mutex_caller_def mutex_inv_def)
next
  case (call_timed t p deadline i clk dl)
  then show ?thesis using mutex_not_queued [OF r, of t] inv
    by (intro mutex_inv_upd [OF inv, of _ t p]) (auto simp: mutex_caller_def mutex_inv_def)
next
  case (run t p r' k' mx')
  note e = mutex_section_effect [OF r run(3,2) refl run(4) run(5,6)]
  have "t < 2 ^ 24" using inv run(4) by (simp add: mutex_inv_def)
  with e show ?thesis unfolding run(1)
    by (intro mutex_inv_enter [OF inv]) (auto simp: mutex_free_for_def split: if_splits)
next
  case (try_lock t r' k' mx')
  have "mutex_inv self (mutex_enter (S\<lparr>ms_kernel := k', ms_mutex := mx', ms_pc := (ms_pc S)(t := ms_pc S t)\<rparr>) t False (r' = Success))"
    using try_lock mutex_not_queued [OF r, of t]
    by (intro mutex_inv_enter [OF inv]) (auto simp: TryLock_def Let_def mutex_caller_def split: if_splits)
  then show ?thesis using try_lock(1) by simp
next
  case (try_shared t r' k' mx')
  have "mutex_inv self (mutex_enter (S\<lparr>ms_kernel := k', ms_mutex := mx', ms_pc := (ms_pc S)(t := ms_pc S t)\<rparr>) t True (r' = Success))"
    using try_shared mutex_not_queued [OF r, of t]
    by (intro mutex_inv_enter [OF inv]) (auto simp: TryLockShared_def Let_def mutex_caller_def split: if_splits)
  then show ?thesis using try_shared(1) by simp
next
  case (unlock t r' k' mx')
  have ok: "mutex_owners_ok (ms_mutex S) (ms_writers S) (ms_readers S)" using inv by (simp add: mutex_inv_def)
  note u = owners_unlock [OF ok unlock(3)]
  have q: "m_WaitQueue k' (SyncObject self) = (if mx_Count mx' = 0 then [] else mutex_queue self S)"
    and mx: "mx' = (let mx = (if mx_Count (ms_mutex S) < 0 then (ms_mutex S)\<lparr>mx_Count := mx_Count (ms_mutex S) + 1\<rparr>
        else (ms_mutex S)\<lparr>mx_Count := mx_Count (ms_mutex S) - 1\<rparr>) in if mx_Count mx = 0 then mx\<lparr>mx_Holder := None\<rparr> else mx)"
    using unlock(4) u(2) mutex_wake_all [OF r inv] by (auto simp: Unlock_def Let_def case_prod_beta split: if_splits)
  have ok': "mutex_owners_ok mx' (if t \<in># ms_writers S then ms_writers S - {#t#} else ms_writers S)
      (if t \<in># ms_writers S then ms_readers S else ms_readers S - {#t#})"
    using u(1) by (simp add: mx Let_def)
  have tk: "mutex_taken (mx_Count mx') pc" if "mx_Count mx' \<noteq> 0" "mutex_taken (mx_Count (ms_mutex S)) pc" for pc
    using u(3) [of pc] that by (simp add: mx Let_def)
  have S': "ms_mutex S' = mx'" "mutex_queue self S' = (if mx_Count mx' = 0 then [] else mutex_queue self S)"
    "ms_pc S' = (ms_pc S)(t := ms_pc S t)"
    "ms_writers S' = (if t \<in># ms_writers S then ms_writers S - {#t#} else ms_writers S)"
    "ms_readers S' = (if t \<in># ms_writers S then ms_readers S else ms_readers S - {#t#})"
    using unlock(1) q by (auto simp: mutex_leave_def)
  show ?thesis
  proof (rule mutex_inv_upd [OF inv S'(3)])
    show "mutex_owners_ok (ms_mutex S') (ms_writers S') (ms_readers S')" unfolding S' by (rule ok')
    show "mutex_taken (mx_Count (ms_mutex S')) pc'"
      if "mutex_taken (mx_Count (ms_mutex S)) pc'" "set (mutex_queue self S') \<noteq> {}" for pc'
      using that tk by (auto simp: S' split: if_splits)
    show "mutex_taken (mx_Count (ms_mutex S')) (ms_pc S t)" if "WaitNode t 0 \<in> set (mutex_queue self S')"
      using that tk inv by (auto simp: S' mutex_inv_def split: if_splits)
  qed (use inv in \<open>auto simp: S' mutex_inv_def split: if_splits\<close>)
qed

lemma mutex_reachable_inv: "mutex_reachable self mode S \<Longrightarrow> mutex_inv self S"
  unfolding mutex_reachable_def
proof (erule reaches_invariant)
  show "mutex_inv self S" if "mutex_start self mode S" for S
    using mutex_start_facts [OF that] by (simp add: mutex_inv_def mutex_owners_ok_def)
qed (use mutex_inv_step in \<open>auto simp: mutex_reachable_def\<close>)

text \<open>
  C13. Mutual exclusion: in every state that threads which unlock only what they have locked can bring about
  together with the rest of the kernel, at most one thread holds the mutex exclusively, nobody holds it
  shared at the same time, the holder recorded by the mutex is that thread and the count says how often it
  is locked.
\<close>
theorem mutex_exclusion:
  assumes "mutex_reachable self mode S" "t \<in># ms_writers S"
  shows "ms_readers S = {#} \<and> set_mset (ms_writers S) = {t} \<and> mx_Holder (ms_mutex S) = Some t \<and>
    mx_Count (ms_mutex S) = - int (size (ms_writers S)) \<and> \<not> m_Panicked (ms_kernel S)"
  using mutex_reachable_inv [OF assms(1)] assms(2) mutex.no_panic [OF assms(1) [unfolded mutex_reachable_def]]
  by (auto simp: mutex_inv_def mutex_owners_ok_def split: if_splits)

text \<open>
  C14. Nobody sleeps on a mutex it could take: while a thread is blocked in one of the calls of a mutex,
  the mutex is held, and exclusively so if the thread wants to share it.
\<close>
theorem mutex_no_lost_wakeup:
  assumes "mutex_reachable self mode S" "ms_pc S t \<noteq> MutexOutside" "blocked (thread_state (ms_kernel S) t)"
  shows "(if shared_pc (ms_pc S t) then ms_writers S \<noteq> {#} else ms_writers S + ms_readers S \<noteq> {#}) \<and>
    (if shared_pc (ms_pc S t) then mx_Count (ms_mutex S) < 0 else mx_Count (ms_mutex S) \<noteq> 0)"
proof -
  have "mutex_phases S t \<noteq> Outside" using assms(2) by (cases "ms_pc S t") (simp_all add: mutex_phases_def)
  then have "WaitNode t 0 \<in> set (mutex_queue self S)"
    using mutex.waiter_not_lost [OF assms(1) [unfolded mutex_reachable_def]] assms(3) by blast
  then show ?thesis
    using mutex_reachable_inv [OF assms(1)] by (auto simp: mutex_inv_def mutex_owners_ok_def mutex_taken_def split: if_splits)
qed

text \<open>A thread locks the mutex exclusively and then waits to share it.\<close>

definition mutex_example1 :: mutex_sys where
  "mutex_example1 =
     \<lparr>ms_kernel = booted_kernel, ms_mutex = mutex_take 1 (KMutex_new PEMutexRecursionMode_RaiseError CLOCK_MONOTONIC),
      ms_pc = (\<lambda>_. MutexOutside), ms_writers = {#1#}, ms_readers = {#}\<rparr>"

definition mutex_example2 :: mutex_sys where
  "mutex_example2 = mutex_example1\<lparr>ms_kernel := fst (snd (LockShared_first 7 (mutex_st mutex_example1))),
     ms_pc := (\<lambda>_. MutexOutside)(1 := SharedSuspended False)\<rparr>"

lemma mutex_example_reachable:
  "mutex_reachable 7 PEMutexRecursionMode_RaiseError mutex_example1"
  "mutex_reachable 7 PEMutexRecursionMode_RaiseError mutex_example2"
  "blocked (thread_state (ms_kernel mutex_example2) 1)" "ms_pc mutex_example2 1 = SharedSuspended False"
  "mx_Count (ms_mutex mutex_example2) = -1"
proof -
  note b = booted_kernel_facts
  let ?S0 = "\<lparr>ms_kernel = booted_kernel, ms_mutex = KMutex_new PEMutexRecursionMode_RaiseError CLOCK_MONOTONIC,
      ms_pc = (\<lambda>_. MutexOutside), ms_writers = {#}, ms_readers = {#}\<rparr>"
  have r0: "mutex_reachable 7 PEMutexRecursionMode_RaiseError ?S0"
    unfolding mutex_reachable_def by (rule reaches.init) (use b in \<open>auto simp: mutex_start_def\<close>)
  have "mutex_step 7 ?S0 (mutex_enter (?S0\<lparr>ms_kernel := booted_kernel,
      ms_mutex := mutex_take 1 (KMutex_new PEMutexRecursionMode_RaiseError CLOCK_MONOTONIC)\<rparr>) 1 False (Success = Success))"
    by (rule mutex_step.try_lock) (use b in \<open>simp_all add: mutex_caller_def TryLock_def mutex_free_for_def KMutex_new_def\<close>)
  then show r1: "mutex_reachable 7 PEMutexRecursionMode_RaiseError mutex_example1"
    using reaches.step r0 by (fastforce simp: mutex_reachable_def mutex_enter_def mutex_example1_def)
  let ?S1 = "mutex_example1\<lparr>ms_pc := (ms_pc mutex_example1)(1 := SharedTop False)\<rparr>"
  have "mutex_step 7 mutex_example1 ?S1"
    by (rule mutex_step.call [where i = False]) (use b in \<open>simp_all add: mutex_caller_def mutex_example1_def\<close>)
  then have r2: "mutex_reachable 7 PEMutexRecursionMode_RaiseError ?S1"
    using r1 unfolding mutex_reachable_def by (blast intro: reaches.step)
  let ?k2 = "fst (snd (LockShared_first 7 (mutex_st mutex_example1)))"
  have "mutex_section 7 (ms_pc ?S1 1) (mutex_st ?S1) = (SharedSuspended False, None, ?k2, ms_mutex mutex_example1)"
    by (simp add: mutex_example1_def LockShared_first_def Let_def KMutex_new_def mutex_take_def)
  from mutex_step.run [OF _ _ _ _ this] b have
    "mutex_step 7 ?S1 (mutex_enter (?S1\<lparr>ms_kernel := ?k2, ms_mutex := ms_mutex mutex_example1,
       ms_pc := (ms_pc ?S1)(1 := SharedSuspended False)\<rparr>) 1 True False)"
    by (simp add: mutex_example1_def)
  moreover have "mutex_enter (?S1\<lparr>ms_kernel := ?k2, ms_mutex := ms_mutex mutex_example1,
       ms_pc := (ms_pc ?S1)(1 := SharedSuspended False)\<rparr>) 1 True False = mutex_example2"
    by (simp add: mutex_enter_def mutex_example2_def) (simp add: mutex_example1_def)
  ultimately show "mutex_reachable 7 PEMutexRecursionMode_RaiseError mutex_example2"
    using r2 unfolding mutex_reachable_def by (metis reaches.step)
  show "blocked (thread_state (ms_kernel mutex_example2) 1)" "ms_pc mutex_example2 1 = SharedSuspended False"
    "mx_Count (ms_mutex mutex_example2) = -1"
    using b by (auto simp: mutex_example2_def mutex_example1_def LockShared_first_def Let_def KMutex_new_def mutex_take_def
      KSWITCH_CONTEXT_def suspend_waiting_def SetState_simps blocked_def wait_list_Append_def kassert_def upd_node_def)
qed

theorem mutex_exclusion_witness:
  "ms_readers mutex_example2 = {#} \<and> set_mset (ms_writers mutex_example2) = {1} \<and> mx_Holder (ms_mutex mutex_example2) = Some 1"
  using mutex_exclusion [OF mutex_example_reachable(2), of 1] by (simp add: mutex_example2_def mutex_example1_def)

theorem mutex_no_lost_wakeup_witness:
  "blocked (thread_state (ms_kernel mutex_example2) 1) \<and> mx_Count (ms_mutex mutex_example2) < 0"
  using mutex_no_lost_wakeup [OF mutex_example_reachable(2) _ mutex_example_reachable(3)] mutex_example_reachable(3,4) by simp

end
