(* ===== verification/KConditionVariable.thy ===== *)
theory KConditionVariable
  imports KMutex
begin

text \<open>
  \<open>KConditionVariable\<close> (\<open>Kernel/KConditionVariable.cpp\<close>, \<open>Include/Kernel/KConditionVariable.h\<close>). The waits are
  split at the context switch: \<open>..._first\<close> queues the thread and releases the lock, \<open>..._second\<close> runs
  after the switch, when \<open>KMutex::Lock\<close> has returned if there is a lock. \<open>cv_step\<close> interleaves the waits without a lock,
  those of interrupt handlers' clients among them, with the rest of the kernel; the waits with a lock are shown
  to release it and to be on the queue in one step.
\<close>

section \<open>Operations\<close>

record KConditionVariable =
  cv_ClockID :: clockid_t

text \<open>The user data of a thread is its \<open>IsCanceled\<close> flag, if it has any.\<close>

definition kis_thread_canceled :: "bool option \<Rightarrow> bool" where
  "kis_thread_canceled userData = (case userData of None \<Rightarrow> False | Some isCanceled \<Rightarrow> isCanceled)"

text \<open>A \<open>KMutex *\<close>, with the identity of the mutex; \<open>None\<close> is the null pointer.\<close>

type_synonym mutex_arg = "(nat \<times> KMutex) option"

definition unlock_arg :: "mutex_arg \<Rightarrow> kernel \<Rightarrow> kernel \<times> mutex_arg" where
  "unlock_arg lock k =
     (case lock of None \<Rightarrow> (k, None)
      | Some (m, mx) \<Rightarrow> let (r, k, mx) = Unlock m (k, mx) in (k, Some (m, mx)))"

definition WaitInternal_first ::
  "nat \<Rightarrow> bool \<Rightarrow> bool option \<Rightarrow> kernel \<times> mutex_arg \<Rightarrow> PErrorCode option \<times> kernel \<times> mutex_arg" where
  "WaitInternal_first self cancelable userData s =
     (let (k, lock) = s; thread = gk_CurrentThread k in
      if cancelable \<and> kis_thread_canceled userData then (Some INTR, k, lock)
      else let k = suspend_waiting (SyncObject self) 0 k;
               (k, lock) = unlock_arg lock k;
               k = SetBlockingObject thread (Some (SyncObject self)) k
           in (None, KSWITCH_CONTEXT k, lock))"

text \<open>The result of a round: the node was still on the queue when the thread woke up, or somebody has removed it.\<close>

definition wait_result :: "KThreadWaitNodeRef \<Rightarrow> kernel \<Rightarrow> PErrorCode option \<times> kernel" where
  "wait_result waitNode k =
     (if m_TargetDeleted (wait_nodes k waitNode) then (Some INVAL, k)
      else let (wasListed, k) = Detatch waitNode k in (if wasListed then None else Some Success, k))"

text \<open>What the thread does when it runs again, before and after it locks the mutex.\<close>

definition WaitInternal_resume :: "kernel \<Rightarrow> kernel" where
  "WaitInternal_resume k = SetBlockingObject (gk_CurrentThread k) None k"

definition WaitInternal_second :: "kernel \<Rightarrow> PErrorCode option \<times> kernel" where
  "WaitInternal_second k = wait_result (WaitNode (gk_CurrentThread k) 0) k"

definition WaitDeadlineInternal_start :: "clockid_t \<Rightarrow> TimeValNanos \<Rightarrow> kernel \<Rightarrow> TimeValNanos result" where
  "WaitDeadlineInternal_start clockID clockDeadline k = kconvert_clock_to_monotonic (kclock k) clockID clockDeadline"

definition WaitDeadlineInternal_first ::
  "nat \<Rightarrow> bool \<Rightarrow> bool option \<Rightarrow> TimeValNanos \<Rightarrow> kernel \<times> mutex_arg \<Rightarrow> PErrorCode option \<times> kernel \<times> mutex_arg" where
  "WaitDeadlineInternal_first self cancelable userData deadline s =
     (let (k, lock) = s; thread = gk_CurrentThread k in
      if cancelable \<and> kis_thread_canceled userData then (Some INTR, k, lock)
      else if nanos_IsInfinit deadline \<or> kget_monotonic_time (kclock k) < deadline
      then let k = suspend_clock (SyncObject self) 0 deadline k;
               k = SetBlockingObject thread (Some (SyncObject self)) k;
               (k, lock) = unlock_arg lock k
           in (None, KSWITCH_CONTEXT k, lock)
      else (Some TIMEDOUT, k, lock))"

definition WaitDeadlineInternal_second :: "kernel \<Rightarrow> PErrorCode option \<times> kernel" where
  "WaitDeadlineInternal_second k =
     (let thread = gk_CurrentThread k;
          k = SetBlockingObject thread None k;
          k = snd (Detatch (SleepNode thread 0) k)
      in wait_result (WaitNode thread 0) k)"

definition WaitTimeoutInternal_start :: "TimeValNanos \<Rightarrow> kernel \<Rightarrow> TimeValNanos result" where
  "WaitTimeoutInternal_start timeout k =
     WaitDeadlineInternal_start CLOCK_MONOTONIC_COARSE (timeout_deadline (kclock k) timeout) k"

text \<open>The waits of callers that have disabled interrupts; \<open>irqEnabled\<close> is the state they find.\<close>

definition IRQWait_first :: "nat \<Rightarrow> bool \<Rightarrow> kernel \<Rightarrow> PErrorCode option \<times> kernel" where
  "IRQWait_first self irqEnabled k =
     (if irqEnabled then (Some INVAL, k)
      else let thread = gk_CurrentThread k;
               k = suspend_waiting (SyncObject self) 0 k;
               k = SetBlockingObject thread (Some (SyncObject self)) k
           in (None, KSWITCH_CONTEXT k))"

definition IRQWait_second :: "kernel \<Rightarrow> PErrorCode option \<times> kernel" where
  "IRQWait_second k =
     (let thread = gk_CurrentThread k in wait_result (WaitNode thread 0) (SetBlockingObject thread None k))"

definition IRQWaitClock_start :: "bool \<Rightarrow> clockid_t \<Rightarrow> TimeValNanos \<Rightarrow> kernel \<Rightarrow> TimeValNanos result" where
  "IRQWaitClock_start irqEnabled clockID clockDeadline k =
     (if irqEnabled then Inl INVAL else kconvert_clock_to_monotonic (kclock k) clockID clockDeadline)"

definition IRQWaitDeadline_start :: "KConditionVariable \<Rightarrow> bool \<Rightarrow> TimeValNanos \<Rightarrow> kernel \<Rightarrow> TimeValNanos result" where
  "IRQWaitDeadline_start cv irqEnabled deadline k = IRQWaitClock_start irqEnabled (cv_ClockID cv) deadline k"

definition IRQWaitTimeout_start :: "bool \<Rightarrow> TimeValNanos \<Rightarrow> kernel \<Rightarrow> TimeValNanos result" where
  "IRQWaitTimeout_start irqEnabled timeout k =
     IRQWaitClock_start irqEnabled CLOCK_MONOTONIC_COARSE (timeout_deadline (kclock k) timeout) k"

definition IRQWaitClock_first :: "nat \<Rightarrow> TimeValNanos \<Rightarrow> kernel \<Rightarrow> PErrorCode option \<times> kernel" where
  "IRQWaitClock_first self deadline k =
     (if nanos_IsInfinit deadline \<or> kget_monotonic_time (kclock k) < deadline
      then let thread = gk_CurrentThread k;
               k = suspend_clock (SyncObject self) 0 deadline k;
               k = SetBlockingObject thread (Some (SyncObject self)) k
           in (None, KSWITCH_CONTEXT k)
      else (Some TIMEDOUT, k))"

definition IRQWaitClock_second :: "kernel \<Rightarrow> PErrorCode option \<times> kernel" where
  "IRQWaitClock_second k =
     (let thread = gk_CurrentThread k;
          k = SetBlockingObject thread None k;
          k = snd (Detatch (SleepNode thread 0) k)
      in wait_result (WaitNode thread 0) k)"

definition Wakeup :: "nat \<Rightarrow> int \<Rightarrow> kernel \<Rightarrow> PErrorCode \<times> kernel" where
  "Wakeup self threadCount k =
     (let (needSchedule, k) = wakeup_wait_queue (SyncObject self) threadCount k
      in (Success, if needSchedule then KSWITCH_CONTEXT k else k))"

section \<open>Threads using a condition variable\<close>

datatype cv_pc =
    CvOutside
  | CvTop | CvSuspended
  | CvClockTop TimeValNanos | CvClockSuspended TimeValNanos
  | IRQTop | IRQSuspended
  | IRQClockTop TimeValNanos | IRQClockSuspended TimeValNanos

text \<open>The section that a thread runs next and where it continues; \<open>userData\<close> is what it finds there. The waits have no lock.\<close>

definition no_lock :: "PErrorCode option \<times> kernel \<times> mutex_arg \<Rightarrow> PErrorCode option \<times> kernel" where
  "no_lock r = (fst r, fst (snd r))"

fun cv_section :: "nat \<Rightarrow> bool \<Rightarrow> bool option \<Rightarrow> cv_pc \<Rightarrow> kernel \<Rightarrow> cv_pc \<times> PErrorCode option \<times> kernel" where
  "cv_section self c u CvTop k = (CvSuspended, no_lock (WaitInternal_first self c u (k, None)))"
| "cv_section self c u CvSuspended k = (CvTop, WaitInternal_second (WaitInternal_resume k))"
| "cv_section self c u (CvClockTop dl) k = (CvClockSuspended dl, no_lock (WaitDeadlineInternal_first self c u dl (k, None)))"
| "cv_section self c u (CvClockSuspended dl) k = (CvClockTop dl, WaitDeadlineInternal_second k)"
| "cv_section self c u IRQTop k = (IRQSuspended, IRQWait_first self False k)"
| "cv_section self c u IRQSuspended k = (IRQTop, IRQWait_second k)"
| "cv_section self c u (IRQClockTop dl) k = (IRQClockSuspended dl, IRQWaitClock_first self dl k)"
| "cv_section self c u (IRQClockSuspended dl) k = (IRQClockTop dl, IRQWaitClock_second k)"
| "cv_section self c u CvOutside k = (CvOutside, None, k)"

fun cv_phase :: "cv_pc \<Rightarrow> call_phase" where
  "cv_phase CvOutside = Outside"
| "cv_phase CvTop = Trying False"
| "cv_phase CvSuspended = Suspended"
| "cv_phase (CvClockTop dl) = Trying True"
| "cv_phase (CvClockSuspended dl) = Suspended"
| "cv_phase IRQTop = Trying False"
| "cv_phase IRQSuspended = Suspended"
| "cv_phase (IRQClockTop dl) = Trying True"
| "cv_phase (IRQClockSuspended dl) = Suspended"

record cv_sys =
  cs_kernel :: kernel
  cs_pc :: "thread_id \<Rightarrow> cv_pc"

inductive cv_step :: "nat \<Rightarrow> cv_sys \<Rightarrow> cv_sys \<Rightarrow> bool" for self where
  env: "kernel_env (SyncObject self) (cs_kernel S) k' \<Longrightarrow> cv_step self S (S\<lparr>cs_kernel := k'\<rparr>)"
| elsewhere: "t = gk_CurrentThread (cs_kernel S) \<Longrightarrow> thread_runs (cs_kernel S) \<Longrightarrow> t \<noteq> gk_IdleThread (cs_kernel S) \<Longrightarrow>
    cs_pc S t = CvOutside \<Longrightarrow> kernel_self (SyncObject self) (cs_kernel S) k' \<Longrightarrow> cv_step self S (S\<lparr>cs_kernel := k'\<rparr>)"
| call: "t = gk_CurrentThread (cs_kernel S) \<Longrightarrow> thread_runs (cs_kernel S) \<Longrightarrow> t \<noteq> gk_IdleThread (cs_kernel S) \<Longrightarrow>
    cs_pc S t = CvOutside \<Longrightarrow> node_free (WaitNode t 0) (cs_kernel S) \<Longrightarrow> node_free (SleepNode t 0) (cs_kernel S) \<Longrightarrow>
    p \<in> {CvTop, CvClockTop deadline, IRQTop, IRQClockTop deadline} \<Longrightarrow>
    WaitDeadlineInternal_start clk dl (cs_kernel S) = Inr deadline \<Longrightarrow>
    cv_step self S (S\<lparr>cs_pc := (cs_pc S)(t := p)\<rparr>)"
| run: "t = gk_CurrentThread (cs_kernel S) \<Longrightarrow> thread_runs (cs_kernel S) \<Longrightarrow> cs_pc S t \<noteq> CvOutside \<Longrightarrow>
    cv_section self c u (cs_pc S t) (cs_kernel S) = (p, r, k') \<Longrightarrow>
    cv_step self S (S\<lparr>cs_kernel := k', cs_pc := (cs_pc S)(t := if r = None then p else CvOutside)\<rparr>)"
| wakeup: "Wakeup self n (cs_kernel S) = (r, k') \<Longrightarrow> cv_step self S (S\<lparr>cs_kernel := k'\<rparr>)"

definition cv_start :: "nat \<Rightarrow> cv_sys \<Rightarrow> bool" where
  "cv_start self S \<longleftrightarrow>
     (\<exists>k. kernel_reachable k \<and> m_WaitQueue k (SyncObject self) = [] \<and> S = \<lparr>cs_kernel = k, cs_pc = (\<lambda>_. CvOutside)\<rparr>)"

definition cv_reachable :: "nat \<Rightarrow> cv_sys \<Rightarrow> bool" where
  "cv_reachable self = reaches (cv_start self) (cv_step self)"

definition cv_phases :: "cv_sys \<Rightarrow> call_phases" where
  "cv_phases S t = cv_phase (cs_pc S t)"

lemma cv_phases_upd [simp]:
  "cv_phases (S\<lparr>cs_pc := (cs_pc S)(t := p)\<rparr>) = (cv_phases S)(t := cv_phase p)"
  "cv_phases (S\<lparr>cs_kernel := k, cs_pc := (cs_pc S)(t := p)\<rparr>) = (cv_phases S)(t := cv_phase p)"
  "cv_phases (S\<lparr>cs_kernel := k\<rparr>) = cv_phases S"
  by (auto simp: cv_phases_def)

lemma wait_result_simps:
  "snd (wait_result n k) = (if m_TargetDeleted (wait_nodes k n) then k else snd (Detatch n k))"
  "fst (wait_result n k) = (if m_TargetDeleted (wait_nodes k n) then Some INVAL
     else if m_List (wait_nodes k n) \<noteq> None then None else Some Success)"
  by (auto simp: wait_result_def Detatch_def split: option.splits)

text \<open>The object is not deleted under the threads of the system, and so the sections after a switch always detach their node.\<close>

lemma cv_section_actions:
  assumes "t = gk_CurrentThread k" "thread_runs k" "ph t = cv_phase pc" "pc \<noteq> CvOutside"
    and nd: "ph t = Suspended \<Longrightarrow> \<not> m_TargetDeleted (wait_nodes k (WaitNode t 0))"
    and sec: "cv_section self c u pc k = (p, r, k')"
  shows "call_actions (SyncObject self) (k, ph) (k', ph(t := if r = None then cv_phase p else Outside))"
proof (cases pc)
  case CvTop
  then show ?thesis using assms
    by (auto simp: WaitInternal_first_def no_lock_def unlock_arg_def Let_def intro!: call_suspend call_return [where timed = False] split: if_splits)
next
  case CvSuspended
  then show ?thesis using assms
    by (auto simp: WaitInternal_second_def WaitInternal_resume_def wait_result_def Let_def case_prod_beta intro!: call_leave [OF call_resume(1)] split: if_splits)
next
  case (CvClockTop dl)
  then show ?thesis using assms
    by (auto simp: WaitDeadlineInternal_first_def no_lock_def unlock_arg_def Let_def
      intro!: call_suspend_clock(2) call_return [where timed = True] split: if_splits)
next
  case (CvClockSuspended dl)
  then show ?thesis using assms
    by (auto simp: WaitDeadlineInternal_second_def wait_result_def Let_def case_prod_beta
      intro!: call_leave [OF call_resume_sleep_first] split: if_splits)
next
  case IRQTop
  then show ?thesis using assms by (auto simp: IRQWait_first_def Let_def intro!: call_suspend)
next
  case IRQSuspended
  then show ?thesis using assms
    by (auto simp: IRQWait_second_def wait_result_def Let_def case_prod_beta intro!: call_leave [OF call_resume(1)] split: if_splits)
next
  case (IRQClockTop dl)
  then show ?thesis using assms
    by (auto simp: IRQWaitClock_first_def Let_def intro!: call_suspend_clock(2) call_return [where timed = True] split: if_splits)
next
  case (IRQClockSuspended dl)
  then show ?thesis using assms
    by (auto simp: IRQWaitClock_second_def wait_result_def Let_def case_prod_beta
      intro!: call_leave [OF call_resume_sleep_first] split: if_splits)
qed (use assms in simp)

lemma Wakeup_kernel: "snd (Wakeup self n k) = snd (wakeup_wait_queue (SyncObject self) n k) \<or>
    snd (Wakeup self n k) = KSWITCH_CONTEXT (snd (wakeup_wait_queue (SyncObject self) n k))"
  by (auto simp: Wakeup_def case_prod_beta)

lemma cv_steps_actions:
  assumes st: "cv_step self S S'"
    and inv: "waitq_inv (SyncObject self) (phase_B (cv_phases S)) (phase_F (cv_phases S)) (cs_kernel S)"
  shows "call_actions (SyncObject self) (cs_kernel S, cv_phases S) (cs_kernel S', cv_phases S')"
  using st
proof cases
  case (env k')
  then show ?thesis by (simp add: call_env)
next
  case (elsewhere t k')
  then show ?thesis by (auto simp: cv_phases_def intro!: call_elsewhere)
next
  case (call t p deadline clk dl)
  then show ?thesis by (auto simp: cv_phases_def intro!: call_enter)
next
  case (run t c u p r k')
  have "\<not> m_TargetDeleted (wait_nodes (cs_kernel S) (WaitNode t 0))" if "cv_phases S t = Suspended"
    by (rule waitq_invD(3) [OF inv]) (use that in simp)
  from cv_section_actions [OF run(2,3) _ run(4) this run(5), of "cv_phases S"] show ?thesis
    by (cases r) (simp_all add: run(1) cv_phases_def [of S t])
next
  case (wakeup n r k')
  then show ?thesis using Wakeup_kernel [of self n "cs_kernel S"] by (auto simp: call_wake call_wake_pend)
qed

lemma cv_start_facts:
  assumes "cv_start self S"
  shows "kernel_reachable (cs_kernel S) \<and> m_WaitQueue (cs_kernel S) (SyncObject self) = [] \<and> (\<forall>t. cv_phases S t = Outside)"
  using assms by (auto simp: cv_start_def cv_phases_def)

interpretation cv: wait_object "SyncObject self" cs_kernel cv_phases "cv_start self" "cv_step self"
  for self
  by unfold_locales (use cv_start_facts cv_steps_actions in blast)+

section \<open>Wakeups reach the waiters\<close>

text \<open>
  C15. Wakeups of a condition variable reach the threads that wait, in their order: in every state the interleaved
  waits can reach, \<open>Wakeup\<close> takes the first \<open>threadCount\<close> nodes off the queue (all, for 0), leaves
  their threads ready to run, and their wait returns \<open>Success\<close> when they do run; a thread that is still blocked in a wait
  is still on the queue.
\<close>
theorem cv_wakeup_reaches:
  fixes self :: nat and n :: int and S :: cv_sys
  assumes "cv_reachable self S" "length (m_WaitQueue (cs_kernel S) (SyncObject self)) < 2 ^ 31"
  defines "k' \<equiv> snd (Wakeup self n (cs_kernel S))" and "q \<equiv> m_WaitQueue (cs_kernel S) (SyncObject self)"
    and "c \<equiv> (if n \<le> 0 then length (m_WaitQueue (cs_kernel S) (SyncObject self)) else nat n)"
  shows "m_WaitQueue k' (SyncObject self) = drop c q \<and>
    (\<forall>t. WaitNode t 0 \<in> set (take c q) \<longrightarrow>
       cv_phases S t = Suspended \<and> \<not> blocked (thread_state k' t) \<and> fst (wait_result (WaitNode t 0) k') = Some Success) \<and>
    (\<forall>t. cs_pc S t \<noteq> CvOutside \<longrightarrow> blocked (thread_state k' t) \<longrightarrow> WaitNode t 0 \<in> set (drop c q))"
proof -
  note R = assms(1) [unfolded cv_reachable_def]
  let ?o = "SyncObject self" and ?k = "cs_kernel S"
  let ?k1 = "snd (wakeup_wait_queue ?o n ?k)"
  note inv = cv.reachable_ok [OF R]
  have k': "wait_lists k' = wait_lists ?k1" "wait_nodes k' = wait_nodes ?k1" "threads k' = threads ?k1"
    using Wakeup_kernel [of self n ?k] by (auto simp: k'_def KSWITCH_CONTEXT_def)
  have q: "m_WaitQueue ?k1 ?o = drop c q"
  proof -
    have "drop (wakeup_count ?o n ?k) q = drop c q"
      using assms(2) by (auto simp: wakeup_count_def c_def q_def)
    then show ?thesis using cv.wake_queue [OF R, of n] by (simp add: q_def)
  qed
  have inv1: "waitq_inv ?o (phase_B (cv_phases S)) (phase_F (cv_phases S)) ?k1" by (rule waitq_wake(1) [OF inv])
  have d: "distinct q" using cv.queue_distinct [OF R] by (simp add: q_def)
  have taken: "cv_phases S t = Suspended \<and> \<not> blocked (thread_state ?k1 t) \<and> fst (wait_result (WaitNode t 0) ?k1) = Some Success"
    if t: "WaitNode t 0 \<in> set (take c q)" for t
  proof -
    have ph: "cv_phases S t = Suspended"
      using cv.queue_suspended [OF R, of "WaitNode t 0"] t by (auto simp: q_def dest: in_set_takeD)
    have "WaitNode t 0 \<notin> set (drop c q)" using t set_take_disj_set_drop_if_distinct [OF d order_refl, of c] by auto
    then have "node_free (WaitNode t 0) ?k1 \<and> \<not> blocked (thread_state ?k1 t) \<and> \<not> m_TargetDeleted (wait_nodes ?k1 (WaitNode t 0))"
      using waitq_invD(3,4,8) [OF inv1, of t] ph by (simp add: q)
    then show ?thesis using ph by (simp add: wait_result_simps node_free_def)
  qed
  have "WaitNode t 0 \<in> set (drop c q)" if "cs_pc S t \<noteq> CvOutside" "blocked (thread_state ?k1 t)" for t
  proof -
    have "reaches (cv_start self) (cv_step self) (S\<lparr>cs_kernel := snd (Wakeup self n ?k)\<rparr>)"
      by (rule reaches.step [OF R cv_step.wakeup [where n = n and r = "fst (Wakeup self n ?k)"]]) simp
    moreover have "cv_phases S t \<noteq> Outside" using that(1) by (cases "cs_pc S t") (simp_all add: cv_phases_def)
    ultimately show ?thesis
      using cv.waiter_not_lost [of self "S\<lparr>cs_kernel := snd (Wakeup self n ?k)\<rparr>" t] that(2) q k'
      by (auto simp: k'_def)
  qed
  moreover have "fst (wait_result m k') = fst (wait_result m ?k1)" for m by (simp add: wait_result_simps k')
  ultimately show ?thesis using q taken by (simp add: k')
qed

text \<open>Waiting on a condition variable releases the lock and queues the thread in one step: after the
  first section of a wait with a mutex that the thread has locked once, the mutex is free, nobody is left on
  its queue, the waiting thread is blocked and last on the queue of the condition variable, so a
  \<open>Wakeup\<close> by whoever takes the mutex next finds it.
\<close>
theorem cv_wait_releases_lock:
  fixes self m :: nat and k :: kernel and mx :: KMutex and userData :: "bool option"
  defines "t \<equiv> gk_CurrentThread k"
  defines "r \<equiv> WaitInternal_first self False userData (k, Some (m, mx))"
  assumes "kernel_reachable k" "thread_runs k" "t \<noteq> gk_IdleThread k" "node_free (WaitNode t 0) k" "m \<noteq> self" "mx_Count mx = -1"
    and "length (m_WaitQueue k (SyncObject m)) < 2 ^ 31" "\<forall>n \<in> set (m_WaitQueue k (SyncObject m)). m_Thread (wait_nodes k n) \<noteq> Some t"
  shows "fst r = None \<and> snd (snd r) = Some (m, mx\<lparr>mx_Count := 0, mx_Holder := None\<rparr>) \<and>
    m_WaitQueue (fst (snd r)) (SyncObject self) = m_WaitQueue k (SyncObject self) @ [WaitNode t 0] \<and>
    m_WaitQueue (fst (snd r)) (SyncObject m) = [] \<and>
    blocked (thread_state (fst (snd r)) t) \<and> m_PendSV (fst (snd r)) \<and> \<not> m_Panicked (fst (snd r))"
proof -
  let ?k1 = "suspend_waiting (SyncObject self) 0 k" and ?m = "SyncObject m"
  have "cpu_inv k" by (rule kernel_reachable_ok [OF assms(3)])
  then have "suspends (SyncObject self) 0 k ?k1"
    using assms by (intro suspend_waiting_facts) (simp_all add: thread_runs_def)
  note susp = this
  have b1: "blocked (thread_state ?k1 t)"
  proof -
    from susp obtain st where st: "blocked st" "thread_state ?k1 = (thread_state k)(t := st)"
      by (auto simp: suspends_def Let_def t_def)
    then show ?thesis using fun_cong [OF st(2), of t] by simp
  qed
  from susp have s: "cpu_inv ?k1"
    "\<And>o'. m_WaitQueue ?k1 o' = (if o' = SyncObject self then m_WaitQueue k o' @ [WaitNode t 0] else m_WaitQueue k o')"
    "\<And>n. n \<noteq> WaitNode t 0 \<Longrightarrow> n \<noteq> SleepNode t 0 \<Longrightarrow> m_Thread (wait_nodes ?k1 n) = m_Thread (wait_nodes k n)"
    by (auto simp: suspends_def Let_def t_def)
  let ?q = "m_WaitQueue k ?m" and ?k2 = "snd (wakeup_wait_queue ?m 0 ?k1)"
  have q1: "m_WaitQueue ?k1 ?m = ?q" using s(2) assms(7) by simp
  have c: "take (wakeup_count ?m 0 ?k1) ?q = ?q" using assms(9) by (simp add: wakeup_count_def)
  have w: "woken_up blocked (WaitQueue ?m) ?q ?k1 ?k2"
    using wakeup_wait_queue_facts(1) [OF cpu_inv_parts(1,2) [OF s(1)], of ?m 0] by (simp add: q1 c)
  have i2: "cpu_inv ?k2" by (rule cpu_inv_wakeup(1) [OF s(1)])
  have nt: "\<not> wakes blocked ?k1 ?q t"
  proof
    assume "wakes blocked ?k1 ?q t"
    then obtain n where n: "n \<in> set ?q" "m_Thread (wait_nodes ?k1 n) = Some t" by (auto simp: wakes_def)
    show False
    proof (cases "n = WaitNode t 0 \<or> n = SleepNode t 0")
      case True
      have "n \<noteq> WaitNode t 0"
        using n(1) assms(6) cpu_inv_parts(2) [OF \<open>cpu_inv k\<close>] by (auto simp: node_free_def wait_core_def)
      moreover have "n \<noteq> SleepNode t 0 \<or> m_Thread (wait_nodes k n) = Some t"
        using n(2) by (auto simp: suspend_waiting_def Let_def upd_node_def SetState_simps wait_list_Append_def kassert_def t_def split: if_splits)
      ultimately show ?thesis using True n(1) assms(10) by auto
    next
      case False
      then show ?thesis using s(3) n assms(10) by auto
    qed
  qed
  have f: "m_WaitQueue ?k2 (SyncObject self) = m_WaitQueue k (SyncObject self) @ [WaitNode t 0]" "m_WaitQueue ?k2 ?m = []"
    "blocked (thread_state ?k2 t)" "\<not> m_Panicked ?k2"
    using w b1 s(2) assms(7) nt cpu_inv_parts(4) [OF i2] woken_up_state [OF w, of t]
    by (auto simp: woken_up_def woken_state_def)
  have u: "unlock_arg (Some (m, mx)) ?k1 = (k', Some (m, mx\<lparr>mx_Count := 0, mx_Holder := None\<rparr>))"
    if "k' = (if fst (wakeup_wait_queue ?m 0 ?k1) then KSWITCH_CONTEXT ?k2 else ?k2)" for k'
    using that assms(8) by (simp add: unlock_arg_def Unlock_def Let_def case_prod_beta)
  show ?thesis
    using f by (simp add: r_def WaitInternal_first_def Let_def u [OF refl] KSWITCH_CONTEXT_def SetBlockingObject_def upd_thread_def t_def)
qed

text \<open>Thread 1 waits on the condition variable 7, and on the condition variable 7 with the mutex 8.\<close>

definition cv_example :: cv_sys where
  "cv_example =
     \<lparr>cs_kernel = fst (snd (WaitInternal_first 7 False None (booted_kernel, None))),
      cs_pc = (\<lambda>_. CvOutside)(1 := CvSuspended)\<rparr>"

lemma cv_example_reachable:
  "cv_reachable 7 cv_example" "m_WaitQueue (cs_kernel cv_example) (SyncObject 7) = [WaitNode 1 0]"
proof -
  note b = booted_kernel_facts
  let ?S0 = "\<lparr>cs_kernel = booted_kernel, cs_pc = (\<lambda>_. CvOutside)\<rparr>"
  let ?S1 = "?S0\<lparr>cs_pc := (cs_pc ?S0)(1 := CvTop)\<rparr>"
  have r0: "cv_reachable 7 ?S0"
    unfolding cv_reachable_def by (rule reaches.init) (use b in \<open>auto simp: cv_start_def\<close>)
  obtain dl where dl: "WaitDeadlineInternal_start CLOCK_MONOTONIC (FromNative 0) booted_kernel = Inr dl"
    by (auto simp: WaitDeadlineInternal_start_def kconvert_clock_to_monotonic_def kget_clock_time_offset_def)
  have "cv_step 7 ?S0 ?S1" by (rule cv_step.call [where deadline = dl]) (use b dl in simp_all)
  with r0 have r1: "cv_reachable 7 ?S1" unfolding cv_reachable_def by (blast intro: reaches.step)
  have sec: "cv_section 7 False None (cs_pc ?S1 1) (cs_kernel ?S1) = (CvSuspended, None, cs_kernel cv_example)"
    by (simp add: no_lock_def cv_example_def WaitInternal_first_def Let_def unlock_arg_def)
  have "cv_step 7 ?S1 (?S1\<lparr>cs_kernel := cs_kernel cv_example, cs_pc := (cs_pc ?S1)(1 := CvSuspended)\<rparr>)"
    using cv_step.run [OF _ _ _ sec] b by simp
  then have "cv_step 7 ?S1 cv_example" by (simp add: cv_example_def)
  with r1 show "cv_reachable 7 cv_example" unfolding cv_reachable_def by (blast intro: reaches.step)
  have "m_WaitQueue (suspend_waiting (SyncObject 7) 0 (cs_kernel ?S1)) (SyncObject 7) = m_WaitQueue booted_kernel (SyncObject 7) @ [WaitNode 1 0]"
    using cv.suspend_queue(1) [OF r1 [unfolded cv_reachable_def], of False] b by (simp add: cv_phases_def)
  then show "m_WaitQueue (cs_kernel cv_example) (SyncObject 7) = [WaitNode 1 0]"
    using b by (simp add: cv_example_def WaitInternal_first_def Let_def unlock_arg_def KSWITCH_CONTEXT_def)
qed

theorem cv_wakeup_reaches_witness:
  "\<not> blocked (thread_state (snd (Wakeup 7 1 (cs_kernel cv_example))) 1) \<and>
   fst (wait_result (WaitNode 1 0) (snd (Wakeup 7 1 (cs_kernel cv_example)))) = Some Success"
  using cv_wakeup_reaches [OF cv_example_reachable(1), of 1] cv_example_reachable(2) by simp

theorem cv_wait_releases_lock_witness:
  "m_WaitQueue (fst (snd (WaitInternal_first 7 False None
     (booted_kernel, Some (8, mutex_take 1 (KMutex_new PEMutexRecursionMode_RaiseError CLOCK_MONOTONIC)))))) (SyncObject 7) = [WaitNode 1 0]"
  using cv_wait_releases_lock [of booted_kernel 8 7 "mutex_take 1 (KMutex_new PEMutexRecursionMode_RaiseError CLOCK_MONOTONIC)" None]
    booted_kernel_facts
  by (simp add: mutex_take_def KMutex_new_def)

end
