(* ===== verification/KHandleArray.thy ===== *)
theory KHandleArray
  imports Prelude
begin

text \<open>
  The table that maps handles to named objects, threads and processes (\<open>Include/Kernel/KHandleArray.h\<close>,
  \<open>Kernel/KHandleArray.cpp\<close>): three levels of blocks of 256 pointers, indexed by the bytes of a 24-bit handle. All
  missing blocks are one shared block whose entries point to itself, so a lookup never tests for a missing level. The
  theory shows that the table is a map from handles to objects, that \<open>AllocHandle\<close> finds a free handle
  whenever there is one and memory does not run out, and a case in which it never returns.
\<close>

section \<open>Blocks\<close>

text \<open>
  What an entry points to: the empty block, nothing (an allocated handle that has not been set), an object, or a block with
  its array and \<open>m_UsedIndexes\<close>.
\<close>

datatype 'a target = EmptyBlock | NullPtr | Object 'a | Block "'a target list" int

definition KHANDLER_ARRAY_BLOCK_SIZE :: nat where
  "KHANDLER_ARRAY_BLOCK_SIZE = 256"

text \<open>A new block; every entry is the empty block.\<close>

definition KHandleArrayBlock :: "'a target" where
  "KHandleArrayBlock = Block (replicate KHANDLER_ARRAY_BLOCK_SIZE EmptyBlock) 0"

text \<open>
  \<open>block->m_Array[i]\<close>, where \<open>block\<close> may be the empty block: the entries of the empty block are the empty block. The
  last equation is the dereference of something that is not a block; the invariant excludes it.
\<close>

fun block_entry :: "'a target \<Rightarrow> nat \<Rightarrow> 'a target" where
  "block_entry (Block xs u) i = xs ! i"
| "block_entry EmptyBlock i = EmptyBlock"
| "block_entry p i = NullPtr"

fun m_UsedIndexes :: "'a target \<Rightarrow> int" where
  "m_UsedIndexes (Block xs u) = u"
| "m_UsedIndexes p = 0"

fun block_set :: "'a target \<Rightarrow> nat \<Rightarrow> 'a target \<Rightarrow> 'a target" where
  "block_set (Block xs u) i p = Block (xs[i := p]) u"
| "block_set b i p = b"

fun block_use :: "int \<Rightarrow> 'a target \<Rightarrow> 'a target" where
  "block_use d (Block xs u) = Block xs (u + d)"
| "block_use d b = b"

section \<open>The table\<close>

text \<open>The last field counts the calls of the memory allocator so far.\<close>

record 'a handle_array =
  m_TopLevel :: "'a target"
  m_ReservedBlocks :: "'a target option list"
  m_CachedBlockCount :: int
  m_NextHandle :: u32
  m_Allocations :: nat

definition KHandleArray_new :: "'a handle_array" where
  "KHandleArray_new =
     \<lparr>m_TopLevel = KHandleArrayBlock, m_ReservedBlocks = replicate 4 None, m_CachedBlockCount = 0, m_NextHandle = 0,
      m_Allocations = 0\<rparr>"

definition GetHandleCount :: "'a handle_array \<Rightarrow> int" where
  "GetHandleCount st = m_UsedIndexes (m_TopLevel st)"

text \<open>\<open>(handle >> 16) & 0xff\<close> and so on, also for negative handles.\<close>

definition index1 :: "int \<Rightarrow> nat" where "index1 handle = nat (handle div 65536 mod 256)"
definition index2 :: "int \<Rightarrow> nat" where "index2 handle = nat (handle div 256 mod 256)"
definition index3 :: "int \<Rightarrow> nat" where "index3 handle = nat (handle mod 256)"

fun cache_slot :: "'a target \<Rightarrow> 'a target option list \<Rightarrow> 'a target option list option" where
  "cache_slot block [] = None"
| "cache_slot block (None # bs) = Some (Some block # bs)"
| "cache_slot block (Some b # bs) = map_option (Cons (Some b)) (cache_slot block bs)"

definition CacheBlock :: "'a target \<Rightarrow> 'a handle_array \<Rightarrow> 'a handle_array" where
  "CacheBlock block st =
     (case cache_slot block (m_ReservedBlocks st) of
        Some bs \<Rightarrow> st\<lparr>m_ReservedBlocks := bs, m_CachedBlockCount := m_CachedBlockCount st + 1\<rparr>
      | None \<Rightarrow> st)"

fun take_slot :: "'a target option list \<Rightarrow> ('a target \<times> 'a target option list) option" where
  "take_slot [] = None"
| "take_slot (Some b # bs) = Some (b, None # bs)"
| "take_slot (None # bs) = map_option (\<lambda>(b, bs). (b, None # bs)) (take_slot bs)"

definition AllocBlock :: "'a handle_array \<Rightarrow> 'a target option \<times> 'a handle_array" where
  "AllocBlock st =
     (case take_slot (m_ReservedBlocks st) of
        Some (block, bs) \<Rightarrow> (Some block, st\<lparr>m_ReservedBlocks := bs, m_CachedBlockCount := m_CachedBlockCount st - 1\<rparr>)
      | None \<Rightarrow> (None, st))"

text \<open>
  \<open>can_alloc n\<close> says whether the \<open>n\<close>th allocation of a block succeeds or throws \<open>bad_alloc\<close>. The loops have fuel,
  and their value is \<open>None\<close> when it is used up.
\<close>

fun AllocBuffers_loop :: "(nat \<Rightarrow> bool) \<Rightarrow> nat \<Rightarrow> 'a handle_array \<Rightarrow> (bool \<times> 'a handle_array) option" where
  "AllocBuffers_loop can_alloc 0 st = None"
| "AllocBuffers_loop can_alloc (Suc fuel) st =
     (let ok = can_alloc (m_Allocations st); st = st\<lparr>m_Allocations := m_Allocations st + 1\<rparr> in
      if \<not> ok then Some (m_CachedBlockCount st \<noteq> 0, st)
      else let st = CacheBlock KHandleArrayBlock st in
           if m_CachedBlockCount st \<ge> 2 then Some (True, st) else AllocBuffers_loop can_alloc fuel st)"

definition AllocBuffers :: "(nat \<Rightarrow> bool) \<Rightarrow> nat \<Rightarrow> 'a handle_array \<Rightarrow> (bool \<times> 'a handle_array) option" where
  "AllocBuffers can_alloc fuel st =
     (if m_CachedBlockCount st < 2 then AllocBuffers_loop can_alloc fuel st else Some (True, st))"

text \<open>The critical section of \<open>AllocHandle\<close>: a handle, a used slot, or no block to put the handle in.\<close>

datatype alloc_try = Allocated int | UsedSlot | NoBlock

definition AllocHandle_try :: "'a handle_array \<Rightarrow> alloc_try \<times> 'a handle_array" where
  "AllocHandle_try st =
     (let handle = uint (m_NextHandle st AND 0x00ffffff);
          st = st\<lparr>m_NextHandle := m_NextHandle st + 1\<rparr>;
          i1 = index1 handle; i2 = index2 handle; i3 = index3 handle;
          block2 = block_entry (m_TopLevel st) i1;
          (new2, st) = (if block2 = EmptyBlock then AllocBlock st else (Some block2, st))
      in case new2 of
           None \<Rightarrow> (NoBlock, st)
         | Some block2 \<Rightarrow>
             let st = st\<lparr>m_TopLevel := block_set (m_TopLevel st) i1 block2\<rparr>;
                 block3 = block_entry block2 i2;
                 (new3, st) = (if block3 = EmptyBlock then AllocBlock st else (Some block3, st))
             in case new3 of
                  None \<Rightarrow>
                    (NoBlock,
                     if m_UsedIndexes block2 = 0
                     then CacheBlock block2 (st\<lparr>m_TopLevel := block_set (m_TopLevel st) i1 EmptyBlock\<rparr>) else st)
                | Some b3 \<Rightarrow>
                    let block2 = (if block3 = EmptyBlock then block_use 1 (block_set block2 i2 b3) else block2) in
                    if block_entry b3 i3 \<noteq> EmptyBlock
                    then (UsedSlot, st\<lparr>m_TopLevel := block_set (m_TopLevel st) i1 block2\<rparr>)
                    else let b3 = block_use 1 (block_set b3 i3 NullPtr);
                             top = block_set (m_TopLevel st) i1 (block_set block2 i2 b3)
                         in (Allocated handle, st\<lparr>m_TopLevel := block_use 1 top\<rparr>))"

fun AllocHandle_loop ::
  "(nat \<Rightarrow> bool) \<Rightarrow> nat \<Rightarrow> bool \<Rightarrow> bool \<Rightarrow> 'a handle_array \<Rightarrow> (int result \<times> 'a handle_array) option" where
  "AllocHandle_loop can_alloc 0 needBuffers failed st = None"
| "AllocHandle_loop can_alloc (Suc fuel) needBuffers failed st =
     (case (if needBuffers \<and> m_CachedBlockCount st < 2
            then map_option (\<lambda>(ok, st). (False, failed \<or> \<not> ok, st)) (AllocBuffers can_alloc (Suc fuel) st)
            else Some (needBuffers, failed, st)) of
        None \<Rightarrow> None
      | Some (needBuffers, failed, st) \<Rightarrow>
          (case AllocHandle_try st of
             (Allocated handle, st) \<Rightarrow> Some (Inr handle, st)
           | (UsedSlot, st) \<Rightarrow> AllocHandle_loop can_alloc fuel needBuffers failed st
           | (NoBlock, st) \<Rightarrow>
               if failed then Some (Inl NOMEM, st)
               else AllocHandle_loop can_alloc fuel True failed (st\<lparr>m_NextHandle := m_NextHandle st - 1\<rparr>)))"

definition AllocHandle :: "(nat \<Rightarrow> bool) \<Rightarrow> nat \<Rightarrow> 'a handle_array \<Rightarrow> (int result \<times> 'a handle_array) option" where
  "AllocHandle can_alloc fuel st = AllocHandle_loop can_alloc fuel False False st"

definition FreeHandle_trw :: "int \<Rightarrow> 'a handle_array \<Rightarrow> unit result \<times> 'a handle_array" where
  "FreeHandle_trw handle st =
     (let i1 = index1 handle; i2 = index2 handle; i3 = index3 handle;
          block2 = block_entry (m_TopLevel st) i1;
          block3 = block_entry block2 i2;
          object = block_entry block3 i3 in
      if object \<noteq> EmptyBlock
      then let st = st\<lparr>m_TopLevel := block_use (-1) (m_TopLevel st)\<rparr>;
               block3 = block_set (block_use (-1) block3) i3 EmptyBlock in
           if m_UsedIndexes block3 = 0
           then let st = CacheBlock block3 st;
                    block2 = block_use (-1) (block_set block2 i2 EmptyBlock) in
                if m_UsedIndexes block2 = 0
                then let st = CacheBlock block2 st
                     in (Inr (), st\<lparr>m_TopLevel := block_set (m_TopLevel st) i1 EmptyBlock\<rparr>)
                else (Inr (), st\<lparr>m_TopLevel := block_set (m_TopLevel st) i1 block2\<rparr>)
           else (Inr (), st\<lparr>m_TopLevel := block_set (m_TopLevel st) i1 (block_set block2 i2 block3)\<rparr>)
      else (Inl INVAL, st))"

text \<open>A null pointer is \<open>None\<close>.\<close>

fun target_of :: "'a option \<Rightarrow> 'a target" where
  "target_of None = NullPtr"
| "target_of (Some x) = Object x"

fun object_of :: "'a target \<Rightarrow> 'a option" where
  "object_of (Object x) = Some x"
| "object_of p = None"

definition Set :: "int \<Rightarrow> 'a option \<Rightarrow> 'a handle_array \<Rightarrow> 'a handle_array" where
  "Set handle object st =
     (let i1 = index1 handle; i2 = index2 handle; i3 = index3 handle;
          block2 = block_entry (m_TopLevel st) i1;
          block = block_entry block2 i2 in
      if block \<noteq> EmptyBlock
      then st\<lparr>m_TopLevel := block_set (m_TopLevel st) i1 (block_set block2 i2 (block_set block i3 (target_of object)))\<rparr>
      else st)"

definition Get :: "int \<Rightarrow> 'a handle_array \<Rightarrow> 'a option" where
  "Get handle st =
     (if handle \<ge> 0
      then let object = block_entry (block_entry (block_entry (m_TopLevel st) (index1 handle)) (index2 handle)) (index3 handle)
           in if object \<noteq> EmptyBlock then object_of object else None
      else None)"

function GetNext_loop :: "('a option \<Rightarrow> bool) \<Rightarrow> 'a handle_array \<Rightarrow> int \<Rightarrow> 'a option" where
  "GetNext_loop delegate st i =
     (if i \<le> 0xffffff
      then let i1 = index1 i; i2 = index2 i; i3 = index3 i;
               block2 = block_entry (m_TopLevel st) i1 in
           if block2 = EmptyBlock then GetNext_loop delegate st ((int i1 + 1) * 65536)
           else let block3 = block_entry block2 i2 in
                if block3 = EmptyBlock then GetNext_loop delegate st (int i1 * 65536 + (int i2 + 1) * 256)
                else if block_entry block3 i3 \<noteq> EmptyBlock \<and> delegate (object_of (block_entry block3 i3))
                then object_of (block_entry block3 i3)
                else GetNext_loop delegate st (i + 1)
      else None)"
  by pat_completeness auto

definition GetNext :: "int \<Rightarrow> ('a option \<Rightarrow> bool) \<Rightarrow> 'a handle_array \<Rightarrow> 'a option" where
  "GetNext handle delegate st = GetNext_loop delegate st (if handle \<noteq> -1 then handle + 1 else 0)"

section \<open>The indexes of a handle\<close>

lemma index_less [simp]: "index1 h < 256" "index2 h < 256" "index3 h < 256"
proof -
  have "h div 65536 mod 256 < 256" "h div 256 mod 256 < 256" "h mod 256 < 256" by (simp_all only: pos_mod_bound)
  then show "index1 h < 256" "index2 h < 256" "index3 h < 256"
    unfolding index1_def index2_def index3_def by linarith+
qed

lemma index_int: "int (index1 h) = h div 65536 mod 256" "int (index2 h) = h div 256 mod 256" "int (index3 h) = h mod 256"
  by (simp_all add: index1_def index2_def index3_def)

lemma handle_split:
  assumes "0 \<le> h" "h < 16777216"
  shows "h = int (index1 h) * 65536 + int (index2 h) * 256 + int (index3 h)"
proof -
  have a: "h = h div 256 * 256 + h mod 256" by simp
  have b: "h div 256 = h div 256 div 256 * 256 + h div 256 mod 256" by simp
  have c: "h div 256 div 256 = h div 65536" by (simp add: zdiv_zmult2_eq [symmetric])
  have d: "h div 65536 mod 256 = h div 65536" using assms by (intro mod_pos_pos_trivial) auto
  show ?thesis unfolding index_int d using a b c by linarith
qed

lemma index_eq_iff:
  assumes "0 \<le> h" "h < 16777216" "0 \<le> g" "g < 16777216"
  shows "index1 h = index1 g \<and> index2 h = index2 g \<and> index3 h = index3 g \<longleftrightarrow> h = g"
  using handle_split [OF assms(1,2)] handle_split [OF assms(3,4)] by auto

section \<open>Well-formed tables\<close>

definition count_used :: "'a target list \<Rightarrow> nat" where
  "count_used xs = length (filter (\<lambda>p. p \<noteq> EmptyBlock) xs)"

lemma count_used_simps [simp]:
  "count_used [] = 0" "count_used (x # xs) = (if x = EmptyBlock then 0 else 1) + count_used xs"
  by (simp_all add: count_used_def)

lemma in_set_upd: "q \<in> set (xs[i := p]) \<Longrightarrow> q = p \<or> q \<in> set xs"
  using set_update_subset_insert [of xs i p] by auto

lemma count_used_update:
  "i < length xs \<Longrightarrow>
     count_used (xs[i := p]) + (if xs ! i = EmptyBlock then 0 else 1) = count_used xs + (if p = EmptyBlock then 0 else 1)"
proof (induction xs arbitrary: i)
  case (Cons x xs)
  show ?case
  proof (cases i)
    case (Suc j)
    then show ?thesis using Cons.IH [of j] Cons.prems by simp
  qed auto
qed simp

lemma count_used_pos: "i < length xs \<Longrightarrow> xs ! i \<noteq> EmptyBlock \<Longrightarrow> 0 < count_used xs"
  by (auto simp: count_used_def filter_empty_conv)

lemma count_used_0: "count_used xs = 0 \<longleftrightarrow> xs = replicate (length xs) EmptyBlock"
  by (induction xs) auto

definition wf_block :: "('a target \<Rightarrow> bool) \<Rightarrow> 'a target \<Rightarrow> bool" where
  "wf_block P b \<longleftrightarrow>
     (\<exists>xs. b = Block xs (int (count_used xs)) \<and> length xs = 256 \<and> (\<forall>p\<in>set xs. p = EmptyBlock \<or> P p))"

definition is_value :: "'a target \<Rightarrow> bool" where
  "is_value p \<longleftrightarrow> (\<exists>ob. p = target_of ob)"

definition wf_leaf :: "'a target \<Rightarrow> bool" where
  "wf_leaf b \<longleftrightarrow> wf_block is_value b \<and> m_UsedIndexes b > 0"

definition wf_mid :: "'a target \<Rightarrow> bool" where
  "wf_mid b \<longleftrightarrow> wf_block wf_leaf b \<and> m_UsedIndexes b > 0"

definition wf_top :: "'a target \<Rightarrow> bool" where
  "wf_top b \<longleftrightarrow> (\<exists>xs u. b = Block xs u \<and> length xs = 256 \<and> (\<forall>p\<in>set xs. p = EmptyBlock \<or> wf_mid p))"

lemma is_value_simps [simp]: "is_value NullPtr" "is_value (Object x)" "\<not> is_value EmptyBlock" "is_value (target_of ob)"
  "\<not> is_value (Block xs u)"
  by (auto simp: is_value_def intro: exI [of _ None] exI [of _ "Some x"]) (metis target_of.elims target.distinct target.simps)+

lemma wf_nonempty: "wf_leaf b \<Longrightarrow> b \<noteq> EmptyBlock" "wf_mid b \<Longrightarrow> b \<noteq> EmptyBlock"
  by (auto simp: wf_leaf_def wf_mid_def)

definition has_array :: "'a target \<Rightarrow> bool" where
  "has_array b \<longleftrightarrow> (\<exists>xs u. b = Block xs u \<and> length xs = 256)"

lemma wf_has_array: "wf_block P b \<Longrightarrow> has_array b" "wf_leaf b \<Longrightarrow> has_array b" "wf_mid b \<Longrightarrow> has_array b" "wf_top b \<Longrightarrow> has_array b"
  by (auto simp: has_array_def wf_block_def wf_leaf_def wf_mid_def wf_top_def)

lemma block_entry_set [simp]:
  "has_array b \<Longrightarrow> i < 256 \<Longrightarrow> block_entry (block_set b i p) j = (if j = i then p else block_entry b j)"
  by (auto simp: has_array_def)

lemma block_entry_use [simp]: "block_entry (block_use d b) j = block_entry b j"
  by (cases b) simp_all

lemma block_set_use: "block_set (block_use d b) i p = block_use d (block_set b i p)"
  by (cases b) simp_all

lemma m_UsedIndexes_simps [simp]:
  "m_UsedIndexes (block_set b i p) = m_UsedIndexes b" "wf_block P b \<Longrightarrow> m_UsedIndexes (block_use d b) = m_UsedIndexes b + d"
  "wf_top b \<Longrightarrow> m_UsedIndexes (block_use d b) = m_UsedIndexes b + d"
  by (cases b; auto simp: wf_block_def wf_top_def)+

lemma wf_block_entry: "wf_block P b \<Longrightarrow> i < 256 \<Longrightarrow> block_entry b i = EmptyBlock \<or> P (block_entry b i)"
  by (auto simp: wf_block_def)

lemma wf_top_entry: "wf_top b \<Longrightarrow> i < 256 \<Longrightarrow> block_entry b i = EmptyBlock \<or> wf_mid (block_entry b i)"
  by (auto simp: wf_top_def)

lemma wf_block_add:
  assumes "wf_block P b" "i < 256" "P p" "p \<noteq> EmptyBlock" "block_entry b i = EmptyBlock"
  shows "wf_block P (block_use 1 (block_set b i p))"
proof -
  obtain xs where b: "b = Block xs (int (count_used xs))" "length xs = 256" "\<forall>p\<in>set xs. p = EmptyBlock \<or> P p"
    using assms(1) by (auto simp: wf_block_def)
  moreover have "count_used (xs[i := p]) = count_used xs + 1"
    using count_used_update [of i xs p] b assms by simp
  moreover have "\<forall>q\<in>set (xs[i := p]). q = EmptyBlock \<or> P q" using b(3) assms(3) by (auto dest: in_set_upd)
  ultimately show ?thesis by (simp add: wf_block_def)
qed

lemma wf_block_replace:
  assumes "wf_block P b" "i < 256" "P p" "p \<noteq> EmptyBlock" "block_entry b i \<noteq> EmptyBlock"
  shows "wf_block P (block_set b i p)"
proof -
  obtain xs where b: "b = Block xs (int (count_used xs))" "length xs = 256" "\<forall>p\<in>set xs. p = EmptyBlock \<or> P p"
    using assms(1) by (auto simp: wf_block_def)
  moreover have "count_used (xs[i := p]) = count_used xs"
    using count_used_update [of i xs p] b assms by simp
  moreover have "\<forall>q\<in>set (xs[i := p]). q = EmptyBlock \<or> P q" using b(3) assms(3) by (auto dest: in_set_upd)
  ultimately show ?thesis by (simp add: wf_block_def)
qed

lemma wf_block_clear:
  assumes "wf_block P b" "i < 256" "block_entry b i \<noteq> EmptyBlock"
  shows "wf_block P (block_use (-1) (block_set b i EmptyBlock))"
proof -
  obtain xs where b: "b = Block xs (int (count_used xs))" "length xs = 256" "\<forall>p\<in>set xs. p = EmptyBlock \<or> P p"
    using assms(1) by (auto simp: wf_block_def)
  moreover have "count_used (xs[i := EmptyBlock]) + 1 = count_used xs"
    using count_used_update [of i xs EmptyBlock] b assms by simp
  then have "int (count_used (xs[i := EmptyBlock])) = int (count_used xs) - 1" by linarith
  moreover have "\<forall>q\<in>set (xs[i := EmptyBlock]). q = EmptyBlock \<or> P q" using b(3) by (auto dest: in_set_upd)
  ultimately show ?thesis by (simp add: wf_block_def)
qed

lemma wf_top_set: "wf_top b \<Longrightarrow> p = EmptyBlock \<or> wf_mid p \<Longrightarrow> wf_top (block_set b i p)"
  by (fastforce simp: wf_top_def dest: in_set_upd)

lemma wf_top_use [simp]: "wf_top (block_use d b) = wf_top b"
  by (cases b) (auto simp: wf_top_def)

lemma wf_block_used_0: "wf_block P b \<Longrightarrow> m_UsedIndexes b = 0 \<longleftrightarrow> b = KHandleArrayBlock"
  by (auto simp: wf_block_def KHandleArrayBlock_def KHANDLER_ARRAY_BLOCK_SIZE_def count_used_0)

lemma wf_block_used_ge: "wf_block P b \<Longrightarrow> m_UsedIndexes b \<ge> 0"
  by (auto simp: wf_block_def)

lemma new_block [simp]: "wf_block P KHandleArrayBlock" "j < 256 \<Longrightarrow> block_entry KHandleArrayBlock j = EmptyBlock"
  "m_UsedIndexes KHandleArrayBlock = 0" "KHandleArrayBlock \<noteq> EmptyBlock" "KHandleArrayBlock \<noteq> NullPtr"
  by (auto simp: wf_block_def KHandleArrayBlock_def KHANDLER_ARRAY_BLOCK_SIZE_def count_used_def)

section \<open>The table as a map\<close>

definition slot :: "'a target \<Rightarrow> int \<Rightarrow> 'a target" where
  "slot tp h = block_entry (block_entry (block_entry tp (index1 h)) (index2 h)) (index3 h)"

definition handle_ok :: "int \<Rightarrow> bool" where
  "handle_ok h \<longleftrightarrow> 0 \<le> h \<and> h < 16777216"

text \<open>Handles in use, with their object, or \<open>None\<close> while it has not been set.\<close>

definition handle_map :: "'a handle_array \<Rightarrow> int \<rightharpoonup> 'a option" where
  "handle_map st h = (if handle_ok h \<and> slot (m_TopLevel st) h \<noteq> EmptyBlock then Some (object_of (slot (m_TopLevel st) h)) else None)"

definition reserved_ok :: "'a handle_array \<Rightarrow> bool" where
  "reserved_ok st \<longleftrightarrow>
     length (m_ReservedBlocks st) = 4 \<and> (\<forall>b. Some b \<in> set (m_ReservedBlocks st) \<longrightarrow> b = KHandleArrayBlock) \<and>
     m_CachedBlockCount st = int (length (filter (\<lambda>b. b \<noteq> None) (m_ReservedBlocks st)))"

definition handles_ok :: "'a handle_array \<Rightarrow> bool" where
  "handles_ok st \<longleftrightarrow>
     wf_top (m_TopLevel st) \<and> reserved_ok st \<and> GetHandleCount st = int (card (dom (handle_map st)))"

lemma handle_ok_finite: "finite {h. handle_ok h}"
proof -
  have "{h. handle_ok h} = {0..<16777216}" by (auto simp: handle_ok_def)
  then show ?thesis by simp
qed

lemma handle_map_finite: "finite (dom (handle_map st))"
  by (rule finite_subset [OF _ handle_ok_finite]) (auto simp: handle_map_def split: if_splits)

lemma slot_path:
  assumes "has_array tp" "has_array b2" "has_array b3" "handle_ok h" "handle_ok g"
    and v2: "\<And>j. j < 256 \<Longrightarrow> j \<noteq> index2 h \<Longrightarrow> block_entry b2 j = block_entry (block_entry tp (index1 h)) j"
    and v3: "\<And>j. j < 256 \<Longrightarrow> j \<noteq> index3 h \<Longrightarrow> block_entry b3 j = block_entry (block_entry (block_entry tp (index1 h)) (index2 h)) j"
    and n: "\<And>j. j < 256 \<Longrightarrow> block_entry b2' j = block_entry (block_set b2 (index2 h) b3') j"
      "\<And>j. j < 256 \<Longrightarrow> block_entry b3' j = block_entry (block_set b3 (index3 h) p) j"
  shows "slot (block_set tp (index1 h) b2') g = (if g = h then p else slot tp g)"
proof -
  have i: "index1 g = index1 h \<and> index2 g = index2 h \<and> index3 g = index3 h \<longleftrightarrow> g = h"
    using index_eq_iff [of g h] assms(4,5) by (simp add: handle_ok_def)
  have e1: "block_entry (block_set tp (index1 h) b2') j = (if j = index1 h then b2' else block_entry tp j)" for j
    using assms(1) by simp
  have e2: "block_entry b2' j = (if j = index2 h then b3' else block_entry b2 j)" if "j < 256" for j
    using assms(2) n(1) [OF that] by simp
  have e3: "block_entry b3' j = (if j = index3 h then p else block_entry b3 j)" if "j < 256" for j
    using assms(3) n(2) [OF that] by simp
  show ?thesis
    unfolding slot_def using i v2 [of "index2 g"] v3 [of "index3 g"]
    by (cases "index1 g = index1 h"; cases "index2 g = index2 h"; cases "index3 g = index3 h") (auto simp: e1 e2 e3)
qed

text \<open>What the cache of blocks does.\<close>

lemma cache_slot_facts:
  "cache_slot b bs = Some bs' \<Longrightarrow>
     length bs' = length bs \<and> (\<forall>c. Some c \<in> set bs' \<longrightarrow> c = b \<or> Some c \<in> set bs) \<and>
     length (filter (\<lambda>b. b \<noteq> None) bs') = length (filter (\<lambda>b. b \<noteq> None) bs) + 1"
  by (induction b bs arbitrary: bs' rule: cache_slot.induct) fastforce+

lemma cache_slot_full: "cache_slot b bs = None \<Longrightarrow> length (filter (\<lambda>b. b \<noteq> None) bs) = length bs"
  by (induction b bs rule: cache_slot.induct) auto

lemma take_slot_facts:
  "take_slot bs = Some (b, bs') \<Longrightarrow>
     length bs' = length bs \<and> Some b \<in> set bs \<and> (\<forall>c. Some c \<in> set bs' \<longrightarrow> Some c \<in> set bs) \<and>
     length (filter (\<lambda>b. b \<noteq> None) bs') + 1 = length (filter (\<lambda>b. b \<noteq> None) bs)"
  by (induction bs arbitrary: bs' rule: take_slot.induct) fastforce+

lemma take_slot_none: "take_slot bs = None \<longleftrightarrow> length (filter (\<lambda>b. b \<noteq> None) bs) = 0"
  by (induction bs rule: take_slot.induct) auto

lemma CacheBlock_fields [simp]:
  "m_TopLevel (CacheBlock b st) = m_TopLevel st" "m_NextHandle (CacheBlock b st) = m_NextHandle st"
  "m_Allocations (CacheBlock b st) = m_Allocations st" "handle_map (CacheBlock b st) = handle_map st"
  "GetHandleCount (CacheBlock b st) = GetHandleCount st"
  by (auto simp: CacheBlock_def handle_map_def GetHandleCount_def fun_eq_iff split: option.split)

lemma CacheBlock_reserved: "reserved_ok st \<Longrightarrow> reserved_ok (CacheBlock KHandleArrayBlock st)"
  using cache_slot_facts [of KHandleArrayBlock "m_ReservedBlocks st"]
  by (auto simp: CacheBlock_def reserved_ok_def split: option.split)

lemma CacheBlock_count:
  "reserved_ok st \<Longrightarrow> m_CachedBlockCount st < 4 \<Longrightarrow> m_CachedBlockCount (CacheBlock KHandleArrayBlock st) = m_CachedBlockCount st + 1"
  using cache_slot_full [of KHandleArrayBlock "m_ReservedBlocks st"]
  by (auto simp: CacheBlock_def reserved_ok_def split: option.split)

lemma reserved_ok_count: "reserved_ok st \<Longrightarrow> 0 \<le> m_CachedBlockCount st \<and> m_CachedBlockCount st \<le> 4"
  using length_filter_le [of "\<lambda>b. b \<noteq> None" "m_ReservedBlocks st"] by (simp add: reserved_ok_def)

lemma AllocBlock_none: "reserved_ok st \<Longrightarrow> m_CachedBlockCount st = 0 \<Longrightarrow> AllocBlock st = (None, st)"
  using take_slot_none [of "m_ReservedBlocks st"] by (simp add: AllocBlock_def reserved_ok_def)

lemma AllocBlock_some:
  assumes ok: "reserved_ok st" and c: "m_CachedBlockCount st \<noteq> 0"
  obtains st' where "AllocBlock st = (Some KHandleArrayBlock, st')" "reserved_ok st'" "m_TopLevel st' = m_TopLevel st"
    "m_NextHandle st' = m_NextHandle st" "m_Allocations st' = m_Allocations st" "m_CachedBlockCount st' = m_CachedBlockCount st - 1"
proof -
  have "take_slot (m_ReservedBlocks st) \<noteq> None"
    using take_slot_none [of "m_ReservedBlocks st"] ok c by (auto simp: reserved_ok_def)
  then obtain b bs where t: "take_slot (m_ReservedBlocks st) = Some (b, bs)" by auto
  have "reserved_ok (st\<lparr>m_ReservedBlocks := bs, m_CachedBlockCount := m_CachedBlockCount st - 1\<rparr>)" "b = KHandleArrayBlock"
    using take_slot_facts [OF t] ok by (auto simp: reserved_ok_def)
  then show ?thesis using that t by (simp add: AllocBlock_def)
qed

text \<open>A table that differs from a well-formed one in one handle.\<close>

lemma handle_map_upd:
  assumes "\<And>g. handle_ok g \<Longrightarrow> slot (m_TopLevel st') g = (if g = h then p else slot (m_TopLevel st) g)" "handle_ok h"
  shows "handle_map st' = (handle_map st)(h := (if p = EmptyBlock then None else Some (object_of p)))"
proof
  fix g
  show "handle_map st' g = ((handle_map st)(h := (if p = EmptyBlock then None else Some (object_of p)))) g"
    using assms(1) [of g] assms(2) by (cases "handle_ok g") (auto simp: handle_map_def)
qed

lemma path_levels:
  fixes h :: int
  assumes "wf_top (m_TopLevel st)"
  defines "b2 \<equiv> block_entry (m_TopLevel st) (index1 h)"
  defines "b3 \<equiv> block_entry b2 (index2 h)"
  shows "b2 = EmptyBlock \<or> wf_mid b2" "b3 = EmptyBlock \<or> wf_leaf b3"
    "slot (m_TopLevel st) h = block_entry b3 (index3 h)" "slot (m_TopLevel st) h = EmptyBlock \<or> is_value (slot (m_TopLevel st) h)"
proof -
  show 2: "b2 = EmptyBlock \<or> wf_mid b2" unfolding b2_def by (rule wf_top_entry [OF assms(1)]) simp
  show 3: "b3 = EmptyBlock \<or> wf_leaf b3"
    using 2 wf_block_entry [of wf_leaf b2 "index2 h"] by (auto simp: b3_def wf_mid_def)
  show s: "slot (m_TopLevel st) h = block_entry b3 (index3 h)" by (simp add: slot_def b2_def b3_def)
  show "slot (m_TopLevel st) h = EmptyBlock \<or> is_value (slot (m_TopLevel st) h)"
    using 3 wf_block_entry [of is_value b3 "index3 h"] by (auto simp: s wf_leaf_def)
qed

lemma card_dom_upd:
  "finite (dom f) \<Longrightarrow> f h = None \<Longrightarrow> card (dom (f(h \<mapsto> v))) = card (dom f) + 1"
  "finite (dom f) \<Longrightarrow> f h \<noteq> None \<Longrightarrow> card (dom (f(h := None))) = card (dom f) - 1 \<and> card (dom f) > 0"
  by (auto simp: domIff card_gt_0_iff)

lemma FreeHandle_facts:
  assumes ok: "handles_ok st" and h: "handle_ok h" and u: "slot (m_TopLevel st) h \<noteq> EmptyBlock"
  shows "fst (FreeHandle_trw h st) = Inr ()" "handles_ok (snd (FreeHandle_trw h st))"
    "handle_map (snd (FreeHandle_trw h st)) = (handle_map st)(h := None)"
    "m_NextHandle (snd (FreeHandle_trw h st)) = m_NextHandle st"
proof -
  let ?tp = "m_TopLevel st"
  define b2 b3 where "b2 = block_entry ?tp (index1 h)" and "b3 = block_entry b2 (index2 h)"
  define b3' b2' where "b3' = block_use (-1) (block_set b3 (index3 h) EmptyBlock)"
    and "b2' = block_use (-1) (block_set b2 (index2 h) EmptyBlock)"
  let ?st1 = "st\<lparr>m_TopLevel := block_use (-1) ?tp\<rparr>"
  have wt: "wf_top ?tp" using ok by (simp add: handles_ok_def)
  have s: "slot ?tp h = block_entry b3 (index3 h)" by (simp add: b3_def b2_def slot_def)
  have n3: "b3 \<noteq> EmptyBlock" using u unfolding s by auto
  then have n2: "b2 \<noteq> EmptyBlock" unfolding b3_def by auto
  have w2: "wf_block wf_leaf b2" "m_UsedIndexes b2 > 0" and w3: "wf_block is_value b3" "m_UsedIndexes b3 > 0"
    using path_levels(1,2) [OF wt, of h] n2 n3 by (auto simp: b2_def b3_def wf_mid_def wf_leaf_def)
  have w3': "wf_block is_value b3'" unfolding b3'_def by (rule wf_block_clear [OF w3(1)]) (use u s in simp_all)
  have w2': "wf_block wf_leaf b2'" unfolding b2'_def by (rule wf_block_clear [OF w2(1)]) (use n3 in \<open>simp_all add: b3_def\<close>)
  have ob: "block_entry (block_entry (block_entry ?tp (index1 h)) (index2 h)) (index3 h) \<noteq> EmptyBlock"
    using u by (simp add: slot_def)
  have F: "FreeHandle_trw h st =
     (Inr (), if m_UsedIndexes b3' = 0
       then if m_UsedIndexes b2' = 0
            then (CacheBlock b2' (CacheBlock b3' ?st1))\<lparr>m_TopLevel := block_set (block_use (-1) ?tp) (index1 h) EmptyBlock\<rparr>
            else (CacheBlock b3' ?st1)\<lparr>m_TopLevel := block_set (block_use (-1) ?tp) (index1 h) b2'\<rparr>
       else ?st1\<lparr>m_TopLevel := block_set (block_use (-1) ?tp) (index1 h) (block_set b2 (index2 h) b3')\<rparr>)"
    using ob by (simp add: FreeHandle_trw_def Let_def b3'_def b2'_def b2_def b3_def block_set_use)
  define st' where "st' = snd (FreeHandle_trw h st)"
  obtain b2n where b2n: "m_TopLevel st' = block_set (block_use (-1) ?tp) (index1 h) b2n"
    "b2n = EmptyBlock \<or> wf_mid b2n"
    "\<And>j. j < 256 \<Longrightarrow> block_entry b2n j = block_entry (block_set b2 (index2 h) (if m_UsedIndexes b3' = 0 then EmptyBlock else b3')) j"
  proof (cases "m_UsedIndexes b3' = 0")
    case True
    show ?thesis
    proof (cases "m_UsedIndexes b2' = 0")
      case t2: True
      then have "b2' = KHandleArrayBlock" using wf_block_used_0 [OF w2'] by simp
      then have "block_entry EmptyBlock j = block_entry (block_set b2 (index2 h) EmptyBlock) j" if "j < 256" for j
        using that block_entry_use [of "-1" "block_set b2 (index2 h) EmptyBlock" j] by (simp add: b2'_def)
      then show ?thesis using that [of EmptyBlock] True t2 by (simp add: st'_def F)
    next
      case False
      then have "wf_mid b2'" using w2' wf_block_used_ge [OF w2'] by (simp add: wf_mid_def)
      then show ?thesis using that [of b2'] True False by (simp add: st'_def F b2'_def)
    qed
  next
    case False
    then have "wf_leaf b3'" using w3' wf_block_used_ge [OF w3'] by (simp add: wf_leaf_def)
    then have "wf_mid (block_set b2 (index2 h) b3')"
      using wf_block_replace [OF w2(1), of "index2 h" b3'] n3 w2(2) wf_nonempty(1) by (auto simp: wf_mid_def b3_def)
    then show ?thesis using that [of "block_set b2 (index2 h) b3'"] False by (simp add: st'_def F)
  qed
  have sl: "slot (m_TopLevel st') g = (if g = h then EmptyBlock else slot ?tp g)" if "handle_ok g" for g
  proof -
    have "slot (block_set (block_use (-1) ?tp) (index1 h) b2n) g = (if g = h then EmptyBlock else slot (block_use (-1) ?tp) g)"
    proof (rule slot_path [where b3' = "if m_UsedIndexes b3' = 0 then EmptyBlock else b3'", OF _ _ _ h that])
      show "has_array (block_use (-1) ?tp)" by (rule wf_has_array(4)) (simp add: wt)
      show "has_array b2" "has_array b3" using wf_has_array(1) w2(1) w3(1) by blast+
      show "block_entry b2n j = block_entry (block_set b2 (index2 h) (if m_UsedIndexes b3' = 0 then EmptyBlock else b3')) j" if "j < 256" for j
        by (rule b2n(3) [OF that])
      show "block_entry (if m_UsedIndexes b3' = 0 then EmptyBlock else b3') j = block_entry (block_set b3 (index3 h) EmptyBlock) j" if "j < 256" for j
      proof (cases "m_UsedIndexes b3' = 0")
        case True
        then have "b3' = KHandleArrayBlock" using wf_block_used_0 [OF w3'] by simp
        then show ?thesis using that True block_entry_use [of "-1" "block_set b3 (index3 h) EmptyBlock" j] by (simp add: b3'_def)
      qed (simp add: b3'_def)
    qed (simp_all add: b2_def b3_def)
    then show ?thesis by (simp add: b2n(1) slot_def)
  qed
  show "fst (FreeHandle_trw h st) = Inr ()" "m_NextHandle (snd (FreeHandle_trw h st)) = m_NextHandle st" by (simp_all add: F)
  have hm: "handle_map st' = (handle_map st)(h := None)" using handle_map_upd [of st' h EmptyBlock st] sl h by simp
  then show "handle_map (snd (FreeHandle_trw h st)) = (handle_map st)(h := None)" by (simp add: st'_def)
  have "wf_top (m_TopLevel st')" unfolding b2n(1) by (rule wf_top_set) (use wt b2n(2) in auto)
  moreover have "reserved_ok st'"
  proof -
    have r1: "reserved_ok ?st1" using ok by (simp add: handles_ok_def reserved_ok_def)
    have r2: "reserved_ok (CacheBlock b3' ?st1)" if "m_UsedIndexes b3' = 0"
      using that wf_block_used_0 [OF w3'] CacheBlock_reserved [OF r1] by simp
    have r3: "reserved_ok (CacheBlock b2' (CacheBlock b3' ?st1))" if "m_UsedIndexes b3' = 0" "m_UsedIndexes b2' = 0"
      using that wf_block_used_0 [OF w2'] CacheBlock_reserved [OF r2] by simp
    show ?thesis using r1 r2 r3 by (auto simp: st'_def F reserved_ok_def)
  qed
  moreover have "GetHandleCount st' = int (card (dom (handle_map st')))"
  proof -
    have "handle_map st h \<noteq> None" using u h by (simp add: handle_map_def)
    from card_dom_upd(2) [OF handle_map_finite this] show ?thesis
      using ok wt by (simp add: hm handles_ok_def GetHandleCount_def b2n(1))
  qed
  ultimately show "handles_ok (snd (FreeHandle_trw h st))" by (simp add: handles_ok_def st'_def)
qed

section \<open>Allocating handles\<close>

definition next_handle :: "'a handle_array \<Rightarrow> int" where
  "next_handle st = uint (m_NextHandle st) mod 16777216"

lemma next_handle_and: "uint (m_NextHandle st AND 0x00ffffff) = next_handle st"
proof -
  have "unat (m_NextHandle st AND 0x00ffffff) = unat (m_NextHandle st) mod 2 ^ 24"
    by (rule unat_and_pow2_mask) simp
  then have "int (unat (m_NextHandle st AND 0x00ffffff)) = int (unat (m_NextHandle st)) mod 2 ^ 24"
    by (simp add: zmod_int)
  then show ?thesis by (simp add: next_handle_def)
qed

lemma next_handle_ok [simp]: "handle_ok (next_handle st)"
  by (simp add: next_handle_def handle_ok_def)

lemma block_set_entry: "has_array b \<Longrightarrow> i < 256 \<Longrightarrow> block_set b i (block_entry b i) = b"
  by (auto simp: has_array_def)

lemma block_set_twice: "block_set (block_set b i p) i q = block_set b i q"
  by (cases b) simp_all

text \<open>How many new blocks the path of a handle needs.\<close>

definition blocks_needed :: "'a handle_array \<Rightarrow> int \<Rightarrow> int" where
  "blocks_needed st h =
     (if block_entry (m_TopLevel st) (index1 h) = EmptyBlock then 2
      else if block_entry (block_entry (m_TopLevel st) (index1 h)) (index2 h) = EmptyBlock then 1 else 0)"

lemma handles_ok_same:
  assumes "handles_ok st" "reserved_ok st'" "m_TopLevel st' = m_TopLevel st"
  shows "handles_ok st'" "handle_map st' = handle_map st"
proof -
  show "handle_map st' = handle_map st" using assms(3) by (simp add: handle_map_def fun_eq_iff)
  then show "handles_ok st'" using assms by (simp add: handles_ok_def GetHandleCount_def)
qed

lemma try_no_block:
  assumes ok: "handles_ok st" and c: "m_CachedBlockCount st < blocks_needed st (next_handle st)"
  defines "r \<equiv> AllocHandle_try st"
  shows "fst r = NoBlock" "handles_ok (snd r)" "handle_map (snd r) = handle_map st"
    "m_NextHandle (snd r) = m_NextHandle st + 1" "m_CachedBlockCount (snd r) = m_CachedBlockCount st"
    "m_TopLevel (snd r) = m_TopLevel st" "m_Allocations (snd r) = m_Allocations st"
proof -
  let ?h = "next_handle st" and ?st = "st\<lparr>m_NextHandle := m_NextHandle st + 1\<rparr>"
  let ?b2 = "block_entry (m_TopLevel st) (index1 ?h)"
  have rk: "reserved_ok st" and wt: "wf_top (m_TopLevel st)" using ok by (simp_all add: handles_ok_def)
  then have rk': "reserved_ok ?st" by (simp add: reserved_ok_def)
  have "fst r = NoBlock \<and> reserved_ok (snd r) \<and> m_TopLevel (snd r) = m_TopLevel st \<and> m_NextHandle (snd r) = m_NextHandle st + 1 \<and>
    m_CachedBlockCount (snd r) = m_CachedBlockCount st \<and> m_Allocations (snd r) = m_Allocations st"
  proof (cases "?b2 = EmptyBlock")
    case b2: True
    show ?thesis
    proof (cases "m_CachedBlockCount st = 0")
      case True
      then show ?thesis
        using AllocBlock_none [OF rk'] b2 rk' by (simp add: r_def AllocHandle_try_def next_handle_and Let_def)
    next
      case False
      then have c1: "m_CachedBlockCount st = 1" using c b2 reserved_ok_count [OF rk] by (simp add: blocks_needed_def)
      obtain s1 where s1: "AllocBlock ?st = (Some KHandleArrayBlock, s1)" "reserved_ok s1" "m_TopLevel s1 = m_TopLevel st"
        "m_NextHandle s1 = m_NextHandle st + 1" "m_Allocations s1 = m_Allocations st" "m_CachedBlockCount s1 = 0"
        by (rule AllocBlock_some [OF rk']) (use c1 in simp_all)
      let ?s2 = "s1\<lparr>m_TopLevel := block_set (m_TopLevel st) (index1 ?h) KHandleArrayBlock\<rparr>"
      have a2: "AllocBlock ?s2 = (None, ?s2)" using s1(2,6) by (intro AllocBlock_none) (simp_all add: reserved_ok_def)
      let ?s3 = "s1\<lparr>m_TopLevel := block_set (block_set (m_TopLevel st) (index1 ?h) KHandleArrayBlock) (index1 ?h) EmptyBlock\<rparr>"
      have tp: "m_TopLevel ?s3 = m_TopLevel st"
        using block_set_entry [OF wf_has_array(4) [OF wt], of "index1 ?h"] b2 by (simp add: block_set_twice)
      have r3: "reserved_ok ?s3" "m_CachedBlockCount ?s3 = 0" using s1 by (simp_all add: reserved_ok_def)
      have "r = (NoBlock, CacheBlock KHandleArrayBlock ?s3)"
        using s1(1,3) b2 a2 by (simp add: r_def AllocHandle_try_def next_handle_and Let_def)
      then show ?thesis
        using CacheBlock_reserved [OF r3(1)] CacheBlock_count [OF r3(1)] r3(2) tp s1(4,5) c1 by simp
    qed
  next
    case False
    then have w2: "wf_mid ?b2" using path_levels(1) [OF wt] by blast
    have n: "block_entry ?b2 (index2 ?h) = EmptyBlock" and c0: "m_CachedBlockCount st = 0"
      using c False reserved_ok_count [OF rk] by (auto simp: blocks_needed_def split: if_splits)
    have e: "block_set (m_TopLevel st) (index1 ?h) ?b2 = m_TopLevel st"
      using block_set_entry [OF wf_has_array(4) [OF wt]] by simp
    have "m_UsedIndexes ?b2 \<noteq> 0" using w2 by (simp add: wf_mid_def)
    then show ?thesis
      using False n AllocBlock_none [OF rk'] c0 rk' by (simp add: r_def AllocHandle_try_def next_handle_and Let_def e)
  qed
  then show "fst r = NoBlock" "handles_ok (snd r)" "handle_map (snd r) = handle_map st"
    "m_NextHandle (snd r) = m_NextHandle st + 1" "m_CachedBlockCount (snd r) = m_CachedBlockCount st"
    "m_TopLevel (snd r) = m_TopLevel st" "m_Allocations (snd r) = m_Allocations st"
    using handles_ok_same [OF ok, of "snd r"] by blast+
qed

lemma try_used:
  assumes ok: "handles_ok st" and u: "slot (m_TopLevel st) (next_handle st) \<noteq> EmptyBlock"
  shows "AllocHandle_try st = (UsedSlot, st\<lparr>m_NextHandle := m_NextHandle st + 1\<rparr>)"
proof -
  let ?h = "next_handle st"
  let ?b2 = "block_entry (m_TopLevel st) (index1 ?h)"
  have wt: "wf_top (m_TopLevel st)" using ok by (simp add: handles_ok_def)
  have s: "block_entry (block_entry ?b2 (index2 ?h)) (index3 ?h) \<noteq> EmptyBlock" using u by (simp add: slot_def)
  then have "block_entry ?b2 (index2 ?h) \<noteq> EmptyBlock" "?b2 \<noteq> EmptyBlock" by auto
  then show ?thesis using s block_set_entry [OF wf_has_array(4) [OF wt], of "index1 ?h"]
    by (simp add: AllocHandle_try_def next_handle_and Let_def)
qed

lemma try_alloc:
  assumes ok: "handles_ok st" and c: "m_CachedBlockCount st \<ge> blocks_needed st (next_handle st)"
    and u: "slot (m_TopLevel st) (next_handle st) = EmptyBlock"
  defines "r \<equiv> AllocHandle_try st"
  shows "fst r = Allocated (next_handle st)" "handles_ok (snd r)" "handle_map (snd r) = (handle_map st)(next_handle st \<mapsto> None)"
    "m_NextHandle (snd r) = m_NextHandle st + 1"
proof -
  let ?h = "next_handle st" and ?tp = "m_TopLevel st" and ?st = "st\<lparr>m_NextHandle := m_NextHandle st + 1\<rparr>"
  let ?e2 = "block_entry ?tp (index1 ?h)" and ?e3 = "block_entry (block_entry ?tp (index1 ?h)) (index2 ?h)"
  have rk: "reserved_ok st" and wt: "wf_top ?tp" using ok by (simp_all add: handles_ok_def)
  then have rk': "reserved_ok ?st" by (simp add: reserved_ok_def)
  define b2 where "b2 = (if ?e2 = EmptyBlock then KHandleArrayBlock else ?e2)"
  define b3 where "b3 = (if ?e3 = EmptyBlock then KHandleArrayBlock else ?e3)"
  define b3' where "b3' = block_use 1 (block_set b3 (index3 ?h) NullPtr)"
  define b2' where "b2' = block_set (if ?e3 = EmptyBlock then block_use 1 (block_set b2 (index2 ?h) b3) else b2) (index2 ?h) b3'"
  have n2: "?e3 \<noteq> EmptyBlock \<Longrightarrow> ?e2 \<noteq> EmptyBlock" by auto
  have v2: "block_entry b2 j = block_entry ?e2 j" if "j < 256" for j using that by (simp add: b2_def)
  have v3: "block_entry b3 j = block_entry ?e3 j" if "j < 256" for j using that by (simp add: b3_def)
  have w2: "wf_block wf_leaf b2" "?e2 = EmptyBlock \<or> m_UsedIndexes b2 > 0"
    using path_levels(1) [OF wt, of ?h] by (auto simp: b2_def wf_mid_def)
  have w3: "wf_block is_value b3" "?e3 = EmptyBlock \<or> m_UsedIndexes b3 > 0"
    using path_levels(2) [OF wt, of ?h] by (auto simp: b3_def wf_leaf_def)
  have wf3': "wf_leaf b3'"
  proof -
    have "wf_block is_value b3'" unfolding b3'_def
      by (rule wf_block_add [OF w3(1)]) (use u v3 in \<open>simp_all add: slot_def\<close>)
    moreover have "m_UsedIndexes b3' > 0"
    proof -
      have "wf_block is_value b3'" by fact
      then show ?thesis using wf_block_used_ge [OF w3(1)] w3(1) unfolding b3'_def
        by (cases b3) (auto simp: wf_block_def)
    qed
    ultimately show ?thesis by (simp add: wf_leaf_def)
  qed
  have wf2': "wf_mid b2'"
  proof (cases "?e3 = EmptyBlock")
    case True
    then have e: "b2' = block_use 1 (block_set b2 (index2 ?h) b3')"
      by (simp add: b2'_def block_set_use block_set_twice)
    have "wf_block wf_leaf b2'" unfolding e
      by (rule wf_block_add [OF w2(1)]) (use True v2 wf3' wf_nonempty in auto)
    moreover have "m_UsedIndexes b2' > 0"
      using wf_block_used_ge [OF w2(1)] w2(1) unfolding e by (cases b2) (auto simp: wf_block_def)
    ultimately show ?thesis by (simp add: wf_mid_def)
  next
    case False
    then have "wf_block wf_leaf b2'" unfolding b2'_def
      using wf_block_replace [OF w2(1), of "index2 ?h" b3'] v2 [of "index2 ?h"] wf3' wf_nonempty(1) [OF wf3'] False by simp
    then show ?thesis using False n2 w2(2) by (simp add: wf_mid_def b2'_def)
  qed
  have R: "fst r = Allocated ?h \<and> m_TopLevel (snd r) = block_use 1 (block_set ?tp (index1 ?h) b2') \<and> reserved_ok (snd r) \<and>
    m_NextHandle (snd r) = m_NextHandle st + 1"
  proof (cases "?e2 = EmptyBlock")
    case True
    then have c2: "m_CachedBlockCount st \<ge> 2" using c by (simp add: blocks_needed_def)
    obtain s1 where s1: "AllocBlock ?st = (Some KHandleArrayBlock, s1)" "reserved_ok s1" "m_TopLevel s1 = ?tp"
      "m_NextHandle s1 = m_NextHandle st + 1" "m_CachedBlockCount s1 = m_CachedBlockCount st - 1"
      by (rule AllocBlock_some [OF rk']) (use c2 in simp_all)
    let ?s2 = "s1\<lparr>m_TopLevel := block_set ?tp (index1 ?h) KHandleArrayBlock\<rparr>"
    have r2: "reserved_ok ?s2" "m_CachedBlockCount ?s2 \<noteq> 0" using s1(2,5) c2 by (auto simp: reserved_ok_def)
    obtain s2 where s2: "AllocBlock ?s2 = (Some KHandleArrayBlock, s2)" "reserved_ok s2" "m_TopLevel s2 = m_TopLevel ?s2"
      "m_NextHandle s2 = m_NextHandle st + 1"
      by (rule AllocBlock_some [OF r2]) (use s1(4) in simp_all)
    have "fst r = Allocated ?h \<and> snd r = s2\<lparr>m_TopLevel := block_use 1 (block_set ?tp (index1 ?h) b2')\<rparr>"
      using True s1(1,3) s2(1,3)
      by (simp add: r_def AllocHandle_try_def next_handle_and Let_def b2_def b3_def b2'_def b3'_def block_set_twice block_set_use)
    then show ?thesis using s2(2,4) by (simp add: reserved_ok_def)
  next
    case e2: False
    have tp: "block_set ?tp (index1 ?h) ?e2 = ?tp" using block_set_entry [OF wf_has_array(4) [OF wt]] by simp
    show ?thesis
    proof (cases "?e3 = EmptyBlock")
      case True
      then have c1: "m_CachedBlockCount st \<noteq> 0" using c e2 by (simp add: blocks_needed_def)
      obtain s1 where s1: "AllocBlock ?st = (Some KHandleArrayBlock, s1)" "reserved_ok s1" "m_TopLevel s1 = ?tp"
        "m_NextHandle s1 = m_NextHandle st + 1"
        by (rule AllocBlock_some [OF rk']) (use c1 in simp_all)
      have "fst r = Allocated ?h \<and> snd r = s1\<lparr>m_TopLevel := block_use 1 (block_set ?tp (index1 ?h) b2')\<rparr>"
        using True e2 s1(1,3)
        by (simp add: r_def AllocHandle_try_def next_handle_and Let_def b2_def b3_def b2'_def b3'_def block_set_twice block_set_use tp)
      then show ?thesis using s1(2,4) by (simp add: reserved_ok_def)
    next
      case False
      have "fst r = Allocated ?h \<and> snd r = ?st\<lparr>m_TopLevel := block_use 1 (block_set ?tp (index1 ?h) b2')\<rparr>"
        using False e2 u
        by (simp add: r_def AllocHandle_try_def next_handle_and Let_def b2_def b3_def b2'_def b3'_def tp slot_def)
      then show ?thesis using rk by (simp add: reserved_ok_def)
    qed
  qed
  then show "fst r = Allocated ?h" "m_NextHandle (snd r) = m_NextHandle st + 1" by blast+
  have ha: "has_array ?tp" "has_array b2" "has_array b3" using wf_has_array wt w2(1) w3(1) by blast+
  have sl: "slot (m_TopLevel (snd r)) g = (if g = ?h then NullPtr else slot ?tp g)" if "handle_ok g" for g
  proof -
    have "slot (block_set ?tp (index1 ?h) b2') g = (if g = ?h then NullPtr else slot ?tp g)"
    proof (rule slot_path [where b3' = b3', OF ha _ that])
      show "block_entry b2' j = block_entry (block_set b2 (index2 ?h) b3') j" for j
        by (simp add: b2'_def block_set_use block_set_twice)
      show "block_entry b3' j = block_entry (block_set b3 (index3 ?h) NullPtr) j" for j by (simp add: b3'_def)
    qed (use v2 v3 in auto)
    then show ?thesis using R by (simp add: slot_def)
  qed
  show hm: "handle_map (snd r) = (handle_map st)(?h \<mapsto> None)"
    using handle_map_upd [of "snd r" ?h NullPtr st] sl by simp
  have n: "handle_map st ?h = None" using u by (simp add: handle_map_def)
  have "int (card (dom (handle_map (snd r)))) = int (card (dom (handle_map st))) + 1"
    unfolding hm using card_dom_upd(1) [OF handle_map_finite n] by simp
  moreover have wtop: "wf_top (block_set ?tp (index1 ?h) b2')" by (rule wf_top_set) (use wt wf2' in auto)
  ultimately show "handles_ok (snd r)" using R ok by (simp add: handles_ok_def GetHandleCount_def)
qed

lemma AllocBuffers_loop_facts:
  assumes "handles_ok st" "m_CachedBlockCount st < 2" "AllocBuffers_loop can_alloc fuel st = Some (b, st')"
  shows "handles_ok st'" "m_TopLevel st' = m_TopLevel st" "m_NextHandle st' = m_NextHandle st" "handle_map st' = handle_map st"
proof -
  have "handles_ok st' \<and> m_TopLevel st' = m_TopLevel st \<and> m_NextHandle st' = m_NextHandle st"
    using assms
  proof (induction can_alloc fuel st rule: AllocBuffers_loop.induct)
    case (2 can_alloc fuel st)
    let ?s1 = "st\<lparr>m_Allocations := m_Allocations st + 1\<rparr>" and ?s2 = "CacheBlock KHandleArrayBlock (st\<lparr>m_Allocations := m_Allocations st + 1\<rparr>)"
    have r1: "reserved_ok ?s1" using "2.prems"(1) by (simp add: handles_ok_def reserved_ok_def)
    have h1: "handles_ok ?s1" by (rule handles_ok_same(1) [OF "2.prems"(1) r1]) simp
    have h2: "handles_ok ?s2" by (rule handles_ok_same(1) [OF "2.prems"(1) CacheBlock_reserved [OF r1]]) simp
    show ?case
      using "2.IH" [OF refl refl _ refl _ h2] "2.prems"(3) h1 h2 by (auto simp: Let_def split: if_splits)
  qed simp
  then show "handles_ok st'" "m_TopLevel st' = m_TopLevel st" "m_NextHandle st' = m_NextHandle st" "handle_map st' = handle_map st"
    by (auto simp: handle_map_def fun_eq_iff)
qed

lemma AllocBuffers_facts:
  assumes "handles_ok st" "AllocBuffers can_alloc fuel st = Some (b, st')"
  shows "handles_ok st'" "m_TopLevel st' = m_TopLevel st" "m_NextHandle st' = m_NextHandle st" "handle_map st' = handle_map st"
  using assms AllocBuffers_loop_facts [OF assms(1)] by (auto simp: AllocBuffers_def split: if_splits)

lemma AllocBuffers_succeeds:
  assumes ok: "handles_ok st" and c: "m_CachedBlockCount st < 2" and "\<And>n. can_alloc n"
  shows "\<exists>st'. AllocBuffers can_alloc (Suc (Suc fuel)) st = Some (True, st') \<and> m_CachedBlockCount st' = 2"
proof -
  let ?s1 = "st\<lparr>m_Allocations := m_Allocations st + 1\<rparr>" and ?s2 = "CacheBlock KHandleArrayBlock (st\<lparr>m_Allocations := m_Allocations st + 1\<rparr>)"
  let ?s3 = "?s2\<lparr>m_Allocations := m_Allocations st + 2\<rparr>"
  have r1: "reserved_ok ?s1" "0 \<le> m_CachedBlockCount st" using ok reserved_ok_count by (auto simp: handles_ok_def reserved_ok_def)
  have c2: "m_CachedBlockCount ?s2 = m_CachedBlockCount st + 1" using CacheBlock_count [OF r1(1)] c by simp
  have r3: "reserved_ok ?s3" using CacheBlock_reserved [OF r1(1)] by (simp add: reserved_ok_def)
  have c3: "m_CachedBlockCount (CacheBlock KHandleArrayBlock ?s3) = m_CachedBlockCount st + 2"
    using CacheBlock_count [OF r3] c2 c by simp
  show ?thesis
  proof (cases "m_CachedBlockCount st = 0")
    case True
    then show ?thesis using c2 c3 assms(3) by (simp add: AllocBuffers_def)
  next
    case False
    then have "m_CachedBlockCount st = 1" using r1(2) c by linarith
    then show ?thesis using c2 assms(3) by (simp add: AllocBuffers_def)
  qed
qed

text \<open>One round of the loop.\<close>

lemma try_cases:
  assumes ok: "handles_ok st"
  obtains (no_block) "fst (AllocHandle_try st) = NoBlock" "m_CachedBlockCount st < blocks_needed st (next_handle st)"
    | (used) "AllocHandle_try st = (UsedSlot, st\<lparr>m_NextHandle := m_NextHandle st + 1\<rparr>)"
        "slot (m_TopLevel st) (next_handle st) \<noteq> EmptyBlock"
    | (alloc) "fst (AllocHandle_try st) = Allocated (next_handle st)" "slot (m_TopLevel st) (next_handle st) = EmptyBlock"
proof (cases "m_CachedBlockCount st < blocks_needed st (next_handle st)")
  case True
  then show ?thesis using try_no_block(1) [OF ok True] no_block by blast
next
  case False
  then show ?thesis using try_used [OF ok] try_alloc(1) [OF ok] used alloc by (meson not_less)
qed

lemma handle_map_next [simp]: "handle_map (st\<lparr>m_NextHandle := n\<rparr>) = handle_map st"
  by (simp add: handle_map_def fun_eq_iff)

lemma handle_map_allocations [simp]: "handle_map (st\<lparr>m_Allocations := n\<rparr>) = handle_map st"
  by (simp add: handle_map_def fun_eq_iff)

lemma handles_ok_next [simp]: "handles_ok (st\<lparr>m_NextHandle := n\<rparr>) = handles_ok st"
  by (simp add: handles_ok_def reserved_ok_def GetHandleCount_def)

lemma AllocHandle_loop_sound:
  assumes "handles_ok st" "AllocHandle_loop can_alloc fuel need failed st = Some (r, st')"
  shows "handles_ok st' \<and>
    (case r of Inl e \<Rightarrow> e = NOMEM \<and> handle_map st' = handle_map st
     | Inr h \<Rightarrow> handle_ok h \<and> handle_map st h = None \<and> handle_map st' = (handle_map st)(h \<mapsto> None))"
  using assms
proof (induction can_alloc fuel need failed st rule: AllocHandle_loop.induct)
  case (2 can_alloc fuel need failed st)
  obtain need1 failed1 st1 where b: "(if need \<and> m_CachedBlockCount st < 2
      then map_option (\<lambda>(ok, st). (False, failed \<or> \<not> ok, st)) (AllocBuffers can_alloc (Suc fuel) st)
      else Some (need, failed, st)) = Some (need1, failed1, st1)"
    using "2.prems"(2) by (auto split: option.splits)
  have st1: "handles_ok st1 \<and> handle_map st1 = handle_map st"
  proof (cases "need \<and> m_CachedBlockCount st < 2")
    case True
    then obtain ok where "AllocBuffers can_alloc (Suc fuel) st = Some (ok, st1)" using b by auto
    from AllocBuffers_facts(1,4) [OF "2.prems"(1) this] show ?thesis by simp
  qed (use b "2.prems"(1) in \<open>auto split: if_splits\<close>)
  then have st1: "handles_ok st1" "handle_map st1 = handle_map st" by blast+
  note next1 = "2.prems"(2) [unfolded AllocHandle_loop.simps b]
  show ?case
  proof (cases rule: try_cases [OF st1(1), case_names no_block used alloc])
    case no_block
    note t = try_no_block [OF st1(1) no_block(2)]
    obtain st2 where st2: "AllocHandle_try st1 = (NoBlock, st2)" using t(1) by (cases "AllocHandle_try st1") simp
    have ok2: "handles_ok st2" "handle_map st2 = handle_map st" using t(2,3) st1(2) st2 by simp_all
    show ?thesis
    proof (cases failed1)
      case True
      then show ?thesis using next1 st2 ok2 by auto
    next
      case False
      then show ?thesis using next1 st2 ok2 "2.IH"(2) [OF b refl refl st2 [symmetric] refl False] by (auto split: sum.splits)
    qed
  next
    case used
    then show ?thesis using next1 st1 "2.IH"(1) [OF b refl refl used(1) [symmetric] refl] by (auto split: sum.splits)
  next
    case alloc
    have "m_CachedBlockCount st1 \<ge> blocks_needed st1 (next_handle st1)"
      using try_no_block(1) [OF st1(1)] alloc(1) by fastforce
    note t = try_alloc [OF st1(1) this alloc(2)]
    have "handle_map st (next_handle st1) = None" using alloc(2) by (simp add: st1(2) [symmetric] handle_map_def)
    then show ?thesis using next1 t st1(2) by (cases "AllocHandle_try st1") auto
  qed
qed simp

text \<open>It returns when some handle is free and memory does not run out: after at most \<open>d\<close> used slots and one call of \<open>AllocBuffers\<close>.\<close>

lemma next_handle_Suc:
  "next_handle (st\<lparr>m_NextHandle := m_NextHandle st + 1\<rparr>) = (next_handle st + 1) mod 16777216"
proof -
  have "uint (m_NextHandle st + 1) = (uint (m_NextHandle st) + 1) mod 2 ^ 32"
    by (simp add: uint_word_ariths)
  then have "uint (m_NextHandle st + 1) mod 16777216 = (uint (m_NextHandle st) + 1) mod 2 ^ 32 mod 16777216"
    by simp
  also have "\<dots> = (uint (m_NextHandle st) + 1) mod 16777216"
    by (rule mod_mod_cancel) simp
  finally show ?thesis by (simp add: next_handle_def mod_add_left_eq)
qed

lemma loop_buffers:
  "m_CachedBlockCount st < 2 \<Longrightarrow> AllocBuffers can_alloc (Suc fuel) st = Some (True, st1) \<Longrightarrow>
     AllocHandle_loop can_alloc (Suc fuel) True False st = AllocHandle_loop can_alloc (Suc fuel) False False st1"
  "m_CachedBlockCount st < 2 \<Longrightarrow> AllocBuffers can_alloc (Suc fuel) st = None \<Longrightarrow>
     AllocHandle_loop can_alloc (Suc fuel) True False st = None"
  by simp_all

lemma loop_used:
  "need \<and> m_CachedBlockCount st < 2 \<Longrightarrow> AllocBuffers can_alloc (Suc fuel) st = Some (True, st1) \<Longrightarrow>
     AllocHandle_try st1 = (UsedSlot, st2) \<Longrightarrow>
     AllocHandle_loop can_alloc (Suc fuel) need False st = AllocHandle_loop can_alloc fuel False False st2"
  "\<not> (need \<and> m_CachedBlockCount st < 2) \<Longrightarrow> AllocHandle_try st = (UsedSlot, st2) \<Longrightarrow>
     AllocHandle_loop can_alloc (Suc fuel) need False st = AllocHandle_loop can_alloc fuel need False st2"
  by auto

lemma AllocHandle_loop_total:
  assumes "handles_ok st" "\<And>n. can_alloc n"
    and "\<And>i. i < d \<Longrightarrow> slot (m_TopLevel st) ((next_handle st + int i) mod 16777216) \<noteq> EmptyBlock"
    and "slot (m_TopLevel st) ((next_handle st + int d) mod 16777216) = EmptyBlock"
  shows "\<exists>h st'. AllocHandle_loop can_alloc (d + 3 + fuel) need False st = Some (Inr h, st')"
  using assms
proof (induction d arbitrary: st need)
  case 0
  have h: "slot (m_TopLevel st) (next_handle st) = EmptyBlock"
    using "0.prems"(4) by (simp add: next_handle_def)
  have alloc: "\<exists>st'. AllocHandle_try s = (Allocated (next_handle s), st')"
    if "handles_ok s" "m_TopLevel s = m_TopLevel st" "m_NextHandle s = m_NextHandle st" "m_CachedBlockCount s \<ge> blocks_needed s (next_handle s)" for s
    using try_alloc(1) [OF that(1,4)] h that(2,3) by (cases "AllocHandle_try s") (simp add: next_handle_def)
  have bn: "blocks_needed s g \<le> 2" for s :: "'a handle_array" and g by (simp add: blocks_needed_def)
  have buffered: "\<exists>h st'. AllocHandle_loop can_alloc (Suc (Suc n)) True False s = Some (Inr h, st')"
    if s: "handles_ok s" "m_TopLevel s = m_TopLevel st" "m_NextHandle s = m_NextHandle st" for n s
  proof (cases "m_CachedBlockCount s < 2")
    case True
    obtain s1 where s1: "AllocBuffers can_alloc (Suc (Suc n)) s = Some (True, s1)" "m_CachedBlockCount s1 = 2"
      using AllocBuffers_succeeds [OF s(1) True, of can_alloc n] "0.prems"(2) by blast
    note f = AllocBuffers_facts [OF s(1) s1(1)]
    obtain s2 where "AllocHandle_try s1 = (Allocated (next_handle s1), s2)"
      using alloc [of s1] f s s1(2) bn by auto
    then show ?thesis using True s1 by simp
  next
    case False
    then have "blocks_needed s (next_handle s) \<le> m_CachedBlockCount s" using bn [of s "next_handle s"] by linarith
    then obtain s2 where "AllocHandle_try s = (Allocated (next_handle s), s2)" using alloc s by blast
    then show ?thesis using False by simp
  qed
  show ?case
  proof (cases need)
    case True
    then show ?thesis using buffered [OF "0.prems"(1), of "Suc fuel"] by (simp add: numeral_3_eq_3)
  next
    case False
    show ?thesis
    proof (cases "m_CachedBlockCount st < blocks_needed st (next_handle st)")
      case True
      note t = try_no_block [OF "0.prems"(1) True]
      obtain s1 where s1: "AllocHandle_try st = (NoBlock, s1)" using t(1) by (cases "AllocHandle_try st") simp
      have "\<exists>h st'. AllocHandle_loop can_alloc (Suc (Suc fuel)) True False (s1\<lparr>m_NextHandle := m_NextHandle s1 - 1\<rparr>) = Some (Inr h, st')"
        using t s1 by (intro buffered) simp_all
      then show ?thesis using False s1 by (simp add: numeral_3_eq_3)
    next
      case c: False
      then obtain s2 where "AllocHandle_try st = (Allocated (next_handle st), s2)"
        using alloc [OF "0.prems"(1)] by (meson not_less)
      then show ?thesis using False by (simp add: numeral_3_eq_3)
    qed
  qed
next
  case (Suc d)
  have used: "\<exists>h st'. AllocHandle_loop can_alloc (d + 3 + fuel) n False (s\<lparr>m_NextHandle := m_NextHandle s + 1\<rparr>) = Some (Inr h, st')"
    "slot (m_TopLevel s) (next_handle s) \<noteq> EmptyBlock"
    if s: "handles_ok s" "m_TopLevel s = m_TopLevel st" "m_NextHandle s = m_NextHandle st" for s n
  proof -
    have nh: "next_handle s = next_handle st" using s(3) by (simp add: next_handle_def)
    have nx: "(next_handle (s\<lparr>m_NextHandle := m_NextHandle s + 1\<rparr>) + int i) mod 16777216 = (next_handle st + int (Suc i)) mod 16777216" for i
      unfolding next_handle_Suc nh by (simp add: mod_add_left_eq mod_add_right_eq algebra_simps)
    show "\<exists>h st'. AllocHandle_loop can_alloc (d + 3 + fuel) n False (s\<lparr>m_NextHandle := m_NextHandle s + 1\<rparr>) = Some (Inr h, st')"
    proof (rule Suc.IH)
      show "slot (m_TopLevel (s\<lparr>m_NextHandle := m_NextHandle s + 1\<rparr>)) ((next_handle (s\<lparr>m_NextHandle := m_NextHandle s + 1\<rparr>) + int i) mod 16777216) \<noteq> EmptyBlock"
        if "i < d" for i unfolding nx using Suc.prems(3) [of "Suc i"] that s(2) by simp
      show "slot (m_TopLevel (s\<lparr>m_NextHandle := m_NextHandle s + 1\<rparr>)) ((next_handle (s\<lparr>m_NextHandle := m_NextHandle s + 1\<rparr>) + int d) mod 16777216) = EmptyBlock"
        unfolding nx using Suc.prems(4) s(2) by simp
    qed (use s Suc.prems(2) in simp_all)
    show "slot (m_TopLevel s) (next_handle s) \<noteq> EmptyBlock"
      using Suc.prems(3) [of 0] s(2) nh by (simp add: next_handle_def)
  qed
  show ?case
  proof (cases "need \<and> m_CachedBlockCount st < 2")
    case True
    obtain s1 where s1: "AllocBuffers can_alloc (Suc (Suc (Suc d + 1 + fuel))) st = Some (True, s1)"
      using AllocBuffers_succeeds [OF Suc.prems(1), of can_alloc] Suc.prems(2) True by blast
    note f = AllocBuffers_facts [OF Suc.prems(1) s1]
    have "AllocHandle_try s1 = (UsedSlot, s1\<lparr>m_NextHandle := m_NextHandle s1 + 1\<rparr>)"
      by (rule try_used [OF f(1) used(2) [OF f(1,2,3)]])
    from loop_used(1) [OF True _ this, of can_alloc "d + 3 + fuel"] s1 used(1) [OF f(1,2,3)] show ?thesis
      by (simp del: AllocHandle_loop.simps add: numeral_3_eq_3)
  next
    case False
    have "AllocHandle_try st = (UsedSlot, st\<lparr>m_NextHandle := m_NextHandle st + 1\<rparr>)"
      by (rule try_used [OF Suc.prems(1) used(2) [OF Suc.prems(1) refl refl]])
    from loop_used(2) [OF False this, of can_alloc "d + 3 + fuel"] used(1) [OF Suc.prems(1) refl refl] show ?thesis
      by (simp del: AllocHandle_loop.simps add: numeral_3_eq_3)
  qed
qed

lemma slot_new [simp]: "slot KHandleArrayBlock h = EmptyBlock"
  by (simp add: slot_def)

lemma new_table [simp]: "handles_ok KHandleArray_new" "handle_map KHandleArray_new = Map.empty" "next_handle KHandleArray_new = 0"
  "GetHandleCount KHandleArray_new = 0"
proof -
  show e: "handle_map KHandleArray_new = Map.empty" by (simp add: handle_map_def KHandleArray_new_def fun_eq_iff)
  have "wf_top KHandleArrayBlock" by (simp add: wf_top_def KHandleArrayBlock_def KHANDLER_ARRAY_BLOCK_SIZE_def)
  then show "handles_ok KHandleArray_new"
    by (simp add: handles_ok_def e) (simp add: KHandleArray_new_def reserved_ok_def GetHandleCount_def)
  show "next_handle KHandleArray_new = 0" "GetHandleCount KHandleArray_new = 0"
    by (simp_all add: next_handle_def KHandleArray_new_def GetHandleCount_def)
qed

lemma free_handle_ahead:
  assumes ok: "handles_ok st" and c: "GetHandleCount st < 16777216"
  obtains d where "slot (m_TopLevel st) ((next_handle st + int d) mod 16777216) = EmptyBlock"
    "\<And>i. i < d \<Longrightarrow> slot (m_TopLevel st) ((next_handle st + int i) mod 16777216) \<noteq> EmptyBlock"
proof -
  have "\<exists>g. handle_ok g \<and> handle_map st g = None"
  proof (rule ccontr)
    assume "\<not> ?thesis"
    then have "{g. handle_ok g} \<subseteq> dom (handle_map st)" by auto
    then have "card {g. handle_ok g} \<le> card (dom (handle_map st))" by (rule card_mono [OF handle_map_finite])
    moreover have "{g. handle_ok g} = {0..<16777216}" by (auto simp: handle_ok_def)
    ultimately show False using ok c by (simp add: handles_ok_def)
  qed
  then obtain g where g: "handle_ok g" "slot (m_TopLevel st) g = EmptyBlock" by (auto simp: handle_map_def split: if_splits)
  let ?P = "\<lambda>d. slot (m_TopLevel st) ((next_handle st + int d) mod 16777216) = EmptyBlock"
  have "?P (nat ((g - next_handle st) mod 16777216))"
    using g by (simp add: mod_add_right_eq handle_ok_def)
  then have "?P (LEAST d. ?P d)" by (rule LeastI)
  moreover have "\<not> ?P i" if "i < (LEAST d. ?P d)" for i using not_less_Least [OF that] .
  ultimately show ?thesis using that by blast
qed

section \<open>Properties\<close>

text \<open>
  C16. The table is a map from handles to objects: on well-formed tables, \<open>Get\<close> looks a handle up,
  \<open>Set\<close> updates a handle in use, \<open>FreeHandle_trw\<close> removes a handle in use and throws \<open>INVAL\<close> for
  any other, all three leave the table well formed and other handles alone, and the handle count is the size of the map.
\<close>
theorem handle_table_is_map:
  assumes "handles_ok st" "handle_ok h"
  shows "Get h st = (case handle_map st h of Some ob \<Rightarrow> ob | None \<Rightarrow> None) \<and>
    (handle_map st h \<noteq> None \<longrightarrow> handles_ok (Set h ob st) \<and> handle_map (Set h ob st) = (handle_map st)(h \<mapsto> ob)) \<and>
    fst (FreeHandle_trw h st) = (if handle_map st h = None then Inl INVAL else Inr ()) \<and>
    handles_ok (snd (FreeHandle_trw h st)) \<and> handle_map (snd (FreeHandle_trw h st)) = (handle_map st)(h := None) \<and>
    GetHandleCount st = int (card (dom (handle_map st)))"
proof -
  have wt: "wf_top (m_TopLevel st)" using assms(1) by (simp add: handles_ok_def)
  note P = path_levels [OF wt, of h]
  have "Get h st = (case handle_map st h of Some ob \<Rightarrow> ob | None \<Rightarrow> None)"
    using assms(2) by (auto simp: Get_def handle_map_def slot_def handle_ok_def)
  moreover have "handles_ok (Set h ob st) \<and> handle_map (Set h ob st) = (handle_map st)(h \<mapsto> ob)" if u: "handle_map st h \<noteq> None"
  proof -
    let ?tp = "m_TopLevel st" and ?b2 = "block_entry (m_TopLevel st) (index1 h)"
    let ?b3 = "block_entry ?b2 (index2 h)"
    let ?b3' = "block_set ?b3 (index3 h) (target_of ob)"
    have s: "block_entry ?b3 (index3 h) \<noteq> EmptyBlock" using u by (auto simp: handle_map_def slot_def split: if_splits)
    then have n3: "?b3 \<noteq> EmptyBlock" and n2: "?b2 \<noteq> EmptyBlock" by auto
    have w3: "wf_leaf ?b3" and w2: "wf_mid ?b2" using P(1,2) n2 n3 by auto
    have t: "target_of ob \<noteq> EmptyBlock" by (cases ob) simp_all
    have w3': "wf_leaf ?b3'"
      using w3 wf_block_replace [of is_value ?b3 "index3 h" "target_of ob"] s t by (simp add: wf_leaf_def)
    have w2': "wf_mid (block_set ?b2 (index2 h) ?b3')"
      using w2 wf_block_replace [of wf_leaf ?b2 "index2 h" ?b3'] w3' n3 wf_nonempty(1) [OF w3'] by (simp add: wf_mid_def)
    have S: "Set h ob st = st\<lparr>m_TopLevel := block_set ?tp (index1 h) (block_set ?b2 (index2 h) ?b3')\<rparr>"
      using n3 by (simp add: Set_def Let_def)
    have ha: "has_array ?tp" "has_array ?b2" "has_array ?b3" using wf_has_array wt w2 w3 by blast+
    have T: "m_TopLevel (Set h ob st) = block_set ?tp (index1 h) (block_set ?b2 (index2 h) ?b3')" by (simp add: S)
    have "slot (m_TopLevel (Set h ob st)) g = (if g = h then target_of ob else slot ?tp g)" if "handle_ok g" for g
      unfolding T by (rule slot_path [where b3' = ?b3', OF ha assms(2) that]) simp_all
    from handle_map_upd [of "Set h ob st" h "target_of ob" st, OF this assms(2)]
    have hm: "handle_map (Set h ob st) = (handle_map st)(h \<mapsto> ob)" using t by (cases ob) simp_all
    have "card (dom (handle_map (Set h ob st))) = card (dom (handle_map st))"
      unfolding hm using u by (simp add: insert_absorb domIff)
    then have "handles_ok (Set h ob st)"
      using assms(1) wf_top_set [OF wt, of "block_set ?b2 (index2 h) ?b3'" "index1 h"] w2'
      by (simp add: handles_ok_def S GetHandleCount_def reserved_ok_def)
    then show ?thesis using hm by simp
  qed
  moreover have "fst (FreeHandle_trw h st) = (if handle_map st h = None then Inl INVAL else Inr ()) \<and>
      handles_ok (snd (FreeHandle_trw h st)) \<and> handle_map (snd (FreeHandle_trw h st)) = (handle_map st)(h := None)"
  proof (cases "slot (m_TopLevel st) h = EmptyBlock")
    case True
    then show ?thesis
      using assms by (simp add: FreeHandle_trw_def Let_def slot_def handle_map_def fun_eq_iff)
  next
    case False
    then show ?thesis using FreeHandle_facts [OF assms False] assms(2) by (simp add: handle_map_def)
  qed
  ultimately show ?thesis using assms(1) by (simp add: handles_ok_def)
qed

text \<open>
  C17. \<open>AllocHandle\<close> finds a free handle whenever one is left and allocations succeed: it returns, its handle
  was free, is now in use and unset, and nothing else has changed.
\<close>
theorem AllocHandle_total:
  assumes "handles_ok st" "\<And>n. can_alloc n" "GetHandleCount st < 2 ^ 24"
  shows "\<exists>N. \<forall>fuel\<ge>N. \<exists>h st'. AllocHandle can_alloc fuel st = Some (Inr h, st') \<and> handles_ok st' \<and> handle_ok h \<and>
    handle_map st h = None \<and> handle_map st' = (handle_map st)(h \<mapsto> None)"
proof -
  have c: "GetHandleCount st < 16777216" using assms(3) by simp
  obtain d where d: "slot (m_TopLevel st) ((next_handle st + int d) mod 16777216) = EmptyBlock"
    "\<And>i. i < d \<Longrightarrow> slot (m_TopLevel st) ((next_handle st + int i) mod 16777216) \<noteq> EmptyBlock"
    by (rule free_handle_ahead [OF assms(1) c]) blast
  have "\<exists>h st'. AllocHandle can_alloc fuel st = Some (Inr h, st') \<and> handles_ok st' \<and> handle_ok h \<and>
      handle_map st h = None \<and> handle_map st' = (handle_map st)(h \<mapsto> None)" if le: "fuel \<ge> d + 3" for fuel
  proof -
    obtain m where m: "fuel = d + 3 + m" using le_Suc_ex [OF le] by (elim exE)
    have "\<exists>h st'. AllocHandle_loop can_alloc (d + 3 + m) False False st = Some (Inr h, st')"
      by (rule AllocHandle_loop_total [OF assms(1)]) (fact assms(2) d(2) d(1))+
    then obtain h st' where r: "AllocHandle can_alloc fuel st = Some (Inr h, st')"
      unfolding AllocHandle_def m by (elim exE)
    then show ?thesis using AllocHandle_loop_sound [OF assms(1) r [unfolded AllocHandle_def]] by simp
  qed
  then show ?thesis by blast
qed

text \<open>When memory runs out, \<open>AllocHandle\<close> either fails with \<open>NOMEM\<close> and the handles as they were, or
  has found a free handle all the same.
\<close>
theorem AllocHandle_sound:
  assumes "handles_ok st" "AllocHandle can_alloc fuel st = Some (r, st')"
  shows "handles_ok st' \<and>
    (case r of Inl e \<Rightarrow> e = NOMEM \<and> handle_map st' = handle_map st
     | Inr h \<Rightarrow> handle_ok h \<and> handle_map st h = None \<and> handle_map st' = (handle_map st)(h \<mapsto> None))"
  using AllocHandle_loop_sound [OF assms(1)] assms(2) by (simp add: AllocHandle_def)

lemma blocks_needed_same:
  "m_TopLevel s = m_TopLevel st \<Longrightarrow> m_NextHandle s = m_NextHandle st \<Longrightarrow>
     blocks_needed s (next_handle s) = blocks_needed st (next_handle st)"
  by (simp add: blocks_needed_def next_handle_def)

lemma AllocHandle_spins:
  assumes "handles_ok st" "m_CachedBlockCount st = 1" "blocks_needed st (next_handle st) = 2"
    and "\<And>n. n \<ge> m_Allocations st \<Longrightarrow> \<not> can_alloc n"
  shows "AllocHandle_loop can_alloc fuel need False st = None"
  using assms
proof (induction fuel arbitrary: st need)
  case (Suc fuel)
  let ?s1 = "if need then st\<lparr>m_Allocations := m_Allocations st + 1\<rparr> else st"
  have s1: "handles_ok ?s1" "m_CachedBlockCount ?s1 = 1" "m_TopLevel ?s1 = m_TopLevel st" "m_NextHandle ?s1 = m_NextHandle st"
    "m_Allocations ?s1 \<ge> m_Allocations st"
    using Suc.prems(1,2) by (auto simp: handles_ok_def reserved_ok_def GetHandleCount_def)
  have nh: "next_handle ?s1 = next_handle st" by (simp add: next_handle_def)
  have bn: "blocks_needed ?s1 g = blocks_needed st g" for g by (simp add: blocks_needed_def)
  note t = try_no_block [OF s1(1)]
  obtain s2 where s2: "AllocHandle_try ?s1 = (NoBlock, s2)" using t(1) s1(2) Suc.prems(3) nh bn by (cases "AllocHandle_try ?s1") simp
  let ?s3 = "s2\<lparr>m_NextHandle := m_NextHandle s2 - 1\<rparr>"
  have s3: "handles_ok ?s3" "m_CachedBlockCount ?s3 = 1" "m_TopLevel ?s3 = m_TopLevel st" "m_NextHandle ?s3 = m_NextHandle st"
    "m_Allocations ?s3 = m_Allocations ?s1"
    using t s2 s1 Suc.prems(3) nh bn by simp_all
  have "AllocHandle_loop can_alloc fuel True False ?s3 = None"
  proof (rule Suc.IH [OF s3(1,2)])
    show "blocks_needed ?s3 (next_handle ?s3) = 2"
      using Suc.prems(3) blocks_needed_same [OF s3(3,4)] by simp
    show "\<not> can_alloc n" if "n \<ge> m_Allocations ?s3" for n using Suc.prems(4) that s3(5) s1(5) by auto
  qed
  then show ?case using s2 Suc.prems(2) Suc.prems(4) [OF order_refl] by (cases need) (simp_all add: AllocBuffers_def)
qed simp

text \<open>
  C18. \<open>AllocHandle\<close> can spin for ever: when a new table gets one block from the allocator and no second one,
  \<open>AllocBuffers\<close> reports success because one block is cached, the two levels need two blocks, and the
  loop repeats with interrupts enabled only in between.
\<close>
theorem AllocHandle_livelock: "AllocHandle (\<lambda>n. n = 0) fuel KHandleArray_new = None"
proof (cases fuel)
  case (Suc n)
  let ?st = "KHandleArray_new :: 'a handle_array"
  have c: "m_CachedBlockCount ?st < blocks_needed ?st (next_handle ?st)"
    by (simp add: KHandleArray_new_def blocks_needed_def)
  note t = try_no_block [OF new_table(1) c]
  obtain s1 where s1: "AllocHandle_try ?st = (NoBlock, s1)" using t(1) by (cases "AllocHandle_try ?st") simp
  let ?s2 = "s1\<lparr>m_NextHandle := m_NextHandle s1 - 1\<rparr>"
  have s2: "handles_ok ?s2" "m_CachedBlockCount ?s2 = 0" "m_TopLevel ?s2 = m_TopLevel ?st" "m_NextHandle ?s2 = m_NextHandle ?st" "m_Allocations ?s2 = 0"
    using t s1 by (simp_all add: KHandleArray_new_def)
  have "AllocHandle_loop (\<lambda>n. n = 0) n True False ?s2 = None"
  proof (cases n)
    case (Suc m)
    let ?s3 = "(CacheBlock KHandleArrayBlock (?s2\<lparr>m_Allocations := 1\<rparr>))\<lparr>m_Allocations := 2\<rparr>"
    have r: "reserved_ok (?s2\<lparr>m_Allocations := 1\<rparr>)" using s2(1) by (simp add: handles_ok_def reserved_ok_def)
    have c3: "m_CachedBlockCount ?s3 = 1" using CacheBlock_count [OF r] s2(2) by simp
    have "reserved_ok ?s3" using CacheBlock_reserved [OF r] by (simp add: reserved_ok_def)
    then have ok3: "handles_ok ?s3" by (rule handles_ok_same(1) [OF s2(1)]) simp
    have spin: "AllocHandle_loop (\<lambda>n. n = 0) k False False ?s3 = None" for k
      by (rule AllocHandle_spins [OF ok3 c3]) (use s2(3,4) in \<open>simp_all add: blocks_needed_def next_handle_def KHandleArray_new_def\<close>)
    show ?thesis
    proof (cases m)
      case 0
      then show ?thesis unfolding Suc by (intro loop_buffers(2)) (use s2(2,5) c3 in \<open>simp_all add: AllocBuffers_def\<close>)
    next
      case (Suc l)
      have "AllocBuffers (\<lambda>n. n = 0) (Suc m) ?s2 = Some (True, ?s3)"
        using s2(2,5) c3 unfolding Suc by (simp add: AllocBuffers_def)
      from loop_buffers(1) [OF _ this] s2(2) show ?thesis unfolding \<open>n = Suc m\<close> by (simp only: spin)
    qed
  qed simp
  then show ?thesis using s1 unfolding Suc AllocHandle_def by simp
qed (simp add: AllocHandle_def)

section \<open>Walking over the handles\<close>

lemma times_Suc: "(x + 1) * 65536 = x * 65536 + (65536 :: int)" "(x + 1) * 256 = x * 256 + (256 :: int)"
  by simp_all

lemma index_bounds:
  "i < (int (index1 i) + 1) * 65536 \<or> i \<ge> 16777216"
  "i < int (index1 i) * 65536 + (int (index2 i) + 1) * 256 \<or> i \<ge> 16777216"
proof -
  have "i < (int (index1 i) + 1) * 65536 \<and> i < int (index1 i) * 65536 + (int (index2 i) + 1) * 256" if "i < 16777216"
  proof (cases "i \<ge> 0")
    case True
    have h: "i = int (index1 i) * 65536 + int (index2 i) * 256 + int (index3 i)" by (rule handle_split [OF True that])
    have b: "int (index2 i) \<le> 255" "int (index3 i) \<le> 255" using index_less(2,3) [of i] by linarith+
    have "i < (int (index1 i) + 1) * 65536" unfolding times_Suc using h b by linarith
    moreover have "i < int (index1 i) * 65536 + (int (index2 i) + 1) * 256" unfolding times_Suc using h b by linarith
    ultimately show ?thesis by blast
  next
    case False
    have "int (index1 i) \<ge> 0" "int (index2 i) \<ge> 0" by simp_all
    with False show ?thesis unfolding times_Suc by linarith
  qed
  then show "i < (int (index1 i) + 1) * 65536 \<or> i \<ge> 16777216"
    "i < int (index1 i) * 65536 + (int (index2 i) + 1) * 256 \<or> i \<ge> 16777216" by linarith+
qed

termination GetNext_loop
proof (relation "measure (\<lambda>(_, _, i). nat (16777216 - i))", goal_cases)
  case (2 delegate st i)
  then show ?case using index_bounds(1) [of i] by auto
next
  case (3 delegate st i)
  then show ?case using index_bounds(2) [of i] by auto
qed auto

declare GetNext_loop.simps [simp del]

definition selected :: "('a option \<Rightarrow> bool) \<Rightarrow> 'a handle_array \<Rightarrow> int \<Rightarrow> bool" where
  "selected delegate st g \<longleftrightarrow> (\<exists>ob. handle_map st g = Some ob \<and> delegate ob)"

lemma same_block_empty:
  assumes "block_entry (m_TopLevel st) (index1 i) = EmptyBlock" "0 \<le> i" "i \<le> g" "g < (int (index1 i) + 1) * 65536"
  shows "\<not> selected delegate st g"
proof (cases "handle_ok g")
  case True
  then have g: "0 \<le> g" "g < 16777216" by (simp_all add: handle_ok_def)
  have i: "0 \<le> i" "i < 16777216" using assms(2,3) g by simp_all
  note si = handle_split [OF i] and sg = handle_split [OF g]
  have "int (index2 i) \<ge> 0" "int (index3 i) \<ge> 0" "int (index2 g) \<le> 255" "int (index3 g) \<le> 255"
    "int (index2 g) \<ge> 0" "int (index3 g) \<ge> 0"
    using index_less(2,3) [of g] by linarith+
  then have "int (index1 g) \<le> int (index1 i)" "int (index1 i) \<le> int (index1 g)" using si sg assms(3,4) unfolding times_Suc by linarith+
  then have "index1 g = index1 i" by simp
  then show ?thesis using assms(1) by (simp add: selected_def handle_map_def slot_def)
qed (simp add: selected_def handle_map_def)

lemma same_block3_empty:
  assumes "block_entry (block_entry (m_TopLevel st) (index1 i)) (index2 i) = EmptyBlock" "0 \<le> i" "i \<le> g"
    and "g < int (index1 i) * 65536 + (int (index2 i) + 1) * 256"
  shows "\<not> selected delegate st g"
proof (cases "handle_ok g")
  case True
  then have g: "0 \<le> g" "g < 16777216" by (simp_all add: handle_ok_def)
  have i: "0 \<le> i" "i < 16777216" using assms(2,3) g by simp_all
  note si = handle_split [OF i] and sg = handle_split [OF g]
  have b: "int (index2 i) \<ge> 0" "int (index3 i) \<ge> 0" "int (index2 g) \<le> 255" "int (index3 g) \<le> 255"
    "int (index2 g) \<ge> 0" "int (index3 g) \<ge> 0" "int (index2 i) \<le> 255" "int (index3 i) \<le> 255"
    using index_less(2,3) [of g] index_less(2,3) [of i] by linarith+
  then have "int (index1 g) \<le> int (index1 i)" "int (index1 i) \<le> int (index1 g)" using si sg assms(3,4) unfolding times_Suc by linarith+
  then have "index1 g = index1 i" by simp
  moreover from this have "int (index2 g) \<le> int (index2 i)" "int (index2 i) \<le> int (index2 g)"
    using si sg assms(3,4) b unfolding times_Suc by linarith+
  ultimately show ?thesis using assms(1) by (simp add: selected_def handle_map_def slot_def)
qed (simp add: selected_def handle_map_def)

text \<open>\<open>first_selected\<close> is what the walk is meant to find from \<open>i\<close> on.\<close>

definition first_selected :: "('a option \<Rightarrow> bool) \<Rightarrow> 'a handle_array \<Rightarrow> int \<Rightarrow> 'a option \<Rightarrow> bool" where
  "first_selected delegate st i r \<longleftrightarrow>
     (\<exists>g\<ge>i. selected delegate st g \<and> (\<forall>g'. i \<le> g' \<and> g' < g \<longrightarrow> \<not> selected delegate st g') \<and> handle_map st g = Some r) \<or>
     (\<forall>g\<ge>i. \<not> selected delegate st g) \<and> r = None"

lemma first_selected_skip:
  assumes "\<And>g. i \<le> g \<Longrightarrow> g < j \<Longrightarrow> \<not> selected delegate st g" "i \<le> j" "first_selected delegate st j r"
  shows "first_selected delegate st i r"
proof -
  have lt: "j \<le> g" if "selected delegate st g" "i \<le> g" for g using assms(1) [of g] that by linarith
  from assms(3) show ?thesis unfolding first_selected_def
  proof (elim disjE exE conjE)
    fix g assume g: "j \<le> g" "selected delegate st g" "\<forall>g'. j \<le> g' \<and> g' < g \<longrightarrow> \<not> selected delegate st g'" "handle_map st g = Some r"
    then have "\<forall>g'. i \<le> g' \<and> g' < g \<longrightarrow> \<not> selected delegate st g'" using lt by blast
    then show "(\<exists>g\<ge>i. selected delegate st g \<and> (\<forall>g'. i \<le> g' \<and> g' < g \<longrightarrow> \<not> selected delegate st g') \<and> handle_map st g = Some r) \<or>
      (\<forall>g\<ge>i. \<not> selected delegate st g) \<and> r = None" using g assms(2) order_trans by blast
  qed (use lt in blast)
qed

lemma GetNext_loop_first:
  assumes "wf_top (m_TopLevel st)" "0 \<le> i"
  shows "first_selected delegate st i (GetNext_loop delegate st i)"
  using assms
proof (induction delegate st i rule: GetNext_loop.induct)
  case (1 delegate st i)
  let ?b2 = "block_entry (m_TopLevel st) (index1 i)" and ?b3 = "block_entry (block_entry (m_TopLevel st) (index1 i)) (index2 i)"
  have s: "slot (m_TopLevel st) i = block_entry ?b3 (index3 i)" by (simp add: slot_def)
  show ?case
  proof (cases "i \<le> 0xffffff")
    case False
    then have "\<not> selected delegate st g" if "g \<ge> i" for g using that by (simp add: selected_def handle_map_def handle_ok_def)
    then show ?thesis using False by (simp add: first_selected_def GetNext_loop.simps [of delegate st i])
  next
    case le: True
    have ib: "i < (int (index1 i) + 1) * 65536" "i < int (index1 i) * 65536 + (int (index2 i) + 1) * 256"
      using index_bounds [of i] le by linarith+
    have hi: "handle_ok i" using le "1.prems"(2) by (simp add: handle_ok_def)
    consider (b2) "?b2 = EmptyBlock" | (b3) "?b2 \<noteq> EmptyBlock" "?b3 = EmptyBlock"
      | (hit) "?b2 \<noteq> EmptyBlock" "?b3 \<noteq> EmptyBlock" "selected delegate st i"
      | (miss) "?b2 \<noteq> EmptyBlock" "?b3 \<noteq> EmptyBlock" "\<not> selected delegate st i" by blast
    then show ?thesis
    proof cases
      case b2
      have "first_selected delegate st ((int (index1 i) + 1) * 65536) (GetNext_loop delegate st ((int (index1 i) + 1) * 65536))"
        by (rule "1.IH"(1) [OF le refl refl refl refl b2 "1.prems"(1)]) simp
      from first_selected_skip [OF same_block_empty [OF b2 "1.prems"(2)] less_imp_le [OF ib(1)] this] show ?thesis
        using le b2 by (simp add: GetNext_loop.simps [of delegate st i] Let_def)
    next
      case b3
      have "first_selected delegate st (int (index1 i) * 65536 + (int (index2 i) + 1) * 256)
          (GetNext_loop delegate st (int (index1 i) * 65536 + (int (index2 i) + 1) * 256))"
        by (rule "1.IH"(2) [OF le refl refl refl refl b3(1) refl b3(2) "1.prems"(1)]) simp
      from first_selected_skip [OF same_block3_empty [OF b3(2) "1.prems"(2)] less_imp_le [OF ib(2)] this] show ?thesis
        using le b3 by (simp add: GetNext_loop.simps [of delegate st i] Let_def)
    next
      case hit
      have hm: "handle_map st i = Some (object_of (slot (m_TopLevel st) i))" "slot (m_TopLevel st) i \<noteq> EmptyBlock"
        "delegate (object_of (slot (m_TopLevel st) i))"
        using hit(3) by (auto simp: selected_def handle_map_def split: if_splits)
      have "GetNext_loop delegate st i = object_of (slot (m_TopLevel st) i)"
        using le hit(1,2) hm(2,3) by (simp add: GetNext_loop.simps [of delegate st i] Let_def s)
      then show ?thesis using hit(3) hm(1) by (auto simp: first_selected_def intro!: exI [of _ i])
    next
      case miss
      have n: "\<not> (slot (m_TopLevel st) i \<noteq> EmptyBlock \<and> delegate (object_of (slot (m_TopLevel st) i)))"
        using miss(3) hi by (auto simp: selected_def handle_map_def)
      have next1: "first_selected delegate st (i + 1) (GetNext_loop delegate st (i + 1))"
        by (rule "1.IH"(3) [OF le refl refl refl refl miss(1) refl miss(2) n [unfolded s] "1.prems"(1)]) (use "1.prems"(2) in simp)
      have skip1: "\<not> selected delegate st g" if "i \<le> g" "g < i + 1" for g
      proof -
        have "g = i" using that by linarith
        then show ?thesis using miss(3) by simp
      qed
      have "first_selected delegate st i (GetNext_loop delegate st (i + 1))"
        by (rule first_selected_skip [OF skip1 _ next1]) simp_all
      moreover have "GetNext_loop delegate st i = GetNext_loop delegate st (i + 1)"
        using le miss(1,2) n unfolding s by (subst GetNext_loop.simps) (simp only: Let_def if_True if_False simp_thms)
      ultimately show ?thesis by simp
    qed
  qed
qed

text \<open>
  \<open>GetNext\<close> returns the object of the first handle after the given one that is in use and accepted by the
  delegate, and the null pointer when there is none, although it skips missing blocks.
\<close>
theorem GetNext_first:
  assumes "handles_ok st" "-1 \<le> h"
  shows "(\<exists>g>h. handle_map st g = Some (GetNext h delegate st) \<and> delegate (GetNext h delegate st) \<and>
      (\<forall>g'. h < g' \<and> g' < g \<longrightarrow> \<not> (\<exists>ob. handle_map st g' = Some ob \<and> delegate ob))) \<or>
    (\<forall>g>h. \<not> (\<exists>ob. handle_map st g = Some ob \<and> delegate ob)) \<and> GetNext h delegate st = None"
proof -
  have "(if h \<noteq> -1 then h + 1 else 0) = h + 1" by simp
  then have "first_selected delegate st (h + 1) (GetNext h delegate st)"
    using GetNext_loop_first [of st "h + 1" delegate] assms unfolding GetNext_def by (simp add: handles_ok_def)
  moreover have "(h + 1 \<le> g) = (h < g)" for g by linarith
  ultimately have "(\<exists>g>h. selected delegate st g \<and> (\<forall>g'. h < g' \<and> g' < g \<longrightarrow> \<not> selected delegate st g') \<and>
      handle_map st g = Some (GetNext h delegate st)) \<or>
    (\<forall>g>h. \<not> selected delegate st g) \<and> GetNext h delegate st = None"
    by (simp only: first_selected_def)
  moreover have "delegate r" if "selected delegate st g" "handle_map st g = Some r" for g r
    using that by (simp add: selected_def)
  ultimately show ?thesis unfolding selected_def [symmetric] by blast
qed

section \<open>A concrete table\<close>

text \<open>Two handles of a new table, the second with an object.\<close>

definition example_table :: "nat handle_array" where
  "example_table =
     (let st = snd (AllocHandle_try (snd (AllocHandle_try (CacheBlock KHandleArrayBlock (CacheBlock KHandleArrayBlock KHandleArray_new)))))
      in Set 1 (Some 42) st)"

lemma example_table_facts:
  "handles_ok example_table" "handle_map example_table = [0 \<mapsto> None, 1 \<mapsto> Some 42]"
proof -
  let ?n = "KHandleArray_new :: nat handle_array"
  let ?s0 = "CacheBlock KHandleArrayBlock (CacheBlock KHandleArrayBlock ?n)"
  have r: "reserved_ok ?n" using new_table(1) [where ?'a = nat] by (simp add: handles_ok_def)
  have r1: "reserved_ok (CacheBlock KHandleArrayBlock ?n)" by (rule CacheBlock_reserved [OF r])
  have c1: "m_CachedBlockCount (CacheBlock KHandleArrayBlock ?n) = 1"
    using CacheBlock_count [OF r] by (simp add: KHandleArray_new_def)
  have c: "m_CachedBlockCount ?s0 = 2" using CacheBlock_count [OF r1] c1 by simp
  have h0: "handles_ok ?s0"
    by (rule handles_ok_same(1) [OF new_table(1) CacheBlock_reserved [OF r1]]) simp
  have n0: "next_handle ?s0 = 0" "handle_map ?s0 = Map.empty" by (simp_all add: next_handle_def KHandleArray_new_def [symmetric])
    (simp add: KHandleArray_new_def)
  have "slot (m_TopLevel ?s0) 0 = EmptyBlock" by (simp add: KHandleArray_new_def)
  moreover have "blocks_needed ?s0 0 \<le> m_CachedBlockCount ?s0" using c by (simp add: blocks_needed_def)
  ultimately have 1: "handles_ok (snd (AllocHandle_try ?s0))" "handle_map (snd (AllocHandle_try ?s0)) = [0 \<mapsto> None]"
    "m_NextHandle (snd (AllocHandle_try ?s0)) = 1"
    using try_alloc [OF h0] n0 by (simp_all add: KHandleArray_new_def)
  let ?s1 = "snd (AllocHandle_try ?s0)"
  have n1: "next_handle ?s1 = 1" by (simp add: next_handle_def 1(3))
  have e1: "slot (m_TopLevel ?s1) 1 = EmptyBlock"
    using fun_cong [OF 1(2), of 1] by (simp add: handle_map_def handle_ok_def split: if_splits)
  have u0: "slot (m_TopLevel ?s1) 0 \<noteq> EmptyBlock"
    using fun_cong [OF 1(2), of 0] by (simp add: handle_map_def handle_ok_def split: if_splits)
  have i: "index1 1 = index1 0" "index2 1 = index2 0" by (simp_all add: index1_def index2_def)
  have b: "blocks_needed ?s1 1 = 0"
    using u0 i by (auto simp: blocks_needed_def slot_def)
  have 2: "handles_ok (snd (AllocHandle_try ?s1))" "handle_map (snd (AllocHandle_try ?s1)) = [0 \<mapsto> None, 1 \<mapsto> None]"
    using try_alloc [OF 1(1)] n1 e1 b reserved_ok_count 1 by (auto simp: handles_ok_def)
  show "handles_ok example_table" "handle_map example_table = [0 \<mapsto> None, 1 \<mapsto> Some 42]"
    using handle_table_is_map [OF 2(1), of 1 "Some 42"] 2(2) by (simp_all add: example_table_def handle_ok_def)
qed

theorem handle_table_is_map_witness:
  "Get 1 example_table = Some 42 \<and> fst (FreeHandle_trw 1 example_table) = Inr () \<and>
   handle_map (snd (FreeHandle_trw 1 example_table)) = [0 \<mapsto> None] \<and> GetHandleCount example_table = 2"
  using handle_table_is_map [OF example_table_facts(1), of 1 None] example_table_facts(2)
  by (simp add: handle_ok_def fun_eq_iff)

theorem AllocHandle_total_witness:
  "\<exists>N. \<forall>fuel\<ge>N. \<exists>h st'. AllocHandle (\<lambda>_. True) fuel example_table = Some (Inr h, st') \<and> handle_map st' = [0 \<mapsto> None, 1 \<mapsto> Some 42, h \<mapsto> None]"
proof -
  have "GetHandleCount example_table = 2"
    using example_table_facts by (simp add: handles_ok_def)
  then have "\<exists>N. \<forall>fuel\<ge>N. \<exists>h st'. AllocHandle (\<lambda>_. True) fuel example_table = Some (Inr h, st') \<and> handles_ok st' \<and> handle_ok h \<and>
      handle_map example_table h = None \<and> handle_map st' = (handle_map example_table)(h \<mapsto> None)"
    by (intro AllocHandle_total [OF example_table_facts(1)]) simp_all
  then show ?thesis unfolding example_table_facts(2) by blast
qed

lemma out_of_memory_example:
  obtains st' where "AllocHandle (\<lambda>_. False) 2 (KHandleArray_new :: nat handle_array) = Some (Inl NOMEM, st')"
proof -
  let ?st = "KHandleArray_new :: nat handle_array"
  have c: "m_CachedBlockCount ?st < blocks_needed ?st (next_handle ?st)"
    by (simp add: KHandleArray_new_def blocks_needed_def)
  note t = try_no_block [OF new_table(1) c]
  obtain s1 where s1: "AllocHandle_try ?st = (NoBlock, s1)" using t(1) by (cases "AllocHandle_try ?st") simp
  let ?s2 = "s1\<lparr>m_NextHandle := m_NextHandle s1 - 1, m_Allocations := m_Allocations s1 + 1\<rparr>"
  have s2: "handles_ok ?s2" "m_CachedBlockCount ?s2 = 0"
    using t(2,3,5) s1 by (simp_all add: handles_ok_def reserved_ok_def GetHandleCount_def KHandleArray_new_def)
  have "blocks_needed ?s2 (next_handle ?s2) = 2"
    using blocks_needed_same [of ?s2 ?st] t(4,6) s1 by (simp add: blocks_needed_def KHandleArray_new_def)
  from try_no_block(1) [OF s2(1)] this s2(2) obtain s3 where "AllocHandle_try ?s2 = (NoBlock, s3)"
    by (cases "AllocHandle_try ?s2") simp
  then have "AllocHandle (\<lambda>_. False) (Suc (Suc 0)) ?st = Some (Inl NOMEM, s3)"
    using s1 s2(2) by (simp add: AllocHandle_def AllocBuffers_def)
  then show ?thesis using that by (simp add: numeral_2_eq_2)
qed

theorem AllocHandle_sound_witness:
  "\<exists>st'. AllocHandle (\<lambda>_. False) 2 (KHandleArray_new :: nat handle_array) = Some (Inl NOMEM, st') \<and> handle_map st' = Map.empty"
proof -
  obtain st' where a: "AllocHandle (\<lambda>_. False) 2 (KHandleArray_new :: nat handle_array) = Some (Inl NOMEM, st')"
    by (rule out_of_memory_example)
  from AllocHandle_sound [OF new_table(1) a] a show ?thesis by simp
qed

theorem GetNext_first_witness: "GetNext (-1) (\<lambda>ob. ob \<noteq> None) example_table = Some 42"
proof -
  let ?r = "GetNext (-1) (\<lambda>ob. ob \<noteq> None) example_table"
  have m: "handle_map example_table g = Some r \<Longrightarrow> r \<noteq> None \<Longrightarrow> r = Some 42" for g r
    by (simp add: example_table_facts(2) split: if_splits)
  have one: "handle_map example_table 1 = Some (Some 42)" by (simp add: example_table_facts(2))
  from GetNext_first [OF example_table_facts(1), of "-1" "\<lambda>ob. ob \<noteq> None"]
  consider g where "handle_map example_table g = Some ?r" "?r \<noteq> None"
    | "\<forall>g>-1. \<not> (\<exists>ob. handle_map example_table g = Some ob \<and> ob \<noteq> None)" by auto
  then show ?thesis
  proof cases
    case 1
    then show ?thesis by (rule m)
  next
    case 2
    then have "\<not> (\<exists>ob. handle_map example_table 1 = Some ob \<and> ob \<noteq> None)" by (rule allE [of _ 1]) simp
    then show ?thesis using one by simp
  qed
qed

end
