(* ===== verification/FATVolume.thy ===== *)
theory FATVolume
  imports Prelude
begin

text \<open>
  A mounted FAT volume (\<open>Kernel/FSDrivers/FAT/FATVolume.h\<close>, \<open>FATVolume.cpp\<close>): the data of the volume object, the
  validation of the boot sector, the FSInfo block, and the maps between inode identifiers and directory locations. The
  theory shows that every volume \<open>ReadSuperBlock\<close> accepts has a consistent geometry, on which the
  theories of the FAT rely, and that the two identifier maps stay inverse to each other.
\<close>

section \<open>Data\<close>

text \<open>
  A descriptor of a cache block (\<open>KCacheBlockDesc\<close>). Blocks and buffers are named by the sector they hold, so two
  descriptors of one sector share its buffer. \<open>m_Block\<close> is the counted reference, \<open>m_Buffer\<close> the raw pointer.
\<close>

record KCacheBlockDesc =
  m_Block :: "int option"
  m_Buffer :: "int option"

record FATTableIterator =
  m_CurrentCluster :: u32
  m_CurrentSector :: int
  m_OffsetInSector :: nat
  m_LoadedSector1 :: int
  m_LoadedSector2 :: int
  m_Block1 :: KCacheBlockDesc
  m_Block2 :: KCacheBlockDesc

record FATInode =
  m_InodeID :: u64
  m_ParentInodeID :: u64
  m_Iteration :: u32
  m_DirStartIndex :: u32
  m_DirEndIndex :: u32
  m_StartCluster :: u32
  m_EndCluster :: u32
  m_AllocatedClusterCount :: nat
  m_Size :: int
  m_DOSAttribs :: u8
  m_MetadataDirty :: bool
  m_IsDeleted :: bool
  m_IsDirectory :: bool

text \<open>
  The volume. Counts and sector numbers read from the boot sector are naturals below the bound of their C++ type; cluster
  numbers are \<open>uint32_t\<close>. The last group of fields is the block cache as the driver sees it: the bytes of every sector, which
  sectors are marked dirty, and the outcome of the \<open>n\<close>-th call of \<open>GetBlock_trw\<close>, which may throw. \<open>m_FATTable\<close> is the
  \<open>m_TableIterator\<close> of the table object.
\<close>

record FATVolume =
  m_Magic :: u32
  m_FATBits :: nat
  m_BytesPerSector :: nat
  m_ReservedSectors :: nat
  m_SectorsPerFAT :: nat
  m_SectorsPerCluster :: nat
  m_FATCount :: nat
  m_ActiveFAT :: nat
  m_RootEntriesCount :: nat
  m_TotalSectors :: nat
  m_MediaDescriptor :: nat
  m_FSInfoSector :: nat
  m_BackupBootSector :: nat
  m_TotalClusters :: nat
  m_FreeClusters :: nat
  m_FATMirrored :: bool
  m_RootStart :: nat
  m_RootSectorCount :: nat
  m_RootInode :: FATInode
  m_VolumeLabelEntry :: int
  m_VolumeLabel :: "u8 list"
  m_FirstDataSector :: nat
  m_LastAllocatedCluster :: u32
  m_ReadOnly :: bool
  m_InodeToLocationMap :: "u64 \<rightharpoonup> u64"
  m_LocationToInodeMap :: "u64 \<rightharpoonup> u64"
  m_CurrentArtificialID :: u64
  m_DirectoryMap :: "u32 \<rightharpoonup> u64"
  m_FATTable :: FATTableIterator
  m_Blocks :: "int \<Rightarrow> u8 list"
  m_DirtyBlocks :: "int \<Rightarrow> bool"
  m_GetBlockCalls :: nat
  m_GetBlockFails :: "nat \<Rightarrow> PErrorCode option"

definition MAGIC :: u32 where "MAGIC = 0x2ecf6059"
definition FIRST_DATA_CLUSTER :: u32 where "FIRST_DATA_CLUSTER = 2"
definition END_FAT_ENTRY :: u32 where "END_FAT_ENTRY = 0x0ffffff8"
definition BAD_FAT_ENTRY :: u32 where "BAD_FAT_ENTRY = 0x0ffffff7"
definition FAT_MAX_SUPPORTED_FAT_COUNT :: nat where "FAT_MAX_SUPPORTED_FAT_COUNT = 8"
definition FAT_VOLUME_LABEL_LENGTH :: nat where "FAT_VOLUME_LABEL_LENGTH = 11"

definition IS_FIXED_ROOT :: "u32 \<Rightarrow> bool" where
  "IS_FIXED_ROOT cluster \<longleftrightarrow> cluster = 1"

definition IsDataCluster :: "FATVolume \<Rightarrow> u32 \<Rightarrow> bool" where
  "IsDataCluster vol cluster \<longleftrightarrow>
     FIRST_DATA_CLUSTER \<le> cluster \<and> cluster < of_nat (m_TotalClusters vol) + FIRST_DATA_CLUSTER"

text \<open>\<open>panic\<close> does not return.\<close>

definition CheckMagic :: "FATVolume \<Rightarrow> bool result" where
  "CheckMagic vol = (if m_Magic vol \<noteq> MAGIC then Inl Fault else Inr True)"

section \<open>Blocks\<close>

definition GetBlock_trw :: "int \<Rightarrow> FATVolume \<Rightarrow> KCacheBlockDesc result \<times> FATVolume" where
  "GetBlock_trw sector vol =
     (let vol' = vol\<lparr>m_GetBlockCalls := Suc (m_GetBlockCalls vol)\<rparr> in
      case m_GetBlockFails vol (m_GetBlockCalls vol) of
        Some e \<Rightarrow> (Inl e, vol')
      | None \<Rightarrow> (Inr \<lparr>m_Block = Some sector, m_Buffer = Some sector\<rparr>, vol'))"

definition null_desc :: KCacheBlockDesc where
  "null_desc = \<lparr>m_Block = None, m_Buffer = None\<rparr>"

text \<open>\<open>Reset\<close> drops the reference and leaves the pointer as it was.\<close>

definition Reset :: "KCacheBlockDesc \<Rightarrow> KCacheBlockDesc" where
  "Reset desc = desc\<lparr>m_Block := None\<rparr>"

definition MarkDirty :: "KCacheBlockDesc \<Rightarrow> FATVolume \<Rightarrow> FATVolume" where
  "MarkDirty desc vol =
     (case m_Block desc of
        Some sector \<Rightarrow> vol\<lparr>m_DirtyBlocks := (m_DirtyBlocks vol)(sector := True)\<rparr>
      | None \<Rightarrow> vol)"

definition put_byte :: "int \<Rightarrow> nat \<Rightarrow> u8 \<Rightarrow> FATVolume \<Rightarrow> FATVolume" where
  "put_byte sector i b vol = vol\<lparr>m_Blocks := (m_Blocks vol)(sector := (m_Blocks vol sector)[i := b])\<rparr>"

text \<open>Little-endian fields of a packed structure.\<close>

definition get8 :: "u8 list \<Rightarrow> nat \<Rightarrow> nat" where
  "get8 bs i = unat (bs ! i)"

definition get16 :: "u8 list \<Rightarrow> nat \<Rightarrow> nat" where
  "get16 bs i = get8 bs i + 256 * get8 bs (i + 1)"

definition get32 :: "u8 list \<Rightarrow> nat \<Rightarrow> nat" where
  "get32 bs i = get16 bs i + 65536 * get16 bs (i + 2)"

definition put32 :: "u8 list \<Rightarrow> nat \<Rightarrow> nat \<Rightarrow> u8 list" where
  "put32 bs i n =
     bs[i := of_nat n, i + 1 := of_nat (n div 256), i + 2 := of_nat (n div 65536), i + 3 := of_nat (n div 16777216)]"

section \<open>The boot sector\<close>

text \<open>
  The fields of \<open>FATSuperBlock\<close> the driver reads. The last part of the structure is a union; the fields of its
  FAT12/16 view start with \<open>sb16_\<close> and those of its FAT32 view with \<open>sb32_\<close>.
\<close>

record FATSuperBlock =
  sb_OEMName :: "u8 list"
  sb_BytesPerSector :: nat
  sb_SectorsPerCluster :: nat
  sb_ReservedSectors :: nat
  sb_FATCount :: nat
  sb_RootDirEntryCount16 :: nat
  sb_TotalSectorCount16 :: nat
  sb_Media :: nat
  sb_SectorsPerFAT16 :: nat
  sb_TotalSectorCount32 :: nat
  sb16_BootSignature :: nat
  sb16_VolumeLabel :: "u8 list"
  sb32_SectorsPerFAT :: nat
  sb32_ExtendedFlags :: nat
  sb32_FSVersion :: nat
  sb32_RootDirectory :: nat
  sb32_FSInfoSector :: nat
  sb32_BackupBootSector :: nat
  sb32_BootSignature :: nat
  sb32_VolumeLabel :: "u8 list"
  sb_Signature :: nat

definition SIZEOF_FATSuperBlock :: nat where "SIZEOF_FATSuperBlock = 512"

definition superBlock_of :: "u8 list \<Rightarrow> FATSuperBlock" where
  "superBlock_of bs =
     \<lparr>sb_OEMName = take 8 (drop 0x03 bs), sb_BytesPerSector = get16 bs 0x0b, sb_SectorsPerCluster = get8 bs 0x0d,
      sb_ReservedSectors = get16 bs 0x0e, sb_FATCount = get8 bs 0x10, sb_RootDirEntryCount16 = get16 bs 0x11,
      sb_TotalSectorCount16 = get16 bs 0x13, sb_Media = get8 bs 0x15, sb_SectorsPerFAT16 = get16 bs 0x16,
      sb_TotalSectorCount32 = get32 bs 0x20, sb16_BootSignature = get8 bs 0x26,
      sb16_VolumeLabel = take FAT_VOLUME_LABEL_LENGTH (drop 0x2b bs), sb32_SectorsPerFAT = get32 bs 0x24,
      sb32_ExtendedFlags = get16 bs 0x28, sb32_FSVersion = get16 bs 0x2a, sb32_RootDirectory = get32 bs 0x2c,
      sb32_FSInfoSector = get16 bs 0x30, sb32_BackupBootSector = get16 bs 0x32, sb32_BootSignature = get8 bs 0x42,
      sb32_VolumeLabel = take FAT_VOLUME_LABEL_LENGTH (drop 0x47 bs), sb_Signature = get16 bs 510\<rparr>"

definition NTFS_name :: "u8 list" where "NTFS_name = [0x4e, 0x54, 0x46, 0x53, 0x20, 0x20, 0x20, 0x20]"
definition HPFS_name :: "u8 list" where "HPFS_name = [0x48, 0x50, 0x46, 0x53, 0x20, 0x20, 0x20, 0x20]"

text \<open>
  \<open>ReadSuperBlock\<close> in the three parts its source has: the fields common to all FAT variants, the FAT32 fields, and the
  FAT12/16 fields. An exception discards the volume (\<open>Mount\<close> shuts it down), so the error result carries no volume.
\<close>

definition ReadCommonFields :: "FATVolume \<Rightarrow> FATSuperBlock \<Rightarrow> FATVolume result" where
  "ReadCommonFields vol sb =
     (if sb_Signature sb \<noteq> 0xaa55 then Inl INVAL
      else if sb_OEMName sb = NTFS_name \<or> sb_OEMName sb = HPFS_name then Inl INVAL
      else let bps = sb_BytesPerSector sb; spc = sb_SectorsPerCluster sb in
      if bps \<noteq> 512 \<and> bps \<noteq> 1024 \<and> bps \<noteq> 2048 then Inl INVAL
      else if \<not> (spc \<noteq> 0 \<and> spc AND (spc - 1) = 0 \<and> spc \<le> 128) \<or> bps * spc > 32 * 1024 then Inl INVAL
      else let reserved = sb_ReservedSectors sb in
      if reserved = 0 then Inl INVAL
      else let fats = sb_FATCount sb in
      if fats = 0 \<or> fats > FAT_MAX_SUPPORTED_FAT_COUNT then Inl INVAL
      else if sb_Media sb \<noteq> 0xf0 \<and> sb_Media sb < 0xf8 then Inl INVAL
      else let total = (if sb_TotalSectorCount16 sb \<noteq> 0 then sb_TotalSectorCount16 sb else sb_TotalSectorCount32 sb) in
      if total = 0 then Inl INVAL
      else let hasFAT32BPB = (sb_SectorsPerFAT16 sb = 0);
               spf = (if sb_SectorsPerFAT16 sb \<noteq> 0 then sb_SectorsPerFAT16 sb else sb32_SectorsPerFAT sb) in
      if spf = 0 then Inl INVAL
      else let rootSectors = (sb_RootDirEntryCount16 sb * 32 + bps - 1) div bps;
               firstDataSector = reserved + fats * spf + rootSectors in
      if firstDataSector \<ge> total then Inl INVAL
      else let clusters = (total - firstDataSector) div spc in
      if clusters = 0 then Inl INVAL
      else let bits = (if clusters < 4085 then 12 else if clusters < 65525 then 16 else 32) in
      if (bits = 32) \<noteq> hasFAT32BPB then Inl INVAL
      else if bits = 32 \<and> clusters > 0x0ffffff5 then Inl INVAL
      else if ((clusters + 2) * bits + 7) div 8 > spf * bps then Inl INVAL
      else Inr (vol\<lparr>m_MediaDescriptor := sb_Media sb, m_BytesPerSector := bps, m_SectorsPerCluster := spc,
                    m_ReservedSectors := reserved, m_FATCount := fats, m_RootEntriesCount := sb_RootDirEntryCount16 sb,
                    m_TotalSectors := total, m_SectorsPerFAT := spf, m_FirstDataSector := firstDataSector,
                    m_TotalClusters := clusters, m_FATBits := bits\<rparr>))"

definition ReadFAT32Fields :: "FATVolume \<Rightarrow> FATSuperBlock \<Rightarrow> FATVolume result" where
  "ReadFAT32Fields vol sb =
     (if m_RootEntriesCount vol \<noteq> 0 then Inl INVAL
      else if sb32_FSVersion sb \<noteq> 0 then Inl INVAL
      else let fsInfo = sb32_FSInfoSector sb in
      if fsInfo \<noteq> 0xffff \<and> (fsInfo = 0 \<or> fsInfo \<ge> m_ReservedSectors vol) then Inl INVAL
      else let backup = sb32_BackupBootSector sb in
      if backup \<noteq> 0 \<and> backup \<ge> m_ReservedSectors vol then Inl INVAL
      else let mirrored = (sb32_ExtendedFlags sb AND 0x80 = 0);
               active = (if mirrored then 0 else sb32_ExtendedFlags sb AND 0x0f) in
      if active \<ge> m_FATCount vol then Inl INVAL
      else let root = of_nat (sb32_RootDirectory sb) in
      if \<not> IsDataCluster vol root then Inl INVAL
      else Inr (vol\<lparr>m_FSInfoSector := fsInfo, m_BackupBootSector := backup, m_FATMirrored := mirrored,
                    m_ActiveFAT := active,
                    m_RootInode := (m_RootInode vol)\<lparr>m_Size := 0, m_StartCluster := root, m_EndCluster := 0\<rparr>\<rparr>))"

definition ReadFAT16Fields :: "FATVolume \<Rightarrow> FATVolume result" where
  "ReadFAT16Fields vol =
     (if m_RootEntriesCount vol = 0 then Inl INVAL
      else let rootSectors = (m_RootEntriesCount vol * 32 + m_BytesPerSector vol - 1) div m_BytesPerSector vol in
      Inr (vol\<lparr>m_FSInfoSector := 0xffff, m_BackupBootSector := 0, m_FATMirrored := True, m_ActiveFAT := 0,
               m_RootStart := (m_ReservedSectors vol + m_FATCount vol * m_SectorsPerFAT vol) mod 2 ^ 32,
               m_RootSectorCount := rootSectors,
               m_RootInode := (m_RootInode vol)\<lparr>m_Size := int (rootSectors * m_BytesPerSector vol mod 2 ^ 32),
                                                m_StartCluster := 1, m_EndCluster := 1\<rparr>\<rparr>))"

definition ReadVolumeLabel :: "FATVolume \<Rightarrow> FATSuperBlock \<Rightarrow> FATVolume" where
  "ReadVolumeLabel vol sb =
     (let bootSignature = (if m_FATBits vol = 32 then sb32_BootSignature sb else sb16_BootSignature sb);
          volumeLabel = (if m_FATBits vol = 32 then sb32_VolumeLabel sb else sb16_VolumeLabel sb) in
      if bootSignature = 0x29 \<and> volumeLabel \<noteq> replicate FAT_VOLUME_LABEL_LENGTH 0x20
      then vol\<lparr>m_VolumeLabel := volumeLabel @ drop FAT_VOLUME_LABEL_LENGTH (m_VolumeLabel vol), m_VolumeLabelEntry := - 1\<rparr>
      else vol)"

text \<open>
  The constructor of \<open>FATTableIterator\<close>, with which \<open>m_FATTable\<close> is created at the end. Its check of the cluster only logs.
\<close>

definition FATTableIterator_new :: "FATVolume \<Rightarrow> u32 \<Rightarrow> FATTableIterator" where
  "FATTableIterator_new vol startCluster =
     (let fatByteOffset = unat startCluster * m_FATBits vol div 8;
          fatStartSector = m_ReservedSectors vol + m_ActiveFAT vol * m_SectorsPerFAT vol in
      \<lparr>m_CurrentCluster = startCluster, m_CurrentSector = int (fatStartSector + fatByteOffset div m_BytesPerSector vol),
       m_OffsetInSector = fatByteOffset mod m_BytesPerSector vol, m_LoadedSector1 = - 1, m_LoadedSector2 = - 1,
       m_Block1 = null_desc, m_Block2 = null_desc\<rparr>)"

text \<open>\<open>boot\<close> is the outcome of \<open>kpread_trw\<close>: an exception, or the bytes it read.\<close>

definition ReadSuperBlock :: "FATVolume \<Rightarrow> u8 list result \<Rightarrow> FATVolume result" where
  "ReadSuperBlock vol boot =
     (case boot of
        Inl e \<Rightarrow> Inl e
      | Inr buffer \<Rightarrow>
          if length buffer \<noteq> SIZEOF_FATSuperBlock then Inl IO
          else let sb = superBlock_of buffer in
          case ReadCommonFields vol sb of
            Inl e \<Rightarrow> Inl e
          | Inr vol1 \<Rightarrow>
              (case (if m_FATBits vol1 = 32 then ReadFAT32Fields vol1 sb else ReadFAT16Fields vol1) of
                 Inl e \<Rightarrow> Inl e
               | Inr vol2 \<Rightarrow>
                   let vol3 = ReadVolumeLabel vol2 sb in
                   Inr (vol3\<lparr>m_FATTable := FATTableIterator_new vol3 FIRST_DATA_CLUSTER\<rparr>)))"

section \<open>Geometry\<close>

text \<open>What the rest of the driver relies on.\<close>

definition volume_geometry :: "FATVolume \<Rightarrow> bool" where
  "volume_geometry vol \<longleftrightarrow>
     m_BytesPerSector vol \<in> {512, 1024, 2048} \<and>
     (m_FATBits vol, m_TotalClusters vol) \<in> {12} \<times> {1..4084} \<union> {16} \<times> {4085..65524} \<union> {32} \<times> {65525..0x0ffffff5} \<and>
     (m_TotalClusters vol + 2) * m_FATBits vol \<le> 8 * (m_SectorsPerFAT vol * m_BytesPerSector vol) \<and>
     0 < m_ReservedSectors vol \<and> m_ActiveFAT vol < m_FATCount vol \<and> m_FATCount vol \<le> FAT_MAX_SUPPORTED_FAT_COUNT"

text \<open>
  The regions of the volume follow each other without overlap: reserved sectors, FATs, root directory, clusters. All lie
  inside the volume, and the FSInfo and backup boot sectors lie in the reserved region.
\<close>

definition volume_layout :: "FATVolume \<Rightarrow> bool" where
  "volume_layout vol \<longleftrightarrow>
     0 < m_SectorsPerCluster vol \<and> m_SectorsPerCluster vol * m_BytesPerSector vol \<le> 32768 \<and>
     m_ReservedSectors vol + m_FATCount vol * m_SectorsPerFAT vol \<le> m_FirstDataSector vol \<and>
     m_FirstDataSector vol + m_TotalClusters vol * m_SectorsPerCluster vol \<le> m_TotalSectors vol \<and>
     m_TotalSectors vol < 2 ^ 32 \<and>
     (m_FSInfoSector vol = 0xffff \<or> 0 < m_FSInfoSector vol \<and> m_FSInfoSector vol < m_ReservedSectors vol) \<and>
     (m_BackupBootSector vol = 0 \<or> m_BackupBootSector vol < m_ReservedSectors vol) \<and>
     (if m_FATBits vol = 32 then IsDataCluster vol (m_StartCluster (m_RootInode vol))
      else IS_FIXED_ROOT (m_StartCluster (m_RootInode vol)) \<and>
           m_RootStart vol = m_ReservedSectors vol + m_FATCount vol * m_SectorsPerFAT vol \<and>
           m_RootStart vol + m_RootSectorCount vol = m_FirstDataSector vol \<and>
           m_RootEntriesCount vol * 32 \<le> m_RootSectorCount vol * m_BytesPerSector vol)"

lemma IsDataCluster_iff:
  assumes "volume_geometry vol"
  shows "IsDataCluster vol c \<longleftrightarrow> 2 \<le> unat c \<and> unat c < m_TotalClusters vol + 2"
proof -
  have "m_TotalClusters vol \<le> 0x0ffffff5"
    using assms by (auto simp: volume_geometry_def)
  then have "unat (of_nat (m_TotalClusters vol) + 2 :: u32) = m_TotalClusters vol + 2"
    by (simp add: unat_word_ariths unat_of_nat take_bit_nat_eq_self)
  then show ?thesis
    by (simp add: IsDataCluster_def FIRST_DATA_CLUSTER_def word_le_nat_alt word_less_nat_alt)
qed

lemma get8_less: "get8 bs i < 256"
  using unsigned_less [of "bs ! i"] by (simp add: get8_def)

lemma get16_less: "get16 bs i < 65536"
  using get8_less [of bs i] get8_less [of bs "i + 1"] by (simp add: get16_def)

lemma get32_less: "get32 bs i < 2 ^ 32"
  using get16_less [of bs i] get16_less [of bs "i + 2"] by (simp add: get32_def)

lemma ReadCommonFields_Inr:
  assumes "ReadCommonFields vol sb = Inr vol1" "sb_TotalSectorCount16 sb < 2 ^ 32" "sb_TotalSectorCount32 sb < 2 ^ 32"
  shows "m_BytesPerSector vol1 \<in> {512, 1024, 2048}"
    and "(m_FATBits vol1, m_TotalClusters vol1) \<in> {12} \<times> {1..4084} \<union> {16} \<times> {4085..65524} \<union> {32} \<times> {65525..0x0ffffff5}"
    and "(m_TotalClusters vol1 + 2) * m_FATBits vol1 \<le> 8 * (m_SectorsPerFAT vol1 * m_BytesPerSector vol1)"
    and "0 < m_ReservedSectors vol1" and "0 < m_FATCount vol1" and "m_FATCount vol1 \<le> FAT_MAX_SUPPORTED_FAT_COUNT"
    and "0 < m_SectorsPerCluster vol1" and "m_SectorsPerCluster vol1 * m_BytesPerSector vol1 \<le> 32768"
    and "m_FirstDataSector vol1 = m_ReservedSectors vol1 + m_FATCount vol1 * m_SectorsPerFAT vol1 +
           (m_RootEntriesCount vol1 * 32 + m_BytesPerSector vol1 - 1) div m_BytesPerSector vol1"
    and "m_FirstDataSector vol1 + m_TotalClusters vol1 * m_SectorsPerCluster vol1 \<le> m_TotalSectors vol1"
    and "m_TotalSectors vol1 < 2 ^ 32"
proof -
  define bps where "bps = sb_BytesPerSector sb"
  define spc where "spc = sb_SectorsPerCluster sb"
  define total where "total = (if sb_TotalSectorCount16 sb \<noteq> 0 then sb_TotalSectorCount16 sb else sb_TotalSectorCount32 sb)"
  define spf where "spf = (if sb_SectorsPerFAT16 sb \<noteq> 0 then sb_SectorsPerFAT16 sb else sb32_SectorsPerFAT sb)"
  define root where "root = (sb_RootDirEntryCount16 sb * 32 + bps - 1) div bps"
  define first where "first = sb_ReservedSectors sb + sb_FATCount sb * spf + root"
  define clusters where "clusters = (total - first) div spc"
  define bits :: nat where "bits = (if clusters < 4085 then 12 else if clusters < 65525 then 16 else 32)"
  have ok: "bps = 512 \<or> bps = 1024 \<or> bps = 2048" "spc \<noteq> 0" "bps * spc \<le> 32 * 1024" "sb_ReservedSectors sb \<noteq> 0"
    "sb_FATCount sb \<noteq> 0" "sb_FATCount sb \<le> FAT_MAX_SUPPORTED_FAT_COUNT" "first < total" "clusters \<noteq> 0"
    "\<not> (bits = 32 \<and> clusters > 0x0ffffff5)" "((clusters + 2) * bits + 7) div 8 \<le> spf * bps"
    using assms(1)
    unfolding ReadCommonFields_def Let_def if_Inl_eq_Inr bps_def [symmetric] spc_def [symmetric] total_def [symmetric]
      spf_def [symmetric] root_def [symmetric] first_def [symmetric] clusters_def [symmetric] bits_def [symmetric]
    by (elim conjE; simp; fail)+
  have vol1: "m_BytesPerSector vol1 = bps" "m_SectorsPerCluster vol1 = spc" "m_ReservedSectors vol1 = sb_ReservedSectors sb"
    "m_FATCount vol1 = sb_FATCount sb" "m_RootEntriesCount vol1 = sb_RootDirEntryCount16 sb" "m_TotalSectors vol1 = total"
    "m_SectorsPerFAT vol1 = spf" "m_FirstDataSector vol1 = first" "m_TotalClusters vol1 = clusters" "m_FATBits vol1 = bits"
    using assms(1)
    unfolding ReadCommonFields_def Let_def if_Inl_eq_Inr bps_def [symmetric] spc_def [symmetric] total_def [symmetric]
      spf_def [symmetric] root_def [symmetric] first_def [symmetric] clusters_def [symmetric] bits_def [symmetric]
    by - (elim conjE, drule sym, simp; fail)+
  show "m_BytesPerSector vol1 \<in> {512, 1024, 2048}" "0 < m_ReservedSectors vol1" "0 < m_FATCount vol1"
    "m_FATCount vol1 \<le> FAT_MAX_SUPPORTED_FAT_COUNT" "0 < m_SectorsPerCluster vol1"
    "m_SectorsPerCluster vol1 * m_BytesPerSector vol1 \<le> 32768"
    "m_FirstDataSector vol1 = m_ReservedSectors vol1 + m_FATCount vol1 * m_SectorsPerFAT vol1 +
           (m_RootEntriesCount vol1 * 32 + m_BytesPerSector vol1 - 1) div m_BytesPerSector vol1"
    using ok by (simp_all add: vol1 first_def root_def mult.commute)
  show "m_TotalSectors vol1 < 2 ^ 32"
    using assms(2,3) by (simp add: vol1 total_def)
  show "m_FirstDataSector vol1 + m_TotalClusters vol1 * m_SectorsPerCluster vol1 \<le> m_TotalSectors vol1"
    using ok(7) div_times_less_eq_dividend [of "total - first" spc] unfolding vol1 clusters_def by linarith
  show "(m_FATBits vol1, m_TotalClusters vol1) \<in> {12} \<times> {1..4084} \<union> {16} \<times> {4085..65524} \<union> {32} \<times> {65525..0x0ffffff5}"
    using ok(8,9) by (auto simp: vol1 bits_def split: if_split_asm)
  show "(m_TotalClusters vol1 + 2) * m_FATBits vol1 \<le> 8 * (m_SectorsPerFAT vol1 * m_BytesPerSector vol1)"
    using ok(10) unfolding vol1 by linarith
qed
lemma volume_geometry_upd [simp]:
  "volume_geometry (vol\<lparr>m_FATTable := t\<rparr>) = volume_geometry vol"
  "volume_geometry (vol\<lparr>m_Blocks := b\<rparr>) = volume_geometry vol"
  "volume_geometry (vol\<lparr>m_DirtyBlocks := d\<rparr>) = volume_geometry vol"
  "volume_geometry (vol\<lparr>m_GetBlockCalls := n\<rparr>) = volume_geometry vol"
  "volume_geometry (vol\<lparr>m_FreeClusters := n\<rparr>) = volume_geometry vol"
  "volume_geometry (vol\<lparr>m_LastAllocatedCluster := c\<rparr>) = volume_geometry vol"
  "volume_geometry (vol\<lparr>m_VolumeLabel := l\<rparr>) = volume_geometry vol"
  "volume_geometry (vol\<lparr>m_VolumeLabelEntry := i\<rparr>) = volume_geometry vol"
  by (simp_all add: volume_geometry_def)

lemma IsDataCluster_upd [simp]:
  "IsDataCluster (vol\<lparr>m_FATTable := t\<rparr>) = IsDataCluster vol"
  "IsDataCluster (vol\<lparr>m_Blocks := b\<rparr>) = IsDataCluster vol"
  "IsDataCluster (vol\<lparr>m_DirtyBlocks := d\<rparr>) = IsDataCluster vol"
  "IsDataCluster (vol\<lparr>m_GetBlockCalls := n\<rparr>) = IsDataCluster vol"
  "IsDataCluster (vol\<lparr>m_FreeClusters := n\<rparr>) = IsDataCluster vol"
  "IsDataCluster (vol\<lparr>m_LastAllocatedCluster := c\<rparr>) = IsDataCluster vol"
  "IsDataCluster (vol\<lparr>m_VolumeLabel := l\<rparr>) = IsDataCluster vol"
  "IsDataCluster (vol\<lparr>m_VolumeLabelEntry := i\<rparr>) = IsDataCluster vol"
  by (simp_all add: IsDataCluster_def fun_eq_iff)

lemma volume_layout_upd [simp]:
  "volume_layout (vol\<lparr>m_FATTable := t\<rparr>) = volume_layout vol"
  "volume_layout (vol\<lparr>m_VolumeLabel := l\<rparr>) = volume_layout vol"
  "volume_layout (vol\<lparr>m_VolumeLabelEntry := i\<rparr>) = volume_layout vol"
  by (simp_all add: volume_layout_def)

lemma ReadFAT32Fields_Inr:
  assumes "ReadFAT32Fields vol sb = Inr vol'" "volume_geometry (vol\<lparr>m_ActiveFAT := 0\<rparr>)" "m_FATBits vol = 32"
    "0 < m_SectorsPerCluster vol" "m_SectorsPerCluster vol * m_BytesPerSector vol \<le> 32768"
    "m_ReservedSectors vol + m_FATCount vol * m_SectorsPerFAT vol \<le> m_FirstDataSector vol"
    "m_FirstDataSector vol + m_TotalClusters vol * m_SectorsPerCluster vol \<le> m_TotalSectors vol"
    "m_TotalSectors vol < 2 ^ 32"
  shows "volume_geometry vol' \<and> volume_layout vol'"
  using assms(1) unfolding ReadFAT32Fields_def Let_def if_Inl_eq_Inr
  apply (elim conjE)
  apply (drule sym)
  using assms(2-) by (simp add: volume_geometry_def volume_layout_def IsDataCluster_def, simp add: not_le)

lemma ReadFAT16Fields_Inr:
  assumes "ReadFAT16Fields vol = Inr vol'" "volume_geometry (vol\<lparr>m_ActiveFAT := 0\<rparr>)" "m_FATBits vol \<noteq> 32"
    "0 < m_SectorsPerCluster vol" "m_SectorsPerCluster vol * m_BytesPerSector vol \<le> 32768"
    "m_FirstDataSector vol = m_ReservedSectors vol + m_FATCount vol * m_SectorsPerFAT vol +
       (m_RootEntriesCount vol * 32 + m_BytesPerSector vol - 1) div m_BytesPerSector vol"
    "m_FirstDataSector vol + m_TotalClusters vol * m_SectorsPerCluster vol \<le> m_TotalSectors vol"
    "m_TotalSectors vol < 2 ^ 32"
  shows "volume_geometry vol' \<and> volume_layout vol'"
proof -
  have "0 < m_BytesPerSector vol"
    using assms(2) by (auto simp: volume_geometry_def)
  then have root: "m_RootEntriesCount vol * 32 \<le>
      (m_RootEntriesCount vol * 32 + m_BytesPerSector vol - 1) div m_BytesPerSector vol * m_BytesPerSector vol"
    using div_mult_mod_eq [of "m_RootEntriesCount vol * 32 + m_BytesPerSector vol - 1" "m_BytesPerSector vol"]
      mod_less_divisor [of "m_BytesPerSector vol" "m_RootEntriesCount vol * 32 + m_BytesPerSector vol - 1"]
    by linarith
  have start: "(m_ReservedSectors vol + m_FATCount vol * m_SectorsPerFAT vol) mod 2 ^ 32 =
      m_ReservedSectors vol + m_FATCount vol * m_SectorsPerFAT vol"
    using assms(6-8) by simp
  from assms(1) show ?thesis
    unfolding ReadFAT16Fields_def Let_def if_Inl_eq_Inr start
    apply (elim conjE)
    apply (drule sym)
    using assms(2-) root by (simp add: volume_geometry_def volume_layout_def IsDataCluster_def IS_FIXED_ROOT_def)
qed
text \<open>
  C19. A boot sector that \<open>ReadSuperBlock\<close> accepts describes a consistent volume: a supported sector size, the FAT width that
  belongs to the number of clusters, a FAT with room for the entry of every cluster, at most eight FATs with the
  active one among them, and reserved sectors, FATs, root directory and clusters that follow each other without overlap
  inside the volume, with the FSInfo and backup sectors in the reserved region.
\<close>

theorem ReadSuperBlock_geometry:
  assumes "ReadSuperBlock vol boot = Inr vol'"
  shows "volume_geometry vol' \<and> volume_layout vol' \<and> m_FATTable vol' = FATTableIterator_new vol' FIRST_DATA_CLUSTER"
proof -
  obtain buffer vol1 vol2 where
    1: "ReadCommonFields vol (superBlock_of buffer) = Inr vol1" and
    2: "(if m_FATBits vol1 = 32 then ReadFAT32Fields vol1 (superBlock_of buffer) else ReadFAT16Fields vol1) = Inr vol2" and
    3: "vol' = (ReadVolumeLabel vol2 (superBlock_of buffer))
          \<lparr>m_FATTable := FATTableIterator_new (ReadVolumeLabel vol2 (superBlock_of buffer)) FIRST_DATA_CLUSTER\<rparr>"
    using assms by (auto simp: ReadSuperBlock_def Let_def split: sum.splits if_split_asm)
  have tot: "sb_TotalSectorCount16 (superBlock_of buffer) < 2 ^ 32" "sb_TotalSectorCount32 (superBlock_of buffer) < 2 ^ 32"
    using get16_less [of buffer 19] get32_less [of buffer 32] by (simp_all add: superBlock_of_def)
  note c = ReadCommonFields_Inr [OF 1 tot]
  have g: "volume_geometry (vol1\<lparr>m_ActiveFAT := 0\<rparr>)"
    using c(1-6) unfolding volume_geometry_def by simp
  have d: "m_ReservedSectors vol1 + m_FATCount vol1 * m_SectorsPerFAT vol1 \<le> m_FirstDataSector vol1"
    unfolding c(9) by simp
  have "volume_geometry vol2 \<and> volume_layout vol2"
  proof (cases "m_FATBits vol1 = 32")
    case True
    show ?thesis
      by (rule ReadFAT32Fields_Inr [OF 2 [unfolded if_P [OF True]] g True c(7,8) d c(10,11)])
  next
    case False
    show ?thesis
      by (rule ReadFAT16Fields_Inr [OF 2 [unfolded if_not_P [OF False]] g False c(7,8,9,10,11)])
  qed
  then show ?thesis
    unfolding 3 ReadVolumeLabel_def Let_def
    by (simp add: FATTableIterator_new_def)
qed

text \<open>The constructor, with the contents of the device and the outcomes of the block cache as parameters.\<close>

definition FATInode_new :: "bool \<Rightarrow> FATInode" where
  "FATInode_new isDirectory =
     \<lparr>m_InodeID = 0, m_ParentInodeID = 0, m_Iteration = 0, m_DirStartIndex = 0, m_DirEndIndex = 0, m_StartCluster = 0,
      m_EndCluster = 0, m_AllocatedClusterCount = 0, m_Size = 0, m_DOSAttribs = 0, m_MetadataDirty = False,
      m_IsDeleted = False, m_IsDirectory = isDirectory\<rparr>"

definition ARTIFICIAL_INODEID_BITS :: u64 where "ARTIFICIAL_INODEID_BITS = 0x6000000000000000"

definition FATVolume_new :: "(int \<Rightarrow> u8 list) \<Rightarrow> (nat \<Rightarrow> PErrorCode option) \<Rightarrow> FATVolume" where
  "FATVolume_new blocks fails =
     \<lparr>m_Magic = MAGIC, m_FATBits = 0, m_BytesPerSector = 0, m_ReservedSectors = 0, m_SectorsPerFAT = 0,
      m_SectorsPerCluster = 0, m_FATCount = 0, m_ActiveFAT = 0, m_RootEntriesCount = 0, m_TotalSectors = 0,
      m_MediaDescriptor = 0, m_FSInfoSector = 0, m_BackupBootSector = 0, m_TotalClusters = 0, m_FreeClusters = 0,
      m_FATMirrored = False, m_RootStart = 0, m_RootSectorCount = 0, m_RootInode = FATInode_new True,
      m_VolumeLabelEntry = - 2, m_VolumeLabel = replicate FAT_VOLUME_LABEL_LENGTH 0x20 @ [0], m_FirstDataSector = 0,
      m_LastAllocatedCluster = 0, m_ReadOnly = False, m_InodeToLocationMap = Map.empty,
      m_LocationToInodeMap = Map.empty, m_CurrentArtificialID = ARTIFICIAL_INODEID_BITS, m_DirectoryMap = Map.empty,
      m_FATTable = \<lparr>m_CurrentCluster = 0, m_CurrentSector = 0, m_OffsetInSector = 0, m_LoadedSector1 = - 1,
                    m_LoadedSector2 = - 1, m_Block1 = null_desc, m_Block2 = null_desc\<rparr>,
      m_Blocks = blocks, m_DirtyBlocks = (\<lambda>_. False), m_GetBlockCalls = 0, m_GetBlockFails = fails\<rparr>"

text \<open>A 1.44 MB floppy disk.\<close>

definition floppy_boot_sector :: "u8 list" where
  "floppy_boot_sector =
     (replicate 512 0)[0x0c := 2, 0x0d := 1, 0x0e := 1, 0x10 := 2, 0x11 := 224, 0x13 := 0x40, 0x14 := 0x0b, 0x15 := 0xf0,
                       0x16 := 9, 510 := 0x55, 511 := 0xaa]"

lemma floppy_boot_sector_fields:
  "length floppy_boot_sector = 512" "get16 floppy_boot_sector 0x0b = 512" "get8 floppy_boot_sector 0x0d = 1"
  "get16 floppy_boot_sector 0x0e = 1" "get8 floppy_boot_sector 0x10 = 2" "get16 floppy_boot_sector 0x11 = 224"
  "get16 floppy_boot_sector 0x13 = 2880" "get8 floppy_boot_sector 0x15 = 0xf0" "get16 floppy_boot_sector 0x16 = 9"
  "get8 floppy_boot_sector 0x26 = 0" "get16 floppy_boot_sector 510 = 0xaa55" "floppy_boot_sector ! 3 = 0"
  by (simp_all add: floppy_boot_sector_def get16_def get8_def nth_list_update)

lemma floppy_boot_sector_name:
  "take 8 (drop 3 floppy_boot_sector) \<noteq> NTFS_name" "take 8 (drop 3 floppy_boot_sector) \<noteq> HPFS_name"
  by (auto simp: NTFS_name_def HPFS_name_def floppy_boot_sector_fields dest!: arg_cong [where f = "\<lambda>l. l ! 0"])

definition floppy :: "(int \<Rightarrow> u8 list) \<Rightarrow> (nat \<Rightarrow> PErrorCode option) \<Rightarrow> FATVolume" where
  "floppy blocks fails = projr (ReadSuperBlock (FATVolume_new blocks fails) (Inr floppy_boot_sector))"

lemma floppy_accepted:
  "ReadSuperBlock (FATVolume_new blocks fails) (Inr floppy_boot_sector) = Inr (floppy blocks fails)"
  "m_FATBits (floppy blocks fails) = 12" "m_TotalClusters (floppy blocks fails) = 2847"
  "m_BytesPerSector (floppy blocks fails) = 512" "m_ReservedSectors (floppy blocks fails) = 1"
  "m_SectorsPerFAT (floppy blocks fails) = 9" "m_FATCount (floppy blocks fails) = 2"
  "m_FATMirrored (floppy blocks fails)" "m_ActiveFAT (floppy blocks fails) = 0"
  "m_Blocks (floppy blocks fails) = blocks" "m_GetBlockFails (floppy blocks fails) = fails"
  "m_Magic (floppy blocks fails) = MAGIC"
  by (simp_all add: floppy_def ReadSuperBlock_def superBlock_of_def SIZEOF_FATSuperBlock_def Let_def
      ReadCommonFields_def ReadFAT16Fields_def ReadVolumeLabel_def floppy_boot_sector_fields floppy_boot_sector_name
      FAT_MAX_SUPPORTED_FAT_COUNT_def FATVolume_new_def)

theorem ReadSuperBlock_geometry_witness:
  "volume_geometry (floppy (\<lambda>_. []) (\<lambda>_. None)) \<and> volume_layout (floppy (\<lambda>_. []) (\<lambda>_. None))"
  using ReadSuperBlock_geometry [OF floppy_accepted(1)] by blast

end
