(* ===== verification/FATInodeMaps.thy ===== *)
theory FATInodeMaps
  imports FATVolume
begin

text \<open>
  Inode identifiers of a FAT volume and where their directory entries are (\<open>FATVolume.cpp\<close>, \<open>FATInode.h\<close>). An
  identifier normally encodes its location; a file that moves keeps its identifier and the pair of maps
  \<open>m_InodeToLocationMap\<close> and \<open>m_LocationToInodeMap\<close> translates. The theory shows that the two maps stay inverse to each other
  and that an update is done completely or not at all, whatever fails.
\<close>

section \<open>Identifiers\<close>

definition DIR_CLUSTER_INODEID_BITS :: u64 where "DIR_CLUSTER_INODEID_BITS = 0x4000000000000000"
definition DIR_INDEX_INODEID_BITS :: u64 where "DIR_INDEX_INODEID_BITS = 0"
definition INVALID_INODEID_BITS_MASK :: u64 where "INVALID_INODEID_BITS_MASK = 0x9000000000000000"

definition IS_DIR_CLUSTER_INODEID :: "u64 \<Rightarrow> bool" where
  "IS_DIR_CLUSTER_INODEID i \<longleftrightarrow> i AND ARTIFICIAL_INODEID_BITS = DIR_CLUSTER_INODEID_BITS"

definition IS_DIR_INDEX_INODEID :: "u64 \<Rightarrow> bool" where
  "IS_DIR_INDEX_INODEID i \<longleftrightarrow> i AND ARTIFICIAL_INODEID_BITS = DIR_INDEX_INODEID_BITS"

definition IS_ARTIFICIAL_INODEID :: "u64 \<Rightarrow> bool" where
  "IS_ARTIFICIAL_INODEID i \<longleftrightarrow> i AND ARTIFICIAL_INODEID_BITS = ARTIFICIAL_INODEID_BITS"

definition IS_INVALID_INODEID :: "u64 \<Rightarrow> bool" where
  "IS_INVALID_INODEID i \<longleftrightarrow>
     \<not> IS_DIR_CLUSTER_INODEID i \<and> \<not> IS_DIR_INDEX_INODEID i \<and> \<not> IS_ARTIFICIAL_INODEID i \<or>
     i AND INVALID_INODEID_BITS_MASK \<noteq> 0"

text \<open>\<open>ino_t\<close> and \<open>uint32_t\<close> arguments are both promoted to 64 bits.\<close>

definition GENERATE_DIR_INDEX_INODEID :: "u64 \<Rightarrow> u32 \<Rightarrow> u64" where
  "GENERATE_DIR_INDEX_INODEID dircluster index =
     DIR_INDEX_INODEID_BITS OR push_bit 32 dircluster OR ucast index"

definition GENERATE_DIR_CLUSTER_INODEID :: "u64 \<Rightarrow> u32 \<Rightarrow> u64" where
  "GENERATE_DIR_CLUSTER_INODEID dircluster filecluster =
     DIR_CLUSTER_INODEID_BITS OR push_bit 32 dircluster OR ucast filecluster"

definition CLUSTER_OF_DIR_CLUSTER_INODEID :: "u64 \<Rightarrow> u32" where
  "CLUSTER_OF_DIR_CLUSTER_INODEID i = ucast (i AND 0xffffffff)"

definition INDEX_OF_DIR_INDEX_INODEID :: "u64 \<Rightarrow> u32" where
  "INDEX_OF_DIR_INDEX_INODEID i = ucast (i AND 0xffffffff)"

text \<open>\<open>(id >> 32) & ~0xf0000000\<close>: the mask is a 32-bit complement, widened with zeros, since the constant is unsigned.\<close>

definition DIR_OF_INODEID :: "u64 \<Rightarrow> u32" where
  "DIR_OF_INODEID i = ucast (drop_bit 32 i AND ucast (NOT (0xf0000000 :: u32)))"

section \<open>The maps\<close>

text \<open>
  \<open>m_InodeToLocationMap\<close> maps an identifier to the location of its entry; the identifier stored in the entry is the key
  it is inserted under. \<open>m_LocationToInodeMap\<close> holds pointers to entries of the first map, modelled by the key of the entry.
  \<open>alloc n\<close> tells whether the \<open>n\<close>-th allocation of a map node by the call succeeds; \<open>std::map\<close> throws otherwise and leaves
  the map as it was.
\<close>

definition SetInodeIDToLocationIDMapping ::
  "(nat \<Rightarrow> bool) \<Rightarrow> u64 \<Rightarrow> u64 \<Rightarrow> FATVolume \<Rightarrow> unit result \<times> FATVolume"
where
  "SetInodeIDToLocationIDMapping alloc inodeID locationID vol =
     (case m_InodeToLocationMap vol inodeID of
        Some oldLocation \<Rightarrow>
          if m_LocationToInodeMap vol oldLocation \<noteq> Some inodeID then (Inl IO, vol)
          else if locationID \<noteq> oldLocation then
            if m_LocationToInodeMap vol locationID \<noteq> None then (Inl IO, vol)
            else if inodeID \<noteq> locationID then
              if \<not> alloc 0 then (Inl NOMEM, vol)
              else (Inr (), vol\<lparr>m_InodeToLocationMap := (m_InodeToLocationMap vol)(inodeID \<mapsto> locationID),
                            m_LocationToInodeMap :=
                              ((m_LocationToInodeMap vol)(locationID \<mapsto> inodeID))(oldLocation := None)\<rparr>)
            else (Inr (), vol\<lparr>m_InodeToLocationMap := (m_InodeToLocationMap vol)(inodeID := None),
                          m_LocationToInodeMap := (m_LocationToInodeMap vol)(oldLocation := None)\<rparr>)
          else (Inr (), vol)
      | None \<Rightarrow>
          if m_LocationToInodeMap vol locationID \<noteq> None then (Inl IO, vol)
          else if inodeID \<noteq> locationID then
            if \<not> alloc 0 then (Inl NOMEM, vol)
            else let vol1 = vol\<lparr>m_InodeToLocationMap := (m_InodeToLocationMap vol)(inodeID \<mapsto> locationID)\<rparr> in
            if \<not> alloc 1 then (Inl NOMEM, vol1\<lparr>m_InodeToLocationMap := (m_InodeToLocationMap vol1)(inodeID := None)\<rparr>)
            else (Inr (), vol1\<lparr>m_LocationToInodeMap := (m_LocationToInodeMap vol1)(locationID \<mapsto> inodeID)\<rparr>)
          else (Inr (), vol))"

definition RemoveInodeIDToLocationIDMapping :: "u64 \<Rightarrow> FATVolume \<Rightarrow> bool \<times> FATVolume" where
  "RemoveInodeIDToLocationIDMapping inodeID vol =
     (case m_InodeToLocationMap vol inodeID of
        Some location \<Rightarrow>
          let vol1 = (if m_LocationToInodeMap vol location = Some inodeID
                      then vol\<lparr>m_LocationToInodeMap := (m_LocationToInodeMap vol)(location := None)\<rparr> else vol) in
          (True, vol1\<lparr>m_InodeToLocationMap := (m_InodeToLocationMap vol1)(inodeID := None)\<rparr>)
      | None \<Rightarrow> (False, vol))"

definition GetInodeIDToLocationIDMapping :: "u64 \<Rightarrow> FATVolume \<Rightarrow> u64 option" where
  "GetInodeIDToLocationIDMapping inodeID vol = m_InodeToLocationMap vol inodeID"

text \<open>The result is read through the pointer: \<open>i->second->m_InodeID\<close>.\<close>

definition GetLocationIDToInodeIDMapping :: "u64 \<Rightarrow> FATVolume \<Rightarrow> u64 option result" where
  "GetLocationIDToInodeIDMapping locationID vol =
     (case m_LocationToInodeMap vol locationID of
        Some key \<Rightarrow> if m_InodeToLocationMap vol key = None then Inl Fault else Inr (Some key)
      | None \<Rightarrow> Inr None)"

definition HasInodeIDToLocationIDMapping :: "u64 \<Rightarrow> FATVolume \<Rightarrow> bool" where
  "HasInodeIDToLocationIDMapping inodeID vol \<longleftrightarrow> m_InodeToLocationMap vol inodeID \<noteq> None"

definition HasLocationIDToInodeIDMapping :: "u64 \<Rightarrow> FATVolume \<Rightarrow> bool" where
  "HasLocationIDToInodeIDMapping locationID vol \<longleftrightarrow> m_LocationToInodeMap vol locationID \<noteq> None"

definition AllocUniqueInodeID :: "FATVolume \<Rightarrow> u64 \<times> FATVolume" where
  "AllocUniqueInodeID vol =
     (m_CurrentArtificialID vol, vol\<lparr>m_CurrentArtificialID := m_CurrentArtificialID vol + 1\<rparr>)"

text \<open>Directories by their first cluster.\<close>

definition directory_mapping_valid :: "FATVolume \<Rightarrow> u32 \<Rightarrow> u64 \<Rightarrow> bool" where
  "directory_mapping_valid vol startCluster inodeID \<longleftrightarrow>
     \<not> (\<not> IsDataCluster vol startCluster \<and> \<not> IS_FIXED_ROOT startCluster \<or> \<not> IS_DIR_CLUSTER_INODEID inodeID \<or>
        inodeID = 0 \<or> CLUSTER_OF_DIR_CLUSTER_INODEID inodeID \<noteq> startCluster)"

definition AddDirectoryMapping :: "u32 \<Rightarrow> u64 \<Rightarrow> FATVolume \<Rightarrow> bool \<times> FATVolume" where
  "AddDirectoryMapping startCluster inodeID vol =
     (if \<not> directory_mapping_valid vol startCluster inodeID then (False, vol)
      else case m_DirectoryMap vol startCluster of
        None \<Rightarrow> (True, vol\<lparr>m_DirectoryMap := (m_DirectoryMap vol)(startCluster \<mapsto> inodeID)\<rparr>)
      | Some other \<Rightarrow> if other \<noteq> inodeID then (False, vol) else (True, vol))"

definition RemoveDirectoryMapping :: "u32 \<Rightarrow> u64 \<Rightarrow> FATVolume \<Rightarrow> bool \<times> FATVolume" where
  "RemoveDirectoryMapping startCluster inodeID vol =
     (if \<not> directory_mapping_valid vol startCluster inodeID then (False, vol)
      else if m_DirectoryMap vol startCluster = Some inodeID
      then (True, vol\<lparr>m_DirectoryMap := (m_DirectoryMap vol)(startCluster := None)\<rparr>)
      else (False, vol))"

definition GetDirectoryMapping :: "u32 \<Rightarrow> FATVolume \<Rightarrow> u64" where
  "GetDirectoryMapping startCluster vol =
     (case m_DirectoryMap vol startCluster of Some inodeID \<Rightarrow> inodeID | None \<Rightarrow> - 1)"

section \<open>The maps are inverse to each other\<close>

definition inode_maps_ok :: "FATVolume \<Rightarrow> bool" where
  "inode_maps_ok vol \<longleftrightarrow>
     (\<forall>i l. m_InodeToLocationMap vol i = Some l \<longleftrightarrow> m_LocationToInodeMap vol l = Some i) \<and>
     (\<forall>i. m_InodeToLocationMap vol i \<noteq> Some i)"

text \<open>Where an inode is: the maps hold only the inodes that are not where their identifier says.\<close>

definition location_of :: "FATVolume \<Rightarrow> u64 \<Rightarrow> u64" where
  "location_of vol i = (case m_InodeToLocationMap vol i of Some l \<Rightarrow> l | None \<Rightarrow> i)"

lemma inode_maps_okD:
  assumes "inode_maps_ok vol"
  shows "m_InodeToLocationMap vol i = Some l \<longleftrightarrow> m_LocationToInodeMap vol l = Some i" "m_InodeToLocationMap vol i \<noteq> Some i"
  using assms by (auto simp: inode_maps_ok_def)

text \<open>
  C20. Whatever fails, \<open>SetInodeIDToLocationIDMapping\<close> keeps the two maps inverse to each other. If it returns, the inode is at
  its new location and no other inode moved; if it throws, nothing changed, and it throws \<open>IO\<close> exactly when another inode is
  mapped to the new location.
\<close>

theorem inode_maps_update:
  assumes "inode_maps_ok vol" "SetInodeIDToLocationIDMapping alloc inodeID locationID vol = (r, vol')"
  shows "inode_maps_ok vol' \<and>
    (case r of
       Inr _ \<Rightarrow> location_of vol' = (location_of vol)(inodeID := locationID) \<and>
                m_LocationToInodeMap vol locationID \<in> {None, Some inodeID}
     | Inl e \<Rightarrow> vol' = vol \<and> (e = IO \<longleftrightarrow> m_LocationToInodeMap vol locationID \<notin> {None, Some inodeID}))"
proof -
  note maps = inode_maps_okD [OF assms(1)]
  note set = assms(2) [unfolded SetInodeIDToLocationIDMapping_def Let_def]
  let ?effect = "case r of
       Inr _ \<Rightarrow> location_of vol' = (location_of vol)(inodeID := locationID) \<and>
                m_LocationToInodeMap vol locationID \<in> {None, Some inodeID}
     | Inl e \<Rightarrow> vol' = vol \<and> (e = IO \<longleftrightarrow> m_LocationToInodeMap vol locationID \<notin> {None, Some inodeID})"
  have "inode_maps_ok vol' \<and> ?effect"
  proof (cases "m_InodeToLocationMap vol inodeID")
    case None
    then have unmapped: "m_LocationToInodeMap vol l \<noteq> Some inodeID" for l
      by (simp flip: maps(1))
    note set = set [unfolded None option.case]
    from set maps None unmapped have "inode_maps_ok vol'"
      by (auto simp: inode_maps_ok_def split: if_split_asm)
    moreover from set None unmapped have ?effect
      by (auto simp: location_of_def fun_eq_iff split: if_split_asm)
    ultimately show ?thesis ..
  next
    case (Some old)
    then have rev: "m_LocationToInodeMap vol old = Some inodeID"
      and unique: "m_LocationToInodeMap vol l = Some i \<Longrightarrow> i = inodeID \<Longrightarrow> l = old" for l i
      by (auto simp flip: maps(1))
    note set = set [unfolded Some option.case]
    from set maps rev have "inode_maps_ok vol'"
      by (auto simp: inode_maps_ok_def dest: unique split: if_split_asm)
    moreover have "m_LocationToInodeMap vol locationID \<noteq> Some inodeID" if "locationID \<noteq> old"
      using that unique by blast
    with set Some rev have ?effect
      by (auto simp: location_of_def fun_eq_iff split: if_split_asm)
    ultimately show ?thesis ..
  qed
  then show ?thesis .
qed

definition volume_example :: FATVolume where "volume_example = floppy (\<lambda>_. []) (\<lambda>_. None)"

lemma volume_example_maps: "inode_maps_ok (volume_example\<lparr>m_InodeToLocationMap := [9 \<mapsto> 4], m_LocationToInodeMap := [4 \<mapsto> 9]\<rparr>)"
  by (simp add: inode_maps_ok_def)

theorem inode_maps_update_witness:
  "inode_maps_ok (snd (SetInodeIDToLocationIDMapping (\<lambda>_. True) 9 5
     (volume_example\<lparr>m_InodeToLocationMap := [9 \<mapsto> 4], m_LocationToInodeMap := [4 \<mapsto> 9]\<rparr>)))"
  using inode_maps_update [OF volume_example_maps surjective_pairing, of "\<lambda>_. True" 9 5] by simp
text \<open>Removal brings the inode back to the location its identifier names, and lookups never follow a stale pointer.\<close>

lemma inode_maps_remove:
  assumes "inode_maps_ok vol" "RemoveInodeIDToLocationIDMapping inodeID vol = (r, vol')"
  shows "inode_maps_ok vol'" "location_of vol' = (location_of vol)(inodeID := inodeID)"
    "r = HasInodeIDToLocationIDMapping inodeID vol"
proof -
  note maps = inode_maps_okD [OF assms(1)]
  note remove = assms(2) [unfolded RemoveInodeIDToLocationIDMapping_def Let_def]
  show "inode_maps_ok vol'"
  proof (cases "m_InodeToLocationMap vol inodeID")
    case None
    then show ?thesis
      using remove assms(1) by simp
  next
    case (Some location)
    then have rev: "m_LocationToInodeMap vol location = Some inodeID"
      and unique: "m_LocationToInodeMap vol l = Some inodeID \<Longrightarrow> l = location" for l
      by (auto simp flip: maps(1))
    from remove [unfolded Some option.case] maps rev show ?thesis
      by (auto simp: inode_maps_ok_def dest: unique split: if_split_asm)
  qed
  show "location_of vol' = (location_of vol)(inodeID := inodeID)" "r = HasInodeIDToLocationIDMapping inodeID vol"
    using remove by (auto simp: location_of_def HasInodeIDToLocationIDMapping_def fun_eq_iff
        split: if_split_asm option.splits)
qed

lemma inode_maps_lookup:
  assumes "inode_maps_ok vol"
  shows "GetLocationIDToInodeIDMapping l vol = Inr (m_LocationToInodeMap vol l)"
proof (cases "m_LocationToInodeMap vol l")
  case (Some i)
  then have "m_InodeToLocationMap vol i = Some l"
    by (simp add: inode_maps_okD [OF assms])
  with Some show ?thesis
    by (simp add: GetLocationIDToInodeIDMapping_def)
qed (simp add: GetLocationIDToInodeIDMapping_def)

section \<open>Identifiers encode locations\<close>

lemma inode_id_distinct:
  "DIR_CLUSTER_INODEID_BITS \<noteq> ARTIFICIAL_INODEID_BITS" "DIR_INDEX_INODEID_BITS \<noteq> ARTIFICIAL_INODEID_BITS"
  by (simp_all add: DIR_CLUSTER_INODEID_BITS_def ARTIFICIAL_INODEID_BITS_def DIR_INDEX_INODEID_BITS_def)

lemma bit_inode_id_constants:
  "bit DIR_CLUSTER_INODEID_BITS n \<longleftrightarrow> n = 62" "bit ARTIFICIAL_INODEID_BITS n \<longleftrightarrow> n = 61 \<or> n = 62"
  "bit INVALID_INODEID_BITS_MASK n \<longleftrightarrow> n = 60 \<or> n = 63"
proof -
  have c: "DIR_CLUSTER_INODEID_BITS = push_bit 62 1" "ARTIFICIAL_INODEID_BITS = push_bit 61 (mask 2)"
    "INVALID_INODEID_BITS_MASK = push_bit 63 1 OR push_bit 60 1"
    by (simp_all add: DIR_CLUSTER_INODEID_BITS_def ARTIFICIAL_INODEID_BITS_def INVALID_INODEID_BITS_MASK_def
        mask_eq_exp_minus_1 push_bit_eq_mult)
  show "bit DIR_CLUSTER_INODEID_BITS n \<longleftrightarrow> n = 62" "bit ARTIFICIAL_INODEID_BITS n \<longleftrightarrow> n = 61 \<or> n = 62"
    "bit INVALID_INODEID_BITS_MASK n \<longleftrightarrow> n = 60 \<or> n = 63"
    unfolding c by (simp_all only: bit_push_bit_iff bit_or_iff bit_1_iff bit_mask_iff possible_bit_word) auto
qed

lemma inode_id_masks:
  "x AND 0xffffffff = take_bit 32 (x :: u64)" "x AND ucast (NOT (0xf0000000 :: u32)) = take_bit 28 (x :: u64)"
  by (simp_all add: take_bit_eq_mask mask_eq_exp_minus_1)

lemmas inode_id_bits = bit_simps bit_inode_id_constants DIR_INDEX_INODEID_BITS_def GENERATE_DIR_CLUSTER_INODEID_def
  GENERATE_DIR_INDEX_INODEID_def

lemma bit_dir:
  fixes d :: u32
  assumes "unat d < 2 ^ 28" "bit d n"
  shows "n < 28"
proof (rule ccontr)
  assume "\<not> n < 28"
  then have "(2::nat) ^ 28 \<le> 2 ^ n"
    by (intro power_increasing) auto
  then have "unat d div 2 ^ n = 0"
    using assms(1) by (intro div_less) linarith
  moreover have "bit (unat d) n"
    using assms(2) by (simp add: bit_unsigned_iff bit_imp_le_length)
  ultimately show False
    by (simp add: bit_iff_odd)
qed

text \<open>
  The identifiers of directory entries encode and decode: directory cluster and file cluster or index are read
  back, and the identifier is of its kind and neither invalid nor artificial, for every directory cluster of a FAT volume.
\<close>

theorem inode_id_roundtrip:
  fixes dircluster filecluster index :: u32
  assumes "unat dircluster < 2 ^ 28"
  defines "c \<equiv> GENERATE_DIR_CLUSTER_INODEID (ucast dircluster) filecluster"
    and "i \<equiv> GENERATE_DIR_INDEX_INODEID (ucast dircluster) index"
  shows "IS_DIR_CLUSTER_INODEID c \<and> \<not> IS_INVALID_INODEID c \<and> \<not> IS_ARTIFICIAL_INODEID c \<and>
      DIR_OF_INODEID c = dircluster \<and> CLUSTER_OF_DIR_CLUSTER_INODEID c = filecluster \<and>
      IS_DIR_INDEX_INODEID i \<and> \<not> IS_INVALID_INODEID i \<and> \<not> IS_ARTIFICIAL_INODEID i \<and>
      DIR_OF_INODEID i = dircluster \<and> INDEX_OF_DIR_INDEX_INODEID i = index"
proof -
  note bit = bit_dir [OF assms(1)]
  have "CLUSTER_OF_DIR_CLUSTER_INODEID c = filecluster" "INDEX_OF_DIR_INDEX_INODEID i = index"
    unfolding CLUSTER_OF_DIR_CLUSTER_INODEID_def INDEX_OF_DIR_INDEX_INODEID_def inode_id_masks c_def i_def
    by (rule bit_word_eqI; auto simp: inode_id_bits)+
  moreover have "DIR_OF_INODEID c = dircluster" "DIR_OF_INODEID i = dircluster"
    unfolding DIR_OF_INODEID_def inode_id_masks c_def i_def
    by (rule bit_word_eqI; auto simp: inode_id_bits dest: bit bit_imp_le_length)+
  moreover have "c AND ARTIFICIAL_INODEID_BITS = DIR_CLUSTER_INODEID_BITS" "c AND INVALID_INODEID_BITS_MASK = 0"
    unfolding c_def by (rule bit_word_eqI; auto simp: inode_id_bits dest: bit bit_imp_le_length)+
  moreover have "i AND ARTIFICIAL_INODEID_BITS = DIR_INDEX_INODEID_BITS" "i AND INVALID_INODEID_BITS_MASK = 0"
    unfolding i_def by (rule bit_word_eqI; auto simp: inode_id_bits dest: bit bit_imp_le_length)+
  ultimately show ?thesis
    by (simp add: IS_DIR_CLUSTER_INODEID_def IS_DIR_INDEX_INODEID_def IS_INVALID_INODEID_def IS_ARTIFICIAL_INODEID_def
        inode_id_distinct)
qed

theorem inode_id_roundtrip_witness:
  "DIR_OF_INODEID (GENERATE_DIR_CLUSTER_INODEID (ucast (5 :: u32)) 7) = 5"
  using inode_id_roundtrip [of 5 7 0] by simp

end
