(* ===== verification/FATEntryCodec.thy ===== *)
theory FATEntryCodec
  imports Prelude
begin

text \<open>
  The file allocation table as an array of entries packed into bytes. The three FAT variants pack their entries differently but
  promise the same: entries are consecutive groups of bits of the table. The contract is the locale \<open>entry_codec\<close>; its
  interpretations are the decoding and encoding expressions of \<open>FATTableIterator.cpp\<close> for 12, 16 and 32 bits.
\<close>

section \<open>Bytes as a stream of bits\<close>

text \<open>Bit \<open>j\<close> of a table given by its bytes.\<close>

definition table_bit :: "(nat \<Rightarrow> u8) \<Rightarrow> nat \<Rightarrow> bool" where
  "table_bit F j \<longleftrightarrow> bit (F (j div 8)) (j mod 8)"

lemma table_bit_add: "table_bit F (8 * k + i) \<longleftrightarrow> bit (F (k + i div 8)) (i mod 8)"
  by (simp add: table_bit_def)

lemma table_bit_upd: "table_bit (F(k := b)) j \<longleftrightarrow> (if j div 8 = k then bit b (j mod 8) else table_bit F j)"
  by (simp add: table_bit_def)

definition byte_at :: "(nat \<Rightarrow> u8) \<Rightarrow> nat \<Rightarrow> u32" where
  "byte_at F k = ucast (F k)"

definition pair_at :: "(nat \<Rightarrow> u8) \<Rightarrow> nat \<Rightarrow> u32" where
  "pair_at F k = byte_at F k + 0x100 * byte_at F (k + 1)"

definition quad_at :: "(nat \<Rightarrow> u8) \<Rightarrow> nat \<Rightarrow> u32" where
  "quad_at F k = pair_at F k + 0x10000 * byte_at F (k + 2) + 0x1000000 * (byte_at F (k + 3) AND 0x0f)"

lemma bit_add_shifted:
  fixes a b :: "'a::len word"
  assumes "\<And>n. bit a n \<Longrightarrow> n < k"
  shows "bit (a + 2 ^ k * b) n \<longleftrightarrow> (if n < k then bit a n else n < LENGTH('a) \<and> bit b (n - k))"
proof -
  have "a AND push_bit k b = 0"
    by (intro bit_word_eqI) (auto simp: bit_simps dest!: assms)
  then have "a + 2 ^ k * b = a OR push_bit k b"
    by (simp add: push_bit_eq_mult mult.commute disjunctive_add_eq_or)
  then show ?thesis
    by (auto simp: bit_simps dest: assms bit_imp_le_length)
qed

lemma bit_u8: "bit (b :: u8) n \<Longrightarrow> n < 8"
  using bit_imp_le_length [of b n] by simp

lemma bit_byte_at: "bit (byte_at F k) n \<longleftrightarrow> bit (F k) n"
  by (auto simp: byte_at_def bit_simps dest: bit_u8)

lemma bit_low_nibble: "bit (w AND 0x0f :: u32) n \<longleftrightarrow> n < 4 \<and> bit w n"
proof -
  have "(0x0f :: u32) = mask 4"
    by (simp add: mask_eq_exp_minus_1)
  then show ?thesis
    by (metis bit_and_iff bit_mask_iff possible_bit_less_imp bit_imp_possible_bit)
qed

lemma bit_pair_at: "bit (pair_at F k) n \<longleftrightarrow> n < 16 \<and> table_bit F (8 * k + n)"
proof -
  have "bit (pair_at F k) n \<longleftrightarrow> (if n < 8 then bit (F k) n else n < 32 \<and> bit (F (k + 1)) (n - 8))"
    using bit_add_shifted [of "byte_at F k" 8 "byte_at F (k + 1)" n] by (simp add: pair_at_def bit_byte_at bit_u8)
  moreover have "n div 8 = 1" "n mod 8 = n - 8" if "8 \<le> n" "n < 16"
    using that by (auto simp: div_if mod_if)
  moreover have "n < 16" if "bit (F (k + 1)) (n - 8)"
    using bit_u8 [OF that] by simp
  ultimately show ?thesis
    by (auto simp: table_bit_add)
qed

lemma bit_quad_at: "bit (quad_at F k) n \<longleftrightarrow> n < 28 \<and> table_bit F (8 * k + n)"
proof -
  let ?t = "pair_at F k + 0x10000 * byte_at F (k + 2)"
  have t: "bit ?t n \<longleftrightarrow> (if n < 16 then bit (pair_at F k) n else n < 32 \<and> bit (F (k + 2)) (n - 16))" for n
    using bit_add_shifted [of "pair_at F k" 16 "byte_at F (k + 2)" n] by (simp add: bit_pair_at bit_byte_at)
  then have "bit ?t n \<Longrightarrow> n < 24" for n
    by (auto simp: bit_pair_at split: if_split_asm dest: bit_u8)
  from bit_add_shifted [of ?t 24 "byte_at F (k + 3) AND 0x0f" n, OF this]
  have "bit (quad_at F k) n \<longleftrightarrow> (if n < 24 then bit ?t n else n < 32 \<and> n - 24 < 4 \<and> bit (F (k + 3)) (n - 24))"
    by (simp add: quad_at_def bit_byte_at bit_low_nibble)
  moreover have "n div 8 = 2" "n mod 8 = n - 16" if "16 \<le> n" "n < 24"
    using that by (auto simp: div_if mod_if)
  moreover have "n div 8 = 3" "n mod 8 = n - 24" if "24 \<le> n" "n < 28"
    using that by (auto simp: div_if mod_if)
  ultimately show ?thesis
    using t [of n] by (auto simp: bit_pair_at table_bit_add simp del: add_2_eq_Suc')
qed

section \<open>The contract\<close>

text \<open>
  Entry \<open>c\<close> is the group of \<open>used\<close> bits at bit \<open>width * c\<close>. From this alone it follows that writing an entry changes this entry
  and no other.
\<close>

locale entry_codec =
  fixes width used :: nat
    and decode :: "(nat \<Rightarrow> u8) \<Rightarrow> nat \<Rightarrow> u32"
    and encode :: "(nat \<Rightarrow> u8) \<Rightarrow> nat \<Rightarrow> u32 \<Rightarrow> nat \<Rightarrow> u8"
  assumes used_le: "used \<le> width"
    and bit_decode: "bit (decode F c) n \<longleftrightarrow> n < used \<and> table_bit F (width * c + n)"
    and bit_encode: "table_bit (encode F c v) j \<longleftrightarrow>
      (if width * c \<le> j \<and> j < width * c + used then bit v (j - width * c) else table_bit F j)"
begin

lemma entry_disjoint:
  assumes "n < used" "c' \<noteq> c"
  shows "\<not> (width * c \<le> width * c' + n \<and> width * c' + n < width * c + used)"
proof (cases "c < c'")
  case True
  then have "width * c + width \<le> width * c'"
    by (metis Suc_leI mult.commute mult_Suc mult_le_mono1 add.commute)
  then show ?thesis
    using used_le by linarith
next
  case False
  then have "width * c' + width \<le> width * c"
    using assms(2) by (metis Suc_leI linorder_neqE_nat mult.commute mult_Suc mult_le_mono1 add.commute)
  then show ?thesis
    using used_le assms(1) by linarith
qed

lemma decode_encode:
  "decode (encode F c v) = (decode F)(c := take_bit used v)"
proof
  fix c'
  show "decode (encode F c v) c' = ((decode F)(c := take_bit used v)) c'"
    by (rule bit_word_eqI) (auto simp: bit_decode bit_encode bit_simps dest: entry_disjoint)
qed

lemma decode_cong:
  assumes "\<And>k. k < n \<Longrightarrow> F k = G k" "width * (c + 1) \<le> 8 * n"
  shows "decode F c = decode G c"
proof (rule bit_word_eqI)
  fix i
  have "(width * c + i) div 8 < n" if "i < used"
    using that used_le assms(2) by (simp add: div_less_iff_less_mult algebra_simps)
  then show "bit (decode F c) i \<longleftrightarrow> bit (decode G c) i"
    using assms(1) by (auto simp: bit_decode table_bit_def)
qed

lemma decode_bound: "unat (decode F c) < 2 ^ used"
proof -
  have "take_bit used (decode F c) = decode F c"
    by (rule bit_word_eqI) (simp add: bit_decode bit_take_bit_iff)
  then show ?thesis
    by (metis take_bit_nat_less_exp unsigned_take_bit_eq)
qed

end

section \<open>The three variants\<close>

text \<open>The value of an entry before the sign extension of the top values.\<close>

definition decode12 :: "(nat \<Rightarrow> u8) \<Rightarrow> nat \<Rightarrow> u32" where
  "decode12 F c =
     (let val = pair_at F (c * 12 div 8) in if odd c then drop_bit 4 val else val AND 0xfff)"

definition encode12 :: "(nat \<Rightarrow> u8) \<Rightarrow> nat \<Rightarrow> u32 \<Rightarrow> nat \<Rightarrow> u8" where
  "encode12 F c v =
     (let k = c * 12 div 8;
          entryBits = (if odd c then push_bit 4 (v AND 0xfff) else v AND 0xfff);
          preserveMask = (if odd c then 0xf else 0xf000);
          F1 = F(k := ucast (byte_at F k AND preserveMask OR entryBits)) in
      F1(k + 1 := ucast (byte_at F1 (k + 1) AND drop_bit 8 preserveMask OR drop_bit 8 entryBits)))"

definition decode16 :: "(nat \<Rightarrow> u8) \<Rightarrow> nat \<Rightarrow> u32" where
  "decode16 F c = pair_at F (c * 16 div 8)"

definition encode16 :: "(nat \<Rightarrow> u8) \<Rightarrow> nat \<Rightarrow> u32 \<Rightarrow> nat \<Rightarrow> u8" where
  "encode16 F c v =
     (let k = c * 16 div 8 in F(k := ucast (v AND 0xff), k + 1 := ucast (drop_bit 8 v AND 0xff)))"

definition decode32 :: "(nat \<Rightarrow> u8) \<Rightarrow> nat \<Rightarrow> u32" where
  "decode32 F c = quad_at F (c * 32 div 8)"

definition encode32 :: "(nat \<Rightarrow> u8) \<Rightarrow> nat \<Rightarrow> u32 \<Rightarrow> nat \<Rightarrow> u8" where
  "encode32 F c v =
     (let k = c * 32 div 8;
          F3 = F(k := ucast (v AND 0xff), k + 1 := ucast (drop_bit 8 v AND 0xff), k + 2 := ucast (drop_bit 16 v AND 0xff)) in
      F3(k + 3 := ucast (byte_at F3 (k + 3) AND 0xf0 OR drop_bit 24 v AND 0x0f)))"

lemma bit_and_mask:
  fixes x :: u32
  shows "bit (x AND 0xff) n \<longleftrightarrow> bit x n \<and> n < 8" "bit (x AND 0xfff) n \<longleftrightarrow> bit x n \<and> n < 12"
    "bit (x AND 0xf) n \<longleftrightarrow> bit x n \<and> n < 4" "bit (x AND 0xf000) n \<longleftrightarrow> bit x n \<and> 12 \<le> n \<and> n < 16"
    "bit (x AND 0xf0) n \<longleftrightarrow> bit x n \<and> 4 \<le> n \<and> n < 8" "bit (x AND 0xfff0) n \<longleftrightarrow> bit x n \<and> 4 \<le> n \<and> n < 16"
proof -
  have m: "0xff = (mask 8 :: u32)" "0xfff = (mask 12 :: u32)" "0xf = (mask 4 :: u32)"
    "0xf000 = push_bit 12 (mask 4 :: u32)" "0xf0 = push_bit 4 (mask 4 :: u32)" "0xfff0 = push_bit 4 (mask 12 :: u32)"
    by (simp_all add: mask_eq_exp_minus_1 push_bit_eq_mult)
  show "bit (x AND 0xff) n \<longleftrightarrow> bit x n \<and> n < 8" "bit (x AND 0xfff) n \<longleftrightarrow> bit x n \<and> n < 12"
    "bit (x AND 0xf) n \<longleftrightarrow> bit x n \<and> n < 4" "bit (x AND 0xf000) n \<longleftrightarrow> bit x n \<and> 12 \<le> n \<and> n < 16"
    "bit (x AND 0xf0) n \<longleftrightarrow> bit x n \<and> 4 \<le> n \<and> n < 8" "bit (x AND 0xfff0) n \<longleftrightarrow> bit x n \<and> 4 \<le> n \<and> n < 16"
    unfolding m bit_and_iff bit_push_bit_iff bit_mask_iff by (auto dest: bit_imp_possible_bit)
qed

lemma bit_ucast_u8: "bit (ucast (w :: u32) :: u8) n \<longleftrightarrow> n < 8 \<and> bit w n"
  by (auto simp: bit_simps)

lemma table_bit_byte: "r < 8 \<Longrightarrow> table_bit F (8 * q + r) \<longleftrightarrow> bit (F q) r"
  by (simp add: table_bit_def)

lemmas encode_bits = bit_ucast_u8 bit_and_mask bit_or_iff bit_drop_bit_eq bit_push_bit_iff bit_byte_at table_bit_byte

lemma table_bit_split: obtains q r where "j = 8 * q + r" "r < (8::nat)" "\<And>F. table_bit F j \<longleftrightarrow> bit (F q) r"
proof
  show "j = 8 * (j div 8) + j mod 8" "j mod 8 < 8" by simp_all
  show "table_bit F j \<longleftrightarrow> bit (F (j div 8)) (j mod 8)" for F
    by (simp add: table_bit_def)
qed

interpretation fat16: entry_codec 16 16 decode16 encode16
proof
  fix F :: "nat \<Rightarrow> u8" and c n :: nat
  show "bit (decode16 F c) n \<longleftrightarrow> n < 16 \<and> table_bit F (16 * c + n)"
    by (simp add: decode16_def bit_pair_at mult.commute)
next
  fix F :: "nat \<Rightarrow> u8" and c j :: nat and v :: u32
  obtain q r where j: "j = 8 * q + r" "r < 8" "\<And>F. table_bit F j \<longleftrightarrow> bit (F q) r"
    using table_bit_split by blast
  have c: "c * 16 div 8 = 2 * c" by simp
  show "table_bit (encode16 F c v) j = (if 16 * c \<le> j \<and> j < 16 * c + 16 then bit v (j - 16 * c) else table_bit F j)"
    unfolding j(3) encode16_def Let_def c using j(2) unfolding j(1)
    by (auto simp: encode_bits)
qed simp

interpretation fat32: entry_codec 32 28 decode32 encode32
proof
  fix F :: "nat \<Rightarrow> u8" and c n :: nat
  show "bit (decode32 F c) n \<longleftrightarrow> n < 28 \<and> table_bit F (32 * c + n)"
    by (simp add: decode32_def bit_quad_at mult.commute)
next
  fix F :: "nat \<Rightarrow> u8" and c j :: nat and v :: u32
  obtain q r where j: "j = 8 * q + r" "r < 8" "\<And>F. table_bit F j \<longleftrightarrow> bit (F q) r"
    using table_bit_split by blast
  have c: "c * 32 div 8 = 4 * c" by simp
  show "table_bit (encode32 F c v) j = (if 32 * c \<le> j \<and> j < 32 * c + 28 then bit v (j - 32 * c) else table_bit F j)"
    unfolding j(3) encode32_def Let_def c using j(2) unfolding j(1)
    by (auto simp: encode_bits)
qed simp

interpretation fat12: entry_codec 12 12 decode12 encode12
proof
  fix F :: "nat \<Rightarrow> u8" and c n :: nat
  show "bit (decode12 F c) n \<longleftrightarrow> n < 12 \<and> table_bit F (12 * c + n)"
  proof (cases "odd c")
    case True
    then obtain m where c: "c = 2 * m + 1" ..
    then have k: "c * 12 div 8 = 3 * m + 1" and n: "8 * (3 * m + 1) + (4 + n) = 12 * c + n" by simp_all
    show ?thesis
      unfolding decode12_def Let_def k if_P [OF True] bit_drop_bit_eq bit_pair_at comp_def n by auto
  next
    case False
    then obtain m where "c = 2 * m"
      by blast
    then have "c * 12 div 8 = 3 * m" "8 * (3 * m) + n = 12 * c + n" by simp_all
    then show ?thesis
      using False by (auto simp: decode12_def Let_def bit_and_mask bit_pair_at)
  qed
next
  fix F :: "nat \<Rightarrow> u8" and c j :: nat and v :: u32
  obtain q r where j: "j = 8 * q + r" "r < 8" "\<And>F. table_bit F j \<longleftrightarrow> bit (F q) r"
    using table_bit_split by blast
  show "table_bit (encode12 F c v) j = (if 12 * c \<le> j \<and> j < 12 * c + 12 then bit v (j - 12 * c) else table_bit F j)"
  proof (cases "odd c")
    case True
    then obtain m where c: "c = 2 * m + 1" ..
    then have "c * 12 div 8 = 3 * m + 1" by simp
    then show ?thesis
      unfolding j(3) encode12_def Let_def using True j(2) unfolding j(1) by (auto simp: encode_bits c)
  next
    case False
    then obtain m where c: "c = 2 * m"
      by blast
    then have "c * 12 div 8 = 3 * m" by simp
    then show ?thesis
      unfolding j(3) encode12_def Let_def using False j(2) unfolding j(1) by (auto simp: encode_bits c)
  qed
qed simp

section \<open>Special values\<close>

text \<open>The top sixteen values of the narrow variants are extended to 28 bits (\<open>FATTableIterator::GetEntry\<close>).\<close>

definition extend_entry :: "nat \<Rightarrow> u32 \<Rightarrow> u32" where
  "extend_entry bits val =
     (if bits = 12 then if val \<ge> 0xff0 then val OR 0x0ffff000 else val
      else if bits = 16 then if val \<ge> 0xfff0 then val OR 0x0fff0000 else val
      else val)"

definition decode_entry :: "nat \<Rightarrow> (nat \<Rightarrow> u8) \<Rightarrow> nat \<Rightarrow> u32" where
  "decode_entry bits = (if bits = 12 then decode12 else if bits = 16 then decode16 else decode32)"

definition encode_entry :: "nat \<Rightarrow> (nat \<Rightarrow> u8) \<Rightarrow> nat \<Rightarrow> u32 \<Rightarrow> nat \<Rightarrow> u8" where
  "encode_entry bits = (if bits = 12 then encode12 else if bits = 16 then encode16 else encode32)"

definition entry_bits :: "nat \<Rightarrow> nat" where
  "entry_bits bits = (if bits = 12 then 12 else if bits = 16 then 16 else 28)"

lemma decode_encode_entry:
  "decode_entry bits (encode_entry bits F c v) = (decode_entry bits F)(c := take_bit (entry_bits bits) v)"
  by (simp add: decode_entry_def encode_entry_def entry_bits_def fat12.decode_encode fat16.decode_encode fat32.decode_encode)

lemma decode_entry_cong:
  assumes "\<And>k. k < n \<Longrightarrow> F k = G k" "bits * (c + 1) \<le> 8 * n" "bits \<in> {12, 16, 32}"
  shows "decode_entry bits F c = decode_entry bits G c"
  using assms fat12.decode_cong [of n F G c] fat16.decode_cong [of n F G c] fat32.decode_cong [of n F G c]
  by (auto simp: decode_entry_def)

end
