(* ===== verification/FATTableIterator.thy ===== *)
theory FATTableIterator
  imports FATVolume FATEntryCodec
begin

text \<open>
  Access to single entries of the file allocation table (\<open>FATTableIterator.h\<close>, \<open>FATTableIterator.cpp\<close>): a cursor that keeps the
  cache blocks of the current entry and decodes and encodes entries of 12, 16 and 28 bits, copying changed sectors to the mirror
  FATs. The theory shows that for every width the table is an array of entries: a write changes one entry and no
  other; theory \<open>FATMirrors\<close> shows this for \<open>SetEntry\<close> as a whole, in every copy.
\<close>

section \<open>Moving the cursor\<close>

definition fat_start :: "FATVolume \<Rightarrow> nat" where
  "fat_start vol = m_ReservedSectors vol + m_ActiveFAT vol * m_SectorsPerFAT vol"

definition entry_offset :: "FATVolume \<Rightarrow> u32 \<Rightarrow> nat" where
  "entry_offset vol cluster = unat cluster * m_FATBits vol div 8"

text \<open>\<open>Inl Fault\<close> is a failed \<open>kassert\<close>, which panics.\<close>

definition SetCluster :: "FATVolume \<Rightarrow> u32 \<Rightarrow> FATTableIterator \<Rightarrow> FATTableIterator result" where
  "SetCluster vol cluster it =
     (let fatByteOffset = entry_offset vol cluster;
          sector = int (fat_start vol + fatByteOffset div m_BytesPerSector vol);
          fatEndSector = fat_start vol + m_SectorsPerFAT vol in
      if sector < int fatEndSector
      then Inr (it\<lparr>m_CurrentCluster := cluster, m_CurrentSector := sector,
                   m_OffsetInSector := fatByteOffset mod m_BytesPerSector vol\<rparr>)
      else Inl Fault)"

definition Increment :: "FATVolume \<Rightarrow> FATTableIterator \<Rightarrow> FATTableIterator result" where
  "Increment vol it =
     (let cluster = m_CurrentCluster it + 1 in
      SetCluster vol (if cluster = of_nat (m_TotalClusters vol) + FIRST_DATA_CLUSTER then FIRST_DATA_CLUSTER else cluster) it)"

section \<open>Loading the blocks of the current entry\<close>

type_synonym 'a fat_step = "'a result \<times> FATVolume \<times> FATTableIterator"

text \<open>
  \<open>Update\<close>. Moving a descriptor (\<open>std::move\<close>) clears its source. The second block is only loaded when the first one is: this is the
  code's condition, and what goes wrong with it is shown below.
\<close>

definition Update_block1 :: "FATVolume \<Rightarrow> FATTableIterator \<Rightarrow> unit fat_step" where
  "Update_block1 vol it =
     (if m_Buffer (m_Block2 it) \<noteq> None \<and> m_LoadedSector2 it = m_CurrentSector it
      then (Inr (), vol, it\<lparr>m_Block1 := m_Block2 it, m_Block2 := null_desc\<rparr>)
      else case GetBlock_trw (m_CurrentSector it) vol of
        (Inl e, vol1) \<Rightarrow> (Inl e, vol1, it)
      | (Inr desc, vol1) \<Rightarrow> (Inr (), vol1, it\<lparr>m_Block1 := desc, m_Block2 := Reset (m_Block2 it)\<rparr>))"

definition Update_block2 :: "FATVolume \<Rightarrow> FATTableIterator \<Rightarrow> unit fat_step" where
  "Update_block2 vol it =
     (let released = it\<lparr>m_Block1 := Reset (m_Block1 it), m_LoadedSector1 := - 1\<rparr> in
      case GetBlock_trw (m_CurrentSector it + 1) vol of
        (Inl e, vol1) \<Rightarrow> (Inl e, vol1, released)
      | (Inr desc, vol1) \<Rightarrow>
          if m_Buffer desc = None then (Inl IO, vol1, released\<lparr>m_Block2 := desc\<rparr>)
          else (Inr (), vol1, it\<lparr>m_Block2 := desc, m_LoadedSector2 := m_CurrentSector it + 1\<rparr>))"

definition Update :: "FATVolume \<Rightarrow> FATTableIterator \<Rightarrow> unit fat_step" where
  "Update vol it =
     (if \<not> IsDataCluster vol (m_CurrentCluster it) then (Inl Fault, vol, it)
      else if m_OffsetInSector it \<noteq> entry_offset vol (m_CurrentCluster it) mod m_BytesPerSector vol then (Inl Fault, vol, it)
      else if m_LoadedSector1 it = m_CurrentSector it then (Inr (), vol, it)
      else case Update_block1 vol it of
        (Inl e, vol1, it1) \<Rightarrow> (Inl e, vol1, it1)
      | (Inr _, vol1, it1) \<Rightarrow>
          let it2 = it1\<lparr>m_LoadedSector1 := - 1, m_LoadedSector2 := - 1\<rparr> in
          if m_Buffer (m_Block1 it2) = None then (Inl IO, vol1, it2)
          else let it3 = it2\<lparr>m_LoadedSector1 := m_CurrentSector it2\<rparr> in
          if m_OffsetInSector it3 = m_BytesPerSector vol1 - 1 then Update_block2 vol1 it3 else (Inr (), vol1, it3))"

section \<open>Reading an entry\<close>

text \<open>A byte of a buffer, promoted. A null pointer is \<open>None\<close>.\<close>

definition buffer_byte :: "FATVolume \<Rightarrow> int \<Rightarrow> nat \<Rightarrow> u32" where
  "buffer_byte vol buffer i = ucast (m_Blocks vol buffer ! i)"

definition read_entry :: "FATVolume \<Rightarrow> FATTableIterator \<Rightarrow> u32 result" where
  "read_entry vol it =
     (case m_Buffer (m_Block1 it) of
        None \<Rightarrow> Inl Fault
      | Some block1 \<Rightarrow>
          let i = m_OffsetInSector it in
          if m_FATBits vol = 12 then
            (case (if i = m_BytesPerSector vol - 1
                   then map_option (\<lambda>block2. buffer_byte vol block1 i + 0x100 * buffer_byte vol block2 0) (m_Buffer (m_Block2 it))
                   else Some (buffer_byte vol block1 i + 0x100 * buffer_byte vol block1 (i + 1))) of
               None \<Rightarrow> Inl Fault
             | Some val \<Rightarrow>
                 let val = (if m_CurrentCluster it AND 1 \<noteq> 0 then drop_bit 4 val else val AND 0xfff) in
                 Inr (if val \<ge> 0xff0 then val OR 0x0ffff000 else val))
          else if m_FATBits vol = 16 then
            let val = buffer_byte vol block1 i + 0x100 * buffer_byte vol block1 (i + 1) in
            Inr (if val \<ge> 0xfff0 then val OR 0x0fff0000 else val)
          else if m_FATBits vol = 32 then
            Inr (buffer_byte vol block1 i + 0x100 * buffer_byte vol block1 (i + 1) + 0x10000 * buffer_byte vol block1 (i + 2) +
                 0x1000000 * (buffer_byte vol block1 (i + 3) AND 0x0f))
          else Inl IO)"

definition GetEntry :: "FATVolume \<Rightarrow> FATTableIterator \<Rightarrow> u32 fat_step" where
  "GetEntry vol it =
     (case Update vol it of
        (Inl e, vol1, it1) \<Rightarrow> (Inl e, vol1, it1)
      | (Inr _, vol1, it1) \<Rightarrow> (read_entry vol1 it1, vol1, it1))"

section \<open>Writing an entry\<close>

fun AcquireMirrorBlocks_loop ::
  "int \<Rightarrow> nat list \<Rightarrow> KCacheBlockDesc list \<Rightarrow> FATVolume \<Rightarrow> KCacheBlockDesc list result \<times> FATVolume"
where
  "AcquireMirrorBlocks_loop sectorOffset [] mirrorBlocks vol = (Inr mirrorBlocks, vol)"
| "AcquireMirrorBlocks_loop sectorOffset (fatIndex # fats) mirrorBlocks vol =
     (if fatIndex = m_ActiveFAT vol then AcquireMirrorBlocks_loop sectorOffset fats mirrorBlocks vol
      else case GetBlock_trw (int (m_ReservedSectors vol + fatIndex * m_SectorsPerFAT vol) + sectorOffset) vol of
        (Inl e, vol1) \<Rightarrow> (Inl e, vol1)
      | (Inr desc, vol1) \<Rightarrow>
          if length mirrorBlocks \<ge> FAT_MAX_SUPPORTED_FAT_COUNT - 1 then (Inl Fault, vol1)
          else if m_Buffer desc = None then (Inl IO, vol1)
          else AcquireMirrorBlocks_loop sectorOffset fats (mirrorBlocks @ [desc]) vol1)"

definition AcquireMirrorBlocks :: "int \<Rightarrow> FATVolume \<Rightarrow> KCacheBlockDesc list result \<times> FATVolume" where
  "AcquireMirrorBlocks activeSector vol =
     (if \<not> m_FATMirrored vol then (Inr [], vol)
      else if m_FATCount vol > FAT_MAX_SUPPORTED_FAT_COUNT then (Inl IO, vol)
      else if activeSector < int (fat_start vol) \<or> activeSector \<ge> int (fat_start vol + m_SectorsPerFAT vol) then (Inl IO, vol)
      else AcquireMirrorBlocks_loop (activeSector - int (fat_start vol)) [0..<m_FATCount vol] [] vol)"

definition memcpy :: "u8 list \<Rightarrow> u8 list \<Rightarrow> nat \<Rightarrow> u8 list" where
  "memcpy dst src n = take n src @ drop n dst"

fun CopyToMirrorBlocks :: "u8 list \<Rightarrow> KCacheBlockDesc list \<Rightarrow> FATVolume \<Rightarrow> FATVolume" where
  "CopyToMirrorBlocks source [] vol = vol"
| "CopyToMirrorBlocks source (desc # mirrorBlocks) vol =
     (let buffer = the (m_Buffer desc) in
      CopyToMirrorBlocks source mirrorBlocks
        (MarkDirty desc (vol\<lparr>m_Blocks := (m_Blocks vol)(buffer := memcpy (m_Blocks vol buffer) source (m_BytesPerSector vol))\<rparr>)))"

text \<open>The part of \<open>SetEntry\<close> that changes the buffers; what it has changed before an assertion fails stays changed.\<close>

definition write_entry :: "FATVolume \<Rightarrow> FATTableIterator \<Rightarrow> u32 \<Rightarrow> unit result \<times> FATVolume" where
  "write_entry vol it value =
     (case m_Buffer (m_Block1 it) of
        None \<Rightarrow> (Inl Fault, vol)
      | Some block1 \<Rightarrow>
          let i = m_OffsetInSector it in
          if m_FATBits vol = 12 then
            let odd = m_CurrentCluster it AND 1 \<noteq> 0;
                entryBits = (if odd then push_bit 4 (value AND 0xfff) else value AND 0xfff);
                preserveMask = (if odd then 0xf else 0xf000);
                vol1 = put_byte block1 i (ucast (buffer_byte vol block1 i AND preserveMask OR entryBits)) vol in
            if i = m_BytesPerSector vol - 1 then
              (case m_Buffer (m_Block2 it) of
                 None \<Rightarrow> (Inl Fault, vol1)
               | Some block2 \<Rightarrow>
                   (Inr (), put_byte block2 0
                     (ucast (buffer_byte vol1 block2 0 AND drop_bit 8 preserveMask OR drop_bit 8 entryBits)) vol1))
            else (Inr (), put_byte block1 (i + 1)
                   (ucast (buffer_byte vol1 block1 (i + 1) AND drop_bit 8 preserveMask OR drop_bit 8 entryBits)) vol1)
          else if m_FATBits vol = 16 then
            (Inr (), put_byte block1 (i + 1) (ucast (drop_bit 8 value AND 0xff)) (put_byte block1 i (ucast (value AND 0xff)) vol))
          else if m_FATBits vol = 32 then
            if value AND 0xf0000000 \<noteq> 0 then (Inl Fault, vol)
            else let vol1 = put_byte block1 i (ucast (value AND 0xff)) vol;
                     vol2 = put_byte block1 (i + 1) (ucast (drop_bit 8 value AND 0xff)) vol1;
                     vol3 = put_byte block1 (i + 2) (ucast (drop_bit 16 value AND 0xff)) vol2;
                     vol4 = put_byte block1 (i + 3)
                       (ucast (buffer_byte vol3 block1 (i + 3) AND 0xf0 OR drop_bit 24 value AND 0x0f)) vol3 in
                 if value = buffer_byte vol4 block1 i + 0x100 * buffer_byte vol4 block1 (i + 1) +
                      0x10000 * buffer_byte vol4 block1 (i + 2) + 0x1000000 * (buffer_byte vol4 block1 (i + 3) AND 0x0f)
                 then (Inr (), vol4) else (Inl Fault, vol4)
          else (Inl IO, vol))"

definition SetEntry :: "FATVolume \<Rightarrow> FATTableIterator \<Rightarrow> u32 \<Rightarrow> unit fat_step" where
  "SetEntry vol it value =
     (case Update vol it of
        (Inl e, vol1, it1) \<Rightarrow> (Inl e, vol1, it1)
      | (Inr _, vol1, it1) \<Rightarrow>
     (case AcquireMirrorBlocks (m_LoadedSector1 it1) vol1 of
        (Inl e, vol2) \<Rightarrow> (Inl e, vol2, it1)
      | (Inr mirrorBlocks1, vol2) \<Rightarrow>
     (case (if m_LoadedSector2 it1 \<noteq> - 1 then AcquireMirrorBlocks (m_LoadedSector2 it1) vol2 else (Inr [], vol2)) of
        (Inl e, vol3) \<Rightarrow> (Inl e, vol3, it1)
      | (Inr mirrorBlocks2, vol3) \<Rightarrow>
     (case write_entry vol3 it1 value of
        (Inl e, vol4) \<Rightarrow> (Inl e, vol4, it1)
      | (Inr _, vol4) \<Rightarrow>
          let vol5 = MarkDirty (m_Block1 it1) vol4;
              vol6 = CopyToMirrorBlocks (m_Blocks vol5 (the (m_Buffer (m_Block1 it1)))) mirrorBlocks1 vol5 in
          if m_LoadedSector2 it1 \<noteq> - 1 then
            let vol7 = MarkDirty (m_Block2 it1) vol6 in
            (Inr (), CopyToMirrorBlocks (m_Blocks vol7 (the (m_Buffer (m_Block2 it1)))) mirrorBlocks2 vol7, it1)
          else (Inr (), vol6, it1)))))"

section \<open>The table as bytes\<close>

text \<open>Byte \<open>k\<close> of the active FAT.\<close>

definition fat_byte :: "FATVolume \<Rightarrow> nat \<Rightarrow> u8" where
  "fat_byte vol k =
     m_Blocks vol (int (fat_start vol + k div m_BytesPerSector vol)) ! (k mod m_BytesPerSector vol)"

definition fat_put :: "nat \<Rightarrow> u8 \<Rightarrow> FATVolume \<Rightarrow> FATVolume" where
  "fat_put k b vol = put_byte (int (fat_start vol + k div m_BytesPerSector vol)) (k mod m_BytesPerSector vol) b vol"

text \<open>Every block has the size of a sector.\<close>

definition blocks_ok :: "FATVolume \<Rightarrow> bool" where
  "blocks_ok vol \<longleftrightarrow> 0 < m_BytesPerSector vol \<and> (\<forall>sector. length (m_Blocks vol sector) = m_BytesPerSector vol)"

lemma fat_put_simps [simp]:
  "m_BytesPerSector (fat_put k b vol) = m_BytesPerSector vol" "fat_start (fat_put k b vol) = fat_start vol"
  "blocks_ok (fat_put k b vol) = blocks_ok vol" "m_FATBits (fat_put k b vol) = m_FATBits vol"
  by (auto simp: fat_put_def put_byte_def fat_start_def blocks_ok_def)

lemma fat_byte_put:
  assumes "blocks_ok vol"
  shows "fat_byte (fat_put k b vol) = (fat_byte vol)(k := b)"
proof
  fix j
  have "j = k" if "j div m_BytesPerSector vol = k div m_BytesPerSector vol" "j mod m_BytesPerSector vol = k mod m_BytesPerSector vol"
    by (metis that mult_div_mod_eq)
  moreover have "k mod m_BytesPerSector vol < m_BytesPerSector vol"
    using assms by (simp add: blocks_ok_def)
  ultimately show "fat_byte (fat_put k b vol) j = ((fat_byte vol)(k := b)) j"
    using assms by (auto simp: fat_byte_def fat_put_def put_byte_def fat_start_def blocks_ok_def nth_list_update)
qed

lemma next_address:
  assumes "k mod bps + i < (bps::nat)"
  shows "(k + i) div bps = k div bps" "(k + i) mod bps = k mod bps + i"
proof -
  have "k + i = k mod bps + i + bps * (k div bps)"
    by simp
  then show "(k + i) div bps = k div bps" "(k + i) mod bps = k mod bps + i"
    using assms by (simp_all only: div_mult_self2 mod_mult_self2) auto
qed

lemma next_sector:
  assumes "0 < (bps::nat)" "k mod bps = bps - 1"
  shows "(k + 1) div bps = k div bps + 1" "(k + 1) mod bps = 0"
  using assms by (simp_all add: div_Suc mod_Suc)

lemma entry_in_sector:
  assumes "bps \<in> {512, 1024, 2048::nat}"
  shows "c * 16 div 8 mod bps + 1 < bps" "c * 32 div 8 mod bps + 3 < bps"
proof -
  obtain n where n: "bps = 4 * n" "0 < n"
    using assms that [of 128] that [of 256] that [of 512] by auto
  have "c * 16 div 8 = 2 * c" "c * 32 div 8 = 4 * c" "bps = 2 * (2 * n)"
    by (simp_all add: n)
  then have "c * 16 div 8 mod bps = 2 * (c mod (2 * n))" "c * 32 div 8 mod bps = 4 * (c mod n)"
    using n(1) by (simp_all only: mult_mod_right)
  moreover have "c mod (2 * n) < 2 * n" "c mod n < n"
    using n by auto
  ultimately show "c * 16 div 8 mod bps + 1 < bps" "c * 32 div 8 mod bps + 3 < bps"
    using n(1) by linarith+
qed

text \<open>The entry of a cluster in the active FAT, as \<open>GetEntry\<close> presents it.\<close>

definition fat_entry :: "FATVolume \<Rightarrow> u32 \<Rightarrow> u32" where
  "fat_entry vol cluster =
     extend_entry (m_FATBits vol) (decode_entry (m_FATBits vol) (fat_byte vol) (unat cluster))"

section \<open>The cursor\<close>

definition loaded :: "int \<Rightarrow> KCacheBlockDesc" where
  "loaded sector = \<lparr>m_Block = Some sector, m_Buffer = Some sector\<rparr>"

text \<open>The cursor is at the entry of its cluster.\<close>

definition it_pos :: "FATVolume \<Rightarrow> FATTableIterator \<Rightarrow> bool" where
  "it_pos vol it \<longleftrightarrow>
     IsDataCluster vol (m_CurrentCluster it) \<and>
     m_CurrentSector it = int (fat_start vol + entry_offset vol (m_CurrentCluster it) div m_BytesPerSector vol) \<and>
     m_OffsetInSector it = entry_offset vol (m_CurrentCluster it) mod m_BytesPerSector vol"

text \<open>The descriptors hold the sectors they are said to hold, and a second sector is the one after the first.\<close>

definition it_cached :: "FATVolume \<Rightarrow> FATTableIterator \<Rightarrow> bool" where
  "it_cached vol it \<longleftrightarrow>
     (m_LoadedSector1 it \<noteq> - 1 \<longrightarrow>
        m_Block1 it = loaded (m_LoadedSector1 it) \<and> int (fat_start vol) \<le> m_LoadedSector1 it \<and>
        m_LoadedSector1 it < int (fat_start vol + m_SectorsPerFAT vol)) \<and>
     (m_LoadedSector2 it \<noteq> - 1 \<longrightarrow>
        m_LoadedSector1 it \<noteq> - 1 \<and> m_LoadedSector2 it = m_LoadedSector1 it + 1 \<and> m_Block2 it = loaded (m_LoadedSector2 it) \<and>
        m_LoadedSector2 it < int (fat_start vol + m_SectorsPerFAT vol))"

definition straddles :: "FATVolume \<Rightarrow> FATTableIterator \<Rightarrow> bool" where
  "straddles vol it \<longleftrightarrow> m_OffsetInSector it = m_BytesPerSector vol - 1"

text \<open>
  What \<open>Update\<close> needs beyond its checks: if the entry crosses a sector boundary and its first sector is loaded already, the second
  one must be loaded too.
\<close>

definition it_fresh :: "FATVolume \<Rightarrow> FATTableIterator \<Rightarrow> bool" where
  "it_fresh vol it \<longleftrightarrow>
     (straddles vol it \<and> m_LoadedSector1 it = m_CurrentSector it \<longrightarrow> m_LoadedSector2 it = m_CurrentSector it + 1)"

definition it_loaded :: "FATVolume \<Rightarrow> FATTableIterator \<Rightarrow> bool" where
  "it_loaded vol it \<longleftrightarrow>
     it_pos vol it \<and> it_cached vol it \<and> m_LoadedSector1 it = m_CurrentSector it \<and>
     (straddles vol it \<longrightarrow> m_LoadedSector2 it = m_CurrentSector it + 1)"

lemma blocks_okD:
  assumes "blocks_ok vol"
  shows "length (m_Blocks vol s) = m_BytesPerSector vol" "0 < m_BytesPerSector vol"
  using assms by (auto simp: blocks_ok_def)

lemma geometry_simps:
  assumes "volume_geometry vol"
  shows "m_BytesPerSector vol \<in> {512, 1024, 2048}" "m_FATBits vol \<in> {12, 16, 32}" "0 < m_BytesPerSector vol"
    "m_TotalClusters vol \<le> 0x0ffffff5" "0 < m_TotalClusters vol"
    "m_ActiveFAT vol < m_FATCount vol" "m_FATCount vol \<le> FAT_MAX_SUPPORTED_FAT_COUNT"
    "(m_TotalClusters vol + 2) * m_FATBits vol \<le> 8 * (m_SectorsPerFAT vol * m_BytesPerSector vol)"
  using assms by (auto simp: volume_geometry_def)

lemma entry_fits:
  assumes "volume_geometry vol" "IsDataCluster vol c"
  shows "entry_offset vol c + 1 < m_SectorsPerFAT vol * m_BytesPerSector vol"
proof -
  have "(unat c + 1) * m_FATBits vol \<le> 8 * (m_SectorsPerFAT vol * m_BytesPerSector vol)"
  proof (rule order_trans [OF mult_le_mono1 geometry_simps(8) [OF assms(1)]])
    show "unat c + 1 \<le> m_TotalClusters vol + 2"
      using assms by (simp add: IsDataCluster_iff)
  qed
  moreover have "12 \<le> m_FATBits vol"
    using geometry_simps(2) [OF assms(1)] by auto
  ultimately show ?thesis
    unfolding entry_offset_def by (simp add: algebra_simps)
qed

lemma entry_sector:
  assumes "volume_geometry vol" "IsDataCluster vol c"
  shows "entry_offset vol c div m_BytesPerSector vol < m_SectorsPerFAT vol"
    "entry_offset vol c mod m_BytesPerSector vol = m_BytesPerSector vol - 1 \<Longrightarrow>
     entry_offset vol c div m_BytesPerSector vol + 1 < m_SectorsPerFAT vol"
proof -
  note fits = entry_fits [OF assms]
  show "entry_offset vol c div m_BytesPerSector vol < m_SectorsPerFAT vol"
    using fits by (intro less_mult_imp_div_less) linarith
  assume "entry_offset vol c mod m_BytesPerSector vol = m_BytesPerSector vol - 1"
  then have "(entry_offset vol c + 1) div m_BytesPerSector vol = entry_offset vol c div m_BytesPerSector vol + 1"
    by (rule next_sector(1) [OF geometry_simps(3) [OF assms(1)]])
  moreover have "(entry_offset vol c + 1) div m_BytesPerSector vol < m_SectorsPerFAT vol"
    using fits by (intro less_mult_imp_div_less)
  ultimately show "entry_offset vol c div m_BytesPerSector vol + 1 < m_SectorsPerFAT vol"
    by simp
qed

lemma no_straddle:
  assumes "volume_geometry vol" "it_pos vol it" "m_FATBits vol \<noteq> 12"
  shows "\<not> straddles vol it"
  using assms entry_in_sector [OF geometry_simps(1) [OF assms(1)], of "unat (m_CurrentCluster it)"] geometry_simps(2) [OF assms(1)]
  by (auto simp: straddles_def it_pos_def entry_offset_def)

lemma GetBlock_trw_eq:
  "GetBlock_trw sector vol =
     ((case m_GetBlockFails vol (m_GetBlockCalls vol) of Some e \<Rightarrow> Inl e | None \<Rightarrow> Inr (loaded sector)),
      vol\<lparr>m_GetBlockCalls := Suc (m_GetBlockCalls vol)\<rparr>)"
  by (simp add: GetBlock_trw_def Let_def loaded_def split: option.split)

text \<open>The exceptions \<open>GetBlock_trw\<close> can throw.\<close>

definition can_fail :: "FATVolume \<Rightarrow> PErrorCode \<Rightarrow> bool" where
  "can_fail vol e \<longleftrightarrow> (\<exists>n. m_GetBlockFails vol n = Some e)"

lemma Update_block1_cases:
  assumes "it_cached vol it" "m_CurrentSector it \<noteq> - 1"
  obtains
    (fail) e where "Update_block1 vol it = (Inl e, vol\<lparr>m_GetBlockCalls := Suc (m_GetBlockCalls vol)\<rparr>, it)" "can_fail vol e"
  | (ok) n d2 where "Update_block1 vol it =
       (Inr (), vol\<lparr>m_GetBlockCalls := n\<rparr>, it\<lparr>m_Block1 := loaded (m_CurrentSector it), m_Block2 := d2\<rparr>)"
proof (cases "m_Buffer (m_Block2 it) \<noteq> None \<and> m_LoadedSector2 it = m_CurrentSector it")
  case True
  then have "m_Block2 it = loaded (m_CurrentSector it)"
    using assms by (auto simp: it_cached_def)
  with True have "Update_block1 vol it =
      (Inr (), vol\<lparr>m_GetBlockCalls := m_GetBlockCalls vol\<rparr>, it\<lparr>m_Block1 := loaded (m_CurrentSector it), m_Block2 := null_desc\<rparr>)"
    by (simp add: Update_block1_def)
  then show thesis
    by (rule ok)
next
  case False
  show thesis
  proof (cases "m_GetBlockFails vol (m_GetBlockCalls vol)")
    case None
    with False show thesis
      by (intro ok [of "Suc (m_GetBlockCalls vol)" "Reset (m_Block2 it)"]) (auto simp: Update_block1_def GetBlock_trw_eq)
  next
    case (Some e)
    with False show thesis
      by (intro fail) (auto simp: Update_block1_def GetBlock_trw_eq can_fail_def)
  qed
qed

lemma Update_cases:
  assumes "volume_geometry vol" "it_pos vol it" "it_cached vol it" "it_fresh vol it"
  obtains
    (fail) e n it' where "Update vol it = (Inl e, vol\<lparr>m_GetBlockCalls := n\<rparr>, it')" "can_fail vol e"
      "it_pos vol it'" "it_cached vol it'" "m_CurrentCluster it' = m_CurrentCluster it"
  | (ok) n it' where "Update vol it = (Inr (), vol\<lparr>m_GetBlockCalls := n\<rparr>, it')"
      "it_loaded vol it'" "m_CurrentCluster it' = m_CurrentCluster it"
proof -
  let ?cs = "m_CurrentSector it"
  have pos: "?cs = int (fat_start vol + entry_offset vol (m_CurrentCluster it) div m_BytesPerSector vol)"
    "m_OffsetInSector it = entry_offset vol (m_CurrentCluster it) mod m_BytesPerSector vol"
    "IsDataCluster vol (m_CurrentCluster it)"
    using assms(2) by (simp_all add: it_pos_def)
  have range: "int (fat_start vol) \<le> ?cs" "?cs < int (fat_start vol + m_SectorsPerFAT vol)"
    "straddles vol it \<Longrightarrow> ?cs + 1 < int (fat_start vol + m_SectorsPerFAT vol)" "?cs \<noteq> - 1" "?cs + 1 \<noteq> - 1"
    using entry_sector [OF assms(1) pos(3)] by (auto simp: pos straddles_def)
  show thesis
  proof (cases "m_LoadedSector1 it = ?cs")
    case True
    have "Update vol it = (Inr (), vol\<lparr>m_GetBlockCalls := m_GetBlockCalls vol\<rparr>, it)"
      using pos True by (simp add: Update_def)
    moreover have "it_loaded vol it"
      using assms(2,3,4) True by (simp add: it_loaded_def it_fresh_def)
    ultimately show thesis
      by (rule ok) simp
  next
    case False
    have start: "Update vol it =
       (case Update_block1 vol it of
          (Inl e, vol1, it1) \<Rightarrow> (Inl e, vol1, it1)
        | (Inr _, vol1, it1) \<Rightarrow>
            let it2 = it1\<lparr>m_LoadedSector1 := - 1, m_LoadedSector2 := - 1\<rparr> in
            if m_Buffer (m_Block1 it2) = None then (Inl IO, vol1, it2)
            else let it3 = it2\<lparr>m_LoadedSector1 := m_CurrentSector it2\<rparr> in
            if m_OffsetInSector it3 = m_BytesPerSector vol1 - 1 then Update_block2 vol1 it3 else (Inr (), vol1, it3))"
      using pos False by (simp add: Update_def)
    show thesis
    proof (cases rule: Update_block1_cases [OF assms(3) range(4), case_names fail ok])
      case (fail e)
      show thesis
        by (rule that(1) [OF _ fail(2) assms(2,3)]) (simp_all add: start fail(1))
    next
      case (ok n d2)
      let ?it3 = "it\<lparr>m_Block1 := loaded ?cs, m_Block2 := d2, m_LoadedSector2 := - 1, m_LoadedSector1 := ?cs\<rparr>"
      have it3: "it_pos vol ?it3" "it_cached vol ?it3"
        using assms(2) range by (simp_all add: it_pos_def it_cached_def)
      show thesis
      proof (cases "straddles vol it")
        case False
        then have "Update vol it = (Inr (), vol\<lparr>m_GetBlockCalls := n\<rparr>, ?it3)"
          by (simp add: start ok Let_def loaded_def straddles_def)
        moreover have "it_loaded vol ?it3"
          using it3 False by (simp add: it_loaded_def straddles_def)
        ultimately show thesis
          by (rule that(2)) simp
      next
        case True
        then have up: "Update vol it = Update_block2 (vol\<lparr>m_GetBlockCalls := n\<rparr>) ?it3"
          by (simp add: start ok Let_def loaded_def straddles_def)
        show thesis
        proof (cases "m_GetBlockFails vol n")
          case (Some e)
          then have "Update vol it = (Inl e, vol\<lparr>m_GetBlockCalls := Suc n\<rparr>,
              ?it3\<lparr>m_Block1 := Reset (loaded ?cs), m_LoadedSector1 := - 1\<rparr>)"
            by (simp add: up Update_block2_def GetBlock_trw_eq)
          moreover have "can_fail vol e"
            using Some by (auto simp: can_fail_def)
          ultimately show thesis
            by (rule that(1)) (use assms(2) in \<open>simp_all add: it_pos_def it_cached_def\<close>)
        next
          case None
          let ?it4 = "?it3\<lparr>m_Block2 := loaded (?cs + 1), m_LoadedSector2 := ?cs + 1\<rparr>"
          from None have "Update vol it = (Inr (), vol\<lparr>m_GetBlockCalls := Suc n\<rparr>, ?it4)"
            by (simp add: up Update_block2_def GetBlock_trw_eq loaded_def)
          moreover have "it_loaded vol ?it4"
            using it3(1) range True by (simp add: it_loaded_def it_pos_def it_cached_def)
          ultimately show thesis
            by (rule that(2)) simp
        qed
      qed
    qed
  qed
qed
section \<open>Reading and writing bytes through the descriptors\<close>

lemma buffer_byte_at:
  assumes "k mod m_BytesPerSector vol + j < m_BytesPerSector vol"
  shows "buffer_byte vol (int (fat_start vol + k div m_BytesPerSector vol)) (k mod m_BytesPerSector vol + j) =
         byte_at (fat_byte vol) (k + j)"
  by (simp add: buffer_byte_def byte_at_def fat_byte_def next_address [OF assms])

lemma buffer_byte_next:
  assumes "0 < m_BytesPerSector vol" "k mod m_BytesPerSector vol = m_BytesPerSector vol - 1"
  shows "buffer_byte vol (int (fat_start vol + k div m_BytesPerSector vol) + 1) 0 = byte_at (fat_byte vol) (k + 1)"
  using next_sector [OF assms] by (simp add: buffer_byte_def byte_at_def fat_byte_def algebra_simps)

lemma odd_cluster: "c AND 1 \<noteq> 0 \<longleftrightarrow> odd (unat (c :: u32))"
proof -
  have "bit (unat c) 0 \<longleftrightarrow> bit c 0"
    by (simp add: bit_unsigned_iff)
  then show ?thesis
    by (simp add: and_one_eq mod_2_eq_odd bit_0)
qed

lemma it_loadedD:
  assumes "it_loaded vol it"
  defines "k \<equiv> entry_offset vol (m_CurrentCluster it)"
  shows "IsDataCluster vol (m_CurrentCluster it)"
    "m_OffsetInSector it = k mod m_BytesPerSector vol"
    "m_Buffer (m_Block1 it) = Some (int (fat_start vol + k div m_BytesPerSector vol))"
    "m_Block (m_Block1 it) = Some (int (fat_start vol + k div m_BytesPerSector vol))"
    "straddles vol it \<Longrightarrow> m_Buffer (m_Block2 it) = Some (int (fat_start vol + k div m_BytesPerSector vol) + 1)"
  using assms(1) by (auto simp: it_loaded_def it_pos_def it_cached_def loaded_def k_def)

lemma read_entry_eq:
  assumes "volume_geometry vol" "it_loaded vol it"
  shows "read_entry vol it = Inr (fat_entry vol (m_CurrentCluster it))"
proof -
  define k where "k = entry_offset vol (m_CurrentCluster it)"
  let ?bps = "m_BytesPerSector vol" and ?F = "fat_byte vol"
  note l = it_loadedD [OF assms(2), folded k_def]
  have bps: "0 < ?bps"
    using geometry_simps(3) [OF assms(1)] .
  have k_lt: "k mod ?bps < ?bps"
    using bps by simp
  note b0 = buffer_byte_at [of k vol 0, simplified add_0_right, OF k_lt]
  consider "m_FATBits vol = 12" | "m_FATBits vol = 16" | "m_FATBits vol = 32"
    using geometry_simps(2) [OF assms(1)] by auto
  then show ?thesis
  proof cases
    case 1
    then have k: "unat (m_CurrentCluster it) * 12 div 8 = k"
      by (simp add: k_def entry_offset_def)
    show ?thesis
    proof (cases "straddles vol it")
      case True
      then have "k mod ?bps = ?bps - 1"
        using l(2) by (simp add: straddles_def)
      from b0 buffer_byte_next [OF bps this] show ?thesis
        using True 1 by (simp add: read_entry_def l(2,3) l(5) [OF True] Let_def straddles_def odd_cluster fat_entry_def
            extend_entry_def decode_entry_def decode12_def pair_at_def k)
    next
      case False
      then have "k mod ?bps + 1 < ?bps"
        using l(2) k_lt by (simp add: straddles_def)
      from b0 buffer_byte_at [OF this] show ?thesis
        using False 1 by (simp add: read_entry_def l(2,3) Let_def straddles_def odd_cluster fat_entry_def
            extend_entry_def decode_entry_def decode12_def pair_at_def k)
    qed
  next
    case 2
    then have k: "unat (m_CurrentCluster it) * 16 div 8 = k"
      by (simp add: k_def entry_offset_def)
    have "k mod ?bps + 1 < ?bps"
      using entry_in_sector(1) [OF geometry_simps(1) [OF assms(1)]] k by metis
    from b0 buffer_byte_at [OF this] show ?thesis
      using 2 by (simp add: read_entry_def l(2,3) Let_def fat_entry_def extend_entry_def decode_entry_def
          decode16_def pair_at_def k)
  next
    case 3
    then have k: "unat (m_CurrentCluster it) * 32 div 8 = k"
      by (simp add: k_def entry_offset_def)
    have "k mod ?bps + 3 < ?bps"
      using entry_in_sector(2) [OF geometry_simps(1) [OF assms(1)]] k by metis
    then have "k mod ?bps + 1 < ?bps" "k mod ?bps + 2 < ?bps" "k mod ?bps + 3 < ?bps"
      by auto
    from b0 this [THEN buffer_byte_at] show ?thesis
      using 3 by (simp add: read_entry_def l(2,3) Let_def fat_entry_def extend_entry_def decode_entry_def
          decode32_def quad_at_def pair_at_def k del: add_2_eq_Suc')
  qed
qed
lemma put_byte_at:
  assumes "k mod m_BytesPerSector vol + j < m_BytesPerSector vol"
  shows "put_byte (int (fat_start vol + k div m_BytesPerSector vol)) (k mod m_BytesPerSector vol + j) b vol = fat_put (k + j) b vol"
  by (simp add: fat_put_def next_address [OF assms])

lemma put_byte_next:
  assumes "0 < m_BytesPerSector vol" "k mod m_BytesPerSector vol = m_BytesPerSector vol - 1"
  shows "put_byte (int (fat_start vol + k div m_BytesPerSector vol) + 1) 0 b vol = fat_put (k + 1) b vol"
  using next_sector [OF assms] by (simp add: fat_put_def algebra_simps)

lemma top_nibble: "v AND 0xf0000000 = 0 \<longleftrightarrow> take_bit 28 v = (v :: u32)"
proof -
  have m: "(0xf0000000 :: u32) = push_bit 28 (mask 4)"
    by (simp add: mask_eq_exp_minus_1 push_bit_eq_mult)
  have "v AND 0xf0000000 = 0 \<longleftrightarrow> (\<forall>n < 32. bit v n \<longrightarrow> n < 28)"
    unfolding m by (auto simp: bit_eq_iff bit_and_iff bit_push_bit_iff bit_mask_iff)
  also have "\<dots> \<longleftrightarrow> take_bit 28 v = v"
    by (auto simp: bit_eq_iff bit_take_bit_iff)
  finally show ?thesis .
qed

text \<open>Which parts of the volume a write to the FAT may change.\<close>

definition fat_write :: "FATVolume \<Rightarrow> FATVolume \<Rightarrow> int set \<Rightarrow> bool" where
  "fat_write vol vol' sectors \<longleftrightarrow>
     vol' = vol\<lparr>m_Blocks := m_Blocks vol'\<rparr> \<and> (\<forall>s. s \<notin> sectors \<longrightarrow> m_Blocks vol' s = m_Blocks vol s)"

lemma fat_write_put:
  "int (fat_start vol + k div m_BytesPerSector vol) \<in> S \<Longrightarrow> fat_write vol (fat_put k b vol) S"
  by (auto simp: fat_write_def fat_put_def put_byte_def)

lemma fat_write_trans:
  assumes "fat_write vol vol1 S" "fat_write vol1 vol2 S"
  shows "fat_write vol vol2 S"
proof -
  have "vol2 = vol\<lparr>m_Blocks := m_Blocks vol1\<rparr>\<lparr>m_Blocks := m_Blocks vol2\<rparr>"
    using assms unfolding fat_write_def by metis
  then show ?thesis
    using assms by (simp add: fat_write_def)
qed

lemma write_entry_eq:
  assumes "volume_geometry vol" "blocks_ok vol" "it_loaded vol it" "take_bit 28 value = value"
  obtains vol' where "write_entry vol it value = (Inr (), vol')"
    "fat_byte vol' = encode_entry (m_FATBits vol) (fat_byte vol) (unat (m_CurrentCluster it)) value"
    "blocks_ok vol'"
    "fat_write vol vol' ({m_CurrentSector it} \<union> (if straddles vol it then {m_CurrentSector it + 1} else {}))"
proof -
  define k where "k = entry_offset vol (m_CurrentCluster it)"
  define bps where "bps = m_BytesPerSector vol"
  define b1 where "b1 = int (fat_start vol + k div bps)"
  note l = it_loadedD [OF assms(3), folded k_def, folded bps_def, folded b1_def]
  have cs: "m_CurrentSector it = b1"
    using assms(3) by (simp add: it_loaded_def it_pos_def b1_def k_def bps_def)
  have bps: "0 < bps"
    using geometry_simps(3) [OF assms(1)] by (simp add: bps_def)
  have k_lt: "k mod bps < bps"
    using bps by simp
  have put: "put_byte b1 (k mod bps + j) b v = fat_put (k + j) b v"
    and get: "buffer_byte v b1 (k mod bps + j) = byte_at (fat_byte v) (k + j)"
    and wr: "fat_write v (fat_put (k + j) b v) (insert b1 S)"
    if "fat_start v = fat_start vol" "m_BytesPerSector v = bps" "k mod bps + j < bps" for v b j S
    using that put_byte_at [of k v j b] buffer_byte_at [of k v j] fat_write_put [of v "k + j" "insert b1 S" b]
      next_address(1) [OF that(3)] by (simp_all add: b1_def)
  have put1: "put_byte (b1 + 1) 0 b v = fat_put (k + 1) b v"
    and get1: "buffer_byte v (b1 + 1) 0 = byte_at (fat_byte v) (k + 1)"
    and wr1: "fat_write v (fat_put (k + 1) b v) {b1, b1 + 1}"
    if "fat_start v = fat_start vol" "m_BytesPerSector v = bps" "k mod bps = bps - 1" for v b
    using that bps put_byte_next [of v k b] buffer_byte_next [of v k] fat_write_put [of v "k + 1" "{b1, b1 + 1}" b]
      next_sector(1) [of bps k] by (simp_all add: b1_def algebra_simps)
  note fp = fat_byte_put assms(2) bps_def [symmetric]
  let ?S = "{m_CurrentSector it} \<union> (if straddles vol it then {m_CurrentSector it + 1} else {})"
  have S: "?S = (if straddles vol it then {b1, b1 + 1} else {b1})"
    by (simp add: cs)
  have S': "?S = insert b1 (if straddles vol it then {b1 + 1} else {})"
    by (simp add: cs)
  have wr0: "fat_write vol (fat_put k b vol) (insert b1 S)" for b S
    using wr [of vol 0 b S] k_lt bps_def by simp
  consider "m_FATBits vol = 12" | "m_FATBits vol = 16" | "m_FATBits vol = 32"
    using geometry_simps(2) [OF assms(1)] by auto
  then show ?thesis
  proof cases
    case 1
    then have k: "unat (m_CurrentCluster it) * 12 div 8 = k"
      by (simp add: k_def entry_offset_def)
    let ?odd = "odd (unat (m_CurrentCluster it))"
    let ?bits = "if ?odd then push_bit 4 (value AND 0xfff) else value AND 0xfff"
    let ?keep = "if ?odd then 0xf else 0xf000 :: u32"
    let ?vol1 = "fat_put k (ucast (byte_at (fat_byte vol) k AND ?keep OR ?bits)) vol"
    let ?vol' = "fat_put (k + 1) (ucast (byte_at (fat_byte ?vol1) (k + 1) AND drop_bit 8 ?keep OR drop_bit 8 ?bits)) ?vol1"
    have first: "put_byte b1 (k mod bps) b v = fat_put k b v" "buffer_byte v b1 (k mod bps) = byte_at (fat_byte v) k"
      if "fat_start v = fat_start vol" "m_BytesPerSector v = bps" for v b
      using that put [where j = 0] get [where j = 0] k_lt by auto
    have "write_entry vol it value = (Inr (), ?vol') \<and> fat_write vol ?vol' ?S"
    proof (cases "straddles vol it")
      case True
      then have last: "k mod bps = bps - 1"
        by (simp add: straddles_def l(2) bps_def)
      have "write_entry vol it value = (Inr (), ?vol')"
        unfolding write_entry_def odd_cluster l(2,3) l(5) [OF True] last Let_def
        using 1 last first put1 get1 by (simp add: fp)
      moreover have "fat_write vol ?vol' ?S"
        unfolding S unfolding if_P [OF True] by (rule fat_write_trans [OF wr0 wr1 [OF _ _ last]]) (simp_all add: fp)
      ultimately show ?thesis ..
    next
      case False
      then have "k mod bps \<noteq> bps - 1" "k mod bps + 1 < bps"
        using k_lt by (auto simp: straddles_def l(2) bps_def)
      then have "write_entry vol it value = (Inr (), ?vol')"
        unfolding write_entry_def odd_cluster l(2,3) Let_def
        using 1 first put [where j = 1] get [where j = 1] by (simp add: fp)
      moreover have "fat_write vol ?vol' ?S"
        unfolding S unfolding if_not_P [OF False]
        by (rule fat_write_trans [OF wr0 wr]) (simp_all add: fp \<open>k mod bps + 1 < bps\<close> [simplified])
      ultimately show ?thesis ..
    qed
    moreover have "fat_byte ?vol' = encode_entry (m_FATBits vol) (fat_byte vol) (unat (m_CurrentCluster it)) value"
      using 1 by (simp add: fp encode_entry_def encode12_def k Let_def)
    ultimately show ?thesis
      by (intro that [of ?vol']) (simp_all add: assms(2))
  next
    case 2
    then have k: "unat (m_CurrentCluster it) * 16 div 8 = k"
      by (simp add: k_def entry_offset_def)
    have k1: "k mod bps + 1 < bps"
      using entry_in_sector(1) [OF geometry_simps(1) [OF assms(1)]] k bps_def by metis
    let ?vol' = "fat_put (k + 1) (ucast (drop_bit 8 value AND 0xff)) (fat_put k (ucast (value AND 0xff)) vol)"
    have "write_entry vol it value = (Inr (), ?vol')"
      using 2 k1 k_lt put [where j = 0] put [where j = 1] by (simp add: write_entry_def l(2,3) Let_def fp)
    moreover have "fat_byte ?vol' = encode_entry (m_FATBits vol) (fat_byte vol) (unat (m_CurrentCluster it)) value"
      using 2 by (simp add: fp encode_entry_def encode16_def k Let_def)
    moreover have "fat_write vol ?vol' ?S"
      unfolding S' by (rule fat_write_trans [OF wr0 wr]) (use k1 in \<open>simp_all add: fp\<close>)
    ultimately show ?thesis
      by (intro that [of ?vol']) (simp_all add: assms(2))
  next
    case 3
    then have k: "unat (m_CurrentCluster it) * 32 div 8 = k"
      by (simp add: k_def entry_offset_def)
    have k3: "k mod bps + 3 < bps"
      using entry_in_sector(2) [OF geometry_simps(1) [OF assms(1)]] k bps_def by metis
    let ?vol3 = "fat_put (k + 2) (ucast (drop_bit 16 value AND 0xff))
      (fat_put (k + 1) (ucast (drop_bit 8 value AND 0xff)) (fat_put k (ucast (value AND 0xff)) vol))"
    let ?vol' = "fat_put (k + 3) (ucast (byte_at (fat_byte ?vol3) (k + 3) AND 0xf0 OR drop_bit 24 value AND 0x0f)) ?vol3"
    have enc: "fat_byte ?vol' = encode_entry (m_FATBits vol) (fat_byte vol) (unat (m_CurrentCluster it)) value"
      using 3 by (simp add: fp encode_entry_def encode32_def k Let_def)
    have "decode32 (fat_byte ?vol') (unat (m_CurrentCluster it)) = value"
      unfolding enc by (simp add: 3 encode_entry_def fat32.decode_encode assms(4))
    then have "quad_at (fat_byte ?vol') k = value"
      by (simp only: decode32_def k)
    then have "write_entry vol it value = (Inr (), ?vol')"
      unfolding write_entry_def l(2,3) Let_def
      using 3 k3 k_lt
        put [where j = 0] put [where j = 1] put [where j = 2] put [where j = 3]
        get [where j = 0] get [where j = 1] get [where j = 2] get [where j = 3] top_nibble [of "value"] assms(4)
      by (simp add: fp quad_at_def pair_at_def)
    moreover have "fat_write vol ?vol' ?S"
      unfolding S' by (rule fat_write_trans [OF fat_write_trans [OF fat_write_trans [OF wr0 wr] wr] wr])
        (use k3 in \<open>simp_all add: fp\<close>)
    ultimately show ?thesis
      using enc by (intro that [of ?vol']) (simp_all add: assms(2))
  qed
qed
end
