(* ===== verification/FATMirrors.thy ===== *)
theory FATMirrors
  imports FATTableIterator
begin

text \<open>
  Writing an entry of the file allocation table as a whole (\<open>FATTableIterator::SetEntry\<close> with \<open>AcquireMirrorBlocks\<close> and
  \<open>CopyToMirrorBlocks\<close>): the write changes one entry of the active FAT, keeps the copies equal to it, marks every changed
  sector dirty, and changes nothing when an exception is thrown.
\<close>

section \<open>Sectors of the active FAT and their copies\<close>

definition in_active :: "FATVolume \<Rightarrow> int \<Rightarrow> bool" where
  "in_active vol s \<longleftrightarrow> int (fat_start vol) \<le> s \<and> s < int (fat_start vol + m_SectorsPerFAT vol)"

definition mirror_fats :: "FATVolume \<Rightarrow> nat list" where
  "mirror_fats vol = (if m_FATMirrored vol then filter (\<lambda>f. f \<noteq> m_ActiveFAT vol) [0..<m_FATCount vol] else [])"

definition mirror_sector :: "FATVolume \<Rightarrow> nat \<Rightarrow> int \<Rightarrow> int" where
  "mirror_sector vol f s = int (m_ReservedSectors vol + f * m_SectorsPerFAT vol) + (s - int (fat_start vol))"

definition mirror_sectors :: "FATVolume \<Rightarrow> int \<Rightarrow> int list" where
  "mirror_sectors vol s = map (\<lambda>f. mirror_sector vol f s) (mirror_fats vol)"

definition mirrors_equal :: "FATVolume \<Rightarrow> bool" where
  "mirrors_equal vol \<longleftrightarrow> (\<forall>s. in_active vol s \<longrightarrow> (\<forall>t \<in> set (mirror_sectors vol s). m_Blocks vol t = m_Blocks vol s))"

definition fat_region :: "FATVolume \<Rightarrow> int set" where
  "fat_region vol = {int (m_ReservedSectors vol)..<int (m_ReservedSectors vol + m_FATCount vol * m_SectorsPerFAT vol)}"

lemma same_fat_offset:
  assumes "(f::nat) * n + i = g * n + j" "i < n" "j < n"
  shows "f = g \<and> i = j"
proof -
  have "(f * n + i) div n = f" "(g * n + j) div n = g" "(f * n + i) mod n = i" "(g * n + j) mod n = j"
    using assms(2,3) by simp_all
  then show ?thesis
    using assms(1) by metis
qed

lemma mirror_sector_offset:
  assumes "in_active vol s"
  obtains i where "i < m_SectorsPerFAT vol" "s = int (m_ReservedSectors vol + (m_ActiveFAT vol * m_SectorsPerFAT vol + i))"
    "\<forall>f. mirror_sector vol f s = int (m_ReservedSectors vol + (f * m_SectorsPerFAT vol + i))"
proof -
  obtain i where "s = int (fat_start vol) + int i" "i < m_SectorsPerFAT vol"
    using assms zle_iff_zadd [of "int (fat_start vol)" s] by (auto simp: in_active_def)
  then show thesis
    by (intro that [of i]) (simp_all add: fat_start_def mirror_sector_def)
qed

lemma mirror_sectors_apart:
  assumes "in_active vol s" "t \<in> set (mirror_sectors vol s)"
  shows "\<not> in_active vol t" "in_active vol s' \<Longrightarrow> t \<in> set (mirror_sectors vol s') \<Longrightarrow> s' = s"
proof -
  obtain f where f: "f \<noteq> m_ActiveFAT vol" "t = mirror_sector vol f s"
    using assms(2) by (auto simp: mirror_sectors_def mirror_fats_def split: if_splits)
  obtain i where i: "i < m_SectorsPerFAT vol" "s = int (m_ReservedSectors vol + (m_ActiveFAT vol * m_SectorsPerFAT vol + i))"
      "\<forall>f. mirror_sector vol f s = int (m_ReservedSectors vol + (f * m_SectorsPerFAT vol + i))"
    by (rule mirror_sector_offset [OF assms(1)])
  have same: "f = g \<and> i = j"
    if "t = int (m_ReservedSectors vol + (g * m_SectorsPerFAT vol + j))" "j < m_SectorsPerFAT vol" for g j
  proof (rule same_fat_offset [OF _ i(1) that(2)])
    show "f * m_SectorsPerFAT vol + i = g * m_SectorsPerFAT vol + j"
      using that(1) f(2) i(3) by (simp only: of_nat_eq_iff add_left_cancel)
  qed
  show "\<not> in_active vol t"
  proof
    assume "in_active vol t"
    then obtain j where "j < m_SectorsPerFAT vol" "t = int (m_ReservedSectors vol + (m_ActiveFAT vol * m_SectorsPerFAT vol + j))"
      by (rule mirror_sector_offset)
    then show False
      using same f(1) by blast
  qed
  assume s': "in_active vol s'" "t \<in> set (mirror_sectors vol s')"
  obtain g where g: "t = mirror_sector vol g s'"
    using s'(2) by (auto simp: mirror_sectors_def)
  obtain j where "j < m_SectorsPerFAT vol" "s' = int (m_ReservedSectors vol + (m_ActiveFAT vol * m_SectorsPerFAT vol + j))"
      "\<forall>f. mirror_sector vol f s' = int (m_ReservedSectors vol + (f * m_SectorsPerFAT vol + j))"
    by (rule mirror_sector_offset [OF s'(1)])
  then show "s' = s"
    using same [of g j] g i(2) by simp
qed

lemma active_in_region:
  assumes "volume_geometry vol" "in_active vol s"
  shows "s \<in> fat_region vol" "set (mirror_sectors vol s) \<subseteq> fat_region vol"
proof -
  obtain i where i: "i < m_SectorsPerFAT vol" "s = int (m_ReservedSectors vol + (m_ActiveFAT vol * m_SectorsPerFAT vol + i))"
      "\<forall>f. mirror_sector vol f s = int (m_ReservedSectors vol + (f * m_SectorsPerFAT vol + i))"
    by (rule mirror_sector_offset [OF assms(2)])
  have "int (m_ReservedSectors vol + (f * m_SectorsPerFAT vol + i)) \<in> fat_region vol" if "f < m_FATCount vol" for f
  proof -
    have "f * m_SectorsPerFAT vol + m_SectorsPerFAT vol \<le> m_FATCount vol * m_SectorsPerFAT vol"
      using mult_le_mono1 [of "Suc f" "m_FATCount vol" "m_SectorsPerFAT vol"] that by simp
    then have "m_ReservedSectors vol + (f * m_SectorsPerFAT vol + i) < m_ReservedSectors vol + m_FATCount vol * m_SectorsPerFAT vol"
      using i(1) by linarith
    then show ?thesis
      unfolding fat_region_def by (simp only: atLeastLessThan_iff of_nat_le_iff of_nat_less_iff le_add1 simp_thms)
  qed
  note region = this
  show "s \<in> fat_region vol"
    unfolding i(2) by (rule region [OF geometry_simps(6) [OF assms(1)]])
  show "set (mirror_sectors vol s) \<subseteq> fat_region vol"
    using region by (auto simp only: i(3) [rule_format] mirror_sectors_def mirror_fats_def set_map set_filter set_upt atLeastLessThan_iff list.set split: if_splits)
qed

section \<open>Acquiring and filling the mirror blocks\<close>

lemma AcquireMirrorBlocks_loop_cases:
  assumes "length mirrorBlocks + length (filter (\<lambda>f. f \<noteq> m_ActiveFAT vol) fats) < FAT_MAX_SUPPORTED_FAT_COUNT"
  shows "(\<exists>e n'. AcquireMirrorBlocks_loop off fats mirrorBlocks (vol\<lparr>m_GetBlockCalls := n\<rparr>) = (Inl e, vol\<lparr>m_GetBlockCalls := n'\<rparr>)
            \<and> can_fail vol e) \<or>
         (\<exists>n'. AcquireMirrorBlocks_loop off fats mirrorBlocks (vol\<lparr>m_GetBlockCalls := n\<rparr>) =
            (Inr (mirrorBlocks @ map (\<lambda>f. loaded (int (m_ReservedSectors vol + f * m_SectorsPerFAT vol) + off))
                 (filter (\<lambda>f. f \<noteq> m_ActiveFAT vol) fats)), vol\<lparr>m_GetBlockCalls := n'\<rparr>))"
  using assms
proof (induction fats arbitrary: mirrorBlocks n)
  case (Cons f fats)
  show ?case
  proof (cases "f = m_ActiveFAT vol")
    case True
    then show ?thesis
      using Cons.IH [of mirrorBlocks n] Cons.prems by simp
  next
    case False
    show ?thesis
    proof (cases "m_GetBlockFails vol n")
      case (Some e)
      then have "can_fail vol e"
        by (auto simp: can_fail_def)
      with False Some show ?thesis
        by (auto simp: GetBlock_trw_eq)
    next
      case None
      let ?d = "loaded (int (m_ReservedSectors vol + f * m_SectorsPerFAT vol) + off)"
      have "\<not> FAT_MAX_SUPPORTED_FAT_COUNT - 1 \<le> length mirrorBlocks"
        using False Cons.prems by simp
      then have "AcquireMirrorBlocks_loop off (f # fats) mirrorBlocks (vol\<lparr>m_GetBlockCalls := n\<rparr>) =
          AcquireMirrorBlocks_loop off fats (mirrorBlocks @ [?d]) (vol\<lparr>m_GetBlockCalls := Suc n\<rparr>)"
        using False None by (simp add: GetBlock_trw_eq) (simp add: loaded_def)
      then show ?thesis
        using False Cons.IH [of "mirrorBlocks @ [?d]" "Suc n"] Cons.prems by simp
    qed
  qed
qed auto

lemma AcquireMirrorBlocks_cases:
  assumes "volume_geometry vol" "in_active vol s"
  obtains
    (fail) e n' where "AcquireMirrorBlocks s (vol\<lparr>m_GetBlockCalls := n\<rparr>) = (Inl e, vol\<lparr>m_GetBlockCalls := n'\<rparr>)" "can_fail vol e"
  | (ok) n' where "AcquireMirrorBlocks s (vol\<lparr>m_GetBlockCalls := n\<rparr>) =
      (Inr (map loaded (mirror_sectors vol s)), vol\<lparr>m_GetBlockCalls := n'\<rparr>)"
proof (cases "m_FATMirrored vol")
  case False
  then show thesis
    by (intro ok [of n]) (simp add: AcquireMirrorBlocks_def mirror_sectors_def mirror_fats_def)
next
  case True
  have "length (filter (\<lambda>f. f \<noteq> m_ActiveFAT vol) [0..<m_FATCount vol]) < m_FATCount vol"
    using length_filter_less [of "m_ActiveFAT vol" "[0..<m_FATCount vol]"] geometry_simps(6) [OF assms(1)] by simp
  then have "length ([] :: KCacheBlockDesc list) + length (filter (\<lambda>f. f \<noteq> m_ActiveFAT vol) [0..<m_FATCount vol])
      < FAT_MAX_SUPPORTED_FAT_COUNT"
    using geometry_simps(7) [OF assms(1)] by simp
  note cases = AcquireMirrorBlocks_loop_cases [OF this, of "s - int (fat_start vol)" n]
  have "AcquireMirrorBlocks s (vol\<lparr>m_GetBlockCalls := n\<rparr>) =
      AcquireMirrorBlocks_loop (s - int (fat_start vol)) [0..<m_FATCount vol] [] (vol\<lparr>m_GetBlockCalls := n\<rparr>)"
    using True assms(2) geometry_simps(7) [OF assms(1)]
    by (simp add: AcquireMirrorBlocks_def in_active_def fat_start_def)
  with cases True show thesis
    by (elim disjE exE conjE) (rule fail ok; simp add: mirror_sectors_def mirror_fats_def mirror_sector_def comp_def)+
qed

lemma CopyToMirrorBlocks_eq:
  assumes "blocks_ok vol" "length source = m_BytesPerSector vol"
  shows "CopyToMirrorBlocks source (map loaded ss) vol =
    vol\<lparr>m_Blocks := \<lambda>s. if s \<in> set ss then source else m_Blocks vol s,
        m_DirtyBlocks := \<lambda>s. s \<in> set ss \<or> m_DirtyBlocks vol s\<rparr>"
  using assms
proof (induction ss arbitrary: vol)
  case (Cons s ss)
  let ?vol = "vol\<lparr>m_Blocks := (m_Blocks vol)(s := source), m_DirtyBlocks := (m_DirtyBlocks vol)(s := True)\<rparr>"
  have "memcpy (m_Blocks vol s) source (m_BytesPerSector vol) = source"
    using blocks_okD [OF Cons.prems(1)] Cons.prems(2) by (simp add: memcpy_def)
  then have "CopyToMirrorBlocks source (map loaded (s # ss)) vol = CopyToMirrorBlocks source (map loaded ss) ?vol"
    by (simp add: loaded_def MarkDirty_def)
  also have "blocks_ok ?vol"
    using Cons.prems by (simp add: blocks_ok_def)
  from Cons.IH [OF this] have "CopyToMirrorBlocks source (map loaded ss) ?vol =
      vol\<lparr>m_Blocks := \<lambda>t. if t \<in> set ss then source else m_Blocks ?vol t,
          m_DirtyBlocks := \<lambda>t. t \<in> set ss \<or> m_DirtyBlocks ?vol t\<rparr>"
    using Cons.prems(2) by simp
  also have "\<dots> = vol\<lparr>m_Blocks := \<lambda>t. if t \<in> set (s # ss) then source else m_Blocks vol t,
        m_DirtyBlocks := \<lambda>t. t \<in> set (s # ss) \<or> m_DirtyBlocks vol t\<rparr>"
    by (intro arg_cong2 [where f = "\<lambda>b d. vol\<lparr>m_Blocks := b, m_DirtyBlocks := d\<rparr>"]) auto
  finally show ?case .
qed simp

section \<open>Publishing a changed sector\<close>

text \<open>Marking a sector of the active FAT dirty and copying it to the mirrors.\<close>

definition publish :: "int \<Rightarrow> FATVolume \<Rightarrow> FATVolume" where
  "publish s vol =
     vol\<lparr>m_Blocks := \<lambda>t. if t \<in> set (mirror_sectors vol s) then m_Blocks vol s else m_Blocks vol t,
         m_DirtyBlocks := \<lambda>t. t \<in> set (mirror_sectors vol s) \<or> t = s \<or> m_DirtyBlocks vol t\<rparr>"

lemma publish_eq:
  assumes "blocks_ok vol" "mirror_sectors vol s = ss"
  shows "CopyToMirrorBlocks (m_Blocks (MarkDirty (loaded s) vol) s) (map loaded ss) (MarkDirty (loaded s) vol) = publish s vol"
proof -
  let ?vol = "vol\<lparr>m_DirtyBlocks := (m_DirtyBlocks vol)(s := True)\<rparr>"
  have "blocks_ok ?vol"
    using assms(1) by (simp add: blocks_ok_def)
  from CopyToMirrorBlocks_eq [OF this, of "m_Blocks ?vol s" ss] blocks_okD(1) [OF assms(1)] show ?thesis
    by (simp add: MarkDirty_def loaded_def publish_def assms(2) fun_upd_def disj_commute)
      (intro arg_cong2 [where f = "\<lambda>b d. vol\<lparr>m_Blocks := b, m_DirtyBlocks := d\<rparr>"], auto)
qed

text \<open>
  The state between the write and the last copy: the sectors \<open>A\<close> of the active FAT are still to be published, the rest is as it
  should be.
\<close>

definition fat_saved :: "FATVolume \<Rightarrow> int set \<Rightarrow> FATVolume \<Rightarrow> bool" where
  "fat_saved vol A vol' \<longleftrightarrow>
     vol' = vol\<lparr>m_Blocks := m_Blocks vol', m_DirtyBlocks := m_DirtyBlocks vol', m_GetBlockCalls := m_GetBlockCalls vol'\<rparr> \<and>
     blocks_ok vol' \<and>
     (mirrors_equal vol \<longrightarrow>
       (\<forall>s. in_active vol s \<and> s \<notin> A \<longrightarrow> (\<forall>t \<in> set (mirror_sectors vol s). m_Blocks vol' t = m_Blocks vol' s))) \<and>
     (\<forall>s. m_Blocks vol' s \<noteq> m_Blocks vol s \<longrightarrow> s \<in> fat_region vol \<and> (s \<in> A \<or> m_DirtyBlocks vol' s)) \<and>
     (\<forall>s. m_DirtyBlocks vol s \<longrightarrow> m_DirtyBlocks vol' s) \<and>
     (\<forall>s. m_DirtyBlocks vol' s \<longrightarrow> m_DirtyBlocks vol s \<or> s \<in> fat_region vol)"

lemma fat_saved_fields:
  assumes "fat_saved vol A vol'"
  shows "fat_start vol' = fat_start vol" "mirror_sectors vol' s = mirror_sectors vol s" "m_BytesPerSector vol' = m_BytesPerSector vol"
    "m_FATBits vol' = m_FATBits vol" "in_active vol' s = in_active vol s" "volume_geometry vol' = volume_geometry vol"
    "IsDataCluster vol' c = IsDataCluster vol c" "m_SectorsPerFAT vol' = m_SectorsPerFAT vol" "blocks_ok vol'"
proof -
  obtain b d n where "vol' = vol\<lparr>m_Blocks := b, m_DirtyBlocks := d, m_GetBlockCalls := n\<rparr>" "blocks_ok vol'"
    using assms unfolding fat_saved_def by blast
  then show "fat_start vol' = fat_start vol" "mirror_sectors vol' s = mirror_sectors vol s" "m_BytesPerSector vol' = m_BytesPerSector vol"
    "m_FATBits vol' = m_FATBits vol" "in_active vol' s = in_active vol s" "volume_geometry vol' = volume_geometry vol"
    "IsDataCluster vol' c = IsDataCluster vol c" "m_SectorsPerFAT vol' = m_SectorsPerFAT vol" "blocks_ok vol'"
    by (simp_all add: fat_start_def mirror_sectors_def mirror_fats_def mirror_sector_def in_active_def)
qed

lemma publish_saved:
  assumes "volume_geometry vol" "in_active vol s" "fat_saved vol (insert s A) vol'"
  shows "fat_saved vol A (publish s vol')"
proof -
  note f = fat_saved_fields [OF assms(3)]
  define B where "B = m_Blocks vol'"
  have blocks: "m_Blocks (publish s vol') t = (if t \<in> set (mirror_sectors vol s) then B s else B t)" for t
    by (simp add: publish_def f B_def)
  have dirty: "m_DirtyBlocks (publish s vol') t \<longleftrightarrow> t \<in> set (mirror_sectors vol s) \<or> t = s \<or> m_DirtyBlocks vol' t" for t
    by (simp add: publish_def f)
  have mirrors: "m_Blocks (publish s vol') t = m_Blocks (publish s vol') s'"
    if "mirrors_equal vol" "in_active vol s'" "s' \<notin> A" "t \<in> set (mirror_sectors vol s')" for s' t
  proof -
    have "s' \<notin> set (mirror_sectors vol s)"
      using mirror_sectors_apart(1) [OF assms(2)] that(2) by blast
    then show ?thesis
      using that assms(3) mirror_sectors_apart(2) [OF assms(2) _ that(2) that(4)]
      unfolding blocks fat_saved_def B_def by (cases "s' = s") auto
  qed
  have "publish s vol' = vol\<lparr>m_Blocks := m_Blocks (publish s vol'), m_DirtyBlocks := m_DirtyBlocks (publish s vol'),
      m_GetBlockCalls := m_GetBlockCalls (publish s vol')\<rparr>"
  proof -
    have "vol' = vol\<lparr>m_Blocks := m_Blocks vol', m_DirtyBlocks := m_DirtyBlocks vol', m_GetBlockCalls := m_GetBlockCalls vol'\<rparr>"
      using assms(3) unfolding fat_saved_def by blast
    from arg_cong [OF this, of "publish s"] show ?thesis
      unfolding publish_def by simp
  qed
  moreover have "blocks_ok (publish s vol')"
    using f(9) by (simp add: blocks_ok_def publish_def)
  moreover note active_in_region [OF assms(1,2)]
  ultimately show ?thesis
    using assms(3) mirrors unfolding fat_saved_def blocks dirty B_def [symmetric] by (auto split: if_splits)
qed

lemma publish_fat_byte:
  assumes "in_active vol s" "k < m_SectorsPerFAT vol * m_BytesPerSector vol"
  shows "fat_byte (publish s vol) k = fat_byte vol k"
proof -
  have "k div m_BytesPerSector vol < m_SectorsPerFAT vol"
    using assms(2) by (rule less_mult_imp_div_less)
  then have "in_active vol (int (fat_start vol + k div m_BytesPerSector vol))"
    by (simp add: in_active_def)
  then have "int (fat_start vol + k div m_BytesPerSector vol) \<notin> set (mirror_sectors vol s)"
    using mirror_sectors_apart(1) [OF assms(1)] by blast
  then show ?thesis
    by (simp add: fat_byte_def publish_def fat_start_def)
qed

section \<open>SetEntry\<close>

lemma calls_simps [simp]:
  "fat_start (vol\<lparr>m_GetBlockCalls := n\<rparr>) = fat_start vol" "entry_offset (vol\<lparr>m_GetBlockCalls := n\<rparr>) = entry_offset vol"
  "blocks_ok (vol\<lparr>m_GetBlockCalls := n\<rparr>) = blocks_ok vol" "it_pos (vol\<lparr>m_GetBlockCalls := n\<rparr>) = it_pos vol"
  "it_cached (vol\<lparr>m_GetBlockCalls := n\<rparr>) = it_cached vol" "it_loaded (vol\<lparr>m_GetBlockCalls := n\<rparr>) = it_loaded vol"
  "straddles (vol\<lparr>m_GetBlockCalls := n\<rparr>) = straddles vol" "fat_byte (vol\<lparr>m_GetBlockCalls := n\<rparr>) = fat_byte vol"
  "in_active (vol\<lparr>m_GetBlockCalls := n\<rparr>) = in_active vol" "mirror_sectors (vol\<lparr>m_GetBlockCalls := n\<rparr>) = mirror_sectors vol"
  by (auto simp: fun_eq_iff fat_start_def entry_offset_def blocks_ok_def it_pos_def it_cached_def it_loaded_def straddles_def fat_byte_def
      in_active_def mirror_sectors_def mirror_fats_def mirror_sector_def)

lemma fat_write_saved:
  assumes "volume_geometry vol" "blocks_ok vol'" "fat_write (vol\<lparr>m_GetBlockCalls := n\<rparr>) vol' S" "\<forall>s \<in> S. in_active vol s"
  shows "fat_saved vol S vol'"
proof -
  have "vol' = vol\<lparr>m_GetBlockCalls := n\<rparr>\<lparr>m_Blocks := m_Blocks vol'\<rparr>"
    using assms(3) unfolding fat_write_def by blast
  also have "\<dots> = vol\<lparr>m_Blocks := m_Blocks vol', m_GetBlockCalls := n\<rparr>"
    by simp
  finally obtain b where eq: "vol' = vol\<lparr>m_Blocks := b, m_GetBlockCalls := n\<rparr>" ..
  have "vol' = vol\<lparr>m_Blocks := m_Blocks vol', m_DirtyBlocks := m_DirtyBlocks vol', m_GetBlockCalls := m_GetBlockCalls vol'\<rparr>"
    "m_DirtyBlocks vol' = m_DirtyBlocks vol"
    by (simp_all add: eq)
  moreover have "m_Blocks vol' t = m_Blocks vol' s"
    if "mirrors_equal vol" "in_active vol s" "s \<notin> S" "t \<in> set (mirror_sectors vol s)" for s t
  proof -
    have "t \<notin> S"
      using mirror_sectors_apart(1) [OF that(2,4)] assms(4) by blast
    then show ?thesis
      using assms(3) that by (simp add: fat_write_def mirrors_equal_def)
  qed
  moreover have "s \<in> S \<and> s \<in> fat_region vol" if "m_Blocks vol' s \<noteq> m_Blocks vol s" for s
    using that assms(3,4) active_in_region(1) [OF assms(1)] by (auto simp: fat_write_def)
  ultimately show ?thesis
    using assms(2) unfolding fat_saved_def by simp
qed

lemma SetEntry_cases:
  assumes "volume_geometry vol" "blocks_ok vol" "it_pos vol it" "it_cached vol it" "it_fresh vol it" "take_bit 28 value = value"
  obtains
    (fail) e n it' where "SetEntry vol it value = (Inl e, vol\<lparr>m_GetBlockCalls := n\<rparr>, it')" "can_fail vol e"
      "it_pos vol it'" "it_cached vol it'" "m_CurrentCluster it' = m_CurrentCluster it"
  | (ok) vol' it' where "SetEntry vol it value = (Inr (), vol', it')"
      "it_loaded vol it'" "m_CurrentCluster it' = m_CurrentCluster it" "fat_saved vol {} vol'"
      "\<And>k. k < m_SectorsPerFAT vol * m_BytesPerSector vol \<Longrightarrow>
         fat_byte vol' k = encode_entry (m_FATBits vol) (fat_byte vol) (unat (m_CurrentCluster it)) value k"
proof (cases rule: Update_cases [OF assms(1,3,4,5), case_names fail ok])
  case (fail e n it')
  then show thesis
    by (intro that(1) [of e n it']) (simp_all add: SetEntry_def)
next
  case (ok n it1)
  define s1 where "s1 = m_LoadedSector1 it1"
  define s2 where "s2 = m_LoadedSector2 it1"
  have it1: "it_pos vol it1" "it_cached vol it1" "m_CurrentSector it1 = s1"
    using ok(2) by (simp_all add: it_loaded_def s1_def)
  have s1: "s1 \<noteq> - 1" "in_active vol s1" "m_Block1 it1 = loaded s1"
    using it1 by (auto simp: it_pos_def it_cached_def s1_def in_active_def)
  have s2: "in_active vol s2" "m_Block2 it1 = loaded s2" if "s2 \<noteq> - 1"
    using that s1(1) it1(2) by (auto simp: it_cached_def s1_def s2_def in_active_def)
  have straddle: "s2 = s1 + 1 \<and> s2 \<noteq> - 1" if "straddles vol it1"
    using ok(2) s1 that by (auto simp: it_loaded_def s1_def s2_def in_active_def)
  show thesis
  proof (cases rule: AcquireMirrorBlocks_cases [OF assms(1) s1(2), of n, case_names fail1 ok1])
    case (fail1 e n')
    then show thesis
      using it1 ok by (intro that(1) [of e n' it1]) (simp_all add: SetEntry_def s1_def)
  next
    case (ok1 n1)
    define second where "second = (if s2 \<noteq> - 1 then AcquireMirrorBlocks s2 (vol\<lparr>m_GetBlockCalls := n1\<rparr>)
        else (Inr [], vol\<lparr>m_GetBlockCalls := n1\<rparr>))"
    consider (fail2) e n' where "second = (Inl e, vol\<lparr>m_GetBlockCalls := n'\<rparr>)" "can_fail vol e"
      | (ok2) n' where "second = (Inr (if s2 \<noteq> - 1 then map loaded (mirror_sectors vol s2) else []), vol\<lparr>m_GetBlockCalls := n'\<rparr>)"
    proof (cases "s2 = - 1")
      case False
      show thesis
      proof (cases rule: AcquireMirrorBlocks_cases [OF assms(1) s2(1) [OF False], of n1, case_names a b])
        case (a e n')
        then show thesis
          using False by (intro that(1) [of e n']) (simp_all add: second_def)
      next
        case (b n')
        then show thesis
          using False by (intro that(2) [of n']) (simp add: second_def)
      qed
    next
      case True
      then show thesis
        by (intro that(2) [of n1]) (simp add: second_def)
    qed
    then show thesis
    proof cases
      case (fail2 e n')
      then have "s2 \<noteq> - 1" "AcquireMirrorBlocks s2 (vol\<lparr>m_GetBlockCalls := n1\<rparr>) = (Inl e, vol\<lparr>m_GetBlockCalls := n'\<rparr>)"
        by (auto simp: second_def split: if_splits)
      with fail2(2) show thesis
        using it1 ok ok1 by (intro that(1) [of e n' it1]) (simp_all add: SetEntry_def s1_def [symmetric] s2_def [symmetric])
    next
      case (ok2 n2)
      then have ok2: "s2 = - 1 \<Longrightarrow> vol\<lparr>m_GetBlockCalls := n1\<rparr> = vol\<lparr>m_GetBlockCalls := n2\<rparr>"
        "s2 \<noteq> - 1 \<Longrightarrow> AcquireMirrorBlocks s2 (vol\<lparr>m_GetBlockCalls := n1\<rparr>) =
           (Inr (map loaded (mirror_sectors vol s2)), vol\<lparr>m_GetBlockCalls := n2\<rparr>)"
        by (auto simp: second_def split: if_splits)
      let ?vol3 = "vol\<lparr>m_GetBlockCalls := n2\<rparr>"
      have "volume_geometry ?vol3" "blocks_ok ?vol3" "it_loaded ?vol3 it1"
        using assms(1,2) ok(2) by simp_all
      from write_entry_eq [OF this assms(6)] obtain vol4 where vol4: "write_entry ?vol3 it1 value = (Inr (), vol4)"
          "fat_byte vol4 = encode_entry (m_FATBits vol) (fat_byte vol) (unat (m_CurrentCluster it)) value" "blocks_ok vol4"
          "fat_write ?vol3 vol4 ({s1} \<union> (if straddles vol it1 then {s1 + 1} else {}))"
        using ok(3) it1(3) by auto
      let ?S = "{s1} \<union> (if s2 \<noteq> - 1 then {s2} else {})"
      have "fat_write ?vol3 vol4 ?S"
        using vol4(4) straddle unfolding fat_write_def by (auto split: if_splits)
      then have saved: "fat_saved vol ?S vol4"
        using s1 s2 by (intro fat_write_saved [OF assms(1) vol4(3)]) auto
      have buffer: "m_Buffer (loaded s) = Some s" for s
        by (simp add: loaded_def)
      note publish1 = publish_eq [OF vol4(3) fat_saved_fields(2) [OF saved], of s1]
      show thesis
      proof (cases "s2 = - 1")
        case True
        note acquired = ok1 [unfolded ok2(1) [OF True]]
        have "SetEntry vol it value = (Inr (), publish s1 vol4, it1)"
          unfolding SetEntry_def ok(1) s1_def [symmetric] s2_def [symmetric] prod.case sum.case acquired
          by (simp add: True vol4(1) s1(3) buffer publish1 Let_def)
        moreover have "fat_saved vol {} (publish s1 vol4)"
          using True saved by (intro publish_saved [OF assms(1) s1(2)]) simp
        ultimately show thesis
          using vol4(2) publish_fat_byte [of vol4 s1] s1(2) fat_saved_fields [OF saved]
          by (intro that(2) [OF _ ok(2,3)]) simp_all
      next
        case False
        have saved1: "fat_saved vol {s2} (publish s1 vol4)"
          using False saved by (intro publish_saved [OF assms(1) s1(2)]) (simp add: insert_commute)
        note publish2 = publish_eq [OF fat_saved_fields(9,2) [OF saved1], of s2]
        have "SetEntry vol it value = (Inr (), publish s2 (publish s1 vol4), it1)"
          unfolding SetEntry_def ok(1) s1_def [symmetric] s2_def [symmetric] prod.case sum.case ok1
          by (simp add: False ok2(2) vol4(1) s1(3) s2(2) buffer publish1 publish2 Let_def)
        moreover have "fat_saved vol {} (publish s2 (publish s1 vol4))"
          using saved1 by (intro publish_saved [OF assms(1) s2(1) [OF False]])
        ultimately show thesis
          using vol4(2) publish_fat_byte [of vol4 s1] publish_fat_byte [of "publish s1 vol4" s2] s1(2) s2(1) [OF False]
            fat_saved_fields [OF saved] fat_saved_fields [OF saved1]
          by (intro that(2) [OF _ ok(2,3)]) simp_all
      qed
    qed
  qed
qed

text \<open>
  An entry that crosses a sector boundary, when only its first sector is loaded: the second sector is not fetched. The second descriptor is empty, and the
  assertion on it fails after the first byte has been written, or it still points to the buffer of a sector loaded before, since \<open>Reset\<close> leaves the
  pointer; then the second byte goes there, and nothing marks that block.
\<close>

lemma CopyToMirrorBlocks_frame:
  assumes "s \<notin> set ss"
  shows "m_Blocks (CopyToMirrorBlocks source (map loaded ss) vol) s = m_Blocks vol s"
    "m_DirtyBlocks (CopyToMirrorBlocks source (map loaded ss) vol) s = m_DirtyBlocks vol s"
  using assms by (induction ss arbitrary: vol) (simp_all add: loaded_def MarkDirty_def Let_def)

lemma SetEntry_unfresh:
  assumes "volume_geometry vol" "it_pos vol it" "it_cached vol it" "\<not> it_fresh vol it"
  obtains
    (fail) e n where "SetEntry vol it value = (Inl e, vol\<lparr>m_GetBlockCalls := n\<rparr>, it)" "can_fail vol e"
  | (fault) vol' where "SetEntry vol it value = (Inl Fault, vol', it)" "m_Buffer (m_Block2 it) = None" "m_DirtyBlocks vol' = m_DirtyBlocks vol"
      "\<And>s. s \<noteq> m_CurrentSector it \<Longrightarrow> m_Blocks vol' s = m_Blocks vol s"
  | (stale) b vol' where "SetEntry vol it value = (Inr (), vol', it)" "m_Buffer (m_Block2 it) = Some b"
      "\<And>s. s \<noteq> m_CurrentSector it \<Longrightarrow> s \<noteq> b \<Longrightarrow> s \<notin> set (mirror_sectors vol (m_CurrentSector it)) \<Longrightarrow> m_Blocks vol' s = m_Blocks vol s"
      "\<And>s. s \<noteq> m_CurrentSector it \<Longrightarrow> s \<notin> set (mirror_sectors vol (m_CurrentSector it)) \<Longrightarrow> m_DirtyBlocks vol' s = m_DirtyBlocks vol s"
proof -
  let ?s = "m_CurrentSector it"
  have f: "straddles vol it" "m_LoadedSector1 it = ?s" "m_LoadedSector2 it \<noteq> ?s + 1"
    using assms(4) by (auto simp: it_fresh_def)
  have s: "?s \<noteq> - 1" "in_active vol ?s"
    using assms(2) entry_sector(1) [OF assms(1), of "m_CurrentCluster it"] by (auto simp: it_pos_def in_active_def)
  then have it: "m_Block1 it = loaded ?s" "m_LoadedSector2 it = - 1"
    using assms(3) f by (auto simp: it_cached_def)
  have bits: "m_FATBits vol = 12" using no_straddle [OF assms(1,2)] f(1) by blast
  have up: "Update vol it = (Inr (), vol, it)"
    using assms(2) f(2) by (simp add: Update_def it_pos_def)
  show thesis
  proof (cases rule: AcquireMirrorBlocks_cases [OF assms(1) s(2), of "m_GetBlockCalls vol", case_names fail ok])
    case (fail e n)
    then show thesis by (intro that(1) [of e n]) (simp_all add: SetEntry_def up f(2))
  next
    case (ok n)
    let ?vol = "vol\<lparr>m_GetBlockCalls := n\<rparr>"
    show thesis
    proof (cases "m_Buffer (m_Block2 it)")
      case None
      obtain vol' where w: "write_entry ?vol it value = (Inl Fault, vol')" "m_DirtyBlocks vol' = m_DirtyBlocks vol"
          "\<And>t. t \<noteq> ?s \<Longrightarrow> m_Blocks vol' t = m_Blocks vol t"
        using f(1) None by (simp add: write_entry_def it loaded_def bits straddles_def Let_def put_byte_def)
      then show thesis using ok None by (intro that(2) [of vol']) (simp_all add: SetEntry_def up f(2) it(2))
    next
      case (Some b)
      obtain vol4 where w: "write_entry ?vol it value = (Inr (), vol4)" "m_DirtyBlocks vol4 = m_DirtyBlocks vol"
          "\<And>t. t \<noteq> ?s \<Longrightarrow> t \<noteq> b \<Longrightarrow> m_Blocks vol4 t = m_Blocks vol t"
        using f(1) Some by (simp add: write_entry_def it loaded_def bits straddles_def Let_def put_byte_def)
      let ?vol' = "CopyToMirrorBlocks (m_Blocks (MarkDirty (loaded ?s) vol4) ?s) (map loaded (mirror_sectors vol ?s)) (MarkDirty (loaded ?s) vol4)"
      have "SetEntry vol it value = (Inr (), ?vol', it)"
        using ok w(1) by (simp add: SetEntry_def up f(2) it Let_def) (simp add: loaded_def)
      then show thesis
      proof (rule that(3) [OF _ Some])
        fix t
        assume t: "t \<noteq> ?s" "t \<notin> set (mirror_sectors vol ?s)"
        then show "m_DirtyBlocks ?vol' t = m_DirtyBlocks vol t"
          by (simp add: CopyToMirrorBlocks_frame MarkDirty_def loaded_def w(2))
        show "m_Blocks ?vol' t = m_Blocks vol t" if "t \<noteq> b"
          using t that by (simp add: CopyToMirrorBlocks_frame MarkDirty_def loaded_def w(3))
      qed
    qed
  qed
qed

section \<open>What reading and writing an entry do\<close>

lemma fat_entry_update:
  assumes "volume_geometry vol" "IsDataCluster vol c" "m_FATBits vol' = m_FATBits vol"
    "\<And>k. k < m_SectorsPerFAT vol * m_BytesPerSector vol \<Longrightarrow> fat_byte vol' k = encode_entry (m_FATBits vol) (fat_byte vol) (unat c') v k"
  shows "fat_entry vol' c =
    (if c = c' then extend_entry (m_FATBits vol) (take_bit (entry_bits (m_FATBits vol)) v) else fat_entry vol c)"
proof -
  have "(unat c + 1) * m_FATBits vol \<le> 8 * (m_SectorsPerFAT vol * m_BytesPerSector vol)"
    using assms(1,2) by (intro order_trans [OF mult_le_mono1 geometry_simps(8) [OF assms(1)]]) (simp add: IsDataCluster_iff)
  then have "decode_entry (m_FATBits vol) (fat_byte vol') (unat c) =
      decode_entry (m_FATBits vol) (encode_entry (m_FATBits vol) (fat_byte vol) (unat c') v) (unat c)"
    using assms(4) geometry_simps(2) [OF assms(1)] by (intro decode_entry_cong) (simp_all add: mult.commute)
  then show ?thesis
    by (auto simp: fat_entry_def assms(3) decode_encode_entry dest: unsigned_word_eqI)
qed

text \<open>
  Reading the current entry returns the entry of the table and changes nothing on the volume; the only errors are exceptions of the
  block cache.
\<close>

theorem GetEntry_spec:
  assumes "volume_geometry vol" "it_pos vol it" "it_cached vol it" "it_fresh vol it"
  shows "case FATTableIterator.GetEntry vol it of (r, vol', it') \<Rightarrow>
    m_Blocks vol' = m_Blocks vol \<and> m_DirtyBlocks vol' = m_DirtyBlocks vol \<and> m_CurrentCluster it' = m_CurrentCluster it \<and>
    (case r of Inl e \<Rightarrow> can_fail vol e | Inr v \<Rightarrow> v = fat_entry vol (m_CurrentCluster it))"
proof (cases rule: Update_cases [OF assms, case_names fail ok])
  case (fail e n it')
  then show ?thesis
    by (simp add: FATTableIterator.GetEntry_def)
next
  case (ok n it')
  have "read_entry (vol\<lparr>m_GetBlockCalls := n\<rparr>) it' = Inr (fat_entry vol (m_CurrentCluster it))"
    using read_entry_eq [of "vol\<lparr>m_GetBlockCalls := n\<rparr>" it'] assms(1) ok(2,3) by (simp add: fat_entry_def)
  then show ?thesis
    using ok by (simp add: FATTableIterator.GetEntry_def)
qed

text \<open>
  C35. Writing the current entry changes this entry and no other entry of the table, keeps the copies of the FAT equal to the active one,
  and marks every changed sector dirty, all of them in the FAT region. When the block cache throws, nothing on the volume has changed. This holds for every
  cursor at an entry, except for an entry that crosses a sector boundary, which only 12-bit volumes have, when its first sector is
  loaded already and the second one is not (\<open>it_fresh\<close> fails): then the second sector is not fetched. The assertion on the second
  buffer fails, after the first byte has been changed in a buffer that is not marked dirty; or, if the descriptor still points to the
  buffer of a sector that was loaded before, the second byte is changed there and no other than the first sector and its
  copies are marked dirty.
\<close>

theorem SetEntry_spec:
  assumes "volume_geometry vol" "blocks_ok vol" "it_pos vol it" "it_cached vol it" "take_bit 28 value = value"
  shows "case FATTableIterator.SetEntry vol it value of
    (Inl e, vol', it') \<Rightarrow> m_DirtyBlocks vol' = m_DirtyBlocks vol \<and>
      (can_fail vol e \<and> m_Blocks vol' = m_Blocks vol \<or>
       e = Fault \<and> \<not> it_fresh vol it \<and> m_FATBits vol = 12 \<and> m_Buffer (m_Block2 it) = None \<and>
         (\<forall>s. s \<noteq> m_CurrentSector it \<longrightarrow> m_Blocks vol' s = m_Blocks vol s))
  | (Inr _, vol', it') \<Rightarrow>
      if it_fresh vol it then
        (\<forall>c. IsDataCluster vol c \<longrightarrow> fat_entry vol' c =
           (if c = m_CurrentCluster it then extend_entry (m_FATBits vol) (take_bit (entry_bits (m_FATBits vol)) value)
            else fat_entry vol c)) \<and>
        (mirrors_equal vol \<longrightarrow> mirrors_equal vol') \<and>
        (\<forall>s. m_Blocks vol' s \<noteq> m_Blocks vol s \<longrightarrow> s \<in> fat_region vol \<and> m_DirtyBlocks vol' s)
      else
        m_FATBits vol = 12 \<and> (\<exists>b. m_Buffer (m_Block2 it) = Some b \<and>
          (\<forall>s. s \<noteq> m_CurrentSector it \<and> s \<noteq> b \<and> s \<notin> set (mirror_sectors vol (m_CurrentSector it)) \<longrightarrow> m_Blocks vol' s = m_Blocks vol s) \<and>
          (\<forall>s. s \<noteq> m_CurrentSector it \<and> s \<notin> set (mirror_sectors vol (m_CurrentSector it)) \<longrightarrow> m_DirtyBlocks vol' s = m_DirtyBlocks vol s))"
proof (cases "it_fresh vol it")
  case True
  show ?thesis
  proof (cases rule: SetEntry_cases [OF assms(1-4) True assms(5), case_names fail ok])
    case (fail e n it')
    then show ?thesis
      by simp
  next
    case (ok vol' it')
    note fields = fat_saved_fields [OF ok(4)]
    have "mirrors_equal vol'" if "mirrors_equal vol"
      using ok(4) that unfolding mirrors_equal_def [of vol'] fat_saved_def fields by blast
    moreover have "s \<in> fat_region vol \<and> m_DirtyBlocks vol' s" if "m_Blocks vol' s \<noteq> m_Blocks vol s" for s
      using ok(4) that unfolding fat_saved_def by blast
    ultimately show ?thesis
      using True fat_entry_update [OF assms(1) _ fields(4) ok(5)] by (simp add: ok(1))
  qed
next
  case False
  then have "m_FATBits vol = 12"
    using no_straddle [OF assms(1,3)] by (auto simp: it_fresh_def)
  with False show ?thesis
    by (cases rule: SetEntry_unfresh [OF assms(1,3,4) False, of "value", case_names fail fault stale]) simp_all
qed

text \<open>An empty floppy disk.\<close>

definition blank_floppy :: FATVolume where
  "blank_floppy = floppy (\<lambda>_. replicate 512 0) (\<lambda>_. None)"

lemma blank_floppy_ok:
  "volume_geometry blank_floppy" "blocks_ok blank_floppy"
  "it_pos blank_floppy (FATTableIterator_new blank_floppy 2)" "it_cached blank_floppy (FATTableIterator_new blank_floppy 2)"
  "it_fresh blank_floppy (FATTableIterator_new blank_floppy 2)" "m_CurrentCluster (FATTableIterator_new blank_floppy 2) = 2"
  by (simp_all add: volume_geometry_def FAT_MAX_SUPPORTED_FAT_COUNT_def blank_floppy_def floppy_accepted blocks_ok_def it_pos_def it_cached_def it_fresh_def FATTableIterator_new_def
      IsDataCluster_iff fat_start_def entry_offset_def straddles_def Let_def)

theorem GetEntry_spec_witness:
  "case FATTableIterator.GetEntry blank_floppy (FATTableIterator_new blank_floppy 2) of (r, vol', it') \<Rightarrow>
    m_Blocks vol' = m_Blocks blank_floppy \<and> m_DirtyBlocks vol' = m_DirtyBlocks blank_floppy \<and>
    m_CurrentCluster it' = m_CurrentCluster (FATTableIterator_new blank_floppy 2) \<and>
    (case r of Inl e \<Rightarrow> can_fail blank_floppy e
     | Inr v \<Rightarrow> v = fat_entry blank_floppy (m_CurrentCluster (FATTableIterator_new blank_floppy 2)))"
  by (rule GetEntry_spec) (rule blank_floppy_ok)+

theorem SetEntry_spec_witness:
  "case FATTableIterator.SetEntry blank_floppy (FATTableIterator_new blank_floppy 2) END_FAT_ENTRY of
    (Inl e, vol', it') \<Rightarrow> can_fail blank_floppy e \<and> m_Blocks vol' = m_Blocks blank_floppy \<and>
      m_DirtyBlocks vol' = m_DirtyBlocks blank_floppy
  | (Inr _, vol', it') \<Rightarrow>
      (\<forall>c. IsDataCluster blank_floppy c \<longrightarrow> fat_entry vol' c =
         (if c = m_CurrentCluster (FATTableIterator_new blank_floppy 2)
          then extend_entry (m_FATBits blank_floppy) (take_bit (entry_bits (m_FATBits blank_floppy)) END_FAT_ENTRY)
          else fat_entry blank_floppy c)) \<and>
      (mirrors_equal blank_floppy \<longrightarrow> mirrors_equal vol') \<and>
      (\<forall>s. m_Blocks vol' s \<noteq> m_Blocks blank_floppy s \<longrightarrow> s \<in> fat_region blank_floppy \<and> m_DirtyBlocks vol' s)"
proof -
  have "take_bit 28 END_FAT_ENTRY = END_FAT_ENTRY"
    by (simp add: END_FAT_ENTRY_def take_bit_eq_mask mask_eq_exp_minus_1)
  note SetEntry_spec [OF blank_floppy_ok(1-4) this]
  then show ?thesis using blank_floppy_ok(5) by (auto split: prod.splits sum.splits)
qed

end
