(* ===== verification/FATTable.thy ===== *)
theory FATTable
  imports FATMirrors
begin

text \<open>
  Cluster chains (\<open>FATTable.h\<close>, \<open>FATTable.cpp\<close>, and \<open>FATVolume::UpdateFSInfo\<close>): validated access to entries, following and
  measuring a chain, allocating and releasing clusters with the rollback of a failed allocation. The table object is the field
  \<open>m_FATTable\<close> of the volume. \<open>SetChainLength\<close>, which rewrites the directory entry of a file, is not modelled.
\<close>

section \<open>Entries\<close>

definition SetEntry :: "u32 \<Rightarrow> u32 \<Rightarrow> FATVolume \<Rightarrow> unit result \<times> FATVolume" where
  "SetEntry cluster value vol =
     (case SetCluster vol cluster (m_FATTable vol) of
        Inl e \<Rightarrow> (Inl e, vol)
      | Inr it \<Rightarrow>
          case FATTableIterator.SetEntry vol it value of (r, vol1, it1) \<Rightarrow> (r, vol1\<lparr>m_FATTable := it1\<rparr>))"

definition check_entry :: "FATVolume \<Rightarrow> u32 \<Rightarrow> u32 result" where
  "check_entry vol value =
     (if value = 0 \<or> IsDataCluster vol value then Inr value
      else if value \<ge> END_FAT_ENTRY then Inr END_FAT_ENTRY
      else if value \<ge> BAD_FAT_ENTRY then Inr BAD_FAT_ENTRY
      else Inl IO)"

definition GetEntry :: "u32 \<Rightarrow> FATVolume \<Rightarrow> u32 result \<times> FATVolume" where
  "GetEntry cluster vol =
     (case SetCluster vol cluster (m_FATTable vol) of
        Inl e \<Rightarrow> (Inl e, vol)
      | Inr it \<Rightarrow>
          case FATTableIterator.GetEntry vol it of
            (Inl e, vol1, it1) \<Rightarrow> (Inl e, vol1\<lparr>m_FATTable := it1\<rparr>)
          | (Inr value, vol1, it1) \<Rightarrow> (check_entry vol1 value, vol1\<lparr>m_FATTable := it1\<rparr>))"

section \<open>Following a chain\<close>

fun GetChainEntry_loop :: "nat \<Rightarrow> u32 \<Rightarrow> FATVolume \<Rightarrow> u32 result \<times> FATVolume" where
  "GetChainEntry_loop 0 cluster vol = (Inr cluster, vol)"
| "GetChainEntry_loop (Suc n) cluster vol =
     (case GetEntry cluster vol of
        (Inl e, vol1) \<Rightarrow> (Inl e, vol1)
      | (Inr next, vol1) \<Rightarrow>
          if \<not> IsDataCluster vol1 next then (Inr next, vol1) else GetChainEntry_loop n next vol1)"

definition GetChainEntry :: "u32 \<Rightarrow> nat \<Rightarrow> FATVolume \<Rightarrow> u32 result \<times> FATVolume" where
  "GetChainEntry chainStart index vol =
     (case CheckMagic vol of
        Inl e \<Rightarrow> (Inl e, vol)
      | Inr _ \<Rightarrow>
          if \<not> IsDataCluster vol chainStart \<or> index > m_TotalClusters vol then (Inl IO, vol)
          else GetChainEntry_loop index chainStart vol)"

text \<open>\<open>left\<close> is the number of clusters still to be visited.\<close>

fun CountFreeClusters_loop :: "nat \<Rightarrow> nat \<Rightarrow> FATVolume \<Rightarrow> nat result \<times> FATVolume" where
  "CountFreeClusters_loop 0 count vol = (Inr count, vol)"
| "CountFreeClusters_loop (Suc left) count vol =
     (case FATTableIterator.GetEntry vol (m_FATTable vol) of
        (Inl e, vol1, it1) \<Rightarrow> (Inl e, vol1\<lparr>m_FATTable := it1\<rparr>)
      | (Inr value, vol1, it1) \<Rightarrow>
          case Increment vol1 it1 of
            Inl e \<Rightarrow> (Inl e, vol1\<lparr>m_FATTable := it1\<rparr>)
          | Inr it2 \<Rightarrow> CountFreeClusters_loop left (if value = 0 then count + 1 else count) (vol1\<lparr>m_FATTable := it2\<rparr>))"

definition CountFreeClusters :: "FATVolume \<Rightarrow> nat result \<times> FATVolume" where
  "CountFreeClusters vol =
     (case SetCluster vol FIRST_DATA_CLUSTER (m_FATTable vol) of
        Inl e \<Rightarrow> (Inl e, vol)
      | Inr it \<Rightarrow> CountFreeClusters_loop (m_TotalClusters vol) 0 (vol\<lparr>m_FATTable := it\<rparr>))"

text \<open>The result is the length of the chain and its last cluster.\<close>

fun GetChainLength_loop :: "nat \<Rightarrow> nat \<Rightarrow> u32 \<Rightarrow> FATVolume \<Rightarrow> (nat \<times> u32) result \<times> FATVolume" where
  "GetChainLength_loop 0 count cluster vol = (Inl IO, vol)"
| "GetChainLength_loop (Suc left) count cluster vol =
     (case GetEntry cluster vol of
        (Inl e, vol1) \<Rightarrow> (Inl e, vol1)
      | (Inr nextCluster, vol1) \<Rightarrow>
          if nextCluster = END_FAT_ENTRY then (Inr (count, cluster), vol1)
          else if \<not> IsDataCluster vol1 nextCluster then (Inl IO, vol1)
          else GetChainLength_loop left (count + 1) nextCluster vol1)"

definition GetChainLength :: "u32 \<Rightarrow> FATVolume \<Rightarrow> (nat \<times> u32) result \<times> FATVolume" where
  "GetChainLength cluster vol =
     (case CheckMagic vol of
        Inl e \<Rightarrow> (Inl e, vol)
      | Inr _ \<Rightarrow>
          if \<not> IsDataCluster vol cluster then (Inl IO, vol)
          else GetChainLength_loop (m_TotalClusters vol) 1 cluster vol)"

text \<open>\<open>DumpChain\<close> only logs; its result here is the cluster it ends at.\<close>

fun DumpChain_loop :: "nat \<Rightarrow> u32 \<Rightarrow> FATVolume \<Rightarrow> u32 result \<times> FATVolume" where
  "DumpChain_loop 0 cluster vol = (Inr cluster, vol)"
| "DumpChain_loop (Suc left) cluster vol =
     (if \<not> IsDataCluster vol cluster then (Inr cluster, vol)
      else case GetEntry cluster vol of
        (Inl e, vol1) \<Rightarrow> (Inl e, vol1)
      | (Inr next, vol1) \<Rightarrow> DumpChain_loop left next vol1)"

definition DumpChain :: "u32 \<Rightarrow> FATVolume \<Rightarrow> u32 result \<times> FATVolume" where
  "DumpChain startCluster vol = DumpChain_loop (m_TotalClusters vol) startCluster vol"

section \<open>The FSInfo sector\<close>

definition UpdateFSInfo :: "FATVolume \<Rightarrow> unit result \<times> FATVolume" where
  "UpdateFSInfo vol =
     (if m_FSInfoSector vol \<noteq> 0xffff \<and> \<not> m_ReadOnly vol then
        (case GetBlock_trw (int (m_FSInfoSector vol)) vol of
           (Inl e, vol1) \<Rightarrow> (Inl e, vol1)
         | (Inr bufferDesc, vol1) \<Rightarrow>
             (case m_Buffer bufferDesc of
                None \<Rightarrow> (Inr (), vol1)
              | Some sector \<Rightarrow>
                  let buffer = m_Blocks vol1 sector in
                  if get32 buffer 0 = 0x41615252 \<and> get32 buffer 484 = 0x61417272 \<and> get32 buffer 508 = 0xaa550000 then
                    let buffer = put32 (put32 buffer 488 (m_FreeClusters vol1)) 492 (unat (m_LastAllocatedCluster vol1)) in
                    (Inr (), MarkDirty bufferDesc (vol1\<lparr>m_Blocks := (m_Blocks vol1)(sector := buffer)\<rparr>))
                  else (Inr (), vol1)))
      else (Inr (), vol))"

section \<open>Releasing a chain\<close>

fun ClearFATChain_loop :: "nat \<Rightarrow> u32 \<Rightarrow> FATVolume \<Rightarrow> u32 result \<times> FATVolume" where
  "ClearFATChain_loop 0 cluster vol = (Inr cluster, vol)"
| "ClearFATChain_loop (Suc left) cluster vol =
     (if \<not> IsDataCluster vol cluster then (Inr cluster, vol)
      else case GetEntry cluster vol of
        (Inl e, vol1) \<Rightarrow> (Inl e, vol1)
      | (Inr nextCluster, vol1) \<Rightarrow>
          if nextCluster = 0 then (Inr cluster, vol1)
          else case SetEntry cluster 0 vol1 of
            (Inl e, vol2) \<Rightarrow> (Inl e, vol2)
          | (Inr _, vol2) \<Rightarrow>
              ClearFATChain_loop left nextCluster
                (if m_FreeClusters vol2 < m_TotalClusters vol2 then vol2\<lparr>m_FreeClusters := m_FreeClusters vol2 + 1\<rparr> else vol2))"

definition ClearFATChain :: "u32 \<Rightarrow> FATVolume \<Rightarrow> unit result \<times> FATVolume" where
  "ClearFATChain cluster vol =
     (if \<not> IsDataCluster vol cluster then (Inl IO, vol)
      else case ClearFATChain_loop (m_TotalClusters vol) cluster vol of
        (Inl e, vol1) \<Rightarrow> (Inl e, vol1)
      | (Inr cluster, vol1) \<Rightarrow>
          case UpdateFSInfo vol1 of
            (Inl e, vol2) \<Rightarrow> (Inl e, vol2)
          | (Inr _, vol2) \<Rightarrow> if cluster \<noteq> END_FAT_ENTRY then (Inl IO, vol2) else (Inr (), vol2))"

text \<open>Exceptions are logged and dropped; a panic does not return.\<close>

definition ClearFATChainAfterFailureNoThrow :: "u32 \<Rightarrow> FATVolume \<Rightarrow> unit result \<times> FATVolume" where
  "ClearFATChainAfterFailureNoThrow startCluster vol =
     (if startCluster \<noteq> 0 then
        case ClearFATChain startCluster vol of (r, vol1) \<Rightarrow> (if r = Inl Fault then Inl Fault else Inr (), vol1)
      else (Inr (), vol))"

section \<open>Allocating a chain\<close>

record alloc_vars =
  tableIterator :: FATTableIterator
  firstCluster :: u32
  lastCluster :: u32
  detachedCluster :: u32
  allocatedClusterCount :: nat

text \<open>Appending the cluster just taken to the new chain.\<close>

definition link_cluster :: "alloc_vars \<Rightarrow> FATVolume \<Rightarrow> unit result \<times> FATVolume \<times> alloc_vars" where
  "link_cluster v vol =
     (if allocatedClusterCount v = 0 then
        if firstCluster v \<noteq> 0 then (Inl Fault, vol, v)
        else (Inr (), vol, v\<lparr>firstCluster := detachedCluster v, lastCluster := detachedCluster v, detachedCluster := 0\<rparr>)
      else if \<not> IsDataCluster vol (firstCluster v) \<or> \<not> IsDataCluster vol (lastCluster v) then (Inl Fault, vol, v)
      else case SetEntry (lastCluster v) (detachedCluster v) vol of
        (Inl e, vol1) \<Rightarrow> (Inl e, vol1, v)
      | (Inr _, vol1) \<Rightarrow> (Inr (), vol1, v\<lparr>lastCluster := detachedCluster v, detachedCluster := 0\<rparr>))"

definition take_cluster :: "alloc_vars \<Rightarrow> FATVolume \<Rightarrow> unit result \<times> FATVolume \<times> alloc_vars" where
  "take_cluster v vol =
     (case FATTableIterator.SetEntry vol (tableIterator v) END_FAT_ENTRY of
        (Inl e, vol1, it) \<Rightarrow> (Inl e, vol1, v\<lparr>tableIterator := it\<rparr>)
      | (Inr _, vol1, it) \<Rightarrow>
          let vol2 = (if m_FreeClusters vol1 > 0 then vol1\<lparr>m_FreeClusters := m_FreeClusters vol1 - 1\<rparr> else vol1) in
          case link_cluster (v\<lparr>tableIterator := it, detachedCluster := m_CurrentCluster it\<rparr>) vol2 of
            (Inl e, vol3, v1) \<Rightarrow> (Inl e, vol3, v1)
          | (Inr _, vol3, v1) \<Rightarrow>
              (Inr (), vol3\<lparr>m_LastAllocatedCluster := lastCluster v1\<rparr>, v1\<lparr>allocatedClusterCount := allocatedClusterCount v1 + 1\<rparr>))"

fun AllocateClusters_loop :: "nat \<Rightarrow> nat \<Rightarrow> alloc_vars \<Rightarrow> FATVolume \<Rightarrow> unit result \<times> FATVolume \<times> alloc_vars" where
  "AllocateClusters_loop 0 clusterCount v vol = (Inr (), vol, v)"
| "AllocateClusters_loop (Suc left) clusterCount v vol =
     (case FATTableIterator.GetEntry vol (tableIterator v) of
        (Inl e, vol1, it) \<Rightarrow> (Inl e, vol1, v\<lparr>tableIterator := it\<rparr>)
      | (Inr value, vol1, it) \<Rightarrow>
          case (if value = 0 then take_cluster (v\<lparr>tableIterator := it\<rparr>) vol1 else (Inr (), vol1, v\<lparr>tableIterator := it\<rparr>)) of
            (Inl e, vol2, v2) \<Rightarrow> (Inl e, vol2, v2)
          | (Inr _, vol2, v2) \<Rightarrow>
              if value = 0 \<and> allocatedClusterCount v2 = clusterCount then (Inr (), vol2, v2)
              else case Increment vol2 (tableIterator v2) of
                Inl e \<Rightarrow> (Inl e, vol2, v2)
              | Inr it2 \<Rightarrow> AllocateClusters_loop left clusterCount (v2\<lparr>tableIterator := it2\<rparr>) vol2)"

text \<open>The scope guard of \<open>AllocateClusters\<close>, run when an exception leaves it.\<close>

definition alloc_cleanup :: "PErrorCode \<Rightarrow> alloc_vars \<Rightarrow> FATVolume \<Rightarrow> (u32 \<times> u32) result \<times> FATVolume" where
  "alloc_cleanup e v vol =
     (if e = Fault then (Inl Fault, vol)
      else case ClearFATChainAfterFailureNoThrow (firstCluster v) vol of
        (Inl e1, vol1) \<Rightarrow> (Inl e1, vol1)
      | (Inr _, vol1) \<Rightarrow>
          case ClearFATChainAfterFailureNoThrow (detachedCluster v) vol1 of
            (Inl e2, vol2) \<Rightarrow> (Inl e2, vol2)
          | (Inr _, vol2) \<Rightarrow> (Inl e, vol2))"

text \<open>The result is the first and the last cluster of the new chain.\<close>

definition AllocateClusters :: "nat \<Rightarrow> FATVolume \<Rightarrow> (u32 \<times> u32) result \<times> FATVolume" where
  "AllocateClusters clusterCount vol =
     (case CheckMagic vol of
        Inl e \<Rightarrow> (Inl e, vol)
      | Inr _ \<Rightarrow>
      if clusterCount = 0 then (Inl INVAL, vol)
      else if clusterCount > m_TotalClusters vol then (Inl NOSPC, vol)
      else
        case AllocateClusters_loop (m_TotalClusters vol) clusterCount
          \<lparr>tableIterator = FATTableIterator_new vol (m_LastAllocatedCluster vol), firstCluster = 0, lastCluster = 0,
           detachedCluster = 0, allocatedClusterCount = 0\<rparr> vol of
          (Inl e, vol1, v) \<Rightarrow> alloc_cleanup e v vol1
        | (Inr _, vol1, v) \<Rightarrow>
            case UpdateFSInfo vol1 of
              (Inl e, vol2) \<Rightarrow> alloc_cleanup e v vol2
            | (Inr _, vol2) \<Rightarrow>
                if allocatedClusterCount v \<noteq> clusterCount then alloc_cleanup NOSPC v vol2
                else if \<not> IsDataCluster vol2 (firstCluster v) \<or> \<not> IsDataCluster vol2 (lastCluster v) then (Inl Fault, vol2)
                else (Inr (firstCluster v, lastCluster v), vol2))"

section \<open>The table as a map from clusters to links\<close>

text \<open>
  What a chain operation sees of the table: the checked entry of every data cluster. The theorems below are about volumes whose
  cluster numbers all read back as they were written: 32-bit volumes, and 16-bit volumes without cluster numbers in the range that
  \<open>FATTableIterator::GetEntry\<close> extends. The other cases are treated in \<open>FATLimits\<close>.
\<close>

definition links :: "FATVolume \<Rightarrow> u32 \<Rightarrow> u32 result" where
  "links vol c = (if IsDataCluster vol c then check_entry vol (fat_entry vol c) else Inl IO)"

text \<open>
  The volumes the theorems about chains are for. Besides the geometry that \<open>ReadSuperBlock\<close> accepts and a cursor in order, these are assumptions
  that exclude volumes and events the code has to deal with: no 12-bit volumes, no 16-bit volumes of more than 0xffee clusters, and a block cache
  that never throws while it fetches a sector. What is known of the cases excluded is in \<open>FATLimits\<close>.
\<close>

definition table_ok :: "FATVolume \<Rightarrow> bool" where
  "table_ok vol \<longleftrightarrow>
     volume_geometry vol \<and> volume_layout vol \<and> m_Magic vol = MAGIC \<and>
     (m_FATBits vol = 32 \<or> m_FATBits vol = 16 \<and> m_TotalClusters vol \<le> 0xffee) \<and>
     blocks_ok vol \<and> it_cached vol (m_FATTable vol) \<and> (\<forall>n. m_GetBlockFails vol n = None)"

text \<open>Everything but the contents and the bookkeeping of the table.\<close>

definition params :: "FATVolume \<Rightarrow> FATVolume" where
  "params vol = vol\<lparr>m_FreeClusters := 0, m_LastAllocatedCluster := 0, m_FATTable := FATTableIterator_new vol 0,
     m_Blocks := \<lambda>_. [], m_DirtyBlocks := \<lambda>_. False, m_GetBlockCalls := 0\<rparr>"

lemma params_upd [simp]:
  "params (vol\<lparr>m_FreeClusters := f\<rparr>) = params vol" "params (vol\<lparr>m_LastAllocatedCluster := l\<rparr>) = params vol"
  "params (vol\<lparr>m_FATTable := it\<rparr>) = params vol" "params (vol\<lparr>m_Blocks := b\<rparr>) = params vol"
  "params (vol\<lparr>m_DirtyBlocks := d\<rparr>) = params vol" "params (vol\<lparr>m_GetBlockCalls := n\<rparr>) = params vol"
  by (simp_all add: params_def FATTableIterator_new_def)

lemma params_fields:
  assumes "params vol' = params vol"
  shows "m_FATBits vol' = m_FATBits vol" "m_BytesPerSector vol' = m_BytesPerSector vol" "m_TotalClusters vol' = m_TotalClusters vol"
    "m_SectorsPerFAT vol' = m_SectorsPerFAT vol" "fat_start vol' = fat_start vol" "m_Magic vol' = m_Magic vol"
    "m_FSInfoSector vol' = m_FSInfoSector vol" "m_ReadOnly vol' = m_ReadOnly vol" "m_GetBlockFails vol' = m_GetBlockFails vol"
    "m_ReservedSectors vol' = m_ReservedSectors vol"
  using arg_cong [OF assms, of m_FATBits] arg_cong [OF assms, of m_BytesPerSector] arg_cong [OF assms, of m_TotalClusters]
    arg_cong [OF assms, of m_SectorsPerFAT] arg_cong [OF assms, of m_ReservedSectors] arg_cong [OF assms, of m_ActiveFAT]
    arg_cong [OF assms, of m_Magic] arg_cong [OF assms, of m_FSInfoSector] arg_cong [OF assms, of m_ReadOnly]
    arg_cong [OF assms, of m_GetBlockFails]
  by (simp_all add: params_def fat_start_def)

lemma params_predicates:
  assumes "params vol' = params vol"
  shows "volume_geometry vol' = volume_geometry vol" "volume_layout vol' = volume_layout vol"
    "IsDataCluster vol' = IsDataCluster vol" "it_pos vol' = it_pos vol" "it_cached vol' = it_cached vol"
    "FATTableIterator_new vol' = FATTableIterator_new vol" "SetCluster vol' = SetCluster vol" "check_entry vol' = check_entry vol"
    "Increment vol' = Increment vol"
proof -
  have 1: "volume_geometry (params v) = volume_geometry v" "volume_layout (params v) = volume_layout v"
    "IsDataCluster (params v) = IsDataCluster v" "it_pos (params v) = it_pos v" "it_cached (params v) = it_cached v"
    "FATTableIterator_new (params v) = FATTableIterator_new v" "SetCluster (params v) = SetCluster v"
    "check_entry (params v) = check_entry v" "Increment (params v) = Increment v" for v
    by (auto simp: fun_eq_iff params_def volume_layout_def it_pos_def it_cached_def IsDataCluster_def fat_start_def entry_offset_def
        FATTableIterator_new_def SetCluster_def check_entry_def Increment_def Let_def)
  show "volume_geometry vol' = volume_geometry vol" "volume_layout vol' = volume_layout vol"
    "IsDataCluster vol' = IsDataCluster vol" "it_pos vol' = it_pos vol" "it_cached vol' = it_cached vol"
    "FATTableIterator_new vol' = FATTableIterator_new vol" "SetCluster vol' = SetCluster vol" "check_entry vol' = check_entry vol"
    "Increment vol' = Increment vol"
    using assms 1 [of vol] 1 [of vol'] by simp_all
qed

lemma table_okD:
  assumes "table_ok vol"
  shows "volume_geometry vol" "volume_layout vol" "m_Magic vol = MAGIC" "m_FATBits vol \<noteq> 12" "blocks_ok vol"
    "it_cached vol (m_FATTable vol)" "\<And>n. m_GetBlockFails vol n = None" "\<not> can_fail vol e"
  using assms by (auto simp: table_ok_def can_fail_def)

lemma table_okI:
  assumes "volume_geometry vol" "volume_layout vol" "m_Magic vol = MAGIC" "blocks_ok vol" "it_cached vol (m_FATTable vol)"
    "m_FATBits vol = 32 \<or> m_FATBits vol = 16 \<and> m_TotalClusters vol \<le> 0xffee" "\<And>n. m_GetBlockFails vol n = None"
  shows "table_ok vol"
  using assms by (simp add: table_ok_def)

lemma table_ok_params:
  assumes "params vol' = params vol" "table_ok vol" "blocks_ok vol'" "it_cached vol (m_FATTable vol')"
  shows "table_ok vol'"
  using assms by (simp add: table_ok_def params_fields [OF assms(1)] params_predicates [OF assms(1)])

lemma links_cong:
  assumes "params vol' = params vol" "\<And>c. IsDataCluster vol c \<Longrightarrow> fat_entry vol' c = fat_entry vol c"
  shows "links vol' = links vol"
  by (auto simp: fun_eq_iff links_def params_predicates [OF assms(1)] assms(2))

lemma links_blocks:
  assumes "params vol' = params vol" "m_Blocks vol' = m_Blocks vol"
  shows "links vol' = links vol" "blocks_ok vol' = blocks_ok vol"
proof -
  have "fat_byte vol' = fat_byte vol"
    by (simp add: fun_eq_iff fat_byte_def params_fields [OF assms(1)] assms(2))
  then show "links vol' = links vol"
    by (intro links_cong assms(1)) (simp add: fat_entry_def params_fields [OF assms(1)])
  show "blocks_ok vol' = blocks_ok vol"
    by (simp add: blocks_ok_def params_fields [OF assms(1)] assms(2))
qed

text \<open>A call that leaves the table and its bookkeeping as they are.\<close>

definition unchanged :: "FATVolume \<Rightarrow> FATVolume \<Rightarrow> bool" where
  "unchanged vol vol' \<longleftrightarrow> params vol' = params vol \<and> table_ok vol' \<and> links vol' = links vol \<and>
     m_FreeClusters vol' = m_FreeClusters vol \<and> m_LastAllocatedCluster vol' = m_LastAllocatedCluster vol"

text \<open>A call that sets one entry.\<close>

definition link_set :: "FATVolume \<Rightarrow> u32 \<Rightarrow> u32 \<Rightarrow> FATVolume \<Rightarrow> bool" where
  "link_set vol c v vol' \<longleftrightarrow> params vol' = params vol \<and> table_ok vol' \<and> links vol' = (links vol)(c := Inr v) \<and>
     m_FreeClusters vol' = m_FreeClusters vol \<and> m_LastAllocatedCluster vol' = m_LastAllocatedCluster vol"

lemma SetCluster_ok:
  assumes "volume_geometry vol" "IsDataCluster vol c" "it_cached vol it"
  obtains it' where "SetCluster vol c it = Inr it'" "it_pos vol it'" "it_cached vol it'" "m_CurrentCluster it' = c"
    "m_LoadedSector1 it' = m_LoadedSector1 it" "m_LoadedSector2 it' = m_LoadedSector2 it"
    "m_Block1 it' = m_Block1 it" "m_Block2 it' = m_Block2 it"
proof -
  let ?it = "it\<lparr>m_CurrentCluster := c, m_CurrentSector := int (fat_start vol + entry_offset vol c div m_BytesPerSector vol),
    m_OffsetInSector := entry_offset vol c mod m_BytesPerSector vol\<rparr>"
  have "SetCluster vol c it = Inr ?it"
    using entry_sector(1) [OF assms(1,2)] by (simp add: SetCluster_def Let_def)
  moreover have "it_pos vol ?it" "it_cached vol ?it"
    using assms(2,3) by (simp_all add: it_pos_def it_cached_def)
  ultimately show thesis
    by (rule that) simp_all
qed

lemma not_straddling_fresh: "volume_geometry vol \<Longrightarrow> it_pos vol it \<Longrightarrow> m_FATBits vol \<noteq> 12 \<Longrightarrow> it_fresh vol it"
  using no_straddle by (auto simp: it_fresh_def)

lemma take_bit_small: "unat v < 2 ^ n \<Longrightarrow> take_bit n v = v" for v :: u32
  by (simp add: word_unat_eq_iff unsigned_take_bit_eq take_bit_nat_eq_self)

lemma END_not_data: "volume_geometry vol \<Longrightarrow> \<not> IsDataCluster vol END_FAT_ENTRY \<and> \<not> IsDataCluster vol 0"
  using geometry_simps(4) [of vol] by (auto simp: IsDataCluster_iff END_FAT_ENTRY_def)

lemma storable:
  assumes "table_ok vol" "v = 0 \<or> v = END_FAT_ENTRY \<or> IsDataCluster vol v"
  shows "take_bit 28 v = v" "check_entry vol (extend_entry (m_FATBits vol) (take_bit (entry_bits (m_FATBits vol)) v)) = Inr v"
proof -
  note g = table_okD(1) [OF assms(1)]
  have data: "unat v < m_TotalClusters vol + 2" "m_TotalClusters vol \<le> 0x0ffffff5" if "IsDataCluster vol v"
    using that geometry_simps(4) [OF g] g by (simp_all add: IsDataCluster_iff)
  show small: "take_bit 28 v = v"
    using assms(2) data by (auto simp: END_FAT_ENTRY_def intro!: take_bit_small)
  have checked: "check_entry vol v = Inr v"
    using assms(2) END_not_data [OF g] by (auto simp: check_entry_def)
  consider "m_FATBits vol = 32" | "m_FATBits vol = 16" "m_TotalClusters vol \<le> 0xffee"
    using assms(1) by (auto simp: table_ok_def)
  then show "check_entry vol (extend_entry (m_FATBits vol) (take_bit (entry_bits (m_FATBits vol)) v)) = Inr v"
  proof cases
    case 1
    then show ?thesis
      using small checked by (simp add: extend_entry_def entry_bits_def)
  next
    case 2
    have "extend_entry 16 (take_bit 16 v) = v"
    proof (cases "IsDataCluster vol v")
      case True
      then have "unat v < 0xfff0"
        using data 2 by simp
      then have "take_bit 16 v = v" "\<not> 0xfff0 \<le> v"
        by (auto intro!: take_bit_small simp: word_le_nat_alt)
      then show ?thesis
        by (simp add: extend_entry_def)
    next
      case False
      then show ?thesis
        using assms(2) by (auto simp: extend_entry_def END_FAT_ENTRY_def)
    qed
    then show ?thesis
      using checked by (simp add: 2 entry_bits_def)
  qed
qed

text \<open>The operations of the iterator on such a table.\<close>

lemma iterator_GetEntry:
  assumes "table_ok vol" "it_pos vol it" "it_cached vol it"
  obtains n it' where "FATTableIterator.GetEntry vol it = (Inr (fat_entry vol (m_CurrentCluster it)), vol\<lparr>m_GetBlockCalls := n\<rparr>, it')"
    "it_pos vol it'" "it_cached vol it'" "m_CurrentCluster it' = m_CurrentCluster it"
proof (cases rule: Update_cases [OF table_okD(1) [OF assms(1)] assms(2,3)
      not_straddling_fresh [OF table_okD(1) [OF assms(1)] assms(2) table_okD(4) [OF assms(1)]], case_names fail ok])
  case (fail e n it')
  then show thesis
    using table_okD(8) [OF assms(1)] by blast
next
  case (ok n it')
  have "read_entry (vol\<lparr>m_GetBlockCalls := n\<rparr>) it' = Inr (fat_entry vol (m_CurrentCluster it))"
    using read_entry_eq [of "vol\<lparr>m_GetBlockCalls := n\<rparr>" it'] table_okD(1) [OF assms(1)] ok(2,3) by (simp add: fat_entry_def)
  then show thesis
    using ok by (intro that [of n it']) (simp_all add: FATTableIterator.GetEntry_def it_loaded_def)
qed

lemma fat_saved_params:
  assumes "fat_saved vol A vol'"
  shows "params vol' = params vol" "m_FreeClusters vol' = m_FreeClusters vol" "m_LastAllocatedCluster vol' = m_LastAllocatedCluster vol"
    "m_FATTable vol' = m_FATTable vol"
proof -
  obtain b d n where "vol' = vol\<lparr>m_Blocks := b, m_DirtyBlocks := d, m_GetBlockCalls := n\<rparr>"
    using assms unfolding fat_saved_def by blast
  then show "params vol' = params vol" "m_FreeClusters vol' = m_FreeClusters vol" "m_LastAllocatedCluster vol' = m_LastAllocatedCluster vol"
    "m_FATTable vol' = m_FATTable vol"
    by simp_all
qed

lemma iterator_SetEntry:
  assumes "table_ok vol" "it_pos vol it" "it_cached vol it" "v = 0 \<or> v = END_FAT_ENTRY \<or> IsDataCluster vol v"
  obtains vol' it' where "FATTableIterator.SetEntry vol it v = (Inr (), vol', it')" "link_set vol (m_CurrentCluster it) v vol'"
    "it_pos vol it'" "it_cached vol it'" "m_CurrentCluster it' = m_CurrentCluster it" "m_FATTable vol' = m_FATTable vol"
proof (cases rule: SetEntry_cases [OF table_okD(1,5) [OF assms(1)] assms(2,3)
      not_straddling_fresh [OF table_okD(1) [OF assms(1)] assms(2) table_okD(4) [OF assms(1)]] storable(1) [OF assms(1,4)], case_names fail ok])
  case (fail e n it')
  then show thesis
    using table_okD(8) [OF assms(1)] by blast
next
  case (ok vol' it')
  note p = fat_saved_params [OF ok(4)] and f = fat_saved_fields [OF ok(4)]
  have "links vol' = (links vol)(m_CurrentCluster it := Inr v)"
    using assms(2) fat_entry_update [OF table_okD(1) [OF assms(1)] _ f(4) ok(5)] storable(2) [OF assms(1,4)]
    by (auto simp: fun_eq_iff links_def params_predicates [OF p(1)] it_pos_def)
  moreover have "table_ok vol'"
    using table_okD(6) [OF assms(1)] by (intro table_ok_params [OF p(1) assms(1) f(9)]) (simp add: p)
  ultimately have "link_set vol (m_CurrentCluster it) v vol'"
    by (simp add: link_set_def p)
  then show thesis
    using ok p by (intro that [of vol' it']) (simp_all add: it_loaded_def)
qed

text \<open>The operations of the table object.\<close>

lemma table_GetEntry:
  assumes "table_ok vol" "IsDataCluster vol c"
  obtains vol' where "GetEntry c vol = (links vol c, vol')" "unchanged vol vol'"
proof -
  obtain it where it: "SetCluster vol c (m_FATTable vol) = Inr it" "it_pos vol it" "it_cached vol it" "m_CurrentCluster it = c"
    using SetCluster_ok [OF table_okD(1) [OF assms(1)] assms(2) table_okD(6) [OF assms(1)]] .
  obtain n it' where get: "FATTableIterator.GetEntry vol it = (Inr (fat_entry vol c), vol\<lparr>m_GetBlockCalls := n\<rparr>, it')" "it_cached vol it'"
    using iterator_GetEntry [OF assms(1) it(2,3)] it(4) by metis
  let ?vol = "vol\<lparr>m_GetBlockCalls := n\<rparr>\<lparr>m_FATTable := it'\<rparr>"
  have p: "params ?vol = params vol" "m_Blocks ?vol = m_Blocks vol"
    by (simp_all only: params_upd) simp
  have "GetEntry c vol = (links vol c, ?vol)"
    using it(1) get(1) assms(2) by (simp add: GetEntry_def links_def check_entry_def)
  moreover have "table_ok ?vol"
    using get(2) table_okD(5) [OF assms(1)] links_blocks(2) [OF p] by (intro table_ok_params [OF p(1) assms(1)]) simp_all
  then have "unchanged vol ?vol"
    using links_blocks(1) [OF p] p by (simp add: unchanged_def)
  ultimately show thesis
    by (rule that)
qed

lemma table_SetEntry:
  assumes "table_ok vol" "IsDataCluster vol c" "v = 0 \<or> v = END_FAT_ENTRY \<or> IsDataCluster vol v"
  obtains vol' where "SetEntry c v vol = (Inr (), vol')" "link_set vol c v vol'"
proof -
  obtain it where it: "SetCluster vol c (m_FATTable vol) = Inr it" "it_pos vol it" "it_cached vol it" "m_CurrentCluster it = c"
    using SetCluster_ok [OF table_okD(1) [OF assms(1)] assms(2) table_okD(6) [OF assms(1)]] .
  obtain vol' it' where set_: "FATTableIterator.SetEntry vol it v = (Inr (), vol', it')" "link_set vol c v vol'" "it_cached vol it'"
    using iterator_SetEntry [OF assms(1) it(2,3) assms(3)] it(4) by metis
  let ?vol = "vol'\<lparr>m_FATTable := it'\<rparr>"
  have p: "params ?vol = params vol'" "m_Blocks ?vol = m_Blocks vol'"
    by (simp_all only: params_upd) simp
  have vol': "table_ok vol'" "params vol' = params vol"
    using set_(2) by (simp_all add: link_set_def)
  have "table_ok ?vol"
    using set_(3) table_okD(5) [OF vol'(1)] links_blocks(2) [OF p] params_predicates(5) [OF vol'(2)]
    by (intro table_ok_params [OF p(1) vol'(1)]) simp_all
  then have "link_set vol c v ?vol"
    using set_(2) links_blocks(1) [OF p] p by (simp add: link_set_def)
  moreover have "SetEntry c v vol = (Inr (), ?vol)"
    using it(1) set_(1) by (simp add: SetEntry_def)
  ultimately show thesis
    by (rule that [rotated])
qed

lemma UpdateFSInfo_unchanged:
  assumes "table_ok vol"
  obtains vol' where "UpdateFSInfo vol = (Inr (), vol')" "unchanged vol vol'"
proof -
  have calls_only: "unchanged vol (vol\<lparr>m_GetBlockCalls := n\<rparr>)" for n
  proof -
    have p: "params (vol\<lparr>m_GetBlockCalls := n\<rparr>) = params vol" "m_Blocks (vol\<lparr>m_GetBlockCalls := n\<rparr>) = m_Blocks vol"
      by simp_all
    show ?thesis
      using assms links_blocks [OF p] table_okD(5,6) [OF assms] p
      by (auto simp: unchanged_def intro!: table_ok_params [OF p(1) assms])
  qed
  show thesis
  proof (cases "m_FSInfoSector vol \<noteq> 0xffff \<and> \<not> m_ReadOnly vol")
    case False
    then have "UpdateFSInfo vol = (Inr (), vol)"
      unfolding UpdateFSInfo_def by (rule if_not_P)
    moreover have "unchanged vol vol"
      using assms by (simp add: unchanged_def)
    ultimately show thesis
      by (rule that)
  next
    case True
    let ?s = "int (m_FSInfoSector vol)" and ?n = "Suc (m_GetBlockCalls vol)"
    let ?b = "m_Blocks vol ?s"
    let ?b' = "put32 (put32 ?b 488 (m_FreeClusters vol)) 492 (unat (m_LastAllocatedCluster vol))"
    let ?vol = "vol\<lparr>m_GetBlockCalls := ?n, m_Blocks := (m_Blocks vol)(?s := ?b'), m_DirtyBlocks := (m_DirtyBlocks vol)(?s := True)\<rparr>"
    have written: "UpdateFSInfo vol = (Inr (), vol\<lparr>m_GetBlockCalls := ?n\<rparr>) \<or> UpdateFSInfo vol = (Inr (), ?vol)"
      using True table_okD(7) [OF assms] by (simp add: UpdateFSInfo_def GetBlock_trw_eq loaded_def Let_def MarkDirty_def)
    have sector: "unchanged vol ?vol"
    proof -
      have p: "params ?vol = params vol"
        by simp
      have "m_FSInfoSector vol < m_ReservedSectors vol"
        using True table_okD(2) [OF assms] by (auto simp: volume_layout_def)
      then have apart: "int (fat_start vol + k) \<noteq> ?s" for k
        unfolding of_nat_eq_iff fat_start_def by simp
      have "fat_start ?vol = fat_start vol"
        by (simp add: fat_start_def)
      then have "fat_byte ?vol = fat_byte vol"
        using apart by (simp add: fun_eq_iff fat_byte_def del: of_nat_add)
      then have "links ?vol = links vol"
        by (intro links_cong p) (simp add: fat_entry_def)
      moreover have "blocks_ok ?vol"
        using table_okD(5) [OF assms] by (simp add: blocks_ok_def put32_def)
      then have "table_ok ?vol"
        using table_okD(6) [OF assms] by (intro table_ok_params [OF p assms]) simp_all
      ultimately show ?thesis
        using p by (simp add: unchanged_def)
    qed
    have n0: "unchanged vol (vol\<lparr>m_GetBlockCalls := ?n\<rparr>)"
      by (rule calls_only)
    from written show thesis
    proof
      assume "UpdateFSInfo vol = (Inr (), vol\<lparr>m_GetBlockCalls := ?n\<rparr>)"
      from this n0 show thesis
        by (rule that)
    next
      assume "UpdateFSInfo vol = (Inr (), ?vol)"
      then show thesis
        by (rule that [OF _ sector])
    qed
  qed
qed

section \<open>Chains\<close>

text \<open>A list of clusters that follow each other in the table, up to the end mark.\<close>

fun chain :: "(u32 \<Rightarrow> u32 result) \<Rightarrow> u32 list \<Rightarrow> bool" where
  "chain N [] \<longleftrightarrow> False"
| "chain N [c] \<longleftrightarrow> N c = Inr END_FAT_ENTRY"
| "chain N (c # d # cs) \<longleftrightarrow> N c = Inr d \<and> chain N (d # cs)"

lemma chain_cong: "chain N cs \<Longrightarrow> (\<And>x. x \<in> set cs \<Longrightarrow> M x = N x) \<Longrightarrow> chain M cs"
  by (induction N cs rule: chain.induct) auto

lemma chain_Inr: "chain N cs \<Longrightarrow> x \<in> set cs \<Longrightarrow> \<exists>v. N x = Inr v"
  by (induction N cs rule: chain.induct) auto

lemma chain_suffix: "chain N (xs @ c # cs) \<Longrightarrow> chain N (c # cs)"
proof (induction xs)
  case (Cons x xs)
  then show ?case
    by (cases xs) auto
qed simp

lemma chain_unique:
  assumes "N END_FAT_ENTRY = Inl e"
  shows "chain N (c # cs) \<Longrightarrow> chain N (c # ds) \<Longrightarrow> cs = ds"
proof (induction cs arbitrary: c ds)
  case Nil
  have "\<not> chain N (END_FAT_ENTRY # xs)" for xs
    using chain_Inr [of N "END_FAT_ENTRY # xs" END_FAT_ENTRY] assms by auto
  then show ?case
    using Nil by (cases ds) auto
next
  case (Cons d cs)
  have "d \<noteq> END_FAT_ENTRY"
    using chain_Inr [of N "d # cs" d] Cons.prems(1) assms by auto
  then show ?case
    using Cons by (cases ds) auto
qed

lemma chain_distinct:
  assumes "N END_FAT_ENTRY = Inl e"
  shows "chain N cs \<Longrightarrow> distinct cs"
proof (induction cs)
  case (Cons c cs)
  have "c \<notin> set cs"
  proof
    assume "c \<in> set cs"
    then obtain xs ys where cs: "cs = xs @ c # ys"
      by (meson split_list)
    then have "chain N (c # ys)"
      using Cons.prems chain_suffix [of N "c # xs" c ys] by simp
    then have "ys = cs"
      using chain_unique [OF assms _ Cons.prems] by blast
    then show False
      using cs by simp
  qed
  moreover have "distinct cs"
    using Cons by (cases cs) auto
  ultimately show ?case
    by simp
qed simp

lemma links_simps:
  assumes "volume_geometry vol"
  shows "links vol END_FAT_ENTRY = Inl IO" "links vol 0 = Inl IO" "links vol c = Inr v \<Longrightarrow> IsDataCluster vol c"
    "links vol c = Inl e \<Longrightarrow> e = IO"
  using END_not_data [OF assms] by (auto simp: links_def check_entry_def split: if_splits)

lemma data_clusters:
  assumes "volume_geometry vol"
  shows "finite {c. IsDataCluster vol c}" "card {c. IsDataCluster vol c} = m_TotalClusters vol"
proof -
  have "{c. IsDataCluster vol c} = (of_nat :: nat \<Rightarrow> u32) ` {2..<m_TotalClusters vol + 2}"
  proof (rule set_eqI)
    fix c :: u32
    have "unat (of_nat n :: u32) = n" if "n < m_TotalClusters vol + 2" for n
      using that geometry_simps(4) [OF assms] by (intro unat_of_nat_lt) simp
    then show "c \<in> {c. IsDataCluster vol c} \<longleftrightarrow> c \<in> of_nat ` {2..<m_TotalClusters vol + 2}"
      using assms by (auto simp: IsDataCluster_iff intro!: image_eqI [of c of_nat "unat c"])
  qed
  moreover have "inj_on (of_nat :: nat \<Rightarrow> u32) {2..<m_TotalClusters vol + 2}"
  proof (rule inj_onI)
    fix m n :: nat
    assume mn: "m \<in> {2..<m_TotalClusters vol + 2}" "n \<in> {2..<m_TotalClusters vol + 2}" "(of_nat m :: u32) = of_nat n"
    have "unat (of_nat k :: u32) = k" if "k \<in> {2..<m_TotalClusters vol + 2}" for k
      using that geometry_simps(4) [OF assms] by (intro unat_of_nat_lt) simp
    then show "m = n"
      using mn by metis
  qed
  ultimately show "finite {c. IsDataCluster vol c}" "card {c. IsDataCluster vol c} = m_TotalClusters vol"
    by (simp_all add: card_image)
qed

lemma chain_length:
  assumes "volume_geometry vol" "chain (links vol) cs"
  shows "length cs \<le> m_TotalClusters vol" "distinct cs" "\<And>c. c \<in> set cs \<Longrightarrow> IsDataCluster vol c"
proof -
  show data: "IsDataCluster vol c" if "c \<in> set cs" for c
    using chain_Inr [OF assms(2) that] links_simps(3) [OF assms(1)] by blast
  show distinct: "distinct cs"
    using chain_distinct [OF links_simps(1) [OF assms(1)] assms(2)] .
  have "card (set cs) \<le> card {c. IsDataCluster vol c}"
    using data by (intro card_mono data_clusters(1) [OF assms(1)]) auto
  then show "length cs \<le> m_TotalClusters vol"
    using data_clusters(2) [OF assms(1)] distinct_card [OF distinct] by simp
qed

lemma unchanged_trans: "unchanged vol vol1 \<Longrightarrow> unchanged vol1 vol2 \<Longrightarrow> unchanged vol vol2"
  by (simp add: unchanged_def)

lemma unchangedD:
  assumes "unchanged vol vol'"
  shows "table_ok vol'" "links vol' = links vol" "params vol' = params vol" "IsDataCluster vol' = IsDataCluster vol"
  using assms by (auto simp: unchanged_def dest: params_predicates(3))

lemma GetChainLength_loop_cases:
  assumes "table_ok vol" "IsDataCluster vol c"
  shows "\<exists>r vol'. GetChainLength_loop left count c vol = (r, vol') \<and> unchanged vol vol' \<and>
    (case r of
       Inr (n, e) \<Rightarrow> \<exists>cs. chain (links vol) (c # cs) \<and> length cs < left \<and> n = count + length cs \<and> e = last (c # cs)
     | Inl e \<Rightarrow> e = IO \<and> (\<forall>cs. chain (links vol) (c # cs) \<longrightarrow> left \<le> length cs))"
  using assms
proof (induction left arbitrary: count c vol)
  case 0
  then show ?case
    by (auto simp: unchanged_def)
next
  case (Suc left)
  note g = table_okD(1) [OF Suc.prems(1)]
  obtain vol1 where get: "GetEntry c vol = (links vol c, vol1)" "unchanged vol vol1"
    using table_GetEntry [OF Suc.prems] .
  note u = unchangedD [OF get(2)]
  show ?case
  proof (cases "links vol c")
    case (Inl e)
    then have "\<not> chain (links vol) (c # cs)" for cs
      using chain_Inr [of "links vol" "c # cs" c] by auto
    then show ?thesis
      using get Inl links_simps(4) [OF g Inl] by simp
  next
    case (Inr d)
    consider "d = END_FAT_ENTRY" | "IsDataCluster vol d" "d \<noteq> END_FAT_ENTRY" | "d \<noteq> END_FAT_ENTRY" "\<not> IsDataCluster vol d"
      by blast
    then show ?thesis
    proof cases
      case 1
      then show ?thesis
        using get Inr by (auto intro!: exI [of _ "[]"])
    next
      case 2
      note link_d = Inr
      have chain_d: "chain (links vol) (c # cs) \<longleftrightarrow> (\<exists>ds. cs = d # ds \<and> chain (links vol) (d # ds))" for cs
        using Inr 2(2) by (cases cs) auto
      obtain r vol' where IH: "GetChainLength_loop left (count + 1) d vol1 = (r, vol')" "unchanged vol1 vol'"
        "case r of
           Inr (n, e) \<Rightarrow> \<exists>cs. chain (links vol) (d # cs) \<and> length cs < left \<and> n = count + 1 + length cs \<and> e = last (d # cs)
         | Inl e \<Rightarrow> e = IO \<and> (\<forall>cs. chain (links vol) (d # cs) \<longrightarrow> left \<le> length cs)"
        using Suc.IH [OF u(1), of d "count + 1", unfolded u(2) u(4)] 2(1) by blast
      have "GetChainLength_loop (Suc left) count c vol = (r, vol')"
        using get(1) Inr 2 IH(1) u(4) by simp
      moreover have "case r of
           Inr (n, e) \<Rightarrow> \<exists>cs. chain (links vol) (c # cs) \<and> length cs < Suc left \<and> n = count + length cs \<and> e = last (c # cs)
         | Inl e \<Rightarrow> e = IO \<and> (\<forall>cs. chain (links vol) (c # cs) \<longrightarrow> Suc left \<le> length cs)"
      proof (cases r)
        case (Inl e)
        then show ?thesis
          using IH(3) by (auto simp: chain_d)
      next
        case (Inr p)
        obtain n e where p: "p = (n, e)"
          by (cases p)
        obtain cs where "chain (links vol) (d # cs)" "length cs < left" "n = count + 1 + length cs" "e = last (d # cs)"
          using IH(3) Inr p by auto
        then have "chain (links vol) (c # d # cs) \<and> length (d # cs) < Suc left \<and> n = count + length (d # cs) \<and> e = last (c # d # cs)"
          using link_d by simp
        then show ?thesis
          unfolding Inr p sum.case prod.case by (rule exI)
      qed
      ultimately show ?thesis
        using unchanged_trans [OF get(2) IH(2)] by blast
    next
      case 3
      have "\<not> chain (links vol) (c # cs)" for cs
        using Inr 3 chain_Inr [of "links vol" cs d] links_simps(3) [OF g] by (cases cs) auto
      then show ?thesis
        using get Inr 3 u(4) by simp
    qed
  qed
qed

text \<open>\<open>GetChainLength\<close> returns the length and the last cluster of the chain that starts at the given cluster, and fails with an IO error
  exactly when there is no such chain: it starts at an invalid cluster, runs into a free, bad or invalid entry, or is circular. The table
  is not changed.
\<close>

theorem GetChainLength_spec:
  assumes "table_ok vol"
  shows "case GetChainLength c vol of (r, vol') \<Rightarrow>
    links vol' = links vol \<and> table_ok vol' \<and>
    (case r of
       Inr (n, e) \<Rightarrow> \<exists>cs. chain (links vol) cs \<and> hd cs = c \<and> length cs = n \<and> last cs = e
     | Inl e \<Rightarrow> e = IO \<and> (\<forall>cs. chain (links vol) cs \<longrightarrow> hd cs \<noteq> c))"
proof -
  note g = table_okD(1) [OF assms]
  have start: "chain (links vol) cs \<Longrightarrow> hd cs = c \<Longrightarrow> \<exists>ds. cs = c # ds" for cs
    by (cases cs) auto
  show ?thesis
  proof (cases "IsDataCluster vol c")
    case False
    have "hd cs \<noteq> c" if "chain (links vol) cs" for cs
    proof
      assume "hd cs = c"
      then have "c \<in> set cs"
        using start [OF that] by (metis list.set_intros(1))
      then show False
        using chain_length(3) [OF g that] False by blast
    qed
    then show ?thesis
      using False assms table_okD(3) [OF assms] by (auto simp: GetChainLength_def CheckMagic_def)
  next
    case True
    obtain r vol' where loop: "GetChainLength_loop (m_TotalClusters vol) 1 c vol = (r, vol')" "unchanged vol vol'"
      "case r of
         Inr (n, e) \<Rightarrow> \<exists>cs. chain (links vol) (c # cs) \<and> length cs < m_TotalClusters vol \<and> n = 1 + length cs \<and> e = last (c # cs)
       | Inl e \<Rightarrow> e = IO \<and> (\<forall>cs. chain (links vol) (c # cs) \<longrightarrow> m_TotalClusters vol \<le> length cs)"
      using GetChainLength_loop_cases [OF assms True, of "m_TotalClusters vol" 1] by blast
    have "GetChainLength c vol = (r, vol')"
      using True table_okD(3) [OF assms] loop(1) by (simp add: GetChainLength_def CheckMagic_def)
    moreover have "case r of
         Inr (n, e) \<Rightarrow> \<exists>cs. chain (links vol) cs \<and> hd cs = c \<and> length cs = n \<and> last cs = e
       | Inl e \<Rightarrow> e = IO \<and> (\<forall>cs. chain (links vol) cs \<longrightarrow> hd cs \<noteq> c)"
    proof (cases r)
      case (Inl e)
      have "hd cs \<noteq> c" if ch: "chain (links vol) cs" for cs
      proof
        assume "hd cs = c"
        then obtain ds where "cs = c # ds"
          using start [OF ch] by blast
        then show False
          using loop(3) Inl ch chain_length(1) [OF g ch] by auto
      qed
      then show ?thesis
        using loop(3) Inl by simp
    next
      case (Inr p)
      then show ?thesis
        using loop(3) by (cases p) force
    qed
    ultimately show ?thesis
      using unchangedD [OF loop(2)] by simp
  qed
qed

section \<open>Releasing a chain\<close>

definition free_clusters :: "FATVolume \<Rightarrow> u32 set" where
  "free_clusters vol = {c. links vol c = Inr 0}"

text \<open>The count of free clusters is right.\<close>

definition free_exact :: "FATVolume \<Rightarrow> bool" where
  "free_exact vol \<longleftrightarrow> m_FreeClusters vol = card (free_clusters vol)"

lemma free_clusters_facts:
  assumes "volume_geometry vol"
  shows "finite (free_clusters vol)" "free_clusters vol \<subseteq> {c. IsDataCluster vol c}" "card (free_clusters vol) \<le> m_TotalClusters vol"
proof -
  show sub: "free_clusters vol \<subseteq> {c. IsDataCluster vol c}"
    using links_simps(3) [OF assms] by (auto simp: free_clusters_def)
  show "finite (free_clusters vol)"
    using finite_subset [OF sub data_clusters(1) [OF assms]] .
  show "card (free_clusters vol) \<le> m_TotalClusters vol"
    using card_mono [OF data_clusters(1) [OF assms] sub] data_clusters(2) [OF assms] by simp
qed

text \<open>A call that frees the clusters \<open>A\<close>.\<close>

definition released :: "FATVolume \<Rightarrow> u32 set \<Rightarrow> FATVolume \<Rightarrow> bool" where
  "released vol A vol' \<longleftrightarrow> params vol' = params vol \<and> table_ok vol' \<and>
     links vol' = (\<lambda>c. if c \<in> A then Inr 0 else links vol c) \<and> (free_exact vol \<longrightarrow> free_exact vol')"

lemma END_neq_0: "END_FAT_ENTRY \<noteq> 0"
  by (simp add: END_FAT_ENTRY_def)

lemma unchanged_facts:
  assumes "unchanged vol vol'"
  shows "free_exact vol' = free_exact vol" "m_TotalClusters vol' = m_TotalClusters vol"
  using assms params_fields(3) [of vol' vol] by (auto simp: unchanged_def free_exact_def free_clusters_def)

lemma release_one:
  assumes "table_ok vol" "IsDataCluster vol c" "links vol c = Inr v" "v \<noteq> 0"
  obtains vol' where "SetEntry c 0 vol = (Inr (), vol')"
    "released vol {c} (if m_FreeClusters vol' < m_TotalClusters vol' then vol'\<lparr>m_FreeClusters := m_FreeClusters vol' + 1\<rparr> else vol')"
proof -
  obtain vol' where set_: "SetEntry c 0 vol = (Inr (), vol')" "link_set vol c 0 vol'"
    using table_SetEntry [OF assms(1,2), of 0] by blast
  let ?vol = "if m_FreeClusters vol' < m_TotalClusters vol' then vol'\<lparr>m_FreeClusters := m_FreeClusters vol' + 1\<rparr> else vol'"
  have vol': "params vol' = params vol" "table_ok vol'" "links vol' = (links vol)(c := Inr 0)" "m_FreeClusters vol' = m_FreeClusters vol"
    using set_(2) by (simp_all add: link_set_def)
  have p: "params ?vol = params vol'" "m_Blocks ?vol = m_Blocks vol'"
    by simp_all
  have links: "links ?vol = (links vol)(c := Inr 0)"
    using links_blocks(1) [OF p] vol'(3) by simp
  have "free_exact ?vol" if "free_exact vol"
  proof -
    have c: "c \<notin> free_clusters vol"
      using assms(3,4) by (simp add: free_clusters_def)
    have "free_clusters ?vol = insert c (free_clusters vol)"
      unfolding free_clusters_def links by auto
    then have "card (free_clusters ?vol) = Suc (card (free_clusters vol))"
      using c free_clusters_facts(1) [OF table_okD(1) [OF assms(1)]] by simp
    moreover have "card (free_clusters ?vol) \<le> m_TotalClusters vol"
      using free_clusters_facts(3) [of ?vol] table_okD(1) [OF assms(1)] params_predicates(1) [of ?vol vol]
        params_fields(3) [of ?vol vol] p vol'(1) by simp
    ultimately show ?thesis
      using that vol'(4) params_fields(3) [OF vol'(1)] by (simp add: free_exact_def)
  qed
  moreover have "table_ok ?vol"
    using links_blocks(2) [OF p] table_okD(5,6) [OF vol'(2)] by (intro table_ok_params [OF p(1) vol'(2)]) simp_all
  ultimately have "released vol {c} ?vol"
    using links p(1) vol'(1) by (auto simp: released_def fun_eq_iff)
  then show thesis
    using set_(1) by (intro that)
qed

lemma ClearFATChain_loop_chain:
  assumes "table_ok vol" "chain (links vol) (c # cs)" "length cs < left"
  shows "\<exists>vol'. ClearFATChain_loop left c vol = (Inr END_FAT_ENTRY, vol') \<and> released vol (set (c # cs)) vol'"
  using assms
proof (induction cs arbitrary: c vol left)
  case Nil
  note g = table_okD(1) [OF Nil.prems(1)]
  obtain left' where left: "left = Suc left'"
    using Nil.prems(3) by (cases left) auto
  have c: "links vol c = Inr END_FAT_ENTRY" "IsDataCluster vol c"
    using Nil.prems(2) links_simps(3) [OF g] by auto
  obtain vol1 where get: "GetEntry c vol = (Inr END_FAT_ENTRY, vol1)" "unchanged vol vol1"
    using table_GetEntry [OF Nil.prems(1) c(2)] c(1) by metis
  note u = unchangedD [OF get(2)] unchanged_facts [OF get(2)]
  obtain vol2 where set_: "SetEntry c 0 vol1 = (Inr (), vol2)"
    "released vol1 {c} (if m_FreeClusters vol2 < m_TotalClusters vol2 then vol2\<lparr>m_FreeClusters := m_FreeClusters vol2 + 1\<rparr> else vol2)"
    using release_one [OF u(1), of c END_FAT_ENTRY] c u END_neq_0 by metis
  define vol3 where "vol3 = (if m_FreeClusters vol2 < m_TotalClusters vol2 then vol2\<lparr>m_FreeClusters := m_FreeClusters vol2 + 1\<rparr> else vol2)"
  have rel: "released vol {c} vol3"
    using set_(2) unfolding released_def u vol3_def [symmetric] .
  then have "\<not> IsDataCluster vol3 END_FAT_ENTRY"
    using END_not_data table_okD(1) by (auto simp: released_def)
  then have "ClearFATChain_loop left c vol = (Inr END_FAT_ENTRY, vol3)"
    using get(1) set_(1) c(2) END_neq_0 by (cases left') (simp_all add: left vol3_def)
  then show ?case
    using rel by auto
next
  case (Cons d cs)
  note g = table_okD(1) [OF Cons.prems(1)]
  obtain left' where left: "left = Suc left'" "length cs < left'"
    using Cons.prems(3) by (cases left) auto
  have c: "links vol c = Inr d" "IsDataCluster vol c" "c \<notin> set (d # cs)"
    using Cons.prems(2) links_simps(3) [OF g] chain_length(2) [OF g Cons.prems(2)] by auto
  have d: "d \<noteq> 0"
    using chain_length(3) [OF g Cons.prems(2), of d] END_not_data [OF g] by auto
  obtain vol1 where get: "GetEntry c vol = (Inr d, vol1)" "unchanged vol vol1"
    using table_GetEntry [OF Cons.prems(1) c(2)] c(1) by metis
  note u = unchangedD [OF get(2)] unchanged_facts [OF get(2)]
  obtain vol2 where set_: "SetEntry c 0 vol1 = (Inr (), vol2)"
    "released vol1 {c} (if m_FreeClusters vol2 < m_TotalClusters vol2 then vol2\<lparr>m_FreeClusters := m_FreeClusters vol2 + 1\<rparr> else vol2)"
    using release_one [OF u(1), of c d] c u d by metis
  define vol3 where "vol3 = (if m_FreeClusters vol2 < m_TotalClusters vol2 then vol2\<lparr>m_FreeClusters := m_FreeClusters vol2 + 1\<rparr> else vol2)"
  have rel: "released vol {c} vol3"
    using set_(2) unfolding released_def u vol3_def [symmetric] .
  have same: "links vol3 x = links vol x" if "x \<noteq> c" for x
    using rel that by (simp add: released_def)
  have "chain (links vol) (d # cs)"
    using Cons.prems(2) by simp
  then have "chain (links vol3) (d # cs)"
    by (rule chain_cong) (use c(3) in \<open>blast intro: same\<close>)
  from Cons.IH [OF _ this left(2)] obtain vol' where
    "ClearFATChain_loop left' d vol3 = (Inr END_FAT_ENTRY, vol')" "released vol3 (set (d # cs)) vol'"
    using rel by (auto simp: released_def)
  moreover have "ClearFATChain_loop left c vol = ClearFATChain_loop left' d vol3"
    using get(1) set_(1) c(2) d by (simp add: left vol3_def)
  moreover have "released vol (set (c # d # cs)) vol'"
    using rel \<open>released vol3 (set (d # cs)) vol'\<close> by (auto simp: released_def fun_eq_iff)
  ultimately show ?case
    by auto
qed

lemma ClearFATChain_released:
  assumes "table_ok vol" "chain (links vol) (c # cs)"
  obtains vol' where "ClearFATChain c vol = (Inr (), vol')" "released vol (set (c # cs)) vol'"
proof -
  note g = table_okD(1) [OF assms(1)]
  have c: "IsDataCluster vol c" "length cs < m_TotalClusters vol"
    using chain_length(1,3) [OF g assms(2)] by auto
  obtain vol1 where loop: "ClearFATChain_loop (m_TotalClusters vol) c vol = (Inr END_FAT_ENTRY, vol1)" "released vol (set (c # cs)) vol1"
    using ClearFATChain_loop_chain [OF assms c(2)] by blast
  obtain vol2 where info: "UpdateFSInfo vol1 = (Inr (), vol2)" "unchanged vol1 vol2"
    using UpdateFSInfo_unchanged [of vol1] loop(2) by (auto simp: released_def)
  have "released vol (set (c # cs)) vol2"
    using loop(2) info(2) unchanged_facts(1) [OF info(2)] by (simp add: released_def unchanged_def)
  then show thesis
    using c(1) loop(1) info(1) by (intro that [of vol2]) (simp_all add: ClearFATChain_def)
qed

text \<open>\<open>ClearFATChain\<close> succeeds on every chain of the table and frees exactly the clusters of the chain; all other entries stay as
  they are, and a right count of free clusters stays right.
\<close>

theorem ClearFATChain_spec:
  assumes "table_ok vol" "chain (links vol) cs"
  shows "case ClearFATChain (hd cs) vol of (r, vol') \<Rightarrow>
    r = Inr () \<and> table_ok vol' \<and> links vol' = (\<lambda>c. if c \<in> set cs then Inr 0 else links vol c) \<and> (free_exact vol \<longrightarrow> free_exact vol')"
proof -
  obtain c ds where cs: "cs = c # ds"
    using assms(2) by (cases cs) auto
  obtain vol' where "ClearFATChain c vol = (Inr (), vol')" "released vol (set cs) vol'"
    using ClearFATChain_released [OF assms(1) assms(2) [unfolded cs]] cs by metis
  then show ?thesis
    by (simp add: cs released_def)
qed

section \<open>A small volume\<close>

text \<open>A 16-bit volume of 5027 clusters, as the driver reads it from its boot sector. Its FAT is blank but for the entries of \<open>blocks\<close>.\<close>

definition disk16_boot_sector :: "u8 list" where
  "disk16_boot_sector =
     (replicate 512 0)[0x0c := 2, 0x0d := 1, 0x0e := 1, 0x10 := 2, 0x12 := 2, 0x13 := 0xec, 0x14 := 0x13, 0x15 := 0xf8,
                       0x16 := 20, 510 := 0x55, 511 := 0xaa]"

lemma disk16_boot_sector_fields:
  "length disk16_boot_sector = 512" "get16 disk16_boot_sector 0x0b = 512" "get8 disk16_boot_sector 0x0d = 1"
  "get16 disk16_boot_sector 0x0e = 1" "get8 disk16_boot_sector 0x10 = 2" "get16 disk16_boot_sector 0x11 = 512"
  "get16 disk16_boot_sector 0x13 = 5100" "get8 disk16_boot_sector 0x15 = 0xf8" "get16 disk16_boot_sector 0x16 = 20"
  "get8 disk16_boot_sector 0x26 = 0" "get16 disk16_boot_sector 510 = 0xaa55" "disk16_boot_sector ! 3 = 0"
  by (simp_all add: disk16_boot_sector_def get16_def get8_def nth_list_update)

lemma disk16_boot_sector_name:
  "take 8 (drop 3 disk16_boot_sector) \<noteq> NTFS_name" "take 8 (drop 3 disk16_boot_sector) \<noteq> HPFS_name"
  by (auto simp: NTFS_name_def HPFS_name_def disk16_boot_sector_fields dest!: arg_cong [where f = "\<lambda>l. l ! 0"])

definition disk16 :: "u8 list \<Rightarrow> FATVolume" where
  "disk16 fat = (projr (ReadSuperBlock (FATVolume_new (\<lambda>s. if s = 1 then fat else replicate 512 0) (\<lambda>_. None))
     (Inr disk16_boot_sector)))\<lparr>m_LastAllocatedCluster := FIRST_DATA_CLUSTER\<rparr>"

lemma disk16_fields:
  "m_FATBits (disk16 fat) = 16" "m_TotalClusters (disk16 fat) = 5027" "m_BytesPerSector (disk16 fat) = 512"
  "m_ReservedSectors (disk16 fat) = 1" "m_SectorsPerFAT (disk16 fat) = 20" "m_FATCount (disk16 fat) = 2"
  "m_ActiveFAT (disk16 fat) = 0" "m_Blocks (disk16 fat) = (\<lambda>s. if s = 1 then fat else replicate 512 0)"
  "m_GetBlockFails (disk16 fat) = (\<lambda>_. None)" "m_Magic (disk16 fat) = MAGIC" "m_FSInfoSector (disk16 fat) = 0xffff"
  "m_LastAllocatedCluster (disk16 fat) = 2" "m_FirstDataSector (disk16 fat) = 73" "m_SectorsPerCluster (disk16 fat) = 1"
  "m_TotalSectors (disk16 fat) = 5100" "m_BackupBootSector (disk16 fat) = 0" "m_StartCluster (m_RootInode (disk16 fat)) = 1"
  "m_RootStart (disk16 fat) = 41" "m_RootSectorCount (disk16 fat) = 32" "m_RootEntriesCount (disk16 fat) = 512"
  "m_LoadedSector1 (m_FATTable (disk16 fat)) = - 1" "m_LoadedSector2 (m_FATTable (disk16 fat)) = - 1"
  by (simp_all add: disk16_def ReadSuperBlock_def superBlock_of_def SIZEOF_FATSuperBlock_def Let_def
      ReadCommonFields_def ReadFAT16Fields_def ReadVolumeLabel_def disk16_boot_sector_fields disk16_boot_sector_name
      FAT_MAX_SUPPORTED_FAT_COUNT_def FATVolume_new_def FIRST_DATA_CLUSTER_def FATTableIterator_new_def FATInode_new_def)

lemma disk16_ok: "length fat = 512 \<Longrightarrow> table_ok (disk16 fat)"
  by (simp add: table_ok_def volume_geometry_def volume_layout_def disk16_fields FAT_MAX_SUPPORTED_FAT_COUNT_def blocks_ok_def
      it_cached_def IS_FIXED_ROOT_def)

definition one_chain :: "u8 list" where
  "one_chain = (replicate 512 0)[4 := 3, 6 := 0xf8, 7 := 0xff]"

lemma one_chain: "chain (links (disk16 one_chain)) [2, 3]" "length one_chain = 512"
proof -
  have "volume_geometry (disk16 one_chain)"
    using disk16_ok table_okD(1) by (simp add: one_chain_def)
  then have "IsDataCluster (disk16 one_chain) 2" "IsDataCluster (disk16 one_chain) 3"
      "\<not> IsDataCluster (disk16 one_chain) END_FAT_ENTRY"
    by (simp_all add: IsDataCluster_iff disk16_fields END_FAT_ENTRY_def)
  then show "chain (links (disk16 one_chain)) [2, 3]"
    by (simp add: links_def check_entry_def fat_entry_def disk16_fields extend_entry_def decode_entry_def decode16_def pair_at_def
        byte_at_def fat_byte_def fat_start_def one_chain_def END_FAT_ENTRY_def)
qed (simp add: one_chain_def)

theorem GetChainLength_spec_witness:
  "case GetChainLength 2 (disk16 one_chain) of (r, vol') \<Rightarrow>
    links vol' = links (disk16 one_chain) \<and> table_ok vol' \<and>
    (case r of
       Inr (n, e) \<Rightarrow> \<exists>cs. chain (links (disk16 one_chain)) cs \<and> hd cs = 2 \<and> length cs = n \<and> last cs = e
     | Inl e \<Rightarrow> e = IO \<and> (\<forall>cs. chain (links (disk16 one_chain)) cs \<longrightarrow> hd cs \<noteq> 2))"
  by (rule GetChainLength_spec) (rule disk16_ok [OF one_chain(2)])

theorem ClearFATChain_spec_witness:
  "case ClearFATChain (hd [2, 3]) (disk16 one_chain) of (r, vol') \<Rightarrow>
    r = Inr () \<and> table_ok vol' \<and> links vol' = (\<lambda>c. if c \<in> set [2, 3] then Inr 0 else links (disk16 one_chain) c) \<and>
    (free_exact (disk16 one_chain) \<longrightarrow> free_exact vol')"
  by (rule ClearFATChain_spec [OF disk16_ok [OF one_chain(2)] one_chain(1)])

end
