(* ===== verification/FATAllocation.thy ===== *)
theory FATAllocation
  imports FATTable
begin

text \<open>
  What \<open>FATTable::AllocateClusters\<close> promises: a new chain of formerly free clusters, or an error with the table as it was. The cursor
  visits every cluster once, starting at the last allocated one; the new chain grows at its end.
\<close>

section \<open>The order of the search\<close>

text \<open>The \<open>k\<close>-th cluster after \<open>start\<close>, in cyclic order.\<close>

definition cyclic :: "FATVolume \<Rightarrow> u32 \<Rightarrow> nat \<Rightarrow> u32" where
  "cyclic vol start k = of_nat (2 + (unat start - 2 + k) mod m_TotalClusters vol)"

lemma cyclic_facts:
  assumes "volume_geometry vol"
  shows "unat (cyclic vol start k) = 2 + (unat start - 2 + k) mod m_TotalClusters vol" "IsDataCluster vol (cyclic vol start k)"
    "IsDataCluster vol start \<Longrightarrow> cyclic vol start 0 = start"
proof -
  have m: "(unat start - 2 + k) mod m_TotalClusters vol < m_TotalClusters vol" for k
    using geometry_simps(5) [OF assms] by simp
  have u: "unat (cyclic vol start k) = 2 + (unat start - 2 + k) mod m_TotalClusters vol" for k
    using m [of k] geometry_simps(4) [OF assms] unfolding cyclic_def by (intro unat_of_nat_lt) simp
  show "unat (cyclic vol start k) = 2 + (unat start - 2 + k) mod m_TotalClusters vol"
    by (rule u)
  show "IsDataCluster vol (cyclic vol start k)"
    using m [of k] by (simp add: IsDataCluster_iff [OF assms] u)
  show "cyclic vol start 0 = start" if "IsDataCluster vol start"
  proof -
    have "2 \<le> unat start" "unat start - 2 < m_TotalClusters vol"
      using that geometry_simps(5) [OF assms] by (auto simp: IsDataCluster_iff [OF assms])
    then show ?thesis
      using u [of 0] by (simp add: word_unat_eq_iff)
  qed
qed

lemma cyclic_Suc:
  assumes "volume_geometry vol"
  shows "cyclic vol start (Suc k) =
    (if cyclic vol start k + 1 = of_nat (m_TotalClusters vol) + FIRST_DATA_CLUSTER then FIRST_DATA_CLUSTER else cyclic vol start k + 1)"
proof -
  let ?T = "m_TotalClusters vol" and ?r = "(unat start - 2 + k) mod m_TotalClusters vol"
  have T: "0 < ?T" "?T \<le> 0x0ffffff5" "?r < ?T"
    using geometry_simps(4,5) [OF assms] by auto
  have r: "cyclic vol start k + 1 = of_nat (3 + ?r)" "of_nat ?T + FIRST_DATA_CLUSTER = of_nat (2 + ?T)"
    by (simp_all add: cyclic_def FIRST_DATA_CLUSTER_def)
  have "(of_nat (3 + ?r) :: u32) = of_nat (2 + ?T) \<longleftrightarrow> 3 + ?r = 2 + ?T"
  proof -
    have "unat (of_nat (3 + ?r) :: u32) = 3 + ?r" "unat (of_nat (2 + ?T) :: u32) = 2 + ?T"
      using T by (intro unat_of_nat_lt; simp)+
    then show ?thesis
      by (simp only: word_unat_eq_iff)
  qed
  then show ?thesis
    unfolding r by (auto simp: cyclic_def FIRST_DATA_CLUSTER_def mod_Suc)
qed

lemma cyclic_inj:
  assumes "volume_geometry vol" "j < m_TotalClusters vol" "k < m_TotalClusters vol" "cyclic vol start j = cyclic vol start k"
  shows "j = k"
proof -
  have "(unat start - 2 + j) mod m_TotalClusters vol = (unat start - 2 + k) mod m_TotalClusters vol"
    using arg_cong [OF assms(4), of unat] by (simp add: cyclic_facts(1) [OF assms(1)])
  then show ?thesis
    using assms(2,3) mod_eq_dvd_iff_nat [of "unat start - 2 + j" "unat start - 2 + k" "m_TotalClusters vol"]
      mod_eq_dvd_iff_nat [of "unat start - 2 + k" "unat start - 2 + j" "m_TotalClusters vol"]
      nat_dvd_not_less [of "k - j" "m_TotalClusters vol"] nat_dvd_not_less [of "j - k" "m_TotalClusters vol"]
    by (cases j k rule: linorder_cases) auto
qed

lemma cyclic_all:
  assumes "volume_geometry vol"
  shows "cyclic vol start ` {..<m_TotalClusters vol} = {c. IsDataCluster vol c}"
proof (rule card_subset_eq)
  show "card (cyclic vol start ` {..<m_TotalClusters vol}) = card {c. IsDataCluster vol c}"
    using cyclic_inj [OF assms] by (subst card_image) (auto simp: inj_on_def data_clusters(2) [OF assms])
qed (use cyclic_facts(2) [OF assms] data_clusters(1) [OF assms] in auto)

section \<open>A chain on top of a table\<close>

fun linked :: "u32 list \<Rightarrow> (u32 \<Rightarrow> u32 result) \<Rightarrow> u32 \<Rightarrow> u32 result" where
  "linked [] N = N"
| "linked [c] N = N(c := Inr END_FAT_ENTRY)"
| "linked (c # d # cs) N = (linked (d # cs) N)(c := Inr d)"

lemma linked_other: "x \<notin> set cs \<Longrightarrow> linked cs N x = N x"
  by (induction cs N rule: linked.induct) auto

lemma chain_linked: "distinct cs \<Longrightarrow> cs \<noteq> [] \<Longrightarrow> chain (linked cs N) cs"
proof (induction cs N rule: linked.induct)
  case (3 c d cs N)
  then have "chain (linked (d # cs) N) (d # cs)"
    by simp
  then have "chain (linked (c # d # cs) N) (d # cs)"
    by (rule chain_cong) (use 3(2) in auto)
  then show ?case
    unfolding chain.simps linked.simps by simp
qed auto

lemma linked_neq_0: "x \<in> set cs \<Longrightarrow> 0 \<notin> set cs \<Longrightarrow> linked cs N x \<noteq> Inr 0"
  by (induction cs N rule: linked.induct) (auto simp: END_neq_0)

lemma linked_snoc:
  "distinct (cs @ [d]) \<Longrightarrow> cs \<noteq> [] \<Longrightarrow> linked (cs @ [d]) N = (linked cs N)(d := Inr END_FAT_ENTRY, last cs := Inr d)"
proof (induction cs N rule: linked.induct)
  case (3 c e cs N)
  then show ?case
    by (auto simp: fun_eq_iff)
qed auto

section \<open>One step of the search\<close>

text \<open>After a prefix of the search: the clusters \<open>cs\<close> have been taken and form the new chain.\<close>

definition alloc_state :: "FATVolume \<Rightarrow> u32 list \<Rightarrow> alloc_vars \<Rightarrow> FATVolume \<Rightarrow> bool" where
  "alloc_state vol0 cs v vol \<longleftrightarrow>
     params vol = params vol0 \<and> table_ok vol \<and> links vol = linked cs (links vol0) \<and>
     m_FreeClusters vol = m_FreeClusters vol0 - length cs \<and>
     firstCluster v = (if cs = [] then 0 else hd cs) \<and> lastCluster v = (if cs = [] then 0 else last cs) \<and>
     detachedCluster v = 0 \<and> allocatedClusterCount v = length cs \<and> distinct cs \<and> set cs \<subseteq> free_clusters vol0 \<and>
     it_pos vol0 (tableIterator v) \<and> it_cached vol0 (tableIterator v)"

lemma alloc_stateD:
  assumes "alloc_state vol0 cs v vol"
  shows "params vol = params vol0" "table_ok vol" "links vol = linked cs (links vol0)" "distinct cs" "set cs \<subseteq> free_clusters vol0"
    "it_pos vol (tableIterator v)" "it_cached vol (tableIterator v)" "volume_geometry vol0" "volume_geometry vol"
    "allocatedClusterCount v = length cs" "\<And>c. c \<in> set cs \<Longrightarrow> IsDataCluster vol c" "0 \<notin> set cs"
proof -
  show s: "params vol = params vol0" "table_ok vol" "links vol = linked cs (links vol0)" "distinct cs" "set cs \<subseteq> free_clusters vol0"
    "allocatedClusterCount v = length cs"
    using assms by (simp_all add: alloc_state_def)
  show "it_pos vol (tableIterator v)" "it_cached vol (tableIterator v)"
    using assms by (simp_all add: alloc_state_def params_predicates [OF s(1)])
  show g: "volume_geometry vol"
    using table_okD(1) [OF s(2)] .
  then show g0: "volume_geometry vol0"
    by (simp add: params_predicates [OF s(1)])
  show data: "IsDataCluster vol c" if "c \<in> set cs" for c
    using that s(5) free_clusters_facts(2) [OF g0] by (auto simp: params_predicates [OF s(1)])
  show "0 \<notin> set cs"
    using data END_not_data [OF g] by auto
qed

lemma take_cluster_ok:
  assumes "alloc_state vol0 cs v vol" "links vol (m_CurrentCluster (tableIterator v)) = Inr 0"
  obtains v' vol' where "take_cluster v vol = (Inr (), vol', v')" "alloc_state vol0 (cs @ [m_CurrentCluster (tableIterator v)]) v' vol'"
    "m_CurrentCluster (tableIterator v') = m_CurrentCluster (tableIterator v)"
proof -
  note s = alloc_stateD [OF assms(1)]
  define d where "d = m_CurrentCluster (tableIterator v)"
  have d: "IsDataCluster vol d" "d \<notin> set cs" "links vol0 d = Inr 0"
  proof -
    show "IsDataCluster vol d"
      using s(6) by (simp add: it_pos_def d_def)
    show "d \<notin> set cs"
      using assms(2) linked_neq_0 [OF _ s(12)] s(3) by (auto simp: d_def)
    then show "links vol0 d = Inr 0"
      using assms(2) linked_other [of d cs] s(3) by (simp add: d_def)
  qed
  obtain vol1 it where set_: "FATTableIterator.SetEntry vol (tableIterator v) END_FAT_ENTRY = (Inr (), vol1, it)"
    "link_set vol d END_FAT_ENTRY vol1" "it_pos vol it" "it_cached vol it" "m_CurrentCluster it = d"
    using iterator_SetEntry [OF s(2,6,7), of END_FAT_ENTRY] d_def by metis
  define vol2 where "vol2 = (if m_FreeClusters vol1 > 0 then vol1\<lparr>m_FreeClusters := m_FreeClusters vol1 - 1\<rparr> else vol1)"
  define v1 where "v1 = v\<lparr>tableIterator := it, detachedCluster := d\<rparr>"
  have vol1: "params vol1 = params vol" "table_ok vol1" "links vol1 = (links vol)(d := Inr END_FAT_ENTRY)"
    "m_FreeClusters vol1 = m_FreeClusters vol"
    using set_(2) by (simp_all add: link_set_def)
  have vol2: "params vol2 = params vol" "table_ok vol2" "links vol2 = (links vol)(d := Inr END_FAT_ENTRY)"
    "m_FreeClusters vol2 = m_FreeClusters vol - 1"
  proof -
    have p: "params vol2 = params vol1" "m_Blocks vol2 = m_Blocks vol1"
      by (simp_all add: vol2_def)
    show "params vol2 = params vol" "links vol2 = (links vol)(d := Inr END_FAT_ENTRY)"
      using p vol1 links_blocks(1) [OF p] by simp_all
    show "table_ok vol2"
      using links_blocks(2) [OF p] table_okD(5,6) [OF vol1(2)] by (intro table_ok_params [OF p(1) vol1(2)]) (simp_all add: vol2_def)
    show "m_FreeClusters vol2 = m_FreeClusters vol - 1"
      using vol1(4) by (simp add: vol2_def)
  qed
  obtain vol3 where link: "link_cluster v1 vol2 = (Inr (), vol3,
      v1\<lparr>firstCluster := (if cs = [] then d else hd cs), lastCluster := d, detachedCluster := 0\<rparr>)"
    "params vol3 = params vol" "table_ok vol3" "links vol3 = linked (cs @ [d]) (links vol0)" "m_FreeClusters vol3 = m_FreeClusters vol - 1"
  proof (cases "cs = []")
    case True
    then have "link_cluster v1 vol2 = (Inr (), vol2, v1\<lparr>firstCluster := d, lastCluster := d, detachedCluster := 0\<rparr>)"
      using assms(1) by (simp add: link_cluster_def v1_def alloc_state_def)
    then show thesis
      using True vol2 s(3) by (intro that [of vol2]) simp_all
  next
    case False
    have ends: "firstCluster v1 = hd cs" "lastCluster v1 = last cs" "allocatedClusterCount v1 = length cs" "detachedCluster v1 = d"
      using False assms(1) by (simp_all add: v1_def alloc_state_def)
    have data: "IsDataCluster vol2 (hd cs)" "IsDataCluster vol2 (last cs)" "IsDataCluster vol2 d"
      using False s(11) d(1) by (simp_all add: params_predicates [OF vol2(1)])
    obtain vol3 where vol3: "SetEntry (last cs) d vol2 = (Inr (), vol3)" "link_set vol2 (last cs) d vol3"
      using table_SetEntry [OF vol2(2) data(2), of d] data(3) by blast
    have "link_cluster v1 vol2 = (Inr (), vol3, v1\<lparr>lastCluster := d, detachedCluster := 0\<rparr>)"
      using False ends data vol3(1) by (simp add: link_cluster_def)
    moreover have "v1\<lparr>lastCluster := d, detachedCluster := 0\<rparr> =
        v1\<lparr>firstCluster := (if cs = [] then d else hd cs), lastCluster := d, detachedCluster := 0\<rparr>"
      using False ends(1) by simp
    moreover have "links vol3 = linked (cs @ [d]) (links vol0)"
      using vol3(2) vol2(3) s(3,4) d(2) False linked_snoc [of cs d "links vol0"] by (simp add: link_set_def)
    ultimately show thesis
      using vol3(2) vol2 by (intro that [of vol3]) (simp_all add: link_set_def)
  qed
  let ?v = "v1\<lparr>firstCluster := (if cs = [] then d else hd cs), lastCluster := d, detachedCluster := 0,
    allocatedClusterCount := allocatedClusterCount v1 + 1\<rparr>"
  let ?vol = "vol3\<lparr>m_LastAllocatedCluster := d\<rparr>"
  have "take_cluster v vol = (Inr (), ?vol, ?v)"
    using set_(1,5) link(1) by (simp add: take_cluster_def Let_def vol2_def [symmetric] v1_def [symmetric])
  moreover have "alloc_state vol0 (cs @ [d]) ?v ?vol"
  proof -
    have p: "params ?vol = params vol3" "m_Blocks ?vol = m_Blocks vol3"
      by simp_all
    have "table_ok ?vol"
      using links_blocks(2) [OF p] table_okD(5,6) [OF link(3)] by (intro table_ok_params [OF p(1) link(3)]) simp_all
    then show ?thesis
      using assms(1) link links_blocks(1) [OF p] p d set_(3,4) s(1)
      by (auto simp: alloc_state_def v1_def free_clusters_def params_predicates [OF s(1)])
  qed
  ultimately show thesis
    by (rule that [folded d_def]) (simp add: v1_def set_(5))
qed

section \<open>The search\<close>

lemma Increment_ok:
  assumes "volume_geometry vol" "it_cached vol it" "m_CurrentCluster it = cyclic vol start k"
  obtains it' where "Increment vol it = Inr it'" "it_pos vol it'" "it_cached vol it'" "m_CurrentCluster it' = cyclic vol start (Suc k)"
proof -
  obtain it' where "SetCluster vol (cyclic vol start (Suc k)) it = Inr it'" "it_pos vol it'" "it_cached vol it'"
    "m_CurrentCluster it' = cyclic vol start (Suc k)"
    using SetCluster_ok [OF assms(1) cyclic_facts(2) [OF assms(1)] assms(2)] .
  then show thesis
    using cyclic_Suc [OF assms(1), of start k] assms(3) by (intro that [of it']) (simp_all add: Increment_def Let_def)
qed

lemma cyclic_params: "params vol' = params vol \<Longrightarrow> cyclic vol' = cyclic vol"
  by (simp add: fun_eq_iff cyclic_def params_fields(3) [of vol' vol])

lemma fat_entry_free: "IsDataCluster vol c \<Longrightarrow> fat_entry vol c = 0 \<longleftrightarrow> links vol c = Inr 0"
  by (auto simp: links_def check_entry_def END_FAT_ENTRY_def BAD_FAT_ENTRY_def)

lemma AllocateClusters_loop_ok:
  assumes "alloc_state vol0 cs v vol" "m_CurrentCluster (tableIterator v) = cyclic vol0 start k"
    "left + k = m_TotalClusters vol0" "length cs < n"
    "set cs = {c \<in> cyclic vol0 start ` {..<k}. links vol0 c = Inr 0}"
  shows "\<exists>v' vol' cs'. AllocateClusters_loop left n v vol = (Inr (), vol', v') \<and> alloc_state vol0 cs' v' vol' \<and>
    (length cs' = n \<or> length cs' < n \<and> set cs' = free_clusters vol0)"
  using assms
proof (induction left arbitrary: cs v vol k)
  case 0
  have all: "cyclic vol0 start ` {..<k} = {c. IsDataCluster vol0 c}"
    using cyclic_all [OF alloc_stateD(8) [OF 0(1)]] 0(3) by simp
  have "set cs = free_clusters vol0"
    unfolding 0(5) all free_clusters_def using links_simps(3) [OF alloc_stateD(8) [OF 0(1)]] by blast
  then show ?case
    using 0(1,4) by auto
next
  case (Suc left)
  note s = alloc_stateD [OF Suc.prems(1)]
  define d where "d = cyclic vol0 start k"
  have d: "m_CurrentCluster (tableIterator v) = d" "IsDataCluster vol d"
    using Suc.prems(2) s(6) by (auto simp: d_def it_pos_def)
  have fresh: "d \<notin> set cs"
  proof
    assume "d \<in> set cs"
    then obtain j where "j < k" "cyclic vol0 start j = cyclic vol0 start k"
      using Suc.prems(5) by (auto simp: d_def)
    then show False
      using cyclic_inj [OF s(8), of j k start] Suc.prems(3) by auto
  qed
  have visited: "cyclic vol0 start ` {..<Suc k} = insert d (cyclic vol0 start ` {..<k})"
    by (simp add: d_def lessThan_Suc)
  obtain n1 it where get: "FATTableIterator.GetEntry vol (tableIterator v) = (Inr (fat_entry vol d), vol\<lparr>m_GetBlockCalls := n1\<rparr>, it)"
    "it_pos vol it" "it_cached vol it" "m_CurrentCluster it = d"
    using iterator_GetEntry [OF s(2,6,7)] d(1) by metis
  define vol1 where "vol1 = vol\<lparr>m_GetBlockCalls := n1\<rparr>"
  have p1: "params vol1 = params vol" "m_Blocks vol1 = m_Blocks vol"
    by (simp_all add: vol1_def)
  have "table_ok vol1"
    using links_blocks(2) [OF p1] table_okD(5,6) [OF s(2)] by (intro table_ok_params [OF p1(1) s(2)]) (simp_all add: vol1_def)
  then have state1: "alloc_state vol0 cs (v\<lparr>tableIterator := it\<rparr>) vol1"
    using Suc.prems(1) get(2,3) p1 links_blocks(1) [OF p1]
    by (simp add: alloc_state_def vol1_def params_predicates [OF s(1)])
  have links1: "links vol1 d = links vol d"
    using links_blocks(1) [OF p1] by simp
  have links_d: "links vol d = links vol0 d"
    using linked_other [OF fresh] s(3) by simp
  show ?case
  proof (cases "fat_entry vol d = 0")
    case True
    then have free: "links vol0 d = Inr 0"
      using fat_entry_free [OF d(2)] links_d by simp
    obtain v2 vol2 where take_: "take_cluster (v\<lparr>tableIterator := it\<rparr>) vol1 = (Inr (), vol2, v2)"
      "alloc_state vol0 (cs @ [d]) v2 vol2" "m_CurrentCluster (tableIterator v2) = d"
    proof (rule take_cluster_ok [OF state1])
      show "links vol1 (m_CurrentCluster (tableIterator (v\<lparr>tableIterator := it\<rparr>))) = Inr 0"
        using get(4) links1 links_d free by simp
    qed (use get(4) in simp_all)
    note s2 = alloc_stateD [OF take_(2)]
    have cs: "set (cs @ [d]) = {c \<in> cyclic vol0 start ` {..<Suc k}. links vol0 c = Inr 0}"
      using Suc.prems(5) free by (auto simp: visited)
    show ?thesis
    proof (cases "length (cs @ [d]) = n")
      case enough: True
      then have "AllocateClusters_loop (Suc left) n v vol = (Inr (), vol2, v2)"
        using get(1) True take_(1) s2(10) by (simp add: vol1_def)
      then show ?thesis
        using take_(2) enough by blast
    next
      case False
      have "m_CurrentCluster (tableIterator v2) = cyclic vol2 start k"
        using take_(3) by (simp add: d_def cyclic_params [OF s2(1)])
      from Increment_ok [OF s2(9,7) this] obtain it2 where it2: "Increment vol2 (tableIterator v2) = Inr it2"
        "it_pos vol2 it2" "it_cached vol2 it2" "m_CurrentCluster it2 = cyclic vol0 start (Suc k)"
        by (metis cyclic_params [OF s2(1)])
      have "alloc_state vol0 (cs @ [d]) (v2\<lparr>tableIterator := it2\<rparr>) vol2"
        using take_(2) it2 by (simp add: alloc_state_def params_predicates [OF s2(1)])
      from Suc.IH [OF this, of "Suc k"] it2(4) Suc.prems(3,4) False cs
      obtain v' vol' cs' where IH: "AllocateClusters_loop left n (v2\<lparr>tableIterator := it2\<rparr>) vol2 = (Inr (), vol', v')"
        "alloc_state vol0 cs' v' vol'" "length cs' = n \<or> length cs' < n \<and> set cs' = free_clusters vol0"
        by auto
      have "AllocateClusters_loop (Suc left) n v vol = (Inr (), vol', v')"
        using get(1) True take_(1) s2(10) False it2(1) IH(1) by (simp add: vol1_def)
      then show ?thesis
        using IH by blast
    qed
  next
    case False
    then have used: "links vol0 d \<noteq> Inr 0"
      using fat_entry_free [OF d(2)] links_d by simp
    note s1 = alloc_stateD [OF state1]
    have "m_CurrentCluster it = cyclic vol1 start k"
      using get(4) by (simp add: d_def cyclic_params [OF s1(1)])
    from Increment_ok [OF s1(9) _ this] s1(7) obtain it2 where it2: "Increment vol1 it = Inr it2"
      "it_pos vol1 it2" "it_cached vol1 it2" "m_CurrentCluster it2 = cyclic vol0 start (Suc k)"
      by (metis cyclic_params [OF s1(1)] alloc_vars.select_convs(1) alloc_vars.update_convs(1) alloc_vars.surjective)
    have "alloc_state vol0 cs (v\<lparr>tableIterator := it2\<rparr>) vol1"
      using state1 it2 by (simp add: alloc_state_def params_predicates [OF s1(1)])
    moreover have "set cs = {c \<in> cyclic vol0 start ` {..<Suc k}. links vol0 c = Inr 0}"
      using Suc.prems(5) used by (auto simp: visited)
    ultimately obtain v' vol' cs' where IH: "AllocateClusters_loop left n (v\<lparr>tableIterator := it2\<rparr>) vol1 = (Inr (), vol', v')"
      "alloc_state vol0 cs' v' vol'" "length cs' = n \<or> length cs' < n \<and> set cs' = free_clusters vol0"
      using Suc.IH [of cs "v\<lparr>tableIterator := it2\<rparr>" vol1 "Suc k"] it2(4) Suc.prems(3,4) by auto
    have "AllocateClusters_loop (Suc left) n v vol = (Inr (), vol', v')"
      using get(1) False it2(1) IH(1) by (simp add: vol1_def)
    then show ?thesis
      using IH by blast
  qed
qed

lemma linked_free:
  assumes "set cs \<subseteq> free_clusters vol" "distinct cs" "volume_geometry vol"
  shows "{c. linked cs (links vol) c = Inr 0} = free_clusters vol - set cs" "card (free_clusters vol - set cs) = card (free_clusters vol) - length cs"
    "(\<lambda>c. if c \<in> set cs then Inr 0 else linked cs (links vol) c) = links vol"
proof -
  have "0 \<notin> set cs"
    using assms(1) free_clusters_facts(2) [OF assms(3)] END_not_data [OF assms(3)] by auto
  then show "{c. linked cs (links vol) c = Inr 0} = free_clusters vol - set cs"
    using linked_neq_0 [of _ cs "links vol"] linked_other [of _ cs "links vol"] unfolding free_clusters_def by (auto 0 3) metis
  show "card (free_clusters vol - set cs) = card (free_clusters vol) - length cs"
    using assms distinct_card [of cs] by (simp add: card_Diff_subset)
  show "(\<lambda>c. if c \<in> set cs then Inr 0 else linked cs (links vol) c) = links vol"
    using assms(1) linked_other [of _ cs "links vol"] by (auto simp: fun_eq_iff free_clusters_def)
qed

lemma AllocateClusters_chain:
  assumes "table_ok vol" "IsDataCluster vol (m_LastAllocatedCluster vol)" "0 < n"
  shows "case AllocateClusters n vol of (r, vol') \<Rightarrow>
    table_ok vol' \<and> (free_exact vol \<longrightarrow> free_exact vol') \<and>
    (if n \<le> card (free_clusters vol)
     then \<exists>cs. r = Inr (hd cs, last cs) \<and> length cs = n \<and> set cs \<subseteq> free_clusters vol \<and> chain (links vol') cs \<and>
            (\<forall>c. c \<notin> set cs \<longrightarrow> links vol' c = links vol c)
     else r = Inl NOSPC \<and> links vol' = links vol)"
proof -
  note g = table_okD(1) [OF assms(1)]
  define v0 where "v0 = \<lparr>tableIterator = FATTableIterator_new vol (m_LastAllocatedCluster vol), firstCluster = 0, lastCluster = 0,
    detachedCluster = 0, allocatedClusterCount = 0\<rparr>"
  have start: "alloc_state vol [] v0 vol"
    using assms(1,2) by (simp add: alloc_state_def v0_def it_pos_def it_cached_def FATTableIterator_new_def fat_start_def entry_offset_def Let_def)
  have "m_CurrentCluster (tableIterator v0) = cyclic vol (m_LastAllocatedCluster vol) 0"
    using cyclic_facts(3) [OF g assms(2)] by (simp add: v0_def FATTableIterator_new_def Let_def)
  from AllocateClusters_loop_ok [OF start this, of "m_TotalClusters vol" n] assms(3)
  obtain v1 vol1 cs where loop: "AllocateClusters_loop (m_TotalClusters vol) n v0 vol = (Inr (), vol1, v1)"
    "alloc_state vol cs v1 vol1" "length cs = n \<or> length cs < n \<and> set cs = free_clusters vol"
    by auto
  note s = alloc_stateD [OF loop(2)]
  obtain vol2 where info: "UpdateFSInfo vol1 = (Inr (), vol2)" "unchanged vol1 vol2"
    using UpdateFSInfo_unchanged [OF s(2)] .
  note u = unchangedD [OF info(2)]
  have len: "length cs \<le> card (free_clusters vol)"
    using card_mono [OF free_clusters_facts(1) [OF g] s(5)] distinct_card [OF s(4)] by simp
  note l = linked_free [OF s(5,4) g]
  have exact2: "free_exact vol2" if "free_exact vol"
  proof -
    have "m_FreeClusters vol2 = m_FreeClusters vol - length cs"
      using loop(2) info(2) by (simp add: alloc_state_def unchanged_def)
    moreover have "free_clusters vol2 = free_clusters vol - set cs"
      unfolding free_clusters_def [of vol2] u(2) s(3) l(1) ..
    ultimately show ?thesis
      using that l(2) by (simp add: free_exact_def)
  qed
  have links2: "links vol2 = linked cs (links vol)"
    using u(2) s(3) by simp
  have ends: "firstCluster v1 = (if cs = [] then 0 else hd cs)" "lastCluster v1 = (if cs = [] then 0 else last cs)"
    "detachedCluster v1 = 0" "allocatedClusterCount v1 = length cs"
    using loop(2) by (simp_all add: alloc_state_def)
  show ?thesis
  proof (cases "n \<le> card (free_clusters vol)")
    case True
    have n: "length cs = n"
      using loop(3) True distinct_card [OF s(4)] by auto
    have small: "n \<le> m_TotalClusters vol"
      using True free_clusters_facts(3) [OF g] by simp
    have "cs \<noteq> []"
      using n assms(3) by auto
    moreover from this have "IsDataCluster vol2 (hd cs)" "IsDataCluster vol2 (last cs)"
      using s(11) u(4) by simp_all
    ultimately have "AllocateClusters n vol = (Inr (hd cs, last cs), vol2)"
      using assms(3) small table_okD(3) [OF assms(1)] loop(1) info(1) ends n
      by (simp add: AllocateClusters_def CheckMagic_def v0_def [symmetric])
    moreover have "chain (links vol2) cs"
      using chain_linked [OF s(4) \<open>cs \<noteq> []\<close>] by (simp add: links2)
    moreover have "links vol2 c = links vol c" if "c \<notin> set cs" for c
      using linked_other [OF that] by (simp add: links2)
    ultimately show ?thesis
      using True u(1) exact2 n s(5) by auto
  next
    case False
    show ?thesis
    proof (cases "m_TotalClusters vol < n")
      case True
      then show ?thesis
        using False assms table_okD(3) [OF assms(1)] by (simp add: AllocateClusters_def CheckMagic_def)
    next
      case small: False
      have "length cs \<noteq> n"
        using False len by auto
      then have failed: "AllocateClusters n vol = alloc_cleanup NOSPC v1 vol2"
        using assms(3) small table_okD(3) [OF assms(1)] loop(1) info(1) ends
        by (simp add: AllocateClusters_def CheckMagic_def v0_def [symmetric])
      have "\<exists>vol'. ClearFATChainAfterFailureNoThrow (firstCluster v1) vol2 = (Inr (), vol') \<and> released vol2 (set cs) vol'"
      proof (cases cs)
        case Nil
        then show ?thesis
          using ends u(1) by (simp add: ClearFATChainAfterFailureNoThrow_def released_def)
      next
        case (Cons c ds)
        then have "chain (links vol2) (c # ds)"
          using chain_linked [OF s(4)] by (simp add: links2)
        from ClearFATChain_released [OF u(1) this] obtain vol' where
          "ClearFATChain c vol2 = (Inr (), vol')" "released vol2 (set cs) vol'"
          using Cons by metis
        moreover have "c \<noteq> 0"
          using s(12) Cons by auto
        ultimately show ?thesis
          using ends Cons by (simp add: ClearFATChainAfterFailureNoThrow_def)
      qed
      then obtain vol' where clear: "ClearFATChainAfterFailureNoThrow (firstCluster v1) vol2 = (Inr (), vol')" "released vol2 (set cs) vol'"
        by blast
      have "AllocateClusters n vol = (Inl NOSPC, vol')"
        using failed clear(1) ends(3) by (simp add: alloc_cleanup_def ClearFATChainAfterFailureNoThrow_def)
      moreover have "links vol' = links vol"
        using clear(2) unfolding released_def links2 l(3) by blast
      ultimately show ?thesis
        using False clear(2) exact2 by (simp add: released_def)
    qed
  qed
qed

text \<open>
  C34. On a 32-bit volume, and on a 16-bit volume of at most 0xffee clusters, as long as the block cache fetches every sector without throwing
  and the last allocated cluster is a data cluster, which mounting checks,
  \<open>AllocateClusters\<close> returns a chain of as many clusters as asked for, all of them free before, and leaves every other entry as it was.
  If there are too few free clusters it fails with \<open>NOSPC\<close> and the table is as before: the clusters already taken have been given
  back. In both cases a right count of free clusters stays right. The other cases are excluded by hypotheses: the scan of a 12-bit
  volume panics at the first entry that crosses a sector boundary, on a larger 16-bit volume the links to the highest clusters
  cannot be read back (both are shown in \<open>FATLimits\<close>), and when fetching a sector throws, the same may happen to the rollback, which then leaves clusters allocated.
\<close>

theorem AllocateClusters_spec:
  assumes "volume_geometry vol" "volume_layout vol" "m_Magic vol = MAGIC" "blocks_ok vol" "it_cached vol (m_FATTable vol)"
    and bits: "m_FATBits vol = 32 \<or> m_FATBits vol = 16 \<and> m_TotalClusters vol \<le> 0xffee"
    and no_throw: "\<And>n. m_GetBlockFails vol n = None"
    and last: "IsDataCluster vol (m_LastAllocatedCluster vol)" and n: "0 < n"
  shows "case AllocateClusters n vol of (r, vol') \<Rightarrow>
    table_ok vol' \<and> (free_exact vol \<longrightarrow> free_exact vol') \<and>
    (if n \<le> card (free_clusters vol)
     then \<exists>cs. r = Inr (hd cs, last cs) \<and> length cs = n \<and> set cs \<subseteq> free_clusters vol \<and> chain (links vol') cs \<and>
            (\<forall>c. c \<notin> set cs \<longrightarrow> links vol' c = links vol c)
     else r = Inl NOSPC \<and> links vol' = links vol)"
  using table_okI [OF assms(1-5) bits no_throw] last n by (rule AllocateClusters_chain)

theorem AllocateClusters_spec_witness:
  "case AllocateClusters 3 (disk16 one_chain) of (r, vol') \<Rightarrow>
    table_ok vol' \<and> (free_exact (disk16 one_chain) \<longrightarrow> free_exact vol') \<and>
    (if 3 \<le> card (free_clusters (disk16 one_chain))
     then \<exists>cs. r = Inr (hd cs, last cs) \<and> length cs = 3 \<and> set cs \<subseteq> free_clusters (disk16 one_chain) \<and> chain (links vol') cs \<and>
            (\<forall>c. c \<notin> set cs \<longrightarrow> links vol' c = links (disk16 one_chain) c)
     else r = Inl NOSPC \<and> links vol' = links (disk16 one_chain))"
proof (rule AllocateClusters_spec)
  have ok: "table_ok (disk16 one_chain)"
    by (rule disk16_ok [OF one_chain(2)])
  from table_okD(1) [OF this] show "IsDataCluster (disk16 one_chain) (m_LastAllocatedCluster (disk16 one_chain))"
    by (simp add: IsDataCluster_iff disk16_fields)
  show "m_FATBits (disk16 one_chain) = 32 \<or> m_FATBits (disk16 one_chain) = 16 \<and> m_TotalClusters (disk16 one_chain) \<le> 0xffee"
    using ok by (simp add: table_ok_def)
qed (use table_okD [OF disk16_ok [OF one_chain(2)]] in simp_all)

end
