(* ===== verification/FATLimits.thy ===== *)
theory FATLimits
  imports FATTable
begin

text \<open>
  Two limits of the file allocation table code, as theorems. On 12-bit volumes a scan of the table fails an assertion at the first entry
  that crosses a sector boundary, because \<open>FATTableIterator::Update\<close> loads the second sector only together with the first one. On
  16-bit volumes with the highest cluster numbers, a chain through one of them can be written but not read, because
  \<open>FATTableIterator::GetEntry\<close> takes the number for a reserved value.
\<close>

section \<open>12-bit entries that cross a sector boundary\<close>

text \<open>The first cluster whose 12-bit entry starts in the last byte of a sector.\<close>

definition first_straddling :: "FATVolume \<Rightarrow> nat" where
  "first_straddling vol = 2 * m_BytesPerSector vol div 3"

lemma entry12_offset:
  assumes "volume_geometry vol" "m_FATBits vol = 12" "unat c \<le> first_straddling vol"
  shows "entry_offset vol c < m_BytesPerSector vol"
    "entry_offset vol c = m_BytesPerSector vol - 1 \<longleftrightarrow> unat c = first_straddling vol"
  using geometry_simps(1) [OF assms(1)] assms(2,3) by (auto simp: entry_offset_def first_straddling_def)

text \<open>The cursor in the first sector of the table, with no second sector.\<close>

definition scanning :: "FATVolume \<Rightarrow> u32 \<Rightarrow> FATTableIterator \<Rightarrow> bool" where
  "scanning vol c it \<longleftrightarrow>
     m_CurrentCluster it = c \<and> m_CurrentSector it = int (fat_start vol) \<and> m_OffsetInSector it = entry_offset vol c \<and>
     m_LoadedSector1 it = int (fat_start vol) \<and> m_Block1 it = loaded (int (fat_start vol)) \<and> m_Buffer (m_Block2 it) = None"

lemma scan_entry:
  assumes "volume_geometry vol" "m_FATBits vol = 12" "IsDataCluster vol c" "scanning vol c it" "unat c < first_straddling vol"
  obtains v where "FATTableIterator.GetEntry vol it = (Inr v, vol, it)"
proof -
  have "entry_offset vol c mod m_BytesPerSector vol = entry_offset vol c" "entry_offset vol c \<noteq> m_BytesPerSector vol - 1"
    using entry12_offset [OF assms(1,2), of c] assms(5) by auto
  then have "Update vol it = (Inr (), vol, it)" "\<exists>v. read_entry vol it = Inr v"
    using assms(2-4) by (auto simp: Update_def scanning_def read_entry_def loaded_def Let_def)
  then show thesis
    using that by (auto simp: FATTableIterator.GetEntry_def)
qed

lemma scan_straddling:
  assumes "volume_geometry vol" "m_FATBits vol = 12" "IsDataCluster vol c" "scanning vol c it" "unat c = first_straddling vol"
  shows "FATTableIterator.GetEntry vol it = (Inl Fault, vol, it)"
proof -
  have "entry_offset vol c = m_BytesPerSector vol - 1" "entry_offset vol c mod m_BytesPerSector vol = entry_offset vol c"
    using entry12_offset [OF assms(1,2), of c] assms(5) by auto
  then have "Update vol it = (Inr (), vol, it)" "read_entry vol it = Inl Fault"
    using assms(2-4) by (auto simp: Update_def scanning_def read_entry_def loaded_def Let_def)
  then show ?thesis
    by (simp add: FATTableIterator.GetEntry_def)
qed

lemma scan_next:
  assumes "volume_geometry vol" "m_FATBits vol = 12" "scanning vol c it" "unat c < first_straddling vol"
    "first_straddling vol < m_TotalClusters vol + 2"
  obtains it' where "Increment vol it = Inr it'" "scanning vol (c + 1) it'" "unat (c + 1) = unat c + 1"
proof -
  have T: "m_TotalClusters vol \<le> 0x0ffffff5"
    using geometry_simps(4) [OF assms(1)] .
  have c1: "unat (c + 1) = unat c + 1"
    using assms(4,5) T by (simp add: unat_word_ariths)
  have "unat (of_nat (m_TotalClusters vol) + FIRST_DATA_CLUSTER :: u32) = m_TotalClusters vol + 2"
    using T by (simp add: FIRST_DATA_CLUSTER_def unat_word_ariths unat_of_nat)
  then have "c + 1 \<noteq> of_nat (m_TotalClusters vol) + FIRST_DATA_CLUSTER"
    using c1 assms(4,5) by auto
  moreover have "entry_offset vol (c + 1) < m_BytesPerSector vol"
    using entry12_offset(1) [OF assms(1,2), of "c + 1"] c1 assms(4) by simp
  moreover have "0 < m_SectorsPerFAT vol"
    using geometry_simps(8,2) [OF assms(1)] by (cases "m_SectorsPerFAT vol") auto
  ultimately show thesis
    using assms(3) c1
    by (intro that [of "it\<lparr>m_CurrentCluster := c + 1, m_CurrentSector := int (fat_start vol), m_OffsetInSector := entry_offset vol (c + 1)\<rparr>"])
      (simp_all add: Increment_def SetCluster_def scanning_def Let_def)
qed

lemma scan_faults:
  assumes "volume_geometry vol" "m_FATBits vol = 12" "scanning vol c (m_FATTable vol)" "2 \<le> unat c" "unat c \<le> first_straddling vol"
    "first_straddling vol < m_TotalClusters vol + 2" "first_straddling vol - unat c < left"
  shows "fst (CountFreeClusters_loop left count vol) = Inl Fault"
  using assms
proof (induction left arbitrary: c count vol)
  case (Suc left)
  have data: "IsDataCluster vol c"
    using Suc.prems by (simp add: IsDataCluster_iff)
  show ?case
  proof (cases "unat c = first_straddling vol")
    case True
    then show ?thesis
      using scan_straddling [OF Suc.prems(1,2) data Suc.prems(3)] by simp
  next
    case False
    then have less: "unat c < first_straddling vol"
      using Suc.prems(5) by simp
    obtain v where get: "FATTableIterator.GetEntry vol (m_FATTable vol) = (Inr v, vol, m_FATTable vol)"
      using scan_entry [OF Suc.prems(1,2) data Suc.prems(3) less] .
    obtain it' where inc: "Increment vol (m_FATTable vol) = Inr it'" "scanning vol (c + 1) it'" "unat (c + 1) = unat c + 1"
      using scan_next [OF Suc.prems(1,2,3) less Suc.prems(6)] .
    let ?vol = "vol\<lparr>m_FATTable := it'\<rparr>"
    have "fst (CountFreeClusters_loop left (if v = 0 then count + 1 else count) ?vol) = Inl Fault"
    proof (rule Suc.IH [of ?vol "c + 1"])
      show "scanning ?vol (c + 1) (m_FATTable ?vol)"
        using inc(2) by (simp add: scanning_def fat_start_def entry_offset_def)
    qed (use Suc.prems inc(3) less in \<open>simp_all add: first_straddling_def\<close>)
    then show ?thesis
      using get inc(1) by simp
  qed
qed simp

text \<open>
  C36. Counting the free clusters, which mounting a volume without a free count does, fails an assertion on every 12-bit volume that
  has a cluster whose entry crosses a sector boundary: cluster 341 with sectors of 512 bytes.
\<close>

theorem fat12_count_faults:
  assumes "volume_geometry vol" "m_FATBits vol = 12" "first_straddling vol < m_TotalClusters vol + 2"
    and "m_FATTable vol = FATTableIterator_new vol FIRST_DATA_CLUSTER" "\<forall>n. m_GetBlockFails vol n = None"
  shows "fst (CountFreeClusters vol) = Inl Fault"
proof -
  have two: "unat FIRST_DATA_CLUSTER = 2" "entry_offset vol FIRST_DATA_CLUSTER = 3"
    using assms(2) by (simp_all add: FIRST_DATA_CLUSTER_def entry_offset_def)
  have bps: "m_BytesPerSector vol \<in> {512, 1024, 2048}" "341 \<le> first_straddling vol"
    using geometry_simps(1) [OF assms(1)] by (auto simp: first_straddling_def)
  have S: "0 < m_SectorsPerFAT vol"
    using geometry_simps(8,2) [OF assms(1)] by (cases "m_SectorsPerFAT vol") auto
  have data: "IsDataCluster vol FIRST_DATA_CLUSTER"
    using assms(1,3) bps(2) two(1) by (simp add: IsDataCluster_iff)
  define it where "it = FATTableIterator_new vol FIRST_DATA_CLUSTER"
  have it: "m_CurrentCluster it = FIRST_DATA_CLUSTER" "m_CurrentSector it = int (fat_start vol)" "m_OffsetInSector it = 3"
    "m_LoadedSector1 it = - 1" "m_LoadedSector2 it = - 1" "m_Block2 it = null_desc"
    using assms(2) bps(1) two by (auto simp: it_def FATTableIterator_new_def fat_start_def Let_def)
  have set_: "SetCluster vol FIRST_DATA_CLUSTER (m_FATTable vol) = Inr it"
    using S bps(1) two it assms(4) by (auto simp: SetCluster_def it_def [symmetric] Let_def)
  let ?vol = "vol\<lparr>m_FATTable := it\<rparr>"
  let ?vol1 = "?vol\<lparr>m_GetBlockCalls := Suc (m_GetBlockCalls vol)\<rparr>"
  let ?it = "it\<lparr>m_Block1 := loaded (int (fat_start vol)), m_LoadedSector1 := int (fat_start vol)\<rparr>"
  have get: "\<exists>v. FATTableIterator.GetEntry ?vol it = (Inr v, ?vol1, ?it)"
  proof -
    have b1: "Update_block1 ?vol it = (Inr (), ?vol1, it\<lparr>m_Block1 := loaded (int (fat_start vol)), m_Block2 := null_desc\<rparr>)"
      using it assms(5) by (simp add: Update_block1_def GetBlock_trw_eq null_desc_def Reset_def)
    have "Update ?vol it = (Inr (), ?vol1, ?it)"
      using it data two bps(1) b1 assms(2)
      by (auto simp: Update_def entry_offset_def loaded_def Let_def)
    moreover have "\<exists>v. read_entry ?vol1 ?it = Inr v"
      using it bps(1) assms(2) by (auto simp: read_entry_def loaded_def Let_def)
    ultimately show ?thesis
      by (auto simp: FATTableIterator.GetEntry_def)
  qed
  obtain left where left: "m_TotalClusters vol = Suc left"
    using geometry_simps(5) [OF assms(1)] by (cases "m_TotalClusters vol") auto
  have "scanning ?vol1 FIRST_DATA_CLUSTER ?it"
    using it two by (simp add: scanning_def fat_start_def entry_offset_def null_desc_def)
  then obtain it' where inc: "Increment ?vol1 ?it = Inr it'" "scanning ?vol1 (FIRST_DATA_CLUSTER + 1) it'"
    "unat (FIRST_DATA_CLUSTER + 1) = unat FIRST_DATA_CLUSTER + 1"
    using scan_next [of ?vol1 FIRST_DATA_CLUSTER ?it] assms(1-3) bps(2) two by (auto simp: first_straddling_def)
  have "fst (CountFreeClusters_loop left n (?vol1\<lparr>m_FATTable := it'\<rparr>)) = Inl Fault" for n
  proof (rule scan_faults [of _ "FIRST_DATA_CLUSTER + 1"])
    show "scanning (?vol1\<lparr>m_FATTable := it'\<rparr>) (FIRST_DATA_CLUSTER + 1) (m_FATTable (?vol1\<lparr>m_FATTable := it'\<rparr>))"
      using inc(2) by (simp add: scanning_def fat_start_def entry_offset_def)
  qed (use assms(1-3) bps(2) two inc(3) left in \<open>simp_all add: first_straddling_def\<close>)
  then show ?thesis
    using get set_ inc(1) left by (auto simp: CountFreeClusters_def)
qed

theorem fat12_count_faults_witness:
  "fst (CountFreeClusters (blank_floppy\<lparr>m_FATTable := FATTableIterator_new blank_floppy FIRST_DATA_CLUSTER\<rparr>)) = Inl Fault"
proof (rule fat12_count_faults)
  show "volume_geometry (blank_floppy\<lparr>m_FATTable := FATTableIterator_new blank_floppy FIRST_DATA_CLUSTER\<rparr>)"
    using blank_floppy_ok(1) by simp
qed (simp_all add: blank_floppy_def floppy_accepted first_straddling_def FATTableIterator_new_def)

section \<open>The highest 16-bit cluster numbers\<close>

text \<open>On a 16-bit volume, an entry that is set to a cluster number of 0xfff0 or more, which \<open>AllocateClusters\<close> does like with any other
  data cluster, is read back as an IO error: the chain behind it is lost.
\<close>

theorem fat16_high_cluster_unreadable:
  assumes "volume_geometry vol" "m_FATBits vol = 16" "blocks_ok vol" "it_cached vol (m_FATTable vol)"
    and "\<forall>n. m_GetBlockFails vol n = None" "IsDataCluster vol c" "IsDataCluster vol d" "0xfff0 \<le> d"
  shows "case SetEntry c d vol of (r, vol') \<Rightarrow> r = Inr () \<and> fst (GetEntry c vol') = Inl IO"
proof -
  have no_fail: "\<not> can_fail vol e" for e
    using assms(5) by (simp add: can_fail_def)
  have "m_TotalClusters vol \<le> 65524"
    using assms(1,2) by (auto simp: volume_geometry_def)
  then have "0xfff0 \<le> unat d" "unat d < 0xfff6"
    using assms(1,7,8) by (auto simp: IsDataCluster_iff word_le_nat_alt)
  then have "unat d \<in> {0xfff0, 0xfff1, 0xfff2, 0xfff3, 0xfff4, 0xfff5}"
    by auto
  then have "d \<in> {0xfff0, 0xfff1, 0xfff2, 0xfff3, 0xfff4, 0xfff5}"
    by (auto simp: word_unat_eq_iff)
  then have d: "take_bit 28 d = d" "\<not> IsDataCluster vol (extend_entry 16 (take_bit 16 d))"
    "extend_entry 16 (take_bit 16 d) \<noteq> 0" "\<not> BAD_FAT_ENTRY \<le> extend_entry 16 (take_bit 16 d)"
    "\<not> END_FAT_ENTRY \<le> extend_entry 16 (take_bit 16 d)"
    using \<open>m_TotalClusters vol \<le> 65524\<close> assms(1)
    by (auto simp: extend_entry_def BAD_FAT_ENTRY_def END_FAT_ENTRY_def IsDataCluster_iff)
  obtain it where it: "SetCluster vol c (m_FATTable vol) = Inr it" "it_pos vol it" "it_cached vol it" "m_CurrentCluster it = c"
    using SetCluster_ok [OF assms(1,6,4)] .
  have fresh: "it_fresh vol it'" if "it_pos vol it'" for it'
    using not_straddling_fresh [OF assms(1) that] assms(2) by simp
  obtain vol1 it1 where set_: "FATTableIterator.SetEntry vol it d = (Inr (), vol1, it1)" "it_loaded vol it1" "fat_saved vol {} vol1"
    "\<And>k. k < m_SectorsPerFAT vol * m_BytesPerSector vol \<Longrightarrow> fat_byte vol1 k = encode_entry 16 (fat_byte vol) (unat c) d k"
  proof (cases rule: SetEntry_cases [OF assms(1,3) it(2,3) fresh [OF it(2)] d(1), case_names fail ok])
    case (fail e n it')
    then show thesis
      using no_fail by blast
  next
    case (ok vol' it')
    show thesis
      by (rule that [OF ok(1,2,4)]) (use ok(5) it(4) assms(2) in simp)
  qed
  define vol2 where "vol2 = vol1\<lparr>m_FATTable := it1\<rparr>"
  have p: "params vol2 = params vol"
    using fat_saved_params(1) [OF set_(3)] by (simp add: vol2_def)
  note p' = params_fields [OF p] params_predicates [OF p]
  have byte: "fat_byte vol2 k = fat_byte vol1 k" for k
    by (simp add: fat_byte_def vol2_def fat_start_def)
  have entry: "fat_entry vol2 c = extend_entry 16 (take_bit 16 d)"
    using fat_entry_update [OF assms(1,6) p'(1), of c d] set_(4) assms(2) by (simp add: byte entry_bits_def)
  obtain it2 where it2: "SetCluster vol2 c (m_FATTable vol2) = Inr it2" "it_pos vol2 it2" "it_cached vol2 it2" "m_CurrentCluster it2 = c"
  proof (rule SetCluster_ok [of vol2 c "m_FATTable vol2"])
    have "m_FATTable vol2 = it1"
      by (simp add: vol2_def)
    then show "it_cached vol2 (m_FATTable vol2)"
      using set_(2) by (simp add: p' it_loaded_def)
  qed (use assms(1,6) in \<open>simp_all add: p'\<close>)
  have "\<exists>vol3 it3. FATTableIterator.GetEntry vol2 it2 = (Inr (fat_entry vol2 c), vol3, it3) \<and> params vol3 = params vol2"
  proof (cases rule: Update_cases [of vol2 it2, case_names g pos cached fresh fail ok])
    case (fail e n it')
    then show ?thesis
      using assms(5) by (auto simp: can_fail_def p')
  next
    case (ok n it')
    have "read_entry (vol2\<lparr>m_GetBlockCalls := n\<rparr>) it' = Inr (fat_entry vol2 c)"
      using read_entry_eq [of "vol2\<lparr>m_GetBlockCalls := n\<rparr>" it'] assms(1) ok(2,3) it2(4) by (simp add: fat_entry_def p')
    then show ?thesis
      using ok by (simp add: FATTableIterator.GetEntry_def)
  qed (use assms(1,2) it2(2,3) not_straddling_fresh [of vol2 it2] in \<open>simp_all add: p'\<close>)
  then obtain vol3 it3 where get: "FATTableIterator.GetEntry vol2 it2 = (Inr (fat_entry vol2 c), vol3, it3)" "params vol3 = params vol2"
    by blast
  then have "fst (GetEntry c vol2) = check_entry vol2 (fat_entry vol2 c)"
    using it2(1) by (simp add: GetEntry_def params_predicates(8) [OF get(2)])
  also have "\<dots> = Inl IO"
    using d(2-5) by (simp add: entry check_entry_def p')
  finally show ?thesis
    using it(1) set_(1) by (simp add: SetEntry_def vol2_def)
qed

definition big_disk16 :: FATVolume where
  "big_disk16 = (disk16 one_chain)\<lparr>m_TotalClusters := 65524, m_SectorsPerFAT := 256\<rparr>"

theorem fat16_high_cluster_unreadable_witness:
  "case SetEntry 5 0xfff0 big_disk16 of (r, vol') \<Rightarrow> r = Inr () \<and> fst (GetEntry 5 vol') = Inl IO"
proof (rule fat16_high_cluster_unreadable)
  show g: "volume_geometry big_disk16"
    by (simp add: big_disk16_def volume_geometry_def disk16_fields FAT_MAX_SUPPORTED_FAT_COUNT_def)
  show "IsDataCluster big_disk16 5" "IsDataCluster big_disk16 0xfff0"
    unfolding IsDataCluster_iff [OF g] by (simp_all add: big_disk16_def)
qed (simp_all add: big_disk16_def disk16_fields blocks_ok_def one_chain it_cached_def)

end
