(* ===== verification/KBlockCache.thy ===== *)
theory KBlockCache
  imports TimeValue "HOL-Library.Product_Lexorder"
begin

text \<open>
  The disk block cache (\<open>Include/Kernel/VFS/KBlockCache.h\<close>, \<open>Kernel/VFS/KBlockCache.cpp\<close>): a pool of buffers shared by the caches of all
  devices, a list of the buffers in use with the most recently used one last, and a thread that writes dirty buffers back. Every definition is a
  stretch of code between locking and unlocking \<open>s_Mutex\<close>, or a composition of such stretches; the contents of the buffers are part of
  the block headers. The theory shows that with one device the cache, its clients and the flushing thread, interleaved in any way,
  behave like a plain array of blocks; and what goes wrong with two devices and with failing writes.
\<close>

section \<open>Data\<close>

definition BCF_DIRTY :: u32 where "BCF_DIRTY = 0x01"
definition BCF_DIRTY_PENDING :: u32 where "BCF_DIRTY_PENDING = 0x02"
definition BCF_FLUSH_REQUESTED :: u32 where "BCF_FLUSH_REQUESTED = 0x04"
definition BCF_IS_FLUSHING :: u32 where "BCF_IS_FLUSHING = 0x08"

definition KBLOCK_CACHE_BLOCK_COUNT :: nat where "KBLOCK_CACHE_BLOCK_COUNT = 4096"
definition BUFFER_BLOCK_SIZE :: nat where "BUFFER_BLOCK_SIZE = 512"
definition FLUSH_PERIOD :: TimeValNanos where "FLUSH_PERIOD = FromNative 1000000000"
definition MAX_FLUSH_BLOCK_COUNT :: nat where "MAX_FLUSH_BLOCK_COUNT = 128"
definition MIN_FLUSH_WAKEUP_BLOCK_COUNT :: nat where "MIN_FLUSH_WAKEUP_BLOCK_COUNT = 64"
definition MIN_FLUSH_BLOCK_COUNT :: nat where "MIN_FLUSH_BLOCK_COUNT = 96"

text \<open>
  A header is known by its index in \<open>gk_BCacheHeaders\<close>; \<open>m_Data\<close> are the bytes \<open>m_Buffer\<close> points to. The use count is exact as long as there are fewer
  than \<open>2 ^ 32\<close> descriptors.
\<close>

type_synonym block_ref = nat

record KCacheBlockHeader =
  m_Device :: int
  m_bufferNumber :: int
  m_UseCount :: int
  m_Data :: "u8 list"
  m_DirtyTime :: TimeValNanos
  m_Flags :: u32

text \<open>A pointer into a buffer is the buffer's block and an offset.\<close>

record KCacheBlockDesc =
  m_Block :: "block_ref option"
  m_Buffer :: "(block_ref \<times> nat) option"

text \<open>The cache of one device. Its field \<open>m_Device\<close> is \<open>m_CacheDevice\<close> here.\<close>

record KBlockCache =
  m_CacheDevice :: int
  m_BlockSize :: nat
  m_BlockCount :: int
  m_BlocksPerBuffer :: int
  m_BlockToBufferShift :: nat
  m_BufferOffsetMask :: int
  m_BlockMap :: "int \<rightharpoonup> block_ref"

text \<open>The static members, and the cache objects by their address. A condition variable is the list of the threads waiting for it.\<close>

record cache_state =
  gk_BCacheHeaders :: "block_ref \<Rightarrow> KCacheBlockHeader"
  s_FreeList :: "block_ref list"
  s_MRUList :: "block_ref list"
  s_DirtyBlockCount :: int
  s_FlushingRequestWaiters :: "nat list"
  s_FlushingDoneWaiters :: "nat list"
  s_DeviceMap :: "int \<rightharpoonup> nat"
  cache_objects :: "nat \<Rightarrow> KBlockCache"

abbreviation header :: "cache_state \<Rightarrow> block_ref \<Rightarrow> KCacheBlockHeader" where
  "header st b \<equiv> gk_BCacheHeaders st b"

definition update_header :: "block_ref \<Rightarrow> (KCacheBlockHeader \<Rightarrow> KCacheBlockHeader) \<Rightarrow> cache_state \<Rightarrow> cache_state" where
  "update_header b f st = st\<lparr>gk_BCacheHeaders := (gk_BCacheHeaders st)(b := f (gk_BCacheHeaders st b))\<rparr>"

definition update_cache :: "nat \<Rightarrow> (KBlockCache \<Rightarrow> KBlockCache) \<Rightarrow> cache_state \<Rightarrow> cache_state" where
  "update_cache c f st = st\<lparr>cache_objects := (cache_objects st)(c := f (cache_objects st c))\<rparr>"

section \<open>Headers and descriptors\<close>

definition IsDirty :: "KCacheBlockHeader \<Rightarrow> bool" where
  "IsDirty h \<longleftrightarrow> m_Flags h AND BCF_DIRTY \<noteq> 0"

definition IsDirtyPending :: "KCacheBlockHeader \<Rightarrow> bool" where
  "IsDirtyPending h \<longleftrightarrow> m_Flags h AND BCF_DIRTY_PENDING \<noteq> 0"

definition ClearDirtyPending :: "KCacheBlockHeader \<Rightarrow> KCacheBlockHeader" where
  "ClearDirtyPending h = h\<lparr>m_Flags := m_Flags h AND NOT BCF_DIRTY_PENDING\<rparr>"

definition IsFlushRequested :: "KCacheBlockHeader \<Rightarrow> bool" where
  "IsFlushRequested h \<longleftrightarrow> m_Flags h AND BCF_FLUSH_REQUESTED \<noteq> 0"

definition SetFlushRequested :: "bool \<Rightarrow> KCacheBlockHeader \<Rightarrow> KCacheBlockHeader" where
  "SetFlushRequested isRequesting h =
     h\<lparr>m_Flags := (if isRequesting then m_Flags h OR BCF_FLUSH_REQUESTED else m_Flags h AND NOT BCF_FLUSH_REQUESTED)\<rparr>"

definition IsFlushing :: "KCacheBlockHeader \<Rightarrow> bool" where
  "IsFlushing h \<longleftrightarrow> m_Flags h AND BCF_IS_FLUSHING \<noteq> 0"

definition SetIsFlushing :: "bool \<Rightarrow> KCacheBlockHeader \<Rightarrow> KCacheBlockHeader" where
  "SetIsFlushing isFlushing h =
     h\<lparr>m_Flags := (if isFlushing then m_Flags h OR BCF_IS_FLUSHING else m_Flags h AND NOT BCF_IS_FLUSHING)\<rparr>"

definition wake_flusher :: "cache_state \<Rightarrow> cache_state" where
  "wake_flusher st = st\<lparr>s_FlushingRequestWaiters := []\<rparr>"

definition wake_flush_done :: "cache_state \<Rightarrow> cache_state" where
  "wake_flush_done st = st\<lparr>s_FlushingDoneWaiters := []\<rparr>"

definition wait_flush_done :: "nat \<Rightarrow> cache_state \<Rightarrow> cache_state" where
  "wait_flush_done thread st = st\<lparr>s_FlushingDoneWaiters := s_FlushingDoneWaiters st @ [thread]\<rparr>"

definition AddRef :: "block_ref \<Rightarrow> cache_state \<Rightarrow> cache_state" where
  "AddRef b st = update_header b (\<lambda>h. h\<lparr>m_UseCount := m_UseCount h + 1\<rparr>) st"

definition RemoveRef :: "block_ref \<Rightarrow> cache_state \<Rightarrow> cache_state" where
  "RemoveRef b st =
     (let st = update_header b (\<lambda>h. h\<lparr>m_UseCount := m_UseCount h - 1\<rparr>) st in
      if m_UseCount (header st b) = 0 then wake_flush_done st else st)"

definition SetDirty :: "TimeValNanos \<Rightarrow> block_ref \<Rightarrow> bool \<Rightarrow> cache_state \<Rightarrow> cache_state" where
  "SetDirty now b isDirty st =
     (if isDirty then
        let st = (if m_Flags (header st b) AND BCF_DIRTY = 0
          then (update_header b (\<lambda>h. h\<lparr>m_Flags := m_Flags h OR BCF_DIRTY, m_DirtyTime := now\<rparr>) st)
                 \<lparr>s_DirtyBlockCount := s_DirtyBlockCount st + 1\<rparr>
          else update_header b (\<lambda>h. h\<lparr>m_Flags := m_Flags h OR BCF_DIRTY_PENDING\<rparr>) st) in
        if s_DirtyBlockCount st \<ge> int MIN_FLUSH_WAKEUP_BLOCK_COUNT then wake_flusher st else st
      else if m_Flags (header st b) AND BCF_DIRTY \<noteq> 0
        then (update_header b (\<lambda>h. h\<lparr>m_Flags := m_Flags h AND NOT BCF_DIRTY\<rparr>) st)
               \<lparr>s_DirtyBlockCount := s_DirtyBlockCount st - 1\<rparr>
        else st)"

definition KCacheBlockDesc_of :: "block_ref \<Rightarrow> nat \<Rightarrow> KCacheBlockDesc" where
  "KCacheBlockDesc_of block blockOffset = \<lparr>m_Block = Some block, m_Buffer = Some (block, blockOffset)\<rparr>"

definition KCacheBlockDesc_destroy :: "KCacheBlockDesc \<Rightarrow> cache_state \<Rightarrow> cache_state" where
  "KCacheBlockDesc_destroy desc st = (case m_Block desc of None \<Rightarrow> st | Some b \<Rightarrow> RemoveRef b st)"

text \<open>The assignment that moves \<open>src\<close>: the new value, the emptied source, and the state.\<close>

definition KCacheBlockDesc_assign ::
  "KCacheBlockDesc \<Rightarrow> KCacheBlockDesc \<Rightarrow> cache_state \<Rightarrow> KCacheBlockDesc \<times> KCacheBlockDesc \<times> cache_state" where
  "KCacheBlockDesc_assign desc src st =
     (\<lparr>m_Block = m_Block src, m_Buffer = m_Buffer src\<rparr>, \<lparr>m_Block = None, m_Buffer = None\<rparr>,
      (case m_Block desc of None \<Rightarrow> st | Some b \<Rightarrow> RemoveRef b st))"

definition MarkDirty :: "TimeValNanos \<Rightarrow> KCacheBlockDesc \<Rightarrow> cache_state \<Rightarrow> cache_state" where
  "MarkDirty now desc st = (case m_Block desc of None \<Rightarrow> st | Some b \<Rightarrow> SetDirty now b True st)"

definition Reset :: "KCacheBlockDesc \<Rightarrow> cache_state \<Rightarrow> KCacheBlockDesc \<times> cache_state" where
  "Reset desc st = (case m_Block desc of None \<Rightarrow> (desc, st) | Some b \<Rightarrow> (desc\<lparr>m_Block := None\<rparr>, RemoveRef b st))"

section \<open>Cache objects\<close>

definition KBlockCache_new :: KBlockCache where
  "KBlockCache_new = \<lparr>m_CacheDevice = - 1, m_BlockSize = 0, m_BlockCount = 0, m_BlocksPerBuffer = 1, m_BlockToBufferShift = 0,
     m_BufferOffsetMask = 0, m_BlockMap = Map.empty\<rparr>"

definition GetDeviceCache :: "int \<Rightarrow> cache_state \<Rightarrow> nat option" where
  "GetDeviceCache device st = s_DeviceMap st device"

definition buffer_layout :: "int \<Rightarrow> nat \<Rightarrow> int \<Rightarrow> KBlockCache \<Rightarrow> KBlockCache" where
  "buffer_layout blocks shift offsetMask cache = cache\<lparr>m_BlocksPerBuffer := blocks, m_BlockToBufferShift := shift, m_BufferOffsetMask := offsetMask\<rparr>"

definition SetDevice :: "nat \<Rightarrow> int \<Rightarrow> int \<Rightarrow> nat \<Rightarrow> cache_state \<Rightarrow> bool \<times> cache_state" where
  "SetDevice c device blockCount blockSize st =
     (let old = m_CacheDevice (cache_objects st c);
          st = (if old \<noteq> - 1
            then update_cache c (\<lambda>cache. cache\<lparr>m_CacheDevice := - 1\<rparr>) (st\<lparr>s_DeviceMap := (s_DeviceMap st)(old := None)\<rparr>)
            else st) in
      if s_DeviceMap st device \<noteq> None then (False, st)
      else
        let st = update_cache c (\<lambda>cache. cache\<lparr>m_CacheDevice := device\<rparr>) st in
        if device = - 1 then (True, st)
        else
          let st = st\<lparr>s_DeviceMap := (s_DeviceMap st)(device \<mapsto> c)\<rparr>;
              st = update_cache c (\<lambda>cache. cache\<lparr>m_BlockCount := blockCount, m_BlockSize := blockSize\<rparr>) st in
          if blockSize = 512 then (True, update_cache c (buffer_layout 1 0 0) st)
          else if blockSize = 1024 then (True, update_cache c (buffer_layout 4 2 3) st)
          else if blockSize = 2048 then (True, update_cache c (buffer_layout 2 1 1) st)
          else if blockSize = 4096 then (True, update_cache c (buffer_layout 1 0 0) st)
          else (False, update_cache c (buffer_layout 1 0 0) st))"

text \<open>The pool after \<open>Initialize\<close>; the static data it finds are zero. The thread it spawns is \<open>DiskCacheFlusher\<close> below.\<close>

definition KCacheBlockHeader_new :: KCacheBlockHeader where
  "KCacheBlockHeader_new =
     \<lparr>m_Device = 0, m_bufferNumber = 0, m_UseCount = 0, m_Data = replicate BUFFER_BLOCK_SIZE 0, m_DirtyTime = FromNative 0, m_Flags = 0\<rparr>"

definition Initialize :: cache_state where
  "Initialize = \<lparr>gk_BCacheHeaders = (\<lambda>b. KCacheBlockHeader_new), s_FreeList = [0..<KBLOCK_CACHE_BLOCK_COUNT], s_MRUList = [],
     s_DirtyBlockCount = 0, s_FlushingRequestWaiters = [], s_FlushingDoneWaiters = [], s_DeviceMap = Map.empty,
     cache_objects = (\<lambda>c. KBlockCache_new)\<rparr>"

section \<open>Fetching a block\<close>

text \<open>
  \<open>kpread device bufferNum\<close> is what reading from the device does: the bytes it leaves in the buffer, and the length it returns or the error it
  throws. One pass of the retry loop of \<open>GetBlock_trw\<close> finds a block, fails, or waits for the flushing thread and tries again.
\<close>

type_synonym kpread = "int \<Rightarrow> int \<Rightarrow> u8 list \<times> int result"

datatype get_try = Found KCacheBlockDesc | Failed PErrorCode | Retry

definition GetBlock_hit :: "block_ref \<Rightarrow> nat \<Rightarrow> cache_state \<Rightarrow> get_try \<times> cache_state" where
  "GetBlock_hit b blockOffset st =
     (let st = AddRef b st in
      (Found (KCacheBlockDesc_of b blockOffset),
       if s_MRUList st \<noteq> [] \<and> last (s_MRUList st) = b then st else st\<lparr>s_MRUList := remove1 b (s_MRUList st) @ [b]\<rparr>))"

definition GetBlock_load :: "kpread \<Rightarrow> nat \<Rightarrow> int \<Rightarrow> nat \<Rightarrow> block_ref \<Rightarrow> cache_state \<Rightarrow> get_try \<times> cache_state" where
  "GetBlock_load kpread c bufferNum blockOffset b st =
     (let device = m_CacheDevice (cache_objects st c);
          (bytes, result) = kpread device bufferNum;
          st = update_header b (\<lambda>h. h\<lparr>m_Data := bytes\<rparr>) st in
      case result of
        Inl e \<Rightarrow> (Failed e, st\<lparr>s_FreeList := s_FreeList st @ [b]\<rparr>)
      | Inr bytesRead \<Rightarrow>
          if bytesRead \<noteq> int BUFFER_BLOCK_SIZE then (Failed IO, st\<lparr>s_FreeList := s_FreeList st @ [b]\<rparr>)
          else
            let st = st\<lparr>s_MRUList := s_MRUList st @ [b]\<rparr>;
                st = update_header b (\<lambda>h. h\<lparr>m_UseCount := 1, m_Flags := 0, m_Device := device, m_bufferNumber := bufferNum\<rparr>) st;
                st = update_cache c (\<lambda>cache. cache\<lparr>m_BlockMap := (m_BlockMap cache)(bufferNum \<mapsto> b)\<rparr>) st in
            (Found (KCacheBlockDesc_of b blockOffset), st))"

definition GetBlock_evict :: "nat \<Rightarrow> block_ref \<Rightarrow> cache_state \<Rightarrow> cache_state" where
  "GetBlock_evict c b st =
     (let st = st\<lparr>s_MRUList := remove1 b (s_MRUList st)\<rparr> in
      update_cache c (\<lambda>cache. cache\<lparr>m_BlockMap := (m_BlockMap cache)(m_bufferNumber (header st b) := None)\<rparr>) st)"

definition GetBlock_try :: "kpread \<Rightarrow> nat \<Rightarrow> nat \<Rightarrow> int \<Rightarrow> nat \<Rightarrow> cache_state \<Rightarrow> get_try \<times> cache_state" where
  "GetBlock_try kpread thread c bufferNum blockOffset st =
     (case m_BlockMap (cache_objects st c) bufferNum of
        Some b \<Rightarrow> GetBlock_hit b blockOffset st
      | None \<Rightarrow>
          if s_FreeList st \<noteq> [] then
            GetBlock_load kpread c bufferNum blockOffset (last (s_FreeList st)) (st\<lparr>s_FreeList := butlast (s_FreeList st)\<rparr>)
          else if s_MRUList st \<noteq> [] then
            (case find (\<lambda>b. m_UseCount (header st b) = 0) (s_MRUList st) of
               None \<Rightarrow> (Retry, wait_flush_done thread (wake_flusher st))
             | Some b \<Rightarrow>
                 if IsFlushing (header st b) then (Retry, wait_flush_done thread st)
                 else if IsDirty (header st b) then
                   (Retry, wait_flush_done thread (wake_flusher (update_header b (SetFlushRequested True) st)))
                 else GetBlock_load kpread c bufferNum blockOffset b (GetBlock_evict c b st))
          else (Failed AGAIN, st))"

text \<open>\<open>others n\<close> is what the other threads do to the state while the caller waits for the \<open>n\<close>-th time from the end.\<close>

fun GetBlock_loop ::
  "kpread \<Rightarrow> (nat \<Rightarrow> cache_state \<Rightarrow> cache_state) \<Rightarrow> nat \<Rightarrow> nat \<Rightarrow> int \<Rightarrow> nat \<Rightarrow> nat \<Rightarrow> cache_state \<Rightarrow> KCacheBlockDesc result \<times> cache_state"
where
  "GetBlock_loop kpread others thread c bufferNum blockOffset 0 st = (Inl AGAIN, st)"
| "GetBlock_loop kpread others thread c bufferNum blockOffset (Suc n) st =
     (case GetBlock_try kpread thread c bufferNum blockOffset st of
        (Found desc, st) \<Rightarrow> (Inr desc, st)
      | (Failed e, st) \<Rightarrow> (Inl e, st)
      | (Retry, st) \<Rightarrow> GetBlock_loop kpread others thread c bufferNum blockOffset n (others n st))"

definition buffer_number :: "KBlockCache \<Rightarrow> int \<Rightarrow> int" where
  "buffer_number cache blockNum = drop_bit (m_BlockToBufferShift cache) blockNum"

definition block_offset :: "KBlockCache \<Rightarrow> int \<Rightarrow> nat" where
  "block_offset cache blockNum = nat (blockNum AND m_BufferOffsetMask cache) * m_BlockSize cache"

definition GetBlock_trw ::
  "kpread \<Rightarrow> (nat \<Rightarrow> cache_state \<Rightarrow> cache_state) \<Rightarrow> nat \<Rightarrow> nat \<Rightarrow> int \<Rightarrow> cache_state \<Rightarrow> KCacheBlockDesc result \<times> cache_state" where
  "GetBlock_trw kpread others thread c blockNum st =
     (let cache = cache_objects st c in
      GetBlock_loop kpread others thread c (buffer_number cache blockNum) (block_offset cache blockNum) 10 st)"

definition MarkBlockDirty :: "TimeValNanos \<Rightarrow> nat \<Rightarrow> int \<Rightarrow> cache_state \<Rightarrow> bool \<times> cache_state" where
  "MarkBlockDirty now c blockNum st =
     (let cache = cache_objects st c in
      case m_BlockMap cache (buffer_number cache blockNum) of
        Some b \<Rightarrow> (True, SetDirty now b True st)
      | None \<Rightarrow> (False, st))"

section \<open>Reading and writing blocks\<close>

definition buffer_bytes :: "KCacheBlockDesc \<Rightarrow> nat \<Rightarrow> cache_state \<Rightarrow> u8 list" where
  "buffer_bytes desc n st = (case m_Buffer desc of None \<Rightarrow> [] | Some (b, offset) \<Rightarrow> take n (drop offset (m_Data (header st b))))"

definition store_bytes :: "KCacheBlockDesc \<Rightarrow> u8 list \<Rightarrow> cache_state \<Rightarrow> cache_state" where
  "store_bytes desc bytes st =
     (case m_Buffer desc of
        None \<Rightarrow> st
      | Some (b, offset) \<Rightarrow>
          update_header b (\<lambda>h. h\<lparr>m_Data := take offset (m_Data h) @ bytes @ drop (offset + length bytes) (m_Data h)\<rparr>) st)"

text \<open>The bytes of \<open>blockCount\<close> blocks. A \<open>memcpy\<close> copies \<open>m_BlockSize\<close> bytes.\<close>

fun CachedRead_trw ::
  "kpread \<Rightarrow> (nat \<Rightarrow> cache_state \<Rightarrow> cache_state) \<Rightarrow> nat \<Rightarrow> nat \<Rightarrow> int \<Rightarrow> nat \<Rightarrow> cache_state \<Rightarrow> u8 list result \<times> cache_state"
where
  "CachedRead_trw kpread others thread c blockNum 0 st = (Inr [], st)"
| "CachedRead_trw kpread others thread c blockNum (Suc blockCount) st =
     (case GetBlock_trw kpread others thread c blockNum st of
        (Inl e, st) \<Rightarrow> (Inl e, st)
      | (Inr desc, st) \<Rightarrow>
          let bytes = buffer_bytes desc (m_BlockSize (cache_objects st c)) st;
              st = KCacheBlockDesc_destroy desc st in
          case CachedRead_trw kpread others thread c (blockNum + 1) blockCount st of
            (Inl e, st) \<Rightarrow> (Inl e, st)
          | (Inr rest, st) \<Rightarrow> (Inr (bytes @ rest), st))"

fun CachedWrite_trw ::
  "kpread \<Rightarrow> (nat \<Rightarrow> cache_state \<Rightarrow> cache_state) \<Rightarrow> TimeValNanos \<Rightarrow> nat \<Rightarrow> nat \<Rightarrow> int \<Rightarrow> u8 list \<Rightarrow> nat \<Rightarrow> cache_state \<Rightarrow>
    unit result \<times> cache_state"
where
  "CachedWrite_trw kpread others now thread c blockNum buffer 0 st = (Inr (), st)"
| "CachedWrite_trw kpread others now thread c blockNum buffer (Suc blockCount) st =
     (case GetBlock_trw kpread others thread c blockNum st of
        (Inl e, st) \<Rightarrow> (Inl e, st)
      | (Inr desc, st) \<Rightarrow>
          let blockSize = m_BlockSize (cache_objects st c);
              st = store_bytes desc (take blockSize buffer) st;
              st = MarkDirty now desc st;
              st = KCacheBlockDesc_destroy desc st in
          CachedWrite_trw kpread others now thread c (blockNum + 1) (drop blockSize buffer) blockCount st)"

section \<open>Flushing\<close>

definition FlushInternal :: "cache_state \<Rightarrow> bool \<times> cache_state" where
  "FlushInternal st =
     (True,
      if s_DirtyBlockCount st \<noteq> 0 then
        wake_flusher (fold (\<lambda>b st. if IsDirty (header st b) then update_header b (SetFlushRequested True) st else st) (s_MRUList st) st)
      else st)"

definition Flush :: "cache_state \<Rightarrow> bool \<times> cache_state" where
  "Flush st = FlushInternal st"

text \<open>\<open>Sync\<close> up to the point where it waits, which it does when the first component is \<open>None\<close>; after the wait it returns \<open>True\<close>.\<close>

definition Sync :: "nat \<Rightarrow> cache_state \<Rightarrow> bool option \<times> cache_state" where
  "Sync thread st =
     (let (ok, st) = FlushInternal st in
      if \<not> ok then (Some False, st)
      else if s_DirtyBlockCount st \<noteq> 0 then (None, wait_flush_done thread st)
      else (Some True, st))"

definition Shutdown :: "bool \<Rightarrow> nat \<Rightarrow> cache_state \<Rightarrow> bool option \<times> cache_state" where
  "Shutdown flush thread st = (if flush then Sync thread st else (Some True, st))"

definition KBlockCache_destroy :: "nat \<Rightarrow> cache_state \<Rightarrow> cache_state" where
  "KBlockCache_destroy c st = snd (SetDevice c (- 1) 0 0 (snd (Flush st)))"

text \<open>The local variables of \<open>FlushBlockList_trw\<close>; \<open>segments\<close> are the buffers the next \<open>kpwritev_trw\<close> will write.\<close>

record flush_vars =
  blockList :: "block_ref list"
  segments :: "nat \<Rightarrow> block_ref"
  curTime :: TimeValNanos
  start :: nat
  requiredSegment :: bool
  hasTimedOutBlocks :: bool
  anythingFlushed :: bool
  loop_i :: nat

definition flush_flags :: "cache_state \<Rightarrow> flush_vars \<Rightarrow> flush_vars" where
  "flush_flags st v =
     (if loop_i v < length (blockList v) then
        let h = header st (blockList v ! loop_i v);
            v = (if \<not> requiredSegment v \<and> IsFlushRequested h then v\<lparr>requiredSegment := True\<rparr> else v) in
        if \<not> requiredSegment v \<and> nanos_sub (curTime v) (m_DirtyTime h) \<ge> FLUSH_PERIOD then v\<lparr>hasTimedOutBlocks := True\<rparr> else v
      else v)"

definition segment_ends :: "cache_state \<Rightarrow> flush_vars \<Rightarrow> bool" where
  "segment_ends st v \<longleftrightarrow>
     loop_i v = length (blockList v) \<or>
     loop_i v > start v \<and>
       (let prev = header st (blockList v ! (loop_i v - 1)); this = header st (blockList v ! loop_i v) in
        m_Device prev \<noteq> m_Device this \<or> m_bufferNumber prev + 1 \<noteq> m_bufferNumber this)"

definition flush_next_segment :: "flush_vars \<Rightarrow> flush_vars" where
  "flush_next_segment v = v\<lparr>start := loop_i v, requiredSegment := False, hasTimedOutBlocks := False\<rparr>"

definition flush_next_block :: "flush_vars \<Rightarrow> flush_vars" where
  "flush_next_block v =
     (let v = (if loop_i v < length (blockList v)
        then v\<lparr>segments := (segments v)(loop_i v - start v := blockList v ! loop_i v)\<rparr> else v) in
      v\<lparr>loop_i := loop_i v + 1\<rparr>)"

text \<open>The loop up to the next segment to write, if there is one.\<close>

lemma flush_flags_same [simp]:
  "blockList (flush_flags st v) = blockList v" "loop_i (flush_flags st v) = loop_i v" "start (flush_flags st v) = start v"
  "segments (flush_flags st v) = segments v" "curTime (flush_flags st v) = curTime v"
  "anythingFlushed (flush_flags st v) = anythingFlushed v"
  by (simp_all add: flush_flags_def Let_def)

lemma flush_next_block_same [simp]:
  "blockList (flush_next_block v) = blockList v" "loop_i (flush_next_block v) = Suc (loop_i v)" "start (flush_next_block v) = start v"
  "anythingFlushed (flush_next_block v) = anythingFlushed v"
  by (simp_all add: flush_next_block_def Let_def)

lemma flush_next_segment_same [simp]:
  "blockList (flush_next_segment v) = blockList v" "loop_i (flush_next_segment v) = loop_i v" "start (flush_next_segment v) = loop_i v"
  "segments (flush_next_segment v) = segments v" "anythingFlushed (flush_next_segment v) = anythingFlushed v"
  by (simp_all add: flush_next_segment_def)

function FlushBlockList_scan :: "cache_state \<Rightarrow> flush_vars \<Rightarrow> bool \<times> flush_vars" where
  "FlushBlockList_scan st v =
     (if loop_i v > length (blockList v) then (False, v)
      else
        let v = flush_flags st v in
        if segment_ends st v then
          if requiredSegment v \<or> hasTimedOutBlocks v \<or> loop_i v - start v \<ge> MIN_FLUSH_BLOCK_COUNT then (True, v)
          else FlushBlockList_scan st (flush_next_block (flush_next_segment v))
        else FlushBlockList_scan st (flush_next_block v))"
  by pat_completeness auto
termination
  by (relation "measure (\<lambda>(st, v). Suc (length (blockList v)) - loop_i v)") auto

declare FlushBlockList_scan.simps [simp del]

definition segment_blocks :: "flush_vars \<Rightarrow> block_ref list" where
  "segment_blocks v = map (\<lambda>k. blockList v ! k) [start v..<loop_i v]"

text \<open>Before the device is written, and after; \<open>ok\<close> says that \<open>kpwritev_trw\<close> has not thrown.\<close>

definition FlushBlockList_begin :: "flush_vars \<Rightarrow> cache_state \<Rightarrow> cache_state" where
  "FlushBlockList_begin v st = fold (\<lambda>b. update_header b ClearDirtyPending) (segment_blocks v) st"

definition flush_block_done :: "block_ref \<Rightarrow> cache_state \<Rightarrow> cache_state" where
  "flush_block_done b st =
     (if IsDirtyPending (header st b) then st
      else update_header b (SetIsFlushing False) (update_header b (SetFlushRequested False) (SetDirty (FromNative 0) b False st)))"

definition FlushBlockList_end :: "bool \<Rightarrow> flush_vars \<Rightarrow> cache_state \<Rightarrow> cache_state \<times> flush_vars" where
  "FlushBlockList_end ok v st =
     (let st = fold flush_block_done (segment_blocks v) st;
          st = (if requiredSegment v then wake_flush_done st else st) in
      (st, flush_next_block (flush_next_segment (v\<lparr>anythingFlushed := (ok \<or> anythingFlushed v)\<rparr>))))"

text \<open>
  The flushing thread is between two rounds, or inside \<open>kpwritev_trw\<close> with the mutex released. \<open>DiskCacheFlusher_continue\<close> runs from the
  point where it has the mutex to the next release: the end of the round, or the next segment.
\<close>

datatype flusher_phase = Idle | Writing flush_vars

definition DiskCacheFlusher_finish :: "nat \<Rightarrow> flush_vars \<Rightarrow> cache_state \<Rightarrow> cache_state" where
  "DiskCacheFlusher_finish flusher v st =
     (let st = fold (\<lambda>b. update_header b (SetIsFlushing False)) (blockList v) st in
      if anythingFlushed v then wake_flush_done st
      else st\<lparr>s_FlushingRequestWaiters := s_FlushingRequestWaiters st @ [flusher]\<rparr>)"

definition DiskCacheFlusher_continue :: "nat \<Rightarrow> flush_vars \<Rightarrow> cache_state \<Rightarrow> flusher_phase \<times> cache_state" where
  "DiskCacheFlusher_continue flusher v st =
     (case FlushBlockList_scan st v of
        (True, v) \<Rightarrow> (Writing v, FlushBlockList_begin v st)
      | (False, v) \<Rightarrow> (Idle, DiskCacheFlusher_finish flusher v st))"

fun DiskCacheFlusher_collect :: "block_ref list \<Rightarrow> int \<Rightarrow> block_ref list \<Rightarrow> cache_state \<Rightarrow> block_ref list \<times> cache_state" where
  "DiskCacheFlusher_collect [] deviceID blocks st = (blocks, st)"
| "DiskCacheFlusher_collect (b # bs) deviceID blocks st =
     (if length blocks < MAX_FLUSH_BLOCK_COUNT \<and> s_DirtyBlockCount st > 0 then
        if IsDirty (header st b) \<and> \<not> IsFlushing (header st b) then
          let deviceID = (if deviceID = - 1 then m_Device (header st b) else deviceID) in
          if m_Device (header st b) = deviceID
          then DiskCacheFlusher_collect bs deviceID (blocks @ [b]) (update_header b (SetIsFlushing True) st)
          else DiskCacheFlusher_collect bs deviceID blocks st
        else DiskCacheFlusher_collect bs deviceID blocks st
      else (blocks, st))"

definition FlushBlockList_start :: "TimeValNanos \<Rightarrow> block_ref list \<Rightarrow> cache_state \<Rightarrow> flush_vars" where
  "FlushBlockList_start now blocks st =
     \<lparr>blockList = sort_key (\<lambda>b. (m_Device (header st b), m_bufferNumber (header st b))) blocks, segments = (\<lambda>_. 0), curTime = now,
      start = 0, requiredSegment = False, hasTimedOutBlocks = False, anythingFlushed = False, loop_i = 0\<rparr>"

definition DiskCacheFlusher_round :: "TimeValNanos \<Rightarrow> nat \<Rightarrow> cache_state \<Rightarrow> flusher_phase \<times> cache_state" where
  "DiskCacheFlusher_round now flusher st =
     (if s_DirtyBlockCount st > 0 then
        let (blocks, st) = DiskCacheFlusher_collect (s_MRUList st) (- 1) [] st in
        DiskCacheFlusher_continue flusher (FlushBlockList_start now blocks st) st
      else (Idle, st\<lparr>s_FlushingRequestWaiters := s_FlushingRequestWaiters st @ [flusher]\<rparr>))"

definition DiskCacheFlusher_resume :: "bool \<Rightarrow> nat \<Rightarrow> flush_vars \<Rightarrow> cache_state \<Rightarrow> flusher_phase \<times> cache_state" where
  "DiskCacheFlusher_resume ok flusher v st =
     (let (st, v) = FlushBlockList_end ok v st in DiskCacheFlusher_continue flusher v st)"

section \<open>Flags\<close>

text \<open>Each flag is one bit.\<close>

lemma flag_bits:
  "IsDirty h \<longleftrightarrow> bit (m_Flags h) 0" "IsDirtyPending h \<longleftrightarrow> bit (m_Flags h) 1"
  "IsFlushRequested h \<longleftrightarrow> bit (m_Flags h) 2" "IsFlushing h \<longleftrightarrow> bit (m_Flags h) 3"
  "BCF_DIRTY = 2 ^ 0" "BCF_DIRTY_PENDING = 2 ^ 1" "BCF_FLUSH_REQUESTED = 2 ^ 2" "BCF_IS_FLUSHING = 2 ^ 3"
proof -
  show f: "BCF_DIRTY = 2 ^ 0" "BCF_DIRTY_PENDING = 2 ^ 1" "BCF_FLUSH_REQUESTED = 2 ^ 2" "BCF_IS_FLUSHING = 2 ^ 3"
    by (simp_all add: BCF_DIRTY_def BCF_DIRTY_PENDING_def BCF_FLUSH_REQUESTED_def BCF_IS_FLUSHING_def)
  show "IsDirty h \<longleftrightarrow> bit (m_Flags h) 0" "IsDirtyPending h \<longleftrightarrow> bit (m_Flags h) 1"
    "IsFlushRequested h \<longleftrightarrow> bit (m_Flags h) 2" "IsFlushing h \<longleftrightarrow> bit (m_Flags h) 3"
    unfolding IsDirty_def IsDirtyPending_def IsFlushRequested_def IsFlushing_def f and_exp_eq_0_iff_not_bit by simp_all
qed

lemma bit_flag_ops:
  fixes w :: u32
  assumes "k < 32"
  shows "bit (w OR 2 ^ k) j \<longleftrightarrow> bit w j \<or> j = k" "bit (w AND NOT (2 ^ k)) j \<longleftrightarrow> bit w j \<and> j \<noteq> k"
  using assms by (auto simp: bit_or_iff bit_and_iff bit_not_iff bit_exp_iff dest: bit_imp_le_length)

lemma bit_flags:
  fixes w :: u32
  shows "bit (w OR BCF_DIRTY) j \<longleftrightarrow> bit w j \<or> j = 0" "bit (w AND NOT BCF_DIRTY) j \<longleftrightarrow> bit w j \<and> j \<noteq> 0"
    "bit (w OR BCF_DIRTY_PENDING) j \<longleftrightarrow> bit w j \<or> j = 1" "bit (w AND NOT BCF_DIRTY_PENDING) j \<longleftrightarrow> bit w j \<and> j \<noteq> 1"
    "bit (w OR BCF_FLUSH_REQUESTED) j \<longleftrightarrow> bit w j \<or> j = 2" "bit (w AND NOT BCF_FLUSH_REQUESTED) j \<longleftrightarrow> bit w j \<and> j \<noteq> 2"
    "bit (w OR BCF_IS_FLUSHING) j \<longleftrightarrow> bit w j \<or> j = 3" "bit (w AND NOT BCF_IS_FLUSHING) j \<longleftrightarrow> bit w j \<and> j \<noteq> 3"
  unfolding flag_bits(5-8) by (rule bit_flag_ops, simp)+

lemma no_flags [simp]: "m_Flags h = 0 \<Longrightarrow> \<not> IsDirty h"
  by (simp add: flag_bits(1))

lemma flag_simps [simp]:
  "IsDirty (h\<lparr>m_Flags := m_Flags h OR BCF_DIRTY, m_DirtyTime := now\<rparr>)"
  "\<not> IsDirty (h\<lparr>m_Flags := m_Flags h AND NOT BCF_DIRTY\<rparr>)"
  "IsDirty (h\<lparr>m_Flags := m_Flags h OR BCF_DIRTY_PENDING\<rparr>) = IsDirty h"
  "IsDirty (ClearDirtyPending h) = IsDirty h"
  "IsDirty (SetFlushRequested r h) = IsDirty h"
  "IsDirty (SetIsFlushing f h) = IsDirty h"
  "IsDirtyPending (h\<lparr>m_Flags := m_Flags h OR BCF_DIRTY, m_DirtyTime := now\<rparr>) = IsDirtyPending h"
  "IsDirtyPending (h\<lparr>m_Flags := m_Flags h AND NOT BCF_DIRTY\<rparr>) = IsDirtyPending h"
  "IsDirtyPending (h\<lparr>m_Flags := m_Flags h OR BCF_DIRTY_PENDING\<rparr>)"
  "\<not> IsDirtyPending (ClearDirtyPending h)"
  "IsDirtyPending (SetFlushRequested r h) = IsDirtyPending h"
  "IsDirtyPending (SetIsFlushing f h) = IsDirtyPending h"
  by (simp_all add: flag_bits(1-4) bit_flags ClearDirtyPending_def SetFlushRequested_def SetIsFlushing_def)

lemma flag_fields [simp]:
  "m_Data (ClearDirtyPending h) = m_Data h" "m_Data (SetFlushRequested r h) = m_Data h" "m_Data (SetIsFlushing f h) = m_Data h"
  "m_UseCount (ClearDirtyPending h) = m_UseCount h" "m_UseCount (SetFlushRequested r h) = m_UseCount h"
  "m_UseCount (SetIsFlushing f h) = m_UseCount h"
  "m_Device (ClearDirtyPending h) = m_Device h" "m_Device (SetFlushRequested r h) = m_Device h" "m_Device (SetIsFlushing f h) = m_Device h"
  "m_bufferNumber (ClearDirtyPending h) = m_bufferNumber h" "m_bufferNumber (SetFlushRequested r h) = m_bufferNumber h"
  "m_bufferNumber (SetIsFlushing f h) = m_bufferNumber h"
  by (simp_all add: ClearDirtyPending_def SetFlushRequested_def SetIsFlushing_def)

lemma IsDirty_fields [simp]:
  "IsDirty (h\<lparr>m_UseCount := u\<rparr>) = IsDirty h" "IsDirty (h\<lparr>m_Data := d\<rparr>) = IsDirty h"
  "IsDirtyPending (h\<lparr>m_UseCount := u\<rparr>) = IsDirtyPending h" "IsDirtyPending (h\<lparr>m_Data := d\<rparr>) = IsDirtyPending h"
  by (simp_all add: IsDirty_def IsDirtyPending_def)

section \<open>Changes of the state\<close>

lemma header_update_header [simp]:
  "header (update_header b f st) b' = (if b' = b then f (header st b) else header st b')"
  by (simp add: update_header_def)

lemma update_header_fields [simp]:
  "s_FreeList (update_header b f st) = s_FreeList st" "s_MRUList (update_header b f st) = s_MRUList st"
  "s_DirtyBlockCount (update_header b f st) = s_DirtyBlockCount st" "s_DeviceMap (update_header b f st) = s_DeviceMap st"
  "cache_objects (update_header b f st) = cache_objects st"
  by (simp_all add: update_header_def)

lemma update_cache_fields [simp]:
  "s_FreeList (update_cache c f st) = s_FreeList st" "s_MRUList (update_cache c f st) = s_MRUList st"
  "s_DirtyBlockCount (update_cache c f st) = s_DirtyBlockCount st" "s_DeviceMap (update_cache c f st) = s_DeviceMap st"
  "header (update_cache c f st) = header st"
  "cache_objects (update_cache c f st) c' = (if c' = c then f (cache_objects st c) else cache_objects st c')"
  by (simp_all add: update_cache_def)

lemma waiter_fields [simp]:
  "header (wake_flusher st) = header st" "header (wake_flush_done st) = header st" "header (wait_flush_done t st) = header st"
  "s_FreeList (wake_flusher st) = s_FreeList st" "s_FreeList (wake_flush_done st) = s_FreeList st"
  "s_FreeList (wait_flush_done t st) = s_FreeList st"
  "s_MRUList (wake_flusher st) = s_MRUList st" "s_MRUList (wake_flush_done st) = s_MRUList st" "s_MRUList (wait_flush_done t st) = s_MRUList st"
  "s_DirtyBlockCount (wake_flusher st) = s_DirtyBlockCount st" "s_DirtyBlockCount (wake_flush_done st) = s_DirtyBlockCount st"
  "s_DirtyBlockCount (wait_flush_done t st) = s_DirtyBlockCount st"
  "cache_objects (wake_flusher st) = cache_objects st" "cache_objects (wake_flush_done st) = cache_objects st"
  "cache_objects (wait_flush_done t st) = cache_objects st"
  by (simp_all add: wake_flusher_def wake_flush_done_def wait_flush_done_def)

text \<open>The lists, maps, and what the headers hold except their flags.\<close>

definition same_pool :: "cache_state \<Rightarrow> cache_state \<Rightarrow> bool" where
  "same_pool st st' \<longleftrightarrow>
     s_FreeList st' = s_FreeList st \<and> s_MRUList st' = s_MRUList st \<and> cache_objects st' = cache_objects st \<and>
     (\<forall>b. m_Device (header st' b) = m_Device (header st b) \<and> m_bufferNumber (header st' b) = m_bufferNumber (header st b) \<and>
        m_UseCount (header st' b) = m_UseCount (header st b) \<and> m_Data (header st' b) = m_Data (header st b))"

definition dirty_blocks :: "cache_state \<Rightarrow> block_ref set" where
  "dirty_blocks st = {b. IsDirty (header st b)}"

definition pending_blocks :: "cache_state \<Rightarrow> block_ref set" where
  "pending_blocks st = {b. IsDirtyPending (header st b)}"

definition dirty_counted :: "cache_state \<Rightarrow> bool" where
  "dirty_counted st \<longleftrightarrow> finite (dirty_blocks st) \<and> s_DirtyBlockCount st = int (card (dirty_blocks st))"

definition same_flags :: "cache_state \<Rightarrow> cache_state \<Rightarrow> bool" where
  "same_flags st st' \<longleftrightarrow> same_pool st st' \<and> dirty_blocks st' = dirty_blocks st \<and> pending_blocks st' = pending_blocks st \<and>
     s_DirtyBlockCount st' = s_DirtyBlockCount st"

lemma same_pool_refl [simp]: "same_pool st st"
  by (simp add: same_pool_def)

lemma same_pool_trans: "same_pool st st' \<Longrightarrow> same_pool st' st'' \<Longrightarrow> same_pool st st''"
  by (simp add: same_pool_def)

lemma same_flags_refl [simp]: "same_flags st st"
  by (simp add: same_flags_def)

lemma same_flags_trans: "same_flags st st' \<Longrightarrow> same_flags st' st'' \<Longrightarrow> same_flags st st''"
  by (auto simp: same_flags_def intro: same_pool_trans)

lemma same_flags_update:
  assumes "\<And>h. IsDirty (f h) = IsDirty h" "\<And>h. IsDirtyPending (f h) = IsDirtyPending h"
    "\<And>h. m_Device (f h) = m_Device h \<and> m_bufferNumber (f h) = m_bufferNumber h \<and> m_UseCount (f h) = m_UseCount h \<and> m_Data (f h) = m_Data h"
  shows "same_flags st (update_header b f st)"
  using assms by (auto simp: same_flags_def same_pool_def dirty_blocks_def pending_blocks_def)

lemma same_flags_waiters [simp]:
  "same_flags st (wake_flusher st') = same_flags st st'" "same_flags st (wake_flush_done st') = same_flags st st'"
  "same_flags st (wait_flush_done t st') = same_flags st st'"
  "same_flags st (st'\<lparr>s_FlushingRequestWaiters := ws\<rparr>) = same_flags st st'"
  by (simp_all add: same_flags_def same_pool_def dirty_blocks_def pending_blocks_def)

lemma same_flags_fold:
  assumes "\<And>b st. same_flags st (f b st)"
  shows "same_flags st (fold f bs st)"
proof (induction bs arbitrary: st)
  case (Cons b bs)
  show ?case using same_flags_trans [OF assms Cons.IH] by simp
qed simp

lemma FlushInternal_flags: "same_flags st (snd (FlushInternal st))"
  by (auto simp: FlushInternal_def intro!: same_flags_fold same_flags_update)

lemma DiskCacheFlusher_finish_flags: "same_flags st (DiskCacheFlusher_finish flusher v st)"
  by (auto simp: DiskCacheFlusher_finish_def Let_def intro!: same_flags_fold same_flags_update)

lemma collect_flags: "same_flags st (snd (DiskCacheFlusher_collect bs deviceID blocks st))"
proof (induction bs deviceID blocks st rule: DiskCacheFlusher_collect.induct)
  case (2 b bs deviceID blocks st)
  have "same_flags st (update_header b (SetIsFlushing True) st)"
    by (rule same_flags_update) simp_all
  with 2 show ?case by (auto simp: Let_def intro: same_flags_trans)
qed simp

lemma collect_blocks:
  assumes "DiskCacheFlusher_collect bs deviceID blocks st = (blocks', st')" "distinct (blocks @ bs)"
  shows "distinct blocks' \<and> set blocks' \<subseteq> set blocks \<union> {b \<in> set bs. IsDirty (header st b)}"
  using assms
proof (induction bs deviceID blocks st arbitrary: blocks' st' rule: DiskCacheFlusher_collect.induct)
  case (2 b bs deviceID blocks st)
  have d: "IsDirty (header (update_header b (SetIsFlushing True) st) b') = IsDirty (header st b')" for b' by simp
  show ?case
    using 2 by (auto simp: Let_def d split: if_splits simp del: header_update_header)
qed simp

lemma SetDirty_pool [simp]: "same_pool st (SetDirty now b d st)"
  by (auto simp: SetDirty_def same_pool_def Let_def)

lemma dirty_SetDirty:
  "dirty_blocks (SetDirty now b d st) = (if d then insert b (dirty_blocks st) else dirty_blocks st - {b})"
  by (auto simp: SetDirty_def dirty_blocks_def Let_def IsDirty_def [symmetric] split: if_splits)

lemma pending_SetDirty:
  "pending_blocks (SetDirty now b d st) = (if d \<and> b \<in> dirty_blocks st then insert b (pending_blocks st) else pending_blocks st)"
proof -
  have i: "m_Flags (header st b) AND BCF_DIRTY = 0 \<longleftrightarrow> \<not> IsDirty (header st b)"
    by (simp add: IsDirty_def)
  show ?thesis
    unfolding SetDirty_def Let_def i by (auto simp: dirty_blocks_def pending_blocks_def split: if_splits)
qed

lemma counted_SetDirty: "dirty_counted st \<Longrightarrow> dirty_counted (SetDirty now b d st)"
proof -
  assume c: "dirty_counted st"
  have i: "m_Flags (header st b) AND BCF_DIRTY = 0 \<longleftrightarrow> b \<notin> dirty_blocks st"
    by (simp add: dirty_blocks_def IsDirty_def)
  have n: "s_DirtyBlockCount (SetDirty now b d st) =
    (if d then if b \<in> dirty_blocks st then s_DirtyBlockCount st else s_DirtyBlockCount st + 1
     else if b \<in> dirty_blocks st then s_DirtyBlockCount st - 1 else s_DirtyBlockCount st)"
    by (simp add: SetDirty_def Let_def i)
  have fin: "finite (dirty_blocks st)" and k: "s_DirtyBlockCount st = int (card (dirty_blocks st))"
    using c by (simp_all add: dirty_counted_def)
  have "int (card (dirty_blocks st - {b})) = int (card (dirty_blocks st)) - 1" if "b \<in> dirty_blocks st"
    using card_Suc_Diff1 [OF fin that] by linarith
  with fin k show ?thesis
    unfolding dirty_counted_def dirty_SetDirty n by (simp add: insert_absorb)
qed

lemma FlushBlockList_begin_flags:
  "same_pool st (FlushBlockList_begin v st)" "dirty_blocks (FlushBlockList_begin v st) = dirty_blocks st"
  "pending_blocks (FlushBlockList_begin v st) = pending_blocks st - set (segment_blocks v)"
  "s_DirtyBlockCount (FlushBlockList_begin v st) = s_DirtyBlockCount st"
proof -
  have "same_pool st (fold (\<lambda>b. update_header b ClearDirtyPending) bs st) \<and>
    dirty_blocks (fold (\<lambda>b. update_header b ClearDirtyPending) bs st) = dirty_blocks st \<and>
    pending_blocks (fold (\<lambda>b. update_header b ClearDirtyPending) bs st) = pending_blocks st - set bs \<and>
    s_DirtyBlockCount (fold (\<lambda>b. update_header b ClearDirtyPending) bs st) = s_DirtyBlockCount st" for bs
  proof (induction bs arbitrary: st)
    case (Cons b bs)
    have 1: "same_pool st (update_header b ClearDirtyPending st)"
      "dirty_blocks (update_header b ClearDirtyPending st) = dirty_blocks st"
      "pending_blocks (update_header b ClearDirtyPending st) = pending_blocks st - {b}"
      "s_DirtyBlockCount (update_header b ClearDirtyPending st) = s_DirtyBlockCount st"
      by (auto simp: same_pool_def dirty_blocks_def pending_blocks_def)
    show ?case using Cons.IH [of "update_header b ClearDirtyPending st"] 1 by (auto intro: same_pool_trans)
  qed simp
  then show "same_pool st (FlushBlockList_begin v st)" "dirty_blocks (FlushBlockList_begin v st) = dirty_blocks st"
    "pending_blocks (FlushBlockList_begin v st) = pending_blocks st - set (segment_blocks v)"
    "s_DirtyBlockCount (FlushBlockList_begin v st) = s_DirtyBlockCount st"
    by (simp_all add: FlushBlockList_begin_def)
qed

lemma flush_block_done_flags:
  "same_pool st (flush_block_done b st)"
  "dirty_blocks (flush_block_done b st) = (if b \<in> pending_blocks st then dirty_blocks st else dirty_blocks st - {b})"
  "pending_blocks (flush_block_done b st) = pending_blocks st"
  "dirty_counted st \<Longrightarrow> dirty_counted (flush_block_done b st)"
proof -
  let ?st1 = "SetDirty (FromNative 0) b False st"
  let ?st2 = "update_header b (SetIsFlushing False) (update_header b (SetFlushRequested False) ?st1)"
  have f: "same_flags ?st1 ?st2"
    by (rule same_flags_trans [of _ "update_header b (SetFlushRequested False) ?st1"]; rule same_flags_update; simp)
  have r: "flush_block_done b st = (if b \<in> pending_blocks st then st else ?st2)"
    by (simp add: flush_block_done_def pending_blocks_def)
  have p: "same_pool st ?st2"
    using f by (intro same_pool_trans [OF SetDirty_pool [of st "FromNative 0" b False]]) (simp add: same_flags_def)
  show "same_pool st (flush_block_done b st)"
    "dirty_blocks (flush_block_done b st) = (if b \<in> pending_blocks st then dirty_blocks st else dirty_blocks st - {b})"
    "pending_blocks (flush_block_done b st) = pending_blocks st"
    using f p by (simp_all add: r same_flags_def dirty_SetDirty pending_SetDirty)
  show "dirty_counted (flush_block_done b st)" if "dirty_counted st"
    using counted_SetDirty [OF that, of "FromNative 0" b False] that f by (simp add: r same_flags_def dirty_counted_def)
qed

lemma flush_blocks_done_flags:
  "same_pool st (fold flush_block_done bs st)"
  "dirty_blocks (fold flush_block_done bs st) = dirty_blocks st - (set bs - pending_blocks st)"
  "pending_blocks (fold flush_block_done bs st) = pending_blocks st"
  "dirty_counted st \<Longrightarrow> dirty_counted (fold flush_block_done bs st)"
proof (induction bs arbitrary: st)
  case (Cons b bs)
  {
    case 1 show ?case using same_pool_trans [OF flush_block_done_flags(1) Cons.IH(1)] by simp
  next
    case 2 show ?case using Cons.IH(2) [of "flush_block_done b st"] by (auto simp: flush_block_done_flags)
  next
    case 3 show ?case using Cons.IH(3) [of "flush_block_done b st"] by (simp add: flush_block_done_flags)
  next
    case 4 then show ?case using Cons.IH(4) [of "flush_block_done b st"] by (simp add: flush_block_done_flags)
  }
qed simp_all

section \<open>The invariant of the pool\<close>

text \<open>
  With one device, which is the device of cache \<open>c\<close> and has blocks of 512 bytes: every block is on exactly one of the two lists, the map of the cache
  finds exactly the blocks on the MRU list, and only those are in use or dirty.
\<close>

abbreviation block_map :: "nat \<Rightarrow> cache_state \<Rightarrow> int \<rightharpoonup> block_ref" where
  "block_map c st \<equiv> m_BlockMap (cache_objects st c)"

abbreviation cache_device :: "nat \<Rightarrow> cache_state \<Rightarrow> int" where
  "cache_device c st \<equiv> m_CacheDevice (cache_objects st c)"

definition pool_ok :: "nat \<Rightarrow> cache_state \<Rightarrow> bool" where
  "pool_ok c st \<longleftrightarrow>
     distinct (s_FreeList st) \<and> distinct (s_MRUList st) \<and> set (s_FreeList st) \<inter> set (s_MRUList st) = {} \<and>
     set (s_FreeList st) \<union> set (s_MRUList st) = {..<KBLOCK_CACHE_BLOCK_COUNT} \<and>
     m_BlockToBufferShift (cache_objects st c) = 0 \<and> m_BufferOffsetMask (cache_objects st c) = 0 \<and>
     m_BlockSize (cache_objects st c) = BUFFER_BLOCK_SIZE \<and>
     (\<forall>n b. block_map c st n = Some b \<longleftrightarrow> b \<in> set (s_MRUList st) \<and> m_bufferNumber (header st b) = n) \<and>
     (\<forall>b \<in> set (s_MRUList st). m_Device (header st b) = cache_device c st \<and> length (m_Data (header st b)) = BUFFER_BLOCK_SIZE) \<and>
     (\<forall>b. m_UseCount (header st b) \<ge> 0) \<and>
     (\<forall>b. m_UseCount (header st b) > 0 \<longrightarrow> b \<in> set (s_MRUList st)) \<and>
     dirty_blocks st \<subseteq> set (s_MRUList st) \<and> dirty_counted st"

lemma pool_okD:
  assumes "pool_ok c st"
  shows "distinct (s_FreeList st)" "distinct (s_MRUList st)" "set (s_FreeList st) \<inter> set (s_MRUList st) = {}"
    "set (s_FreeList st) \<union> set (s_MRUList st) = {..<KBLOCK_CACHE_BLOCK_COUNT}"
    "\<And>n b. block_map c st n = Some b \<longleftrightarrow> b \<in> set (s_MRUList st) \<and> m_bufferNumber (header st b) = n"
    "\<And>b. b \<in> set (s_MRUList st) \<Longrightarrow> m_Device (header st b) = cache_device c st"
    "\<And>b. b \<in> set (s_MRUList st) \<Longrightarrow> length (m_Data (header st b)) = BUFFER_BLOCK_SIZE"
    "\<And>b. m_UseCount (header st b) \<ge> 0"
    "\<And>b. m_UseCount (header st b) > 0 \<Longrightarrow> b \<in> set (s_MRUList st)"
    "\<And>b. b \<in> dirty_blocks st \<Longrightarrow> b \<in> set (s_MRUList st)" "dirty_counted st"
    "m_BlockToBufferShift (cache_objects st c) = 0" "m_BufferOffsetMask (cache_objects st c) = 0"
    "m_BlockSize (cache_objects st c) = BUFFER_BLOCK_SIZE"
  using assms by (auto simp: pool_ok_def)

lemma pool_ok_same:
  assumes "pool_ok c st" "same_pool st st'" "dirty_blocks st' \<subseteq> set (s_MRUList st)" "dirty_counted st'"
  shows "pool_ok c st'"
  using assms by (simp add: pool_ok_def same_pool_def)

lemma pool_ok_flags: "pool_ok c st \<Longrightarrow> same_flags st st' \<Longrightarrow> pool_ok c st'"
  by (rule pool_ok_same [of c st]) (auto simp: same_flags_def pool_ok_def dirty_counted_def)

lemma pool_ok_inj:
  assumes "pool_ok c st" "b \<in> set (s_MRUList st)" "b' \<in> set (s_MRUList st)" "m_bufferNumber (header st b) = m_bufferNumber (header st b')"
  shows "b = b'"
  using assms pool_okD(5) [OF assms(1), of "m_bufferNumber (header st b)" b]
    pool_okD(5) [OF assms(1), of "m_bufferNumber (header st b)" b'] by simp

text \<open>What the clients see: the buffer of a cached block, the device for the others. A clean buffer nobody is changing agrees with the device.\<close>

definition cache_memory :: "nat \<Rightarrow> (int \<Rightarrow> int \<Rightarrow> u8 list) \<Rightarrow> cache_state \<Rightarrow> int \<Rightarrow> u8 list" where
  "cache_memory c disk st n = (case block_map c st n of Some b \<Rightarrow> m_Data (header st b) | None \<Rightarrow> disk (cache_device c st) n)"

definition clean_ok :: "nat \<Rightarrow> (int \<Rightarrow> int \<Rightarrow> u8 list) \<Rightarrow> block_ref set \<Rightarrow> cache_state \<Rightarrow> bool" where
  "clean_ok c disk unmarked st \<longleftrightarrow>
     (\<forall>b \<in> set (s_MRUList st) - dirty_blocks st - unmarked. disk (cache_device c st) (m_bufferNumber (header st b)) = m_Data (header st b)) \<and>
     (\<forall>b \<in> unmarked. m_UseCount (header st b) > 0) \<and> (\<forall>d n. length (disk d n) = BUFFER_BLOCK_SIZE)"

definition reads_disk :: "kpread \<Rightarrow> (int \<Rightarrow> int \<Rightarrow> u8 list) \<Rightarrow> bool" where
  "reads_disk kpread disk \<longleftrightarrow> (\<forall>d n. snd (kpread d n) = Inr (int BUFFER_BLOCK_SIZE) \<longrightarrow> fst (kpread d n) = disk d n)"

lemma cache_memory_same: "same_pool st st' \<Longrightarrow> cache_memory c disk st' = cache_memory c disk st"
  by (auto simp: cache_memory_def same_pool_def fun_eq_iff split: option.split)

lemma clean_ok_same:
  assumes "clean_ok c disk unmarked st" "same_pool st st'" "dirty_blocks st \<subseteq> dirty_blocks st'"
  shows "clean_ok c disk unmarked st'"
  using assms by (auto simp: clean_ok_def same_pool_def)

section \<open>Fetching keeps the invariant\<close>

text \<open>What a fetch leaves alone: dirty blocks stay where they are, blocks in use stay in use.\<close>

definition fetch_keeps :: "cache_state \<Rightarrow> cache_state \<Rightarrow> bool" where
  "fetch_keeps st st' \<longleftrightarrow>
     dirty_blocks st' = dirty_blocks st \<and> pending_blocks st' \<inter> dirty_blocks st = pending_blocks st \<inter> dirty_blocks st \<and>
     (\<forall>b \<in> dirty_blocks st. m_bufferNumber (header st' b) = m_bufferNumber (header st b)) \<and>
     (\<forall>b. m_UseCount (header st b) > 0 \<longrightarrow> m_UseCount (header st' b) > 0)"

lemma GetBlock_hit_ok:
  assumes ok: "pool_ok c st" "clean_ok c disk unmarked st" and b: "b \<in> set (s_MRUList st)"
    and r: "GetBlock_hit b 0 st = (r, st')"
  shows "pool_ok c st'" "clean_ok c disk unmarked st'" "cache_memory c disk st' = cache_memory c disk st" "fetch_keeps st st'"
    "r = Found (KCacheBlockDesc_of b 0)" "m_UseCount (header st' b) > 0" "m_bufferNumber (header st' b) = m_bufferNumber (header st b)"
    "set (s_MRUList st') = set (s_MRUList st)"
proof -
  have st': "s_FreeList st' = s_FreeList st" "set (s_MRUList st') = set (s_MRUList st)" "distinct (s_MRUList st')"
      "cache_objects st' = cache_objects st" "s_DirtyBlockCount st' = s_DirtyBlockCount st"
      "header st' = (header st)(b := (header st b)\<lparr>m_UseCount := m_UseCount (header st b) + 1\<rparr>)"
    using r b pool_okD(2) [OF ok(1)]
    by (auto simp: GetBlock_hit_def AddRef_def Let_def update_header_def split: if_splits)
  have d: "dirty_blocks st' = dirty_blocks st" "pending_blocks st' = pending_blocks st"
    by (auto simp: dirty_blocks_def pending_blocks_def st')
  note p = pool_okD [OF ok(1)]
  show "pool_ok c st'"
    using ok(1) b p(8) [of b] st'(3) unfolding pool_ok_def st'(1,2,4) d dirty_counted_def st'(5)
    by (auto simp: st'(6))
  show "clean_ok c disk unmarked st'"
    using ok(2) p(8) [of b] unfolding clean_ok_def st'(1,2,4) d by (auto simp: st'(6))
  show "cache_memory c disk st' = cache_memory c disk st"
    by (auto simp: cache_memory_def st'(4,6) fun_eq_iff split: option.split)
  show "fetch_keeps st st'"
    using p(8) [of b] by (auto simp: fetch_keeps_def d st'(6))
  show "r = Found (KCacheBlockDesc_of b 0)"
    using r by (simp add: GetBlock_hit_def Let_def)
  show "m_UseCount (header st' b) > 0" "m_bufferNumber (header st' b) = m_bufferNumber (header st b)" "set (s_MRUList st') = set (s_MRUList st)"
    using p(8) [of b] by (simp_all add: st')
qed

text \<open>A free block: not on a list, clean and not in use; all others satisfy the invariant.\<close>

definition pool_without :: "nat \<Rightarrow> block_ref \<Rightarrow> cache_state \<Rightarrow> bool" where
  "pool_without c b st \<longleftrightarrow> pool_ok c (st\<lparr>s_FreeList := s_FreeList st @ [b]\<rparr>)"

lemma GetBlock_load_ok:
  assumes ok: "pool_without c b st" "clean_ok c disk unmarked st" and n: "block_map c st n = None" and read: "reads_disk kpread disk"
    and r: "GetBlock_load kpread c n 0 b st = (r, st')"
  shows "pool_ok c st'" "clean_ok c disk unmarked st'" "cache_memory c disk st' = cache_memory c disk st" "fetch_keeps st st'"
    "case r of Found desc \<Rightarrow> desc = KCacheBlockDesc_of b 0 \<and> block_map c st' n = Some b \<and> m_UseCount (header st' b) > 0
     | _ \<Rightarrow> True"
proof -
  let ?st = "st\<lparr>s_FreeList := s_FreeList st @ [b]\<rparr>"
  note p = pool_okD [OF ok(1) [unfolded pool_without_def], simplified]
  have b: "b \<notin> set (s_FreeList st)" "b \<notin> set (s_MRUList st)" "m_UseCount (header st b) = 0" "b \<notin> dirty_blocks st" "b \<notin> unmarked"
  proof -
    show 1: "b \<notin> set (s_FreeList st)" "b \<notin> set (s_MRUList st)" using p(1,3) by auto
    show 2: "m_UseCount (header st b) = 0" using p(8) [of b] p(9) [of b] 1 by fastforce
    show "b \<notin> dirty_blocks st" using p(10) [of b] 1 by (auto simp: dirty_blocks_def)
    show "b \<notin> unmarked" using ok(2) 2 by (auto simp: clean_ok_def)
  qed
  have dirty_simp: "dirty_blocks ?st = dirty_blocks st" "dirty_counted ?st = dirty_counted st"
    by (simp_all add: dirty_blocks_def dirty_counted_def)
  have nb: "block_map c st m \<noteq> Some b" for m
    using p(5) [of m b] b(2) by simp
  obtain bytes res where k: "kpread (cache_device c st) n = (bytes, res)" by force
  have all: "pool_ok c st' \<and> clean_ok c disk unmarked st' \<and> cache_memory c disk st' = cache_memory c disk st \<and> fetch_keeps st st' \<and>
      (case r of Found desc \<Rightarrow> desc = KCacheBlockDesc_of b 0 \<and> block_map c st' n = Some b \<and> m_UseCount (header st' b) > 0 | _ \<Rightarrow> True)"
  proof (cases "res = Inr (int BUFFER_BLOCK_SIZE)")
    case True
    have bytes: "bytes = disk (cache_device c st) n" "length bytes = BUFFER_BLOCK_SIZE"
    proof -
      show 1: "bytes = disk (cache_device c st) n"
        using spec [OF spec [OF read [unfolded reads_disk_def], of "cache_device c st"], of n] k True by simp
      show "length bytes = BUFFER_BLOCK_SIZE"
        using ok(2) by (simp add: 1 clean_ok_def)
    qed
    let ?h = "\<lambda>h. h\<lparr>m_UseCount := 1, m_Flags := 0, m_Device := cache_device c st, m_bufferNumber := n, m_Data := bytes\<rparr>"
    have st': "s_FreeList st' = s_FreeList st" "s_MRUList st' = s_MRUList st @ [b]" "s_DirtyBlockCount st' = s_DirtyBlockCount st"
        "header st' = (header st)(b := ?h (header st b))" "r = Found (KCacheBlockDesc_of b 0)"
        "cache_objects st' = (cache_objects st)(c := (cache_objects st c)\<lparr>m_BlockMap := (block_map c st)(n \<mapsto> b)\<rparr>)"
      using r True by (auto simp: GetBlock_load_def Let_def k update_header_def update_cache_def)
    have d: "dirty_blocks st' = dirty_blocks st" "pending_blocks st' - {b} = pending_blocks st - {b}"
      using b(4) by (auto simp: dirty_blocks_def pending_blocks_def st'(4) IsDirty_def IsDirtyPending_def)
    have n': "m_bufferNumber (header st b') \<noteq> n" if "b' \<in> set (s_MRUList st)" for b'
      using p(5) [of n b'] n that by auto
    have "pool_ok c st'"
    proof -
      have "set (s_FreeList st) \<union> insert b (set (s_MRUList st)) = {..<KBLOCK_CACHE_BLOCK_COUNT}"
        using p(4) by auto
      moreover have "((block_map c st)(n \<mapsto> b)) m = Some b' \<longleftrightarrow>
          b' \<in> insert b (set (s_MRUList st)) \<and> m_bufferNumber (header st' b') = m" for m b'
        using p(5) [of m b'] nb [of m] n' [of b'] b(2) by (auto simp: st'(4))
      moreover have "m_UseCount (header st' b') > 0 \<longrightarrow> b' \<in> insert b (set (s_MRUList st))" "m_UseCount (header st' b') \<ge> 0" for b'
        using p(8,9) [of b'] by (auto simp: st'(4))
      moreover have "m_Device (header st' b') = cache_device c st \<and> length (m_Data (header st' b')) = BUFFER_BLOCK_SIZE"
        if "b' \<in> insert b (set (s_MRUList st))" for b'
        using p(6,7) [of b'] that bytes(2) by (auto simp: st'(4))
      moreover have "dirty_blocks st \<subseteq> insert b (set (s_MRUList st))" "dirty_counted st'"
        using p(10,11) d(1) st'(3) by (auto simp: dirty_simp dirty_counted_def)
      ultimately show ?thesis
        using p(1-3,12-14) b(1,2) unfolding pool_ok_def d(1) st'(1,2,6) by auto
    qed
    moreover have "clean_ok c disk unmarked st'"
      using ok(2) b bytes unfolding clean_ok_def d st' by auto
    moreover have "cache_memory c disk st' = cache_memory c disk st"
      using nb n bytes(1) by (auto simp: cache_memory_def st' fun_eq_iff split: option.split)
    moreover have "fetch_keeps st st'"
      using d b by (auto simp: fetch_keeps_def st')
    ultimately show ?thesis
      by (simp add: st')
  next
    case False
    let ?h = "\<lambda>h. h\<lparr>m_Data := bytes\<rparr>"
    have st': "s_FreeList st' = s_FreeList st @ [b]" "s_MRUList st' = s_MRUList st" "s_DirtyBlockCount st' = s_DirtyBlockCount st"
        "header st' = (header st)(b := ?h (header st b))" "\<exists>e. r = Failed e" "cache_objects st' = cache_objects st"
      using r False by (auto simp: GetBlock_load_def Let_def k update_header_def update_cache_def split: sum.splits if_splits)
    have d: "dirty_blocks st' = dirty_blocks st" "pending_blocks st' = pending_blocks st"
      using b(4) by (auto simp: dirty_blocks_def pending_blocks_def st'(4))
    have "pool_ok c st'"
    proof -
      have "m_UseCount (header st' b') = m_UseCount (header st b')" "m_Device (header st' b') = m_Device (header st b')"
        "m_bufferNumber (header st' b') = m_bufferNumber (header st b')" for b'
        by (simp_all add: st'(4))
      moreover have "length (m_Data (header st' b')) = BUFFER_BLOCK_SIZE" if "b' \<in> set (s_MRUList st)" for b'
        using p(7) [of b'] that b(2) by (auto simp: st'(4))
      moreover have "dirty_counted st'"
        using p(11) d(1) st'(3) by (simp add: dirty_simp dirty_counted_def)
      ultimately show ?thesis
        using ok(1) unfolding pool_without_def pool_ok_def d(1) dirty_simp st'(1,2,6) by simp
    qed
    moreover have "clean_ok c disk unmarked st'"
      using ok(2) b unfolding clean_ok_def d st' by auto
    moreover have "cache_memory c disk st' = cache_memory c disk st"
      using nb by (auto simp: cache_memory_def st' fun_eq_iff split: option.split)
    moreover have "fetch_keeps st st'"
      using d b by (auto simp: fetch_keeps_def st')
    ultimately show ?thesis
      using st'(5) by auto
  qed
  from all show "pool_ok c st'" "clean_ok c disk unmarked st'" "cache_memory c disk st' = cache_memory c disk st" "fetch_keeps st st'"
    "case r of Found desc \<Rightarrow> desc = KCacheBlockDesc_of b 0 \<and> block_map c st' n = Some b \<and> m_UseCount (header st' b) > 0
     | _ \<Rightarrow> True"
    by simp_all
qed

lemma GetBlock_evict_ok:
  assumes ok: "pool_ok c st" "clean_ok c disk unmarked st" and b: "b \<in> set (s_MRUList st)" "m_UseCount (header st b) = 0" "b \<notin> dirty_blocks st"
  defines "st' \<equiv> GetBlock_evict c b st"
  shows "pool_without c b st'" "clean_ok c disk unmarked st'" "cache_memory c disk st' = cache_memory c disk st" "fetch_keeps st st'"
    "\<And>n. block_map c st n = None \<Longrightarrow> block_map c st' n = None" "cache_device c st' = cache_device c st"
proof -
  note p = pool_okD [OF ok(1)]
  let ?n = "m_bufferNumber (header st b)"
  have st': "s_FreeList st' = s_FreeList st" "s_MRUList st' = remove1 b (s_MRUList st)" "header st' = header st"
      "s_DirtyBlockCount st' = s_DirtyBlockCount st"
      "cache_objects st' = (cache_objects st)(c := (cache_objects st c)\<lparr>m_BlockMap := (block_map c st)(?n := None)\<rparr>)"
    by (auto simp: st'_def GetBlock_evict_def Let_def update_cache_def)
  have d: "dirty_blocks st' = dirty_blocks st" "pending_blocks st' = pending_blocks st"
    by (simp_all add: dirty_blocks_def pending_blocks_def st'(3))
  have mru: "set (s_MRUList st') = set (s_MRUList st) - {b}" "distinct (s_MRUList st')"
    using p(2) by (simp_all add: st'(2))
  have clean: "disk (cache_device c st) ?n = m_Data (header st b)"
  proof -
    have "b \<notin> unmarked"
      using ok(2) b(2) by (force simp: clean_ok_def)
    with ok(2) b(1,3) show ?thesis by (simp add: clean_ok_def)
  qed
  have m: "((block_map c st)(?n := None)) n = Some b' \<longleftrightarrow> b' \<in> set (s_MRUList st) - {b} \<and> m_bufferNumber (header st b') = n" for n b'
    using p(5) [of n b'] pool_ok_inj [OF ok(1) b(1), of b'] by auto
  have dirty_simp: "dirty_blocks (st'\<lparr>s_FreeList := F\<rparr>) = dirty_blocks st'" "dirty_counted (st'\<lparr>s_FreeList := F\<rparr>) = dirty_counted st'" for F
    by (simp_all add: dirty_blocks_def dirty_counted_def)
  have "b \<notin> set (s_FreeList st)"
    using p(3) b(1) by auto
  moreover have "insert b (set (s_FreeList st) \<union> (set (s_MRUList st) - {b})) = {..<KBLOCK_CACHE_BLOCK_COUNT}"
    using p(4) b(1) by auto
  moreover have "dirty_blocks st \<subseteq> set (s_MRUList st) - {b}" "dirty_counted st'"
    using p(10,11) b(3) by (auto simp: dirty_counted_def d st'(4))
  moreover have "m_UseCount (header st b') > 0 \<longrightarrow> b' \<in> set (s_MRUList st) - {b}" for b'
    using p(9) [of b'] b(2) by auto
  ultimately show "pool_without c b st'"
    using p(1,3,6-8,12-14) m mru(2) unfolding pool_without_def pool_ok_def dirty_simp d by (auto simp: mru(1) st'(1,3,5))
  show "clean_ok c disk unmarked st'"
    using ok(2) unfolding clean_ok_def mru(1) d st'(3,5) by simp
  show "cache_memory c disk st' = cache_memory c disk st"
  proof (rule ext)
    fix n
    show "cache_memory c disk st' n = cache_memory c disk st n"
      using clean p(5) [of n b] b(1) by (auto simp: cache_memory_def st'(3,5) split: option.split)
  qed
  show "fetch_keeps st st'" by (simp add: fetch_keeps_def d st'(3))
  show "block_map c st n = None \<Longrightarrow> block_map c st' n = None" for n by (simp add: st'(5))
  show "cache_device c st' = cache_device c st" by (simp add: st'(5))
qed

lemma fetch_keeps_trans: "fetch_keeps st st' \<Longrightarrow> fetch_keeps st' st'' \<Longrightarrow> fetch_keeps st st''"
  by (auto simp: fetch_keeps_def)

lemma fetch_keeps_flags: "same_flags st st' \<Longrightarrow> fetch_keeps st st'"
  by (simp add: fetch_keeps_def same_flags_def same_pool_def)

lemma pool_without_free:
  assumes "pool_ok c st" "s_FreeList st \<noteq> []"
  shows "pool_without c (last (s_FreeList st)) (st\<lparr>s_FreeList := butlast (s_FreeList st)\<rparr>)"
  using assms by (simp add: pool_without_def)

text \<open>A pass of \<open>GetBlock_trw\<close>, whatever it does, keeps the invariant and changes nothing that a client sees.\<close>

lemma GetBlock_try_ok:
  assumes ok: "pool_ok c st" "clean_ok c disk unmarked st" and read: "reads_disk kpread disk"
    and r: "GetBlock_try kpread thread c n 0 st = (r, st')"
  shows "pool_ok c st' \<and> clean_ok c disk unmarked st' \<and> cache_memory c disk st' = cache_memory c disk st \<and> fetch_keeps st st' \<and>
    (case r of Found desc \<Rightarrow> (\<exists>b. desc = KCacheBlockDesc_of b 0 \<and> block_map c st' n = Some b \<and> m_UseCount (header st' b) > 0) | _ \<Rightarrow> True)"
proof (cases "block_map c st n")
  case (Some b)
  then have b: "b \<in> set (s_MRUList st)" "m_bufferNumber (header st b) = n"
    using pool_okD(5) [OF ok(1), of n b] by simp_all
  from r Some have r': "GetBlock_hit b 0 st = (r, st')" by (simp add: GetBlock_try_def)
  note h = GetBlock_hit_ok [OF ok b(1) r']
  have "block_map c st' n = Some b"
    using pool_okD(5) [OF h(1), of n b] h(7,8) b by simp
  with h show ?thesis by simp
next
  case None
  note load = GetBlock_load_ok [OF _ _ _ read]
  show ?thesis
  proof (cases "s_FreeList st = []")
    case False
    let ?st = "st\<lparr>s_FreeList := butlast (s_FreeList st)\<rparr>"
    have same: "clean_ok c disk unmarked ?st" "fetch_keeps st ?st" "block_map c ?st n = None" "cache_memory c disk ?st = cache_memory c disk st"
      using ok(2) None
      by (simp_all add: clean_ok_def fetch_keeps_def dirty_blocks_def pending_blocks_def)
        (simp add: cache_memory_def fun_eq_iff cong: option.case_cong)
    have l: "GetBlock_load kpread c n 0 (last (s_FreeList st)) ?st = (r, st')"
      using r None False by (simp add: GetBlock_try_def)
    note s = load [OF pool_without_free [OF ok(1) False] same(1) same(3) l]
    show ?thesis
      using s(1-3,5) same(4) fetch_keeps_trans [OF same(2) s(4)] by (auto split: get_try.splits)
  next
    case free: True
    show ?thesis
    proof (cases "\<exists>b. find (\<lambda>b. m_UseCount (header st b) = 0) (s_MRUList st) = Some b \<and> \<not> IsFlushing (header st b) \<and> \<not> IsDirty (header st b)")
      case True
      then obtain b where b: "find (\<lambda>b. m_UseCount (header st b) = 0) (s_MRUList st) = Some b" "\<not> IsFlushing (header st b)"
        "\<not> IsDirty (header st b)" by blast
      then have b': "b \<in> set (s_MRUList st)" "m_UseCount (header st b) = 0" "b \<notin> dirty_blocks st" "s_MRUList st \<noteq> []"
        by (auto simp: find_Some_iff dirty_blocks_def)
      note e = GetBlock_evict_ok [OF ok b'(1-3)]
      have l: "GetBlock_load kpread c n 0 b (GetBlock_evict c b st) = (r, st')"
        using r None free b b'(4) by (simp add: GetBlock_try_def)
      note s = load [OF e(1,2) e(5) [OF None] l]
      show ?thesis
        using s(1-3,5) e(3) fetch_keeps_trans [OF e(4) s(4)] by (auto split: get_try.splits)
    next
      case False
      have "same_flags st (update_header b (SetFlushRequested True) st)" for b
        by (rule same_flags_update) simp_all
      with r None free False have f: "same_flags st st'" "\<forall>desc. r \<noteq> Found desc"
        by (auto simp: GetBlock_try_def split: option.splits if_splits)
      then have "same_pool st st'" "dirty_blocks st' = dirty_blocks st"
        by (simp_all add: same_flags_def)
      with f show ?thesis
        using pool_ok_flags [OF ok(1) f(1)] clean_ok_same [OF ok(2)] cache_memory_same fetch_keeps_flags [OF f(1)]
        by (simp split: get_try.splits)
    qed
  qed
qed

section \<open>The flushing thread\<close>

text \<open>
  The blocks from \<open>start\<close> on are dirty, so nobody can take their buffers away, and the segment collected so far consists of consecutive blocks of
  the device, in order.
\<close>

definition flush_ok :: "cache_state \<Rightarrow> flush_vars \<Rightarrow> bool" where
  "flush_ok st v \<longleftrightarrow>
     distinct (blockList v) \<and> start v \<le> loop_i v \<and> loop_i v \<le> length (blockList v) \<and>
     (\<forall>j < length (blockList v). start v \<le> j \<longrightarrow> blockList v ! j \<in> dirty_blocks st) \<and>
     (\<forall>k < loop_i v - start v. segments v k = blockList v ! (start v + k) \<and>
        m_bufferNumber (header st (blockList v ! (start v + k))) = m_bufferNumber (header st (blockList v ! start v)) + int k)"

lemma flush_ok_flags [simp]: "flush_ok st (flush_flags st' v) = flush_ok st v"
  by (simp add: flush_ok_def)

lemma flush_ok_next_block:
  assumes ok: "flush_ok st v" and "\<not> segment_ends st v"
  shows "flush_ok st (flush_next_block v)"
proof -
  have i: "loop_i v < length (blockList v)" and seg: "loop_i v > start v \<Longrightarrow>
      m_bufferNumber (header st (blockList v ! loop_i v)) = m_bufferNumber (header st (blockList v ! (loop_i v - 1))) + 1"
    using assms by (auto simp: segment_ends_def flush_ok_def Let_def)
  have n: "segments (flush_next_block v) k = blockList v ! (start v + k) \<and>
      m_bufferNumber (header st (blockList v ! (start v + k))) = m_bufferNumber (header st (blockList v ! start v)) + int k"
    if k: "k < Suc (loop_i v) - start v" for k
  proof (cases "k = loop_i v - start v")
    case True
    then have j: "start v + k = loop_i v" using ok by (simp add: flush_ok_def)
    have "m_bufferNumber (header st (blockList v ! loop_i v)) = m_bufferNumber (header st (blockList v ! start v)) + int k"
    proof (cases k)
      case 0 then show ?thesis using j by simp
    next
      case (Suc k')
      then have "m_bufferNumber (header st (blockList v ! (start v + k'))) = m_bufferNumber (header st (blockList v ! start v)) + int k'"
        using ok True by (simp add: flush_ok_def)
      moreover have "loop_i v - 1 = start v + k'" "loop_i v > start v" using Suc j by simp_all
      ultimately show ?thesis using seg Suc by simp
    qed
    then show ?thesis using i True j by (simp add: flush_next_block_def)
  next
    case False
    then have "k < loop_i v - start v" using k by simp
    then show ?thesis using ok i by (simp add: flush_ok_def flush_next_block_def)
  qed
  show ?thesis
    using ok i n unfolding flush_ok_def flush_next_block_same by simp
qed

lemma flush_ok_next_segment:
  assumes ok: "flush_ok st v" and i: "loop_i v < length (blockList v)"
    and dirty: "\<And>j. loop_i v \<le> j \<Longrightarrow> j < length (blockList v) \<Longrightarrow> blockList v ! j \<in> dirty_blocks st'"
  shows "flush_ok st' (flush_next_block (flush_next_segment v))"
  using assms by (auto simp: flush_ok_def flush_next_block_def)

lemma FlushBlockList_scan_ok:
  assumes "loop_i v \<le> length (blockList v) \<Longrightarrow> flush_ok st v" "FlushBlockList_scan st v = (True, v')"
  shows "flush_ok st v'"
  using assms
proof (induction st v rule: FlushBlockList_scan.induct)
  case (1 st v)
  show ?case
  proof (cases "loop_i v > length (blockList v)")
    case True
    with 1(4) show ?thesis by (simp add: FlushBlockList_scan.simps [of st v])
  next
    case False
    let ?v = "flush_flags st v"
    have ok: "flush_ok st ?v" using 1(3) False by simp
    show ?thesis
    proof (cases "segment_ends st ?v")
      case ends: True
      show ?thesis
      proof (cases "requiredSegment ?v \<or> hasTimedOutBlocks ?v \<or> loop_i ?v - start ?v \<ge> MIN_FLUSH_BLOCK_COUNT")
        case True
        then have "FlushBlockList_scan st v = (True, ?v)"
          using ends False by (simp add: FlushBlockList_scan.simps [of st v] Let_def)
        with 1(4) have "v' = ?v" by simp
        with ok show ?thesis by (simp only:)
      next
        case flush: False
        have "flush_ok st (flush_next_block (flush_next_segment ?v))" if "loop_i ?v < length (blockList ?v)"
          using ok by (intro flush_ok_next_segment [OF ok that]) (simp add: flush_ok_def)
        then show ?thesis
          using 1(1) [OF False refl ends flush] 1(4) False ends flush
          by (auto simp: FlushBlockList_scan.simps [of st v] Let_def)
      qed
    next
      case ends: False
      show ?thesis
        using 1(2) [OF False refl ends] 1(4) False ends flush_ok_next_block [OF ok ends]
        by (auto simp: FlushBlockList_scan.simps [of st v] Let_def)
    qed
  qed
qed

text \<open>
  What a successful write leaves on the device: every block of the segment that was not changed meanwhile, at its number; blocks that were changed may
  have any contents, and everything else is as before.
\<close>

definition device_written ::
  "cache_state \<Rightarrow> flush_vars \<Rightarrow> block_ref set \<Rightarrow> (int \<Rightarrow> int \<Rightarrow> u8 list) \<Rightarrow> (int \<Rightarrow> int \<Rightarrow> u8 list) \<Rightarrow> bool" where
  "device_written st v modified disk disk' \<longleftrightarrow>
     (let first = header st (blockList v ! start v) in
      \<forall>d n. length (disk' d n) = BUFFER_BLOCK_SIZE \<and>
        (if d = m_Device first \<and> m_bufferNumber first \<le> n \<and> n < m_bufferNumber first + int (loop_i v - start v)
         then segments v (nat (n - m_bufferNumber first)) \<notin> modified \<longrightarrow>
           disk' d n = m_Data (header st (segments v (nat (n - m_bufferNumber first))))
         else disk' d n = disk d n))"

lemma device_writtenD:
  assumes "device_written st v modified disk disk'"
  defines "first \<equiv> header st (blockList v ! start v)"
  shows "length (disk' d n) = BUFFER_BLOCK_SIZE"
    "\<not> (d = m_Device first \<and> m_bufferNumber first \<le> n \<and> n < m_bufferNumber first + int (loop_i v - start v)) \<Longrightarrow> disk' d n = disk d n"
    "k < loop_i v - start v \<Longrightarrow> segments v k \<notin> modified \<Longrightarrow>
      disk' (m_Device first) (m_bufferNumber first + int k) = m_Data (header st (segments v k))"
proof -
  have w: "length (disk' d n) = BUFFER_BLOCK_SIZE \<and>
        (if d = m_Device first \<and> m_bufferNumber first \<le> n \<and> n < m_bufferNumber first + int (loop_i v - start v)
         then segments v (nat (n - m_bufferNumber first)) \<notin> modified \<longrightarrow>
           disk' d n = m_Data (header st (segments v (nat (n - m_bufferNumber first))))
         else disk' d n = disk d n)" for d n
    using assms by (simp add: device_written_def Let_def first_def)
  show "length (disk' d n) = BUFFER_BLOCK_SIZE"
    "\<not> (d = m_Device first \<and> m_bufferNumber first \<le> n \<and> n < m_bufferNumber first + int (loop_i v - start v)) \<Longrightarrow> disk' d n = disk d n"
    using w [of d n] by (auto split: if_splits)
  show "k < loop_i v - start v \<Longrightarrow> segments v k \<notin> modified \<Longrightarrow>
      disk' (m_Device first) (m_bufferNumber first + int k) = m_Data (header st (segments v k))"
    using w [of "m_Device first" "m_bufferNumber first + int k"] by simp
qed

text \<open>During a write: a block of the segment that was changed will be written again, because it is marked or about to be.\<close>

definition writing_ok :: "block_ref set \<Rightarrow> block_ref set \<Rightarrow> cache_state \<Rightarrow> flush_vars \<Rightarrow> bool" where
  "writing_ok modified unmarked st v \<longleftrightarrow>
     flush_ok st v \<and> set (segment_blocks v) \<inter> modified \<subseteq> pending_blocks st \<union> unmarked"

lemma segment_blocks_dirty:
  assumes "flush_ok st v"
  shows "set (segment_blocks v) \<subseteq> dirty_blocks st" "length (segment_blocks v) = loop_i v - start v"
    "\<And>k. k < loop_i v - start v \<Longrightarrow> segments v k \<in> set (segment_blocks v) \<and>
      m_bufferNumber (header st (segments v k)) = m_bufferNumber (header st (blockList v ! start v)) + int k"
    "\<And>b. b \<in> set (segment_blocks v) \<Longrightarrow> \<exists>k < loop_i v - start v. segments v k = b"
proof -
  show "set (segment_blocks v) \<subseteq> dirty_blocks st" "length (segment_blocks v) = loop_i v - start v"
    using assms by (auto simp: segment_blocks_def flush_ok_def)
  show "segments v k \<in> set (segment_blocks v) \<and>
      m_bufferNumber (header st (segments v k)) = m_bufferNumber (header st (blockList v ! start v)) + int k"
    if "k < loop_i v - start v" for k
    using assms that by (auto simp: segment_blocks_def flush_ok_def)
  show "\<exists>k < loop_i v - start v. segments v k = b" if b: "b \<in> set (segment_blocks v)" for b
  proof -
    obtain j where j: "start v \<le> j" "j < loop_i v" "b = blockList v ! j" using b by (auto simp: segment_blocks_def)
    then have "segments v (j - start v) = b" "j - start v < loop_i v - start v" using assms by (auto simp: flush_ok_def)
    then show ?thesis by blast
  qed
qed

lemma segment_blocks_later:
  assumes "flush_ok st v" "loop_i v \<le> j" "j < length (blockList v)"
  shows "blockList v ! j \<notin> set (segment_blocks v)"
  using assms by (auto simp: segment_blocks_def flush_ok_def nth_eq_iff_index_eq)

text \<open>The end of a write keeps the invariant: the blocks that become clean are on the device.\<close>

lemma FlushBlockList_end_ok:
  assumes ok: "pool_ok c st" "clean_ok c disk unmarked st" "writing_ok modified unmarked st v"
    and w: "device_written st v modified disk disk'" and r: "FlushBlockList_end ok' v st = (st', v')"
  shows "pool_ok c st'" "clean_ok c disk' unmarked st'" "cache_memory c disk' st' = cache_memory c disk st"
    "loop_i v' \<le> length (blockList v') \<Longrightarrow> flush_ok st' v'" "same_pool st st'"
    "dirty_blocks st' = dirty_blocks st - (set (segment_blocks v) - pending_blocks st)"
proof -
  let ?seg = "segment_blocks v" and ?first = "header st (blockList v ! start v)"
  note p = pool_okD [OF ok(1)]
  have fo: "flush_ok st v" using ok(3) by (simp add: writing_ok_def)
  note seg = segment_blocks_dirty [OF fo]
  note f = flush_blocks_done_flags [where st = st and bs = ?seg]
  have same: "same_pool st st'" "dirty_blocks st' = dirty_blocks st - (set ?seg - pending_blocks st)" "dirty_counted st'"
    using r f(1,2) f(4) [OF p(11)] by (auto simp: FlushBlockList_end_def Let_def same_pool_def dirty_blocks_def dirty_counted_def split: if_splits)
  show "pool_ok c st'" "same_pool st st'"
    using p(10) same by (auto intro!: pool_ok_same [OF ok(1) same(1) _ same(3)])
  show "dirty_blocks st' = dirty_blocks st - (set ?seg - pending_blocks st)" by (rule same(2))
  have first: "?seg \<noteq> [] \<Longrightarrow> blockList v ! start v \<in> set ?seg"
    by (auto simp: segment_blocks_def)
  have unwritten: "disk' (cache_device c st) n = disk (cache_device c st) n" if "\<forall>b \<in> set ?seg. m_bufferNumber (header st b) \<noteq> n" for n
  proof (rule ccontr)
    assume "disk' (cache_device c st) n \<noteq> disk (cache_device c st) n"
    then have n: "m_bufferNumber ?first \<le> n" "n < m_bufferNumber ?first + int (loop_i v - start v)"
      using device_writtenD(2) [OF w, of "cache_device c st" n] by blast+
    then have "nat (n - m_bufferNumber ?first) < loop_i v - start v" by linarith
    from seg(3) [OF this] that n(1) show False by auto
  qed
  have written: "disk' (cache_device c st) (m_bufferNumber (header st b)) = m_Data (header st b)" if b: "b \<in> set ?seg" "b \<notin> modified" for b
  proof -
    obtain k where k: "k < loop_i v - start v" "segments v k = b" using seg(4) [OF b(1)] by auto
    have n: "m_bufferNumber (header st b) = m_bufferNumber ?first + int k" using seg(3) [OF k(1)] k(2) by simp
    have "m_Device ?first = cache_device c st"
      using first b(1) seg(1) p(10) p(6) by (metis empty_iff list.set(1) subsetD)
    then show ?thesis
      using device_writtenD(3) [OF w k(1)] k(2) b(2) by (simp add: n)
  qed
  show "clean_ok c disk' unmarked st'"
    unfolding clean_ok_def
  proof (intro conjI ballI allI)
    fix b assume b: "b \<in> set (s_MRUList st') - dirty_blocks st' - unmarked"
    then have b': "b \<in> set (s_MRUList st)" "b \<notin> unmarked" "b \<notin> dirty_blocks st \<or> b \<in> set ?seg \<and> b \<notin> pending_blocks st"
      using same(1,2) by (auto simp: same_pool_def)
    have "disk' (cache_device c st) (m_bufferNumber (header st b)) = m_Data (header st b)"
    proof (cases "b \<in> set ?seg")
      case True
      with b' seg(1) ok(3) have "b \<notin> modified" by (auto simp: writing_ok_def)
      then show ?thesis by (rule written [OF True])
    next
      case False
      have "\<forall>b' \<in> set ?seg. m_bufferNumber (header st b') \<noteq> m_bufferNumber (header st b)"
        using False seg(1) p(10) pool_ok_inj [OF ok(1) _ b'(1)] by blast
      then show ?thesis using unwritten ok(2) b' False by (simp add: clean_ok_def)
    qed
    then show "disk' (cache_device c st') (m_bufferNumber (header st' b)) = m_Data (header st' b)"
      using same(1) by (simp add: same_pool_def)
  next
    show "m_UseCount (header st' b) > 0" if "b \<in> unmarked" for b
      using ok(2) same(1) that by (simp add: clean_ok_def same_pool_def)
    show "length (disk' d n) = BUFFER_BLOCK_SIZE" for d n
      by (rule device_writtenD(1) [OF w])
  qed
  have "disk' (cache_device c st) n = disk (cache_device c st) n" if "block_map c st n = None" for n
  proof (intro unwritten ballI notI)
    fix b assume "b \<in> set (segment_blocks v)" and n: "m_bufferNumber (header st b) = n"
    then have "block_map c st n = Some b"
      using seg(1) p(10) p(5) [of n b] by blast
    with that show False by simp
  qed
  then have "cache_memory c disk' st = cache_memory c disk st"
    by (auto simp: cache_memory_def fun_eq_iff split: option.split)
  with cache_memory_same [OF same(1)] show "cache_memory c disk' st' = cache_memory c disk st" by simp
  show "flush_ok st' v'" if "loop_i v' \<le> length (blockList v')"
  proof -
    let ?v = "v\<lparr>anythingFlushed := (ok' \<or> anythingFlushed v)\<rparr>"
    have v': "v' = flush_next_block (flush_next_segment ?v)"
      using r by (simp add: FlushBlockList_end_def Let_def)
    have "flush_ok st ?v" using fo by (simp add: flush_ok_def)
    moreover have "blockList v ! j \<in> dirty_blocks st'" if "loop_i v \<le> j" "j < length (blockList v)" for j
      using segment_blocks_later [OF fo that] that fo by (auto simp: same(2) flush_ok_def)
    ultimately show ?thesis
      using that unfolding v' by (intro flush_ok_next_segment) auto
  qed
qed

end
