(* ===== verification/BlockCacheMemory.thy ===== *)
theory BlockCacheMemory
  imports KBlockCache
begin

text \<open>
  The block cache as a whole: clients, the flushing thread and the device, interleaved step by step, with writes of the device that fail. With one device the
  cache is an array of blocks, whatever is evicted, reloaded or written back meanwhile; and when nothing is dirty the device holds the array. A
  block whose write has failed is the exception: until it is stored again, it has what was stored last or what the failed write has left on the device.
\<close>

section \<open>Clients, the flushing thread and the device together\<close>

text \<open>
  Two sets record what the code does not: \<open>sys_modified\<close> are the buffers changed since the present write of the flushing thread began, and
  \<open>sys_unmarked\<close> the ones changed since their user last called \<open>MarkDirty\<close>. A client keeps to the contract of descriptors: it accesses a buffer only while
  it holds a descriptor, and marks what it has changed before it gives the descriptor back. A thread that waits is one that takes its next step later.

  The device may fail in the middle of a write: \<open>kpwritev\<close> throws, which the flushing thread catches, or returns without having written everything, which it
  does not notice. Then the blocks of the segment have any contents on the device. The event \<open>WriteFailed\<close> says so for the blocks that the flushing
  thread marks clean nevertheless; a block marked dirty again during the write stays dirty and is not among them.
\<close>

record cache_sys =
  sys_state :: cache_state
  sys_disk :: "int \<Rightarrow> int \<Rightarrow> u8 list"
  sys_phase :: flusher_phase
  sys_modified :: "block_ref set"
  sys_unmarked :: "block_ref set"

datatype cache_event = Loaded int "u8 list" | Stored int "u8 list" | WriteFailed int "u8 list"

fun try_events :: "int \<Rightarrow> get_try \<Rightarrow> cache_state \<Rightarrow> cache_event list" where
  "try_events n (Found desc) st = [Loaded n (buffer_bytes desc BUFFER_BLOCK_SIZE st)]"
| "try_events n _ st = []"

definition failed_events :: "cache_state \<Rightarrow> flush_vars \<Rightarrow> (int \<Rightarrow> int \<Rightarrow> u8 list) \<Rightarrow> cache_event list" where
  "failed_events st v disk =
     map (\<lambda>b. WriteFailed (m_bufferNumber (header st b)) (disk (m_Device (header st b)) (m_bufferNumber (header st b))))
       (filter (\<lambda>b. \<not> IsDirtyPending (header st b)) (segment_blocks v))"

inductive cache_step :: "nat \<Rightarrow> cache_sys \<Rightarrow> cache_event list \<Rightarrow> cache_sys \<Rightarrow> bool" for c where
  get: "reads_disk kpread (sys_disk s) \<Longrightarrow>
    GetBlock_try kpread thread c (buffer_number (cache_objects (sys_state s) c) n) (block_offset (cache_objects (sys_state s) c) n) (sys_state s) = (r, st) \<Longrightarrow>
    cache_step c s (try_events n r st) (s\<lparr>sys_state := st\<rparr>)"
| load: "m_UseCount (header (sys_state s) b) > 0 \<Longrightarrow>
    cache_step c s [Loaded (m_bufferNumber (header (sys_state s) b)) (buffer_bytes (KCacheBlockDesc_of b 0) BUFFER_BLOCK_SIZE (sys_state s))] s"
| store: "m_UseCount (header (sys_state s) b) > 0 \<Longrightarrow> offset + length bytes \<le> BUFFER_BLOCK_SIZE \<Longrightarrow>
    st = store_bytes (KCacheBlockDesc_of b offset) bytes (sys_state s) \<Longrightarrow>
    cache_step c s [Stored (m_bufferNumber (header st b)) (m_Data (header st b))]
      (s\<lparr>sys_state := st, sys_modified := insert b (sys_modified s), sys_unmarked := insert b (sys_unmarked s)\<rparr>)"
| mark: "m_UseCount (header (sys_state s) b) > 0 \<Longrightarrow>
    cache_step c s [] (s\<lparr>sys_state := MarkDirty now (KCacheBlockDesc_of b offset) (sys_state s), sys_unmarked := sys_unmarked s - {b}\<rparr>)"
| mark_number: "cache_step c s [] (s\<lparr>sys_state := snd (MarkBlockDirty now c n (sys_state s))\<rparr>)"
| release: "m_UseCount (header (sys_state s) b) > 0 \<Longrightarrow> b \<notin> sys_unmarked s \<Longrightarrow>
    cache_step c s [] (s\<lparr>sys_state := KCacheBlockDesc_destroy (KCacheBlockDesc_of b offset) (sys_state s)\<rparr>)"
| flush: "cache_step c s [] (s\<lparr>sys_state := snd (Flush (sys_state s))\<rparr>)"
| sync: "cache_step c s [] (s\<lparr>sys_state := snd (Sync thread (sys_state s))\<rparr>)"
| round: "sys_phase s = Idle \<Longrightarrow> DiskCacheFlusher_round now flusher (sys_state s) = (phase, st) \<Longrightarrow>
    cache_step c s [] (s\<lparr>sys_state := st, sys_phase := phase, sys_modified := {}\<rparr>)"
| written: "sys_phase s = Writing v \<Longrightarrow> device_written (sys_state s) v (sys_modified s) (sys_disk s) disk \<Longrightarrow>
    DiskCacheFlusher_resume True flusher v (sys_state s) = (phase, st) \<Longrightarrow>
    cache_step c s [] (s\<lparr>sys_state := st, sys_disk := disk, sys_phase := phase, sys_modified := {}\<rparr>)"
| write_failed: "sys_phase s = Writing v \<Longrightarrow> device_written (sys_state s) v UNIV (sys_disk s) disk \<Longrightarrow>
    DiskCacheFlusher_resume returned flusher v (sys_state s) = (phase, st) \<Longrightarrow>
    cache_step c s (failed_events (sys_state s) v disk) (s\<lparr>sys_state := st, sys_disk := disk, sys_phase := phase, sys_modified := {}\<rparr>)"

inductive cache_run :: "nat \<Rightarrow> cache_sys \<Rightarrow> cache_event list \<Rightarrow> cache_sys \<Rightarrow> bool" for c where
  start: "cache_run c s [] s"
| step: "cache_run c s es s' \<Longrightarrow> cache_step c s' e s'' \<Longrightarrow> cache_run c s (es @ e) s''"

definition cache_start :: "nat \<Rightarrow> int \<Rightarrow> int \<Rightarrow> (int \<Rightarrow> int \<Rightarrow> u8 list) \<Rightarrow> cache_sys" where
  "cache_start c device blockCount disk =
     \<lparr>sys_state = snd (SetDevice c device blockCount BUFFER_BLOCK_SIZE Initialize), sys_disk = disk, sys_phase = Idle, sys_modified = {}, sys_unmarked = {}\<rparr>"

text \<open>
  The specification: an array of blocks. \<open>memory_after\<close> is what was stored last. \<open>contents_after\<close> is the set of contents a block may have: a store
  leaves one, and a failed write adds what it has left on the device. A load gives one of them.
\<close>

fun memory_after :: "(int \<Rightarrow> u8 list) \<Rightarrow> cache_event list \<Rightarrow> int \<Rightarrow> u8 list" where
  "memory_after mem [] = mem"
| "memory_after mem (Loaded n bytes # es) = memory_after mem es"
| "memory_after mem (Stored n bytes # es) = memory_after (mem(n := bytes)) es"
| "memory_after mem (WriteFailed n bytes # es) = memory_after mem es"

fun contents_after :: "(int \<Rightarrow> u8 list set) \<Rightarrow> cache_event list \<Rightarrow> int \<Rightarrow> u8 list set" where
  "contents_after mem [] = mem"
| "contents_after mem (Loaded n bytes # es) = contents_after mem es"
| "contents_after mem (Stored n bytes # es) = contents_after (mem(n := {bytes})) es"
| "contents_after mem (WriteFailed n bytes # es) = contents_after (mem(n := insert bytes (mem n))) es"

fun loads_ok :: "(int \<Rightarrow> u8 list set) \<Rightarrow> cache_event list \<Rightarrow> bool" where
  "loads_ok mem [] \<longleftrightarrow> True"
| "loads_ok mem (Loaded n bytes # es) \<longleftrightarrow> bytes \<in> mem n \<and> loads_ok mem es"
| "loads_ok mem (Stored n bytes # es) \<longleftrightarrow> loads_ok (mem(n := {bytes})) es"
| "loads_ok mem (WriteFailed n bytes # es) \<longleftrightarrow> loads_ok (mem(n := insert bytes (mem n))) es"

lemma contents_after_append [simp]: "contents_after mem (es @ es') = contents_after (contents_after mem es) es'"
  by (induction mem es rule: contents_after.induct) (simp_all del: fun_upd_apply)

lemma loads_ok_append [simp]: "loads_ok mem (es @ es') \<longleftrightarrow> loads_ok mem es \<and> loads_ok (contents_after mem es) es'"
  by (induction mem es rule: contents_after.induct) (simp_all del: fun_upd_apply)

text \<open>Without a failed write of a block, its contents are what was stored last.\<close>

lemma contents_after_one:
  assumes "mem n = {old n}" "\<And>bytes. WriteFailed n bytes \<notin> set es"
  shows "contents_after mem es n = {memory_after old es n}"
  using assms
proof (induction old es arbitrary: mem rule: memory_after.induct)
  case (3 old m bytes es)
  then show ?case using "3.IH" [of "mem(m := {bytes})"] by (simp del: fun_upd_apply) (simp add: fun_upd_def)
next
  case (4 old m bytes es)
  have "m \<noteq> n" using 4(3) [of bytes] by auto
  then show ?case using 4 by simp
qed simp_all

lemma failed_events_contents:
  "contents_after mem (failed_events st v disk) n = mem n \<union> {disk (m_Device (header st b)) n | b.
     b \<in> set (segment_blocks v) \<and> \<not> IsDirtyPending (header st b) \<and> m_bufferNumber (header st b) = n}"
  "loads_ok mem (failed_events st v disk)"
proof -
  let ?e = "\<lambda>b. WriteFailed (m_bufferNumber (header st b)) (disk (m_Device (header st b)) (m_bufferNumber (header st b)))"
  have "contents_after mem (map ?e bs) n = mem n \<union> {disk (m_Device (header st b)) n | b. b \<in> set bs \<and> m_bufferNumber (header st b) = n}
      \<and> loads_ok mem (map ?e bs)" for bs
    by (induction bs arbitrary: mem) auto
  from this [of "filter (\<lambda>b. \<not> IsDirtyPending (header st b)) (segment_blocks v)"]
  show "contents_after mem (failed_events st v disk) n = mem n \<union> {disk (m_Device (header st b)) n | b.
     b \<in> set (segment_blocks v) \<and> \<not> IsDirtyPending (header st b) \<and> m_bufferNumber (header st b) = n}"
    "loads_ok mem (failed_events st v disk)"
    by (auto simp: failed_events_def)
qed

section \<open>The invariant of the system\<close>

fun phase_ok :: "block_ref set \<Rightarrow> block_ref set \<Rightarrow> cache_state \<Rightarrow> flusher_phase \<Rightarrow> bool" where
  "phase_ok modified unmarked st Idle \<longleftrightarrow> True"
| "phase_ok modified unmarked st (Writing v) \<longleftrightarrow> writing_ok modified unmarked st v"

definition cache_inv :: "nat \<Rightarrow> cache_sys \<Rightarrow> bool" where
  "cache_inv c s \<longleftrightarrow> pool_ok c (sys_state s) \<and> clean_ok c (sys_disk s) (sys_unmarked s) (sys_state s) \<and>
     phase_ok (sys_modified s) (sys_unmarked s) (sys_state s) (sys_phase s)"

lemma phase_ok_mono:
  assumes "phase_ok modified unmarked st phase" "dirty_blocks st \<subseteq> dirty_blocks st'"
    "\<And>b. b \<in> dirty_blocks st \<Longrightarrow> m_bufferNumber (header st' b) = m_bufferNumber (header st b)"
    "\<And>b. b \<in> dirty_blocks st \<Longrightarrow> b \<in> modified' \<Longrightarrow>
      (b \<in> modified \<Longrightarrow> b \<in> pending_blocks st \<union> unmarked) \<Longrightarrow> b \<in> pending_blocks st' \<union> unmarked'"
  shows "phase_ok modified' unmarked' st' phase"
proof (cases phase)
  case (Writing v)
  have w: "flush_ok st v" "set (segment_blocks v) \<inter> modified \<subseteq> pending_blocks st \<union> unmarked"
    using assms(1) by (simp_all add: Writing writing_ok_def)
  have "flush_ok st' v"
    using w(1) assms(2,3) unfolding flush_ok_def by (auto simp: subset_iff)
  moreover have "set (segment_blocks v) \<inter> modified' \<subseteq> pending_blocks st' \<union> unmarked'"
    using w(2) assms(4) segment_blocks_dirty(1) [OF w(1)] by blast
  ultimately show ?thesis by (simp add: Writing writing_ok_def)
qed simp

lemma cache_inv_flags:
  assumes "cache_inv c s" "same_flags (sys_state s) st"
  shows "cache_inv c (s\<lparr>sys_state := st\<rparr>)" "cache_memory c (sys_disk s) st = cache_memory c (sys_disk s) (sys_state s)"
proof -
  have f: "same_pool (sys_state s) st" "dirty_blocks st = dirty_blocks (sys_state s)" "pending_blocks st = pending_blocks (sys_state s)"
    using assms(2) by (simp_all add: same_flags_def)
  show "cache_inv c (s\<lparr>sys_state := st\<rparr>)"
    using assms(1) pool_ok_flags [OF _ assms(2)] clean_ok_same [OF _ f(1)] f
    by (auto simp: cache_inv_def same_pool_def intro: phase_ok_mono)
  show "cache_memory c (sys_disk s) st = cache_memory c (sys_disk s) (sys_state s)"
    by (rule cache_memory_same [OF f(1)])
qed

lemma DiskCacheFlusher_continue_ok:
  assumes ok: "pool_ok c st" "clean_ok c disk unmarked st" "loop_i v \<le> length (blockList v) \<Longrightarrow> flush_ok st v"
    and r: "DiskCacheFlusher_continue flusher v st = (phase, st')"
  shows "pool_ok c st'" "clean_ok c disk unmarked st'" "cache_memory c disk st' = cache_memory c disk st" "phase_ok {} unmarked st' phase"
    "same_pool st st'"
proof -
  have "same_pool st st' \<and> dirty_blocks st' = dirty_blocks st \<and> s_DirtyBlockCount st' = s_DirtyBlockCount st \<and> phase_ok {} unmarked st' phase"
  proof (cases "FlushBlockList_scan st v")
    case (Pair more v')
    show ?thesis
    proof (cases more)
      case True
      then have "FlushBlockList_scan st v = (True, v')" using Pair by simp
      then have "flush_ok st v'" by (rule FlushBlockList_scan_ok [rotated]) (rule ok(3))
      then have w: "phase_ok {} unmarked st (Writing v')" by (simp add: writing_ok_def)
      have s: "phase = Writing v'" "st' = FlushBlockList_begin v' st"
        using r Pair True by (simp_all add: DiskCacheFlusher_continue_def)
      have "phase_ok {} unmarked st' phase"
        unfolding s using FlushBlockList_begin_flags(1) [of st v'] by (intro phase_ok_mono [OF w]) (auto simp: FlushBlockList_begin_flags same_pool_def)
      then show ?thesis by (simp add: s FlushBlockList_begin_flags)
    next
      case False
      then show ?thesis
        using r Pair DiskCacheFlusher_finish_flags [of st flusher v'] by (auto simp: DiskCacheFlusher_continue_def same_flags_def)
    qed
  qed
  then have s: "same_pool st st'" "dirty_blocks st' = dirty_blocks st" "s_DirtyBlockCount st' = s_DirtyBlockCount st" "phase_ok {} unmarked st' phase"
    by simp_all
  show "pool_ok c st'"
    using ok(1) s by (intro pool_ok_same [OF ok(1) s(1)]) (auto simp: pool_ok_def dirty_counted_def)
  show "clean_ok c disk unmarked st'" "cache_memory c disk st' = cache_memory c disk st" "phase_ok {} unmarked st' phase" "same_pool st st'"
    using clean_ok_same [OF ok(2) s(1)] cache_memory_same [OF s(1)] s by simp_all
qed

lemma DiskCacheFlusher_round_ok:
  assumes ok: "pool_ok c st" "clean_ok c disk unmarked st" and r: "DiskCacheFlusher_round now flusher st = (phase, st')"
  shows "pool_ok c st'" "clean_ok c disk unmarked st'" "cache_memory c disk st' = cache_memory c disk st" "phase_ok {} unmarked st' phase"
    "same_pool st st'"
proof -
  obtain blocks st1 where c: "DiskCacheFlusher_collect (s_MRUList st) (- 1) [] st = (blocks, st1)" by force
  have f: "same_flags st st1" using collect_flags [of st "s_MRUList st" "- 1" "[]"] c by simp
  then have s: "same_pool st st1" "dirty_blocks st1 = dirty_blocks st" by (simp_all add: same_flags_def)
  have b: "distinct blocks" "set blocks \<subseteq> dirty_blocks st"
    using collect_blocks [OF c] pool_okD(2) [OF ok(1)] by (auto simp: dirty_blocks_def)
  have "flush_ok st1 (FlushBlockList_start now blocks st1)"
    using b s(2) nth_mem [of _ "blockList (FlushBlockList_start now blocks st1)"]
    by (auto simp: flush_ok_def FlushBlockList_start_def)
  note cont = DiskCacheFlusher_continue_ok [OF pool_ok_flags [OF ok(1) f] clean_ok_same [OF ok(2) s(1)] this, of flusher phase st']
  have "pool_ok c st' \<and> clean_ok c disk unmarked st' \<and> cache_memory c disk st' = cache_memory c disk st \<and> phase_ok {} unmarked st' phase \<and>
      same_pool st st'"
  proof (cases "s_DirtyBlockCount st > 0")
    case True
    then show ?thesis
      using r c cont cache_memory_same [OF s(1)] s(2) same_pool_trans [OF s(1)] by (simp add: DiskCacheFlusher_round_def)
  next
    case False
    have "same_flags st (st\<lparr>s_FlushingRequestWaiters := ws\<rparr>)" for ws by simp
    with False r have g: "same_flags st st'" "phase = Idle" by (auto simp: DiskCacheFlusher_round_def)
    then have "same_pool st st'" "dirty_blocks st' = dirty_blocks st" by (simp_all add: same_flags_def)
    then show ?thesis
      using pool_ok_flags [OF ok(1) g(1)] clean_ok_same [OF ok(2)] cache_memory_same g(2) by simp
  qed
  then show "pool_ok c st'" "clean_ok c disk unmarked st'" "cache_memory c disk st' = cache_memory c disk st" "phase_ok {} unmarked st' phase"
    "same_pool st st'"
    by simp_all
qed

lemma SetDirty_ok:
  assumes ok: "pool_ok c st" "clean_ok c disk unmarked st" and b: "b \<in> set (s_MRUList st)"
  shows "pool_ok c (SetDirty now b True st)" "clean_ok c disk (unmarked - {b}) (SetDirty now b True st)"
    "clean_ok c disk unmarked (SetDirty now b True st)"
    "cache_memory c disk (SetDirty now b True st) = cache_memory c disk st"
    "phase_ok modified unmarked st phase \<Longrightarrow> unmarked - {b} \<subseteq> unmarked' \<Longrightarrow> phase_ok modified unmarked' (SetDirty now b True st) phase"
proof -
  let ?st = "SetDirty now b True st"
  have s: "same_pool st ?st" by simp
  have d: "dirty_blocks ?st = insert b (dirty_blocks st)" by (simp add: dirty_SetDirty)
  show "pool_ok c ?st"
    using b pool_okD(10) [OF ok(1)] counted_SetDirty [OF pool_okD(11) [OF ok(1)]]
    by (intro pool_ok_same [OF ok(1) s]) (auto simp: d)
  show "clean_ok c disk unmarked ?st"
    by (rule clean_ok_same [OF ok(2) s]) (auto simp: d)
  then show "clean_ok c disk (unmarked - {b}) ?st"
    by (auto simp: clean_ok_def d)
  show "cache_memory c disk ?st = cache_memory c disk st"
    by (rule cache_memory_same [OF s])
  show "phase_ok modified unmarked' ?st phase" if "phase_ok modified unmarked st phase" "unmarked - {b} \<subseteq> unmarked'"
    using that(2) s by (intro phase_ok_mono [OF that(1)]) (auto simp: d pending_SetDirty same_pool_def)
qed

lemma store_bytes_ok:
  assumes ok: "pool_ok c st" "clean_ok c disk unmarked st" and b: "m_UseCount (header st b) > 0" "offset + length bytes \<le> BUFFER_BLOCK_SIZE"
  defines "st' \<equiv> store_bytes (KCacheBlockDesc_of b offset) bytes st"
  shows "pool_ok c st'" "clean_ok c disk (insert b unmarked) st'"
    "cache_memory c disk st' = (cache_memory c disk st)(m_bufferNumber (header st' b) := m_Data (header st' b))"
    "phase_ok modified unmarked st phase \<Longrightarrow> phase_ok (insert b modified) (insert b unmarked) st' phase"
proof -
  note p = pool_okD [OF ok(1)]
  have mru: "b \<in> set (s_MRUList st)" using p(9) b(1) by simp
  let ?h = "\<lambda>h. h\<lparr>m_Data := take offset (m_Data h) @ bytes @ drop (offset + length bytes) (m_Data h)\<rparr>"
  have st': "s_FreeList st' = s_FreeList st" "s_MRUList st' = s_MRUList st" "s_DirtyBlockCount st' = s_DirtyBlockCount st"
      "cache_objects st' = cache_objects st" "header st' = (header st)(b := ?h (header st b))"
    by (simp_all add: st'_def store_bytes_def KCacheBlockDesc_of_def update_header_def fun_eq_iff)
  have d: "dirty_blocks st' = dirty_blocks st" "pending_blocks st' = pending_blocks st"
    by (auto simp: dirty_blocks_def pending_blocks_def st'(5))
  have h: "m_Device (header st' b') = m_Device (header st b')" "m_bufferNumber (header st' b') = m_bufferNumber (header st b')"
      "m_UseCount (header st' b') = m_UseCount (header st b')" for b'
    by (simp_all add: st'(5))
  have len: "length (m_Data (header st' b')) = BUFFER_BLOCK_SIZE" if "b' \<in> set (s_MRUList st)" for b'
    using p(7) [OF that] b(2) by (auto simp: st'(5))
  have "dirty_counted st'" using p(11) by (simp add: dirty_counted_def d st'(3))
  with ok(1) len show "pool_ok c st'"
    by (simp add: pool_ok_def st'(1,2,4) h d)
  have "\<And>b'. b' \<noteq> b \<Longrightarrow> m_Data (header st' b') = m_Data (header st b')" by (simp add: st'(5))
  with ok(2) b(1) show "clean_ok c disk (insert b unmarked) st'"
    by (auto simp: clean_ok_def st'(2,4) h d)
  show "cache_memory c disk st' = (cache_memory c disk st)(m_bufferNumber (header st' b) := m_Data (header st' b))"
  proof (rule ext)
    fix n
    have "block_map c st n = Some b \<longleftrightarrow> n = m_bufferNumber (header st b)" using p(5) [of n b] mru by auto
    then show "cache_memory c disk st' n = ((cache_memory c disk st)(m_bufferNumber (header st' b) := m_Data (header st' b))) n"
      by (auto simp: cache_memory_def st'(4,5) split: option.split)
  qed
  show "phase_ok (insert b modified) (insert b unmarked) st' phase" if "phase_ok modified unmarked st phase"
    by (rule phase_ok_mono [OF that]) (auto simp: d h)
qed

lemma destroy_ok:
  fixes offset :: nat
  assumes ok: "pool_ok c st" "clean_ok c disk unmarked st" and b: "m_UseCount (header st b) > 0" "b \<notin> unmarked"
  defines "st' \<equiv> KCacheBlockDesc_destroy (KCacheBlockDesc_of b offset) st"
  shows "pool_ok c st'" "clean_ok c disk unmarked st'" "cache_memory c disk st' = cache_memory c disk st"
    "phase_ok modified unmarked st phase \<Longrightarrow> phase_ok modified unmarked st' phase"
proof -
  have st': "s_FreeList st' = s_FreeList st" "s_MRUList st' = s_MRUList st" "s_DirtyBlockCount st' = s_DirtyBlockCount st"
      "cache_objects st' = cache_objects st" "header st' = (header st)(b := (header st b)\<lparr>m_UseCount := m_UseCount (header st b) - 1\<rparr>)"
    by (simp_all add: st'_def KCacheBlockDesc_destroy_def KCacheBlockDesc_of_def RemoveRef_def Let_def update_header_def wake_flush_done_def fun_eq_iff)
  have d: "dirty_blocks st' = dirty_blocks st" "pending_blocks st' = pending_blocks st"
    by (auto simp: dirty_blocks_def pending_blocks_def st'(5))
  have h: "m_Device (header st' b') = m_Device (header st b')" "m_bufferNumber (header st' b') = m_bufferNumber (header st b')"
      "m_Data (header st' b') = m_Data (header st b')" for b'
    by (simp_all add: st'(5))
  have u: "m_UseCount (header st' b') \<ge> 0" "m_UseCount (header st' b') > 0 \<Longrightarrow> b' \<in> set (s_MRUList st)" for b'
    using pool_okD(8,9) [OF ok(1), of b'] b by (auto simp: st'(5) split: if_splits)
  have "dirty_counted st'" using pool_okD(11) [OF ok(1)] by (simp add: dirty_counted_def d st'(3))
  with ok(1) u show "pool_ok c st'" by (simp add: pool_ok_def st'(1,2,4) h d)
  show "clean_ok c disk unmarked st'" using ok(2) b by (auto simp: clean_ok_def st'(2,4) h d) (auto simp: st'(5))
  show "cache_memory c disk st' = cache_memory c disk st"
    by (auto simp: cache_memory_def st'(4) h fun_eq_iff split: option.split)
  show "phase_ok modified unmarked st phase \<Longrightarrow> phase_ok modified unmarked st' phase"
    by (erule phase_ok_mono) (auto simp: d h)
qed

section \<open>The cache is an array of blocks\<close>

text \<open>
  After a failed write the device differs from what the cache takes it to hold. The invariant is stated of the device \<open>believed\<close> that the
  clean buffers agree with; where the device itself differs, it holds one of the contents the block may have.
\<close>

definition cache_tracks :: "nat \<Rightarrow> (int \<Rightarrow> u8 list set) \<Rightarrow> (int \<Rightarrow> int \<Rightarrow> u8 list) \<Rightarrow> cache_sys \<Rightarrow> bool" where
  "cache_tracks c mem believed s \<longleftrightarrow> cache_inv c (s\<lparr>sys_disk := believed\<rparr>) \<and>
     (\<forall>n. cache_memory c believed (sys_state s) n \<in> mem n) \<and>
     (\<forall>n. sys_disk s (cache_device c (sys_state s)) n = believed (cache_device c (sys_state s)) n \<or> sys_disk s (cache_device c (sys_state s)) n \<in> mem n) \<and>
     (\<forall>d n. length (sys_disk s d n) = BUFFER_BLOCK_SIZE)"

lemma cache_tracksD:
  assumes "cache_tracks c mem believed s"
  shows "pool_ok c (sys_state s)" "clean_ok c believed (sys_unmarked s) (sys_state s)"
    "phase_ok (sys_modified s) (sys_unmarked s) (sys_state s) (sys_phase s)"
    "cache_memory c believed (sys_state s) n \<in> mem n"
    "sys_disk s (cache_device c (sys_state s)) n = believed (cache_device c (sys_state s)) n \<or> sys_disk s (cache_device c (sys_state s)) n \<in> mem n"
    "length (sys_disk s d n) = BUFFER_BLOCK_SIZE"
  using assms by (simp_all add: cache_tracks_def cache_inv_def)

lemma buffer_bytes_whole:
  assumes "pool_ok c st" "b \<in> set (s_MRUList st)"
  shows "buffer_bytes (KCacheBlockDesc_of b 0) BUFFER_BLOCK_SIZE st = cache_memory c disk st (m_bufferNumber (header st b))"
  using pool_okD(5) [OF assms(1), of "m_bufferNumber (header st b)" b] pool_okD(7) [OF assms]
  by (simp add: assms(2) buffer_bytes_def KCacheBlockDesc_of_def cache_memory_def)

lemma clean_ok_disk:
  assumes "clean_ok c disk unmarked st" "\<And>d n. length (disk' d n) = BUFFER_BLOCK_SIZE"
    "\<And>b. b \<in> set (s_MRUList st) - dirty_blocks st - unmarked \<Longrightarrow>
      disk' (cache_device c st) (m_bufferNumber (header st b)) = disk (cache_device c st) (m_bufferNumber (header st b))"
  shows "clean_ok c disk' unmarked st"
  using assms unfolding clean_ok_def by metis

lemma cache_memory_disk:
  assumes "\<And>n. block_map c st n = None \<Longrightarrow> disk' (cache_device c st) n = disk (cache_device c st) n"
  shows "cache_memory c disk' st = cache_memory c disk st"
  using assms by (auto simp: cache_memory_def fun_eq_iff split: option.split)

text \<open>A step that leaves the devices, the memory and the believed device alone.\<close>

lemma cache_tracks_step:
  assumes t: "cache_tracks c mem believed s"
    and st: "pool_ok c st" "clean_ok c believed unmarked st" "cache_memory c believed st = cache_memory c believed (sys_state s)"
      "phase_ok modified unmarked st phase" "cache_device c st = cache_device c (sys_state s)"
  shows "cache_tracks c mem believed (s\<lparr>sys_state := st, sys_phase := phase, sys_modified := modified, sys_unmarked := unmarked\<rparr>)"
  using t st by (simp add: cache_tracks_def cache_inv_def)

lemma GetBlock_try_device:
  "GetBlock_try kpread thread c n offset st = (r, st') \<Longrightarrow> cache_device c st' = cache_device c st"
  by (auto simp: GetBlock_try_def GetBlock_hit_def GetBlock_load_def GetBlock_evict_def AddRef_def Let_def
      split: option.splits if_splits prod.splits sum.splits)

text \<open>\<open>GetBlock\<close> reads the one block it is asked for, when it is not in the cache.\<close>

lemma GetBlock_try_kpread:
  assumes "block_map c st n = None \<Longrightarrow> kpread' (cache_device c st) n = kpread (cache_device c st) n"
  shows "GetBlock_try kpread' thread c n offset st = GetBlock_try kpread thread c n offset st"
  using assms by (auto simp: GetBlock_try_def GetBlock_load_def GetBlock_evict_def Let_def split: option.split)

lemma cache_tracks_get:
  assumes t: "cache_tracks c mem believed s" and read: "reads_disk kpread (sys_disk s)"
    and r: "GetBlock_try kpread thread c (buffer_number (cache_objects (sys_state s) c) n) (block_offset (cache_objects (sys_state s) c) n) (sys_state s) = (r, st)"
  shows "\<exists>believed'. cache_tracks c mem believed' (s\<lparr>sys_state := st\<rparr>)" "loads_ok mem (try_events n r st)"
    "contents_after mem (try_events n r st) = mem"
proof -
  note T = cache_tracksD [OF t]
  let ?d = "cache_device c (sys_state s)"
  have n: "buffer_number (cache_objects (sys_state s) c) n = n" "block_offset (cache_objects (sys_state s) c) n = 0"
    using pool_okD(12,13) [OF T(1)] by (simp_all add: buffer_number_def block_offset_def)
  define b' where "b' = (if block_map c (sys_state s) n = None then believed(?d := (believed ?d)(n := sys_disk s ?d n)) else believed)"
  define kp where "kp = (\<lambda>d m. if block_map c (sys_state s) n = None \<and> d = ?d \<and> m = n then kpread d m else ([], Inl IO))"
  have out: "b' d m = (if block_map c (sys_state s) n = None \<and> d = ?d \<and> m = n then sys_disk s d m else believed d m)" for d m
    by (simp add: b'_def)
  have "reads_disk kp b'"
    using read by (auto simp: reads_disk_def kp_def b'_def)
  moreover have c': "clean_ok c b' (sys_unmarked s) (sys_state s)"
  proof (rule clean_ok_disk [OF T(2)])
    show "length (b' d m) = BUFFER_BLOCK_SIZE" for d m
      using T(2,6) by (simp add: out clean_ok_def)
    show "b' ?d (m_bufferNumber (header (sys_state s) b)) = believed ?d (m_bufferNumber (header (sys_state s) b))"
      if "b \<in> set (s_MRUList (sys_state s)) - dirty_blocks (sys_state s) - sys_unmarked s" for b
      using that pool_okD(5) [OF T(1), of n b] by (auto simp: out)
  qed
  moreover have "GetBlock_try kp thread c n 0 (sys_state s) = (r, st)"
    using r GetBlock_try_kpread [where c = c and st = "sys_state s" and n = n and kpread' = kp and kpread = kpread] by (simp add: n kp_def)
  ultimately have g: "pool_ok c st \<and> clean_ok c b' (sys_unmarked s) st \<and> cache_memory c b' st = cache_memory c b' (sys_state s) \<and>
      fetch_keeps (sys_state s) st \<and>
      (case r of Found desc \<Rightarrow> (\<exists>b. desc = KCacheBlockDesc_of b 0 \<and> block_map c st n = Some b \<and> m_UseCount (header st b) > 0) | _ \<Rightarrow> True)"
    by (intro GetBlock_try_ok [OF T(1)])
  have m: "cache_memory c b' (sys_state s) k \<in> mem k" for k
    using T(4) [of k] T(5) [of k] by (auto simp: cache_memory_def out split: option.splits)
  have dev: "cache_device c st = ?d" using GetBlock_try_device [OF r] .
  have "phase_ok (sys_modified s) (sys_unmarked s) st (sys_phase s)"
    using g by (intro phase_ok_mono [OF T(3)]) (auto simp: fetch_keeps_def)
  then have "cache_tracks c mem b' (s\<lparr>sys_state := st\<rparr>)"
    using g m T(5,6) by (simp add: cache_tracks_def cache_inv_def dev out)
  then show "\<exists>believed'. cache_tracks c mem believed' (s\<lparr>sys_state := st\<rparr>)" by blast
  show "contents_after mem (try_events n r st) = mem" by (cases r) simp_all
  show "loads_ok mem (try_events n r st)"
  proof (cases r)
    case (Found desc)
    with g obtain b where b: "desc = KCacheBlockDesc_of b 0" "block_map c st n = Some b" by auto
    then have "b \<in> set (s_MRUList st)" "m_bufferNumber (header st b) = n"
      using g pool_okD(5) [of c st n b] by simp_all
    then have "buffer_bytes desc BUFFER_BLOCK_SIZE st = cache_memory c b' st n"
      using buffer_bytes_whole [of c st b b'] g by (simp add: b(1))
    then show ?thesis using g m by (simp add: Found)
  qed simp_all
qed

lemma cache_tracks_store:
  assumes t: "cache_tracks c mem believed s" and b: "m_UseCount (header (sys_state s) b) > 0" "offset + length bytes \<le> BUFFER_BLOCK_SIZE"
    and st: "st = store_bytes (KCacheBlockDesc_of b offset) bytes (sys_state s)"
  shows "\<exists>believed'. cache_tracks c (mem(m_bufferNumber (header st b) := {m_Data (header st b)})) believed'
    (s\<lparr>sys_state := st, sys_modified := insert b (sys_modified s), sys_unmarked := insert b (sys_unmarked s)\<rparr>)"
proof -
  note T = cache_tracksD [OF t]
  let ?d = "cache_device c (sys_state s)"
  note w = store_bytes_ok [OF T(1,2) b, folded st]
  let ?n = "m_bufferNumber (header st b)"
  have same: "cache_device c st = ?d" "s_MRUList st = s_MRUList (sys_state s)" "m_UseCount (header st b) = m_UseCount (header (sys_state s) b)"
    by (simp_all add: st store_bytes_def KCacheBlockDesc_of_def)
  define b' where "b' = believed(?d := (believed ?d)(?n := sys_disk s ?d ?n))"
  have mru: "b \<in> set (s_MRUList st)" using pool_okD(9) [OF T(1) b(1)] same by simp
  have c': "clean_ok c b' (insert b (sys_unmarked s)) st"
  proof (rule clean_ok_disk [OF w(2)])
    show "length (b' d m) = BUFFER_BLOCK_SIZE" for d m
      using T(2,6) by (simp add: b'_def clean_ok_def)
    show "b' (cache_device c st) (m_bufferNumber (header st a)) = believed (cache_device c st) (m_bufferNumber (header st a))"
      if "a \<in> set (s_MRUList st) - dirty_blocks st - insert b (sys_unmarked s)" for a
      using that pool_ok_inj [OF w(1) _ mru, of a] by (auto simp: b'_def)
  qed
  have "block_map c st ?n = Some b" using pool_okD(5) [OF w(1)] mru by blast
  then have "cache_memory c b' st = cache_memory c believed st"
    by (intro cache_memory_disk) (auto simp: b'_def same)
  then have "cache_tracks c (mem(?n := {m_Data (header st b)})) b'
      (s\<lparr>sys_state := st, sys_modified := insert b (sys_modified s), sys_unmarked := insert b (sys_unmarked s)\<rparr>)"
    using w(1,3,4) c' T(3-6) same by (simp add: cache_tracks_def cache_inv_def b'_def)
  then show ?thesis by blast
qed

text \<open>Where a segment lies on the device.\<close>

definition in_segment :: "cache_state \<Rightarrow> flush_vars \<Rightarrow> int \<Rightarrow> int \<Rightarrow> bool" where
  "in_segment st v d n \<longleftrightarrow> (let first = header st (blockList v ! start v) in
     d = m_Device first \<and> m_bufferNumber first \<le> n \<and> n < m_bufferNumber first + int (loop_i v - start v))"

lemma device_written_segment:
  "device_written st v modified disk disk' \<longleftrightarrow> (\<forall>d n. length (disk' d n) = BUFFER_BLOCK_SIZE \<and>
     (if in_segment st v d n then segments v (nat (n - m_bufferNumber (header st (blockList v ! start v)))) \<notin> modified \<longrightarrow>
        disk' d n = m_Data (header st (segments v (nat (n - m_bufferNumber (header st (blockList v ! start v))))))
      else disk' d n = disk d n))"
  by (simp add: device_written_def in_segment_def Let_def)

lemma in_segment_block:
  assumes "flush_ok st v" "in_segment st v d n"
  shows "segments v (nat (n - m_bufferNumber (header st (blockList v ! start v)))) \<in> set (segment_blocks v)"
    "m_bufferNumber (header st (segments v (nat (n - m_bufferNumber (header st (blockList v ! start v)))))) = n"
proof -
  let ?k = "nat (n - m_bufferNumber (header st (blockList v ! start v)))"
  have "?k < loop_i v - start v" "m_bufferNumber (header st (blockList v ! start v)) + int ?k = n"
    using assms(2) by (auto simp: in_segment_def Let_def)
  then show "segments v ?k \<in> set (segment_blocks v)" "m_bufferNumber (header st (segments v ?k)) = n"
    using segment_blocks_dirty(3) [OF assms(1)] by simp_all
qed

lemma cache_tracks_written:
  assumes t: "cache_tracks c mem believed s" and ph: "sys_phase s = Writing v"
    and w: "device_written (sys_state s) v (sys_modified s) (sys_disk s) disk"
    and r: "DiskCacheFlusher_resume returned flusher v (sys_state s) = (phase, st)"
  shows "\<exists>believed'. cache_tracks c mem believed' (s\<lparr>sys_state := st, sys_disk := disk, sys_phase := phase, sys_modified := {}\<rparr>)"
    "cache_device c st = cache_device c (sys_state s)"
proof -
  note T = cache_tracksD [OF t]
  have wo: "writing_ok (sys_modified s) (sys_unmarked s) (sys_state s) v" using T(3) by (simp add: ph)
  define b' where "b' = (\<lambda>d n. if in_segment (sys_state s) v d n then disk d n else believed d n)"
  have wr: "length (disk d n) = BUFFER_BLOCK_SIZE" "\<not> in_segment (sys_state s) v d n \<Longrightarrow> disk d n = sys_disk s d n" for d n
    using w by (auto simp: device_written_segment)
  have "length (believed d n) = BUFFER_BLOCK_SIZE" for d n using T(2) by (simp add: clean_ok_def)
  then have w': "device_written (sys_state s) v (sys_modified s) believed b'"
    using w by (simp add: device_written_segment b'_def)
  obtain st1 v1 where e: "FlushBlockList_end returned v (sys_state s) = (st1, v1)" by force
  note f = FlushBlockList_end_ok [OF T(1,2) wo w' e]
  have "DiskCacheFlusher_continue flusher v1 st1 = (phase, st)"
    using r e by (simp add: DiskCacheFlusher_resume_def)
  note u = DiskCacheFlusher_continue_ok [OF f(1,2,4) this]
  show dev: "cache_device c st = cache_device c (sys_state s)"
    using same_pool_trans [OF f(5) u(5)] by (simp add: same_pool_def)
  have "disk (cache_device c st) n = b' (cache_device c st) n \<or> disk (cache_device c st) n \<in> mem n" for n
    using T(5) [of n] wr(2) by (simp add: b'_def dev)
  then have "cache_tracks c mem b' (s\<lparr>sys_state := st, sys_disk := disk, sys_phase := phase, sys_modified := {}\<rparr>)"
    using u f(3) T(4) wr(1) by (simp add: cache_tracks_def cache_inv_def)
  then show "\<exists>believed'. cache_tracks c mem believed' (s\<lparr>sys_state := st, sys_disk := disk, sys_phase := phase, sys_modified := {}\<rparr>)" by blast
qed

text \<open>
  A failed write: the cache goes on as if the device had taken the segment. What it takes the device to hold is true again of the blocks that stay
  dirty, since nothing is assumed of them.
\<close>

lemma cache_tracks_failed:
  assumes t: "cache_tracks c mem believed s" and ph: "sys_phase s = Writing v"
    and w: "device_written (sys_state s) v UNIV (sys_disk s) disk"
    and r: "DiskCacheFlusher_resume returned flusher v (sys_state s) = (phase, st)"
  shows "\<exists>believed'. cache_tracks c (contents_after mem (failed_events (sys_state s) v disk)) believed'
      (s\<lparr>sys_state := st, sys_disk := disk, sys_phase := phase, sys_modified := {}\<rparr>)"
    "cache_device c st = cache_device c (sys_state s)"
proof -
  note T = cache_tracksD [OF t]
  let ?st = "sys_state s" and ?d = "cache_device c (sys_state s)"
  let ?mem = "contents_after mem (failed_events ?st v disk)"
  have wo: "writing_ok (sys_modified s) (sys_unmarked s) ?st v" using T(3) by (simp add: ph)
  then have fo: "flush_ok ?st v" by (simp add: writing_ok_def)
  note seg = segment_blocks_dirty(1) [OF fo] and p = pool_okD [OF T(1)]
  let ?b = "\<lambda>n. segments v (nat (n - m_bufferNumber (header ?st (blockList v ! start v))))"
  define b1 where "b1 = (\<lambda>d n. if in_segment ?st v d n then if ?b n \<in> sys_modified s then disk d n else m_Data (header ?st (?b n)) else believed d n)"
  have len: "length (disk d n) = BUFFER_BLOCK_SIZE" "length (believed d n) = BUFFER_BLOCK_SIZE" for d n
    using w T(2) by (simp_all add: device_written_segment clean_ok_def)
  have "length (m_Data (header ?st (?b n))) = BUFFER_BLOCK_SIZE" if "in_segment ?st v d n" for d n
    using in_segment_block(1) [OF fo that] seg p(10) p(7) by blast
  then have w1: "device_written ?st v (sys_modified s) believed b1"
    using len by (simp add: device_written_segment b1_def)
  obtain st1 v1 where e: "FlushBlockList_end returned v ?st = (st1, v1)" by force
  note f = FlushBlockList_end_ok [OF T(1,2) wo w1 e]
  define pend where "pend = (\<lambda>n. \<exists>b \<in> set (segment_blocks v). b \<in> pending_blocks ?st \<and> m_bufferNumber (header ?st b) = n)"
  define b2 where "b2 = (\<lambda>d n. if pend n then disk d n else b1 d n)"
  have same: "s_MRUList st1 = s_MRUList ?st" "cache_device c st1 = ?d" "m_bufferNumber (header st1 b) = m_bufferNumber (header ?st b)" for b
    using f(5) by (simp_all add: same_pool_def)
  have stays: "b \<in> dirty_blocks st1" if pb: "pend (m_bufferNumber (header ?st b))" "b \<in> set (s_MRUList ?st)" for b
  proof -
    obtain b' where b': "b' \<in> set (segment_blocks v)" "b' \<in> pending_blocks ?st" "m_bufferNumber (header ?st b') = m_bufferNumber (header ?st b)"
      using pb(1) by (auto simp: pend_def)
    then have "b' = b" using pool_ok_inj [OF T(1) _ pb(2)] seg p(10) by blast
    then show ?thesis using b'(1,2) seg by (auto simp: f(6))
  qed
  have c2: "clean_ok c b2 (sys_unmarked s) st1"
  proof (rule clean_ok_disk [OF f(2)])
    show "length (b2 d n) = BUFFER_BLOCK_SIZE" for d n
      using len device_writtenD(1) [OF w1] by (simp add: b2_def)
    show "b2 (cache_device c st1) (m_bufferNumber (header st1 b)) = b1 (cache_device c st1) (m_bufferNumber (header st1 b))"
      if "b \<in> set (s_MRUList st1) - dirty_blocks st1 - sys_unmarked s" for b
      using that stays [of b] by (auto simp: b2_def same)
  qed
  have "cache_memory c b2 st1 = cache_memory c b1 st1"
  proof (rule cache_memory_disk)
    fix n assume n: "block_map c st1 n = None"
    have "\<not> pend n"
    proof
      assume "pend n"
      then obtain b where "b \<in> set (s_MRUList st1)" "m_bufferNumber (header st1 b) = n"
        using seg p(10) by (auto simp: pend_def same)
      then have "block_map c st1 n = Some b" using pool_okD(5) [OF f(1)] by blast
      with n show False by simp
    qed
    then show "b2 (cache_device c st1) n = b1 (cache_device c st1) n" by (simp add: b2_def)
  qed
  then have m2: "cache_memory c b2 st1 = cache_memory c believed ?st" using f(3) by simp
  have "DiskCacheFlusher_continue flusher v1 st1 = (phase, st)"
    using r e by (simp add: DiskCacheFlusher_resume_def)
  note u = DiskCacheFlusher_continue_ok [OF f(1) c2 f(4) this]
  show dev: "cache_device c st = ?d"
    using same_pool_trans [OF f(5) u(5)] by (simp add: same_pool_def)
  have more: "mem n \<subseteq> ?mem n" for n by (simp add: failed_events_contents)
  have "disk ?d n = b2 ?d n \<or> disk ?d n \<in> ?mem n" for n
  proof (cases "in_segment ?st v ?d n \<and> \<not> pend n")
    case True
    note b = in_segment_block [OF fo True [THEN conjunct1]]
    then have "m_Device (header ?st (?b n)) = ?d" using seg p(10) p(6) by blast
    moreover have "\<not> IsDirtyPending (header ?st (?b n))" using True b by (auto simp: pend_def pending_blocks_def)
    ultimately have "disk ?d n \<in> ?mem n"
      unfolding failed_events_contents using b by (intro UnI2 CollectI exI [of _ "?b n"]) simp
    then show ?thesis ..
  next
    case False
    then show ?thesis
      using T(5) [of n] more [of n] w by (auto simp: b2_def b1_def device_written_segment)
  qed
  then have "cache_tracks c ?mem b2 (s\<lparr>sys_state := st, sys_disk := disk, sys_phase := phase, sys_modified := {}\<rparr>)"
    using u m2 T(4) more len(1) by (auto simp: cache_tracks_def cache_inv_def dev)
  then show "\<exists>believed'. cache_tracks c ?mem believed'
      (s\<lparr>sys_state := st, sys_disk := disk, sys_phase := phase, sys_modified := {}\<rparr>)" by blast
qed

text \<open>Every step keeps the invariant and does to the contents what its events say.\<close>

lemma cache_step_ok:
  assumes "cache_step c s es s'" and t: "cache_tracks c mem believed s"
  shows "(\<exists>believed'. cache_tracks c (contents_after mem es) believed' s') \<and> loads_ok mem es \<and>
    cache_device c (sys_state s') = cache_device c (sys_state s)"
proof -
  note ok = cache_tracksD(1,2) [OF t] and ph = cache_tracksD(3) [OF t]
  note used = pool_okD(9) [OF ok(1)] and step = cache_tracks_step [OF t]
  have flags: "\<exists>believed'. cache_tracks c mem believed' (s\<lparr>sys_state := st\<rparr>)" "cache_device c st = cache_device c (sys_state s)"
    if "same_flags (sys_state s) st" for st
  proof -
    have "cache_inv c (s\<lparr>sys_disk := believed\<rparr>)" using t by (simp add: cache_tracks_def)
    note i = cache_inv_flags [OF this, of st]
    show d: "cache_device c st = cache_device c (sys_state s)" using that by (simp add: same_flags_def same_pool_def)
    have "cache_tracks c mem believed (s\<lparr>sys_state := st\<rparr>)"
      using t i that d by (simp add: cache_tracks_def cache_inv_def)
    then show "\<exists>believed'. cache_tracks c mem believed' (s\<lparr>sys_state := st\<rparr>)" by blast
  qed
  have sd: "cache_device c (SetDirty now b True (sys_state s)) = cache_device c (sys_state s)" for now b
    using SetDirty_pool [of "sys_state s"] by (simp add: same_pool_def)
  from assms(1) show ?thesis
  proof (cases rule: cache_step.cases)
    case (get kpread thread n r st)
    then show ?thesis using cache_tracks_get [OF t get(3,4)] GetBlock_try_device [OF get(4)] by simp
  next
    case (load b)
    then show ?thesis
      using t buffer_bytes_whole [OF ok(1) used, of b believed] cache_tracksD(4) [OF t] by auto
  next
    case (store b offset bytes st)
    then show ?thesis
      using cache_tracks_store [OF t store(3,4,5)] by (simp add: store_bytes_def KCacheBlockDesc_of_def)
  next
    case (mark b now offset)
    note d = SetDirty_ok [OF ok used [OF mark(3)], where now = now]
    show ?thesis
      using step [OF d(1,2,4) d(5) [OF ph subset_refl] sd] by (auto simp: mark MarkDirty_def KCacheBlockDesc_of_def sd)
  next
    case (mark_number now n)
    show ?thesis
    proof (cases "block_map c (sys_state s) (buffer_number (cache_objects (sys_state s) c) n)")
      case None
      then show ?thesis using t by (auto simp: mark_number MarkBlockDirty_def Let_def)
    next
      case (Some b)
      then have "b \<in> set (s_MRUList (sys_state s))" using pool_okD(5) [OF ok(1)] by blast
      note d = SetDirty_ok [OF ok this, where now = now]
      show ?thesis
        using step [OF d(1,3,4) d(5) [OF ph] sd] by (auto simp: mark_number MarkBlockDirty_def Some Let_def sd)
    qed
  next
    case (release b offset)
    note d = destroy_ok [OF ok release(3,4), where offset = offset]
    have "cache_device c (KCacheBlockDesc_destroy (KCacheBlockDesc_of b offset) (sys_state s)) = cache_device c (sys_state s)"
      by (simp add: KCacheBlockDesc_destroy_def KCacheBlockDesc_of_def RemoveRef_def Let_def)
    with step [OF d(1,2,3) d(4) [OF ph]] show ?thesis by (auto simp: release)
  next
    case flush
    show ?thesis using flags [OF FlushInternal_flags] by (simp add: flush Flush_def)
  next
    case (sync thread)
    have "same_flags (sys_state s) (snd (Sync thread (sys_state s)))"
      using FlushInternal_flags [of "sys_state s"] by (auto simp: Sync_def split: prod.split)
    then show ?thesis using flags [of "snd (Sync thread (sys_state s))"] by (simp add: sync)
  next
    case (round now flusher phase st)
    note d = DiskCacheFlusher_round_ok [OF ok round(4)]
    have "cache_device c st = cache_device c (sys_state s)" using d(5) by (simp add: same_pool_def)
    with step [OF d(1,2,3,4)] show ?thesis by (auto simp: round)
  next
    case (written v disk flusher phase st)
    then show ?thesis using cache_tracks_written [OF t written(3,4,5)] by simp
  next
    case (write_failed v disk returned flusher phase st)
    then show ?thesis using cache_tracks_failed [OF t write_failed(3,4,5)] failed_events_contents(2) by simp
  qed
qed

lemma cache_start_inv:
  assumes "device \<noteq> - 1" "\<And>d n. length (disk d n) = BUFFER_BLOCK_SIZE"
  shows "cache_inv c (cache_start c device blockCount disk)" "cache_memory c disk (sys_state (cache_start c device blockCount disk)) = disk device"
    "cache_device c (sys_state (cache_start c device blockCount disk)) = device"
proof -
  let ?st = "snd (SetDevice c device blockCount BUFFER_BLOCK_SIZE Initialize)"
  have st: "s_FreeList ?st = [0..<KBLOCK_CACHE_BLOCK_COUNT]" "s_MRUList ?st = []" "header ?st = (\<lambda>b. KCacheBlockHeader_new)"
      "s_DirtyBlockCount ?st = 0" "cache_objects ?st c = \<lparr>m_CacheDevice = device, m_BlockSize = BUFFER_BLOCK_SIZE, m_BlockCount = blockCount,
         m_BlocksPerBuffer = 1, m_BlockToBufferShift = 0, m_BufferOffsetMask = 0, m_BlockMap = Map.empty\<rparr>"
    using assms(1) by (simp_all add: SetDevice_def Initialize_def Let_def KBlockCache_new_def buffer_layout_def BUFFER_BLOCK_SIZE_def)
  have d: "dirty_blocks ?st = {}"
    by (simp add: dirty_blocks_def st KCacheBlockHeader_new_def)
  show "cache_inv c (cache_start c device blockCount disk)"
    using assms(2) by (auto simp: cache_inv_def cache_start_def pool_ok_def clean_ok_def d dirty_counted_def st KCacheBlockHeader_new_def)
  show "cache_memory c disk (sys_state (cache_start c device blockCount disk)) = disk device"
    by (simp add: cache_memory_def cache_start_def st fun_eq_iff)
  show "cache_device c (sys_state (cache_start c device blockCount disk)) = device"
    by (simp add: cache_start_def st)
qed

lemma cache_start_tracks:
  assumes "device \<noteq> - 1" "\<And>d n. length (disk d n) = BUFFER_BLOCK_SIZE"
  shows "cache_tracks c (\<lambda>n. {disk device n}) disk (cache_start c device blockCount disk)"
  using cache_start_inv [OF assms, where c = c and blockCount = blockCount] assms(2)
  by (simp add: cache_tracks_def cache_start_def)

lemma cache_run_ok:
  assumes "cache_run c s es s'" "cache_tracks c mem believed s"
  shows "(\<exists>believed'. cache_tracks c (contents_after mem es) believed' s') \<and> loads_ok mem es \<and>
    cache_device c (sys_state s') = cache_device c (sys_state s)"
  using assms
proof (induction rule: cache_run.induct)
  case (start s)
  then show ?case by auto
next
  case (step s es s' e s'')
  then obtain believed' where "cache_tracks c (contents_after mem es) believed' s'" by auto
  from cache_step_ok [OF step.hyps(2) this] step show ?case by simp
qed

text \<open>
  C21. With one device, any number of clients that keep to the contract of descriptors, and the flushing thread writing back behind their backs, interleaved in
  any way: every read of a block gives what was last stored in it, or what the device held at the start. Buffers may be evicted, written while they
  are being changed, and loaded again at any time. Reads and writes of the device may fail at any time: a block of which no write has failed since it
  was last stored is not affected; a read of another gives what was stored last or what one of the failed writes has left on the device.
\<close>

theorem cache_is_memory:
  assumes "cache_run c (cache_start c device blockCount disk) es s" "device \<noteq> - 1" "\<And>d n. length (disk d n) = BUFFER_BLOCK_SIZE"
  shows "loads_ok (\<lambda>n. {disk device n}) es"
  using cache_run_ok [OF assms(1) cache_start_tracks [OF assms(2,3)]] by simp

text \<open>
  C22. When no block is dirty and every client has marked its changes, the device itself holds everything that was stored: every block of which no write has failed is
  on the device as it was stored last, and the others are as it was stored last or as a failed write has left them.
\<close>

theorem cache_clean_means_saved:
  assumes "cache_run c (cache_start c device blockCount disk) es s" "device \<noteq> - 1" "\<And>d n. length (disk d n) = BUFFER_BLOCK_SIZE"
    and "s_DirtyBlockCount (sys_state s) = 0" "sys_unmarked s = {}"
  shows "sys_disk s device n \<in> contents_after (\<lambda>n. {disk device n}) es n \<and>
    ((\<forall>bytes. WriteFailed n bytes \<notin> set es) \<longrightarrow> sys_disk s device n = memory_after (disk device) es n)"
proof -
  let ?mem = "contents_after (\<lambda>n. {disk device n}) es"
  note r = cache_run_ok [OF assms(1) cache_start_tracks [OF assms(2,3)]]
  then obtain believed where t: "cache_tracks c ?mem believed s" by auto
  have dev: "cache_device c (sys_state s) = device" using r cache_start_inv(3) [OF assms(2,3)] by simp
  note T = cache_tracksD [OF t]
  have "dirty_blocks (sys_state s) = {}"
    using pool_okD(11) [OF T(1)] assms(4) by (auto simp: dirty_counted_def)
  then have "cache_memory c believed (sys_state s) n = believed device n"
    using T(2) pool_okD(5) [OF T(1)] assms(5) dev by (auto simp: cache_memory_def clean_ok_def split: option.split)
  then have "sys_disk s device n \<in> ?mem n" using T(4) [of n] T(5) [of n] by (auto simp: dev)
  moreover have "?mem n = {memory_after (disk device) es n}" if "\<forall>bytes. WriteFailed n bytes \<notin> set es"
    using that contents_after_one [of "\<lambda>n. {disk device n}" n "disk device" es] by blast
  ultimately show ?thesis by blast
qed

section \<open>A run\<close>

text \<open>One block is fetched, changed, marked, released, and written back.\<close>

definition zero_block :: "u8 list" where "zero_block = replicate BUFFER_BLOCK_SIZE 0"
definition one_block :: "u8 list" where "one_block = replicate BUFFER_BLOCK_SIZE 1"
definition zero_disk :: "int \<Rightarrow> int \<Rightarrow> u8 list" where "zero_disk = (\<lambda>d n. zero_block)"

definition example_header :: "int \<Rightarrow> u8 list \<Rightarrow> u32 \<Rightarrow> KCacheBlockHeader" where
  "example_header uses bytes flags =
     \<lparr>m_Device = 3, m_bufferNumber = 7, m_UseCount = uses, m_Data = bytes, m_DirtyTime = FromNative 0, m_Flags = flags\<rparr>"

definition example_cache :: "(int \<rightharpoonup> block_ref) \<Rightarrow> KBlockCache" where
  "example_cache blocks = \<lparr>m_CacheDevice = 3, m_BlockSize = 512, m_BlockCount = 100, m_BlocksPerBuffer = 1, m_BlockToBufferShift = 0,
     m_BufferOffsetMask = 0, m_BlockMap = blocks\<rparr>"

definition example_state :: "KCacheBlockHeader \<Rightarrow> int \<Rightarrow> cache_state" where
  "example_state h dirty =
     \<lparr>gk_BCacheHeaders = (\<lambda>b. KCacheBlockHeader_new)(4095 := h), s_FreeList = [0..<4095], s_MRUList = [4095], s_DirtyBlockCount = dirty,
      s_FlushingRequestWaiters = [], s_FlushingDoneWaiters = [], s_DeviceMap = [3 \<mapsto> 0],
      cache_objects = (\<lambda>c. KBlockCache_new)(0 := example_cache [7 \<mapsto> 4095])\<rparr>"

definition example_sys :: "KCacheBlockHeader \<Rightarrow> int \<Rightarrow> (int \<Rightarrow> int \<Rightarrow> u8 list) \<Rightarrow> flusher_phase \<Rightarrow> block_ref set \<Rightarrow> block_ref set \<Rightarrow> cache_sys" where
  "example_sys h dirty disk phase modified unmarked =
     \<lparr>sys_state = example_state h dirty, sys_disk = disk, sys_phase = phase, sys_modified = modified, sys_unmarked = unmarked\<rparr>"

lemma example_get:
  "cache_step 0 (cache_start 0 3 100 zero_disk) [Loaded 7 zero_block] (example_sys (example_header 1 zero_block 0) 0 zero_disk Idle {} {})"
proof -
  let ?s = "cache_start 0 3 100 zero_disk"
  let ?kpread = "\<lambda>d n. (zero_block, Inr (int BUFFER_BLOCK_SIZE))"
  have upt: "[0..<4096] = [0..<4095] @ [4095]" by (simp add: upt_Suc_append [symmetric])
  have s: "sys_state ?s = \<lparr>gk_BCacheHeaders = (\<lambda>b. KCacheBlockHeader_new), s_FreeList = [0..<4095] @ [4095], s_MRUList = [],
     s_DirtyBlockCount = 0, s_FlushingRequestWaiters = [], s_FlushingDoneWaiters = [], s_DeviceMap = [3 \<mapsto> 0],
     cache_objects = (\<lambda>c. KBlockCache_new)(0 := example_cache Map.empty)\<rparr>"
    by (simp add: cache_start_def SetDevice_def Initialize_def Let_def KBlockCache_new_def buffer_layout_def BUFFER_BLOCK_SIZE_def
        update_cache_def example_cache_def KBLOCK_CACHE_BLOCK_COUNT_def upt del: upt_rec_numeral)
  have t: "GetBlock_try ?kpread 1 0 7 0 (sys_state ?s) = (Found (KCacheBlockDesc_of 4095 0), example_state (example_header 1 zero_block 0) 0)"
    by (simp add: s GetBlock_try_def GetBlock_load_def Let_def example_cache_def update_header_def update_cache_def example_state_def
        example_header_def KCacheBlockHeader_new_def fun_upd_def fun_eq_iff del: upt_rec_numeral)
  have "cache_step 0 ?s (try_events 7 (Found (KCacheBlockDesc_of 4095 0)) (example_state (example_header 1 zero_block 0) 0))
      (?s\<lparr>sys_state := example_state (example_header 1 zero_block 0) 0\<rparr>)"
  proof (rule cache_step.get)
    show "reads_disk ?kpread (sys_disk ?s)" by (simp add: reads_disk_def cache_start_def zero_disk_def)
    have "buffer_number (cache_objects (sys_state ?s) 0) 7 = 7" "block_offset (cache_objects (sys_state ?s) 0) 7 = 0"
      by (simp_all add: s example_cache_def buffer_number_def block_offset_def del: upt_rec_numeral)
    with t show "GetBlock_try ?kpread 1 0 (buffer_number (cache_objects (sys_state ?s) 0) 7) (block_offset (cache_objects (sys_state ?s) 0) 7)
        (sys_state ?s) = (Found (KCacheBlockDesc_of 4095 0), example_state (example_header 1 zero_block 0) 0)"
      by simp
  qed
  then show ?thesis
    by (simp add: example_sys_def cache_start_def buffer_bytes_def KCacheBlockDesc_of_def example_state_def example_header_def zero_block_def
        del: upt_rec_numeral)
qed

lemma example_header_at [simp]: "header (example_state h dirty) 4095 = h"
  by (simp add: example_state_def)

lemma example_update [simp]: "update_header 4095 f (example_state h dirty) = example_state (f h) dirty"
  by (simp add: example_state_def update_header_def)

lemma example_fields [simp]:
  "s_DirtyBlockCount (example_state h dirty) = dirty" "s_MRUList (example_state h dirty) = [4095]"
  "example_state h dirty\<lparr>s_DirtyBlockCount := dirty'\<rparr> = example_state h dirty'"
  "wake_flusher (example_state h dirty) = example_state h dirty" "wake_flush_done (example_state h dirty) = example_state h dirty"
  by (simp_all add: example_state_def wake_flusher_def wake_flush_done_def)

lemma example_store:
  "cache_step 0 (example_sys (example_header 1 zero_block 0) 0 zero_disk Idle {} {}) [Stored 7 one_block]
     (example_sys (example_header 1 one_block 0) 0 zero_disk Idle {4095} {4095})"
  using cache_step.store [of "example_sys (example_header 1 zero_block 0) 0 zero_disk Idle {} {}" 4095 0 one_block _ 0, OF _ _ refl]
  by (simp add: example_sys_def store_bytes_def KCacheBlockDesc_of_def one_block_def zero_block_def example_header_def)

lemma example_mark:
  "cache_step 0 (example_sys (example_header 1 one_block 0) 0 zero_disk Idle {4095} {4095}) []
     (example_sys (example_header 1 one_block 1) 1 zero_disk Idle {4095} {})"
  using cache_step.mark [of "example_sys (example_header 1 one_block 0) 0 zero_disk Idle {4095} {4095}" 4095 0 "FromNative 0" 0]
  by (simp add: example_sys_def MarkDirty_def KCacheBlockDesc_of_def SetDirty_def example_header_def BCF_DIRTY_def MIN_FLUSH_WAKEUP_BLOCK_COUNT_def)

lemma example_release:
  "cache_step 0 (example_sys (example_header 1 one_block 1) 1 zero_disk Idle {4095} {}) []
     (example_sys (example_header 0 one_block 1) 1 zero_disk Idle {4095} {})"
  using cache_step.release [of "example_sys (example_header 1 one_block 1) 1 zero_disk Idle {4095} {}" 4095 0 0]
  by (simp add: example_sys_def KCacheBlockDesc_destroy_def KCacheBlockDesc_of_def RemoveRef_def example_header_def)

lemma example_flush:
  "cache_step 0 (example_sys (example_header 0 one_block 1) 1 zero_disk Idle {4095} {}) []
     (example_sys (example_header 0 one_block 5) 1 zero_disk Idle {4095} {})"
  using cache_step.flush [of 0 "example_sys (example_header 0 one_block 1) 1 zero_disk Idle {4095} {}"]
  by (simp add: example_sys_def Flush_def FlushInternal_def SetFlushRequested_def example_header_def BCF_FLUSH_REQUESTED_def IsDirty_def BCF_DIRTY_def)

definition example_vars :: flush_vars where
  "example_vars = \<lparr>blockList = [4095], segments = (\<lambda>_. 0)(0 := 4095), curTime = FromNative 0, start = 0, requiredSegment = True,
     hasTimedOutBlocks = False, anythingFlushed = False, loop_i = 1\<rparr>"

lemma example_round:
  "DiskCacheFlusher_round (FromNative 0) 9 (example_state (example_header 0 one_block 5) 1) =
     (Writing example_vars, example_state (example_header 0 one_block 13) 1)"
proof -
  let ?st = "example_state (example_header 0 one_block 13) 1"
  have c: "DiskCacheFlusher_collect [4095] (- 1) [] (example_state (example_header 0 one_block 5) 1) = ([4095], ?st)"
    by (simp add: MAX_FLUSH_BLOCK_COUNT_def IsDirty_def IsFlushing_def SetIsFlushing_def example_header_def BCF_DIRTY_def BCF_IS_FLUSHING_def)
  have "FlushBlockList_scan ?st (FlushBlockList_start (FromNative 0) [4095] ?st) = (True, example_vars)"
    by (simp add: FlushBlockList_scan.simps FlushBlockList_start_def flush_flags_def segment_ends_def flush_next_block_def
        IsFlushRequested_def BCF_FLUSH_REQUESTED_def example_header_def example_vars_def Let_def)
  moreover have "FlushBlockList_begin example_vars ?st = ?st"
    by (simp add: FlushBlockList_begin_def segment_blocks_def example_vars_def ClearDirtyPending_def example_header_def BCF_DIRTY_PENDING_def)
  moreover have "DiskCacheFlusher_round (FromNative 0) 9 (example_state (example_header 0 one_block 5) 1) =
      DiskCacheFlusher_continue 9 (FlushBlockList_start (FromNative 0) [4095] ?st) ?st"
    by (simp add: DiskCacheFlusher_round_def c del: DiskCacheFlusher_collect.simps)
  ultimately show ?thesis
    by (simp add: DiskCacheFlusher_continue_def)
qed

lemma example_resume:
  "DiskCacheFlusher_resume ok 9 example_vars (example_state (example_header 0 one_block 13) 1) =
     (Idle, if ok then example_state (example_header 0 one_block 0) 0
       else (example_state (example_header 0 one_block 0) 0)\<lparr>s_FlushingRequestWaiters := [9]\<rparr>)"
proof -
  let ?v = "flush_next_block (flush_next_segment (example_vars\<lparr>anythingFlushed := ok\<rparr>))"
  have "FlushBlockList_end ok example_vars (example_state (example_header 0 one_block 13) 1) = (example_state (example_header 0 one_block 0) 0, ?v)"
    by (simp add: FlushBlockList_end_def segment_blocks_def flush_block_done_def example_vars_def IsDirtyPending_def SetDirty_def
        SetFlushRequested_def SetIsFlushing_def BCF_DIRTY_def BCF_DIRTY_PENDING_def BCF_FLUSH_REQUESTED_def BCF_IS_FLUSHING_def example_header_def)
  moreover have "FlushBlockList_scan (example_state (example_header 0 one_block 0) 0) ?v = (False, ?v)"
    by (simp add: FlushBlockList_scan.simps example_vars_def)
  ultimately show ?thesis
    by (simp add: DiskCacheFlusher_resume_def DiskCacheFlusher_continue_def DiskCacheFlusher_finish_def example_vars_def
        SetIsFlushing_def BCF_IS_FLUSHING_def example_header_def)
      (simp add: example_state_def)
qed

lemma example_run:
  "cache_run 0 (cache_start 0 3 100 zero_disk) [Loaded 7 zero_block, Stored 7 one_block]
     (example_sys (example_header 0 one_block 13) 1 zero_disk (Writing example_vars) {} {})"
proof -
  have "cache_step 0 (example_sys (example_header 0 one_block 5) 1 zero_disk Idle {4095} {}) []
      (example_sys (example_header 0 one_block 13) 1 zero_disk (Writing example_vars) {} {})"
    using cache_step.round [of "example_sys (example_header 0 one_block 5) 1 zero_disk Idle {4095} {}" "FromNative 0" 9, OF _ _, of _ _ 0]
    by (simp add: example_sys_def example_round)
  note steps = example_get example_store example_mark example_release example_flush this
  note run = cache_run.step
  show ?thesis
    using run [OF run [OF run [OF run [OF run [OF run [OF cache_run.start steps(1)] steps(2)] steps(3)] steps(4)] steps(5)] steps(6)] by simp
qed

lemma cache_is_memory_witness:
  "cache_run 0 (cache_start 0 3 100 zero_disk) [Loaded 7 zero_block, Stored 7 one_block]
     (example_sys (example_header 0 one_block 13) 1 zero_disk (Writing example_vars) {} {}) \<and>
   loads_ok (\<lambda>n. {zero_disk 3 n}) [Loaded 7 zero_block, Stored 7 one_block]"
  by (intro conjI example_run, rule cache_is_memory [OF example_run]) (simp_all add: zero_disk_def zero_block_def)

lemma example_written:
  "cache_run 0 (cache_start 0 3 100 zero_disk) [Loaded 7 zero_block, Stored 7 one_block]
     (example_sys (example_header 0 one_block 0) 0 (zero_disk(3 := (zero_disk 3)(7 := one_block))) Idle {} {})"
proof -
  let ?s = "example_sys (example_header 0 one_block 13) 1 zero_disk (Writing example_vars) {} {}"
  let ?disk = "zero_disk(3 := (zero_disk 3)(7 := one_block))"
  have "device_written (sys_state ?s) example_vars {} zero_disk ?disk"
    by (auto simp: device_written_def example_sys_def example_vars_def example_header_def zero_disk_def zero_block_def one_block_def)
  then have "cache_step 0 ?s [] (example_sys (example_header 0 one_block 0) 0 ?disk Idle {} {})"
    using cache_step.written [of ?s example_vars ?disk 9 Idle "example_state (example_header 0 one_block 0) 0" 0]
    by (simp add: example_sys_def example_resume)
  from cache_run.step [OF example_run this] show ?thesis by simp
qed

lemma cache_clean_means_saved_witness:
  "\<exists>s. cache_run 0 (cache_start 0 3 100 zero_disk) [Loaded 7 zero_block, Stored 7 one_block] s \<and> sys_disk s 3 7 = one_block"
proof -
  let ?s = "example_sys (example_header 0 one_block 0) 0 (zero_disk(3 := (zero_disk 3)(7 := one_block))) Idle {} {}"
  have "sys_disk ?s 3 7 \<in> contents_after (\<lambda>n. {zero_disk 3 n}) [Loaded 7 zero_block, Stored 7 one_block] 7"
    using cache_clean_means_saved [OF example_written, of 7] by (simp add: zero_disk_def zero_block_def example_sys_def)
  with example_written show ?thesis by auto
qed

end
