(* ===== verification/BlockCacheFaults.thy ===== *)
theory BlockCacheFaults
  imports BlockCacheMemory
begin

text \<open>
  Two situations in which the block cache is not an array of blocks: a write of the flushing thread that fails, and two devices that share the
  pool.
\<close>

section \<open>A write that fails\<close>

text \<open>
  C40. When the device fails to write a segment, the flushing thread still marks the blocks of the segment clean, although their contents are not on the device: the
  exception is caught and logged, and what follows the \<open>catch\<close> is the same as after a success. From then on nothing writes them, and they may be
  evicted.
\<close>

theorem failed_write_forgotten:
  assumes "pool_ok c st" "flush_ok st v" "FlushBlockList_end False v st = (st', v')"
    and "b \<in> set (segment_blocks v)" "\<not> IsDirtyPending (header st b)"
  shows "IsDirty (header st b) \<and> \<not> IsDirty (header st' b) \<and> s_DirtyBlockCount st' < s_DirtyBlockCount st"
proof -
  note p = pool_okD [OF assms(1)]
  let ?D = "dirty_blocks st - (set (segment_blocks v) - pending_blocks st)"
  have s: "dirty_blocks st' = ?D" "dirty_counted st'"
  proof -
    have "dirty_blocks st' = dirty_blocks (fold flush_block_done (segment_blocks v) st)"
      "s_DirtyBlockCount st' = s_DirtyBlockCount (fold flush_block_done (segment_blocks v) st)"
      using assms(3) by (cases "requiredSegment v"; auto simp: FlushBlockList_end_def Let_def dirty_blocks_def)+
    then show "dirty_blocks st' = ?D" "dirty_counted st'"
      using flush_blocks_done_flags(4) [OF p(11), of "segment_blocks v"] by (simp_all add: flush_blocks_done_flags(2) dirty_counted_def)
  qed
  have b: "b \<in> dirty_blocks st" "b \<notin> ?D"
    using segment_blocks_dirty(1) [OF assms(2)] assms(4,5) by (auto simp: pending_blocks_def)
  have "card ?D < card (dirty_blocks st)"
    using b p(11) by (intro psubset_card_mono) (auto simp: dirty_counted_def)
  then have "s_DirtyBlockCount st' < s_DirtyBlockCount st"
    using s p(11) by (simp add: dirty_counted_def)
  moreover have "IsDirty (header st b)" "\<not> IsDirty (header st' b)"
    using b unfolding s(1) [symmetric] by (simp_all add: dirty_blocks_def)
  ultimately show ?thesis by simp
qed

lemma failed_write_forgotten_witness:
  "\<exists>st'. DiskCacheFlusher_resume False 9 example_vars (example_state (example_header 0 one_block 13) 1) = (Idle, st') \<and>
     \<not> IsDirty (header st' 4095) \<and> zero_disk 3 7 \<noteq> m_Data (header st' 4095) \<and> fst (Sync 2 st') = Some True"
proof -
  let ?st = "example_state (example_header 0 one_block 13) 1"
  obtain st' v' where e: "FlushBlockList_end False example_vars ?st = (st', v')" by force
  obtain mem believed where "cache_tracks 0 mem believed (example_sys (example_header 0 one_block 13) 1 zero_disk (Writing example_vars) {} {})"
    using cache_run_ok [OF example_run cache_start_tracks] by (auto simp: zero_disk_def zero_block_def)
  note inv = cache_tracksD(1,3) [OF this]
  have "s_DirtyBlockCount st' < s_DirtyBlockCount ?st \<and> \<not> IsDirty (header st' 4095)"
  proof -
    have "pool_ok 0 ?st" "flush_ok ?st example_vars" "4095 \<in> set (segment_blocks example_vars)" "\<not> IsDirtyPending (header ?st 4095)"
      using inv by (simp_all add: example_sys_def writing_ok_def segment_blocks_def example_vars_def
          example_header_def IsDirtyPending_def BCF_DIRTY_PENDING_def)
    from failed_write_forgotten [OF this(1,2) e this(3,4)] show ?thesis by simp
  qed
  then show ?thesis
    using example_resume [of False]
    by (auto simp: Sync_def FlushInternal_def example_state_def example_header_def zero_disk_def zero_block_def one_block_def BUFFER_BLOCK_SIZE_def)
qed

section \<open>Two devices\<close>

text \<open>
  Two caches on an idle pool: the object at address 0 for device \<open>dA\<close>, the object at address 1 for \<open>dB\<close>. \<open>filled k\<close> is the pool after the first
  \<open>k\<close> blocks of \<open>dA\<close> have been read.
\<close>

definition two_caches :: "int \<Rightarrow> int \<Rightarrow> cache_state" where
  "two_caches dA dB = snd (SetDevice 1 dB 100000 BUFFER_BLOCK_SIZE (snd (SetDevice 0 dA 100000 BUFFER_BLOCK_SIZE Initialize)))"

definition device_cache :: "int \<Rightarrow> (int \<rightharpoonup> block_ref) \<Rightarrow> KBlockCache" where
  "device_cache device blocks = \<lparr>m_CacheDevice = device, m_BlockSize = BUFFER_BLOCK_SIZE, m_BlockCount = 100000, m_BlocksPerBuffer = 1,
     m_BlockToBufferShift = 0, m_BufferOffsetMask = 0, m_BlockMap = blocks\<rparr>"

definition fill_block :: "nat \<Rightarrow> block_ref" where
  "fill_block i = 4095 - i"

definition filled :: "(int \<Rightarrow> int \<Rightarrow> u8 list) \<Rightarrow> int \<Rightarrow> int \<Rightarrow> nat \<Rightarrow> cache_state \<Rightarrow> bool" where
  "filled disk dA dB k st \<longleftrightarrow>
     s_FreeList st = [0..<4096 - k] \<and> s_MRUList st = map fill_block [0..<k] \<and>
     (\<forall>i < k. let h = header st (fill_block i) in m_UseCount h = 0 \<and> m_Flags h = 0 \<and> m_bufferNumber h = int i \<and> m_Data h = disk dA (int i)) \<and>
     (\<exists>blocks. cache_objects st 0 = device_cache dA blocks \<and> (\<forall>n. blocks n = (if 0 \<le> n \<and> n < int k then Some (fill_block (nat n)) else None))) \<and>
     cache_objects st 1 = device_cache dB Map.empty"

lemma filled_start:
  assumes "dA \<noteq> dB" "dA \<noteq> - 1" "dB \<noteq> - 1"
  shows "filled disk dA dB 0 (two_caches dA dB)"
  using assms
  by (simp add: filled_def two_caches_def SetDevice_def Initialize_def Let_def KBlockCache_new_def buffer_layout_def BUFFER_BLOCK_SIZE_def
      device_cache_def KBLOCK_CACHE_BLOCK_COUNT_def del: upt_rec_numeral)

definition whole_reads :: "(int \<Rightarrow> int \<Rightarrow> u8 list) \<Rightarrow> kpread" where
  "whole_reads disk = (\<lambda>d n. (disk d n, Inr (int BUFFER_BLOCK_SIZE)))"

lemma device_cache_layout [simp]:
  "buffer_number (device_cache d blocks) n = n" "block_offset (device_cache d blocks) n = 0" "m_BlockSize (device_cache d blocks) = BUFFER_BLOCK_SIZE"
  "m_BlockMap (device_cache d blocks) = blocks" "m_CacheDevice (device_cache d blocks) = d"
  "device_cache d blocks\<lparr>m_BlockMap := blocks'\<rparr> = device_cache d blocks'"
  by (simp_all add: buffer_number_def block_offset_def device_cache_def)

text \<open>Reading one block, when the first pass finds it.\<close>

lemma GetBlock_trw_found:
  assumes "GetBlock_try kpread thread c (buffer_number (cache_objects st c) n) (block_offset (cache_objects st c) n) st = (Found desc, st')"
  shows "GetBlock_trw kpread others thread c n st = (Inr desc, st')"
  using assms by (simp add: GetBlock_trw_def Let_def eval_nat_numeral)

lemma filled_step:
  assumes f: "filled disk dA dB k st" and k: "k < 4096" and len: "\<And>d n. length (disk d n) = BUFFER_BLOCK_SIZE"
  obtains st' where "GetBlock_trw (whole_reads disk) others thread 0 (int k) st = (Inr (KCacheBlockDesc_of (fill_block k) 0), st')"
    "buffer_bytes (KCacheBlockDesc_of (fill_block k) 0) BUFFER_BLOCK_SIZE st' = disk dA (int k)"
    "filled disk dA dB (Suc k) (KCacheBlockDesc_destroy (KCacheBlockDesc_of (fill_block k) 0) st')"
    "m_BlockSize (cache_objects st' 0) = BUFFER_BLOCK_SIZE"
proof -
  let ?b = "fill_block k"
  obtain blocks where c0: "cache_objects st 0 = device_cache dA blocks"
    and blocks: "\<And>n. blocks n = (if 0 \<le> n \<and> n < int k then Some (fill_block (nat n)) else None)"
    using f by (auto simp: filled_def)
  have n: "4096 - k = Suc (4095 - k)" using k by simp
  have free: "s_FreeList st = [0..<4095 - k] @ [?b]"
    using f by (simp add: filled_def n fill_block_def)
  let ?h = "(header st ?b)\<lparr>m_Data := disk dA (int k), m_UseCount := 1, m_Flags := 0, m_Device := dA, m_bufferNumber := int k\<rparr>"
  define st' where "st' = update_cache 0 (\<lambda>cache. cache\<lparr>m_BlockMap := (m_BlockMap cache)(int k \<mapsto> ?b)\<rparr>)
    (update_header ?b (\<lambda>h. ?h) (st\<lparr>s_FreeList := [0..<4095 - k], s_MRUList := s_MRUList st @ [?b]\<rparr>))"
  have t: "GetBlock_try (whole_reads disk) thread 0 (int k) 0 st = (Found (KCacheBlockDesc_of ?b 0), st')"
    by (cases st) (use c0 free in \<open>simp add: GetBlock_try_def blocks GetBlock_load_def whole_reads_def Let_def st'_def update_header_def update_cache_def\<close>)
  show ?thesis
  proof (rule that)
    show "GetBlock_trw (whole_reads disk) others thread 0 (int k) st = (Inr (KCacheBlockDesc_of ?b 0), st')"
      using t by (intro GetBlock_trw_found) (simp add: c0)
    show "buffer_bytes (KCacheBlockDesc_of ?b 0) BUFFER_BLOCK_SIZE st' = disk dA (int k)"
      by (simp add: buffer_bytes_def KCacheBlockDesc_of_def st'_def len)
    show "m_BlockSize (cache_objects st' 0) = BUFFER_BLOCK_SIZE" by (simp add: st'_def c0)
    let ?st = "KCacheBlockDesc_destroy (KCacheBlockDesc_of ?b 0) st'"
    have st: "s_FreeList ?st = [0..<4095 - k]" "s_MRUList ?st = map fill_block [0..<Suc k]"
        "header ?st = (header st)(?b := ?h\<lparr>m_UseCount := 0\<rparr>)" "cache_objects ?st 1 = cache_objects st 1"
        "cache_objects ?st 0 = device_cache dA (blocks(int k \<mapsto> ?b))"
      using f by (simp_all add: KCacheBlockDesc_destroy_def KCacheBlockDesc_of_def RemoveRef_def st'_def c0 filled_def fun_eq_iff)
    have ne: "fill_block i \<noteq> ?b" if "i < k" for i using that k by (simp add: fill_block_def)
    show "filled disk dA dB (Suc k) ?st"
      unfolding filled_def st
    proof (intro conjI allI impI exI)
      show "[0..<4095 - k] = [0..<4096 - Suc k]" using k by (simp add: Suc_diff_Suc numeral_eq_Suc)
      show "let h = ((header st)(?b := ?h\<lparr>m_UseCount := 0\<rparr>)) (fill_block i) in
          m_UseCount h = 0 \<and> m_Flags h = 0 \<and> m_bufferNumber h = int i \<and> m_Data h = disk dA (int i)" if "i < Suc k" for i
        using f that ne by (cases "i = k") (auto simp: filled_def Let_def)
      show "device_cache dA (blocks(int k \<mapsto> ?b)) = device_cache dA (blocks(int k \<mapsto> ?b))" ..
      show "(blocks(int k \<mapsto> ?b)) n = (if 0 \<le> n \<and> n < int (Suc k) then Some (fill_block (nat n)) else None)" for n
        by (auto simp: blocks)
      show "cache_objects st 1 = device_cache dB Map.empty" using f by (simp add: filled_def)
    qed simp_all
  qed
qed

lemma filled_read:
  assumes "filled disk dA dB k st" "k + count \<le> 4096" and len: "\<And>d n. length (disk d n) = BUFFER_BLOCK_SIZE"
  shows "\<exists>st'. CachedRead_trw (whole_reads disk) others thread 0 (int k) count st =
      (Inr (concat (map (\<lambda>i. disk dA (int i)) [k..<k + count])), st') \<and> filled disk dA dB (k + count) st'"
  using assms(1,2)
proof (induction count arbitrary: k st)
  case (Suc count)
  have k: "k < 4096" using Suc.prems(2) by simp
  obtain st1 where st1: "GetBlock_trw (whole_reads disk) others thread 0 (int k) st = (Inr (KCacheBlockDesc_of (fill_block k) 0), st1)"
    "buffer_bytes (KCacheBlockDesc_of (fill_block k) 0) BUFFER_BLOCK_SIZE st1 = disk dA (int k)"
    "filled disk dA dB (Suc k) (KCacheBlockDesc_destroy (KCacheBlockDesc_of (fill_block k) 0) st1)"
    "m_BlockSize (cache_objects st1 0) = BUFFER_BLOCK_SIZE"
    by (rule filled_step [OF Suc.prems(1) k len])
  obtain st2 where st2: "CachedRead_trw (whole_reads disk) others thread 0 (int (Suc k)) count
      (KCacheBlockDesc_destroy (KCacheBlockDesc_of (fill_block k) 0) st1) =
      (Inr (concat (map (\<lambda>i. disk dA (int i)) [Suc k..<Suc k + count])), st2)" "filled disk dA dB (Suc k + count) st2"
    using Suc.IH [OF st1(3)] Suc.prems(2) by auto
  have "[k..<k + Suc count] = k # [Suc k..<Suc k + count]" by (simp add: upt_rec)
  with st1 st2 show ?case by (simp add: Let_def add.commute)
qed simp

text \<open>
  C39. The pool is shared by all devices, but evicting a buffer removes its entry from the map of the cache that evicts, not from the map of the cache
  the buffer belongs to. After reading 4096 blocks of one device and one block of another, reading the first block of the first device again gives
  the block of the other device.
\<close>

theorem cache_cross_device_read:
  assumes "dA \<noteq> dB" "dA \<noteq> - 1" "dB \<noteq> - 1" and len: "\<And>d n. length (disk d n) = BUFFER_BLOCK_SIZE"
  shows "let (r1, st1) = CachedRead_trw (whole_reads disk) others thread 0 0 4096 (two_caches dA dB);
             (r2, st2) = CachedRead_trw (whole_reads disk) others thread 1 0 1 st1;
             (r3, st3) = CachedRead_trw (whole_reads disk) others thread 0 0 1 st2 in
         r1 = Inr (concat (map (\<lambda>i. disk dA (int i)) [0..<4096])) \<and> r2 = Inr (disk dB 0) \<and> r3 = Inr (disk dB 0)"
proof -
  obtain st1 where r: "CachedRead_trw (whole_reads disk) others thread 0 (int 0) 4096 (two_caches dA dB) =
      (Inr (concat (map (\<lambda>i. disk dA (int i)) [0..<0 + 4096])), st1)" and f: "filled disk dA dB (0 + 4096) st1"
    using filled_read [where disk = disk and others = others and thread = thread and count = 4096, OF filled_start [OF assms(1-3)] _ len]
    by (metis add_0 le_refl)
  have zero: "int 0 = 0" by simp
  have r1: "CachedRead_trw (whole_reads disk) others thread 0 0 4096 (two_caches dA dB) =
      (Inr (concat (map (\<lambda>i. disk dA (int i)) [0..<4096])), st1)"
    using r unfolding zero add_0 .
  have mru: "s_MRUList st1 = 4095 # map fill_block [Suc 0..<4096]"
  proof -
    have "s_MRUList st1 = map fill_block [0..<4096]"
      using f unfolding filled_def add_0 by (elim conjE)
    also have "\<dots> = 4095 # map fill_block [Suc 0..<4096]"
      using upt_conv_Cons [of 0 4096] by (simp add: fill_block_def del: upt_rec_numeral upt_Suc)
    finally show ?thesis .
  qed
  have h: "m_UseCount (header st1 4095) = 0" "m_Flags (header st1 4095) = 0" "m_bufferNumber (header st1 4095) = 0"
    using f by (auto simp: filled_def fill_block_def Let_def dest: spec [of _ 0])
  obtain blocks where c: "cache_objects st1 0 = device_cache dA blocks" "blocks 0 = Some 4095" "cache_objects st1 1 = device_cache dB Map.empty"
    and free: "s_FreeList st1 = []"
    using f by (auto simp: filled_def fill_block_def)
  let ?h = "(header st1 4095)\<lparr>m_Data := disk dB 0, m_UseCount := 1, m_Flags := 0, m_Device := dB, m_bufferNumber := 0\<rparr>"
  obtain st2 where g: "GetBlock_try (whole_reads disk) thread 1 0 0 st1 = (Found (KCacheBlockDesc_of 4095 0), st2)"
    and st2: "header st2 4095 = ?h" "cache_objects st2 0 = device_cache dA blocks" "m_BlockSize (cache_objects st2 1) = BUFFER_BLOCK_SIZE"
    by (simp add: GetBlock_try_def c free mru h flag_bits(1,4) GetBlock_load_def GetBlock_evict_def whole_reads_def Let_def del: upt_rec_numeral One_nat_def)
  have r2: "CachedRead_trw (whole_reads disk) others thread 1 0 1 st1 = (Inr (disk dB 0), KCacheBlockDesc_destroy (KCacheBlockDesc_of 4095 0) st2)"
  proof -
    have "GetBlock_trw (whole_reads disk) others thread 1 0 st1 = (Inr (KCacheBlockDesc_of 4095 0), st2)"
      using g by (intro GetBlock_trw_found) (simp add: c del: One_nat_def)
    then show ?thesis using st2(3) by (simp add: Let_def st2(1) buffer_bytes_def KCacheBlockDesc_of_def len)
  qed
  let ?st2 = "KCacheBlockDesc_destroy (KCacheBlockDesc_of 4095 0) st2"
  have st2': "m_Data (header ?st2 4095) = disk dB 0" "cache_objects ?st2 0 = device_cache dA blocks"
    by (simp_all add: KCacheBlockDesc_destroy_def KCacheBlockDesc_of_def RemoveRef_def Let_def st2)
  obtain st3 where g3: "GetBlock_try (whole_reads disk) thread 0 0 0 ?st2 = (Found (KCacheBlockDesc_of 4095 0), st3)"
    and st3: "m_Data (header st3 4095) = disk dB 0" "m_BlockSize (cache_objects st3 0) = BUFFER_BLOCK_SIZE"
    by (simp add: GetBlock_try_def st2' c(2) GetBlock_hit_def AddRef_def Let_def)
  have r3: "fst (CachedRead_trw (whole_reads disk) others thread 0 0 1 ?st2) = Inr (disk dB 0)"
  proof -
    have "GetBlock_trw (whole_reads disk) others thread 0 0 ?st2 = (Inr (KCacheBlockDesc_of 4095 0), st3)"
      using g3 by (intro GetBlock_trw_found) (simp add: st2')
    then show ?thesis by (simp add: Let_def st3 buffer_bytes_def KCacheBlockDesc_of_def len)
  qed
  then obtain st4 where "CachedRead_trw (whole_reads disk) others thread 0 0 1 ?st2 = (Inr (disk dB 0), st4)"
    by (metis fst_conv surj_pair)
  then show ?thesis by (simp add: r1 r2 Let_def del: upt_rec_numeral CachedRead_trw.simps One_nat_def)
qed

lemma cache_cross_device_read_witness:
  "let disk = (\<lambda>d n. replicate BUFFER_BLOCK_SIZE (word_of_int d));
       (r1, st1) = CachedRead_trw (whole_reads disk) (\<lambda>_ st. st) 5 0 0 4096 (two_caches 3 4);
       (r2, st2) = CachedRead_trw (whole_reads disk) (\<lambda>_ st. st) 5 1 0 1 st1;
       (r3, st3) = CachedRead_trw (whole_reads disk) (\<lambda>_ st. st) 5 0 0 1 st2 in
   r3 = Inr (replicate BUFFER_BLOCK_SIZE 4)"
  using cache_cross_device_read [of 3 4 "\<lambda>d n. replicate BUFFER_BLOCK_SIZE (word_of_int d)" "\<lambda>_ st. st" 5]
  by (auto simp: Let_def split: prod.splits)

end
