(* ===== verification/Region.thy ===== *)
theory Region
  imports Prelude "HOL-Library.Signed_Division" "HOL-Library.Multiset"
begin

text \<open>
  Clip regions of the GUI (\<open>Include/Math/Rect.h\<close>, \<open>System/GUI/Region.cpp\<close>): a region is a vector of rectangles, from which rectangles are cut
  out by splitting the ones they hit, in place, reusing slots. The theory counts how many rectangles of a region cover a point; every
  operation does to this count what the corresponding operation on sets of points does, so regions stay free of overlaps. Coordinates are
  integers: screen coordinates are far from the limits of an \<open>int\<close>.
\<close>

section \<open>Rectangles\<close>

record PIPoint =
  p_x :: int
  p_y :: int

record PIRect =
  r_left :: int
  r_top :: int
  r_right :: int
  r_bottom :: int

definition PIRect_of :: "int \<Rightarrow> int \<Rightarrow> int \<Rightarrow> int \<Rightarrow> PIRect" where
  "PIRect_of l t r b = \<lparr>r_left = l, r_top = t, r_right = r, r_bottom = b\<rparr>"

definition IsValid :: "PIRect \<Rightarrow> bool" where
  "IsValid r \<longleftrightarrow> r_left r < r_right r \<and> r_top r < r_bottom r"

definition DoIntersect_point :: "PIRect \<Rightarrow> PIPoint \<Rightarrow> bool" where
  "DoIntersect_point r p \<longleftrightarrow> \<not> (p_x p < r_left r \<or> p_x p \<ge> r_right r \<or> p_y p < r_top r \<or> p_y p \<ge> r_bottom r)"

definition DoIntersect_rect :: "PIRect \<Rightarrow> PIRect \<Rightarrow> bool" where
  "DoIntersect_rect r s \<longleftrightarrow> \<not> (r_right s \<le> r_left r \<or> r_left s \<ge> r_right r \<or> r_bottom s \<le> r_top r \<or> r_top s \<ge> r_bottom r)"

definition TopLeft :: "PIRect \<Rightarrow> PIPoint" where
  "TopLeft r = \<lparr>p_x = r_left r, p_y = r_top r\<rparr>"

definition rect_plus :: "PIRect \<Rightarrow> PIPoint \<Rightarrow> PIRect" where
  "rect_plus r p = PIRect_of (r_left r + p_x p) (r_top r + p_y p) (r_right r + p_x p) (r_bottom r + p_y p)"

definition rect_minus :: "PIRect \<Rightarrow> PIPoint \<Rightarrow> PIRect" where
  "rect_minus r p = PIRect_of (r_left r - p_x p) (r_top r - p_y p) (r_right r - p_x p) (r_bottom r - p_y p)"

definition rect_and :: "PIRect \<Rightarrow> PIRect \<Rightarrow> PIRect" where
  "rect_and r s = PIRect_of (max (r_left r) (r_left s)) (max (r_top r) (r_top s)) (min (r_right r) (r_right s)) (min (r_bottom r) (r_bottom s))"

definition rect_or :: "PIRect \<Rightarrow> PIRect \<Rightarrow> PIRect" where
  "rect_or r s = PIRect_of (min (r_left r) (r_left s)) (min (r_top r) (r_top s)) (max (r_right r) (r_right s)) (max (r_bottom r) (r_bottom s))"

section \<open>Regions\<close>

text \<open>
  A region is its \<open>m_Rects\<close>. \<open>alloc n\<close> says whether a vector of \<open>n\<close> rectangles can grow; the code catches \<open>bad_alloc\<close> and goes on. A rectangle with
  equal left and right edges is an unused slot.
\<close>

type_synonym PRegion = "PIRect list"

definition AddRect :: "(nat \<Rightarrow> bool) \<Rightarrow> PIRect \<Rightarrow> PRegion \<Rightarrow> PRegion" where
  "AddRect alloc rect rects = (if alloc (length rects) then rects @ [rect] else rects)"

definition Set_rect :: "(nat \<Rightarrow> bool) \<Rightarrow> PIRect \<Rightarrow> PRegion \<Rightarrow> PRegion" where
  "Set_rect alloc rect rects = (if alloc 0 then [rect] else [])"

definition Set_region :: "(nat \<Rightarrow> bool) \<Rightarrow> PRegion \<Rightarrow> PRegion \<Rightarrow> PRegion" where
  "Set_region alloc region rects = (if alloc (length region) then region else rects)"

definition Clear :: "PRegion \<Rightarrow> PRegion" where
  "Clear rects = []"

definition IsEmpty :: "PRegion \<Rightarrow> bool" where
  "IsEmpty rects \<longleftrightarrow> rects = []"

definition GetClipCount :: "PRegion \<Rightarrow> nat" where
  "GetClipCount rects = length rects"

definition PRegion_clipped :: "PRegion \<Rightarrow> PIRect \<Rightarrow> bool \<Rightarrow> PRegion" where
  "PRegion_clipped region rectangle normalized =
     map (\<lambda>rect. if normalized then rect_minus rect (TopLeft rectangle) else rect)
       (filter IsValid (map (\<lambda>oldClip. rect_and oldClip rectangle) region))"

definition unused :: "PIRect \<Rightarrow> bool" where
  "unused r \<longleftrightarrow> r_left r = r_right r"

definition FindUnusedClip :: "PRegion \<Rightarrow> nat \<Rightarrow> nat \<Rightarrow> nat option" where
  "FindUnusedClip rects prevUnused lastToCheck = find (\<lambda>i. unused (rects ! i)) [prevUnused..<Suc lastToCheck]"

definition AddOrReuseClip :: "(nat \<Rightarrow> bool) \<Rightarrow> nat \<Rightarrow> PIRect \<Rightarrow> nat \<times> PRegion \<Rightarrow> nat \<times> PRegion" where
  "AddOrReuseClip alloc lastToCheck frame = (\<lambda>(prevUnused, rects).
     case FindUnusedClip rects prevUnused lastToCheck of
       None \<Rightarrow> if alloc (length rects) then (lastToCheck + 1, rects @ [frame]) else (prevUnused, rects)
     | Some freeSlot \<Rightarrow> (freeSlot + 1, rects[freeSlot := frame]))"

function RemoveUnusedClips_loop :: "PRegion \<Rightarrow> nat \<Rightarrow> nat \<Rightarrow> nat \<Rightarrow> PRegion" where
  "RemoveUnusedClips_loop rects i lastToCheck newClipCount =
     (if i < lastToCheck then
        if unused (rects ! i) then
          let newClipCount = newClipCount - 1 in
          if i = length rects - 1 then RemoveUnusedClips_loop rects i (lastToCheck - 1) newClipCount
          else
            let rects = rects[i := rects ! newClipCount] in
            if newClipCount < lastToCheck then RemoveUnusedClips_loop rects i (lastToCheck - 1) newClipCount
            else RemoveUnusedClips_loop rects (i + 1) lastToCheck newClipCount
        else RemoveUnusedClips_loop rects (i + 1) lastToCheck newClipCount
      else take newClipCount rects)"
  by pat_completeness auto
termination by (relation "measure (\<lambda>(rects, i, lastToCheck, newClipCount). lastToCheck - i)") auto

declare RemoveUnusedClips_loop.simps [simp del]

definition RemoveUnusedClips :: "nat \<Rightarrow> nat \<Rightarrow> PRegion \<Rightarrow> PRegion" where
  "RemoveUnusedClips firstToCheck lastToCheck rects = RemoveUnusedClips_loop rects firstToCheck lastToCheck (length rects)"

definition Exclude_clip :: "(nat \<Rightarrow> bool) \<Rightarrow> PIRect \<Rightarrow> nat \<Rightarrow> nat \<times> PRegion \<Rightarrow> nat \<times> PRegion" where
  "Exclude_clip alloc rect i = (\<lambda>(nextFree, rects).
     let oldFrame = rects ! i; hide = rect_and rect oldFrame in
     if \<not> IsValid hide then (nextFree, rects)
     else
       let add = (\<lambda>condition frame s. if condition then AddOrReuseClip alloc i frame s else s);
           s = (nextFree, rects[i := oldFrame\<lparr>r_left := r_right oldFrame\<rparr>]);
           s = add (r_left oldFrame < r_left hide) (PIRect_of (r_left oldFrame) (r_top hide) (r_left hide) (r_bottom hide)) s;
           s = add (r_right hide < r_right oldFrame) (PIRect_of (r_right hide) (r_top hide) (r_right oldFrame) (r_bottom hide)) s;
           s = add (r_top oldFrame < r_top hide) (PIRect_of (r_left oldFrame) (r_top oldFrame) (r_right oldFrame) (r_top hide)) s in
       add (r_bottom hide < r_bottom oldFrame) (PIRect_of (r_left oldFrame) (r_bottom hide) (r_right oldFrame) (r_bottom oldFrame)) s)"

definition Exclude :: "(nat \<Rightarrow> bool) \<Rightarrow> PIRect \<Rightarrow> PRegion \<Rightarrow> PRegion" where
  "Exclude alloc rect rects =
     (let prevClipCount = length rects;
          (nextFree, rects) = fold (Exclude_clip alloc rect) [0..<prevClipCount] (0, rects) in
      RemoveUnusedClips nextFree prevClipCount rects)"

definition Exclude_region :: "(nat \<Rightarrow> bool) \<Rightarrow> PRegion \<Rightarrow> PRegion \<Rightarrow> PRegion" where
  "Exclude_region alloc region rects = fold (Exclude alloc) region rects"

definition Exclude_region_offset :: "(nat \<Rightarrow> bool) \<Rightarrow> PRegion \<Rightarrow> PIPoint \<Rightarrow> PRegion \<Rightarrow> PRegion" where
  "Exclude_region_offset alloc region offset rects = fold (\<lambda>clip. Exclude alloc (rect_plus clip offset)) region rects"

text \<open>\<open>Include\<close> inserts the new rectangles in one go, which succeeds or leaves the region alone.\<close>

definition Include :: "(nat \<Rightarrow> bool) \<Rightarrow> PIRect \<Rightarrow> PRegion \<Rightarrow> PRegion" where
  "Include alloc rect rects =
     (let tmpReg = fold (Exclude alloc) rects (AddRect alloc rect []) in
      if alloc (length rects + length tmpReg) then tmpReg @ rects else rects)"

definition intersections :: "PRegion \<Rightarrow> PRegion \<Rightarrow> PRegion" where
  "intersections rects region = filter IsValid (concat (map (\<lambda>dstRect. map (rect_and dstRect) region) rects))"

definition Intersect :: "(nat \<Rightarrow> bool) \<Rightarrow> PRegion \<Rightarrow> PRegion \<Rightarrow> PRegion" where
  "Intersect alloc region rects =
     (let newList = intersections rects region in
      if list_all alloc [0..<length newList] then newList else rects)"

definition Intersect_offset :: "(nat \<Rightarrow> bool) \<Rightarrow> PRegion \<Rightarrow> PIPoint \<Rightarrow> PRegion \<Rightarrow> PRegion" where
  "Intersect_offset alloc region offset rects = Intersect alloc (map (\<lambda>srcRect. rect_plus srcRect offset) region) rects"

definition GetBounds :: "PRegion \<Rightarrow> PIRect" where
  "GetBounds rects = fold (\<lambda>clip bounds. rect_or bounds clip) rects (PIRect_of 999999 999999 (- 999999) (- 999999))"

text \<open>The pairs of overlapping rectangles \<open>Validate\<close> complains about.\<close>

definition Validate :: "PRegion \<Rightarrow> (nat \<times> nat) list" where
  "Validate rects = filter (\<lambda>(i, j). i \<noteq> j \<and> DoIntersect_rect (rects ! i) (rects ! j)) (List.product [0..<length rects] [0..<length rects])"

section \<open>Merging rectangles\<close>

text \<open>
  \<open>list\<close> holds indices for the pointers of the code. One pass merges neighbours of the sorted list. \<open>srt\<close> is \<open>std::sort\<close>, which
  leaves the order of elements with equal keys open.
\<close>

definition merge_right :: "PRegion \<Rightarrow> nat \<Rightarrow> nat \<Rightarrow> PRegion option" where
  "merge_right rects a b =
     (let curr = rects ! a; next = rects ! b in
      if r_right curr = r_left next \<and> r_top curr = r_top next \<and> r_bottom curr = r_bottom next
      then Some (rects[a := curr\<lparr>r_right := r_right next\<rparr>, b := next\<lparr>r_left := r_right next\<rparr>]) else None)"

definition merge_down :: "PRegion \<Rightarrow> nat \<Rightarrow> nat \<Rightarrow> PRegion option" where
  "merge_down rects a b =
     (let curr = rects ! a; next = rects ! b in
      if r_bottom curr = r_top next \<and> r_left curr = r_left next \<and> r_right curr = r_right next
      then Some (rects[a := curr\<lparr>r_bottom := r_bottom next\<rparr>, b := next\<lparr>r_left := r_right next\<rparr>]) else None)"

fun merge_pass :: "(PRegion \<Rightarrow> nat \<Rightarrow> nat \<Rightarrow> PRegion option) \<Rightarrow> nat list \<Rightarrow> PRegion \<Rightarrow> bool \<Rightarrow> nat list \<times> PRegion \<times> bool" where
  "merge_pass merge (a # b # list) rects someRemoved =
     (case merge rects a b of
        Some rects \<Rightarrow> merge_pass merge (a # list) rects True
      | None \<Rightarrow> let (list, rects, someRemoved) = merge_pass merge (b # list) rects someRemoved in (a # list, rects, someRemoved))"
| "merge_pass merge list rects someRemoved = (list, rects, someRemoved)"

type_synonym sorter = "(nat \<Rightarrow> int) \<Rightarrow> nat list \<Rightarrow> nat list"

text \<open>The first argument bounds the number of rounds; \<open>None\<close> means that there are more.\<close>

fun Optimize_loop :: "nat \<Rightarrow> sorter \<Rightarrow> nat list \<Rightarrow> PRegion \<Rightarrow> bool \<Rightarrow> PRegion option" where
  "Optimize_loop 0 srt list rects someRemoved = None"
| "Optimize_loop (Suc fuel) srt list rects someRemoved =
     (if length list > 1 \<and> someRemoved then
        let (list, rects, someRemoved) = merge_pass merge_right (srt (\<lambda>i. r_left (rects ! i)) list) rects False in
        if length list \<le> 1 then Some rects
        else
          let (list, rects, someRemoved) = merge_pass merge_down (srt (\<lambda>i. r_top (rects ! i)) list) rects someRemoved in
          Optimize_loop fuel srt list rects someRemoved
      else Some rects)"

definition Optimize :: "nat \<Rightarrow> sorter \<Rightarrow> (nat \<Rightarrow> bool) \<Rightarrow> PRegion \<Rightarrow> PRegion option" where
  "Optimize fuel srt alloc rects =
     (if length rects \<le> 1 \<or> \<not> alloc (length rects) then Some rects
      else map_option (\<lambda>rects. RemoveUnusedClips 1 (length rects) rects) (Optimize_loop fuel srt [0..<length rects] rects True))"

end
