(* ===== verification/RegionCover.thy ===== *)
theory RegionCover
  imports Region
begin

text \<open>
  How many rectangles of a region cover a point, and what cutting out a rectangle (\<open>PRegion::Exclude\<close>, \<open>System/GUI/Region.cpp\<close>) does to this number.
\<close>

section \<open>Counting covers\<close>

text \<open>How many rectangles of a region contain a point. The empty slots count for nothing.\<close>

definition covers :: "PIRect \<Rightarrow> PIPoint \<Rightarrow> nat" where
  "covers r p = (if DoIntersect_point r p then 1 else 0)"

definition cover :: "PRegion \<Rightarrow> PIPoint \<Rightarrow> nat" where
  "cover rects p = sum_list (map (\<lambda>r. covers r p) rects)"

definition region_points :: "PRegion \<Rightarrow> PIPoint set" where
  "region_points rects = {p. cover rects p > 0}"

definition rect_points :: "PIRect \<Rightarrow> PIPoint set" where
  "rect_points r = {p. DoIntersect_point r p}"

definition slot_ok :: "PIRect \<Rightarrow> bool" where
  "slot_ok r \<longleftrightarrow> unused r \<or> IsValid r"

definition region_ok :: "PRegion \<Rightarrow> bool" where
  "region_ok rects \<longleftrightarrow> list_all slot_ok rects \<and> (\<forall>p. cover rects p \<le> 1)"

lemma cover_simps [simp]:
  "cover [] p = 0" "cover (r # rects) p = covers r p + cover rects p" "cover (rects @ rects') p = cover rects p + cover rects' p"
  by (simp_all add: cover_def)

lemma cover_pos: "cover rects p > 0 \<longleftrightarrow> (\<exists>r \<in> set rects. DoIntersect_point r p)"
  by (induction rects) (auto simp: covers_def)

lemma cover_update: "i < length rects \<Longrightarrow> cover (rects[i := r]) p + covers (rects ! i) p = cover rects p + covers r p"
  by (induction rects arbitrary: i) (auto split: nat.split)

lemma covers_unused [simp]: "unused r \<Longrightarrow> covers r p = 0"
  by (auto simp: covers_def unused_def DoIntersect_point_def)

lemma covers_invalid: "\<not> IsValid r \<Longrightarrow> covers r p = 0"
  by (auto simp: covers_def IsValid_def DoIntersect_point_def)

lemma IsValid_used: "IsValid r \<Longrightarrow> \<not> unused r"
  by (simp add: IsValid_def unused_def)

lemma rect_select [simp]:
  "r_left (PIRect_of l t r b) = l" "r_top (PIRect_of l t r b) = t" "r_right (PIRect_of l t r b) = r" "r_bottom (PIRect_of l t r b) = b"
  by (simp_all add: PIRect_of_def)

lemma DoIntersect_and: "DoIntersect_point (rect_and r s) p \<longleftrightarrow> DoIntersect_point r p \<and> DoIntersect_point s p"
  by (auto simp: DoIntersect_point_def rect_and_def)

lemma covers_and: "covers (rect_and r s) p = covers r p * covers s p"
  by (simp add: covers_def DoIntersect_and)

section \<open>Cutting out a rectangle\<close>

lemma FindUnusedClip_Some:
  assumes "FindUnusedClip rects n i = Some j"
  shows "n \<le> j" "j \<le> i" "unused (rects ! j)" "\<And>k. n \<le> k \<Longrightarrow> k < j \<Longrightarrow> \<not> unused (rects ! k)"
proof -
  obtain m where m: "m < Suc i - n" "unused (rects ! (n + m))" "j = n + m" "\<And>l. l < m \<Longrightarrow> \<not> unused (rects ! (n + l))"
    using assms unfolding FindUnusedClip_def find_Some_iff by (auto simp del: upt_Suc)
  then show "n \<le> j" "j \<le> i" "unused (rects ! j)" by auto
  show "\<not> unused (rects ! k)" if "n \<le> k" "k < j" for k
    using m(4) [of "k - n"] that m(3) by simp
qed

lemma FindUnusedClip_None: "FindUnusedClip rects n i = None \<Longrightarrow> n \<le> k \<Longrightarrow> k \<le> i \<Longrightarrow> \<not> unused (rects ! k)"
  unfolding FindUnusedClip_def find_None_iff by (auto simp del: upt_Suc)

text \<open>
  The state of the loop before clip \<open>i\<close>: slots below \<open>nextFree\<close> are in use, the clips before \<open>i\<close> and the added ones are clear of the
  rectangle, and the others are as they were.
\<close>

definition clear_of :: "PIRect \<Rightarrow> PIRect \<Rightarrow> bool" where
  "clear_of rect r \<longleftrightarrow> IsValid r \<and> (\<forall>p. DoIntersect_point rect p \<longrightarrow> \<not> DoIntersect_point r p)"

definition exclude_shape :: "PIRect \<Rightarrow> PRegion \<Rightarrow> nat \<Rightarrow> nat \<times> PRegion \<Rightarrow> bool" where
  "exclude_shape rect rects0 i = (\<lambda>(n, rects).
     length rects0 \<le> length rects \<and> i \<le> length rects0 \<and> n \<le> i \<and> (\<forall>k < n. \<not> unused (rects ! k)) \<and>
     (\<forall>k < length rects. if k < i then unused (rects ! k) \<or> clear_of rect (rects ! k)
        else if k < length rects0 then rects ! k = rects0 ! k else clear_of rect (rects ! k)))"

lemma clear_of_used: "clear_of rect r \<Longrightarrow> \<not> unused r"
  by (simp add: clear_of_def IsValid_used)

lemma AddOrReuseClip_step:
  assumes s: "exclude_shape rect rects0 (Suc i) (n, rects)" and frame: "clear_of rect frame"
    and r: "AddOrReuseClip alloc i frame (n, rects) = (n', rects')"
  shows "exclude_shape rect rects0 (Suc i) (n', rects')" "cover rects' p \<le> cover rects p + covers frame p"
    "(\<And>m. alloc m) \<Longrightarrow> cover rects' p = cover rects p + covers frame p"
proof -
  have "exclude_shape rect rects0 (Suc i) (n', rects') \<and> cover rects' p \<le> cover rects p + covers frame p \<and>
    ((\<forall>m. alloc m) \<longrightarrow> cover rects' p = cover rects p + covers frame p)"
  proof (cases "FindUnusedClip rects n i")
    case None
    have u: "\<not> unused (rects ! k)" if "k \<le> i" for k
      using FindUnusedClip_None [OF None, of k] s that by (cases "k < n") (auto simp: exclude_shape_def)
    show ?thesis
      using s r None frame u by (auto simp: AddOrReuseClip_def exclude_shape_def nth_append less_Suc_eq_le split: if_splits)
  next
    case (Some j)
    note f = FindUnusedClip_Some [OF Some]
    have u: "\<not> unused (rects ! k)" if "k < j" for k
      using f(4) [of k] s that by (cases "k < n") (auto simp: exclude_shape_def)
    have j: "j < length rects" "n' = Suc j" "rects' = rects[j := frame]"
      using s f(2) r Some by (auto simp: exclude_shape_def AddOrReuseClip_def)
    have "exclude_shape rect rects0 (Suc i) (n', rects')"
      unfolding exclude_shape_def j prod.case
    proof (intro conjI allI impI)
      show "length rects0 \<le> length (rects[j := frame])" "Suc i \<le> length rects0" "Suc j \<le> Suc i"
        using s f(2) by (simp_all add: exclude_shape_def)
      show "\<not> unused (rects[j := frame] ! k)" if "k < Suc j" for k
        using that u [of k] j(1) clear_of_used [OF frame] by (cases "k = j") simp_all
      show "if k < Suc i then unused (rects[j := frame] ! k) \<or> clear_of rect (rects[j := frame] ! k)
          else if k < length rects0 then rects[j := frame] ! k = rects0 ! k else clear_of rect (rects[j := frame] ! k)"
        if "k < length (rects[j := frame])" for k
        using that s frame f(2) by (cases "k = j") (simp_all add: exclude_shape_def)
    qed
    then show ?thesis using cover_update [OF j(1), of frame p] f(3) by (simp add: j(3))
  qed
  then show "exclude_shape rect rects0 (Suc i) (n', rects')" "cover rects' p \<le> cover rects p + covers frame p"
    "(\<And>m. alloc m) \<Longrightarrow> cover rects' p = cover rects p + covers frame p"
    by auto
qed

text \<open>The four pieces around the hidden part cover what is left of a clip.\<close>

definition in_range :: "int \<Rightarrow> int \<Rightarrow> int \<Rightarrow> nat" where
  "in_range l r v = (if l \<le> v \<and> v < r then 1 else 0)"

lemma covers_range: "covers r p = in_range (r_left r) (r_right r) (p_x p) * in_range (r_top r) (r_bottom r) (p_y p)"
  by (auto simp: covers_def in_range_def DoIntersect_point_def)

lemma in_range_split: "l \<le> m \<Longrightarrow> m \<le> r \<Longrightarrow> in_range l r v = in_range l m v + in_range m r v"
  by (simp add: in_range_def)

lemma in_range_empty [simp]: "\<not> l < r \<Longrightarrow> in_range l r v = 0"
  by (simp add: in_range_def)

lemma pieces_cover:
  assumes "IsValid (rect_and rect old)"
  defines "hide \<equiv> rect_and rect old"
  shows "covers hide p + (if r_left old < r_left hide then covers (PIRect_of (r_left old) (r_top hide) (r_left hide) (r_bottom hide)) p else 0) +
    (if r_right hide < r_right old then covers (PIRect_of (r_right hide) (r_top hide) (r_right old) (r_bottom hide)) p else 0) +
    (if r_top old < r_top hide then covers (PIRect_of (r_left old) (r_top old) (r_right old) (r_top hide)) p else 0) +
    (if r_bottom hide < r_bottom old then covers (PIRect_of (r_left old) (r_bottom hide) (r_right old) (r_bottom old)) p else 0) = covers old p"
proof -
  have h: "r_left old \<le> r_left hide" "r_left hide \<le> r_right hide" "r_right hide \<le> r_right old"
      "r_top old \<le> r_top hide" "r_top hide \<le> r_bottom hide" "r_bottom hide \<le> r_bottom old"
    using assms(1) unfolding hide_def by (auto simp: rect_and_def IsValid_def)
  have "in_range (r_left old) (r_right old) v = in_range (r_left old) (r_left hide) v + in_range (r_left hide) (r_right hide) v +
      in_range (r_right hide) (r_right old) v" for v
    using in_range_split [of "r_left old" "r_left hide" "r_right old" v] in_range_split [of "r_left hide" "r_right hide" "r_right old" v] h by simp
  moreover have "in_range (r_top old) (r_bottom old) v = in_range (r_top old) (r_top hide) v + in_range (r_top hide) (r_bottom hide) v +
      in_range (r_bottom hide) (r_bottom old) v" for v
    using in_range_split [of "r_top old" "r_top hide" "r_bottom old" v] in_range_split [of "r_top hide" "r_bottom hide" "r_bottom old" v] h by simp
  ultimately show ?thesis
    by (simp add: covers_range algebra_simps)
qed

lemma pieces_clear:
  assumes "IsValid (rect_and rect old)" "IsValid old"
  defines "hide \<equiv> rect_and rect old"
  shows "r_left old < r_left hide \<longrightarrow> clear_of rect (PIRect_of (r_left old) (r_top hide) (r_left hide) (r_bottom hide))"
    "r_right hide < r_right old \<longrightarrow> clear_of rect (PIRect_of (r_right hide) (r_top hide) (r_right old) (r_bottom hide))"
    "r_top old < r_top hide \<longrightarrow> clear_of rect (PIRect_of (r_left old) (r_top old) (r_right old) (r_top hide))"
    "r_bottom hide < r_bottom old \<longrightarrow> clear_of rect (PIRect_of (r_left old) (r_bottom hide) (r_right old) (r_bottom old))"
  using assms by (auto simp: clear_of_def DoIntersect_point_def rect_and_def IsValid_def PIRect_of_def min_def max_def)

definition add_piece :: "(nat \<Rightarrow> bool) \<Rightarrow> nat \<Rightarrow> bool \<Rightarrow> PIRect \<Rightarrow> nat \<times> PRegion \<Rightarrow> nat \<times> PRegion" where
  "add_piece alloc i condition frame s = (if condition then AddOrReuseClip alloc i frame s else s)"

lemma add_piece_step:
  assumes "exclude_shape rect rects0 (Suc i) s" "condition \<longrightarrow> clear_of rect frame"
  shows "exclude_shape rect rects0 (Suc i) (add_piece alloc i condition frame s)"
    "cover (snd (add_piece alloc i condition frame s)) p \<le> cover (snd s) p + (if condition then covers frame p else 0)"
    "(\<And>m. alloc m) \<Longrightarrow> cover (snd (add_piece alloc i condition frame s)) p = cover (snd s) p + (if condition then covers frame p else 0)"
proof -
  obtain n rects where s: "s = (n, rects)" by force
  obtain n' rects' where r: "AddOrReuseClip alloc i frame (n, rects) = (n', rects')" by force
  show "exclude_shape rect rects0 (Suc i) (add_piece alloc i condition frame s)"
    "cover (snd (add_piece alloc i condition frame s)) p \<le> cover (snd s) p + (if condition then covers frame p else 0)"
    "(\<And>m. alloc m) \<Longrightarrow> cover (snd (add_piece alloc i condition frame s)) p = cover (snd s) p + (if condition then covers frame p else 0)"
    using assms AddOrReuseClip_step [OF assms(1) [unfolded s] _ r] by (auto simp: add_piece_def s r)
qed

lemma Exclude_clip_step:
  assumes s: "exclude_shape rect rects0 i (n, rects)" and i: "i < length rects0" and ok: "list_all slot_ok rects0"
  shows "exclude_shape rect rects0 (Suc i) (Exclude_clip alloc rect i (n, rects)) \<and>
    cover (snd (Exclude_clip alloc rect i (n, rects))) p \<le> cover rects p \<and>
    ((\<forall>m. alloc m) \<and> \<not> DoIntersect_point rect p \<longrightarrow> cover (snd (Exclude_clip alloc rect i (n, rects))) p = cover rects p)"
proof -
  let ?old = "rects ! i"
  let ?hide = "rect_and rect ?old"
  have old: "?old = rects0 ! i" "i < length rects" using s i by (auto simp: exclude_shape_def split: if_splits)
  then have slot: "slot_ok ?old" using ok i by (simp add: list_all_length)
  show ?thesis
  proof (cases "IsValid ?hide")
    case False
    have "\<not> DoIntersect_point ?hide q" for q
      using covers_invalid [OF False, of q] by (simp add: covers_def split: if_splits)
    then have "unused ?old \<or> clear_of rect ?old"
      using slot by (auto simp: slot_ok_def clear_of_def DoIntersect_and)
    then have "exclude_shape rect rects0 (Suc i) (n, rects)"
      using s i by (auto simp: exclude_shape_def less_Suc_eq)
    then show ?thesis using False by (simp add: Exclude_clip_def Let_def)
  next
    case True
    have valid: "IsValid ?old"
      using True slot by (auto simp: slot_ok_def unused_def IsValid_def rect_and_def)
    let ?m = "rects[i := ?old\<lparr>r_left := r_right ?old\<rparr>]"
    have u: "unused (?old\<lparr>r_left := r_right ?old\<rparr>)" by (simp add: unused_def)
    have n: "n \<le> i" using s by (simp add: exclude_shape_def)
    have mark: "exclude_shape rect rects0 (Suc i) (n, ?m)"
      unfolding exclude_shape_def prod.case
    proof (intro conjI allI impI)
      show "length rects0 \<le> length ?m" "Suc i \<le> length rects0" "n \<le> Suc i" using s i by (simp_all add: exclude_shape_def)
      show "\<not> unused (?m ! k)" if "k < n" for k using s that n by (simp add: exclude_shape_def)
      show "if k < Suc i then unused (?m ! k) \<or> clear_of rect (?m ! k)
          else if k < length rects0 then ?m ! k = rects0 ! k else clear_of rect (?m ! k)" if "k < length ?m" for k
        using that s u by (cases "k = i") (auto simp: exclude_shape_def)
    qed
    have cm: "cover ?m p + covers ?old p = cover rects p"
      using cover_update [OF old(2), of "?old\<lparr>r_left := r_right ?old\<rparr>" p] covers_unused [OF u] by simp
    note clear = pieces_clear [OF True valid]
    let ?s1 = "add_piece alloc i (r_left ?old < r_left ?hide) (PIRect_of (r_left ?old) (r_top ?hide) (r_left ?hide) (r_bottom ?hide)) (n, ?m)"
    let ?s2 = "add_piece alloc i (r_right ?hide < r_right ?old) (PIRect_of (r_right ?hide) (r_top ?hide) (r_right ?old) (r_bottom ?hide)) ?s1"
    let ?s3 = "add_piece alloc i (r_top ?old < r_top ?hide) (PIRect_of (r_left ?old) (r_top ?old) (r_right ?old) (r_top ?hide)) ?s2"
    let ?s4 = "add_piece alloc i (r_bottom ?hide < r_bottom ?old) (PIRect_of (r_left ?old) (r_bottom ?hide) (r_right ?old) (r_bottom ?old)) ?s3"
    have e: "Exclude_clip alloc rect i (n, rects) = ?s4"
      using True by (simp add: Exclude_clip_def Let_def add_piece_def)
    note a1 = add_piece_step [where alloc = alloc, OF mark clear(1)]
    note a2 = add_piece_step [where alloc = alloc, OF a1(1) clear(2)]
    note a3 = add_piece_step [where alloc = alloc, OF a2(1) clear(3)]
    note a4 = add_piece_step [where alloc = alloc, OF a3(1) clear(4)]
    have "cover (snd ?s4) p + covers ?hide p \<le> cover rects p"
      using a1(2) [of p] a2(2) [of p] a3(2) [of p] a4(2) [of p]
        pieces_cover [OF True, of p] cm unfolding snd_conv by linarith
    moreover have "cover (snd ?s4) p + covers ?hide p = cover rects p" if "\<And>m. alloc m"
      using a1(3) [OF that, of p] a2(3) [OF that, of p] a3(3) [OF that, of p] a4(3) [OF that, of p] pieces_cover [OF True, of p] cm unfolding snd_conv by linarith
    moreover have "\<not> DoIntersect_point rect p \<Longrightarrow> covers ?hide p = 0"
      by (simp add: covers_and) (simp add: covers_def)
    ultimately show ?thesis
      using a4(1) by (auto simp: e)
  qed
qed

lemma Exclude_loop:
  assumes ok: "list_all slot_ok rects0" and k: "k \<le> length rects0"
  shows "exclude_shape rect rects0 k (fold (Exclude_clip alloc rect) [0..<k] (0, rects0)) \<and>
    cover (snd (fold (Exclude_clip alloc rect) [0..<k] (0, rects0))) p \<le> cover rects0 p \<and>
    ((\<forall>m. alloc m) \<and> \<not> DoIntersect_point rect p \<longrightarrow> cover (snd (fold (Exclude_clip alloc rect) [0..<k] (0, rects0))) p = cover rects0 p)"
  using k
proof (induction k)
  case 0
  show ?case by (simp add: exclude_shape_def)
next
  case (Suc k)
  obtain n rects where s: "fold (Exclude_clip alloc rect) [0..<k] (0, rects0) = (n, rects)" by force
  have "exclude_shape rect rects0 k (n, rects)" "cover rects p \<le> cover rects0 p"
    "(\<forall>m. alloc m) \<and> \<not> DoIntersect_point rect p \<longrightarrow> cover rects p = cover rects0 p"
    using Suc.IH Suc.prems unfolding s snd_conv by auto
  moreover have e: "fold (Exclude_clip alloc rect) [0..<Suc k] (0, rects0) = Exclude_clip alloc rect k (n, rects)"
    by (simp add: s)
  ultimately show ?case
    unfolding e using Exclude_clip_step [OF _ _ ok, where rect = rect and i = k and n = n and rects = rects and alloc = alloc and p = p] Suc.prems by auto
qed

section \<open>Removing the unused slots\<close>

text \<open>
  Slots below \<open>i\<close> and from \<open>lastToCheck\<close> on are in use. The rectangles in use stay, in some order.
\<close>

definition used_rects :: "PRegion \<Rightarrow> PIRect multiset" where
  "used_rects rects = mset (filter (\<lambda>r. \<not> unused r) rects)"

lemma used_simps [simp]:
  "used_rects [] = {#}" "used_rects (r # rects) = (if unused r then used_rects rects else add_mset r (used_rects rects))"
  "used_rects (rects @ rects') = used_rects rects + used_rects rects'"
  by (simp_all add: used_rects_def)

lemma mset_used_unused: "mset rects = used_rects rects + mset (filter unused rects)"
  by (induction rects) auto

lemma used_update:
  assumes "i < length rects" "unused (rects ! i)" "j < length rects" "i < j"
  shows "used_rects (take j (rects[i := rects ! j])) = used_rects (take (Suc j) rects)"
proof -
  have "take j (rects[i := rects ! j]) = (take j rects)[i := rects ! j]"
    by (rule take_update_swap)
  moreover have "take (Suc j) rects = take j rects @ [rects ! j]"
    using assms(3) by (rule take_Suc_conv_app_nth)
  moreover have "take j rects = take i rects @ rects ! i # drop (Suc i) (take j rects)"
    using assms(1,3,4) id_take_nth_drop [of i "take j rects"] by (simp add: min_absorb1)
  moreover have "(take j rects)[i := rects ! j] = take i rects @ rects ! j # drop (Suc i) (take j rects)"
    using assms(1,3,4) upd_conv_take_nth_drop [of i "take j rects" "rects ! j"] by (simp add: min_absorb1)
  ultimately have "used_rects (take j (rects[i := rects ! j])) = used_rects (take i rects @ rects ! j # drop (Suc i) (take j rects))"
    "used_rects (take (Suc j) rects) = used_rects (take j rects) + used_rects [rects ! j]"
    "used_rects (take j rects) = used_rects (take i rects @ rects ! i # drop (Suc i) (take j rects))"
    by (simp_all only: used_simps)
  then show ?thesis using assms(2) by simp
qed

lemma RemoveUnusedClips_loop_ok:
  assumes "i \<le> lastToCheck" "lastToCheck \<le> newClipCount" "newClipCount \<le> length rects" "first \<le> i"
    "\<And>k. first \<le> k \<Longrightarrow> k < i \<Longrightarrow> \<not> unused (rects ! k)" "\<And>k. lastToCheck \<le> k \<Longrightarrow> k < newClipCount \<Longrightarrow> \<not> unused (rects ! k)"
  shows "mset (RemoveUnusedClips_loop rects i lastToCheck newClipCount) =
    used_rects (take newClipCount rects) + mset (filter unused (take first rects))"
  using assms
proof (induction rects i lastToCheck newClipCount rule: RemoveUnusedClips_loop.induct)
  case (1 rects i last new)
  note simps = RemoveUnusedClips_loop.simps [of rects i last new]
  show ?case
  proof (cases "i < last")
    case False
    then have "\<not> unused (rects ! k)" if "first \<le> k" "k < new" for k
      using 1(5,9,10) that by (cases "k < i") auto
    then have "filter unused (drop first (take new rects)) = []"
      using 1(5-8) by (auto simp: filter_empty_conv in_set_conv_nth)
    moreover have "take new rects = take first rects @ drop first (take new rects)"
      using 1(5,6,8) False by (metis append_take_drop_id le_trans linorder_not_less min.absorb1 take_take)
    ultimately have "filter unused (take new rects) = filter unused (take first rects)"
      by (metis append_Nil2 filter_append)
    with False show ?thesis
      using mset_used_unused [of "take new rects"] by (simp add: simps)
  next
    case i: True
    show ?thesis
    proof (cases "unused (rects ! i)")
      case False
      have "mset (RemoveUnusedClips_loop rects (i + 1) last new) = used_rects (take new rects) + mset (filter unused (take first rects))"
        using i False 1(6-10) by (intro 1(4)) (auto simp: less_Suc_eq)
      with i False show ?thesis by (simp add: simps)
    next
      case u: True
      have new: "new > 0" "i < length rects" using i 1(6,7) by auto
      show ?thesis
      proof (cases "i = length rects - 1")
        case True
        then have e: "new = length rects" "last = new" "new - 1 = i" using i 1(6,7) by auto
        have "mset (RemoveUnusedClips_loop rects i (last - 1) (new - 1)) =
            used_rects (take (new - 1) rects) + mset (filter unused (take first rects))"
          using i u True e 1(8-10) by (intro 1(1)) auto
        also have "\<dots> = used_rects (take new rects) + mset (filter unused (take first rects))"
        proof -
          have "new = Suc i" using e new by simp
          then show ?thesis using u by (simp only: diff_Suc_1 take_Suc_conv_app_nth [OF new(2)] used_simps) simp
        qed
        finally show ?thesis by (subst simps) (use i u True in \<open>simp add: Let_def\<close>)
      next
        case ne: False
        let ?r = "rects[i := rects ! (new - 1)]"
        have f: "take first ?r = take first rects" using 1(8) by simp
        have l: "new - 1 < length rects" using new 1(7) by simp
        have m: "used_rects (take (new - 1) ?r) = used_rects (take new rects)"
        proof (cases "i = new - 1")
          case True
          then have "new = Suc i" using new by simp
          then show ?thesis using u by (simp only: diff_Suc_1 take_Suc_conv_app_nth [OF new(2)] used_simps) simp
        next
          case False
          then have "i < new - 1" using i 1(6) by auto
          from used_update [OF new(2) u l this] new(1) show ?thesis by simp
        qed
        show ?thesis
        proof (cases "new - 1 < last")
          case True
          then have "last = new" using 1(6) by simp
          then have "mset (RemoveUnusedClips_loop ?r i (last - 1) (new - 1)) =
              used_rects (take (new - 1) ?r) + mset (filter unused (take first ?r))"
            using i u ne True 1(7-9) new by (intro 1(2)) auto
          then show ?thesis using i u ne True m f by (simp add: simps Let_def)
        next
          case False
          have "\<not> unused (rects ! (new - 1))" using 1(10) [of "new - 1"] False new by simp
          then have "mset (RemoveUnusedClips_loop ?r (i + 1) last (new - 1)) =
              used_rects (take (new - 1) ?r) + mset (filter unused (take first ?r))"
            using i u ne False 1(6-10) new by (intro 1(3)) (auto simp: nth_list_update less_Suc_eq)
          then show ?thesis using i u ne False m f by (simp add: simps Let_def)
        qed
      qed
    qed
  qed
qed

lemma cover_mset: "cover rects p = sum_mset (image_mset (\<lambda>r. covers r p) (mset rects))"
  by (simp add: cover_def sum_mset_sum_list [symmetric])

lemma cover_used: "sum_mset (image_mset (\<lambda>r. covers r p) (used_rects rects)) = cover rects p"
  by (induction rects) (auto simp: used_rects_def)

lemma RemoveUnusedClips_cover:
  assumes "mset rects' = used_rects rects"
  shows "cover rects' p = cover rects p"
  unfolding cover_mset [of rects'] assms cover_used ..

text \<open>Cutting out a rectangle: what a point was covered by, it still is, unless it lies in the rectangle. Without memory, more may be lost.\<close>

lemma Exclude_ok:
  assumes ok: "list_all slot_ok rects"
  shows "list_all IsValid (Exclude alloc rect rects)"
    "cover (Exclude alloc rect rects) p \<le> (if DoIntersect_point rect p then 0 else cover rects p)"
    "(\<And>m. alloc m) \<Longrightarrow> cover (Exclude alloc rect rects) p = (if DoIntersect_point rect p then 0 else cover rects p)"
proof -
  obtain n rs where s: "fold (Exclude_clip alloc rect) [0..<length rects] (0, rects) = (n, rs)" by force
  have shape: "exclude_shape rect rects (length rects) (n, rs)" and c: "cover rs p \<le> cover rects p"
    "(\<forall>m. alloc m) \<and> \<not> DoIntersect_point rect p \<longrightarrow> cover rs p = cover rects p"
    using Exclude_loop [OF ok order_refl, where rect = rect and alloc = alloc and p = p] unfolding s snd_conv by simp_all
  have e: "Exclude alloc rect rects = RemoveUnusedClips_loop rs n (length rects) (length rs)"
    by (simp add: Exclude_def s RemoveUnusedClips_def Let_def)
  have m: "mset (Exclude alloc rect rects) = used_rects rs"
  proof -
    have "filter unused (take n rs) = []"
      using shape by (auto simp: filter_empty_conv in_set_conv_nth exclude_shape_def)
    moreover have "mset (RemoveUnusedClips_loop rs n (length rects) (length rs)) =
        used_rects (take (length rs) rs) + mset (filter unused (take n rs))"
      using shape clear_of_used by (intro RemoveUnusedClips_loop_ok) (auto simp: exclude_shape_def)
    ultimately show ?thesis by (simp add: e)
  qed
  note cover = RemoveUnusedClips_cover [OF m, of p]
  have rs: "unused r \<or> clear_of rect r" if r: "r \<in> set rs" for r
  proof -
    obtain k where "k < length rs" "r = rs ! k" using r by (auto simp: in_set_conv_nth)
    with shape show ?thesis by (auto simp: exclude_shape_def split: if_splits)
  qed
  have "cover rs p = 0" if "DoIntersect_point rect p"
  proof -
    have "\<not> DoIntersect_point r p" if r: "r \<in> set rs" for r
      using rs [OF r] \<open>DoIntersect_point rect p\<close> by (auto simp: clear_of_def unused_def DoIntersect_point_def)
    then show ?thesis using cover_pos [of rs p] by auto
  qed
  with c cover show "cover (Exclude alloc rect rects) p \<le> (if DoIntersect_point rect p then 0 else cover rects p)"
    "(\<And>m. alloc m) \<Longrightarrow> cover (Exclude alloc rect rects) p = (if DoIntersect_point rect p then 0 else cover rects p)"
    by auto
  have "set (Exclude alloc rect rects) = {r \<in> set rs. \<not> unused r}"
    using arg_cong [OF m, of set_mset] by (simp add: used_rects_def)
  with rs show "list_all IsValid (Exclude alloc rect rects)"
    by (auto simp: list_all_iff clear_of_def)
qed

end
