(* ===== verification/RegionPoints.thy ===== *)
theory RegionPoints
  imports RegionCover
begin

text \<open>
  Regions as sets of points: what a sequence of operations of \<open>System/GUI/Region.cpp\<close> does to the points of a region, when memory suffices.
\<close>

section \<open>The other operations\<close>

definition has_memory :: "(nat \<Rightarrow> bool) \<Rightarrow> bool" where
  "has_memory alloc \<longleftrightarrow> (\<forall>n. alloc n)"

lemma has_memory_grow [simp]: "has_memory alloc \<Longrightarrow> alloc n"
  by (simp add: has_memory_def)

lemma Exclude_cover:
  assumes "list_all slot_ok rects" "has_memory alloc"
  shows "cover (Exclude alloc rect rects) p = (if DoIntersect_point rect p then 0 else cover rects p)"
  using Exclude_ok(3) [OF assms(1)] assms(2) by simp

lemma Exclude_fold_ok:
  assumes "list_all slot_ok rects" "has_memory alloc"
  shows "list_all slot_ok (fold (Exclude alloc) clips rects) \<and>
    cover (fold (Exclude alloc) clips rects) p = (if \<exists>r \<in> set clips. DoIntersect_point r p then 0 else cover rects p)"
  using assms(1)
proof (induction clips arbitrary: rects)
  case (Cons r clips)
  have "list_all slot_ok (Exclude alloc r rects)"
    using Exclude_ok(1) [OF Cons.prems] by (auto simp: list_all_iff slot_ok_def)
  from Cons.IH [OF this] show ?case
    using Exclude_cover [OF Cons.prems assms(2), where rect = r and p = p] by simp
qed simp

lemma Include_ok:
  assumes "list_all slot_ok rects" "slot_ok rect" "has_memory alloc"
  shows "list_all slot_ok (Include alloc rect rects)"
    "cover (Include alloc rect rects) p = (if cover rects p > 0 then cover rects p else covers rect p)"
proof -
  have "list_all slot_ok [rect]" using assms(2) by simp
  note f = Exclude_fold_ok [where clips = rects and p = p, OF this assms(3)]
  have e: "Include alloc rect rects = fold (Exclude alloc) rects [rect] @ rects"
    using assms(3) by (simp add: Include_def AddRect_def Let_def)
  show "list_all slot_ok (Include alloc rect rects)"
    using f assms(1) by (simp add: e)
  show "cover (Include alloc rect rects) p = (if cover rects p > 0 then cover rects p else covers rect p)"
    using f cover_pos [of rects p] by (auto simp: e)
qed

lemma cover_intersections: "cover (intersections rects region) p = cover rects p * cover region p"
proof -
  have filter: "cover (filter IsValid rs) p = cover rs p" for rs
    by (induction rs) (simp_all add: covers_invalid)
  have one: "cover (map (rect_and r) region) p = covers r p * cover region p" for r
    by (induction region) (simp_all add: covers_and algebra_simps)
  have "cover (concat (map (\<lambda>dstRect. map (rect_and dstRect) region) rects)) p = cover rects p * cover region p"
    by (induction rects) (simp_all add: one algebra_simps)
  then show ?thesis by (simp add: intersections_def filter)
qed

lemma Intersect_ok:
  assumes "has_memory alloc"
  shows "list_all IsValid (Intersect alloc region rects)" "cover (Intersect alloc region rects) p = cover rects p * cover region p"
proof -
  have "Intersect alloc region rects = intersections rects region"
    using assms by (simp add: Intersect_def Let_def list_all_iff)
  then show "list_all IsValid (Intersect alloc region rects)" "cover (Intersect alloc region rects) p = cover rects p * cover region p"
    by (simp_all add: cover_intersections) (simp add: intersections_def list_all_iff)
qed

definition point_minus :: "PIPoint \<Rightarrow> PIPoint \<Rightarrow> PIPoint" where
  "point_minus p q = \<lparr>p_x = p_x p - p_x q, p_y = p_y p - p_y q\<rparr>"

lemma covers_plus: "covers (rect_plus r q) p = covers r (point_minus p q)"
  by (auto simp: covers_def DoIntersect_point_def rect_plus_def point_minus_def)

lemma cover_plus: "cover (map (\<lambda>r. rect_plus r q) rects) p = cover rects (point_minus p q)"
  by (induction rects) (simp_all add: covers_plus)

section \<open>Regions are sets of points\<close>

text \<open>A run of operations on a region, and on a set of points.\<close>

datatype region_op =
    OpInclude PIRect
  | OpExclude PIRect
  | OpExcludeRegion PRegion
  | OpExcludeOffset PRegion PIPoint
  | OpIntersect PRegion
  | OpIntersectOffset PRegion PIPoint
  | OpClear

fun region_apply :: "(nat \<Rightarrow> bool) \<Rightarrow> region_op \<Rightarrow> PRegion \<Rightarrow> PRegion" where
  "region_apply alloc (OpInclude rect) rects = Include alloc rect rects"
| "region_apply alloc (OpExclude rect) rects = Exclude alloc rect rects"
| "region_apply alloc (OpExcludeRegion region) rects = Exclude_region alloc region rects"
| "region_apply alloc (OpExcludeOffset region offset) rects = Exclude_region_offset alloc region offset rects"
| "region_apply alloc (OpIntersect region) rects = Intersect alloc region rects"
| "region_apply alloc (OpIntersectOffset region offset) rects = Intersect_offset alloc region offset rects"
| "region_apply alloc OpClear rects = Clear rects"

fun points_apply :: "region_op \<Rightarrow> PIPoint set \<Rightarrow> PIPoint set" where
  "points_apply (OpInclude rect) P = P \<union> rect_points rect"
| "points_apply (OpExclude rect) P = P - rect_points rect"
| "points_apply (OpExcludeRegion region) P = P - region_points region"
| "points_apply (OpExcludeOffset region offset) P = P - {p. point_minus p offset \<in> region_points region}"
| "points_apply (OpIntersect region) P = P \<inter> region_points region"
| "points_apply (OpIntersectOffset region offset) P = P \<inter> {p. point_minus p offset \<in> region_points region}"
| "points_apply OpClear P = {}"

fun op_ok :: "region_op \<Rightarrow> bool" where
  "op_ok (OpInclude rect) \<longleftrightarrow> IsValid rect"
| "op_ok (OpIntersect region) \<longleftrightarrow> region_ok region"
| "op_ok (OpIntersectOffset region offset) \<longleftrightarrow> region_ok region"
| "op_ok _ \<longleftrightarrow> True"

lemma valid_slots: "list_all IsValid rects \<Longrightarrow> list_all slot_ok rects"
  by (auto simp: list_all_iff slot_ok_def)

lemma region_points_ind: "region_ok rects \<Longrightarrow> cover rects p = (if p \<in> region_points rects then 1 else 0)"
proof -
  assume "region_ok rects"
  then have "cover rects p \<le> 1" by (simp add: region_ok_def)
  then show ?thesis by (simp add: region_points_def)
qed

lemma region_result:
  assumes "list_all slot_ok rects" "\<And>p. cover rects p = (if p \<in> P then 1 else 0)"
  shows "region_ok rects \<and> region_points rects = P"
  using assms by (auto simp: region_ok_def region_points_def)

lemma region_Include:
  assumes "region_ok rects" "IsValid rect" "has_memory alloc"
  shows "region_ok (Include alloc rect rects) \<and> region_points (Include alloc rect rects) = region_points rects \<union> rect_points rect"
proof (rule region_result)
  have ok: "list_all slot_ok rects" "slot_ok rect" using assms(1,2) by (simp_all add: region_ok_def slot_ok_def)
  show "list_all slot_ok (Include alloc rect rects)" by (rule Include_ok(1) [OF ok assms(3)])
  show "cover (Include alloc rect rects) p = (if p \<in> region_points rects \<union> rect_points rect then 1 else 0)" for p
    unfolding Include_ok(2) [OF ok assms(3)] region_points_ind [OF assms(1)] by (simp add: rect_points_def covers_def)
qed

lemma region_Exclude_fold:
  assumes "region_ok rects" "has_memory alloc"
  shows "region_ok (fold (Exclude alloc) clips rects) \<and> region_points (fold (Exclude alloc) clips rects) = region_points rects - region_points clips"
proof (rule region_result)
  have ok: "list_all slot_ok rects" using assms(1) by (simp add: region_ok_def)
  note f = Exclude_fold_ok [OF ok assms(2)]
  show "list_all slot_ok (fold (Exclude alloc) clips rects)" using f by blast
  show "cover (fold (Exclude alloc) clips rects) p = (if p \<in> region_points rects - region_points clips then 1 else 0)" for p
    unfolding f [THEN conjunct2] region_points_ind [OF assms(1)] by (simp add: region_points_def cover_pos)
qed

lemma region_Exclude:
  assumes "region_ok rects" "has_memory alloc"
  shows "region_ok (Exclude alloc rect rects) \<and> region_points (Exclude alloc rect rects) = region_points rects - rect_points rect"
  using region_Exclude_fold [OF assms, of "[rect]"] by (auto simp: region_points_def rect_points_def covers_def)

lemma region_Intersect:
  assumes "region_ok rects" "\<And>p. cover region p = (if p \<in> P then 1 else 0)" "has_memory alloc"
  shows "region_ok (Intersect alloc region rects) \<and> region_points (Intersect alloc region rects) = region_points rects \<inter> P"
proof (rule region_result)
  show "list_all slot_ok (Intersect alloc region rects)" by (rule valid_slots [OF Intersect_ok(1) [OF assms(3)]])
  show "cover (Intersect alloc region rects) p = (if p \<in> region_points rects \<inter> P then 1 else 0)" for p
    unfolding Intersect_ok(2) [OF assms(3)] region_points_ind [OF assms(1)] assms(2) by simp
qed

lemma region_points_plus: "p \<in> region_points (map (\<lambda>r. rect_plus r q) rects) \<longleftrightarrow> point_minus p q \<in> region_points rects"
  by (simp add: region_points_def cover_plus)

lemma region_apply_ok:
  assumes "region_ok rects" "op_ok op" "has_memory alloc"
  shows "region_ok (region_apply alloc op rects) \<and> region_points (region_apply alloc op rects) = points_apply op (region_points rects)"
proof (cases op)
  case (OpInclude rect)
  then show ?thesis using region_Include [OF assms(1) _ assms(3)] assms(2) by simp
next
  case (OpExclude rect)
  then show ?thesis using region_Exclude [OF assms(1,3)] by simp
next
  case (OpExcludeRegion region)
  then show ?thesis using region_Exclude_fold [OF assms(1,3)] by (simp add: Exclude_region_def)
next
  case (OpExcludeOffset region offset)
  have e: "Exclude_region_offset alloc region offset rects = fold (Exclude alloc) (map (\<lambda>r. rect_plus r offset) region) rects"
    by (simp add: Exclude_region_offset_def fold_map comp_def)
  have "region_points (map (\<lambda>r. rect_plus r offset) region) = {p. point_minus p offset \<in> region_points region}"
    using region_points_plus by blast
  with OpExcludeOffset region_Exclude_fold [OF assms(1,3)] show ?thesis by (simp add: e)
next
  case (OpIntersect region)
  then have "region_ok region" using assms(2) by simp
  from region_Intersect [OF assms(1) region_points_ind [OF this] assms(3)] show ?thesis by (simp add: OpIntersect)
next
  case (OpIntersectOffset region offset)
  then have "region_ok region" using assms(2) by simp
  then have "cover (map (\<lambda>r. rect_plus r offset) region) p = (if p \<in> {p. point_minus p offset \<in> region_points region} then 1 else 0)" for p
    by (simp add: cover_plus region_points_ind)
  from region_Intersect [OF assms(1) this assms(3)] show ?thesis by (simp add: OpIntersectOffset Intersect_offset_def)
next
  case OpClear
  then show ?thesis by (simp add: Clear_def region_ok_def region_points_def)
qed

text \<open>
  C23. Any sequence of \<open>Include\<close>, \<open>Exclude\<close>, \<open>Intersect\<close> and \<open>Clear\<close> calls does to the points of a region what the operations on sets do, and its rectangles never
  overlap, so nothing is drawn twice or outside the region.
\<close>

theorem region_ops_refine:
  assumes "region_ok rects" "list_all op_ok ops" "has_memory alloc"
  shows "region_points (fold (region_apply alloc) ops rects) = fold points_apply ops (region_points rects) \<and>
    region_ok (fold (region_apply alloc) ops rects)"
  using assms(1,2)
proof (induction ops arbitrary: rects)
  case (Cons op ops)
  then show ?case using region_apply_ok [OF Cons.prems(1) _ assms(3)] by simp
qed simp

text \<open>A window of four by four with a hole, cut to its right part, from the empty region.\<close>

definition window_ops :: "region_op list" where
  "window_ops = [OpInclude (PIRect_of 0 0 4 4), OpExclude (PIRect_of 1 1 3 3), OpIntersect [PIRect_of 2 0 9 9]]"

lemma region_ops_refine_witness:
  "region_points (fold (region_apply (\<lambda>_. True)) window_ops []) = fold points_apply window_ops {} \<and>
    region_ok (fold (region_apply (\<lambda>_. True)) window_ops [])"
proof -
  have "region_ok [PIRect_of 2 0 9 9]"
    by (simp add: region_ok_def slot_ok_def IsValid_def covers_def)
  then have "list_all op_ok window_ops" by (simp add: window_ops_def IsValid_def)
  moreover have "region_ok []" "region_points [] = {}" by (simp_all add: region_ok_def region_points_def)
  ultimately show ?thesis
    using region_ops_refine [of "[]" window_ops "\<lambda>_. True"] by (simp add: has_memory_def)
qed

lemma window_points: "fold points_apply window_ops {} =
    {p. 2 \<le> p_x p \<and> p_x p < 4 \<and> 0 \<le> p_y p \<and> p_y p < 4 \<and> \<not> (p_x p < 3 \<and> 1 \<le> p_y p \<and> p_y p < 3)}"
  by (auto simp: window_ops_def rect_points_def DoIntersect_point_def region_points_def covers_def)

end
