(* ===== verification/RegionOptimize.thy ===== *)
theory RegionOptimize
  imports RegionPoints
begin

text \<open>Merging the rectangles of a region (\<open>PRegion::Optimize\<close>, \<open>System/GUI/Region.cpp\<close>).\<close>

section \<open>Merging\<close>

text \<open>What merging two rectangles must keep: the cover and the slots.\<close>

definition merge_ok :: "(PRegion \<Rightarrow> nat \<Rightarrow> nat \<Rightarrow> PRegion option) \<Rightarrow> bool" where
  "merge_ok merge \<longleftrightarrow> (\<forall>rects a b rects'. list_all slot_ok rects \<and> a < length rects \<and> b < length rects \<and> a \<noteq> b \<and> merge rects a b = Some rects' \<longrightarrow>
     list_all slot_ok rects' \<and> length rects' = length rects \<and> (\<forall>p. cover rects' p = cover rects p))"

lemma in_range_join: "l \<le> m \<Longrightarrow> m \<le> r \<Longrightarrow> in_range l m v + in_range m r v = in_range l r v"
  using in_range_split [of l m r v] by simp

lemma slot_left: "slot_ok r \<Longrightarrow> r_left r \<le> r_right r"
  by (auto simp: slot_ok_def unused_def IsValid_def)

lemma covers_right:
  assumes "slot_ok c0" "slot_ok c1" "r_right c0 = r_left c1" "r_top c0 = r_top c1" "r_bottom c0 = r_bottom c1"
  shows "slot_ok (c0\<lparr>r_right := r_right c1\<rparr>)" "covers (c0\<lparr>r_right := r_right c1\<rparr>) p = covers c0 p + covers c1 p"
proof -
  show "slot_ok (c0\<lparr>r_right := r_right c1\<rparr>)"
    using assms by (auto simp: slot_ok_def unused_def IsValid_def)
  have "in_range (r_left c0) (r_right c0) v + in_range (r_left c1) (r_right c1) v = in_range (r_left c0) (r_right c1) v" for v
    using in_range_join [of "r_left c0" "r_right c0" "r_right c1" v] slot_left [OF assms(1)] slot_left [OF assms(2)] assms(3) by simp
  then show "covers (c0\<lparr>r_right := r_right c1\<rparr>) p = covers c0 p + covers c1 p"
    by (simp add: covers_range assms(4,5) add_mult_distrib [symmetric])
qed

lemma covers_down:
  assumes "slot_ok c0" "slot_ok c1" "r_bottom c0 = r_top c1" "r_left c0 = r_left c1" "r_right c0 = r_right c1"
  shows "slot_ok (c0\<lparr>r_bottom := r_bottom c1\<rparr>)" "covers (c0\<lparr>r_bottom := r_bottom c1\<rparr>) p = covers c0 p + covers c1 p"
proof -
  show "slot_ok (c0\<lparr>r_bottom := r_bottom c1\<rparr>)"
    using assms by (auto simp: slot_ok_def unused_def IsValid_def)
  show "covers (c0\<lparr>r_bottom := r_bottom c1\<rparr>) p = covers c0 p + covers c1 p"
  proof (cases "unused c0")
    case True
    then have "unused c1" "unused (c0\<lparr>r_bottom := r_bottom c1\<rparr>)" using assms by (auto simp: unused_def)
    with True show ?thesis by simp
  next
    case False
    then have "IsValid c0" "IsValid c1" using assms by (auto simp: slot_ok_def unused_def)
    then have "in_range (r_top c0) (r_bottom c0) v + in_range (r_top c1) (r_bottom c1) v = in_range (r_top c0) (r_bottom c1) v" for v
      using in_range_join [of "r_top c0" "r_bottom c0" "r_bottom c1" v] assms(3) by (simp add: IsValid_def)
    then show ?thesis by (simp add: covers_range assms(4,5) add_mult_distrib2 [symmetric])
  qed
qed

lemma merged_update:
  assumes "list_all slot_ok rects" "a < length rects" "b < length rects" "a \<noteq> b" "slot_ok c" "unused u"
    "\<And>p. covers c p = covers (rects ! a) p + covers (rects ! b) p"
  shows "list_all slot_ok (rects[a := c, b := u]) \<and> length (rects[a := c, b := u]) = length rects \<and> (\<forall>p. cover (rects[a := c, b := u]) p = cover rects p)"
proof -
  have "slot_ok u" using assms(6) by (simp add: slot_ok_def)
  then have "list_all slot_ok (rects[a := c, b := u])"
    using assms(1,5) by (auto simp: list_all_iff dest!: set_update_subset_insert [THEN subsetD])
  moreover have "cover (rects[a := c, b := u]) p = cover rects p" for p
    using cover_update [of b "rects[a := c]" u p] cover_update [OF assms(2), of c p] assms(3,4,7) covers_unused [OF assms(6)] by simp
  ultimately show ?thesis by simp
qed

lemma merge_right_ok: "merge_ok merge_right"
  unfolding merge_ok_def
proof (intro allI impI, elim conjE)
  fix rects a b rects'
  assume a: "list_all slot_ok rects" "a < length rects" "b < length rects" "a \<noteq> b" "merge_right rects a b = Some rects'"
  then have s: "slot_ok (rects ! a)" "slot_ok (rects ! b)" by (simp_all add: list_all_length)
  have c: "r_right (rects ! a) = r_left (rects ! b)" "r_top (rects ! a) = r_top (rects ! b)" "r_bottom (rects ! a) = r_bottom (rects ! b)"
    and e: "rects' = rects[a := (rects ! a)\<lparr>r_right := r_right (rects ! b)\<rparr>, b := (rects ! b)\<lparr>r_left := r_right (rects ! b)\<rparr>]"
    using a(5) by (auto simp: merge_right_def Let_def split: if_splits)
  show "list_all slot_ok rects' \<and> length rects' = length rects \<and> (\<forall>p. cover rects' p = cover rects p)"
    unfolding e by (rule merged_update [OF a(1-4) covers_right(1) [OF s c] _ covers_right(2) [OF s c]]) (simp add: unused_def)
qed

lemma merge_down_ok: "merge_ok merge_down"
  unfolding merge_ok_def
proof (intro allI impI, elim conjE)
  fix rects a b rects'
  assume a: "list_all slot_ok rects" "a < length rects" "b < length rects" "a \<noteq> b" "merge_down rects a b = Some rects'"
  then have s: "slot_ok (rects ! a)" "slot_ok (rects ! b)" by (simp_all add: list_all_length)
  have c: "r_bottom (rects ! a) = r_top (rects ! b)" "r_left (rects ! a) = r_left (rects ! b)" "r_right (rects ! a) = r_right (rects ! b)"
    and e: "rects' = rects[a := (rects ! a)\<lparr>r_bottom := r_bottom (rects ! b)\<rparr>, b := (rects ! b)\<lparr>r_left := r_right (rects ! b)\<rparr>]"
    using a(5) by (auto simp: merge_down_def Let_def split: if_splits)
  show "list_all slot_ok rects' \<and> length rects' = length rects \<and> (\<forall>p. cover rects' p = cover rects p)"
    unfolding e by (rule merged_update [OF a(1-4) covers_down(1) [OF s c] _ covers_down(2) [OF s c]]) (simp add: unused_def)
qed

section \<open>The passes and the loop\<close>

text \<open>The pointers of \<open>list\<close> are different slots of the region.\<close>

definition pointers_ok :: "nat list \<Rightarrow> PRegion \<Rightarrow> bool" where
  "pointers_ok list rects \<longleftrightarrow> distinct list \<and> (\<forall>i \<in> set list. i < length rects)"

lemma merge_okD:
  assumes "merge_ok merge" "list_all slot_ok rects" "a < length rects" "b < length rects" "a \<noteq> b" "merge rects a b = Some rects'"
  shows "list_all slot_ok rects' \<and> length rects' = length rects \<and> (\<forall>p. cover rects' p = cover rects p)"
  using assms unfolding merge_ok_def by blast

lemma merge_pass_ok:
  assumes "merge_ok merge" "list_all slot_ok rects" "pointers_ok list rects" "merge_pass merge list rects removed = (list', rects', removed')"
  shows "list_all slot_ok rects' \<and> length rects' = length rects \<and> (\<forall>p. cover rects' p = cover rects p) \<and>
    distinct list' \<and> set list' \<subseteq> set list \<and> length list' \<le> length list \<and> (removed' \<longrightarrow> removed \<or> length list' < length list)"
  using assms
proof (induction merge list rects removed arbitrary: list' rects' removed' rule: merge_pass.induct)
  case (1 merge a b list rects removed)
  show ?case
  proof (cases "merge rects a b")
    case None
    obtain l r d where p: "merge_pass merge (b # list) rects removed = (l, r, d)" by (metis prod_cases3)
    have "pointers_ok (b # list) rects" using 1(5) by (simp add: pointers_ok_def)
    note ih = 1(1) [OF None 1(3,4) this p]
    have e: "list' = a # l" "rects' = r" "removed' = d" using 1(6) by (simp_all add: None p)
    have "a \<notin> set l" using ih 1(5) unfolding pointers_ok_def by fastforce
    with ih show ?thesis unfolding e by auto
  next
    case (Some r)
    have "a < length rects" "b < length rects" "a \<noteq> b" using 1(5) by (auto simp: pointers_ok_def)
    note r = merge_okD [OF 1(3,4) this Some]
    have "pointers_ok (a # list) r" using 1(5) r by (simp add: pointers_ok_def)
    moreover have "merge_pass merge (a # list) r True = (list', rects', removed')" using 1(6) Some by simp
    ultimately have "list_all slot_ok rects' \<and> length rects' = length r \<and> (\<forall>p. cover rects' p = cover r p) \<and>
        distinct list' \<and> set list' \<subseteq> set (a # list) \<and> length list' \<le> length (a # list)"
      using 1(2) [OF Some 1(3) conjunct1 [OF r]] by blast
    then show ?thesis using r by (auto simp: less_Suc_eq_le)
  qed
qed (auto simp: pointers_ok_def)

text \<open>\<open>std::sort\<close> permutes the list into ascending keys.\<close>

definition sorts :: "sorter \<Rightarrow> bool" where
  "sorts srt \<longleftrightarrow> (\<forall>key list. mset (srt key list) = mset list \<and> sorted (map key (srt key list)))"

lemma sort_pointers: "sorts srt \<Longrightarrow> pointers_ok (srt key list) rects = pointers_ok list rects"
  "sorts srt \<Longrightarrow> length (srt key list) = length list" "sorts srt \<Longrightarrow> set (srt key list) = set list"
proof -
  assume "sorts srt"
  then have m: "mset (srt key list) = mset list" by (simp add: sorts_def)
  show "pointers_ok (srt key list) rects = pointers_ok list rects"
    using m by (auto simp: pointers_ok_def mset_eq_setD [OF m] mset_eq_imp_distinct_iff [OF m])
  show "length (srt key list) = length list" "set (srt key list) = set list"
    by (rule mset_eq_length [OF m], rule mset_eq_setD [OF m])
qed

lemma Optimize_loop_ok:
  assumes "sorts srt" "length list < fuel" "list_all slot_ok rects" "pointers_ok list rects"
  shows "\<exists>rects'. Optimize_loop fuel srt list rects removed = Some rects' \<and> list_all slot_ok rects' \<and>
    length rects' = length rects \<and> (\<forall>p. cover rects' p = cover rects p)"
  using assms(2-)
proof (induction fuel arbitrary: list rects removed)
  case (Suc fuel)
  note srt = sort_pointers [OF assms(1)]
  show ?case
  proof (cases "length list > 1 \<and> removed")
    case False
    then show ?thesis using Suc.prems(2) by auto
  next
    case True
    let ?l = "srt (\<lambda>i. r_left (rects ! i)) list"
    obtain l1 r1 d1 where p1: "merge_pass merge_right ?l rects False = (l1, r1, d1)" by (metis prod_cases3)
    have "pointers_ok ?l rects" using Suc.prems(3) by (simp add: srt)
    note m1 = merge_pass_ok [OF merge_right_ok Suc.prems(2) this p1, unfolded srt]
    show ?thesis
    proof (cases "length l1 \<le> 1")
      case short: True
      have "Optimize_loop (Suc fuel) srt list rects removed = Some r1" using True p1 short by simp
      then show ?thesis using m1 by blast
    next
      case False
      let ?t = "srt (\<lambda>i. r_top (r1 ! i)) l1"
      obtain l2 r2 d2 where p2: "merge_pass merge_down ?t r1 d1 = (l2, r2, d2)" by (metis prod_cases3)
      have "pointers_ok l1 r1" using m1 Suc.prems(3) unfolding pointers_ok_def by auto
      then have "pointers_ok ?t r1" by (simp add: srt)
      note m2 = merge_pass_ok [OF merge_down_ok conjunct1 [OF m1] this p2, unfolded srt]
      have e: "Optimize_loop (Suc fuel) srt list rects removed = Optimize_loop fuel srt l2 r2 d2"
        using True False p1 p2 by simp
      have c: "cover r2 p = cover rects p" for p using m1 m2 by simp
      show ?thesis
      proof (cases d2)
        case d: True
        have "length l2 < fuel" using m1 m2 d Suc.prems(1) by auto
        moreover have "pointers_ok l2 r2" using m1 m2 Suc.prems(3) unfolding pointers_ok_def by auto
        ultimately obtain r where "Optimize_loop fuel srt l2 r2 d2 = Some r" "list_all slot_ok r" "length r = length r2"
            "\<forall>p. cover r p = cover r2 p"
          using Suc.IH [of l2 r2 d2] m2 by blast
        then show ?thesis using m1 m2 c unfolding e by auto
      next
        case d: False
        obtain f where "fuel = Suc f" using Suc.prems(1) True by (cases fuel) auto
        then have "Optimize_loop fuel srt l2 r2 d2 = Some r2" using d by simp
        then show ?thesis using m1 m2 unfolding e by auto
      qed
    qed
  qed
qed simp

lemma Optimize_ok:
  assumes "sorts srt" "length rects < fuel" "list_all slot_ok rects"
  shows "\<exists>rects'. Optimize fuel srt alloc rects = Some rects' \<and> list_all slot_ok rects' \<and> length rects' \<le> length rects \<and>
    (\<forall>p. cover rects' p = cover rects p) \<and> (alloc (length rects) \<longrightarrow> length (filter unused rects') \<le> 1)"
proof (cases "length rects \<le> 1 \<or> \<not> alloc (length rects)")
  case True
  have "length rects \<le> 1 \<Longrightarrow> length (filter unused rects) \<le> 1"
    by (rule order_trans [OF length_filter_le])
  with True show ?thesis using assms(3) by (auto simp: Optimize_def)
next
  case False
  have "length [0..<length rects] < fuel" "pointers_ok [0..<length rects] rects" using assms(2) by (simp_all add: pointers_ok_def)
  from Optimize_loop_ok [OF assms(1) this(1) assms(3) this(2)] obtain r where
    r: "Optimize_loop fuel srt [0..<length rects] rects True = Some r" "list_all slot_ok r" "length r = length rects" "\<And>p. cover r p = cover rects p"
    by blast
  let ?c = "RemoveUnusedClips 1 (length r) r"
  have e: "Optimize fuel srt alloc rects = Some ?c" using False r(1,3) by (auto simp: Optimize_def)
  have m: "mset ?c = used_rects (take (length r) r) + mset (filter unused (take 1 r))"
    unfolding RemoveUnusedClips_def using False r(3) by (intro RemoveUnusedClips_loop_ok) auto
  have "sum_mset (image_mset (\<lambda>r. covers r p) (mset (filter unused rs))) = 0" for rs p by (induction rs) auto
  then have c: "cover ?c p = cover r p" for p
    unfolding cover_mset [of ?c] m by (simp add: cover_used)
  have "mset (filter unused r) = mset (filter unused (take 1 r)) + mset (filter unused (drop 1 r))"
    by (simp only: mset_append [symmetric] filter_append [symmetric] append_take_drop_id)
  then have sub: "mset ?c \<subseteq># mset r"
    unfolding m mset_used_unused [of r] by simp
  have "length ?c \<le> length r" using size_mset_mono [OF sub] by simp
  moreover have "list_all slot_ok ?c" using set_mset_mono [OF sub] r(2) by (auto simp: list_all_iff)
  moreover have "length (filter unused ?c) \<le> 1"
  proof -
    have z: "filter_mset unused (used_rects r) = {#}" by (induction r) (simp_all add: used_rects_def)
    have "mset (filter unused ?c) = mset (filter unused (take 1 r))"
      by (simp only: mset_filter m filter_union_mset take_all [OF order_refl] z add_0_left filter_filter_mset conj_absorb)
    then have "length (filter unused ?c) = length (filter unused (take 1 r))" by (rule mset_eq_length)
    then show ?thesis using length_filter_le [of unused "take 1 r"] by simp
  qed
  ultimately show ?thesis unfolding e using r(3,4) c by auto
qed

text \<open>
  C24. \<open>Optimize\<close> ends after at most one round per rectangle, whatever order \<open>std::sort\<close> gives to equal keys; the region keeps its points and its
  disjointness, does not grow, and at most one unused slot is left in it.
\<close>

theorem Optimize_keeps_points:
  assumes "sorts srt" "region_ok rects" "length rects < fuel" "alloc (length rects)"
  shows "\<exists>rects'. Optimize fuel srt alloc rects = Some rects' \<and> region_ok rects' \<and> region_points rects' = region_points rects \<and>
    length rects' \<le> length rects \<and> length (filter unused rects') \<le> 1"
proof -
  have "list_all slot_ok rects" "\<And>p. cover rects p \<le> 1" using assms(2) by (simp_all add: region_ok_def)
  with Optimize_ok [OF assms(1,3) this(1), of alloc] assms(4) show ?thesis by (auto simp: region_ok_def region_points_def)
qed

text \<open>Two neighbours become one, but the slot of the first one stays: \<open>Optimize\<close> collects unused slots from index 1 on.\<close>

definition neighbours :: PRegion where
  "neighbours = [PIRect_of 1 0 2 1, PIRect_of 0 0 1 1]"

lemma sorts_sort_key: "sorts sort_key"
  by (simp add: sorts_def)

lemma neighbours_ok: "region_ok neighbours"
  by (auto simp: neighbours_def region_ok_def slot_ok_def IsValid_def covers_def DoIntersect_point_def)

lemma Optimize_keeps_points_witness:
  "Optimize 3 sort_key (\<lambda>_. True) neighbours = Some [PIRect_of 2 0 2 1, PIRect_of 0 0 2 1] \<and>
    region_ok [PIRect_of 2 0 2 1, PIRect_of 0 0 2 1] \<and> region_points [PIRect_of 2 0 2 1, PIRect_of 0 0 2 1] = region_points neighbours"
proof -
  have e: "Optimize 3 sort_key (\<lambda>_. True) neighbours = Some [PIRect_of 2 0 2 1, PIRect_of 0 0 2 1]"
    by code_simp
  have "length neighbours < 3" by (simp add: neighbours_def)
  from Optimize_keeps_points [OF sorts_sort_key neighbours_ok this, of "\<lambda>_. True"] show ?thesis by (simp add: e)
qed

end
