(* ===== verification/LineClip.thy ===== *)
theory LineClip
  imports Region
begin

text \<open>Clipping a line against a rectangle (\<open>PRegion::ClipLine\<close>, \<open>System/GUI/Region.cpp\<close>), as the drawing code of \<open>ApplicationServer\<close> uses it.\<close>

section \<open>Clipping a line\<close>

text \<open>
  The two halves of the code clip one end each and differ in the rounding of the horizontal edges. \<open>xi\<close> and \<open>yi\<close> are only read when an edge
  was flagged, which sets them.
\<close>

definition edge_y :: "(int \<Rightarrow> int) \<Rightarrow> PIPoint \<Rightarrow> PIPoint \<Rightarrow> int \<Rightarrow> int" where
  "edge_y rounding from to edge =
     (let dx = p_x to - p_x from; dy = p_y to - p_y from in
      if dx \<noteq> 0 then (dy * (edge - p_x from) + rounding dx) sdiv dx + p_y from else -1)"

definition edge_x :: "PIPoint \<Rightarrow> PIPoint \<Rightarrow> int \<Rightarrow> int" where
  "edge_x from to edge =
     (let dx = p_x to - p_x from; dy = p_y to - p_y from in
      if dy \<noteq> 0 then (dx * (edge - p_y from) + dy sdiv 2) sdiv dy + p_x from else -1)"

definition clip_end :: "(int \<Rightarrow> int) \<Rightarrow> PIRect \<Rightarrow> PIPoint \<Rightarrow> PIPoint \<Rightarrow> bool \<Rightarrow> PIPoint \<times> bool" where
  "clip_end rounding rect from to success =
     (let rightEdge = p_x to \<ge> r_right rect; leftEdge = \<not> rightEdge \<and> p_x to < r_left rect;
          bottomEdge = p_y to \<ge> r_bottom rect; topEdge = \<not> bottomEdge \<and> p_y to < r_top rect;
          yi = edge_y rounding from to (if rightEdge then r_right rect - 1 else r_left rect);
          xi = edge_x from to (if bottomEdge then r_bottom rect - 1 else r_top rect);
          (point, success) =
            (if rightEdge \<and> r_top rect \<le> yi \<and> yi < r_bottom rect then (\<lparr>p_x = r_right rect - 1, p_y = yi\<rparr>, True)
             else if leftEdge \<and> r_top rect \<le> yi \<and> yi < r_bottom rect then (\<lparr>p_x = r_left rect, p_y = yi\<rparr>, True)
             else (to, success)) in
      if bottomEdge \<and> r_left rect \<le> xi \<and> xi < r_right rect then (\<lparr>p_x = xi, p_y = r_bottom rect - 1\<rparr>, True)
      else if topEdge \<and> r_left rect \<le> xi \<and> xi < r_right rect then (\<lparr>p_x = xi, p_y = r_top rect\<rparr>, True)
      else (point, success))"

definition same_side :: "PIRect \<Rightarrow> PIPoint \<Rightarrow> PIPoint \<Rightarrow> bool" where
  "same_side rect point1 point2 \<longleftrightarrow>
     p_x point1 < r_left rect \<and> p_x point2 < r_left rect \<or> p_x point1 \<ge> r_right rect \<and> p_x point2 \<ge> r_right rect \<or>
     p_y point1 < r_top rect \<and> p_y point2 < r_top rect \<or> p_y point1 \<ge> r_bottom rect \<and> p_y point2 \<ge> r_bottom rect"

definition ClipLine :: "PIRect \<Rightarrow> PIPoint \<Rightarrow> PIPoint \<Rightarrow> bool \<times> PIPoint \<times> PIPoint" where
  "ClipLine rect point1 point2 =
     (let point1Inside = DoIntersect_point rect point1; point2Inside = DoIntersect_point rect point2 in
      if point1Inside \<and> point2Inside then (True, point1, point2)
      else if \<not> point1Inside \<and> \<not> point2Inside \<and> same_side rect point1 point2 then (False, point1, point2)
      else
        let clipAlways = \<not> point1Inside \<and> \<not> point2Inside;
            (point2, success) =
              (if point1Inside \<or> clipAlways then clip_end (\<lambda>dx. dx - 1) rect point1 point2 False else (point2, False));
            (point1, success) =
              (if point2Inside \<or> clipAlways then clip_end (\<lambda>dx. dx sdiv 2) rect point2 point1 success else (point1, success)) in
        (success, point1, point2))"

lemma edges_inside:
  assumes "IsValid rect"
  shows "r_top rect \<le> v \<Longrightarrow> v < r_bottom rect \<Longrightarrow> DoIntersect_point rect \<lparr>p_x = r_right rect - 1, p_y = v\<rparr>"
    "r_top rect \<le> v \<Longrightarrow> v < r_bottom rect \<Longrightarrow> DoIntersect_point rect \<lparr>p_x = r_left rect, p_y = v\<rparr>"
    "r_left rect \<le> u \<Longrightarrow> u < r_right rect \<Longrightarrow> DoIntersect_point rect \<lparr>p_x = u, p_y = r_bottom rect - 1\<rparr>"
    "r_left rect \<le> u \<Longrightarrow> u < r_right rect \<Longrightarrow> DoIntersect_point rect \<lparr>p_x = u, p_y = r_top rect\<rparr>"
  using assms by (auto simp: DoIntersect_point_def IsValid_def)

lemma clip_end_cases:
  assumes "IsValid rect" "clip_end rounding rect from to success = (point, success')"
  shows "success' \<and> DoIntersect_point rect point \<or> point = to \<and> success' = success"
  using assms(2) edges_inside [OF assms(1)] by (auto simp: clip_end_def Let_def split: if_splits)

lemma clip_end_success: "IsValid rect \<Longrightarrow> clip_end rounding rect from to False = (point, True) \<Longrightarrow> DoIntersect_point rect point"
  using clip_end_cases [of rect rounding "from" to False point True] by simp

lemma inside_valid: "DoIntersect_point rect p \<Longrightarrow> IsValid rect"
  by (auto simp: DoIntersect_point_def IsValid_def)

text \<open>
  C38. When \<open>ClipLine\<close> reports a visible line, at least one of its ends lies in the rectangle, and both do if one of the given ends did; ends
  in the rectangle are never moved.
\<close>

theorem ClipLine_inside:
  assumes "IsValid rect" "ClipLine rect point1 point2 = (True, p1, p2)"
  shows "(DoIntersect_point rect p1 \<or> DoIntersect_point rect p2) \<and>
    (DoIntersect_point rect point1 \<longrightarrow> p1 = point1 \<and> DoIntersect_point rect p2) \<and>
    (DoIntersect_point rect point2 \<longrightarrow> p2 = point2 \<and> DoIntersect_point rect p1)"
proof (cases "DoIntersect_point rect point1 \<or> DoIntersect_point rect point2")
  case True
  then show ?thesis
    using assms clip_end_success by (auto simp: ClipLine_def Let_def split: if_splits prod.splits)
next
  case False
  then obtain success where
    first: "clip_end (\<lambda>dx. dx - 1) rect point1 point2 False = (p2, success)" and
    second: "clip_end (\<lambda>dx. dx sdiv 2) rect p2 point1 success = (p1, True)"
    using assms(2) by (auto simp: ClipLine_def Let_def split: if_splits prod.splits)
  with False clip_end_cases [OF assms(1) first] clip_end_cases [OF assms(1) second] show ?thesis by auto
qed

definition corner_rect :: PIRect where
  "corner_rect = PIRect_of 0 0 4 4"

text \<open>
  More does not hold: a line that passes by the corner is reported as visible with an end above the rectangle, where \<open>DisplayDriver\<close> then draws. A visible line
  that leaves through the left edge next to a corner is dropped.
\<close>

lemma ClipLine_leaves:
  "ClipLine corner_rect \<lparr>p_x = -6, p_y = 1\<rparr> \<lparr>p_x = 2, p_y = -1\<rparr> = (True, \<lparr>p_x = 0, p_y = 0\<rparr>, \<lparr>p_x = 2, p_y = -1\<rparr>) \<and>
   ClipLine corner_rect \<lparr>p_x = 0, p_y = 2\<rparr> \<lparr>p_x = -1, p_y = 0\<rparr> = (False, \<lparr>p_x = 0, p_y = 2\<rparr>, \<lparr>p_x = -1, p_y = 0\<rparr>)"
  by code_simp

lemma ClipLine_inside_witness:
  "ClipLine corner_rect \<lparr>p_x = 1, p_y = 2\<rparr> \<lparr>p_x = 9, p_y = 2\<rparr> = (True, \<lparr>p_x = 1, p_y = 2\<rparr>, \<lparr>p_x = 3, p_y = 2\<rparr>) \<and>
    DoIntersect_point corner_rect \<lparr>p_x = 3, p_y = 2\<rparr>"
proof -
  have v: "IsValid corner_rect" "DoIntersect_point corner_rect \<lparr>p_x = 1, p_y = 2\<rparr>" by code_simp+
  have e: "ClipLine corner_rect \<lparr>p_x = 1, p_y = 2\<rparr> \<lparr>p_x = 9, p_y = 2\<rparr> = (True, \<lparr>p_x = 1, p_y = 2\<rparr>, \<lparr>p_x = 3, p_y = 2\<rparr>)"
    by code_simp
  from ClipLine_inside [OF v(1) e] v(2) show ?thesis by (simp add: e)
qed

end
