(* ===== verification/MonitorQueue.thy ===== *)
theory MonitorQueue
  imports Prelude
begin

text \<open>
  The contract of kernel objects that guard their state with a mutex and let callers wait on a condition variable while some condition on the state
  holds, as pipes and message ports do. A section of code between two points where the mutex is released is one step. A condition variable is the
  list of those who wait on it: a wait appends the caller and releases the mutex in the same step (as \<open>KConditionVariable\<close> is shown to do), and
  \<open>WakeupAll\<close> empties the list.
\<close>

text \<open>The result of a section: the call is over, or it waits.\<close>

datatype 'a call_section = Returns "'a result" | Waits

datatype waiter = Caller nat | Listener nat

locale monitor_queue =
  fixes start :: "'s \<Rightarrow> bool"
    and mon_step :: "'s \<Rightarrow> 's \<Rightarrow> bool"
    and inv :: "'s \<Rightarrow> bool"
    and sleeps :: "'s \<Rightarrow> waiter \<Rightarrow> bool"
    and must_wait :: "'s \<Rightarrow> waiter \<Rightarrow> bool"
  assumes start_inv: "start s \<Longrightarrow> inv s"
    and start_awake: "start s \<Longrightarrow> \<not> sleeps s w"
    and step_inv: "inv s \<Longrightarrow> mon_step s s' \<Longrightarrow> inv s'"
    and step_sleeps: "inv s \<Longrightarrow> mon_step s s' \<Longrightarrow> sleeps s' w \<Longrightarrow>
      must_wait s' w \<or> sleeps s w \<and> (must_wait s w \<longrightarrow> must_wait s' w)"
begin

lemma reachable_inv: "reaches start mon_step s \<Longrightarrow> inv s"
  by (induction rule: reaches.induct) (auto intro: start_inv step_inv)

text \<open>Nobody sleeps who could go on: no wakeup is lost.\<close>

lemma no_lost_wakeup: "reaches start mon_step s \<Longrightarrow> sleeps s w \<Longrightarrow> must_wait s w"
proof (induction rule: reaches.induct)
  case (init s)
  then show ?case using start_awake by blast
next
  case (step s s')
  then show ?case using step_sleeps [OF reachable_inv [OF step(1)] step(2,4)] by blast
qed

end

end
