(* ===== verification/Pipe.thy ===== *)
theory Pipe
  imports MonitorQueue
begin

text \<open>
  Pipes (\<open>Kernel/VFS/KPipeFilesystem.cpp\<close>): a ring of \<open>PIPE_BUF\<close> bytes with its readers and writers. The sections of \<open>Read\<close> and \<open>Write\<close> are shown to take bytes
  from, and append bytes to, the list \<open>pipe_items\<close>.
\<close>

section \<open>State\<close>

text \<open>
  Positions and counts are below \<open>2 ^ 32\<close> (see \<open>pipe_inv\<close>), so naturals stand for \<open>size_t\<close>. \<open>PIPE_BUF\<close> comes from the C library; here it is the length of
  the buffer.
\<close>

record KPipeInode =
  m_ReadCondition :: "waiter list"
  m_WriteCondition :: "waiter list"
  m_Buffer :: "u8 list"
  m_ReadPos :: nat
  m_WritePos :: nat
  m_BytesAvailable :: nat
  m_ReaderCount :: int
  m_WriterCount :: int

definition KPipeInode_new :: "nat \<Rightarrow> KPipeInode" where
  "KPipeInode_new pipe_buf =
     \<lparr>m_ReadCondition = [], m_WriteCondition = [], m_Buffer = replicate pipe_buf 0, m_ReadPos = 0, m_WritePos = 0, m_BytesAvailable = 0,
      m_ReaderCount = 0, m_WriterCount = 0\<rparr>"

definition PIPE_BUF_SIZE :: "KPipeInode \<Rightarrow> nat" where
  "PIPE_BUF_SIZE p = length (m_Buffer p)"

section \<open>Reading and writing\<close>

text \<open>The copy loops are partial: \<open>None\<close> would mean that a loop does not end.\<close>

text \<open>Positions are masked with the size less 1, as the size is a power of two.\<close>

partial_function (option) read_copy :: "u8 list \<Rightarrow> nat \<Rightarrow> nat \<Rightarrow> nat \<Rightarrow> u8 list \<Rightarrow> (u8 list \<times> nat \<times> nat) option" where
  "read_copy buf toRead readPos bytesRead buffer =
     (if bytesRead < toRead then
        let contiguous = min (toRead - bytesRead) (length buf - readPos) in
        read_copy buf toRead ((readPos + contiguous) AND (length buf - 1)) (bytesRead + contiguous) (buffer @ take contiguous (drop readPos buf))
      else Some (buffer, readPos, bytesRead))"

partial_function (option) write_copy :: "u8 list \<Rightarrow> nat \<Rightarrow> nat \<Rightarrow> nat \<Rightarrow> u8 list \<Rightarrow> (u8 list \<times> nat) option" where
  "write_copy data toCopy writePos copied buf =
     (if copied < toCopy then
        let contiguous = min (toCopy - copied) (length buf - writePos) in
        write_copy data toCopy ((writePos + contiguous) AND (length buf - 1)) (copied + contiguous)
          (take writePos buf @ take contiguous (drop copied data) @ drop (writePos + contiguous) buf)
      else Some (buf, writePos))"

declare read_copy.simps [code] write_copy.simps [code]

text \<open>
  \<open>Read\<close> from the lock of the mutex, or from a wakeup, to the next wait or the end. \<open>canceled\<close> is the result of \<open>kis_thread_canceled\<close> when the wait begins.
  \<open>length\<close> is not 0: that case returns 0 before the lock.
\<close>

definition Read_section :: "bool \<Rightarrow> bool \<Rightarrow> nat \<Rightarrow> nat \<Rightarrow> KPipeInode \<Rightarrow> (u8 list call_section \<times> KPipeInode) option" where
  "Read_section nonblock canceled self len p =
     (if m_BytesAvailable p = 0 then
        if m_WriterCount p = 0 then Some (Returns (Inr []), p)
        else if nonblock then Some (Returns (Inl WOULDBLOCK), p)
        else if canceled then Some (Returns (Inl INTR), p)
        else Some (Waits, p\<lparr>m_ReadCondition := m_ReadCondition p @ [Caller self]\<rparr>)
      else
        map_option (\<lambda>(bytes, readPos, bytesRead).
            (Returns (Inr bytes), p\<lparr>m_ReadPos := readPos, m_BytesAvailable := m_BytesAvailable p - bytesRead, m_WriteCondition := []\<rparr>))
          (read_copy (m_Buffer p) (min len (m_BytesAvailable p)) (m_ReadPos p) 0 []))"

definition Read_begin :: "bool \<Rightarrow> bool \<Rightarrow> nat \<Rightarrow> nat \<Rightarrow> KPipeInode \<Rightarrow> (u8 list call_section \<times> KPipeInode) option" where
  "Read_begin nonblock canceled self len p = (if len = 0 then Some (Returns (Inr []), p) else Read_section nonblock canceled self len p)"

text \<open>\<open>Write\<close> likewise; \<open>written\<close> is what the call has written before. Every \<open>PIPE\<close> error comes with the signal \<open>SIGPIPE\<close>.\<close>

definition write_needed :: "KPipeInode \<Rightarrow> u8 list \<Rightarrow> nat \<Rightarrow> nat" where
  "write_needed p data written = (if length data \<le> PIPE_BUF_SIZE p \<and> written = 0 then length data else 1)"

function Write_section :: "bool \<Rightarrow> bool \<Rightarrow> nat \<Rightarrow> u8 list \<Rightarrow> nat \<Rightarrow> KPipeInode \<Rightarrow> (nat call_section \<times> nat \<times> KPipeInode) option" where
  "Write_section nonblock canceled self data written p =
     (if written < length data then
        if PIPE_BUF_SIZE p - m_BytesAvailable p < write_needed p data written then
          if m_ReaderCount p = 0 then Some (Returns (Inl PIPE), written, p)
          else if nonblock then Some (Returns (Inl WOULDBLOCK), written, p)
          else if canceled then Some (Returns (Inl INTR), written, p)
          else Some (Waits, written, p\<lparr>m_WriteCondition := m_WriteCondition p @ [Caller self]\<rparr>)
        else
          let toCopy = min (length data - written) (PIPE_BUF_SIZE p - m_BytesAvailable p) in
          case write_copy (drop written data) toCopy (m_WritePos p) 0 (m_Buffer p) of
            None \<Rightarrow> None
          | Some (buf, writePos) \<Rightarrow>
              let p' = p\<lparr>m_Buffer := buf, m_WritePos := writePos, m_BytesAvailable := m_BytesAvailable p + toCopy, m_ReadCondition := []\<rparr> in
              if length data \<le> PIPE_BUF_SIZE p then Some (Returns (Inr (written + toCopy)), written + toCopy, p')
              else Write_section nonblock canceled self data (written + toCopy) p'
      else Some (Returns (Inr written), written, p))"
  by pat_completeness auto
termination
  by (relation "measure (\<lambda>(_, _, _, data, written, _). length data - written)") (auto simp: write_needed_def split: if_splits)

declare Write_section.simps [simp del]

definition Write_begin :: "bool \<Rightarrow> bool \<Rightarrow> nat \<Rightarrow> u8 list \<Rightarrow> KPipeInode \<Rightarrow> (nat call_section \<times> nat \<times> KPipeInode) option" where
  "Write_begin nonblock canceled self data p =
     (if data = [] then Some (Returns (Inr 0), 0, p)
      else if m_ReaderCount p = 0 then Some (Returns (Inl PIPE), 0, p)
      else Write_section nonblock canceled self data 0 p)"

section \<open>Files\<close>

definition OpenFile :: "bool \<Rightarrow> KPipeInode \<Rightarrow> KPipeInode" where
  "OpenFile writeAccess p =
     (if writeAccess then p\<lparr>m_WriterCount := m_WriterCount p + 1\<rparr> else p\<lparr>m_ReaderCount := m_ReaderCount p + 1\<rparr>)"

text \<open>The first result tells to erase the inode from the volume.\<close>

definition CloseFile :: "bool \<Rightarrow> KPipeInode \<Rightarrow> bool \<times> KPipeInode" where
  "CloseFile writeAccess p =
     (let p =
        (if writeAccess then
           let p = p\<lparr>m_WriterCount := m_WriterCount p - 1\<rparr> in
           if m_WriterCount p = 0 then p\<lparr>m_ReadCondition := []\<rparr> else p
         else
           let p = p\<lparr>m_ReaderCount := m_ReaderCount p - 1\<rparr> in
           if m_ReaderCount p = 0 then p\<lparr>m_WriteCondition := []\<rparr> else p) in
      (m_ReaderCount p = 0 \<and> m_WriterCount p = 0, p))"

definition ReadStat_size :: "KPipeInode \<Rightarrow> nat" where
  "ReadStat_size p = m_BytesAvailable p"

definition AddListener :: "nat \<Rightarrow> ObjectWaitMode \<Rightarrow> KPipeInode \<Rightarrow> bool \<times> KPipeInode" where
  "AddListener waitNode mode p =
     (case mode of
        WriteMode \<Rightarrow> (False, p)
      | _ \<Rightarrow> if m_BytesAvailable p = 0 then (True, p\<lparr>m_ReadCondition := m_ReadCondition p @ [Listener waitNode]\<rparr>) else (False, p))"

text \<open>The volume keeps the inodes of the pipes that are in use. The errors of \<open>kopen_from_inode_trw\<close> are arguments of \<open>kpipe_trw\<close>.\<close>

record KPipeVolume =
  m_PipeInodes :: "nat \<rightharpoonup> KPipeInode"
  m_NextInodeID :: nat

definition LoadInode :: "KPipeVolume \<Rightarrow> nat \<Rightarrow> KPipeInode result" where
  "LoadInode volume inodeID = (case m_PipeInodes volume inodeID of None \<Rightarrow> Inl NOENT | Some p \<Rightarrow> Inr p)"

definition CloseFile_volume :: "bool \<Rightarrow> nat \<Rightarrow> KPipeVolume \<Rightarrow> KPipeVolume" where
  "CloseFile_volume writeAccess inodeID volume =
     (case m_PipeInodes volume inodeID of
        None \<Rightarrow> volume
      | Some p \<Rightarrow>
          let (shouldErase, p) = CloseFile writeAccess p in
          volume\<lparr>m_PipeInodes := (m_PipeInodes volume)(inodeID := if shouldErase then None else Some p)\<rparr>)"

definition kpipe_trw :: "nat \<Rightarrow> PErrorCode option \<Rightarrow> PErrorCode option \<Rightarrow> KPipeVolume \<Rightarrow> nat result \<times> KPipeVolume" where
  "kpipe_trw pipe_buf openReadError openWriteError volume =
     (let inodeID = m_NextInodeID volume;
          inodes = m_PipeInodes volume;
          volume = volume\<lparr>m_NextInodeID := inodeID + 1, m_PipeInodes := inodes(inodeID \<mapsto> KPipeInode_new pipe_buf)\<rparr>;
          erase = (\<lambda>volume. volume\<lparr>m_PipeInodes := (m_PipeInodes volume)(inodeID := None)\<rparr>) in
      case openReadError of
        Some error \<Rightarrow> (Inl error, erase volume)
      | None \<Rightarrow>
          let volume = volume\<lparr>m_PipeInodes := (m_PipeInodes volume)(inodeID := map_option (OpenFile False) (m_PipeInodes volume inodeID))\<rparr> in
          case openWriteError of
            Some error \<Rightarrow> (Inl error, erase (CloseFile_volume False inodeID volume))
          | None \<Rightarrow> (Inr inodeID, volume\<lparr>m_PipeInodes := (m_PipeInodes volume)(inodeID := map_option (OpenFile True) (m_PipeInodes volume inodeID))\<rparr>))"

section \<open>The ring\<close>

text \<open>The bytes from a position on, and how far a position lies behind another one.\<close>

definition ring :: "u8 list \<Rightarrow> nat \<Rightarrow> nat \<Rightarrow> u8 list" where
  "ring buf pos n = map (\<lambda>i. buf ! ((pos + i) mod length buf)) [0..<n]"

definition ring_distance :: "nat \<Rightarrow> nat \<Rightarrow> nat \<Rightarrow> nat" where
  "ring_distance sz pos i = (if pos \<le> i then i - pos else i + sz - pos)"

lemma length_ring [simp]: "length (ring buf pos n) = n"
  by (simp add: ring_def)

lemma nth_ring [simp]: "i < n \<Longrightarrow> ring buf pos n ! i = buf ! ((pos + i) mod length buf)"
  by (simp add: ring_def)

lemma mod_below: "a < sz \<Longrightarrow> b \<le> sz \<Longrightarrow> (a + b) mod sz = (if a + b < sz then a + b else a + b - (sz :: nat))"
  by (simp add: le_mod_geq)

lemma mask_mod: "sz = 2 ^ k \<Longrightarrow> (a :: nat) AND (sz - 1) = a mod sz"
  by (simp add: take_bit_eq_mod [symmetric] take_bit_eq_mask mask_eq_exp_minus_1)

lemma ring_empty [simp]: "ring buf pos 0 = []"
  by (simp add: ring_def)

lemma ring_add: "ring buf pos (m + n) = ring buf pos m @ ring buf ((pos + m) mod length buf) n"
proof (rule nth_equalityI)
  fix i assume i: "i < length (ring buf pos (m + n))"
  have "(pos + i) mod length buf = ((pos + m) mod length buf + (i - m)) mod length buf" if "m \<le> i"
    using that by (simp only: mod_add_left_eq) simp
  with i show "ring buf pos (m + n) ! i = (ring buf pos m @ ring buf ((pos + m) mod length buf) n) ! i"
    by (simp add: nth_append)
qed simp

lemma ring_contiguous: "pos + c \<le> length buf \<Longrightarrow> ring buf pos c = take c (drop pos buf)"
  by (rule nth_equalityI) auto

lemma read_copy_ok:
  assumes "length buf = 2 ^ k" "pos < length buf" "bytesRead \<le> toRead"
  shows "read_copy buf toRead pos bytesRead buffer =
    Some (buffer @ ring buf pos (toRead - bytesRead), (pos + (toRead - bytesRead)) mod length buf, toRead)"
  using assms(2,3)
proof (induction "toRead - bytesRead" arbitrary: pos bytesRead buffer rule: less_induct)
  case less
  show ?case
  proof (cases "bytesRead < toRead")
    case False
    then show ?thesis using less.prems by (subst read_copy.simps) (simp add: ring_def)
  next
    case True
    define c where "c = min (toRead - bytesRead) (length buf - pos)"
    have c: "c > 0" "bytesRead + c \<le> toRead" "pos + c \<le> length buf" using True less.prems by (auto simp: c_def)
    have n: "toRead - bytesRead = c + (toRead - (bytesRead + c))" using c by simp
    have "read_copy buf toRead pos bytesRead buffer =
        read_copy buf toRead ((pos + c) mod length buf) (bytesRead + c) (buffer @ take c (drop pos buf))"
      using True by (subst read_copy.simps) (simp only: Let_def if_True mask_mod [OF assms(1)] c_def)
    also have "\<dots> = Some ((buffer @ take c (drop pos buf)) @ ring buf ((pos + c) mod length buf) (toRead - (bytesRead + c)),
        ((pos + c) mod length buf + (toRead - (bytesRead + c))) mod length buf, toRead)"
      using c assms(1) True by (intro less.hyps) auto
    also have "\<dots> = Some (buffer @ ring buf pos (toRead - bytesRead), (pos + (toRead - bytesRead)) mod length buf, toRead)"
      unfolding n ring_add ring_contiguous [OF c(3)] by (simp add: mod_add_left_eq add.assoc)
    finally show ?thesis .
  qed
qed

lemma memcpy_nth:
  assumes "pos + c \<le> length buf" "c \<le> length src" "i < length buf"
  shows "(take pos buf @ take c src @ drop (pos + c) buf) ! i = (if pos \<le> i \<and> i < pos + c then src ! (i - pos) else buf ! i)"
  using assms by (auto simp: nth_append)

lemma write_copy_ok:
  assumes "length buf = 2 ^ k" "pos < length buf" "copied \<le> toCopy" "toCopy - copied \<le> length buf" "toCopy \<le> length data"
  shows "\<exists>buf'. write_copy data toCopy pos copied buf = Some (buf', (pos + (toCopy - copied)) mod length buf) \<and> length buf' = length buf \<and>
    (\<forall>i < length buf. buf' ! i =
       (if ring_distance (length buf) pos i < toCopy - copied then data ! (copied + ring_distance (length buf) pos i) else buf ! i))"
  using assms
proof (induction "toCopy - copied" arbitrary: pos copied buf rule: less_induct)
  case less
  show ?case
  proof (cases "copied < toCopy")
    case False
    then show ?thesis using less.prems by (subst write_copy.simps) simp
  next
    case True
    let ?n = "length buf"
    define c where "c = min (toCopy - copied) (?n - pos)"
    let ?b = "take pos buf @ take c (drop copied data) @ drop (pos + c) buf"
    have c: "c > 0" "copied + c \<le> toCopy" "pos + c \<le> ?n" "c \<le> length (drop copied data)" using True less.prems by (auto simp: c_def)
    have b: "length ?b = ?n" using c by simp
    have step: "write_copy data toCopy pos copied buf = write_copy data toCopy ((pos + c) mod ?n) (copied + c) ?b"
      using True by (subst write_copy.simps) (simp only: Let_def if_True mask_mod [OF less.prems(1)] c_def)
    have "\<exists>buf'. write_copy data toCopy ((pos + c) mod ?n) (copied + c) ?b =
          Some (buf', ((pos + c) mod ?n + (toCopy - (copied + c))) mod length ?b) \<and> length buf' = length ?b \<and>
        (\<forall>i < length ?b. buf' ! i =
          (if ring_distance (length ?b) ((pos + c) mod ?n) i < toCopy - (copied + c)
           then data ! (copied + c + ring_distance (length ?b) ((pos + c) mod ?n) i) else ?b ! i))"
      unfolding b using less.prems True c by (intro less.hyps [where buf = ?b, unfolded b]) auto
    then obtain buf' where buf': "write_copy data toCopy ((pos + c) mod ?n) (copied + c) ?b =
          Some (buf', ((pos + c) mod ?n + (toCopy - (copied + c))) mod ?n)" "length buf' = ?n"
        "\<And>i. i < ?n \<Longrightarrow> buf' ! i =
          (if ring_distance ?n ((pos + c) mod ?n) i < toCopy - (copied + c)
           then data ! (copied + c + ring_distance ?n ((pos + c) mod ?n) i) else ?b ! i)"
      unfolding b by blast
    have "((pos + c) mod ?n + (toCopy - (copied + c))) mod ?n = (pos + (toCopy - copied)) mod ?n"
    proof -
      have n: "toCopy - copied = c + (toCopy - (copied + c))" using c by simp
      show ?thesis by (simp only: n mod_add_left_eq add.assoc)
    qed
    moreover have "buf' ! i = (if ring_distance ?n pos i < toCopy - copied then data ! (copied + ring_distance ?n pos i) else buf ! i)"
      if i: "i < ?n" for i
    proof (cases "pos \<le> i \<and> i < pos + c")
      case inside: True
      then have "\<not> ring_distance ?n ((pos + c) mod ?n) i < toCopy - (copied + c)"
        using less.prems c by (auto simp: ring_distance_def mod_below)
      moreover have "ring_distance ?n pos i = i - pos" "i - pos < toCopy - copied" using inside c(2) by (auto simp: ring_distance_def)
      moreover have "drop copied data ! (i - pos) = data ! (copied + (i - pos))" using less.prems(3,5) by (intro nth_drop) simp
      ultimately show ?thesis using buf'(3) [OF i] memcpy_nth [OF c(3,4) i] inside by simp
    next
      case False
      then have "ring_distance ?n pos i = c + ring_distance ?n ((pos + c) mod ?n) i"
        using less.prems c i by (auto simp: ring_distance_def mod_below)
      then show ?thesis using buf'(3) [OF i] memcpy_nth [OF c(3,4) i] False c by (auto simp: add.assoc)
    qed
    ultimately show ?thesis using step buf'(1,2) by auto
  qed
qed

section \<open>The sections\<close>

text \<open>The bytes in the pipe, oldest first.\<close>

definition pipe_items :: "KPipeInode \<Rightarrow> u8 list" where
  "pipe_items p = ring (m_Buffer p) (m_ReadPos p) (m_BytesAvailable p)"

definition pipe_inv :: "KPipeInode \<Rightarrow> bool" where
  "pipe_inv p \<longleftrightarrow> (\<exists>k. PIPE_BUF_SIZE p = 2 ^ k) \<and> m_ReadPos p < PIPE_BUF_SIZE p \<and> m_BytesAvailable p \<le> PIPE_BUF_SIZE p \<and>
     m_WritePos p = (m_ReadPos p + m_BytesAvailable p) mod PIPE_BUF_SIZE p \<and> m_ReaderCount p \<ge> 0 \<and> m_WriterCount p \<ge> 0"

lemma length_pipe_items [simp]: "length (pipe_items p) = m_BytesAvailable p"
  by (simp add: pipe_items_def)

lemma KPipeInode_new_ok: "pipe_buf = 2 ^ k \<Longrightarrow> pipe_inv (KPipeInode_new pipe_buf) \<and> pipe_items (KPipeInode_new pipe_buf) = []"
  by (auto simp: pipe_inv_def KPipeInode_new_def PIPE_BUF_SIZE_def pipe_items_def ring_def)

text \<open>The two conditions on which calls wait.\<close>

definition read_blocks :: "KPipeInode \<Rightarrow> bool" where
  "read_blocks p \<longleftrightarrow> m_BytesAvailable p = 0 \<and> m_WriterCount p \<noteq> 0"

definition write_blocks :: "u8 list \<Rightarrow> nat \<Rightarrow> KPipeInode \<Rightarrow> bool" where
  "write_blocks data written p \<longleftrightarrow> written < length data \<and> PIPE_BUF_SIZE p - m_BytesAvailable p < write_needed p data written \<and> m_ReaderCount p \<noteq> 0"

lemma Read_section_takes:
  assumes "pipe_inv p" "m_BytesAvailable p \<noteq> 0"
  shows "\<exists>p'. Read_section nonblock canceled self len p = Some (Returns (Inr (take len (pipe_items p))), p') \<and>
    pipe_inv p' \<and> pipe_items p' = drop len (pipe_items p) \<and> m_ReaderCount p' = m_ReaderCount p \<and> m_WriterCount p' = m_WriterCount p \<and>
    m_ReadCondition p' = m_ReadCondition p \<and> m_WriteCondition p' = [] \<and> PIPE_BUF_SIZE p' = PIPE_BUF_SIZE p"
proof -
  let ?n = "min len (m_BytesAvailable p)" and ?size = "PIPE_BUF_SIZE p"
  let ?p = "p\<lparr>m_ReadPos := (m_ReadPos p + ?n) mod ?size, m_BytesAvailable := m_BytesAvailable p - ?n, m_WriteCondition := []\<rparr>"
  obtain k where k: "length (m_Buffer p) = 2 ^ k" "m_ReadPos p < length (m_Buffer p)"
    using assms(1) by (auto simp: pipe_inv_def PIPE_BUF_SIZE_def)
  have split: "pipe_items p = ring (m_Buffer p) (m_ReadPos p) ?n @
      ring (m_Buffer p) ((m_ReadPos p + ?n) mod length (m_Buffer p)) (m_BytesAvailable p - ?n)"
    by (simp add: pipe_items_def flip: ring_add)
  then have t: "take len (pipe_items p) = ring (m_Buffer p) (m_ReadPos p) ?n" by (simp add: min_def)
  have r: "Read_section nonblock canceled self len p = Some (Returns (Inr (take len (pipe_items p))), ?p)"
    using assms(2) unfolding t by (simp add: Read_section_def read_copy_ok [OF k le0] PIPE_BUF_SIZE_def)
  have "pipe_items ?p = drop len (pipe_items p)"
    unfolding split by (simp add: pipe_items_def PIPE_BUF_SIZE_def min_def)
  moreover have "pipe_inv ?p"
  proof -
    have "((m_ReadPos p + ?n) mod ?size + (m_BytesAvailable p - ?n)) mod ?size = (m_ReadPos p + m_BytesAvailable p) mod ?size"
      unfolding mod_add_left_eq by simp
    moreover have "0 < ?size" using k by (simp add: PIPE_BUF_SIZE_def)
    ultimately show ?thesis using assms(1) unfolding pipe_inv_def PIPE_BUF_SIZE_def by (simp add: diff_le_self [THEN le_trans])
  qed
  ultimately show ?thesis using r by (intro exI [of _ ?p]) (simp add: PIPE_BUF_SIZE_def)
qed

lemma Read_section_empty:
  assumes "m_BytesAvailable p = 0"
  shows "Read_section nonblock canceled self len p =
    (if m_WriterCount p = 0 then Some (Returns (Inr []), p) else if nonblock then Some (Returns (Inl WOULDBLOCK), p)
     else if canceled then Some (Returns (Inl INTR), p) else Some (Waits, p\<lparr>m_ReadCondition := m_ReadCondition p @ [Caller self]\<rparr>))"
  using assms by (simp add: Read_section_def)

lemma write_chunk:
  assumes "pipe_inv p" "n \<le> PIPE_BUF_SIZE p - m_BytesAvailable p" "n \<le> length data"
  shows "\<exists>buf pos. write_copy data n (m_WritePos p) 0 (m_Buffer p) = Some (buf, pos) \<and> length buf = PIPE_BUF_SIZE p \<and>
    pipe_inv (p\<lparr>m_Buffer := buf, m_WritePos := pos, m_BytesAvailable := m_BytesAvailable p + n, m_ReadCondition := []\<rparr>) \<and>
    pipe_items (p\<lparr>m_Buffer := buf, m_WritePos := pos, m_BytesAvailable := m_BytesAvailable p + n, m_ReadCondition := []\<rparr>) = pipe_items p @ take n data"
proof -
  let ?sz = "length (m_Buffer p)" and ?rp = "m_ReadPos p" and ?av = "m_BytesAvailable p"
  obtain k where k: "?sz = 2 ^ k" and i: "?rp < ?sz" "?av \<le> ?sz" "m_WritePos p = (?rp + ?av) mod ?sz"
    using assms(1) by (auto simp: pipe_inv_def PIPE_BUF_SIZE_def)
  have n: "n - 0 \<le> ?sz" "?av + n \<le> ?sz" using assms(2) i by (auto simp: PIPE_BUF_SIZE_def)
  have "0 < ?sz" using i(1) by (rule le_less_trans [OF le0])
  then have w: "m_WritePos p < ?sz" unfolding i(3) by (rule mod_less_divisor)
  obtain buf where buf: "write_copy data n (m_WritePos p) 0 (m_Buffer p) = Some (buf, (m_WritePos p + n) mod ?sz)" "length buf = ?sz"
      "\<And>i. i < ?sz \<Longrightarrow> buf ! i = (if ring_distance ?sz (m_WritePos p) i < n then data ! ring_distance ?sz (m_WritePos p) i else m_Buffer p ! i)"
    using write_copy_ok [OF k w le0 n(1) assms(3)] by auto
  let ?p = "p\<lparr>m_Buffer := buf, m_WritePos := (m_WritePos p + n) mod ?sz, m_BytesAvailable := ?av + n, m_ReadCondition := []\<rparr>"
  have "pipe_inv ?p" using assms(1) n buf(2) i by (auto simp: pipe_inv_def PIPE_BUF_SIZE_def mod_add_left_eq add.assoc)
  moreover have "pipe_items ?p = pipe_items p @ take n data"
  proof (rule nth_equalityI)
    fix j assume j: "j < length (pipe_items ?p)"
    let ?i = "(?rp + j) mod ?sz"
    have "?i < ?sz" using \<open>0 < ?sz\<close> by (rule mod_less_divisor)
    note b = buf(3) [OF this]
    show "pipe_items ?p ! j = (pipe_items p @ take n data) ! j"
    proof (cases "j < ?av")
      case True
      then have "\<not> ring_distance ?sz (m_WritePos p) ?i < n"
        using i n j unfolding i(3) by (auto simp: ring_distance_def mod_below)
      with b True j show ?thesis by (simp add: pipe_items_def buf(2) nth_append)
    next
      case False
      then have "ring_distance ?sz (m_WritePos p) ?i = j - ?av"
        using i n j unfolding i(3) by (auto simp: ring_distance_def mod_below)
      moreover have "j - ?av < n" using j False by simp
      ultimately show ?thesis using b False j by (simp add: pipe_items_def buf(2) nth_append)
    qed
  qed (use assms(3) in simp)
  ultimately show ?thesis using buf(1,2) by (auto simp: PIPE_BUF_SIZE_def)
qed

text \<open>
  What a section of \<open>Write\<close> does: it appends the bytes it writes, all of them when it returns, and it waits or fails only when it must.
\<close>

definition write_done :: "bool \<Rightarrow> bool \<Rightarrow> nat \<Rightarrow> u8 list \<Rightarrow> nat \<Rightarrow> KPipeInode \<Rightarrow> nat call_section \<Rightarrow> nat \<Rightarrow> KPipeInode \<Rightarrow> bool" where
  "write_done nonblock canceled self data written p r w p' \<longleftrightarrow>
     pipe_inv p' \<and> written \<le> w \<and> w \<le> length data \<and> pipe_items p' = pipe_items p @ take (w - written) (drop written data) \<and>
     m_ReaderCount p' = m_ReaderCount p \<and> m_WriterCount p' = m_WriterCount p \<and> PIPE_BUF_SIZE p' = PIPE_BUF_SIZE p \<and>
     m_ReadCondition p' = (if w = written then m_ReadCondition p else []) \<and>
     m_WriteCondition p' = (case r of Waits \<Rightarrow> m_WriteCondition p @ [Caller self] | _ \<Rightarrow> m_WriteCondition p) \<and>
     (case r of
        Returns (Inr n) \<Rightarrow> n = length data \<and> w = length data
      | Returns (Inl e) \<Rightarrow> w < length data \<and> PIPE_BUF_SIZE p' - m_BytesAvailable p' < write_needed p' data w \<and>
          (if m_ReaderCount p' = 0 then e = PIPE else if nonblock then e = WOULDBLOCK else canceled \<and> e = INTR)
      | Waits \<Rightarrow> write_blocks data w p' \<and> \<not> nonblock) \<and>
     (length data \<le> PIPE_BUF_SIZE p \<longrightarrow> w = written \<or> w = length data)"

lemma Write_section_ok:
  assumes "pipe_inv p" "written \<le> length data" "length data \<le> PIPE_BUF_SIZE p \<longrightarrow> written = 0"
  shows "\<exists>r w p'. Write_section nonblock canceled self data written p = Some (r, w, p') \<and> write_done nonblock canceled self data written p r w p'"
  using assms
proof (induction nonblock canceled self data written p rule: Write_section.induct)
  case (1 nonblock canceled self data written p)
  note simps = Write_section.simps [of nonblock canceled self data written p]
  let ?free = "PIPE_BUF_SIZE p - m_BytesAvailable p"
  show ?case
  proof (cases "written < length data \<and> \<not> ?free < write_needed p data written")
    case False
    then show ?thesis using 1(2-4)
      by (subst simps) (auto simp: write_done_def write_blocks_def pipe_items_def pipe_inv_def PIPE_BUF_SIZE_def write_needed_def)
  next
    case True
    define n where "n = min (length data - written) ?free"
    have "write_needed p data written > 0" using True by (auto simp: write_needed_def)
    then have n: "n > 0" "n \<le> ?free" "written + n \<le> length data" using True unfolding n_def by linarith+
    obtain buf pos where c: "write_copy (drop written data) n (m_WritePos p) 0 (m_Buffer p) = Some (buf, pos)" "length buf = PIPE_BUF_SIZE p"
      and ok: "pipe_inv (p\<lparr>m_Buffer := buf, m_WritePos := pos, m_BytesAvailable := m_BytesAvailable p + n, m_ReadCondition := []\<rparr>)"
        "pipe_items (p\<lparr>m_Buffer := buf, m_WritePos := pos, m_BytesAvailable := m_BytesAvailable p + n, m_ReadCondition := []\<rparr>) =
          pipe_items p @ take n (drop written data)"
    proof -
      have "n \<le> length (drop written data)" using n(3) by simp
      from write_chunk [OF 1(2) n(2) this] show thesis using that by blast
    qed
    define p1 where "p1 = p\<lparr>m_Buffer := buf, m_WritePos := pos, m_BytesAvailable := m_BytesAvailable p + n, m_ReadCondition := []\<rparr>"
    note ok = ok [folded p1_def]
    have p1: "PIPE_BUF_SIZE p1 = PIPE_BUF_SIZE p" "m_ReaderCount p1 = m_ReaderCount p" "m_WriterCount p1 = m_WriterCount p" "m_ReadCondition p1 = []"
        "m_WriteCondition p1 = m_WriteCondition p"
      using c(2) by (simp_all add: PIPE_BUF_SIZE_def p1_def)
    show ?thesis
    proof (cases "length data \<le> PIPE_BUF_SIZE p")
      case atomic: True
      have w: "written = 0" "n = length data" using atomic True 1(4) by (auto simp: write_needed_def n_def)
      have "Write_section nonblock canceled self data written p = Some (Returns (Inr (length data)), length data, p1)"
        using True c(1) atomic w by (subst simps) (simp add: Let_def n_def p1_def)
      moreover have "write_done nonblock canceled self data written p (Returns (Inr (length data))) (length data) p1"
        using ok p1 w n True by (simp add: write_done_def)
      ultimately show ?thesis by blast
    next
      case False
      have e: "Write_section nonblock canceled self data written p = Write_section nonblock canceled self data (written + n) p1"
        using True c(1) False by (subst simps) (simp add: Let_def n_def p1_def)
      have "\<exists>r w p'. Write_section nonblock canceled self data (written + n) p1 = Some (r, w, p') \<and>
          write_done nonblock canceled self data (written + n) p1 r w p'"
        unfolding p1_def using True False n ok(1) p1(1)
        by (intro 1(1) [OF _ _ n_def c(1) refl refl False]) (simp_all add: p1_def)
      then obtain r w p' where r: "Write_section nonblock canceled self data (written + n) p1 = Some (r, w, p')"
          "write_done nonblock canceled self data (written + n) p1 r w p'"
        by blast
      have "take n (drop written data) @ take (w - (written + n)) (drop (written + n) data) = take (w - written) (drop written data)"
        if "written + n \<le> w"
        using take_add [of n "w - (written + n)" "drop written data"] that by (simp add: add.commute)
      then have "write_done nonblock canceled self data written p r w p'"
        using r(2) ok(2) n False unfolding write_done_def p1 by auto
      then show ?thesis using e r(1) by auto
    qed
  qed
qed

end
