(* ===== verification/PipeSystem.thy ===== *)
theory PipeSystem
  imports Pipe
begin

text \<open>
  A pipe with all its callers: the stream of bytes, and that no wakeup is lost (contract \<open>monitor_queue\<close>, interpreted for readers and for writers).
\<close>

section \<open>Callers together\<close>

text \<open>
  Threads that read and write, files that are opened and closed, listeners of wait groups that come and go. Two logs record what was read and written. The result of
  \<open>kis_thread_canceled\<close> and the flag \<open>O_NONBLOCK\<close> are arbitrary in every section. A waiting thread may go on when it is no longer on the list,
  and may be interrupted at any time.
\<close>

datatype pipe_call = Outside | is_Reading: Reading nat | is_Writing: Writing "u8 list" nat

record pipe_sys =
  ps_inode :: KPipeInode
  ps_call :: "nat \<Rightarrow> pipe_call"
  ps_read :: "u8 list"
  ps_written :: "u8 list"

fun read_result :: "u8 list call_section \<Rightarrow> u8 list" where
  "read_result (Returns (Inr bytes)) = bytes"
| "read_result _ = []"

definition after_read :: "nat \<Rightarrow> nat \<Rightarrow> u8 list call_section \<Rightarrow> KPipeInode \<Rightarrow> pipe_sys \<Rightarrow> pipe_sys" where
  "after_read t len r p s = s\<lparr>ps_inode := p, ps_call := (ps_call s)(t := if r = Waits then Reading len else Outside), ps_read := ps_read s @ read_result r\<rparr>"

definition after_write :: "nat \<Rightarrow> u8 list \<Rightarrow> nat \<Rightarrow> nat call_section \<Rightarrow> nat \<Rightarrow> KPipeInode \<Rightarrow> pipe_sys \<Rightarrow> pipe_sys" where
  "after_write t data written r w p s =
     s\<lparr>ps_inode := p, ps_call := (ps_call s)(t := if r = Waits then Writing data w else Outside),
       ps_written := ps_written s @ take (w - written) (drop written data)\<rparr>"

inductive pipe_step :: "pipe_sys \<Rightarrow> pipe_sys \<Rightarrow> bool" where
  reads: "ps_call s t = Outside \<Longrightarrow> Read_begin nonblock canceled t len (ps_inode s) = Some (r, p) \<Longrightarrow> pipe_step s (after_read t len r p s)"
| read_on: "ps_call s t = Reading len \<Longrightarrow> Caller t \<notin> set (m_ReadCondition (ps_inode s)) \<Longrightarrow>
    Read_section nonblock canceled t len (ps_inode s) = Some (r, p) \<Longrightarrow> pipe_step s (after_read t len r p s)"
| read_interrupted: "ps_call s t = Reading len \<Longrightarrow>
    pipe_step s (s\<lparr>ps_inode := (ps_inode s)\<lparr>m_ReadCondition := removeAll (Caller t) (m_ReadCondition (ps_inode s))\<rparr>, ps_call := (ps_call s)(t := Outside)\<rparr>)"
| writes: "ps_call s t = Outside \<Longrightarrow> Write_begin nonblock canceled t data (ps_inode s) = Some (r, w, p) \<Longrightarrow> pipe_step s (after_write t data 0 r w p s)"
| write_on: "ps_call s t = Writing data written \<Longrightarrow> Caller t \<notin> set (m_WriteCondition (ps_inode s)) \<Longrightarrow>
    Write_section nonblock canceled t data written (ps_inode s) = Some (r, w, p) \<Longrightarrow> pipe_step s (after_write t data written r w p s)"
| write_interrupted: "ps_call s t = Writing data written \<Longrightarrow>
    pipe_step s (s\<lparr>ps_inode := (ps_inode s)\<lparr>m_WriteCondition := removeAll (Caller t) (m_WriteCondition (ps_inode s))\<rparr>, ps_call := (ps_call s)(t := Outside)\<rparr>)"
| open_file: "pipe_step s (s\<lparr>ps_inode := OpenFile writeAccess (ps_inode s)\<rparr>)"
| close_file: "(if writeAccess then m_WriterCount (ps_inode s) else m_ReaderCount (ps_inode s)) > 0 \<Longrightarrow>
    pipe_step s (s\<lparr>ps_inode := snd (CloseFile writeAccess (ps_inode s))\<rparr>)"
| listen: "pipe_step s (s\<lparr>ps_inode := snd (AddListener n mode (ps_inode s))\<rparr>)"
| unlisten: "pipe_step s (s\<lparr>ps_inode := (ps_inode s)\<lparr>m_ReadCondition := removeAll (Listener n) (m_ReadCondition (ps_inode s))\<rparr>\<rparr>)"

definition pipe_start :: "nat \<Rightarrow> pipe_sys \<Rightarrow> bool" where
  "pipe_start pipe_buf s \<longleftrightarrow> (\<exists>k. pipe_buf = 2 ^ k) \<and>
     s = \<lparr>ps_inode = KPipeInode_new pipe_buf, ps_call = (\<lambda>_. Outside), ps_read = [], ps_written = []\<rparr>"

definition pipe_reachable :: "nat \<Rightarrow> pipe_sys \<Rightarrow> bool" where
  "pipe_reachable pipe_buf = reaches (pipe_start pipe_buf) pipe_step"

text \<open>The invariant of the system.\<close>

definition call_ok :: "KPipeInode \<Rightarrow> pipe_call \<Rightarrow> bool" where
  "call_ok p c \<longleftrightarrow> (case c of Writing data written \<Rightarrow> written < length data \<and> (length data \<le> PIPE_BUF_SIZE p \<longrightarrow> written = 0) | _ \<Rightarrow> True)"

definition pipe_sys_inv :: "nat \<Rightarrow> pipe_sys \<Rightarrow> bool" where
  "pipe_sys_inv pipe_buf s \<longleftrightarrow> pipe_inv (ps_inode s) \<and> PIPE_BUF_SIZE (ps_inode s) = pipe_buf \<and> ps_read s @ pipe_items (ps_inode s) = ps_written s \<and>
     (\<forall>t. call_ok (ps_inode s) (ps_call s t)) \<and>
     (\<forall>t. Caller t \<in> set (m_ReadCondition (ps_inode s)) \<longrightarrow> is_Reading (ps_call s t)) \<and>
     (\<forall>t. Caller t \<in> set (m_WriteCondition (ps_inode s)) \<longrightarrow> is_Writing (ps_call s t)) \<and> (\<forall>l. Listener l \<notin> set (m_WriteCondition (ps_inode s)))"

definition reader_waits :: "pipe_sys \<Rightarrow> waiter \<Rightarrow> bool" where
  "reader_waits s w \<longleftrightarrow> m_BytesAvailable (ps_inode s) = 0 \<and> (\<forall>t. w = Caller t \<longrightarrow> m_WriterCount (ps_inode s) \<noteq> 0)"

definition writer_waits :: "pipe_sys \<Rightarrow> waiter \<Rightarrow> bool" where
  "writer_waits s w \<longleftrightarrow> (case w of
       Caller t \<Rightarrow> (case ps_call s t of Writing data written \<Rightarrow> write_blocks data written (ps_inode s) | _ \<Rightarrow> False)
     | Listener l \<Rightarrow> False)"

definition queue_kept :: "(pipe_sys \<Rightarrow> waiter \<Rightarrow> bool) \<Rightarrow> (KPipeInode \<Rightarrow> waiter list) \<Rightarrow> pipe_sys \<Rightarrow> pipe_sys \<Rightarrow> bool" where
  "queue_kept waits queue s s' \<longleftrightarrow>
     (\<forall>w \<in> set (queue (ps_inode s')). waits s' w \<or> w \<in> set (queue (ps_inode s)) \<and> (waits s w \<longrightarrow> waits s' w))"

lemma write_blocks_more: "write_blocks data written p \<Longrightarrow> m_BytesAvailable p \<le> m_BytesAvailable p' \<Longrightarrow> PIPE_BUF_SIZE p' = PIPE_BUF_SIZE p \<Longrightarrow>
    m_ReaderCount p' \<noteq> 0 \<Longrightarrow> write_blocks data written p'"
  by (auto simp: write_blocks_def write_needed_def split: if_splits)

lemma call_ok_size: "PIPE_BUF_SIZE p' = PIPE_BUF_SIZE p \<Longrightarrow> call_ok p' = call_ok p"
  by (rule ext) (simp add: call_ok_def split: pipe_call.split)

lemma call_ok_simps [simp]: "call_ok p Outside" "call_ok p (Reading len)"
  by (simp_all add: call_ok_def)

lemma after_read_ok:
  assumes inv: "pipe_sys_inv n s" and r: "Read_section nonblock canceled t len (ps_inode s) = Some (r, p)"
    and t: "Caller t \<notin> set (m_WriteCondition (ps_inode s))" "Caller t \<notin> set (m_ReadCondition (ps_inode s))"
  shows "pipe_sys_inv n (after_read t len r p s) \<and> queue_kept reader_waits m_ReadCondition s (after_read t len r p s) \<and>
    queue_kept writer_waits m_WriteCondition s (after_read t len r p s)"
proof (cases "m_BytesAvailable (ps_inode s) = 0")
  case True
  let ?p = "ps_inode s"
  have c: "call_ok (?p\<lparr>m_ReadCondition := q\<rparr>) = call_ok ?p" for q by (rule call_ok_size) (simp add: PIPE_BUF_SIZE_def)
  have e: "pipe_inv (?p\<lparr>m_ReadCondition := q\<rparr>) = pipe_inv ?p" "pipe_items (?p\<lparr>m_ReadCondition := q\<rparr>) = pipe_items ?p"
      "PIPE_BUF_SIZE (?p\<lparr>m_ReadCondition := q\<rparr>) = PIPE_BUF_SIZE ?p" "write_blocks d w (?p\<lparr>m_ReadCondition := q\<rparr>) = write_blocks d w ?p" for q d w
    by (simp_all add: pipe_inv_def pipe_items_def PIPE_BUF_SIZE_def write_blocks_def write_needed_def)
  have "r = Waits \<and> p = ?p\<lparr>m_ReadCondition := m_ReadCondition ?p @ [Caller t]\<rparr> \<and> m_WriterCount ?p \<noteq> 0 \<or> r \<noteq> Waits \<and> p = ?p \<and> read_result r = []"
    using r unfolding Read_section_empty [OF True] by (auto split: if_splits)
  then show ?thesis
  proof (elim disjE conjE)
    assume "r = Waits" "p = ?p\<lparr>m_ReadCondition := m_ReadCondition ?p @ [Caller t]\<rparr>" "m_WriterCount ?p \<noteq> 0"
    then show ?thesis using inv t True
      by (auto simp: pipe_sys_inv_def after_read_def queue_kept_def reader_waits_def writer_waits_def c e split: waiter.splits pipe_call.splits)
  next
    assume "r \<noteq> Waits" "p = ?p" "read_result r = []"
    then show ?thesis using inv t
      by (auto simp: pipe_sys_inv_def after_read_def queue_kept_def reader_waits_def writer_waits_def split: waiter.splits pipe_call.splits)
  qed
next
  case False
  have i: "pipe_inv (ps_inode s)" using inv by (simp add: pipe_sys_inv_def)
  obtain p' where p': "Read_section nonblock canceled t len (ps_inode s) = Some (Returns (Inr (take len (pipe_items (ps_inode s)))), p')"
      "pipe_inv p'" "pipe_items p' = drop len (pipe_items (ps_inode s))" "m_ReadCondition p' = m_ReadCondition (ps_inode s)"
      "m_WriterCount p' = m_WriterCount (ps_inode s)" "m_WriteCondition p' = []" "PIPE_BUF_SIZE p' = PIPE_BUF_SIZE (ps_inode s)"
    using Read_section_takes [OF i False] by blast
  then have r: "r = Returns (Inr (take len (pipe_items (ps_inode s))))" "p = p'" using r by simp_all
  have a: "m_BytesAvailable p' \<le> m_BytesAvailable (ps_inode s)"
    using p'(3) by (metis length_pipe_items length_drop diff_le_self)
  have c: "call_ok p' = call_ok (ps_inode s)" by (rule call_ok_size [OF p'(7)])
  show ?thesis using inv t p'(2-) a
    by (auto simp: pipe_sys_inv_def after_read_def queue_kept_def reader_waits_def writer_waits_def r c split: waiter.splits pipe_call.splits)
qed

lemma after_write_ok:
  assumes inv: "pipe_sys_inv n s" and w: "write_done nonblock canceled t data written (ps_inode s) r w p" "written < length data"
      "length data \<le> n \<longrightarrow> written = 0"
    and t: "Caller t \<notin> set (m_WriteCondition (ps_inode s))" "Caller t \<notin> set (m_ReadCondition (ps_inode s))"
  shows "pipe_sys_inv n (after_write t data written r w p s) \<and> queue_kept reader_waits m_ReadCondition s (after_write t data written r w p s) \<and>
    queue_kept writer_waits m_WriteCondition s (after_write t data written r w p s)"
proof -
  let ?p = "ps_inode s"
  have p: "pipe_inv p" "pipe_items p = pipe_items ?p @ take (w - written) (drop written data)" "written \<le> w" "w \<le> length data"
      "m_ReaderCount p = m_ReaderCount ?p" "m_WriterCount p = m_WriterCount ?p" "PIPE_BUF_SIZE p = PIPE_BUF_SIZE ?p"
      "m_ReadCondition p = (if w = written then m_ReadCondition ?p else [])"
      "m_WriteCondition p = (if r = Waits then m_WriteCondition ?p @ [Caller t] else m_WriteCondition ?p)"
      "r = Waits \<Longrightarrow> write_blocks data w p" "length data \<le> PIPE_BUF_SIZE ?p \<longrightarrow> w = written \<or> w = length data"
    using w(1) unfolding write_done_def by (auto split: call_section.splits)
  have a: "m_BytesAvailable p = m_BytesAvailable ?p + (w - written)"
    using arg_cong [OF p(2), of length] p(4) by simp
  have c: "call_ok p = call_ok ?p" by (rule call_ok_size [OF p(7)])
  have wb: "write_blocks d u ?p \<Longrightarrow> write_blocks d u p" for d u
    by (rule write_blocks_more) (use a p(5,7) in \<open>auto simp: write_blocks_def\<close>)
  have new: "r = Waits \<Longrightarrow> call_ok ?p (Writing data w)"
    using p(10,11) w(3) inv by (auto simp: call_ok_def write_blocks_def pipe_sys_inv_def)
  have "pipe_sys_inv n (after_write t data written r w p s)"
    using inv p(1,2) t new by (auto simp: pipe_sys_inv_def after_write_def c p(7-9) split: if_splits)
  moreover have "queue_kept reader_waits m_ReadCondition s (after_write t data written r w p s)"
    using p(3) by (auto simp: queue_kept_def after_write_def reader_waits_def p(6,8) a)
  moreover have "queue_kept writer_waits m_WriteCondition s (after_write t data written r w p s)"
    using p(10) wb t(1) by (fastforce simp: queue_kept_def after_write_def writer_waits_def p(9) split: if_splits waiter.splits pipe_call.splits)
  ultimately show ?thesis by blast
qed

lemma change_inode:
  assumes "pipe_sys_inv n s" "pipe_inv p" "pipe_items p = pipe_items (ps_inode s)" "PIPE_BUF_SIZE p = PIPE_BUF_SIZE (ps_inode s)"
    "\<And>t. Caller t \<in> set (m_ReadCondition p) \<Longrightarrow> is_Reading (call t)" "\<And>t. Caller t \<in> set (m_WriteCondition p) \<Longrightarrow> is_Writing (call t)"
    "\<And>l. Listener l \<notin> set (m_WriteCondition p)" "\<And>t. call t = ps_call s t \<or> call t = Outside"
  shows "pipe_sys_inv n (s\<lparr>ps_inode := p, ps_call := call\<rparr>)"
proof -
  have "call_ok p (call t)" for t
    using assms(1) assms(8) [of t] call_ok_size [OF assms(4)] by (auto simp: pipe_sys_inv_def)
  then show ?thesis using assms(1-7) by (simp add: pipe_sys_inv_def)
qed

lemma pipe_step_ok:
  assumes "pipe_step s s'" "pipe_sys_inv n s"
  shows "pipe_sys_inv n s' \<and> queue_kept reader_waits m_ReadCondition s s' \<and> queue_kept writer_waits m_WriteCondition s s'"
  using assms
proof (induction rule: pipe_step.induct)
  case (reads s t nonblock canceled len r p)
  have t: "Caller t \<notin> set (m_WriteCondition (ps_inode s))" "Caller t \<notin> set (m_ReadCondition (ps_inode s))"
    using reads(1,3) by (auto simp: pipe_sys_inv_def)
  show ?case
  proof (cases "len = 0")
    case True
    then have "after_read t len r p s = s"
      using reads(1,2) by (auto simp: Read_begin_def after_read_def fun_upd_idem)
    then show ?thesis using reads(3) by (simp add: queue_kept_def)
  next
    case False
    then show ?thesis using reads(2) after_read_ok [OF reads(3) _ t] by (simp add: Read_begin_def)
  qed
next
  case (read_on s t len nonblock canceled r p)
  then have "Caller t \<notin> set (m_WriteCondition (ps_inode s))" by (auto simp: pipe_sys_inv_def)
  from after_read_ok [OF read_on(4,3) this read_on(2)] show ?case .
next
  case (read_interrupted s t len)
  let ?p = "(ps_inode s)\<lparr>m_ReadCondition := removeAll (Caller t) (m_ReadCondition (ps_inode s))\<rparr>"
  have "Caller t \<notin> set (m_WriteCondition (ps_inode s))" using read_interrupted by (auto simp: pipe_sys_inv_def)
  then show ?case using read_interrupted
    by (intro conjI change_inode) (auto simp: pipe_sys_inv_def pipe_inv_def pipe_items_def PIPE_BUF_SIZE_def queue_kept_def reader_waits_def writer_waits_def
        write_blocks_def write_needed_def split: waiter.splits pipe_call.splits)
next
  case (writes s t nonblock canceled data r w p)
  have t: "Caller t \<notin> set (m_WriteCondition (ps_inode s))" "Caller t \<notin> set (m_ReadCondition (ps_inode s))"
    using writes(1,3) by (auto simp: pipe_sys_inv_def)
  have i: "pipe_inv (ps_inode s)" using writes(3) by (simp add: pipe_sys_inv_def)
  show ?case
  proof (cases "data = [] \<or> m_ReaderCount (ps_inode s) = 0")
    case True
    then have "after_write t data 0 r w p s = s"
      using writes(1,2) by (auto simp: Write_begin_def after_write_def fun_upd_idem split: if_splits)
    then show ?thesis using writes(3) by (simp add: queue_kept_def)
  next
    case False
    then have "Write_section nonblock canceled t data 0 (ps_inode s) = Some (r, w, p)" using writes(2) by (simp add: Write_begin_def)
    then have "write_done nonblock canceled t data 0 (ps_inode s) r w p"
      using Write_section_ok [OF i, of 0 data nonblock canceled t] by simp
    from after_write_ok [OF writes(3) this _ _ t] False show ?thesis by simp
  qed
next
  case (write_on s t data written nonblock canceled r w p)
  have i: "pipe_inv (ps_inode s)" and d: "written < length data" "length data \<le> n \<longrightarrow> written = 0" "PIPE_BUF_SIZE (ps_inode s) = n"
    using write_on(1,4) by (auto simp: pipe_sys_inv_def call_ok_def dest!: spec [of _ t])
  have t: "Caller t \<notin> set (m_ReadCondition (ps_inode s))" using write_on(1,4) by (auto simp: pipe_sys_inv_def)
  have "write_done nonblock canceled t data written (ps_inode s) r w p"
    using Write_section_ok [OF i, of written data nonblock canceled t] d write_on(3) by simp
  from after_write_ok [OF write_on(4) this d(1,2) write_on(2) t] show ?case .
next
  case (write_interrupted s t data written)
  have "Caller t \<notin> set (m_ReadCondition (ps_inode s))" using write_interrupted by (auto simp: pipe_sys_inv_def)
  then show ?case using write_interrupted
    by (intro conjI change_inode) (auto simp: pipe_sys_inv_def pipe_inv_def pipe_items_def PIPE_BUF_SIZE_def queue_kept_def reader_waits_def writer_waits_def
        write_blocks_def write_needed_def split: waiter.splits pipe_call.splits)
next
  case (open_file s writeAccess)
  show ?case using open_file
    by (auto simp: OpenFile_def pipe_sys_inv_def pipe_inv_def pipe_items_def PIPE_BUF_SIZE_def queue_kept_def reader_waits_def writer_waits_def
        write_blocks_def write_needed_def call_ok_def Let_def split: waiter.splits pipe_call.splits if_splits ObjectWaitMode.splits)
next
  case (close_file writeAccess s)
  show ?case using close_file
    by (auto simp: CloseFile_def pipe_sys_inv_def pipe_inv_def pipe_items_def PIPE_BUF_SIZE_def queue_kept_def reader_waits_def writer_waits_def
        write_blocks_def write_needed_def call_ok_def Let_def split: waiter.splits pipe_call.splits if_splits ObjectWaitMode.splits)
next
  case (listen s l mode)
  show ?case using listen
    by (auto simp: AddListener_def pipe_sys_inv_def pipe_inv_def pipe_items_def PIPE_BUF_SIZE_def queue_kept_def reader_waits_def writer_waits_def
        write_blocks_def write_needed_def call_ok_def Let_def split: waiter.splits pipe_call.splits if_splits ObjectWaitMode.splits)
next
  case (unlisten s l)
  show ?case using unlisten
    by (auto simp:  pipe_sys_inv_def pipe_inv_def pipe_items_def PIPE_BUF_SIZE_def queue_kept_def reader_waits_def writer_waits_def
        write_blocks_def write_needed_def call_ok_def Let_def split: waiter.splits pipe_call.splits if_splits ObjectWaitMode.splits)
qed


lemma pipe_start_ok:
  assumes "pipe_start n s"
  shows "pipe_sys_inv n s" "m_ReadCondition (ps_inode s) = []" "m_WriteCondition (ps_inode s) = []"
proof -
  obtain k where "n = 2 ^ k" using assms by (auto simp: pipe_start_def)
  then show "pipe_sys_inv n s" using assms KPipeInode_new_ok [of n k]
    by (auto simp: pipe_start_def pipe_sys_inv_def) (auto simp: KPipeInode_new_def PIPE_BUF_SIZE_def)
  show "m_ReadCondition (ps_inode s) = []" "m_WriteCondition (ps_inode s) = []"
    using assms by (auto simp: pipe_start_def KPipeInode_new_def)
qed

interpretation readers: monitor_queue "pipe_start n" pipe_step "pipe_sys_inv n" "\<lambda>s w. w \<in> set (m_ReadCondition (ps_inode s))" reader_waits for n
  by unfold_locales (use pipe_start_ok pipe_step_ok in \<open>auto simp: queue_kept_def\<close>)

interpretation writers: monitor_queue "pipe_start n" pipe_step "pipe_sys_inv n" "\<lambda>s w. w \<in> set (m_WriteCondition (ps_inode s))" writer_waits for n
  by unfold_locales (use pipe_start_ok pipe_step_ok in \<open>auto simp: queue_kept_def\<close>)

text \<open>
  C25. Whatever readers and writers do, what has been read is what has been written, in order, up to the bytes that are still in the pipe, and these are
  never more than \<open>PIPE_BUF\<close>.
\<close>

theorem pipe_is_stream:
  assumes "pipe_reachable pipe_buf s"
  shows "ps_written s = ps_read s @ pipe_items (ps_inode s) \<and> length (pipe_items (ps_inode s)) \<le> pipe_buf"
  using readers.reachable_inv [OF assms [unfolded pipe_reachable_def]] by (auto simp: pipe_sys_inv_def pipe_inv_def)

text \<open>
  C26. No wakeup is lost: a reader sleeps only while the pipe is empty and has writers, a writer only while what it needs does not fit and there are
  readers.
\<close>

theorem pipe_no_lost_wakeup:
  assumes "pipe_reachable pipe_buf s"
  shows "(Caller t \<in> set (m_ReadCondition (ps_inode s)) \<longrightarrow> m_BytesAvailable (ps_inode s) = 0 \<and> m_WriterCount (ps_inode s) > 0) \<and>
    (Caller t \<in> set (m_WriteCondition (ps_inode s)) \<longrightarrow>
      (\<exists>data written. ps_call s t = Writing data written \<and> m_ReaderCount (ps_inode s) > 0 \<and>
        pipe_buf - m_BytesAvailable (ps_inode s) < (if length data \<le> pipe_buf then length data else 1)))"
proof -
  note r = assms [unfolded pipe_reachable_def]
  have i: "pipe_sys_inv pipe_buf s" by (rule readers.reachable_inv [OF r])
  show ?thesis
    using readers.no_lost_wakeup [OF r, of "Caller t"] writers.no_lost_wakeup [OF r, of "Caller t"] i
    by (auto simp: reader_waits_def writer_waits_def write_blocks_def write_needed_def pipe_sys_inv_def pipe_inv_def call_ok_def
        dest!: spec [of _ t] split: pipe_call.splits if_splits)
qed

text \<open>
  C30. A write of at most \<open>PIPE_BUF\<close> bytes appends all its bytes at once or none, and succeeds as soon as they fit.
\<close>

theorem pipe_write_atomic:
  assumes "pipe_inv p" "data \<noteq> []" "length data \<le> PIPE_BUF_SIZE p"
  shows "\<exists>r w p'. Write_section nonblock canceled self data 0 p = Some (r, w, p') \<and>
    (if length data \<le> PIPE_BUF_SIZE p - m_BytesAvailable p
     then r = Returns (Inr (length data)) \<and> pipe_items p' = pipe_items p @ data
     else pipe_items p' = pipe_items p \<and> (\<forall>n. r \<noteq> Returns (Inr n)))"
proof -
  obtain r w p' where r: "Write_section nonblock canceled self data 0 p = Some (r, w, p')" and d: "write_done nonblock canceled self data 0 p r w p'"
    using Write_section_ok [OF assms(1), of 0 data nonblock canceled self] by auto
  have w: "w = 0 \<or> w = length data" using d assms(3) by (simp add: write_done_def)
  have items: "pipe_items p' = pipe_items p @ take w data" "PIPE_BUF_SIZE p' = PIPE_BUF_SIZE p" "m_BytesAvailable p' \<le> PIPE_BUF_SIZE p'"
    using d by (auto simp: write_done_def pipe_inv_def)
  have len: "m_BytesAvailable p' = m_BytesAvailable p + length (take w data)" using arg_cong [OF items(1), of length] by simp
  have result: "w = length data \<and> r = Returns (Inr (length data)) \<or>
      PIPE_BUF_SIZE p' - m_BytesAvailable p' < write_needed p' data w \<and> w < length data \<and> (\<forall>n. r \<noteq> Returns (Inr n))"
    using d by (auto simp: write_done_def write_blocks_def split: call_section.splits sum.splits)
  show ?thesis
    using w result items len assms(2,3) r by (auto simp: write_needed_def)
qed

text \<open>
  C33. A write of more than \<open>PIPE_BUF\<close> bytes with \<open>O_NONBLOCK\<close> fills the pipe and then always fails with \<open>WOULDBLOCK\<close>: the caller cannot know
  that bytes have been written, nor how many.
\<close>

theorem pipe_large_nonblocking_write:
  assumes "pipe_inv p" "PIPE_BUF_SIZE p < length data" "m_ReaderCount p \<noteq> 0"
  shows "\<exists>w p'. Write_begin True canceled self data p = Some (Returns (Inl WOULDBLOCK), w, p') \<and>
    pipe_items p' = pipe_items p @ take (PIPE_BUF_SIZE p - m_BytesAvailable p) data"
proof -
  have "data \<noteq> []" using assms(2) by auto
  then have b: "Write_begin True canceled self data p = Write_section True canceled self data 0 p" using assms(3) by (simp add: Write_begin_def)
  obtain r w p' where r: "Write_section True canceled self data 0 p = Some (r, w, p')" and d: "write_done True canceled self data 0 p r w p'"
    using Write_section_ok [OF assms(1), of 0 data True canceled self] by auto
  have items: "pipe_items p' = pipe_items p @ take w data" "PIPE_BUF_SIZE p' = PIPE_BUF_SIZE p" "m_BytesAvailable p' \<le> PIPE_BUF_SIZE p'"
      "m_ReaderCount p' = m_ReaderCount p" "w \<le> length data"
    using d by (auto simp: write_done_def pipe_inv_def)
  have len: "m_BytesAvailable p' = m_BytesAvailable p + w" using arg_cong [OF items(1), of length] items(5) by simp
  then have "w < length data" using items(2,3) assms(2) by simp
  then have "r = Returns (Inl WOULDBLOCK)" and "PIPE_BUF_SIZE p' - m_BytesAvailable p' < write_needed p' data w"
    using d assms(3) items(4) by (auto simp: write_done_def split: call_section.splits sum.splits)
  then have "w = PIPE_BUF_SIZE p - m_BytesAvailable p" using items(2,3) len assms(2) by (auto simp: write_needed_def)
  then show ?thesis using b r \<open>r = Returns (Inl WOULDBLOCK)\<close> items(1) by auto
qed

text \<open>A listener that comes when the pipe is empty and its last writer is gone is put to sleep, although a read returns 0 at once; the wakeup for the
  end of the file has already happened.
\<close>

definition closed_pipe :: KPipeInode where
  "closed_pipe = snd (CloseFile True (OpenFile True (OpenFile False (KPipeInode_new 4))))"

theorem pipe_eof_listener_sleeps:
  "pipe_reachable 4 \<lparr>ps_inode = closed_pipe, ps_call = (\<lambda>_. Outside), ps_read = [], ps_written = []\<rparr> \<and>
   Read_begin False False 1 10 closed_pipe = Some (Returns (Inr []), closed_pipe) \<and>
   fst (AddListener 7 ReadMode closed_pipe) \<and> Listener 7 \<in> set (m_ReadCondition (snd (AddListener 7 ReadMode closed_pipe)))"
proof -
  let ?S = "\<lambda>p. \<lparr>ps_inode = p, ps_call = (\<lambda>_. Outside), ps_read = [], ps_written = []\<rparr>"
  let ?p0 = "KPipeInode_new 4" and ?p1 = "OpenFile False (KPipeInode_new 4)"
  have "pipe_start 4 (?S ?p0)" by (auto simp: pipe_start_def intro: exI [of _ 2])
  then have "reaches (pipe_start 4) pipe_step (?S ?p0)" by (rule reaches.init)
  then have "reaches (pipe_start 4) pipe_step (?S ?p1)"
    by (rule reaches.step) (use pipe_step.open_file [of "?S ?p0" False] in simp)
  then have "reaches (pipe_start 4) pipe_step (?S (OpenFile True ?p1))"
    by (rule reaches.step) (use pipe_step.open_file [of "?S ?p1" True] in simp)
  then have "reaches (pipe_start 4) pipe_step (?S closed_pipe)"
    by (rule reaches.step) (use pipe_step.close_file [of True "?S (OpenFile True ?p1)"] in \<open>simp add: closed_pipe_def OpenFile_def KPipeInode_new_def\<close>)
  then show ?thesis
    by (simp add: pipe_reachable_def closed_pipe_def CloseFile_def OpenFile_def KPipeInode_new_def Read_begin_def Read_section_def AddListener_def)
qed

section \<open>An example\<close>

text \<open>A pipe of four bytes: thread 3 writes three of them, thread 2 reads two, and thread 3 waits with four more; or thread 2 waits for the first bytes.\<close>

definition example_pipe :: "waiter list \<Rightarrow> waiter list \<Rightarrow> u8 list \<Rightarrow> nat \<Rightarrow> nat \<Rightarrow> nat \<Rightarrow> KPipeInode" where
  "example_pipe readers writers buf readPos writePos bytes =
     \<lparr>m_ReadCondition = readers, m_WriteCondition = writers, m_Buffer = buf, m_ReadPos = readPos, m_WritePos = writePos, m_BytesAvailable = bytes,
      m_ReaderCount = 1, m_WriterCount = 1\<rparr>"

definition example_sys :: "KPipeInode \<Rightarrow> pipe_call \<Rightarrow> pipe_call \<Rightarrow> u8 list \<Rightarrow> u8 list \<Rightarrow> pipe_sys" where
  "example_sys p call1 call2 bytesRead bytesWritten =
     \<lparr>ps_inode = p, ps_call = (\<lambda>_. Outside)(3 := call1, 2 := call2), ps_read = bytesRead, ps_written = bytesWritten\<rparr>"

lemma example_pipe_reachable:
  "pipe_reachable 4 (example_sys (example_pipe [] [] [0, 0, 0, 0] 0 0 0) Outside Outside [] [])" (is "pipe_reachable 4 ?s0")
  "pipe_reachable 4 (example_sys (example_pipe [Caller 2] [] [0, 0, 0, 0] 0 0 0) Outside (Reading 2) [] [])"
  "pipe_reachable 4 (example_sys (example_pipe [] [] [1, 2, 3, 0] 0 3 3) Outside Outside [] [1, 2, 3])" (is "pipe_reachable 4 ?s1")
  "pipe_reachable 4 (example_sys (example_pipe [] [] [1, 2, 3, 0] 2 3 1) Outside Outside [1, 2] [1, 2, 3])" (is "pipe_reachable 4 ?s2")
  "pipe_reachable 4 (example_sys (example_pipe [] [Caller 3] [1, 2, 3, 0] 2 3 1) (Writing [4, 5, 6, 7] 0) Outside [1, 2] [1, 2, 3])"
proof -
  let ?S = "\<lambda>p. \<lparr>ps_inode = p, ps_call = (\<lambda>_. Outside), ps_read = [], ps_written = []\<rparr>"
  let ?p0 = "KPipeInode_new 4" and ?p1 = "OpenFile False (KPipeInode_new 4)"
  have e: "?S (OpenFile True ?p1) = ?s0"
    by (simp add: example_sys_def example_pipe_def OpenFile_def KPipeInode_new_def numeral_eq_Suc fun_eq_iff)
  have "pipe_start 4 (?S ?p0)" by (auto simp: pipe_start_def intro: exI [of _ 2])
  then have "reaches (pipe_start 4) pipe_step (?S ?p0)" by (rule reaches.init)
  then have "reaches (pipe_start 4) pipe_step (?S ?p1)"
    by (rule reaches.step) (use pipe_step.open_file [of "?S ?p0" False] in simp)
  then have "reaches (pipe_start 4) pipe_step (?S (OpenFile True ?p1))"
    by (rule reaches.step) (use pipe_step.open_file [of "?S ?p1" True] in simp)
  then show s0: "pipe_reachable 4 ?s0" unfolding e pipe_reachable_def .
  have 0: "Read_begin False False 2 2 (ps_inode ?s0) = Some (Waits, example_pipe [Caller 2] [] [0, 0, 0, 0] 0 0 0)"
    and 1: "Write_begin False False 3 [1, 2, 3] (ps_inode ?s0) = Some (Returns (Inr 3), 3, example_pipe [] [] [1, 2, 3, 0] 0 3 3)"
    and 2: "Read_begin False False 2 2 (ps_inode ?s1) = Some (Returns (Inr [1, 2]), example_pipe [] [] [1, 2, 3, 0] 2 3 1)"
    and 3: "Write_begin False False 3 [4, 5, 6, 7] (ps_inode ?s2) = Some (Waits, 0, example_pipe [] [Caller 3] [1, 2, 3, 0] 2 3 1)"
    by code_simp+
  have next_state: "pipe_reachable 4 s'" if "pipe_reachable 4 s" "pipe_step s t" "t = s'" for s t s'
    using that unfolding pipe_reachable_def by (auto intro: reaches.step)
  have inode [simp]: "ps_inode (example_sys p c1 c2 r w) = p" "ps_call (example_sys p c1 c2 r w) 3 = c1" "ps_call (example_sys p c1 c2 r w) 2 = c2" for p c1 c2 r w
    by (simp_all add: example_sys_def)
  have after [simp]: "after_read 2 2 x p (example_sys q c1 c2 r w) = example_sys p c1 (if x = Waits then Reading 2 else Outside) (r @ read_result x) w"
      "after_write 3 d 0 y n p (example_sys q c1 c2 r w) = example_sys p (if y = Waits then Writing d n else Outside) c2 r (w @ take n d)" for x y n d p q c1 c2 r w
    by (simp_all add: example_sys_def after_read_def after_write_def fun_eq_iff)
  show "pipe_reachable 4 (example_sys (example_pipe [Caller 2] [] [0, 0, 0, 0] 0 0 0) Outside (Reading 2) [] [])"
    by (rule next_state [OF s0 pipe_step.reads [OF _ 0]]) simp_all
  show s1: "pipe_reachable 4 ?s1"
    by (rule next_state [OF s0 pipe_step.writes [OF _ 1]]) simp_all
  show s2: "pipe_reachable 4 ?s2"
    by (rule next_state [OF s1 pipe_step.reads [OF _ 2]]) simp_all
  show "pipe_reachable 4 (example_sys (example_pipe [] [Caller 3] [1, 2, 3, 0] 2 3 1) (Writing [4, 5, 6, 7] 0) Outside [1, 2] [1, 2, 3])"
    by (rule next_state [OF s2 pipe_step.writes [OF _ 3]]) simp_all
qed

theorem pipe_is_stream_witness:
  "[1, 2, 3] = [1, 2] @ pipe_items (example_pipe [] [] [1, 2, 3, 0] 2 3 1)"
  using pipe_is_stream [OF example_pipe_reachable(4)] by (simp add: example_sys_def)

theorem pipe_no_lost_wakeup_witness:
  "\<exists>data written. Writing [4, 5, 6, 7] 0 = Writing data written \<and> (4::nat) - 1 < (if length data \<le> 4 then length data else 1)"
  using pipe_no_lost_wakeup [OF example_pipe_reachable(5), of 3] by (auto simp: example_sys_def example_pipe_def)

lemma example_pipe_inv: "pipe_inv (example_pipe [] [] [1, 2, 3, 0] 2 3 1)"
  using readers.reachable_inv [OF example_pipe_reachable(4) [unfolded pipe_reachable_def]] by (simp add: pipe_sys_inv_def example_sys_def)

theorem pipe_write_atomic_witness:
  "\<exists>r w p'. Write_section False False 1 [8, 9] 0 (example_pipe [] [] [1, 2, 3, 0] 2 3 1) = Some (r, w, p') \<and> r = Returns (Inr 2) \<and>
    pipe_items p' = pipe_items (example_pipe [] [] [1, 2, 3, 0] 2 3 1) @ [8, 9]"
  using pipe_write_atomic [OF example_pipe_inv, of "[8, 9]" False False 1] by (simp add: example_pipe_def PIPE_BUF_SIZE_def numeral_2_eq_2)

theorem pipe_large_nonblocking_write_witness:
  "\<exists>w p'. Write_begin True False 1 [4, 5, 6, 7, 8] (example_pipe [] [] [1, 2, 3, 0] 2 3 1) = Some (Returns (Inl WOULDBLOCK), w, p') \<and>
    pipe_items p' = pipe_items (example_pipe [] [] [1, 2, 3, 0] 2 3 1) @ [4, 5, 6]"
  using pipe_large_nonblocking_write [OF example_pipe_inv, of "[4, 5, 6, 7, 8]" False 1] by (simp add: example_pipe_def PIPE_BUF_SIZE_def)

end
