(* ===== verification/KMessagePort.thy ===== *)
theory KMessagePort
  imports MonitorQueue
begin

text \<open>
  Message ports (\<open>Kernel/KMessagePort.cpp\<close>): queues of messages in allocated memory, linked through their headers, and a cache of free messages that all ports
  share. The invariant \<open>memory_ok\<close> says which block is where; sending, receiving and deleting a port keep it and change the queues as they should.
\<close>

section \<open>Messages\<close>

text \<open>
  A message is a block of memory: a header and the bytes behind it, \<open>m_Data\<close>, whose length is the capacity of the block. Addresses are naturals. The result
  \<open>None\<close> of an operation is undefined behaviour: an access to a block that is not allocated, or behind its end.
\<close>

record KMessagePortMessage =
  m_TargetHandler :: int
  m_Code :: int
  m_Length :: nat
  m_Next :: "nat option"
  m_Data :: "u8 list"

type_synonym message_heap = "nat \<rightharpoonup> KMessagePortMessage"

definition MAX_CACHED_MESSAGE_SIZE :: nat where
  "MAX_CACHED_MESSAGE_SIZE = 64"

definition MAX_CACHED_MESSAGE_COUNT :: int where
  "MAX_CACHED_MESSAGE_COUNT = 100"

record message_memory =
  message_heap :: message_heap
  gk_FirstCachedMessage :: "nat option"
  gk_CachedMessageCount :: int

definition message_memory_init :: message_memory where
  "message_memory_init = \<lparr>message_heap = Map.empty, gk_FirstCachedMessage = None, gk_CachedMessageCount = 0\<rparr>"

text \<open>The result of \<open>malloc\<close> is an argument: no block, or a new one with arbitrary contents.\<close>

definition malloc_ok :: "(nat \<times> KMessagePortMessage) option \<Rightarrow> nat \<Rightarrow> message_memory \<Rightarrow> bool" where
  "malloc_ok block sz mem \<longleftrightarrow>
     (case block of None \<Rightarrow> True | Some (a, m) \<Rightarrow> message_heap mem a = None \<and> length (m_Data m) = max MAX_CACHED_MESSAGE_SIZE sz)"

definition alloc_message :: "(nat \<times> KMessagePortMessage) option \<Rightarrow> nat \<Rightarrow> message_memory \<Rightarrow> (nat option \<times> message_memory) option" where
  "alloc_message block sz mem =
     (if sz \<le> MAX_CACHED_MESSAGE_SIZE \<and> gk_CachedMessageCount mem > 0 then
        case gk_FirstCachedMessage mem of
          None \<Rightarrow> None
        | Some message \<Rightarrow>
            map_option (\<lambda>m. (Some message,
                \<lparr>message_heap = (message_heap mem)(message \<mapsto> m\<lparr>m_Length := sz\<rparr>), gk_FirstCachedMessage = m_Next m,
                 gk_CachedMessageCount = gk_CachedMessageCount mem - 1\<rparr>))
              (message_heap mem message)
      else
        case block of
          None \<Rightarrow> Some (None, mem)
        | Some (message, m) \<Rightarrow> Some (Some message, mem\<lparr>message_heap := (message_heap mem)(message \<mapsto> m\<lparr>m_Length := sz\<rparr>)\<rparr>))"

definition free_message :: "nat \<Rightarrow> message_memory \<Rightarrow> message_memory option" where
  "free_message message mem =
     (case message_heap mem message of
        None \<Rightarrow> None
      | Some m \<Rightarrow>
          Some (if m_Length m \<le> MAX_CACHED_MESSAGE_SIZE \<and> gk_CachedMessageCount mem < MAX_CACHED_MESSAGE_COUNT then
            \<lparr>message_heap = (message_heap mem)(message \<mapsto> m\<lparr>m_Next := gk_FirstCachedMessage mem\<rparr>), gk_FirstCachedMessage = Some message,
             gk_CachedMessageCount = gk_CachedMessageCount mem + 1\<rparr>
          else mem\<lparr>message_heap := (message_heap mem)(message := None)\<rparr>))"

section \<open>Ports\<close>

record KMessagePort =
  m_SendCondition :: "waiter list"
  m_ReceiveCondition :: "waiter list"
  m_MaxCount :: nat
  m_MessageCount :: nat
  m_FirstMsg :: "nat option"
  m_LastMsg :: "nat option"

definition KMessagePort_new :: "nat \<Rightarrow> KMessagePort" where
  "KMessagePort_new maxCount =
     \<lparr>m_SendCondition = [], m_ReceiveCondition = [], m_MaxCount = maxCount, m_MessageCount = 0, m_FirstMsg = None, m_LastMsg = None\<rparr>"

partial_function (option) KMessagePort_destroy :: "nat option \<Rightarrow> message_memory \<Rightarrow> message_memory option" where
  "KMessagePort_destroy firstMsg mem =
     (case firstMsg of
        None \<Rightarrow> Some mem
      | Some message \<Rightarrow>
          (case message_heap mem message of
             None \<Rightarrow> None
           | Some m \<Rightarrow> (case free_message message mem of None \<Rightarrow> None | Some mem \<Rightarrow> KMessagePort_destroy (m_Next m) mem)))"

definition AddListener :: "nat \<Rightarrow> ObjectWaitMode \<Rightarrow> KMessagePort \<Rightarrow> bool \<times> KMessagePort" where
  "AddListener waitNode mode port =
     (case mode of
        ReadMode \<Rightarrow>
          if m_MessageCount port = 0 then (True, port\<lparr>m_ReceiveCondition := m_ReceiveCondition port @ [Listener waitNode]\<rparr>) else (False, port)
      | WriteMode \<Rightarrow>
          if m_MessageCount port \<ge> m_MaxCount port then (True, port\<lparr>m_SendCondition := m_SendCondition port @ [Listener waitNode]\<rparr>)
          else (False, port)
      | _ \<Rightarrow> (False, port))"

text \<open>\<open>memcpy\<close> into a message, and the link from the message before it.\<close>

definition fill_message :: "int \<Rightarrow> int \<Rightarrow> u8 list \<Rightarrow> nat \<Rightarrow> message_heap \<Rightarrow> message_heap option" where
  "fill_message handler code data message h =
     (case h message of
        None \<Rightarrow> None
      | Some m \<Rightarrow>
          if length data \<le> length (m_Data m)
          then Some (h(message \<mapsto> m\<lparr>m_TargetHandler := handler, m_Code := code, m_Length := length data, m_Next := None,
                      m_Data := data @ drop (length data) (m_Data m)\<rparr>))
          else None)"

definition link_message :: "nat option \<Rightarrow> nat \<Rightarrow> message_heap \<Rightarrow> message_heap option" where
  "link_message lastMsg message h =
     (case lastMsg of
        None \<Rightarrow> Some h
      | Some l \<Rightarrow> map_option (\<lambda>m. h(l \<mapsto> m\<lparr>m_Next := Some message\<rparr>)) (h l))"

text \<open>\<open>SendMessageDeadline\<close> from the lock of the mutex, or from a wakeup, to the next wait or the end.\<close>

definition SendMessage_section ::
  "(nat \<times> KMessagePortMessage) option \<Rightarrow> nat \<Rightarrow> int \<Rightarrow> int \<Rightarrow> u8 list \<Rightarrow> message_memory \<times> KMessagePort \<Rightarrow>
    (unit call_section \<times> message_memory \<times> KMessagePort) option" where
  "SendMessage_section block self handler code data = (\<lambda>(mem, port).
     if m_MessageCount port \<ge> m_MaxCount port then Some (Waits, mem, port\<lparr>m_SendCondition := m_SendCondition port @ [Caller self]\<rparr>)
     else
       case alloc_message block (length data) mem of
         None \<Rightarrow> None
       | Some (None, mem) \<Rightarrow> Some (Returns (Inl NOMEM), mem, port)
       | Some (Some message, mem) \<Rightarrow>
           (case fill_message handler code data message (message_heap mem) of
              None \<Rightarrow> None
            | Some h \<Rightarrow>
                map_option (\<lambda>h. (Returns (Inr ()), mem\<lparr>message_heap := h\<rparr>,
                    port\<lparr>m_FirstMsg := (if m_LastMsg port = None then Some message else m_FirstMsg port), m_LastMsg := Some message,
                      m_MessageCount := m_MessageCount port + 1, m_ReceiveCondition := []\<rparr>))
                  (link_message (m_LastMsg port) message h)))"

text \<open>\<open>buffer_size\<close> is \<open>None\<close> for the null pointer. The message that is handed over: target handler, code and bytes.\<close>

type_synonym message = "int \<times> int \<times> u8 list"

definition DetachMessage_trw :: "nat option \<Rightarrow> message_memory \<times> KMessagePort \<Rightarrow> (message result \<times> message_memory \<times> KMessagePort) option" where
  "DetachMessage_trw buffer_size = (\<lambda>(mem, port).
     case m_FirstMsg port of
       None \<Rightarrow> Some (Inl INVAL, mem, port)
     | Some message \<Rightarrow>
         (case message_heap mem message of
            None \<Rightarrow> None
          | Some m \<Rightarrow>
              let port = port\<lparr>m_FirstMsg := m_Next m, m_LastMsg := (if m_Next m = None then None else m_LastMsg port),
                    m_MessageCount := m_MessageCount port - 1, m_SendCondition := []\<rparr>;
                  bytesReceived = (case buffer_size of None \<Rightarrow> 0 | Some bufferSize \<Rightarrow> min bufferSize (m_Length m)) in
              if bytesReceived \<le> length (m_Data m)
              then map_option (\<lambda>mem. (Inr (m_TargetHandler m, m_Code m, take bytesReceived (m_Data m)), mem, port)) (free_message message mem)
              else None))"

definition ReceiveMessage_section ::
  "nat \<Rightarrow> nat option \<Rightarrow> message_memory \<times> KMessagePort \<Rightarrow> (message call_section \<times> message_memory \<times> KMessagePort) option" where
  "ReceiveMessage_section self buffer_size = (\<lambda>(mem, port).
     if m_MessageCount port = 0 then Some (Waits, mem, port\<lparr>m_ReceiveCondition := m_ReceiveCondition port @ [Caller self]\<rparr>)
     else map_option (\<lambda>(r, s). (Returns r, s)) (DetachMessage_trw buffer_size (mem, port)))"

section \<open>Chains of messages\<close>

fun chain :: "message_heap \<Rightarrow> nat option \<Rightarrow> nat list \<Rightarrow> bool" where
  "chain h p [] \<longleftrightarrow> p = None"
| "chain h p (a # as) \<longleftrightarrow> p = Some a \<and> (case h a of None \<Rightarrow> False | Some m \<Rightarrow> chain h (m_Next m) as)"

definition message_item :: "message_heap \<Rightarrow> nat \<Rightarrow> message" where
  "message_item h a = (case h a of Some m \<Rightarrow> (m_TargetHandler m, m_Code m, take (m_Length m) (m_Data m)))"

lemma message_chain_cong: "(\<And>a. a \<in> set as \<Longrightarrow> h' a = h a) \<Longrightarrow> chain h' p as = chain h p as"
  by (induction as arbitrary: p) (auto split: option.splits)

lemma items_cong: "(\<And>a. a \<in> set as \<Longrightarrow> h' a = h a) \<Longrightarrow> map (message_item h') as = map (message_item h) as"
  by (simp add: message_item_def)

lemma chain_upd [simp]: "a \<notin> set as \<Longrightarrow> chain (h(a := x)) p as = chain h p as"
  by (rule message_chain_cong) auto

lemma items_upd [simp]: "a \<notin> set as \<Longrightarrow> map (message_item (h(a := x))) as = map (message_item h) as"
  by (rule items_cong) auto

lemma chain_dom: "chain h p as \<Longrightarrow> a \<in> set as \<Longrightarrow> \<exists>m. h a = Some m"
  by (induction as arbitrary: p) (auto split: option.splits)

lemma chain_append:
  assumes "chain h p as" "as \<noteq> []" "distinct as" "h (last as) = Some l" "n \<notin> set as" "h n = Some m" "m_Next m = None"
  shows "chain (h(last as \<mapsto> l\<lparr>m_Next := Some n\<rparr>)) p (as @ [n])"
  using assms(1-5)
proof (induction as arbitrary: p)
  case (Cons a as)
  show ?case
  proof (cases "as = []")
    case True
    then show ?thesis using Cons.prems assms(6,7) by (auto split: option.splits)
  next
    case False
    then have "last as \<noteq> a" using Cons.prems(3) by auto
    with Cons False show ?thesis by (auto split: option.splits)
  qed
qed simp

definition cached_ok :: "message_memory \<Rightarrow> nat list \<Rightarrow> bool" where
  "cached_ok mem cached \<longleftrightarrow> chain (message_heap mem) (gk_FirstCachedMessage mem) cached \<and> distinct cached \<and>
     gk_CachedMessageCount mem = int (length cached) \<and> length cached \<le> 100 \<and>
     (\<forall>a \<in> set cached. case message_heap mem a of None \<Rightarrow> False | Some m \<Rightarrow> MAX_CACHED_MESSAGE_SIZE \<le> length (m_Data m))"

definition queue_ok :: "message_heap \<Rightarrow> KMessagePort \<Rightarrow> nat list \<Rightarrow> bool" where
  "queue_ok h port q \<longleftrightarrow> chain h (m_FirstMsg port) q \<and> distinct q \<and> m_LastMsg port = (if q = [] then None else Some (last q)) \<and>
     m_MessageCount port = length q \<and>
     (\<forall>a \<in> set q. case h a of None \<Rightarrow> False | Some m \<Rightarrow> max MAX_CACHED_MESSAGE_SIZE (m_Length m) \<le> length (m_Data m))"

lemma cached_cong:
  assumes "\<And>a. a \<in> set cached \<Longrightarrow> h a = message_heap mem a"
  shows "cached_ok (mem\<lparr>message_heap := h\<rparr>) cached = cached_ok mem cached"
  using message_chain_cong [of cached h "message_heap mem"] assms by (simp add: cached_ok_def)

lemma queue_cong:
  assumes "\<And>a. a \<in> set q \<Longrightarrow> h' a = h a"
  shows "queue_ok h' port q = queue_ok h port q"
  using message_chain_cong [of q h' h] assms by (simp add: queue_ok_def)

lemma cached_upd [simp]: "a \<notin> set cached \<Longrightarrow> cached_ok (mem\<lparr>message_heap := (message_heap mem)(a := x)\<rparr>) cached = cached_ok mem cached"
  by (rule cached_cong) auto

lemma queue_upd [simp]: "a \<notin> set q \<Longrightarrow> queue_ok (h(a := x)) port q = queue_ok h port q"
  by (rule queue_cong) auto

section \<open>Sending and receiving\<close>

text \<open>What \<open>alloc_message\<close> returns: a block that is big enough, from the cache or new.\<close>

lemma alloc_message_ok:
  assumes "cached_ok mem cached" "malloc_ok block sz mem"
  shows "\<exists>r mem'. alloc_message block sz mem = Some (r, mem') \<and>
    (case r of
       None \<Rightarrow> mem' = mem
     | Some a \<Rightarrow> \<exists>cached' m. cached_ok mem' cached' \<and> a \<notin> set cached' \<and> insert a (set cached') = insert a (set cached) \<and>
         message_heap mem' = (message_heap mem)(a \<mapsto> m) \<and> max MAX_CACHED_MESSAGE_SIZE sz \<le> length (m_Data m) \<and>
         (a \<in> set cached \<or> message_heap mem a = None))"
proof (cases "sz \<le> MAX_CACHED_MESSAGE_SIZE \<and> gk_CachedMessageCount mem > 0")
  case True
  then obtain a as where c: "cached = a # as" using assms(1) by (cases cached) (auto simp: cached_ok_def)
  then obtain m where m: "gk_FirstCachedMessage mem = Some a" "message_heap mem a = Some m" "chain (message_heap mem) (m_Next m) as"
      "MAX_CACHED_MESSAGE_SIZE \<le> length (m_Data m)"
    using assms(1) by (auto simp: cached_ok_def split: option.splits)
  let ?mem = "\<lparr>message_heap = (message_heap mem)(a \<mapsto> m\<lparr>m_Length := sz\<rparr>), gk_FirstCachedMessage = m_Next m,
       gk_CachedMessageCount = gk_CachedMessageCount mem - 1\<rparr>"
  have r: "alloc_message block sz mem = Some (Some a, ?mem)" using True m by (simp add: alloc_message_def)
  have "a \<notin> set as" using assms(1) c by (simp add: cached_ok_def)
  then have "cached_ok ?mem as"
    using assms(1) c m(3) by (auto simp: cached_ok_def)
  then show ?thesis using r c m True \<open>a \<notin> set as\<close> by (auto intro!: exI [of _ as])
next
  case False
  then have "cached = []" if "sz \<le> MAX_CACHED_MESSAGE_SIZE" using that assms(1) by (cases cached) (auto simp: cached_ok_def)
  show ?thesis
  proof (cases block)
    case None
    then show ?thesis using False by (auto simp: alloc_message_def)
  next
    case (Some b)
    obtain a m where b: "b = (a, m)" by force
    have m: "message_heap mem a = None" "length (m_Data m) = max MAX_CACHED_MESSAGE_SIZE sz" using assms(2) by (auto simp: malloc_ok_def Some b)
    then have a: "a \<notin> set cached" using assms(1) chain_dom by (fastforce simp: cached_ok_def)
    let ?mem = "mem\<lparr>message_heap := (message_heap mem)(a \<mapsto> m\<lparr>m_Length := sz\<rparr>)\<rparr>"
    have "alloc_message block sz mem = Some (Some a, ?mem)" using False Some b by (auto simp: alloc_message_def)
    moreover have "cached_ok ?mem cached" using assms(1) a by simp
    ultimately show ?thesis using m a by (auto intro!: exI [of _ cached])
  qed
qed

lemma free_message_ok:
  assumes "cached_ok mem cached" "message_heap mem a = Some m" "a \<notin> set cached" "MAX_CACHED_MESSAGE_SIZE \<le> length (m_Data m)"
  shows "\<exists>mem' cached'. free_message a mem = Some mem' \<and> cached_ok mem' cached' \<and> (\<forall>b. b \<noteq> a \<longrightarrow> message_heap mem' b = message_heap mem b) \<and>
    (set cached' = insert a (set cached) \<and> message_heap mem' a \<noteq> None \<or> cached' = cached \<and> message_heap mem' a = None)"
proof (cases "m_Length m \<le> MAX_CACHED_MESSAGE_SIZE \<and> gk_CachedMessageCount mem < MAX_CACHED_MESSAGE_COUNT")
  case True
  let ?mem = "\<lparr>message_heap = (message_heap mem)(a \<mapsto> m\<lparr>m_Next := gk_FirstCachedMessage mem\<rparr>), gk_FirstCachedMessage = Some a,
       gk_CachedMessageCount = gk_CachedMessageCount mem + 1\<rparr>"
  have "cached_ok ?mem (a # cached)"
    using assms True by (auto simp: cached_ok_def MAX_CACHED_MESSAGE_COUNT_def)
  moreover have "free_message a mem = Some ?mem" using True assms(2) by (simp add: free_message_def)
  ultimately show ?thesis by (intro exI [of _ ?mem] exI [of _ "a # cached"]) simp
next
  case False
  let ?mem = "mem\<lparr>message_heap := (message_heap mem)(a := None)\<rparr>"
  have "cached_ok ?mem cached" using assms(1,3) by simp
  moreover have "free_message a mem = Some ?mem" using False assms(2) by (auto simp: free_message_def)
  ultimately show ?thesis by (intro exI [of _ ?mem] exI [of _ cached]) simp
qed

lemma SendMessage_ok:
  assumes mem: "cached_ok mem cached" and q: "queue_ok (message_heap mem) port q" and disj: "set cached \<inter> set q = {}"
    and block: "malloc_ok block (length data) mem" and room: "m_MessageCount port < m_MaxCount port"
  shows "\<exists>r mem' port'. SendMessage_section block self handler code data (mem, port) = Some (r, mem', port') \<and>
    (r = Returns (Inl NOMEM) \<and> mem' = mem \<and> port' = port \<or>
     r = Returns (Inr ()) \<and> m_SendCondition port' = m_SendCondition port \<and> m_ReceiveCondition port' = [] \<and> m_MaxCount port' = m_MaxCount port \<and>
     (\<exists>a cached'. cached_ok mem' cached' \<and> queue_ok (message_heap mem') port' (q @ [a]) \<and>
       map (message_item (message_heap mem')) (q @ [a]) = map (message_item (message_heap mem)) q @ [(handler, code, data)] \<and>
       a \<notin> set cached' \<and> a \<notin> set q \<and> insert a (set cached') = insert a (set cached) \<and> (a \<notin> set cached \<longrightarrow> message_heap mem a = None) \<and>
       (\<forall>b. b \<notin> insert a (set q) \<longrightarrow> message_heap mem' b = message_heap mem b) \<and> dom (message_heap mem') = insert a (dom (message_heap mem))))"
proof -
  obtain r mem1 where alloc: "alloc_message block (length data) mem = Some (r, mem1)" and
    ok: "case r of None \<Rightarrow> mem1 = mem | Some a \<Rightarrow> \<exists>cached' m. cached_ok mem1 cached' \<and> a \<notin> set cached' \<and>
         insert a (set cached') = insert a (set cached) \<and> message_heap mem1 = (message_heap mem)(a \<mapsto> m) \<and>
         max MAX_CACHED_MESSAGE_SIZE (length data) \<le> length (m_Data m) \<and> (a \<in> set cached \<or> message_heap mem a = None)"
    using alloc_message_ok [OF mem block] by blast
  show ?thesis
  proof (cases r)
    case None
    then show ?thesis using alloc ok room by (simp add: SendMessage_section_def)
  next
    case (Some a)
    then obtain cached' m where c: "cached_ok mem1 cached'" "a \<notin> set cached'" "insert a (set cached') = insert a (set cached)"
        "message_heap mem1 = (message_heap mem)(a \<mapsto> m)" "max MAX_CACHED_MESSAGE_SIZE (length data) \<le> length (m_Data m)"
        "a \<in> set cached \<or> message_heap mem a = None"
      using ok by auto
    have a: "a \<notin> set q" using c(6) disj q chain_dom by (fastforce simp: queue_ok_def)
    define m1 where "m1 = m\<lparr>m_TargetHandler := handler, m_Code := code, m_Length := length data, m_Next := None, m_Data := data @ drop (length data) (m_Data m)\<rparr>"
    have fill: "fill_message handler code data a (message_heap mem1) = Some ((message_heap mem)(a \<mapsto> m1))"
      using c(4,5) by (simp add: fill_message_def m1_def)
    let ?h1 = "(message_heap mem)(a \<mapsto> m1)"
    have m1: "m_Next m1 = None" "max MAX_CACHED_MESSAGE_SIZE (m_Length m1) \<le> length (m_Data m1)" "message_item h' a = (handler, code, data)" if "h' a = Some m1" for h'
      using c(5) that by (auto simp: m1_def message_item_def)
    show ?thesis
    proof (cases "q = []")
      case True
      let ?port = "port\<lparr>m_FirstMsg := Some a, m_LastMsg := Some a, m_MessageCount := m_MessageCount port + 1, m_ReceiveCondition := []\<rparr>"
      have "SendMessage_section block self handler code data (mem, port) = Some (Returns (Inr ()), mem1\<lparr>message_heap := ?h1\<rparr>, ?port)"
        using room alloc Some fill q True by (simp add: SendMessage_section_def link_message_def queue_ok_def)
      moreover have "cached_ok (mem1\<lparr>message_heap := ?h1\<rparr>) cached'"
        using c(1,2) by (subst cached_cong) (auto simp: c(4))
      moreover have "queue_ok ?h1 ?port [a]"
        using m1(1,2) [of ?h1] q True by (simp add: queue_ok_def)
      ultimately show ?thesis using c(2,3,6) True m1(3) [of ?h1] by auto
    next
      case False
      have "chain (message_heap mem) (m_FirstMsg port) q" using q by (simp add: queue_ok_def)
      then obtain l where l: "message_heap mem (last q) = Some l" using chain_dom False by (metis last_in_set)
      have "last q \<noteq> a" using a False by (metis last_in_set)
      let ?h2 = "?h1(last q \<mapsto> l\<lparr>m_Next := Some a\<rparr>)"
      let ?port = "port\<lparr>m_LastMsg := Some a, m_MessageCount := m_MessageCount port + 1, m_ReceiveCondition := []\<rparr>"
      have "SendMessage_section block self handler code data (mem, port) = Some (Returns (Inr ()), mem1\<lparr>message_heap := ?h2\<rparr>, ?port)"
        using room alloc Some fill q False l \<open>last q \<noteq> a\<close> by (simp add: SendMessage_section_def link_message_def queue_ok_def)
      moreover have "cached_ok (mem1\<lparr>message_heap := ?h2\<rparr>) cached'"
        using c(1-3) disj False by (subst cached_cong) (auto simp: c(4))
      moreover have "chain ?h2 (m_FirstMsg port) (q @ [a])"
        using chain_append [of ?h1 "m_FirstMsg port" q l a m1] q False l a \<open>last q \<noteq> a\<close> m1(1) [of ?h1] by (simp add: queue_ok_def)
      moreover have "map (message_item ?h2) q = map (message_item (message_heap mem)) q"
        using l a by (auto simp: message_item_def)
      moreover have "case ?h2 b of None \<Rightarrow> False | Some m \<Rightarrow> max MAX_CACHED_MESSAGE_SIZE (m_Length m) \<le> length (m_Data m)" if "b \<in> set (q @ [a])" for b
        using that q l a m1(2) [of ?h1] \<open>last q \<noteq> a\<close> False by (auto simp: queue_ok_def dest: bspec [of _ _ "last q"])
      moreover have "queue_ok ?h2 ?port (q @ [a])"
        using calculation(3,5) q a unfolding queue_ok_def by simp
      moreover have "message_item ?h2 a = (handler, code, data)" using m1(3) [of ?h2] \<open>last q \<noteq> a\<close> by simp
      moreover have "dom ?h2 = insert a (dom (message_heap mem))" using l by auto
      ultimately show ?thesis using c(2,3,6) a False
        by (intro exI [of _ "Returns (Inr ())"] exI [of _ "mem1\<lparr>message_heap := ?h2\<rparr>"] exI [of _ ?port], intro conjI, simp,
            intro disjI2 conjI exI [of _ a] exI [of _ cached']) (simp_all, blast)
    qed
  qed
qed

lemma DetachMessage_ok:
  assumes mem: "cached_ok mem cached" and q: "queue_ok (message_heap mem) port (a # q)" and disj: "set cached \<inter> set (a # q) = {}"
  shows "\<exists>mem' port'. DetachMessage_trw buffer_size (mem, port) = Some
      (Inr (case message_item (message_heap mem) a of (handler, code, data) \<Rightarrow> (handler, code, case buffer_size of None \<Rightarrow> [] | Some n \<Rightarrow> take n data)), mem', port') \<and>
    m_SendCondition port' = [] \<and> m_ReceiveCondition port' = m_ReceiveCondition port \<and> m_MaxCount port' = m_MaxCount port \<and>
    (\<exists>cached'. cached_ok mem' cached' \<and> queue_ok (message_heap mem') port' q \<and>
       map (message_item (message_heap mem')) q = map (message_item (message_heap mem)) q \<and> (\<forall>b. b \<noteq> a \<longrightarrow> message_heap mem' b = message_heap mem b) \<and>
       (set cached' = insert a (set cached) \<and> message_heap mem' a \<noteq> None \<or> cached' = cached \<and> message_heap mem' a = None))"
proof -
  obtain m where m: "m_FirstMsg port = Some a" "message_heap mem a = Some m" "chain (message_heap mem) (m_Next m) q"
      "max MAX_CACHED_MESSAGE_SIZE (m_Length m) \<le> length (m_Data m)"
    using q by (auto simp: queue_ok_def split: option.splits)
  have a: "a \<notin> set cached" "a \<notin> set q" "distinct q" using disj q by (auto simp: queue_ok_def)
  obtain mem' cached' where f: "free_message a mem = Some mem'" "cached_ok mem' cached'" "\<forall>b. b \<noteq> a \<longrightarrow> message_heap mem' b = message_heap mem b"
      "set cached' = insert a (set cached) \<and> message_heap mem' a \<noteq> None \<or> cached' = cached \<and> message_heap mem' a = None"
    using free_message_ok [OF mem m(2) a(1)] m(4) by auto
  let ?port = "port\<lparr>m_FirstMsg := m_Next m, m_LastMsg := (if m_Next m = None then None else m_LastMsg port),
                    m_MessageCount := m_MessageCount port - 1, m_SendCondition := []\<rparr>"
  have n: "(case buffer_size of None \<Rightarrow> 0 | Some n \<Rightarrow> min n (m_Length m)) \<le> length (m_Data m)" using m(4) by (auto split: option.splits)
  have d: "take (case buffer_size of None \<Rightarrow> 0 | Some n \<Rightarrow> min n (m_Length m)) (m_Data m) =
      (case buffer_size of None \<Rightarrow> [] | Some n \<Rightarrow> take n (take (m_Length m) (m_Data m)))"
    by (simp split: option.split)
  have "DetachMessage_trw buffer_size (mem, port) = Some
      (Inr (case message_item (message_heap mem) a of (handler, code, data) \<Rightarrow> (handler, code, case buffer_size of None \<Rightarrow> [] | Some n \<Rightarrow> take n data)), mem', ?port)"
    using m f(1) n d by (simp add: DetachMessage_trw_def message_item_def Let_def)
  moreover have "queue_ok (message_heap mem') ?port q"
  proof -
    have "m_Next m = None \<longleftrightarrow> q = []" using m(3) by (cases q) auto
    then have "queue_ok (message_heap mem) ?port q" using q m(3) by (auto simp: queue_ok_def)
    then show ?thesis using queue_cong [of q "message_heap mem'" "message_heap mem" ?port] f(3) a(2) by metis
  qed
  moreover have "map (message_item (message_heap mem')) q = map (message_item (message_heap mem)) q"
    using f(3) a(2) by (intro items_cong) metis
  ultimately show ?thesis using f(2-4)
    by (intro exI [of _ mem'] exI [of _ ?port] conjI exI [of _ cached']) simp_all
qed

section \<open>The memory of all ports\<close>

definition memory_ok :: "message_memory \<Rightarrow> (nat \<Rightarrow> KMessagePort) \<Rightarrow> nat list \<Rightarrow> (nat \<Rightarrow> nat list) \<Rightarrow> bool" where
  "memory_ok mem port cached qs \<longleftrightarrow> cached_ok mem cached \<and>
     (\<forall>n. queue_ok (message_heap mem) (port n) (qs n) \<and> set cached \<inter> set (qs n) = {}) \<and>
     (\<forall>n k. n \<noteq> k \<longrightarrow> set (qs n) \<inter> set (qs k) = {}) \<and> dom (message_heap mem) = set cached \<union> (\<Union>n. set (qs n))"

definition queue_items :: "message_memory \<Rightarrow> nat list \<Rightarrow> message list" where
  "queue_items mem q = map (message_item (message_heap mem)) q"

lemma send_memory:
  assumes ok: "memory_ok mem port cached qs" and block: "malloc_ok block (length data) mem" and room: "m_MessageCount (port n) < m_MaxCount (port n)"
  shows "\<exists>r mem' port'. SendMessage_section block self handler code data (mem, port n) = Some (r, mem', port') \<and>
    (r = Returns (Inl NOMEM) \<and> mem' = mem \<and> port' = port n \<or>
     r = Returns (Inr ()) \<and> m_SendCondition port' = m_SendCondition (port n) \<and> m_ReceiveCondition port' = [] \<and> m_MaxCount port' = m_MaxCount (port n) \<and>
     (\<exists>a cached'. memory_ok mem' (port(n := port')) cached' (qs(n := qs n @ [a])) \<and>
        queue_items mem' (qs n @ [a]) = queue_items mem (qs n) @ [(handler, code, data)] \<and>
        (\<forall>k. k \<noteq> n \<longrightarrow> queue_items mem' (qs k) = queue_items mem (qs k))))"
proof -
  have q: "cached_ok mem cached" "queue_ok (message_heap mem) (port n) (qs n)" "set cached \<inter> set (qs n) = {}" using ok by (auto simp: memory_ok_def)
  from SendMessage_ok [OF q block room, of self handler code]
  obtain r mem' port' where r: "SendMessage_section block self handler code data (mem, port n) = Some (r, mem', port')" and
    cases: "r = Returns (Inl NOMEM) \<and> mem' = mem \<and> port' = port n \<or>
     r = Returns (Inr ()) \<and> m_SendCondition port' = m_SendCondition (port n) \<and> m_ReceiveCondition port' = [] \<and> m_MaxCount port' = m_MaxCount (port n) \<and>
     (\<exists>a cached'. cached_ok mem' cached' \<and> queue_ok (message_heap mem') port' (qs n @ [a]) \<and>
       map (message_item (message_heap mem')) (qs n @ [a]) = map (message_item (message_heap mem)) (qs n) @ [(handler, code, data)] \<and>
       a \<notin> set cached' \<and> a \<notin> set (qs n) \<and> insert a (set cached') = insert a (set cached) \<and> (a \<notin> set cached \<longrightarrow> message_heap mem a = None) \<and>
       (\<forall>b. b \<notin> insert a (set (qs n)) \<longrightarrow> message_heap mem' b = message_heap mem b) \<and> dom (message_heap mem') = insert a (dom (message_heap mem)))"
    by blast
  from cases show ?thesis
  proof (elim disjE conjE exE)
    fix a cached'
    assume ret: "r = Returns (Inr ())" and p: "m_SendCondition port' = m_SendCondition (port n)" "m_ReceiveCondition port' = []" "m_MaxCount port' = m_MaxCount (port n)"
      and c: "cached_ok mem' cached'" "queue_ok (message_heap mem') port' (qs n @ [a])"
        "map (message_item (message_heap mem')) (qs n @ [a]) = map (message_item (message_heap mem)) (qs n) @ [(handler, code, data)]"
      and a: "a \<notin> set cached'" "a \<notin> set (qs n)" "insert a (set cached') = insert a (set cached)" "a \<notin> set cached \<longrightarrow> message_heap mem a = None"
      and h: "\<forall>b. b \<notin> insert a (set (qs n)) \<longrightarrow> message_heap mem' b = message_heap mem b" "dom (message_heap mem') = insert a (dom (message_heap mem))"
    have fresh: "a \<notin> set (qs k)" for k
      using a(4) ok unfolding memory_ok_def by (metis (no_types, lifting) Int_iff UN_I UnI2 UNIV_I domIff empty_iff)
    have other: "message_heap mem' b = message_heap mem b" if "b \<in> set (qs k)" "k \<noteq> n" for b k
      using h(1) that fresh ok unfolding memory_ok_def by (metis disjoint_iff insertE)
    have "memory_ok mem' (port(n := port')) cached' (qs(n := qs n @ [a]))"
      unfolding memory_ok_def
    proof (intro conjI allI impI)
      show "cached_ok mem' cached'" by (rule c)
      show "queue_ok (message_heap mem') ((port(n := port')) k) ((qs(n := qs n @ [a])) k)" for k
        using c(2) ok other queue_cong [of "qs k" "message_heap mem'" "message_heap mem" "port k"] by (auto simp: memory_ok_def)
      show "set cached' \<inter> set ((qs(n := qs n @ [a])) k) = {}" for k
      proof -
        have "set cached' \<subseteq> set cached" using a(1,3) by (metis subset_insert subset_insertI)
        moreover have "set cached \<inter> set (qs k) = {}" "set cached \<inter> set (qs n) = {}" using ok by (simp_all add: memory_ok_def)
        ultimately show ?thesis using a(1) by auto
      qed
      show "set ((qs(n := qs n @ [a])) i) \<inter> set ((qs(n := qs n @ [a])) k) = {}" if "i \<noteq> k" for i k
        using that ok fresh unfolding memory_ok_def by auto
      have "(\<Union>k. set ((qs(n := qs n @ [a])) k)) = insert a (\<Union>k. set (qs k))" by (auto split: if_splits)
      then show "dom (message_heap mem') = set cached' \<union> (\<Union>k. set ((qs(n := qs n @ [a])) k))"
        using h(2) ok a(3) unfolding memory_ok_def by auto
    qed
    moreover have "queue_items mem' (qs k) = queue_items mem (qs k)" if "k \<noteq> n" for k
      unfolding queue_items_def using other that by (intro items_cong) blast
    ultimately show ?thesis using r ret p c(3) by (auto simp: queue_items_def)
  qed (use r in auto)
qed

definition message_deliver :: "nat option \<Rightarrow> message \<Rightarrow> message" where
  "message_deliver buffer_size = (\<lambda>(handler, code, data). (handler, code, case buffer_size of None \<Rightarrow> [] | Some n \<Rightarrow> take n data))"

lemma receive_memory:
  assumes ok: "memory_ok mem port cached qs" and some: "m_MessageCount (port n) \<noteq> 0"
  shows "\<exists>mem' port' a q cached'. qs n = a # q \<and>
    ReceiveMessage_section self buffer_size (mem, port n) =
      Some (Returns (Inr (message_deliver buffer_size (message_item (message_heap mem) a))), mem', port') \<and>
    m_SendCondition port' = [] \<and> m_ReceiveCondition port' = m_ReceiveCondition (port n) \<and> m_MaxCount port' = m_MaxCount (port n) \<and>
    memory_ok mem' (port(n := port')) cached' (qs(n := q)) \<and> queue_items mem' q = queue_items mem q \<and>
    (\<forall>k. k \<noteq> n \<longrightarrow> queue_items mem' (qs k) = queue_items mem (qs k))"
proof -
  have q: "cached_ok mem cached" "queue_ok (message_heap mem) (port n) (qs n)" "set cached \<inter> set (qs n) = {}" using ok by (auto simp: memory_ok_def)
  then obtain a q where n: "qs n = a # q" using some by (cases "qs n") (auto simp: queue_ok_def)
  from DetachMessage_ok [OF q(1) q(2,3) [unfolded n], of buffer_size]
  obtain mem' port' cached' where r: "DetachMessage_trw buffer_size (mem, port n) =
        Some (Inr (message_deliver buffer_size (message_item (message_heap mem) a)), mem', port')"
    and p: "m_SendCondition port' = []" "m_ReceiveCondition port' = m_ReceiveCondition (port n)" "m_MaxCount port' = m_MaxCount (port n)"
    and c: "cached_ok mem' cached'" "queue_ok (message_heap mem') port' q" "map (message_item (message_heap mem')) q = map (message_item (message_heap mem)) q"
    and h: "\<forall>b. b \<noteq> a \<longrightarrow> message_heap mem' b = message_heap mem b"
      "set cached' = insert a (set cached) \<and> message_heap mem' a \<noteq> None \<or> cached' = cached \<and> message_heap mem' a = None"
    unfolding message_deliver_def by blast
  have fresh: "a \<notin> set (qs k)" if "k \<noteq> n" for k using ok n that unfolding memory_ok_def by (metis disjoint_iff list.set_intros(1))
  have a: "a \<notin> set q" "a \<notin> set cached" using q n by (auto simp: queue_ok_def)
  have other: "message_heap mem' b = message_heap mem b" if "b \<in> set (qs k)" "k \<noteq> n" for b k
    using h(1) that fresh by metis
  have "memory_ok mem' (port(n := port')) cached' (qs(n := q))"
    unfolding memory_ok_def
  proof (intro conjI allI impI)
    show "cached_ok mem' cached'" by (rule c)
    show "queue_ok (message_heap mem') ((port(n := port')) k) ((qs(n := q)) k)" for k
      using c(2) ok other queue_cong [of "qs k" "message_heap mem'" "message_heap mem" "port k"] by (auto simp: memory_ok_def)
    show "set cached' \<inter> set ((qs(n := q)) k) = {}" for k
    proof -
      have "set cached' \<subseteq> insert a (set cached)" using h(2) by blast
      moreover have "set cached \<inter> set (qs k) = {}" "set cached \<inter> set (qs n) = {}" using ok by (simp_all add: memory_ok_def)
      ultimately have "set cached' \<inter> set (qs j) \<subseteq> {a}" if "j = k \<or> j = n" for j using that by blast
      then show ?thesis using a(1) fresh [of k] n by (cases "k = n") auto
    qed
    show "set ((qs(n := q)) i) \<inter> set ((qs(n := q)) k) = {}" if "i \<noteq> k" for i k
    proof -
      have "set ((qs(n := q)) j) \<subseteq> set (qs j)" for j using n by auto
      moreover have "set (qs i) \<inter> set (qs k) = {}" using that ok by (simp add: memory_ok_def)
      ultimately show ?thesis by (metis disjoint_iff subsetD)
    qed
    have u: "(\<Union>k. set (qs k)) = insert a (\<Union>k. set ((qs(n := q)) k))"
    proof -
      have "(\<Union>k. set (qs k)) = set (qs n) \<union> (\<Union>k \<in> - {n}. set (qs k))" by auto
      moreover have "(\<Union>k. set ((qs(n := q)) k)) = set q \<union> (\<Union>k \<in> - {n}. set (qs k))" by (auto split: if_splits)
      ultimately show ?thesis using n by auto
    qed
    have "a \<notin> (\<Union>k. set ((qs(n := q)) k))" using fresh a by auto
    moreover have "dom (message_heap mem') = (if message_heap mem' a = None then dom (message_heap mem) - {a} else insert a (dom (message_heap mem)))"
    proof (rule set_eqI)
      fix x
      show "x \<in> dom (message_heap mem') \<longleftrightarrow> x \<in> (if message_heap mem' a = None then dom (message_heap mem) - {a} else insert a (dom (message_heap mem)))"
        using h(1) by (cases "x = a") (auto simp: domIff)
    qed
    moreover have "dom (message_heap mem) = set cached \<union> (\<Union>k. set (qs k))" using ok by (simp add: memory_ok_def)
    ultimately show "dom (message_heap mem') = set cached' \<union> (\<Union>k. set ((qs(n := q)) k))"
      using h(2) a(2) unfolding u by auto
  qed
  moreover have "queue_items mem' (qs k) = queue_items mem (qs k)" if "k \<noteq> n" for k
    unfolding queue_items_def using other that by (intro items_cong) blast
  moreover have "ReceiveMessage_section self buffer_size (mem, port n) =
      Some (Returns (Inr (message_deliver buffer_size (message_item (message_heap mem) a))), mem', port')"
    using r some by (simp add: ReceiveMessage_section_def)
  ultimately show ?thesis using n p c(3) by (auto simp: queue_items_def)
qed

lemma port_destroy_ok:
  assumes "cached_ok mem cached" "chain (message_heap mem) first q" "distinct q" "set cached \<inter> set q = {}"
    "\<And>a. a \<in> set q \<Longrightarrow> case message_heap mem a of None \<Rightarrow> False | Some m \<Rightarrow> MAX_CACHED_MESSAGE_SIZE \<le> length (m_Data m)"
  shows "\<exists>mem' cached'. KMessagePort_destroy first mem = Some mem' \<and> cached_ok mem' cached' \<and>
    (\<forall>b. b \<notin> set q \<longrightarrow> message_heap mem' b = message_heap mem b) \<and> set cached \<subseteq> set cached' \<and> set cached' \<subseteq> set cached \<union> set q \<and>
    (\<forall>b \<in> set q. message_heap mem' b = None \<longleftrightarrow> b \<notin> set cached')"
  using assms
proof (induction q arbitrary: mem cached first)
  case Nil
  then show ?case by (subst KMessagePort_destroy.simps) auto
next
  case (Cons a q)
  obtain m where m: "first = Some a" "message_heap mem a = Some m" "chain (message_heap mem) (m_Next m) q" "MAX_CACHED_MESSAGE_SIZE \<le> length (m_Data m)"
    using Cons.prems(2) Cons.prems(5) [of a] by (auto split: option.splits)
  obtain mem1 cached1 where f: "free_message a mem = Some mem1" "cached_ok mem1 cached1" "\<forall>b. b \<noteq> a \<longrightarrow> message_heap mem1 b = message_heap mem b"
      "set cached1 = insert a (set cached) \<and> message_heap mem1 a \<noteq> None \<or> cached1 = cached \<and> message_heap mem1 a = None"
    using free_message_ok [OF Cons.prems(1) m(2) _ m(4)] Cons.prems(4) by auto
  have a: "a \<notin> set q" "a \<notin> set cached" using Cons.prems(3,4) by auto
  have e: "message_heap mem1 b = message_heap mem b" if "b \<in> set q" for b using f(3) a(1) that by metis
  have "set cached1 \<subseteq> insert a (set cached)" using f(4) by blast
  then have d: "set cached1 \<inter> set q = {}" using Cons.prems(4) a(1) by auto
  have "chain (message_heap mem1) (m_Next m) q" using m(3) e message_chain_cong [of q] by metis
  moreover have "case message_heap mem1 b of None \<Rightarrow> False | Some m \<Rightarrow> MAX_CACHED_MESSAGE_SIZE \<le> length (m_Data m)" if "b \<in> set q" for b
    using Cons.prems(5) [of b] e [OF that] that by simp
  ultimately obtain mem' cached' where r: "KMessagePort_destroy (m_Next m) mem1 = Some mem'" "cached_ok mem' cached'"
      "\<And>b. b \<notin> set q \<Longrightarrow> message_heap mem' b = message_heap mem1 b" "set cached1 \<subseteq> set cached'" "set cached' \<subseteq> set cached1 \<union> set q"
      "\<And>b. b \<in> set q \<Longrightarrow> message_heap mem' b = None \<longleftrightarrow> b \<notin> set cached'"
    using Cons.IH [OF f(2) _ _ d, of "m_Next m"] Cons.prems(3) by auto
  have "KMessagePort_destroy first mem = Some mem'" using m f(1) r(1) by (subst KMessagePort_destroy.simps) simp
  moreover have "message_heap mem' a = None \<longleftrightarrow> a \<notin> set cached'" using r(3) [OF a(1)] r(4,5) f(4) a by auto
  moreover have "set cached \<subseteq> set cached'" "set cached' \<subseteq> set cached \<union> set (a # q)" using f(4) r(4,5) by auto
  moreover have "message_heap mem' b = message_heap mem b" if "b \<notin> set (a # q)" for b using that r(3) f(3) by simp
  ultimately show ?case using r(2,6) by (intro exI [of _ mem'] exI [of _ cached']) auto
qed

lemma destroy_memory:
  assumes ok: "memory_ok mem port cached qs"
  shows "\<exists>mem' cached'. KMessagePort_destroy (m_FirstMsg (port n)) mem = Some mem' \<and>
    memory_ok mem' (port(n := KMessagePort_new maxCount)) cached' (qs(n := [])) \<and>
    (\<forall>k. k \<noteq> n \<longrightarrow> queue_items mem' (qs k) = queue_items mem (qs k))"
proof -
  have q: "cached_ok mem cached" "chain (message_heap mem) (m_FirstMsg (port n)) (qs n)" "distinct (qs n)" "set cached \<inter> set (qs n) = {}"
      "\<And>a. a \<in> set (qs n) \<Longrightarrow> case message_heap mem a of None \<Rightarrow> False | Some m \<Rightarrow> MAX_CACHED_MESSAGE_SIZE \<le> length (m_Data m)"
    using ok by (fastforce simp: memory_ok_def queue_ok_def split: option.splits)+
  obtain mem' cached' where r: "KMessagePort_destroy (m_FirstMsg (port n)) mem = Some mem'" "cached_ok mem' cached'"
      "\<And>b. b \<notin> set (qs n) \<Longrightarrow> message_heap mem' b = message_heap mem b" "set cached \<subseteq> set cached'" "set cached' \<subseteq> set cached \<union> set (qs n)"
      "\<And>b. b \<in> set (qs n) \<Longrightarrow> message_heap mem' b = None \<longleftrightarrow> b \<notin> set cached'"
    using port_destroy_ok [OF q] by blast
  have apart: "set (qs n) \<inter> set (qs k) = {}" if "k \<noteq> n" for k using ok that unfolding memory_ok_def by metis
  have other: "message_heap mem' b = message_heap mem b" if "b \<in> set (qs k)" "k \<noteq> n" for b k
    using r(3) apart [OF that(2)] that(1) by blast
  have "memory_ok mem' (port(n := KMessagePort_new maxCount)) cached' (qs(n := []))"
    unfolding memory_ok_def
  proof (intro conjI allI impI)
    show "cached_ok mem' cached'" by (rule r)
    have "queue_ok (message_heap mem') (port k) (qs k)" if "k \<noteq> n" for k
      using ok other [OF _ that] queue_cong [of "qs k" "message_heap mem'" "message_heap mem" "port k"] by (simp add: memory_ok_def)
    then show "queue_ok (message_heap mem') ((port(n := KMessagePort_new maxCount)) k) ((qs(n := [])) k)" for k
      by (auto simp: queue_ok_def KMessagePort_new_def)
    have "set cached \<inter> set (qs k) = {}" for k using ok by (simp add: memory_ok_def)
    then show "set cached' \<inter> set ((qs(n := [])) k) = {}" for k
      using apart [of k] r(5) by (cases "k = n") auto
    have "set (qs i) \<inter> set (qs k) = {}" if "i \<noteq> k" for i k using ok that by (simp add: memory_ok_def)
    then show "set ((qs(n := [])) i) \<inter> set ((qs(n := [])) k) = {}" if "i \<noteq> k" for i k using that by simp
    show "dom (message_heap mem') = set cached' \<union> (\<Union>k. set ((qs(n := [])) k))"
    proof (rule set_eqI)
      fix b
      have d: "b \<in> dom (message_heap mem) \<longleftrightarrow> b \<in> set cached \<or> (\<exists>k. b \<in> set (qs k))" using ok by (auto simp: memory_ok_def)
      have u: "b \<in> (\<Union>k. set ((qs(n := [])) k)) \<longleftrightarrow> (\<exists>k. k \<noteq> n \<and> b \<in> set (qs k))" by (auto split: if_splits)
      show "b \<in> dom (message_heap mem') \<longleftrightarrow> b \<in> set cached' \<union> (\<Union>k. set ((qs(n := [])) k))"
      proof (cases "b \<in> set (qs n)")
        case True
        then have "b \<notin> set (qs k)" if "k \<noteq> n" for k using apart [OF that] by blast
        then show ?thesis using r(6) [OF True] unfolding Un_iff u by (auto simp: domIff)
      next
        case False
        then have "b \<in> set cached' \<longleftrightarrow> b \<in> set cached" using r(4,5) by blast
        moreover have "b \<in> dom (message_heap mem') \<longleftrightarrow> b \<in> dom (message_heap mem)" using r(3) [OF False] by (simp add: domIff)
        ultimately show ?thesis using False unfolding Un_iff u d by metis
      qed
    qed
  qed
  moreover have "queue_items mem' (qs k) = queue_items mem (qs k)" if "k \<noteq> n" for k
    unfolding queue_items_def using other that by (intro items_cong) blast
  ultimately show ?thesis using r(1) by blast
qed

end
