(* ===== verification/MessagePortSystem.thy ===== *)
theory MessagePortSystem
  imports KMessagePort
begin

text \<open>
  Message ports with all their callers: messages arrive in order, no wakeup is lost (contract \<open>monitor_queue\<close>, interpreted for senders and receivers), and
  memory is used correctly.
\<close>

section \<open>Ports with their callers\<close>

text \<open>
  Threads that send and receive through any number of ports, ports that are deleted (and whose identity is then used for a new one), and listeners of wait groups. A
  section is a step: besides the state of its port, which its mutex guards, it only uses the cache of messages, in critical sections, and messages that no other
  port has. Two logs per port record what was sent and what was received, with the buffer size of the receiver.
\<close>

datatype port_call = Outside | is_Sending: Sending nat int int "u8 list" | is_Receiving: Receiving nat "nat option"

fun call_port :: "port_call \<Rightarrow> nat option" where
  "call_port Outside = None"
| "call_port (Sending n handler code data) = Some n"
| "call_port (Receiving n buffer_size) = Some n"

record port_sys =
  ms_memory :: message_memory
  ms_port :: "nat \<Rightarrow> KMessagePort"
  ms_call :: "nat \<Rightarrow> port_call"
  ms_sent :: "nat \<Rightarrow> message list"
  ms_received :: "nat \<Rightarrow> (nat option \<times> message) list"

definition after_send :: "nat \<Rightarrow> nat \<Rightarrow> int \<Rightarrow> int \<Rightarrow> u8 list \<Rightarrow> unit call_section \<Rightarrow> message_memory \<Rightarrow> KMessagePort \<Rightarrow> port_sys \<Rightarrow> port_sys" where
  "after_send t n handler code data r mem port s =
     s\<lparr>ms_memory := mem, ms_port := (ms_port s)(n := port), ms_call := (ms_call s)(t := if r = Waits then Sending n handler code data else Outside),
       ms_sent := (if r = Returns (Inr ()) then (ms_sent s)(n := ms_sent s n @ [(handler, code, data)]) else ms_sent s)\<rparr>"

definition after_receive :: "nat \<Rightarrow> nat \<Rightarrow> nat option \<Rightarrow> message call_section \<Rightarrow> message_memory \<Rightarrow> KMessagePort \<Rightarrow> port_sys \<Rightarrow> port_sys" where
  "after_receive t n buffer_size r mem port s =
     s\<lparr>ms_memory := mem, ms_port := (ms_port s)(n := port), ms_call := (ms_call s)(t := if r = Waits then Receiving n buffer_size else Outside),
       ms_received := (case r of Returns (Inr m) \<Rightarrow> (ms_received s)(n := ms_received s n @ [(buffer_size, m)]) | _ \<Rightarrow> ms_received s)\<rparr>"

definition forget_waiter :: "waiter \<Rightarrow> KMessagePort \<Rightarrow> KMessagePort" where
  "forget_waiter w port = port\<lparr>m_SendCondition := removeAll w (m_SendCondition port), m_ReceiveCondition := removeAll w (m_ReceiveCondition port)\<rparr>"

inductive port_step :: "port_sys \<Rightarrow> port_sys \<Rightarrow> bool" where
  sends: "ms_call s t = Outside \<Longrightarrow> malloc_ok block (length data) (ms_memory s) \<Longrightarrow>
    SendMessage_section block t handler code data (ms_memory s, ms_port s n) = Some (r, mem, port) \<Longrightarrow>
    port_step s (after_send t n handler code data r mem port s)"
| send_on: "ms_call s t = Sending n handler code data \<Longrightarrow> Caller t \<notin> set (m_SendCondition (ms_port s n)) \<Longrightarrow> malloc_ok block (length data) (ms_memory s) \<Longrightarrow>
    SendMessage_section block t handler code data (ms_memory s, ms_port s n) = Some (r, mem, port) \<Longrightarrow>
    port_step s (after_send t n handler code data r mem port s)"
| receives: "ms_call s t = Outside \<Longrightarrow> ReceiveMessage_section t buffer_size (ms_memory s, ms_port s n) = Some (r, mem, port) \<Longrightarrow>
    port_step s (after_receive t n buffer_size r mem port s)"
| receive_on: "ms_call s t = Receiving n buffer_size \<Longrightarrow> Caller t \<notin> set (m_ReceiveCondition (ms_port s n)) \<Longrightarrow>
    ReceiveMessage_section t buffer_size (ms_memory s, ms_port s n) = Some (r, mem, port) \<Longrightarrow> port_step s (after_receive t n buffer_size r mem port s)"
| interrupted: "call_port (ms_call s t) = Some n \<Longrightarrow> port_step s (s\<lparr>ms_port := (ms_port s)(n := forget_waiter (Caller t) (ms_port s n))\<rparr>)"
| failed: "call_port (ms_call s t) = Some n \<Longrightarrow>
    port_step s (s\<lparr>ms_port := (ms_port s)(n := forget_waiter (Caller t) (ms_port s n)), ms_call := (ms_call s)(t := Outside)\<rparr>)"
| listen: "port_step s (s\<lparr>ms_port := (ms_port s)(n := snd (AddListener l mode (ms_port s n)))\<rparr>)"
| unlisten: "port_step s (s\<lparr>ms_port := (ms_port s)(n := forget_waiter (Listener l) (ms_port s n))\<rparr>)"
| deleted: "(\<forall>t. call_port (ms_call s t) \<noteq> Some n) \<Longrightarrow> m_SendCondition (ms_port s n) = [] \<Longrightarrow> m_ReceiveCondition (ms_port s n) = [] \<Longrightarrow>
    KMessagePort_destroy (m_FirstMsg (ms_port s n)) (ms_memory s) = Some mem \<Longrightarrow>
    port_step s (s\<lparr>ms_memory := mem, ms_port := (ms_port s)(n := KMessagePort_new maxCount), ms_sent := (ms_sent s)(n := []),
      ms_received := (ms_received s)(n := [])\<rparr>)"

definition port_start :: "port_sys \<Rightarrow> bool" where
  "port_start s \<longleftrightarrow> (\<exists>maxCount. s = \<lparr>ms_memory = message_memory_init, ms_port = (\<lambda>n. KMessagePort_new (maxCount n)), ms_call = (\<lambda>_. Outside),
     ms_sent = (\<lambda>_. []), ms_received = (\<lambda>_. [])\<rparr>)"

definition port_reachable :: "port_sys \<Rightarrow> bool" where
  "port_reachable = reaches port_start port_step"

text \<open>The logs of a port: the messages received are the first ones sent, each cut to the size of the receiver's buffer; the queue holds the others.\<close>

definition log_ok :: "message list \<Rightarrow> (nat option \<times> message) list \<Rightarrow> message list \<Rightarrow> bool" where
  "log_ok sent received queue \<longleftrightarrow>
     (\<exists>messages. sent = messages @ queue \<and> list_all2 (\<lambda>(buffer_size, m) m'. m = message_deliver buffer_size m') received messages)"

definition callers_ok :: "port_sys \<Rightarrow> bool" where
  "callers_ok s \<longleftrightarrow> (\<forall>t n.
     (Caller t \<in> set (m_SendCondition (ms_port s n)) \<longrightarrow> is_Sending (ms_call s t) \<and> call_port (ms_call s t) = Some n) \<and>
     (Caller t \<in> set (m_ReceiveCondition (ms_port s n)) \<longrightarrow> is_Receiving (ms_call s t) \<and> call_port (ms_call s t) = Some n) \<and>
     m_MessageCount (ms_port s n) \<le> m_MaxCount (ms_port s n))"

definition port_sys_inv :: "port_sys \<Rightarrow> bool" where
  "port_sys_inv s \<longleftrightarrow> callers_ok s \<and>
     (\<exists>cached qs. memory_ok (ms_memory s) (ms_port s) cached qs \<and>
       (\<forall>n. log_ok (ms_sent s n) (ms_received s n) (queue_items (ms_memory s) (qs n))))"

definition sender_waits :: "port_sys \<Rightarrow> nat \<Rightarrow> bool" where
  "sender_waits s n \<longleftrightarrow> m_MessageCount (ms_port s n) \<ge> m_MaxCount (ms_port s n)"

definition receiver_waits :: "port_sys \<Rightarrow> nat \<Rightarrow> bool" where
  "receiver_waits s n \<longleftrightarrow> m_MessageCount (ms_port s n) = 0"

definition port_queues_kept :: "port_sys \<Rightarrow> port_sys \<Rightarrow> bool" where
  "port_queues_kept s s' \<longleftrightarrow> (\<forall>n.
     (\<forall>w \<in> set (m_SendCondition (ms_port s' n)). sender_waits s' n \<or> w \<in> set (m_SendCondition (ms_port s n)) \<and> (sender_waits s n \<longrightarrow> sender_waits s' n)) \<and>
     (\<forall>w \<in> set (m_ReceiveCondition (ms_port s' n)). receiver_waits s' n \<or> w \<in> set (m_ReceiveCondition (ms_port s n)) \<and> (receiver_waits s n \<longrightarrow> receiver_waits s' n)))"

lemma queue_ok_waiters [simp]:
  "queue_ok h (port\<lparr>m_SendCondition := x\<rparr>) q = queue_ok h port q" "queue_ok h (port\<lparr>m_ReceiveCondition := x\<rparr>) q = queue_ok h port q"
  by (simp_all add: queue_ok_def)

lemma memory_ok_port: "(\<And>h q. queue_ok h p q = queue_ok h (port n) q) \<Longrightarrow> memory_ok mem (port(n := p)) cached qs = memory_ok mem port cached qs"
  by (auto simp: memory_ok_def)

lemma change_port:
  assumes "port_sys_inv s" "\<And>h q. queue_ok h p q = queue_ok h (ms_port s n) q" "callers_ok (s\<lparr>ms_port := (ms_port s)(n := p), ms_call := call\<rparr>)"
  shows "port_sys_inv (s\<lparr>ms_port := (ms_port s)(n := p), ms_call := call\<rparr>)"
  using assms(1,3) memory_ok_port [where p = p and port = "ms_port s" and n = n] assms(2) by (simp add: port_sys_inv_def)

lemma port_sys_invI:
  assumes "callers_ok s" "memory_ok (ms_memory s) (ms_port s) cached qs"
    "\<And>n. log_ok (ms_sent s n) (ms_received s n) (queue_items (ms_memory s) (qs n))"
  shows "port_sys_inv s"
  using assms unfolding port_sys_inv_def by blast

lemma after_simps [simp]:
  "ms_memory (after_send t n handler code data r mem port s) = mem" "ms_port (after_send t n handler code data r mem port s) = (ms_port s)(n := port)"
  "ms_memory (after_receive t n buffer_size x mem port s) = mem" "ms_port (after_receive t n buffer_size x mem port s) = (ms_port s)(n := port)"
  by (simp_all add: after_send_def after_receive_def)

lemma memory_count: "memory_ok mem port cached qs \<Longrightarrow> m_MessageCount (port n) = length (qs n)"
  by (simp add: memory_ok_def queue_ok_def)

lemma after_send_ok:
  assumes inv: "port_sys_inv s" and block: "malloc_ok block (length data) (ms_memory s)"
    and r: "SendMessage_section block t handler code data (ms_memory s, ms_port s n) = Some (r, mem, port)"
    and t: "\<And>k. Caller t \<notin> set (m_SendCondition (ms_port s k))" "\<And>k. Caller t \<notin> set (m_ReceiveCondition (ms_port s k))"
  shows "port_sys_inv (after_send t n handler code data r mem port s) \<and> port_queues_kept s (after_send t n handler code data r mem port s)"
proof (cases "m_MessageCount (ms_port s n) \<ge> m_MaxCount (ms_port s n)")
  case True
  let ?p = "ms_port s n\<lparr>m_SendCondition := m_SendCondition (ms_port s n) @ [Caller t]\<rparr>"
  have e: "r = Waits" "mem = ms_memory s" "port = ?p" using r True by (auto simp: SendMessage_section_def)
  let ?s = "s\<lparr>ms_port := (ms_port s)(n := ?p), ms_call := (ms_call s)(t := Sending n handler code data)\<rparr>"
  have s: "after_send t n handler code data r mem port s = ?s" by (simp add: after_send_def e)
  have "callers_ok ?s" using inv t by (auto simp: port_sys_inv_def callers_ok_def)
  then have "port_sys_inv ?s" by (intro change_port [OF inv]) simp_all
  moreover have "port_queues_kept s ?s" using True by (auto simp: port_queues_kept_def sender_waits_def receiver_waits_def)
  ultimately show ?thesis unfolding s by blast
next
  case False
  obtain cached qs where ok: "memory_ok (ms_memory s) (ms_port s) cached qs" and
    log: "\<And>n. log_ok (ms_sent s n) (ms_received s n) (queue_items (ms_memory s) (qs n))"
    using inv by (auto simp: port_sys_inv_def)
  have room: "m_MessageCount (ms_port s n) < m_MaxCount (ms_port s n)" using False by simp
  have calls: "callers_ok s" using inv by (simp add: port_sys_inv_def)
  from send_memory [OF ok block room, of t handler code] r
  consider "r = Returns (Inl NOMEM)" "mem = ms_memory s" "port = ms_port s n"
    | a cached' where "r = Returns (Inr ())" "m_SendCondition port = m_SendCondition (ms_port s n)" "m_ReceiveCondition port = []"
        "m_MaxCount port = m_MaxCount (ms_port s n)" "memory_ok mem ((ms_port s)(n := port)) cached' (qs(n := qs n @ [a]))"
        "queue_items mem (qs n @ [a]) = queue_items (ms_memory s) (qs n) @ [(handler, code, data)]"
        "\<And>k. k \<noteq> n \<Longrightarrow> queue_items mem (qs k) = queue_items (ms_memory s) (qs k)"
    by auto
  then show ?thesis
  proof cases
    case 1
    let ?s = "s\<lparr>ms_port := (ms_port s)(n := ms_port s n), ms_call := (ms_call s)(t := Outside)\<rparr>"
    have s: "after_send t n handler code data r mem port s = ?s" by (simp add: after_send_def 1)
    have "callers_ok ?s" using calls t by (auto simp: callers_ok_def)
    then have "port_sys_inv ?s" by (intro change_port [OF inv]) simp_all
    moreover have "port_queues_kept s ?s" by (auto simp: port_queues_kept_def sender_waits_def receiver_waits_def)
    ultimately show ?thesis unfolding s by blast
  next
    case (2 a cached')
    let ?s = "after_send t n handler code data r mem port s"
    have c: "m_MessageCount port = Suc (m_MessageCount (ms_port s n))"
      using memory_count [OF 2(5), of n] memory_count [OF ok, of n] by simp
    have "callers_ok ?s" using calls t 2(1-4) c room by (auto simp: callers_ok_def after_send_def)
    moreover have "log_ok (ms_sent ?s k) (ms_received ?s k) (queue_items mem ((qs(n := qs n @ [a])) k))" for k
      using log [of k] 2(1,6,7) by (auto simp: log_ok_def after_send_def)
    ultimately have "port_sys_inv ?s" using 2(5) by (intro port_sys_invI [where cached = cached' and qs = "qs(n := qs n @ [a])"]) simp_all
    moreover have "port_queues_kept s ?s"
      using 2(2-4) c by (auto simp: port_queues_kept_def sender_waits_def receiver_waits_def after_send_def)
    ultimately show ?thesis by blast
  qed
qed

lemma after_receive_ok:
  assumes inv: "port_sys_inv s" and r: "ReceiveMessage_section t buffer_size (ms_memory s, ms_port s n) = Some (r, mem, port)"
    and t: "\<And>k. Caller t \<notin> set (m_SendCondition (ms_port s k))" "\<And>k. Caller t \<notin> set (m_ReceiveCondition (ms_port s k))"
  shows "port_sys_inv (after_receive t n buffer_size r mem port s) \<and> port_queues_kept s (after_receive t n buffer_size r mem port s)"
proof (cases "m_MessageCount (ms_port s n) = 0")
  case True
  let ?p = "ms_port s n\<lparr>m_ReceiveCondition := m_ReceiveCondition (ms_port s n) @ [Caller t]\<rparr>"
  have e: "r = Waits" "mem = ms_memory s" "port = ?p" using r True by (auto simp: ReceiveMessage_section_def)
  let ?s = "s\<lparr>ms_port := (ms_port s)(n := ?p), ms_call := (ms_call s)(t := Receiving n buffer_size)\<rparr>"
  have s: "after_receive t n buffer_size r mem port s = ?s" by (simp add: after_receive_def e)
  have "callers_ok ?s" using inv t by (auto simp: port_sys_inv_def callers_ok_def)
  then have "port_sys_inv ?s" by (intro change_port [OF inv]) simp_all
  moreover have "port_queues_kept s ?s" using True by (auto simp: port_queues_kept_def sender_waits_def receiver_waits_def)
  ultimately show ?thesis unfolding s by blast
next
  case False
  obtain cached qs where ok: "memory_ok (ms_memory s) (ms_port s) cached qs" and
    log: "\<And>n. log_ok (ms_sent s n) (ms_received s n) (queue_items (ms_memory s) (qs n))"
    using inv by (auto simp: port_sys_inv_def)
  have calls: "callers_ok s" using inv by (simp add: port_sys_inv_def)
  from receive_memory [OF ok False, of t buffer_size] r
  obtain a q cached' where q: "qs n = a # q" "r = Returns (Inr (message_deliver buffer_size (message_item (message_heap (ms_memory s)) a)))"
      "m_SendCondition port = []" "m_ReceiveCondition port = m_ReceiveCondition (ms_port s n)" "m_MaxCount port = m_MaxCount (ms_port s n)"
      "memory_ok mem ((ms_port s)(n := port)) cached' (qs(n := q))" "queue_items mem q = queue_items (ms_memory s) q"
      "\<And>k. k \<noteq> n \<Longrightarrow> queue_items mem (qs k) = queue_items (ms_memory s) (qs k)"
    by auto
  let ?s = "after_receive t n buffer_size r mem port s"
  have c: "m_MessageCount (ms_port s n) = Suc (m_MessageCount port)"
    using memory_count [OF q(6), of n] memory_count [OF ok, of n] q(1) by simp
  have "m_MessageCount (ms_port s n) \<le> m_MaxCount (ms_port s n)" using calls unfolding callers_ok_def by blast
  then have "callers_ok ?s" using calls t q(2-5) c by (auto simp: callers_ok_def after_receive_def)
  moreover have "log_ok (ms_sent ?s k) (ms_received ?s k) (queue_items mem ((qs(n := q)) k))" for k
  proof (cases "k = n")
    case True
    obtain messages where m: "ms_sent s n = messages @ queue_items (ms_memory s) (qs n)"
        "list_all2 (\<lambda>(buffer_size, m) m'. m = message_deliver buffer_size m') (ms_received s n) messages"
      using log [of n] by (auto simp: log_ok_def)
    have "ms_sent s n = (messages @ [message_item (message_heap (ms_memory s)) a]) @ queue_items mem q"
      using m(1) q(1,7) by (simp add: queue_items_def)
    moreover have "list_all2 (\<lambda>(buffer_size, m) m'. m = message_deliver buffer_size m')
        (ms_received s n @ [(buffer_size, message_deliver buffer_size (message_item (message_heap (ms_memory s)) a))])
        (messages @ [message_item (message_heap (ms_memory s)) a])"
      using m(2) by (simp add: list_all2_appendI)
    ultimately show ?thesis using True q(2) by (auto simp: log_ok_def after_receive_def simp del: append_assoc)
  next
    case False
    then show ?thesis using log [of k] q(2,8) by (simp add: after_receive_def)
  qed
  ultimately have "port_sys_inv ?s" using q(6) by (intro port_sys_invI [where cached = cached' and qs = "qs(n := q)"]) simp_all
  moreover have "port_queues_kept s ?s"
    using q(3-5) c by (auto simp: port_queues_kept_def sender_waits_def receiver_waits_def after_receive_def)
  ultimately show ?thesis by blast
qed

lemma port_sys_invD:
  assumes "port_sys_inv s"
  shows "Caller t \<in> set (m_SendCondition (ms_port s n)) \<Longrightarrow> is_Sending (ms_call s t) \<and> call_port (ms_call s t) = Some n"
    "Caller t \<in> set (m_ReceiveCondition (ms_port s n)) \<Longrightarrow> is_Receiving (ms_call s t) \<and> call_port (ms_call s t) = Some n"
    "m_MessageCount (ms_port s n) \<le> m_MaxCount (ms_port s n)"
  using assms unfolding port_sys_inv_def callers_ok_def by blast+

lemma awake:
  assumes "port_sys_inv s"
    "\<And>n. call_port (ms_call s t) = Some n \<Longrightarrow> Caller t \<notin> set (m_SendCondition (ms_port s n)) \<and> Caller t \<notin> set (m_ReceiveCondition (ms_port s n))"
  shows "Caller t \<notin> set (m_SendCondition (ms_port s k))" "Caller t \<notin> set (m_ReceiveCondition (ms_port s k))"
proof -
  have "callers_ok s" using assms(1) by (simp add: port_sys_inv_def)
  then show "Caller t \<notin> set (m_SendCondition (ms_port s k))" "Caller t \<notin> set (m_ReceiveCondition (ms_port s k))"
    using assms(2) [of k] unfolding callers_ok_def by blast+
qed

lemma forget_waiter_ok:
  assumes inv: "port_sys_inv s" and c: "call = (ms_call s)(t := Outside) \<and> w = Caller t \<and> call_port (ms_call s t) = Some n \<or> call = ms_call s"
  shows "port_sys_inv (s\<lparr>ms_port := (ms_port s)(n := forget_waiter w (ms_port s n)), ms_call := call\<rparr>) \<and>
    port_queues_kept s (s\<lparr>ms_port := (ms_port s)(n := forget_waiter w (ms_port s n)), ms_call := call\<rparr>)"
proof
  have "callers_ok s" using inv by (simp add: port_sys_inv_def)
  then have "callers_ok (s\<lparr>ms_port := (ms_port s)(n := forget_waiter w (ms_port s n)), ms_call := call\<rparr>)"
    using c by (auto simp: callers_ok_def forget_waiter_def split: if_splits)
  then show "port_sys_inv (s\<lparr>ms_port := (ms_port s)(n := forget_waiter w (ms_port s n)), ms_call := call\<rparr>)"
    by (intro change_port [OF inv]) (simp_all add: forget_waiter_def)
  show "port_queues_kept s (s\<lparr>ms_port := (ms_port s)(n := forget_waiter w (ms_port s n)), ms_call := call\<rparr>)"
    by (auto simp: port_queues_kept_def forget_waiter_def sender_waits_def receiver_waits_def)
qed

lemma port_step_ok:
  assumes "port_step s s'" "port_sys_inv s"
  shows "port_sys_inv s' \<and> port_queues_kept s s'"
  using assms
proof (induction rule: port_step.induct)
  case (sends s t block data n handler code r mem port)
  show ?case by (rule after_send_ok [OF sends(4,2,3)]) (use awake [OF sends(4), of t] sends(1) in auto)
next
  case (send_on s t n handler code data block r mem port)
  have "Caller t \<notin> set (m_ReceiveCondition (ms_port s n))"
    using send_on(1) port_sys_invD(2) [OF send_on(5), of t n] by auto
  then show ?case by (intro after_send_ok [OF send_on(5,3,4)] awake [OF send_on(5)]) (use send_on(1,2) in auto)
next
  case (receives s t buffer_size n r mem port)
  show ?case by (rule after_receive_ok [OF receives(3,2)]) (use awake [OF receives(3), of t] receives(1) in auto)
next
  case (receive_on s t n buffer_size r mem port)
  have "Caller t \<notin> set (m_SendCondition (ms_port s n))"
    using receive_on(1) port_sys_invD(1) [OF receive_on(4), of t n] by auto
  then show ?case by (intro after_receive_ok [OF receive_on(4,3)] awake [OF receive_on(4)]) (use receive_on(1,2) in auto)
next
  case (interrupted s t n)
  then show ?case using forget_waiter_ok [of s "ms_call s" t "Caller t" n] by simp
next
  case (failed s t n)
  then show ?case using forget_waiter_ok [of s "(ms_call s)(t := Outside)" t "Caller t" n] by simp
next
  case (listen s n l mode)
  let ?p = "snd (AddListener l mode (ms_port s n))"
  have "callers_ok (s\<lparr>ms_port := (ms_port s)(n := ?p), ms_call := ms_call s\<rparr>)"
    using listen by (auto simp: port_sys_inv_def callers_ok_def AddListener_def split: ObjectWaitMode.splits if_splits)
  then have "port_sys_inv (s\<lparr>ms_port := (ms_port s)(n := ?p), ms_call := ms_call s\<rparr>)"
    by (intro change_port [OF listen]) (simp_all add: AddListener_def split: ObjectWaitMode.splits)
  moreover have "port_queues_kept s (s\<lparr>ms_port := (ms_port s)(n := ?p)\<rparr>)"
    by (auto simp: port_queues_kept_def AddListener_def sender_waits_def receiver_waits_def split: ObjectWaitMode.splits if_splits)
  ultimately show ?case by simp
next
  case (unlisten s n l)
  then show ?case using forget_waiter_ok [of s "ms_call s" _ "Listener l" n] by simp
next
  case (deleted s n mem maxCount)
  obtain cached qs where ok: "memory_ok (ms_memory s) (ms_port s) cached qs" and
    log: "\<And>n. log_ok (ms_sent s n) (ms_received s n) (queue_items (ms_memory s) (qs n))" and calls: "callers_ok s"
    using deleted(5) by (auto simp: port_sys_inv_def)
  obtain cached' where m: "memory_ok mem ((ms_port s)(n := KMessagePort_new maxCount)) cached' (qs(n := []))"
      "\<And>k. k \<noteq> n \<Longrightarrow> queue_items mem (qs k) = queue_items (ms_memory s) (qs k)"
    using destroy_memory [OF ok, of n maxCount] deleted(4) by auto
  let ?s = "s\<lparr>ms_memory := mem, ms_port := (ms_port s)(n := KMessagePort_new maxCount), ms_sent := (ms_sent s)(n := []), ms_received := (ms_received s)(n := [])\<rparr>"
  have "callers_ok ?s" using calls by (auto simp: callers_ok_def KMessagePort_new_def)
  moreover have "log_ok (ms_sent ?s k) (ms_received ?s k) (queue_items mem ((qs(n := [])) k))" for k
    using log [of k] m(2) [of k] by (auto simp: log_ok_def queue_items_def)
  ultimately have "port_sys_inv ?s" using m(1) by (intro port_sys_invI [where cached = cached' and qs = "qs(n := [])"]) simp_all
  moreover have "port_queues_kept s ?s"
    by (auto simp: port_queues_kept_def KMessagePort_new_def sender_waits_def receiver_waits_def)
  ultimately show ?case by blast
qed

lemma port_start_ok:
  assumes "port_start s"
  shows "port_sys_inv s" "m_SendCondition (ms_port s n) = []" "m_ReceiveCondition (ms_port s n) = []"
proof -
  show "m_SendCondition (ms_port s n) = []" "m_ReceiveCondition (ms_port s n) = []" using assms by (auto simp: port_start_def KMessagePort_new_def)
  have "memory_ok (ms_memory s) (ms_port s) [] (\<lambda>_. [])"
    using assms by (auto simp: port_start_def memory_ok_def cached_ok_def queue_ok_def message_memory_init_def KMessagePort_new_def)
  then show "port_sys_inv s"
    using assms by (intro port_sys_invI [where cached = "[]" and qs = "\<lambda>_. []"])
      (auto simp: port_start_def callers_ok_def KMessagePort_new_def log_ok_def queue_items_def)
qed

lemma port_step_waiters:
  assumes "port_sys_inv s" "port_step s s'"
  shows "w \<in> set (m_SendCondition (ms_port s' n)) \<Longrightarrow>
      sender_waits s' n \<or> w \<in> set (m_SendCondition (ms_port s n)) \<and> (sender_waits s n \<longrightarrow> sender_waits s' n)"
    "w \<in> set (m_ReceiveCondition (ms_port s' n)) \<Longrightarrow>
      receiver_waits s' n \<or> w \<in> set (m_ReceiveCondition (ms_port s n)) \<and> (receiver_waits s n \<longrightarrow> receiver_waits s' n)"
  using port_step_ok [OF assms(2,1)] unfolding port_queues_kept_def by blast+

interpretation senders: monitor_queue port_start port_step port_sys_inv "\<lambda>s w. w \<in> set (m_SendCondition (ms_port s n))" "\<lambda>s w. sender_waits s n" for n
  by unfold_locales (use port_start_ok port_step_ok in simp_all, rule port_step_waiters)

interpretation receivers: monitor_queue port_start port_step port_sys_inv "\<lambda>s w. w \<in> set (m_ReceiveCondition (ms_port s n))" "\<lambda>s w. receiver_waits s n" for n
  by unfold_locales (use port_start_ok port_step_ok in simp_all, rule port_step_waiters)

text \<open>
  C27. Messages are received in the order they were sent, each once, cut to the size of the receiver's buffer: of the messages whose sender was told of success, the
  first ones, as many as were received, are those that were received, and the others are the messages on the list that starts at
  \<open>m_FirstMsg\<close>, in order and with the contents that were sent. The port counts those, and there are at most \<open>m_MaxCount\<close>.
\<close>

theorem port_is_queue:
  assumes "port_reachable s"
  shows "\<exists>messages nodes. ms_sent s n = messages @ map (message_item (message_heap (ms_memory s))) nodes \<and>
    chain (message_heap (ms_memory s)) (m_FirstMsg (ms_port s n)) nodes \<and> distinct nodes \<and>
    length nodes = m_MessageCount (ms_port s n) \<and> m_MessageCount (ms_port s n) \<le> m_MaxCount (ms_port s n) \<and>
    length messages = length (ms_received s n) \<and>
    (\<forall>i < length messages. snd (ms_received s n ! i) = message_deliver (fst (ms_received s n ! i)) (messages ! i))"
proof -
  obtain cached qs where i: "callers_ok s" "memory_ok (ms_memory s) (ms_port s) cached qs" "log_ok (ms_sent s n) (ms_received s n) (queue_items (ms_memory s) (qs n))"
    using senders.reachable_inv [OF assms [unfolded port_reachable_def]] by (auto simp: port_sys_inv_def)
  then obtain messages where m: "ms_sent s n = messages @ queue_items (ms_memory s) (qs n)"
      "list_all2 (\<lambda>(buffer_size, m) m'. m = message_deliver buffer_size m') (ms_received s n) messages"
    by (auto simp: log_ok_def)
  have "chain (message_heap (ms_memory s)) (m_FirstMsg (ms_port s n)) (qs n) \<and> distinct (qs n) \<and> length (qs n) = m_MessageCount (ms_port s n)"
    using i(2) by (simp add: memory_ok_def queue_ok_def)
  moreover have "m_MessageCount (ms_port s n) \<le> m_MaxCount (ms_port s n)" using i(1) unfolding callers_ok_def by blast
  moreover have "length messages = length (ms_received s n) \<and>
      (\<forall>i < length messages. snd (ms_received s n ! i) = message_deliver (fst (ms_received s n ! i)) (messages ! i))"
    using m(2) by (auto simp: list_all2_conv_all_nth split_beta)
  ultimately show ?thesis using m(1) by (auto simp: queue_items_def)
qed

text \<open>C28. No wakeup is lost: senders, and those who listen for room, sleep only while the port is full, receivers only while it is empty.\<close>

theorem port_no_lost_wakeup:
  assumes "port_reachable s"
  shows "(w \<in> set (m_SendCondition (ms_port s n)) \<longrightarrow> m_MessageCount (ms_port s n) = m_MaxCount (ms_port s n)) \<and>
    (w \<in> set (m_ReceiveCondition (ms_port s n)) \<longrightarrow> m_MessageCount (ms_port s n) = 0)"
proof -
  note r = assms [unfolded port_reachable_def]
  have "callers_ok s" using senders.reachable_inv [OF r] by (simp add: port_sys_inv_def)
  then have "m_MessageCount (ms_port s n) \<le> m_MaxCount (ms_port s n)" by (simp add: callers_ok_def)
  then show ?thesis
    using senders.no_lost_wakeup [OF r, of w n] receivers.no_lost_wakeup [OF r, of w n] by (auto simp: sender_waits_def receiver_waits_def)
qed

text \<open>
  C29. Memory is used correctly: whatever threads do, sending, receiving and deleting a port only access allocated blocks within their bounds, and when all
  ports are empty at most 100 blocks are allocated, those of the cache.
\<close>

theorem port_memory_safe:
  assumes "port_reachable s" "malloc_ok block (length data) (ms_memory s)"
  shows "SendMessage_section block t handler code data (ms_memory s, ms_port s n) \<noteq> None \<and>
    ReceiveMessage_section t buffer_size (ms_memory s, ms_port s n) \<noteq> None \<and>
    KMessagePort_destroy (m_FirstMsg (ms_port s n)) (ms_memory s) \<noteq> None \<and>
    ((\<forall>n. m_MessageCount (ms_port s n) = 0) \<longrightarrow> card (dom (message_heap (ms_memory s))) \<le> 100)"
proof -
  obtain cached qs where i: "memory_ok (ms_memory s) (ms_port s) cached qs"
    using senders.reachable_inv [OF assms(1) [unfolded port_reachable_def]] by (auto simp: port_sys_inv_def)
  have "SendMessage_section block t handler code data (ms_memory s, ms_port s n) \<noteq> None"
  proof (cases "m_MessageCount (ms_port s n) < m_MaxCount (ms_port s n)")
    case True
    from send_memory [OF i assms(2) True, of t handler code] show ?thesis by auto
  qed (simp add: SendMessage_section_def)
  moreover have "ReceiveMessage_section t buffer_size (ms_memory s, ms_port s n) \<noteq> None"
  proof (cases "m_MessageCount (ms_port s n) = 0")
    case False
    from receive_memory [OF i False, of t buffer_size] show ?thesis by auto
  qed (simp add: ReceiveMessage_section_def)
  moreover have "KMessagePort_destroy (m_FirstMsg (ms_port s n)) (ms_memory s) \<noteq> None" using destroy_memory [OF i, of n] by auto
  moreover have "card (dom (message_heap (ms_memory s))) \<le> 100" if "\<forall>n. m_MessageCount (ms_port s n) = 0"
  proof -
    have "qs n = []" for n using memory_count [OF i, of n] that by simp
    then have "dom (message_heap (ms_memory s)) = set cached" "length cached \<le> 100" using i by (simp_all add: memory_ok_def cached_ok_def)
    then show ?thesis using card_length [of cached] by simp
  qed
  ultimately show ?thesis by blast
qed

section \<open>An example\<close>

text \<open>Ports for one message: thread 1 sends two bytes to port 0, thread 2 waits to send more, or receives with a buffer of one byte.\<close>

definition example_start :: port_sys where
  "example_start = \<lparr>ms_memory = message_memory_init, ms_port = (\<lambda>n. KMessagePort_new 1), ms_call = (\<lambda>_. Outside), ms_sent = (\<lambda>_. []), ms_received = (\<lambda>_. [])\<rparr>"

definition example_block :: KMessagePortMessage where
  "example_block = \<lparr>m_TargetHandler = 0, m_Code = 0, m_Length = 0, m_Next = None, m_Data = replicate 64 0\<rparr>"

definition example_message :: KMessagePortMessage where
  "example_message = \<lparr>m_TargetHandler = 3, m_Code = 4, m_Length = 2, m_Next = None, m_Data = [5, 6] @ replicate 62 0\<rparr>"

definition example_memory :: message_memory where
  "example_memory = \<lparr>message_heap = [10 \<mapsto> example_message], gk_FirstCachedMessage = None, gk_CachedMessageCount = 0\<rparr>"

definition example_port :: "waiter list \<Rightarrow> KMessagePort" where
  "example_port senders = \<lparr>m_SendCondition = senders, m_ReceiveCondition = [], m_MaxCount = 1, m_MessageCount = 1, m_FirstMsg = Some 10, m_LastMsg = Some 10\<rparr>"

definition example_sent :: port_sys where
  "example_sent = after_send 1 0 3 4 [5, 6] (Returns (Inr ())) example_memory (example_port []) example_start"

definition example_full :: port_sys where
  "example_full = after_send 2 0 7 8 [9] Waits example_memory (example_port [Caller 2]) example_sent"

definition example_received :: port_sys where
  "example_received = after_receive 2 0 (Some 1) (Returns (Inr (3, 4, [5])))
     \<lparr>message_heap = [10 \<mapsto> example_message], gk_FirstCachedMessage = Some 10, gk_CachedMessageCount = 1\<rparr> (KMessagePort_new 1) example_sent"

lemma example_reachable: "port_reachable example_sent" "port_reachable example_full" "port_reachable example_received"
proof -
  have "port_start example_start" by (auto simp: port_start_def example_start_def)
  then have 0: "reaches port_start port_step example_start" by (rule reaches.init)
  have sizes: "length (m_Data example_block) = 64" "length (m_Data example_message) = 64" by (simp_all add: example_block_def example_message_def)
  have "malloc_ok (Some (10, example_block)) (length [5, 6 :: u8]) (ms_memory example_start)"
    by (simp add: malloc_ok_def example_start_def message_memory_init_def sizes MAX_CACHED_MESSAGE_SIZE_def)
  moreover have "SendMessage_section (Some (10, example_block)) 1 3 4 [5, 6] (ms_memory example_start, ms_port example_start 0) =
      Some (Returns (Inr ()), example_memory, example_port [])"
    by (simp add: SendMessage_section_def example_start_def KMessagePort_new_def alloc_message_def message_memory_init_def fill_message_def sizes
        link_message_def example_memory_def example_port_def example_message_def example_block_def numeral_2_eq_2)
  ultimately have 1: "reaches port_start port_step example_sent"
    unfolding example_sent_def by (intro reaches.step [OF 0] port_step.sends) (simp_all add: example_start_def)
  then show "port_reachable example_sent" by (simp add: port_reachable_def)
  have "SendMessage_section None 2 7 8 [9] (ms_memory example_sent, ms_port example_sent 0) = Some (Waits, example_memory, example_port [Caller 2])"
    by (simp add: SendMessage_section_def example_sent_def example_port_def)
  then show "port_reachable example_full"
    unfolding example_full_def port_reachable_def
    by (intro reaches.step [OF 1] port_step.sends) (simp_all add: example_sent_def example_start_def after_send_def malloc_ok_def)
  have "ReceiveMessage_section 2 (Some 1) (ms_memory example_sent, ms_port example_sent 0) =
      Some (Returns (Inr (3, 4, [5])), \<lparr>message_heap = [10 \<mapsto> example_message], gk_FirstCachedMessage = Some 10, gk_CachedMessageCount = 1\<rparr>, KMessagePort_new 1)"
    by (simp add: ReceiveMessage_section_def DetachMessage_trw_def example_sent_def example_port_def example_memory_def free_message_def KMessagePort_new_def
        MAX_CACHED_MESSAGE_SIZE_def MAX_CACHED_MESSAGE_COUNT_def example_message_def)
  then show "port_reachable example_received"
    unfolding example_received_def port_reachable_def
    by (intro reaches.step [OF 1] port_step.receives) (simp_all add: example_sent_def example_start_def after_send_def)
qed

theorem port_is_queue_witness:
  "\<exists>messages. ms_sent example_received 0 = messages \<and> length messages = 1 \<and>
    ms_received example_received 0 = [(Some 1, message_deliver (Some 1) (messages ! 0))]"
proof -
  have e: "m_MessageCount (ms_port example_received 0) = 0" "ms_received example_received 0 = [(Some 1, 3, 4, [5])]"
    by (simp_all add: example_received_def KMessagePort_new_def after_receive_def example_sent_def after_send_def example_start_def)
  show ?thesis using port_is_queue [OF example_reachable(3), of 0] e by auto
qed

theorem port_no_lost_wakeup_witness: "m_MessageCount (ms_port example_full 0) = m_MaxCount (ms_port example_full 0)"
proof -
  have "Caller 2 \<in> set (m_SendCondition (ms_port example_full 0))" by (simp add: example_full_def example_port_def)
  then show ?thesis using port_no_lost_wakeup [OF example_reachable(2), of "Caller 2" 0] by blast
qed

theorem port_memory_safe_witness:
  "SendMessage_section None 3 1 1 [1] (ms_memory example_received, ms_port example_received 0) \<noteq> None \<and>
    ReceiveMessage_section 3 None (ms_memory example_received, ms_port example_received 0) \<noteq> None"
  using port_memory_safe [OF example_reachable(3), of None "[1]" 3 1 1 0 None] by (simp add: malloc_ok_def)

end
