(* ===== verification/KObjectWaitGroup.thy ===== *)
theory KObjectWaitGroup
  imports Prelude "HOL-Library.Multiset"
begin

text \<open>
  Groups of objects a thread waits for together (\<open>Kernel/KObjectWaitGroup.cpp\<close>): the lists that tie groups and objects together, and the flags by which a
  wait reports the objects that are ready. Blocking and waking are those of \<open>WaitQueue\<close>; here, what they do is an argument of \<open>Wait\<close>.
\<close>

section \<open>Registration\<close>

text \<open>
  A group lists its objects with the modes to wait for, and an object lists the groups it is in. Groups and objects are numbered; \<open>destroyed\<close> are the objects
  whose destructor has run, and a result \<open>None\<close> is an access to one of them. The lists are vectors: to add to one may need memory, and \<open>room\<close> tells whether there is some;
  if there is none, \<open>std::bad_alloc\<close> is thrown, here \<open>NOMEM\<close>, and the vector is as before. Before a group is changed, \<open>WaitForBlockedThread_trw\<close> waits
  until no thread is blocked in it; what follows runs under the group's mutex.
\<close>

record wait_groups =
  m_Objects :: "nat \<Rightarrow> (nat \<times> ObjectWaitMode) list"
  m_WaitGroups :: "nat \<Rightarrow> (nat \<times> ObjectWaitMode) list"
  destroyed :: "nat set"

definition AddObjectInternal_trw ::
  "nat \<Rightarrow> nat \<Rightarrow> ObjectWaitMode \<Rightarrow> bool \<Rightarrow> bool \<Rightarrow> wait_groups \<Rightarrow> (unit result \<times> wait_groups) option" where
  "AddObjectInternal_trw grp object waitMode group_room object_room w =
     (if \<not> group_room then Some (Inl NOMEM, w)
      else
        let w = w\<lparr>m_Objects := (m_Objects w)(grp := m_Objects w grp @ [(object, waitMode)])\<rparr> in
        if object \<in> destroyed w then None
        else if \<not> object_room then Some (Inl NOMEM, w)
        else Some (Inr (), w\<lparr>m_WaitGroups := (m_WaitGroups w)(object := m_WaitGroups w object @ [(grp, waitMode)])\<rparr>))"

text \<open>The loops that add several objects have reserved the room in the group; \<open>object_room i\<close> is the room in the \<open>i\<close>-th object.\<close>

fun add_objects_loop ::
  "nat \<Rightarrow> nat \<Rightarrow> nat list \<Rightarrow> ObjectWaitMode \<Rightarrow> (nat \<Rightarrow> bool) \<Rightarrow> wait_groups \<Rightarrow> (unit result \<times> wait_groups) option" where
  "add_objects_loop grp i [] waitMode object_room w = Some (Inr (), w)"
| "add_objects_loop grp i (object # objects) waitMode object_room w =
     (case AddObjectInternal_trw grp object waitMode True (object_room i) w of
        None \<Rightarrow> None
      | Some (Inl e, w) \<Rightarrow> Some (Inl e, w)
      | Some (Inr _, w) \<Rightarrow> add_objects_loop grp (Suc i) objects waitMode object_room w)"

definition AppendObjects_trw ::
  "nat \<Rightarrow> nat list \<Rightarrow> ObjectWaitMode \<Rightarrow> bool \<Rightarrow> (nat \<Rightarrow> bool) \<Rightarrow> wait_groups \<Rightarrow> (unit result \<times> wait_groups) option" where
  "AppendObjects_trw grp objects waitMode group_room object_room w =
     (if \<not> group_room then Some (Inl NOMEM, w) else add_objects_loop grp 0 objects waitMode object_room w)"

text \<open>\<open>find\<close> and \<open>erase\<close> remove the first match. That the object does not list the group is no error.\<close>

definition RemoveObjectInternal_trw :: "nat \<Rightarrow> nat \<Rightarrow> ObjectWaitMode \<Rightarrow> wait_groups \<Rightarrow> (unit result \<times> wait_groups) option" where
  "RemoveObjectInternal_trw grp object waitMode w =
     (if (object, waitMode) \<notin> set (m_Objects w grp) then Some (Inl INVAL, w)
      else if object \<in> destroyed w then None
      else Some (Inr (), w\<lparr>m_WaitGroups := (m_WaitGroups w)(object := remove1 (grp, waitMode) (m_WaitGroups w object)),
                           m_Objects := (m_Objects w)(grp := remove1 (object, waitMode) (m_Objects w grp))\<rparr>))"

function ClearInternal_trw :: "nat \<Rightarrow> wait_groups \<Rightarrow> (unit result \<times> wait_groups) option" where
  "ClearInternal_trw grp w =
     (if m_Objects w grp = [] then Some (Inr (), w)
      else
        let (object, waitMode) = last (m_Objects w grp) in
        case RemoveObjectInternal_trw grp object waitMode w of
          None \<Rightarrow> None
        | Some (Inl e, w) \<Rightarrow> Some (Inl e, w)
        | Some (Inr _, w) \<Rightarrow> ClearInternal_trw grp w)"
  by pat_completeness auto
termination
proof (relation "measure (\<lambda>(grp, w). length (m_Objects w grp))", simp)
  fix grp w p object waitMode q r w' u
  assume a: "m_Objects w grp \<noteq> []" "p = last (m_Objects w grp)" "(object, waitMode) = p"
    "RemoveObjectInternal_trw grp object waitMode w = Some q" "(r, w') = q" "r = Inr u"
  have i: "(object, waitMode) \<in> set (m_Objects w grp)" using a(1-3) last_in_set by metis
  then have "length (m_Objects w grp) \<noteq> 0" by auto
  then show "((grp, w'), grp, w) \<in> measure (\<lambda>(grp, w). length (m_Objects w grp))"
    using a(4-6) i by (auto simp: RemoveObjectInternal_trw_def length_remove1 split: if_splits)
qed

declare ClearInternal_trw.simps [simp del]

definition SetObjects_trw ::
  "nat \<Rightarrow> nat list \<Rightarrow> ObjectWaitMode \<Rightarrow> bool \<Rightarrow> (nat \<Rightarrow> bool) \<Rightarrow> wait_groups \<Rightarrow> (unit result \<times> wait_groups) option" where
  "SetObjects_trw grp objects waitMode group_room object_room w =
     (case ClearInternal_trw grp w of
        None \<Rightarrow> None
      | Some (Inl e, w) \<Rightarrow> Some (Inl e, w)
      | Some (Inr _, w) \<Rightarrow>
          if \<not> group_room then Some (Inl NOMEM, w) else add_objects_loop grp 0 objects waitMode object_room w)"

text \<open>The destructor of an object takes it out of its groups; an exception ends the loop. The first argument bounds it, and \<open>None\<close> is also that the bound is not enough.\<close>

fun destroy_object_loop :: "nat \<Rightarrow> nat \<Rightarrow> wait_groups \<Rightarrow> wait_groups option" where
  "destroy_object_loop 0 object w = (if m_WaitGroups w object = [] then Some w else None)"
| "destroy_object_loop (Suc fuel) object w =
     (if m_WaitGroups w object = [] then Some w
      else
        let (grp, waitMode) = last (m_WaitGroups w object) in
        case RemoveObjectInternal_trw grp object waitMode w of
          None \<Rightarrow> None
        | Some (Inl e, w) \<Rightarrow> Some w
        | Some (Inr _, w) \<Rightarrow> destroy_object_loop fuel object w)"

definition KWaitableObject_destroy :: "nat \<Rightarrow> nat \<Rightarrow> wait_groups \<Rightarrow> wait_groups option" where
  "KWaitableObject_destroy fuel object w = map_option (\<lambda>w. w\<lparr>destroyed := insert object (destroyed w)\<rparr>) (destroy_object_loop fuel object w)"

text \<open>
  A group lists an object at least as often as the object lists the group, and as often unless a call that was to add the object has thrown: \<open>failed\<close> are the
  objects of such calls.
\<close>

definition listed :: "wait_groups \<Rightarrow> nat \<Rightarrow> nat \<Rightarrow> ObjectWaitMode \<Rightarrow> nat" where
  "listed w grp object mode = count (mset (m_Objects w grp)) (object, mode)"

definition linked :: "wait_groups \<Rightarrow> nat \<Rightarrow> nat \<Rightarrow> ObjectWaitMode \<Rightarrow> nat" where
  "linked w grp object mode = count (mset (m_WaitGroups w object)) (grp, mode)"

definition groups_ok :: "nat set \<Rightarrow> wait_groups \<Rightarrow> bool" where
  "groups_ok failed w \<longleftrightarrow>
     (\<forall>grp object mode. linked w grp object mode \<le> listed w grp object mode \<and> (object \<notin> failed \<longrightarrow> linked w grp object mode = listed w grp object mode)) \<and>
     (\<forall>object \<in> destroyed w. m_WaitGroups w object = [])"

lemma groups_okD:
  assumes "groups_ok failed w"
  shows "linked w grp object mode \<le> listed w grp object mode"
    "object \<notin> failed \<Longrightarrow> linked w grp object mode = listed w grp object mode"
    "object \<in> destroyed w \<Longrightarrow> m_WaitGroups w object = []"
  using assms by (simp_all add: groups_ok_def)

lemma groups_ok_more: "groups_ok failed w \<Longrightarrow> failed \<subseteq> failed' \<Longrightarrow> groups_ok failed' w"
  by (auto simp: groups_ok_def)

lemma listed_iff: "(object, mode) \<in> set (m_Objects w grp) \<longleftrightarrow> listed w grp object mode > 0"
  by (simp add: listed_def)

lemma linked_iff: "(grp, mode) \<in> set (m_WaitGroups w object) \<longleftrightarrow> linked w grp object mode > 0"
  by (simp add: linked_def)

lemma AddObject_ok:
  assumes "AddObjectInternal_trw grp object mode group_room object_room w = Some (r, w')" "groups_ok failed w"
  shows "groups_ok (if r = Inr () then failed else insert object failed) w'"
proof -
  have upd: "groups_ok (insert object failed) (w\<lparr>m_Objects := (m_Objects w)(grp := m_Objects w grp @ [(object, mode)])\<rparr>)"
    using groups_okD [OF assms(2)] by (auto simp: groups_ok_def listed_def linked_def le_SucI)
  have both: "groups_ok failed (w\<lparr>m_Objects := (m_Objects w)(grp := m_Objects w grp @ [(object, mode)]),
      m_WaitGroups := (m_WaitGroups w)(object := m_WaitGroups w object @ [(grp, mode)])\<rparr>)" if "object \<notin> destroyed w"
    using groups_okD [OF assms(2)] that by (auto simp: groups_ok_def listed_def linked_def)
  show ?thesis
    using assms upd both groups_ok_more [OF assms(2) subset_insertI]
    by (auto simp: AddObjectInternal_trw_def Let_def split: if_splits)
qed

lemma add_objects_ok:
  "add_objects_loop grp i objects mode object_room w = Some (r, w') \<Longrightarrow> groups_ok failed w \<Longrightarrow>
   groups_ok (if r = Inr () then failed else set objects \<union> failed) w'"
proof (induction objects arbitrary: i w)
  case (Cons object objects)
  obtain r1 w1 where a: "AddObjectInternal_trw grp object mode True (object_room i) w = Some (r1, w1)"
    using Cons.prems(1) by (auto split: option.splits)
  note ok = AddObject_ok [OF a Cons.prems(2)]
  show ?case
  proof (cases r1)
    case (Inl e)
    then have "r = Inl e" "w' = w1" using Cons.prems(1) a by simp_all
    then show ?thesis using ok Inl by (auto intro: groups_ok_more)
  next
    case (Inr u)
    then have "groups_ok (if r = Inr () then failed else set objects \<union> failed) w'"
      using Cons.IH [of "Suc i" w1] Cons.prems(1) a ok by simp
    then show ?thesis by (auto intro: groups_ok_more)
  qed
qed simp

lemma RemoveObject_ok:
  assumes "RemoveObjectInternal_trw grp object mode w = Some (r, w')" "groups_ok failed w"
  shows "groups_ok failed w'"
proof (cases "(object, mode) \<in> set (m_Objects w grp)")
  case True
  then have w': "m_Objects w' = (m_Objects w)(grp := remove1 (object, mode) (m_Objects w grp))"
      "m_WaitGroups w' = (m_WaitGroups w)(object := remove1 (grp, mode) (m_WaitGroups w object))" "destroyed w' = destroyed w"
    using assms(1) by (auto simp: RemoveObjectInternal_trw_def split: if_splits)
  have "listed w' g b m = (if g = grp \<and> b = object \<and> m = mode then listed w g b m - 1 else listed w g b m)"
    "linked w' g b m = (if g = grp \<and> b = object \<and> m = mode then linked w g b m - 1 else linked w g b m)" for g b m
    by (auto simp: listed_def linked_def w')
  then show ?thesis
    using groups_okD [OF assms(2)] by (auto simp: groups_ok_def w' diff_le_mono)
qed (use assms in \<open>simp add: RemoveObjectInternal_trw_def\<close>)

lemma set_insert_remove1: "x \<in> set xs \<Longrightarrow> set xs = insert x (set (remove1 x xs))"
  by (induction xs) auto

lemma ClearInternal_ok:
  "groups_ok failed w \<Longrightarrow>
   if \<exists>(object, mode) \<in> set (m_Objects w grp). object \<in> destroyed w then ClearInternal_trw grp w = None
   else \<exists>w'. ClearInternal_trw grp w = Some (Inr (), w') \<and> groups_ok failed w' \<and> m_Objects w' = (m_Objects w)(grp := []) \<and> destroyed w' = destroyed w"
proof (induction grp w rule: ClearInternal_trw.induct)
  case (1 grp w)
  note simps = ClearInternal_trw.simps [of grp w]
  show ?case
  proof (cases "m_Objects w grp = []")
    case True
    then show ?thesis using 1(2) by (simp add: simps fun_upd_idem)
  next
    case False
    obtain object mode where l: "last (m_Objects w grp) = (object, mode)" by force
    then have i: "(object, mode) \<in> set (m_Objects w grp)" using False by (metis last_in_set)
    show ?thesis
    proof (cases "object \<in> destroyed w")
      case True
      then have "ClearInternal_trw grp w = None" using False l i by (simp add: simps RemoveObjectInternal_trw_def)
      then show ?thesis using True i by auto
    next
      case live: False
      obtain w' where r: "RemoveObjectInternal_trw grp object mode w = Some (Inr (), w')"
          "m_Objects w' = (m_Objects w)(grp := remove1 (object, mode) (m_Objects w grp))" "destroyed w' = destroyed w"
        using i live by (simp add: RemoveObjectInternal_trw_def)
      have ok: "groups_ok failed w'" by (rule RemoveObject_ok [OF r(1) 1(2)])
      have c: "ClearInternal_trw grp w = ClearInternal_trw grp w'" using False l r(1) by (simp add: simps)
      have "set (m_Objects w grp) = insert (object, mode) (set (m_Objects w' grp))"
        using set_insert_remove1 [OF i] by (simp add: r(2))
      then have "(\<exists>(object, mode) \<in> set (m_Objects w grp). object \<in> destroyed w) = (\<exists>(object, mode) \<in> set (m_Objects w' grp). object \<in> destroyed w')"
        using live r(3) by auto
      with 1(1) [OF False refl l [symmetric] r(1) refl refl ok] r(2,3) show ?thesis unfolding c by (simp add: fun_eq_iff cong: if_cong)
    qed
  qed
qed

lemma destroy_object_loop_ok:
  assumes "groups_ok failed w" "length (m_WaitGroups w object) \<le> fuel" "object \<notin> destroyed w"
  shows "\<exists>w'. destroy_object_loop fuel object w = Some w' \<and> groups_ok failed w' \<and> m_WaitGroups w' object = [] \<and> destroyed w' = destroyed w \<and>
    (\<forall>grp mode. listed w' grp object mode + linked w grp object mode = listed w grp object mode)"
  using assms
proof (induction fuel arbitrary: w)
  case 0
  then show ?case by (simp add: linked_def)
next
  case (Suc fuel)
  show ?case
  proof (cases "m_WaitGroups w object = []")
    case True
    then show ?thesis using Suc.prems(1) by (simp add: linked_def)
  next
    case False
    obtain grp mode where l: "last (m_WaitGroups w object) = (grp, mode)" by force
    then have i: "(grp, mode) \<in> set (m_WaitGroups w object)" using False by (metis last_in_set)
    then have j: "(object, mode) \<in> set (m_Objects w grp)"
      using groups_okD(1) [OF Suc.prems(1), of grp object mode] by (simp add: listed_iff linked_iff)
    obtain w1 where r1: "RemoveObjectInternal_trw grp object mode w = Some (Inr (), w1)"
      using j Suc.prems(3) by (simp add: RemoveObjectInternal_trw_def)
    then have "m_Objects w1 = (m_Objects w)(grp := remove1 (object, mode) (m_Objects w grp))"
        "m_WaitGroups w1 = (m_WaitGroups w)(object := remove1 (grp, mode) (m_WaitGroups w object))" "destroyed w1 = destroyed w"
      using j by (auto simp: RemoveObjectInternal_trw_def split: if_splits)
    note r = r1 this
    have "length (m_WaitGroups w1 object) \<le> fuel" using Suc.prems(2) i r(3) by (simp add: length_remove1)
    then obtain w' where w': "destroy_object_loop fuel object w1 = Some w'" "groups_ok failed w'" "m_WaitGroups w' object = []"
        "destroyed w' = destroyed w" "\<And>g m. listed w' g object m + linked w1 g object m = listed w1 g object m"
      using Suc.IH [OF RemoveObject_ok [OF r(1) Suc.prems(1)]] Suc.prems(3) r(4) by auto
    have "listed w' g object m + linked w g object m = listed w g object m" for g m
    proof (cases "g = grp \<and> m = mode")
      case True
      then have "listed w g object m = Suc (listed w1 g object m)" "linked w g object m = Suc (linked w1 g object m)"
        using i j r(2,3) by (simp_all add: listed_def linked_def flip: count_greater_zero_iff set_mset_mset)
      then show ?thesis using w'(5) [of g m] by simp
    next
      case False
      then have "listed w g object m = listed w1 g object m" "linked w g object m = linked w1 g object m"
        using r(2,3) by (auto simp: listed_def linked_def)
      then show ?thesis using w'(5) [of g m] by simp
    qed
    then show ?thesis using False l r(1) w'(1-4) by simp
  qed
qed

text \<open>The bound only matters when it is too small.\<close>

lemma destroy_object_loop_more:
  "destroy_object_loop fuel object w = Some w' \<Longrightarrow> fuel \<le> bound \<Longrightarrow> destroy_object_loop bound object w = Some w'"
proof (induction fuel arbitrary: w bound)
  case 0
  then show ?case by (cases bound) (simp_all split: if_splits)
next
  case (Suc fuel)
  then obtain bound' where "bound = Suc bound'" "fuel \<le> bound'" by (cases bound) auto
  with Suc.prems(1) Suc.IH show ?case by (auto split: if_splits prod.splits option.splits sum.splits)
qed

lemma KWaitableObject_destroy_ok:
  assumes "groups_ok failed w" "KWaitableObject_destroy fuel object w = Some w'" "object \<notin> destroyed w"
  shows "groups_ok failed w'" "listed w' grp object mode + linked w grp object mode = listed w grp object mode"
    "destroyed w' = insert object (destroyed w)"
proof -
  obtain w1 where w1: "destroy_object_loop fuel object w = Some w1" "w' = w1\<lparr>destroyed := insert object (destroyed w1)\<rparr>"
    using assms(2) by (auto simp: KWaitableObject_destroy_def)
  have "destroy_object_loop (max fuel (length (m_WaitGroups w object))) object w = Some w1"
    by (rule destroy_object_loop_more [OF w1(1)]) simp
  with destroy_object_loop_ok [OF assms(1) _ assms(3), of "max fuel (length (m_WaitGroups w object))"]
  have w: "groups_ok failed w1" "m_WaitGroups w1 object = []" "destroyed w1 = destroyed w"
      "listed w1 grp object mode + linked w grp object mode = listed w grp object mode" by auto
  then show "groups_ok failed w'" "listed w' grp object mode + linked w grp object mode = listed w grp object mode"
    "destroyed w' = insert object (destroyed w)"
    by (simp_all add: w1(2) groups_ok_def listed_def linked_def)
qed

text \<open>What threads do to groups and objects, in any order; an object may be created where another one was. The second component is the ghost \<open>failed\<close>.\<close>

inductive group_step :: "wait_groups \<times> nat set \<Rightarrow> wait_groups \<times> nat set \<Rightarrow> bool" where
  add: "AddObjectInternal_trw grp object mode group_room object_room w = Some (r, w') \<Longrightarrow>
    group_step (w, failed) (w', if r = Inr () then failed else insert object failed)"
| append: "AppendObjects_trw grp objects mode group_room object_room w = Some (r, w') \<Longrightarrow>
    group_step (w, failed) (w', if r = Inr () then failed else set objects \<union> failed)"
| set_objects: "SetObjects_trw grp objects mode group_room object_room w = Some (r, w') \<Longrightarrow>
    group_step (w, failed) (w', if r = Inr () then failed else set objects \<union> failed)"
| remove: "RemoveObjectInternal_trw grp object mode w = Some (r, w') \<Longrightarrow> group_step (w, failed) (w', failed)"
| clear: "ClearInternal_trw grp w = Some (r, w') \<Longrightarrow> group_step (w, failed) (w', failed)"
| destroy: "object \<notin> destroyed w \<Longrightarrow> KWaitableObject_destroy fuel object w = Some w' \<Longrightarrow> group_step (w, failed) (w', failed)"
| create: "object \<in> destroyed w \<Longrightarrow> group_step (w, failed) (w\<lparr>destroyed := destroyed w - {object}\<rparr>, failed)"

definition no_groups :: "wait_groups \<times> nat set \<Rightarrow> bool" where
  "no_groups s \<longleftrightarrow> s = (\<lparr>m_Objects = \<lambda>_. [], m_WaitGroups = \<lambda>_. [], destroyed = {}\<rparr>, {})"

lemma ClearInternal_result:
  assumes "groups_ok failed w" "ClearInternal_trw grp w = Some (r, w')"
  shows "r = Inr ()" "groups_ok failed w'"
  using ClearInternal_ok [OF assms(1), of grp] assms(2) by (auto split: if_splits)

lemma group_step_ok: "group_step s s' \<Longrightarrow> groups_ok (snd s) (fst s) \<Longrightarrow> groups_ok (snd s') (fst s')"
proof (induction rule: group_step.induct)
  case (add grp object mode group_room object_room w r w' failed)
  then show ?case using AddObject_ok by simp
next
  case (append grp objects mode group_room object_room w r w' failed)
  then show ?case using add_objects_ok [of grp 0 objects mode object_room w r w' failed]
    by (auto simp: AppendObjects_trw_def intro: groups_ok_more split: if_splits)
next
  case (set_objects grp objects mode group_room object_room w r w' failed)
  then obtain r1 w1 where c: "ClearInternal_trw grp w = Some (r1, w1)" by (auto simp: SetObjects_trw_def split: option.splits)
  note ok = ClearInternal_result [OF _ c, of failed]
  show ?case
    using set_objects c ok add_objects_ok [of grp 0 objects mode object_room w1 r w' failed]
    by (auto simp: SetObjects_trw_def intro: groups_ok_more split: if_splits)
next
  case (create object w failed)
  then show ?case by (simp add: groups_ok_def listed_def linked_def)
qed (auto intro: RemoveObject_ok ClearInternal_result KWaitableObject_destroy_ok(1))

lemma reachable_groups_ok: "reaches no_groups group_step (w, failed) \<Longrightarrow> groups_ok failed w"
  using reaches_invariant [of no_groups group_step "(w, failed)" "\<lambda>s. groups_ok (snd s) (fst s)"] group_step_ok
  by (auto simp: no_groups_def groups_ok_def listed_def linked_def)



text \<open>
  When the group has taken an object and there is no memory to tell the object, \<open>AddObject_trw\<close> throws and leaves the group as it is. The destructor of the object then does not take it out of
  the group, and clearing the group, which is also what its destructor does, accesses the destroyed object.
\<close>

theorem failed_add_leaves_dangling:
  assumes "reaches no_groups group_step (w, failed)" "object \<notin> destroyed w"
    and "AddObjectInternal_trw grp object mode True False w = Some (r, w1)" "KWaitableObject_destroy fuel object w1 = Some w2"
  shows "r = Inl NOMEM \<and> (object, mode) \<in> set (m_Objects w2 grp) \<and> object \<in> destroyed w2 \<and> ClearInternal_trw grp w2 = None"
proof -
  have ok: "groups_ok failed w" by (rule reachable_groups_ok [OF assms(1)])
  have a: "r = Inl NOMEM" "w1 = w\<lparr>m_Objects := (m_Objects w)(grp := m_Objects w grp @ [(object, mode)])\<rparr>"
    using assms(2,3) by (simp_all add: AddObjectInternal_trw_def)
  have ok1: "groups_ok (insert object failed) w1" using AddObject_ok [OF assms(3) ok] a(1) by simp
  have live: "object \<notin> destroyed w1" using assms(2) a(2) by simp
  note d = KWaitableObject_destroy_ok [OF ok1 assms(4) live]
  have "listed w1 grp object mode = Suc (listed w grp object mode)" "linked w1 grp object mode = linked w grp object mode"
    by (simp_all add: a(2) listed_def linked_def)
  then have i: "(object, mode) \<in> set (m_Objects w2 grp)" "object \<in> destroyed w2"
    using d(2) [of grp mode] d(3) groups_okD(1) [OF ok, of grp object mode] by (simp_all add: listed_iff)
  then have "ClearInternal_trw grp w2 = None" using ClearInternal_ok [OF d(1), of grp] by (auto split: if_splits)
  then show ?thesis using a(1) i by simp
qed

lemma failed_add_leaves_dangling_witness:
  "\<exists>w1 w2. AddObjectInternal_trw 2 7 ReadMode True False \<lparr>m_Objects = \<lambda>_. [], m_WaitGroups = \<lambda>_. [], destroyed = {}\<rparr> = Some (Inl NOMEM, w1) \<and>
    KWaitableObject_destroy 0 7 w1 = Some w2 \<and> ClearInternal_trw 2 w2 = None"
proof -
  let ?none = "\<lparr>m_Objects = \<lambda>_. [], m_WaitGroups = \<lambda>_. [], destroyed = {}\<rparr>"
  let ?w1 = "\<lparr>m_Objects = (\<lambda>_. [])(2 := [(7, ReadMode)]), m_WaitGroups = \<lambda>_. [], destroyed = {}\<rparr>"
  have a: "AddObjectInternal_trw 2 7 ReadMode True False ?none = Some (Inl NOMEM, ?w1)" by (simp add: AddObjectInternal_trw_def)
  have d: "KWaitableObject_destroy 0 7 ?w1 = Some (?w1\<lparr>destroyed := {7}\<rparr>)" by (simp add: KWaitableObject_destroy_def)
  have "reaches no_groups group_step (?none, {})" by (rule reaches.init) (simp add: no_groups_def)
  from failed_add_leaves_dangling [OF this _ a d] a d show ?thesis by simp
qed

section \<open>Waiting\<close>

text \<open>
  The buffer for the flags has a bit per object, in 32-bit words; the targets are little endian, so flag \<open>i\<close> is bit \<open>i mod 8\<close> of byte \<open>i div 8\<close>. \<open>None\<close> is an
  access outside the buffer. \<open>ready\<close> tells of each object that \<open>AddListener\<close> returned \<open>false\<close>, and after the thread has been blocked, that its node is no
  longer on a list.
\<close>

definition max_flag_index :: "u8 list option \<Rightarrow> nat \<Rightarrow> nat" where
  "max_flag_index buffer n = (case buffer of None \<Rightarrow> 0 | Some flags \<Rightarrow> min n (length flags * 8))"

definition clear_flags :: "nat \<Rightarrow> u8 list \<Rightarrow> u8 list option" where
  "clear_flags maxFlagIndex flags =
     (let sz = maxFlagIndex + 7 - (maxFlagIndex + 7) mod 8 in if sz \<le> length flags then Some (replicate sz 0 @ drop sz flags) else None)"

definition set_flag :: "nat \<Rightarrow> u8 list \<Rightarrow> u8 list option" where
  "set_flag i flags =
     (if 4 * (i div 32) + 4 \<le> length flags then Some (flags[i div 8 := flags ! (i div 8) OR push_bit (i mod 8) 1]) else None)"

text \<open>The first result of the loop tells that it has returned early, at a ready object without a flag.\<close>

fun register_loop :: "nat \<Rightarrow> nat \<Rightarrow> bool list \<Rightarrow> u8 list \<Rightarrow> bool \<Rightarrow> (bool \<times> bool \<times> u8 list) option" where
  "register_loop maxFlagIndex i [] flags isReady = Some (False, isReady, flags)"
| "register_loop maxFlagIndex i (ready # rest) flags isReady =
     (if ready then
        if i < maxFlagIndex then
          case set_flag i flags of None \<Rightarrow> None | Some flags \<Rightarrow> register_loop maxFlagIndex (Suc i) rest flags True
        else Some (True, True, flags)
      else register_loop maxFlagIndex (Suc i) rest flags isReady)"

definition Wait_begin :: "u8 list option \<Rightarrow> bool list \<Rightarrow> (bool \<times> bool \<times> u8 list) option" where
  "Wait_begin buffer ready =
     (let maxFlagIndex = max_flag_index buffer (length ready) in
      case clear_flags maxFlagIndex (case buffer of None \<Rightarrow> [] | Some flags \<Rightarrow> flags) of
        None \<Rightarrow> None
      | Some flags \<Rightarrow> register_loop maxFlagIndex 0 ready flags False)"

fun collect_loop :: "nat \<Rightarrow> nat \<Rightarrow> bool list \<Rightarrow> u8 list \<Rightarrow> bool \<Rightarrow> (bool \<times> u8 list) option" where
  "collect_loop maxFlagIndex i [] flags isReady = Some (isReady, flags)"
| "collect_loop maxFlagIndex i (woken # rest) flags isReady =
     (if woken then
        if i < maxFlagIndex then
          case set_flag i flags of None \<Rightarrow> None | Some flags \<Rightarrow> collect_loop maxFlagIndex (Suc i) rest flags True
        else collect_loop maxFlagIndex (Suc i) rest flags True
      else collect_loop maxFlagIndex (Suc i) rest flags isReady)"

text \<open>
  The whole of \<open>Wait\<close>: \<open>woken\<close> tells of each node that it is off its list when the thread goes on, \<open>slept\<close> that the sleep node was still on its list then, and
  \<open>pending\<close> is the result of giving way to threads that want to change the group, if there are any.
\<close>

definition Wait :: "u8 list option \<Rightarrow> bool list \<Rightarrow> bool list \<Rightarrow> bool \<Rightarrow> bool \<Rightarrow> PErrorCode option \<Rightarrow> (PErrorCode \<times> u8 list) option" where
  "Wait buffer ready woken slept infinit pending =
     (case Wait_begin buffer ready of
        None \<Rightarrow> None
      | Some (early, isReady, flags) \<Rightarrow>
          if isReady then Some (Success, flags)
          else
            let didTimeout = (\<not> slept \<and> \<not> infinit) in
            case collect_loop (max_flag_index buffer (length ready)) 0 woken flags isReady of
              None \<Rightarrow> None
            | Some (isReady, flags) \<Rightarrow>
                if \<not> didTimeout \<and> pending \<noteq> None \<and> pending \<noteq> Some Success then Some (the pending, flags)
                else if \<not> isReady then Some (if didTimeout then TIMEDOUT else INTR, flags)
                else Some (Success, flags))"

definition flag :: "u8 list \<Rightarrow> nat \<Rightarrow> bool" where
  "flag flags i = bit (flags ! (i div 8)) (i mod 8)"

text \<open>\<open>sets flags P flags'\<close>: the flags \<open>P\<close> are set on top of the ones that were.\<close>

definition sets :: "u8 list \<Rightarrow> (nat \<Rightarrow> bool) \<Rightarrow> u8 list \<Rightarrow> bool" where
  "sets flags P flags' \<longleftrightarrow> length flags' = length flags \<and> (\<forall>j. flag flags' j = (flag flags j \<or> P j))"

lemma sets_trans: "sets f P g \<Longrightarrow> sets g Q h \<Longrightarrow> (\<And>j. R j = (P j \<or> Q j)) \<Longrightarrow> sets f R h"
  by (simp add: sets_def disj_assoc)

lemma sets_none: "(\<And>j. \<not> P j) \<Longrightarrow> sets f P f"
  by (simp add: sets_def)

lemma set_flag_ok:
  assumes "4 * (i div 32) + 4 \<le> length flags"
  shows "\<exists>flags'. set_flag i flags = Some flags' \<and> sets flags (\<lambda>j. j = i) flags'"
proof -
  have i: "i div 8 < length flags" using assms by linarith
  have "bit (flags[i div 8 := flags ! (i div 8) OR push_bit (i mod 8) 1] ! (j div 8)) (j mod 8) =
      (bit (flags ! (j div 8)) (j mod 8) \<or> j = i)" for j
  proof (cases "j div 8 = i div 8")
    case True
    have "j mod 8 = i mod 8 \<longleftrightarrow> j = i" using True by (metis div_mult_mod_eq)
    then show ?thesis using True i by (auto simp: bit_or_iff bit_exp_iff)
  next
    case False
    then show ?thesis by auto
  qed
  then show ?thesis using assms by (simp add: set_flag_def flag_def sets_def)
qed

definition bits_from :: "nat \<Rightarrow> bool list \<Rightarrow> nat \<Rightarrow> bool" where
  "bits_from i bs j \<longleftrightarrow> i \<le> j \<and> j < i + length bs \<and> bs ! (j - i)"

lemma bits_from_Nil: "\<not> bits_from i [] j"
  by (simp add: bits_from_def)

lemma bits_from_Cons: "bits_from i (b # bs) j \<longleftrightarrow> j = i \<and> b \<or> bits_from (Suc i) bs j"
proof (cases "i < j")
  case True
  then obtain k where "j = i + Suc k" using less_imp_Suc_add by auto
  then show ?thesis by (simp add: bits_from_def)
next
  case False
  then show ?thesis by (cases "j = i") (auto simp: bits_from_def)
qed

lemma register_loop_ok:
  assumes "i + length ready \<le> maxFlagIndex" "\<forall>j<maxFlagIndex. 4 * (j div 32) + 4 \<le> length flags"
  shows "\<exists>flags'. register_loop maxFlagIndex i ready flags isReady = Some (False, isReady \<or> True \<in> set ready, flags') \<and>
    sets flags (bits_from i ready) flags'"
  using assms
proof (induction ready arbitrary: i flags isReady)
  case Nil
  then show ?case by (simp add: sets_none bits_from_Nil)
next
  case (Cons r ready)
  have i: "i < maxFlagIndex" "Suc i + length ready \<le> maxFlagIndex" using Cons.prems(1) by simp_all
  show ?case
  proof (cases r)
    case True
    obtain flags1 where f: "set_flag i flags = Some flags1" "sets flags (\<lambda>j. j = i) flags1"
      using set_flag_ok Cons.prems(2) i(1) by blast
    have l: "\<forall>j<maxFlagIndex. 4 * (j div 32) + 4 \<le> length flags1" using Cons.prems(2) f(2) by (simp add: sets_def)
    obtain flags' where f': "register_loop maxFlagIndex (Suc i) ready flags1 True = Some (False, True, flags')" "sets flags1 (bits_from (Suc i) ready) flags'"
      using Cons.IH [OF i(2) l, of True] by auto
    have "sets flags (bits_from i (r # ready)) flags'" using sets_trans [OF f(2) f'(2)] True by (simp add: bits_from_Cons)
    then show ?thesis using True i(1) f(1) f'(1) by simp
  next
    case False
    then have "bits_from i (r # ready) = bits_from (Suc i) ready" by (simp add: fun_eq_iff bits_from_Cons)
    then show ?thesis using False Cons.IH [OF i(2) Cons.prems(2), of isReady] by simp
  qed
qed

lemma collect_loop_ok:
  assumes "\<forall>j<maxFlagIndex. 4 * (j div 32) + 4 \<le> length flags"
  shows "\<exists>flags'. collect_loop maxFlagIndex i woken flags isReady = Some (isReady \<or> True \<in> set woken, flags') \<and>
    sets flags (\<lambda>j. j < maxFlagIndex \<and> bits_from i woken j) flags'"
  using assms
proof (induction woken arbitrary: i flags isReady)
  case Nil
  then show ?case by (simp add: sets_none bits_from_Nil)
next
  case (Cons r woken)
  show ?case
  proof (cases "r \<and> i < maxFlagIndex")
    case True
    obtain flags1 where f: "set_flag i flags = Some flags1" "sets flags (\<lambda>j. j = i) flags1"
      using set_flag_ok Cons.prems True by blast
    have l: "\<forall>j<maxFlagIndex. 4 * (j div 32) + 4 \<le> length flags1" using Cons.prems f(2) by (simp add: sets_def)
    obtain flags' where f': "collect_loop maxFlagIndex (Suc i) woken flags1 True = Some (True, flags')"
        "sets flags1 (\<lambda>j. j < maxFlagIndex \<and> bits_from (Suc i) woken j) flags'"
      using Cons.IH [OF l, of "Suc i" True] by auto
    have "sets flags (\<lambda>j. j < maxFlagIndex \<and> bits_from i (r # woken) j) flags'"
      by (rule sets_trans [OF f(2) f'(2)]) (use True in \<open>auto simp: bits_from_Cons\<close>)
    then show ?thesis using True f(1) f'(1) by simp
  next
    case False
    then have e: "(j < maxFlagIndex \<and> bits_from i (r # woken) j) \<longleftrightarrow> (j < maxFlagIndex \<and> bits_from (Suc i) woken j)" for j
      by (auto simp: bits_from_Cons)
    show ?thesis unfolding e using False Cons.IH [OF Cons.prems, of "Suc i" "isReady \<or> r"] by (cases r) simp_all
  qed
qed

lemma clear_flags_ok:
  assumes "8 * ((n + 7) div 8) \<le> length flags"
  shows "clear_flags n flags = Some (replicate (8 * ((n + 7) div 8)) 0 @ drop (8 * ((n + 7) div 8)) flags)"
    "j < n \<Longrightarrow> \<not> flag (replicate (8 * ((n + 7) div 8)) 0 @ drop (8 * ((n + 7) div 8)) flags) j"
proof -
  show "clear_flags n flags = Some (replicate (8 * ((n + 7) div 8)) 0 @ drop (8 * ((n + 7) div 8)) flags)"
    using assms by (simp add: clear_flags_def Let_def minus_mod_eq_mult_div)
  assume "j < n"
  then have "j div 8 < 8 * ((n + 7) div 8)" by linarith
  then show "\<not> flag (replicate (8 * ((n + 7) div 8)) 0 @ drop (8 * ((n + 7) div 8)) flags) j"
    by (simp add: nth_append flag_def)
qed

text \<open>C32. If the buffer has room for what is cleared, waiting reports the objects that are ready: a flag is set exactly for each object that was ready when
the caller registered with it or, if none was, that has woken the caller. The result is a success exactly if there is one, whatever the timeout.\<close>

theorem wait_flags_right:
  assumes "length woken = length ready" "8 * ((length ready + 7) div 8) \<le> length buffer"
  shows "\<exists>flags. Wait (Some buffer) ready woken slept infinit None =
      Some (if True \<in> set ready \<or> True \<in> set woken then Success else if \<not> slept \<and> \<not> infinit then TIMEDOUT else INTR, flags) \<and>
    length flags = length buffer \<and>
    (\<forall>i<length ready. flag flags i = (if True \<in> set ready then ready ! i else woken ! i))"
proof -
  define n where "n = length ready"
  define cleared where "cleared = replicate (8 * ((n + 7) div 8)) 0 @ drop (8 * ((n + 7) div 8)) buffer"
  have m: "max_flag_index (Some buffer) n = n" using assms(2) by (simp add: max_flag_index_def n_def)
  have b: "8 * ((n + 7) div 8) \<le> length buffer" using assms(2) by (simp add: n_def)
  note c = clear_flags_ok [OF b, folded cleared_def]
  have len: "length cleared = length buffer" using b by (simp add: cleared_def)
  have room: "\<forall>j<n. 4 * (j div 32) + 4 \<le> length cleared"
  proof (intro allI impI)
    fix j assume "j < n"
    then have "(j + 8) div 8 \<le> (n + 7) div 8" by (intro div_le_mono) simp
    moreover have "(j + 8) div 8 = j div 8 + 1" "j div 32 \<le> j div 8" by (simp_all add: div_le_mono2)
    ultimately have "4 * (j div 32) + 4 \<le> 8 * ((n + 7) div 8)" by linarith
    then show "4 * (j div 32) + 4 \<le> length cleared" using b len by simp
  qed
  obtain flags where f: "register_loop n 0 ready cleared False = Some (False, True \<in> set ready, flags)" "sets cleared (bits_from 0 ready) flags"
    using register_loop_ok [of 0 ready n cleared False] room by (auto simp: n_def)
  have f0: "flag flags i = ready ! i" if "i < n" for i using f(2) c(2) [OF that] that by (simp add: sets_def bits_from_def n_def)
  have room': "\<forall>j<n. 4 * (j div 32) + 4 \<le> length flags" using room f(2) by (simp add: sets_def)
  obtain flags' where f': "collect_loop n 0 woken flags False = Some (True \<in> set woken, flags')" "sets flags (\<lambda>j. j < n \<and> bits_from 0 woken j) flags'"
    using collect_loop_ok [OF room', of 0 woken False] by auto
  have reg: "Wait_begin (Some buffer) ready = Some (False, True \<in> set ready, flags)"
    using f(1) m c(1) by (simp add: Wait_begin_def n_def)
  show ?thesis
  proof (cases "True \<in> set ready")
    case True
    then show ?thesis using reg f0 f(2) len by (simp add: Wait_def sets_def n_def)
  next
    case False
    have "\<not> ready ! i" if "i < n" for i
      using False that nth_mem [of i ready] by (cases "ready ! i") (auto simp: n_def)
    then have "flag flags' i = woken ! i" if "i < n" for i
      using f0 [OF that] f'(2) that assms(1) by (auto simp: sets_def bits_from_def n_def)
    moreover have "length flags' = length buffer" using f(2) f'(2) len by (simp add: sets_def)
    ultimately show ?thesis using False reg f'(1) m by (simp add: Wait_def n_def)
  qed
qed

lemma wait_flags_right_witness:
  "\<exists>flags. Wait (Some [255, 1, 2, 3, 4, 5, 6, 7]) [False, False, False] [True, False, True] True False None = Some (Success, flags) \<and>
    flag flags 0 \<and> \<not> flag flags 1 \<and> flag flags 2"
proof -
  obtain flags where f: "Wait (Some [255, 1, 2, 3, 4, 5, 6, 7]) [False, False, False] [True, False, True] True False None = Some (Success, flags)"
      "\<forall>i<length [False, False, False]. flag flags i = [True, False, True] ! i"
    using wait_flags_right [where woken = "[True, False, True]" and ready = "[False, False, False]" and buffer = "[255, 1, 2, 3, 4, 5, 6, 7]"
        and slept = True and infinit = False] by auto
  show ?thesis using f(1) spec [OF f(2), of 0] spec [OF f(2), of 1] spec [OF f(2), of 2] by auto
qed

text \<open>\<open>memset\<close> is told to clear \<open>(maxFlagIndex + 7) & ~7\<close> bytes, although \<open>maxFlagIndex\<close> counts flags, of which a byte holds eight: a buffer with a bit for
each object, but with less bytes than objects, is overrun.\<close>

theorem wait_flags_overrun:
  assumes "length ready \<le> 8 * length buffer" "length buffer < length ready"
  shows "Wait (Some buffer) ready woken slept infinit pending = None"
proof -
  have "\<not> length ready + 7 - (length ready + 7) mod 8 \<le> length buffer"
    using assms(2) mod_less_divisor [of 8 "length ready + 7"] by linarith
  then show ?thesis using assms(1) by (simp add: Wait_def Wait_begin_def max_flag_index_def clear_flags_def)
qed

lemma wait_flags_overrun_witness:
  "Wait (Some [0, 0, 0, 0]) [False, False, False, False, False] [False, False, False, False, True] True True None = None"
  using wait_flags_overrun [where buffer = "[0, 0, 0, 0]" and ready = "[False, False, False, False, False]"] by simp

end
