(* ===== verification/Spec2Isabelle.thy ===== *)
theory Spec2Isabelle
  imports CircularBuffer Base64 UTF8 HashCalculator POSIXTokenizer IntrusiveList Scheduler KSemaphore KConditionVariable KHandleArray FATInodeMaps FATAllocation FATLimits BlockCacheFaults
    RegionOptimize LineClip PipeSystem MessagePortSystem KObjectWaitGroup
begin

text \<open>
  A verification development for PadOS, an operating system for 32-bit microcontrollers. The program is a preemptive kernel (scheduler,
  clocks, synchronisation objects, handle tables, pipes, message ports), a virtual file system with a FAT driver on a block cache, device drivers, and
  a user space library with a GUI. The development models the core of the kernel, the block cache, the FAT driver's volume and allocation
  table, and the self-contained algorithms of the library, the clip regions of the GUI among them. Paths below are relative to \<open>src/\<close>.

  How the parts interact. The kernel's lists (ready lists, wait queues, the sleep list) are instances of the intrusive list. A thread
  that blocks in a semaphore, mutex or condition variable puts a wait node on the queue of the object, and possibly one on the sleep list,
  and asks for a context switch; wakeups come from other threads, from the timer interrupt and from signals.
  Pipes and message ports guard their state with a mutex and let callers wait on condition variables; wait groups let a thread wait for several
  objects at once. Objects are found through handle tables. The FAT driver validates the boot sector once and from then on relies on the geometry
  it found; entries of the table are read and written through an iterator that keeps blocks of the cache and copies changes to the
  mirror FATs; chains and allocation are built on single entries. The blocks of all devices share one pool of buffers, which a thread of the
  cache writes back.

  Theories, in the order they build on each other:

  \<^item> \<open>Prelude\<close>: machine integers, error codes, the result type (\<open>Inl\<close> an error or a thrown exception, \<open>Inr\<close> a value;
    a failed \<open>assert\<close> is the error \<open>Fault\<close>), shared lemmas.
  \<^item> \<open>CircularBuffer\<close> (\<open>Include/Utils/CircularBuffer.h\<close>): the ring buffer with free-running 32-bit counters. It implements a
    lossy queue, stated as locale \<open>lossy_queue\<close>.
  \<^item> \<open>Base64\<close>, \<open>UTF8\<close>, \<open>HashCalculator\<close>, \<open>POSIXTokenizer\<close>: the codecs, the validator and iterator of UTF-8, the checksums,
    and the command line tokenizer (\<open>Include/Utils\<close>, \<open>System/Utils\<close>). Round trips, exactness against
    reference definitions, error detection.
  \<^item> \<open>IntrusiveList\<close> (\<open>Include/Utils/IntrusiveList.h\<close>): the list at pointer level, an explicit heap of nodes, refined to plain
    lists. Later theories use plain lists on the strength of this refinement.
  \<^item> \<open>TimeValue\<close>, \<open>KTime\<close> (\<open>Include/System/TimeValue.h\<close>, \<open>Kernel/KTime.cpp\<close>): time values of any resolution with infinity,
    and deadlines on the kernel's clocks.
  \<^item> \<open>Scheduler\<close> (\<open>Kernel/Scheduler.cpp\<close>, \<open>Kernel/KThreadCB.cpp\<close>, \<open>Kernel/KNamedObject.cpp\<close>): the record \<open>kernel\<close> holds the
    globals of the scheduler and the threads; every definition is a stretch of code that runs with interrupts off and is
    therefore atomic. \<open>kernel_step\<close> and \<open>kernel_reachable\<close> interleave them; the invariant \<open>cpu_inv\<close> is kept by all of them. That a ready
    thread stands on the list of its priority is kept by all but a change of the priority of a ready thread, and the choice of the next thread is
    stated in terms of these lists.
  \<^item> \<open>WaitQueue\<close>: what the synchronisation objects share, as locale \<open>wait_object\<close>: which actions on its wait queue a step
    relation may use, and that then no waiter is lost.
  \<^item> \<open>KSemaphore\<close>, \<open>KMutex\<close>, \<open>KConditionVariable\<close> (the files of these names): blocking calls split at their critical sections,
    interleaved with each other, with interrupts and with context switches; mutual exclusion, counting, no lost wakeups. Each
    interprets \<open>wait_object\<close> on its own step relation.
  \<^item> \<open>MonitorQueue\<close>: the same for objects built on a mutex and condition variables, as locale \<open>monitor_queue\<close>: a caller sleeps only while it must.
  \<^item> \<open>Pipe\<close>, \<open>PipeSystem\<close> (\<open>Kernel/VFS/KPipeFilesystem.cpp\<close>): the ring buffer of a pipe and the sections of its operations between two waits; any
    interleaving of readers, writers, opens and closes hands over the bytes in order. \<open>PipeSystem\<close> interprets \<open>monitor_queue\<close> for readers and for writers.
  \<^item> \<open>KMessagePort\<close>, \<open>MessagePortSystem\<close> (\<open>Kernel/KMessagePort.cpp\<close>): queues of messages linked in allocated memory, and the cache of free messages that
    all ports share. Every port is a queue, no access leaves its block, and senders and receivers interpret \<open>monitor_queue\<close>.
  \<^item> \<open>KObjectWaitGroup\<close> (\<open>Kernel/KObjectWaitGroup.cpp\<close>, \<open>Kernel/KWaitableObject.cpp\<close>): who is in which group, also when memory
    runs out while one is changed, and the flags that a wait returns.
  \<^item> \<open>KHandleArray\<close> (\<open>Kernel/KHandleArray.cpp\<close>): the three-level table of handles, refined to a map.
  \<^item> \<open>FATVolume\<close>, \<open>FATInodeMaps\<close> (\<open>Kernel/FSDrivers/FAT/FATVolume.cpp\<close>): boot sector validation, and the maps
    between inode identifiers and locations.
  \<^item> \<open>FATEntryCodec\<close>, \<open>FATTableIterator\<close>, \<open>FATMirrors\<close> (\<open>Kernel/FSDrivers/FAT/FATTableIterator.cpp\<close>): entries of 12, 16 and 28 bits as
    groups of bits (locale \<open>entry_codec\<close>, interpreted three times), the iterator, and writing an entry in all copies, with what
    happens to an entry of which only one of its two sectors is loaded.
  \<^item> \<open>FATTable\<close>, \<open>FATAllocation\<close>, \<open>FATLimits\<close> (\<open>Kernel/FSDrivers/FAT/FATTable.cpp\<close>): following, releasing and allocating chains
    with the rollback of a failed allocation, on the volumes of \<open>table_ok\<close>: 32-bit ones, and 16-bit ones of at most 0xffee clusters, with a
    block cache that does not throw; and two cases outside of it in which the code misbehaves.
  \<^item> \<open>KBlockCache\<close>, \<open>BlockCacheMemory\<close>, \<open>BlockCacheFaults\<close> (\<open>Kernel/VFS/KBlockCache.cpp\<close>): the pool of blocks and
    the operations of the cache, split where its mutex is released; \<open>cache_run\<close> interleaves clients and the flushing thread, and
    every read gives what was stored last, or, once a write of the device has failed, what that has left; and two cases in which the code loses data.
  \<^item> \<open>Region\<close>, \<open>RegionCover\<close>, \<open>RegionPoints\<close>, \<open>RegionOptimize\<close>, \<open>LineClip\<close> (\<open>System/GUI/Region.cpp\<close>, \<open>Include/Math/Rect.h\<close>): regions as
    vectors of rectangles, refined to sets of points by counting how many rectangles cover a point; merging; clipping of lines.

  Conventions. State is a record that operations take and return; mutable arguments are returned. Integers that can wrap are words of their
  width; counters bounded by an invariant are naturals or integers, as the theory says. What the code calls but the repository
  does not define, or the model leaves out (whether an allocation succeeds, whether the block cache throws while it fetches a sector),
  is an argument of the definitions and every theorem holds for all its values, unless a hypothesis says otherwise.

  Termination. Loops are functions that are total in HOL, by structural recursion or with a measure that the code maintains. The one loop
  that in the code may run forever, the retry loop of \<open>AllocHandle\<close>, has a fuel argument, and \<open>None\<close> means that it was not enough;
  \<open>AllocHandle_total\<close> names an amount that is enough whenever a handle is free and allocations succeed, and \<open>AllocHandle_livelock\<close> a case in which
  none is. \<open>Optimize\<close> has a fuel argument too, and one round per rectangle and one more are enough. The destructor of a waitable object has one for the
  groups it leaves, and their number is enough. Following a cluster chain is bounded by the counter of the code itself. The copy loops of a pipe and the
  deletion of a port end because of invariants; they are partial functions, \<open>None\<close> is a loop without end, and the invariants are shown to exclude it.

  Not modelled: floating point constructors of time values; thread-local storage and the assembly of exception handlers; real concurrency (the
  kernel runs on one core); diagnostics of the block cache; directories and files of the FAT driver; path lookup and
  dispatch of the virtual file system; thread states during the wait of a wait group; terminals, processes and system calls; registers, drivers and
  USB, whose behaviour is that of hardware; drawing and the views of the GUI; start-up; logging.
\<close>

end
